(* ===== verification/Prelude.thy ===== *)
theory Prelude
  imports Main "HOL-Library.Word" "HOL-Library.Monad_Syntax"
begin

text \<open>
  Shared vocabulary of the development: the C integer types as words, byte buffers with
  bounds-checked access, result codes, the allocation oracle, and the list lemmas that
  several components use.

  Conventions.
  \<^item> A pointer into a buffer is the list of bytes from that pointer on; reading outside the
    buffer is \<open>None\<close>. A definition of type \<open>_ option\<close> returns \<open>None\<close> exactly where the C code
    would have undefined behaviour (an access out of bounds, a null dereference) or would
    not return.
  \<^item> Result codes keep the numeric values of sqlite3.h.
  \<^item> \<open>malloc_next\<close> is the allocation oracle: the list holds the outcomes of the next calls
    of the allocator, and calls beyond its end succeed. Any terminating run makes finitely
    many calls, so every pattern of failures is one of these lists.
\<close>

unbundle bit_operations_syntax

type_synonym u8 = "8 word"
type_synonym u16 = "16 word"
type_synonym u32 = "32 word"
type_synonym u64 = "64 word"
type_synonym i64 = "64 word"

named_theorems codes \<open>numeric values of the result codes and of the other constants\<close>
named_theorems buf_simps \<open>reading and writing byte buffers\<close>

subsection \<open>Result codes\<close>

type_synonym rc = int

definition SQLITE_OK :: rc where "SQLITE_OK = 0"
definition SQLITE_ERROR :: rc where "SQLITE_ERROR = 1"
definition SQLITE_BUSY :: rc where "SQLITE_BUSY = 5"
definition SQLITE_NOMEM :: rc where "SQLITE_NOMEM = 7"
definition SQLITE_CORRUPT :: rc where "SQLITE_CORRUPT = 11"
definition SQLITE_DONE :: rc where "SQLITE_DONE = 101"

lemmas rc_defs [codes] =
  SQLITE_OK_def SQLITE_ERROR_def SQLITE_BUSY_def SQLITE_NOMEM_def SQLITE_CORRUPT_def
  SQLITE_DONE_def

subsection \<open>Buffers\<close>

definition peek :: "'a list \<Rightarrow> nat \<Rightarrow> 'a option" where
  "peek p i = (if i < length p then Some (p ! i) else None)"

definition poke :: "'a list \<Rightarrow> nat \<Rightarrow> 'a \<Rightarrow> 'a list option" where
  "poke p i b = (if i < length p then Some (p[i := b]) else None)"

lemma peek_Some_iff [buf_simps]: "peek p i = Some b \<longleftrightarrow> i < length p \<and> p ! i = b"
  by (auto simp: peek_def)

lemma peek_None_iff [buf_simps]: "peek p i = None \<longleftrightarrow> length p \<le> i"
  by (auto simp: peek_def)

lemma poke_Some_iff [buf_simps]: "poke p i b = Some q \<longleftrightarrow> i < length p \<and> q = p[i := b]"
  by (auto simp: poke_def)

lemma peek_lt [simp]: "i < length p \<Longrightarrow> peek p i = Some (p ! i)"
  by (simp add: peek_def)

lemma poke_lt [simp]: "i < length p \<Longrightarrow> poke p i b = Some (p[i := b])"
  by (simp add: poke_def)

lemma peek_append1: "i < length p \<Longrightarrow> peek (p @ q) i = Some (p ! i)"
  by (simp add: peek_def nth_append)

lemma peek_append2: "length p \<le> i \<Longrightarrow> peek (p @ q) i = peek q (i - length p)"
  by (auto simp: peek_def nth_append)

lemma peek_Cons_0 [simp]: "peek (x # xs) 0 = Some x"
  by (simp add: peek_def)

lemma peek_Cons_numeral [simp]: "peek (x # xs) (numeral n) = peek xs (pred_numeral n)"
  by (simp add: peek_def numeral_eq_Suc)

lemma bind_SomeE: "m \<bind> f = Some y \<Longrightarrow> (\<And>x. m = Some x \<Longrightarrow> f x = Some y \<Longrightarrow> Q) \<Longrightarrow> Q"
  by (cases m) simp_all

subsection \<open>Bits of words\<close>

text \<open>
  Two words are compared bit by bit at concrete positions: the indices of a 32-bit or a
  64-bit word are \<open>8 * i + j\<close> for \<open>i\<close>, \<open>j\<close> among the literals below, which the simplifier
  evaluates.
\<close>

named_theorems bit_eval \<open>bits of masked, shifted and joined words\<close>

abbreviation octet :: "nat list" where
  "octet \<equiv> [0, 1, 2, 3, 4, 5, 6, 7]"

lemma octet_iff: "(\<forall>i<8. P i) \<longleftrightarrow> list_all P octet"
  by (auto simp add: eval_nat_numeral All_less_Suc)

lemma bit_eqI64:
  assumes "list_all (\<lambda>i. list_all (\<lambda>j. bit x (8 * i + j) = bit y (8 * i + j)) octet) octet"
  shows "x = (y :: 64 word)"
proof (rule bit_word_eqI)
  fix n :: nat assume "n < LENGTH(64)"
  then have "n div 8 < 8" and "n mod 8 < 8" by simp_all
  with assms have "bit x (8 * (n div 8) + n mod 8) = bit y (8 * (n div 8) + n mod 8)"
    unfolding octet_iff [symmetric] by blast
  then show "bit x n = bit y n" by simp
qed

lemma quartet_iff: "(\<forall>i<4. P i) \<longleftrightarrow> list_all P [0, 1, 2, 3 :: nat]"
  by (auto simp add: eval_nat_numeral All_less_Suc)

lemma bit_eqI32:
  assumes "list_all (\<lambda>i. list_all (\<lambda>j. bit x (8 * i + j) = bit y (8 * i + j)) octet) [0, 1, 2, 3]"
  shows "x = (y :: 32 word)"
proof (rule bit_word_eqI)
  fix n :: nat assume "n < LENGTH(32)"
  then have "n div 8 < 4" and "n mod 8 < 8" by simp_all
  with assms have "bit x (8 * (n div 8) + n mod 8) = bit y (8 * (n div 8) + n mod 8)"
    unfolding octet_iff [symmetric] quartet_iff [symmetric] by blast
  then show "bit x n = bit y n" by simp
qed

lemma mask7_eq: "(127 :: 'a::len word) = mask 7"
  by (simp add: mask_eq_exp_minus_1)

lemma and_0x80_eq_0: "(x :: u32) AND 0x80 = 0 \<longleftrightarrow> \<not> bit x 7"
  by (simp add: and_exp_eq_0_iff_not_bit [of x 7, simplified])

lemma bit_u8_less: "bit (b :: u8) n \<Longrightarrow> n < 8"
  using bit_imp_le_length by fastforce

lemma bit_u8_high: "8 \<le> (numeral n :: nat) \<Longrightarrow> \<not> bit (b :: u8) (numeral n)"
  by (metis bit_u8_less not_less)

lemmas [bit_eval] = mask7_eq bit_simps bit_u8_high

lemma unat_less: "unat (w :: 'a::len word) < 2 ^ LENGTH('a)"
  by (rule unsigned_less)

lemma bit_u32_high [bit_eval]: "32 \<le> (numeral n :: nat) \<Longrightarrow> \<not> bit (b :: u32) (numeral n)"
  by (auto dest: bit_imp_le_length)

lemma bit_u64_high [bit_eval]: "64 \<le> (numeral n :: nat) \<Longrightarrow> \<not> bit (b :: u64) (numeral n)"
  by (auto dest: bit_imp_le_length)

lemma bit_eqI8:
  assumes "list_all (\<lambda>j. bit x j = bit y j) octet" shows "x = (y :: u8)"
proof (rule bit_word_eqI)
  fix n :: nat assume "n < LENGTH(8)"
  then show "bit x n = bit y n" using assms unfolding octet_iff [symmetric] by simp
qed

subsection \<open>Allocation\<close>

type_synonym oom = "bool list"

fun malloc_next :: "oom \<Rightarrow> bool \<times> oom" where
  "malloc_next [] = (True, [])"
| "malloc_next (b # bs) = (b, bs)"

text \<open>No allocation of the run fails.\<close>

abbreviation no_oom :: "oom \<Rightarrow> bool" where
  "no_oom m \<equiv> list_all (\<lambda>b. b) m"

lemma malloc_next_no_oom: "no_oom m \<Longrightarrow> malloc_next m = (b, m') \<Longrightarrow> b \<and> no_oom m'"
  by (cases m) auto

subsection \<open>Pointers\<close>

text \<open>Records that the code links by pointers live in a store, a map from addresses to records;
  address 0 is the null pointer.\<close>

type_synonym addr = nat

text \<open>\<open>p->field = ...\<close>: an update through a pointer, undefined when it addresses no element.\<close>

definition upd :: "(addr \<Rightarrow> 'e option) \<Rightarrow> addr \<Rightarrow> ('e \<Rightarrow> 'e) \<Rightarrow> (addr \<Rightarrow> 'e option) option" where
  "upd m a f = (case m a of None \<Rightarrow> None | Some e \<Rightarrow> Some (m(a \<mapsto> f e)))"

lemma upd_Some [simp]: "m a = Some e \<Longrightarrow> upd m a f = Some (m(a \<mapsto> f e))"
  by (simp add: upd_def)

text \<open>The first and the last element of a linked list, with the pointers around it.\<close>

definition hd0 :: "addr list \<Rightarrow> addr \<Rightarrow> addr" where
  "hd0 xs n = (if xs = [] then n else hd xs)"

definition last0 :: "addr list \<Rightarrow> addr \<Rightarrow> addr" where
  "last0 xs p = (if xs = [] then p else last xs)"

lemma hd0_simps [simp]: "hd0 [] n = n" "hd0 (x # xs) n = x" "last0 [] p = p" "last0 (xs @ [x]) p = x"
  by (simp_all add: hd0_def last0_def)

lemma hd0_append: "hd0 (xs @ ys) n = hd0 xs (hd0 ys n)"
  by (cases xs) auto

lemma last0_Cons: "last0 (x # xs) p = last0 xs x"
  by (simp add: last0_def)

end
