(* ===== verification/Varint.thy ===== *)
theory Varint
  imports Prelude
begin

text \<open>
  The variable-length integers and the four-byte big-endian integers of the file format
  (util.c). A pointer \<open>p\<close> is the list of bytes from that address on; an out parameter is
  returned beside the byte count. The 32-bit accumulators a, b, s of the decoder keep
  their width, so every shift drops the bits the C code drops.
\<close>

subsection \<open>Encoding\<close>

text \<open>The seven-bit groups of \<open>v\<close>, least significant first, as the do-while loop fills
  \<open>buf\<close>: one group, then the rest while \<open>v\<close> is not zero.\<close>

function varint_groups :: "u64 \<Rightarrow> u8 list" where
  "varint_groups v =
     (let g = (ucast (v AND 0x7f) :: u8) OR 0x80; v' = drop_bit 7 v
      in if v' \<noteq> 0 then g # varint_groups v' else [g])"
  by pat_completeness auto
termination
proof (relation "measure unat")
  show "wf (measure (unat :: u64 \<Rightarrow> nat))" by simp
  fix v x :: u64 and g :: u8
  assume "x = drop_bit 7 v" and "x \<noteq> 0"
  then have "unat x = unat v div 128" and "unat x \<noteq> 0"
    by (simp_all add: unat_div drop_bit_eq_div flip: unat_eq_0)
  then show "(x, v) \<in> measure unat" by simp
qed

declare varint_groups.simps [simp del]

text \<open>The loop of the nine-byte branch: \<open>n\<close> groups, each with its high bit set, written
  from the last position to the first.\<close>

fun varint_high :: "nat \<Rightarrow> u64 \<Rightarrow> u8 list \<Rightarrow> u8 list" where
  "varint_high 0 v acc = acc"
| "varint_high (Suc n) v acc =
     varint_high n (drop_bit 7 v) (((ucast (v AND 0x7f) :: u8) OR 0x80) # acc)"

definition sqlite3PutVarint :: "u64 \<Rightarrow> u8 list" where
  "sqlite3PutVarint v =
     (if v AND push_bit 32 0xff000000 \<noteq> 0
      then varint_high 8 (drop_bit 8 v) [ucast v]
      else let buf = varint_groups v in rev (buf[0 := buf ! 0 AND 0x7f]))"

definition sqlite3PutVarint32 :: "u32 \<Rightarrow> u8 list" where
  "sqlite3PutVarint32 v =
     (if v AND NOT 0x3fff = 0
      then [ucast (drop_bit 7 v) OR 0x80, ucast (v AND 0x7f)]
      else sqlite3PutVarint (ucast v))"

text \<open>The macro of sqliteInt.h: the one-byte case is inlined.\<close>

definition putVarint32 :: "u32 \<Rightarrow> u8 list" where
  "putVarint32 v = (if v < 0x80 then [ucast v] else sqlite3PutVarint32 v)"

function sqlite3VarintLen_loop :: "nat \<Rightarrow> u64 \<Rightarrow> nat" where
  "sqlite3VarintLen_loop i v =
     (let i' = i + 1; v' = drop_bit 7 v
      in if v' \<noteq> 0 \<and> i' < 9 then sqlite3VarintLen_loop i' v' else i')"
  by pat_completeness auto
termination by (relation "measure (\<lambda>(i, v). 9 - i)") auto

definition sqlite3VarintLen :: "u64 \<Rightarrow> nat" where
  "sqlite3VarintLen v = sqlite3VarintLen_loop 0 v"

subsection \<open>Decoding\<close>

abbreviation "M14 \<equiv> (push_bit 14 0x7f OR 0x7f :: u32)"
abbreviation "M28 \<equiv> (push_bit 28 0x7f OR push_bit 14 0x7f OR 0x7f :: u32)"

definition join64 :: "u32 \<Rightarrow> u32 \<Rightarrow> u64" where
  "join64 s a = push_bit 32 (ucast s) OR ucast a"

definition sqlite3GetVarint :: "u8 list \<Rightarrow> (nat \<times> u64) option" where
  "sqlite3GetVarint p = do {
     a \<leftarrow> map_option ucast (peek p 0);
     if a AND 0x80 = 0 then Some (1, ucast a)
     else do {
     b \<leftarrow> map_option ucast (peek p 1);
     if b AND 0x80 = 0 then Some (2, ucast (push_bit 7 (a AND 0x7f) OR b))
     else do {
     c2 \<leftarrow> map_option ucast (peek p 2);
     let a = push_bit 14 a OR c2;
     if a AND 0x80 = 0 then Some (3, ucast ((a AND M14) OR push_bit 7 (b AND 0x7f)))
     else do {
     let a = a AND M14;
     c3 \<leftarrow> map_option ucast (peek p 3);
     let b = push_bit 14 b OR c3;
     if b AND 0x80 = 0 then Some (4, ucast (push_bit 7 a OR (b AND M14)))
     else do {
     let b = b AND M14;
     let s = a;
     c4 \<leftarrow> map_option ucast (peek p 4);
     let a = push_bit 14 a OR c4;
     if a AND 0x80 = 0 then Some (5, join64 (drop_bit 18 s) (a OR push_bit 7 b))
     else do {
     let s = push_bit 7 s OR b;
     c5 \<leftarrow> map_option ucast (peek p 5);
     let b = push_bit 14 b OR c5;
     if b AND 0x80 = 0 then Some (6, join64 (drop_bit 18 s) (push_bit 7 (a AND M14) OR b))
     else do {
     c6 \<leftarrow> map_option ucast (peek p 6);
     let a = push_bit 14 a OR c6;
     if a AND 0x80 = 0
     then Some (7, join64 (drop_bit 11 s) ((a AND M28) OR push_bit 7 (b AND M14)))
     else do {
     let a = a AND M14;
     c7 \<leftarrow> map_option ucast (peek p 7);
     let b = push_bit 14 b OR c7;
     if b AND 0x80 = 0 then Some (8, join64 (drop_bit 4 s) (push_bit 7 a OR (b AND M28)))
     else do {
     c8 \<leftarrow> map_option ucast (peek p 8);
     let a = push_bit 15 a OR c8;
     let a = a OR push_bit 8 (b AND M14);
     let s = push_bit 4 s;
     b4 \<leftarrow> map_option ucast (peek p 4);
     let s = s OR drop_bit 3 (b4 AND 0x7f);
     Some (9, join64 s a)
     }}}}}}}}}"

definition sqlite3GetVarint32 :: "u8 list \<Rightarrow> (nat \<times> u32) option" where
  "sqlite3GetVarint32 p = do {
     a \<leftarrow> map_option ucast (peek p 0);
     b \<leftarrow> map_option ucast (peek p 1);
     if b AND 0x80 = 0 then Some (2, push_bit 7 (a AND 0x7f) OR b)
     else do {
     c2 \<leftarrow> map_option ucast (peek p 2);
     let a = push_bit 14 a OR c2;
     if a AND 0x80 = 0 then Some (3, (a AND M14) OR push_bit 7 (b AND 0x7f))
     else do {
     c3 \<leftarrow> map_option ucast (peek p 3);
     let b = push_bit 14 b OR c3;
     if b AND 0x80 = 0 then Some (4, push_bit 7 (a AND M14) OR (b AND M14))
     else do {
     c4 \<leftarrow> map_option ucast (peek p 4);
     let a = push_bit 14 a OR c4;
     if a AND 0x80 = 0 then Some (5, (a AND M28) OR push_bit 7 (b AND M28))
     else do {
     (n, v64) \<leftarrow> sqlite3GetVarint p;
     Some (n, ucast v64)
     }}}}}"

text \<open>The macro of sqliteInt.h: the one-byte case is inlined.\<close>

definition getVarint32 :: "u8 list \<Rightarrow> (nat \<times> u32) option" where
  "getVarint32 p = do {
     b0 \<leftarrow> peek p 0;
     if b0 < 0x80 then Some (1, ucast b0) else sqlite3GetVarint32 p
   }"

subsection \<open>Four-byte integers\<close>

definition sqlite3Get4byte :: "u8 list \<Rightarrow> u32 option" where
  "sqlite3Get4byte p = do {
     p0 \<leftarrow> peek p 0; p1 \<leftarrow> peek p 1; p2 \<leftarrow> peek p 2; p3 \<leftarrow> peek p 3;
     Some (push_bit 24 (ucast p0) OR push_bit 16 (ucast p1) OR push_bit 8 (ucast p2) OR ucast p3)
   }"

definition sqlite3Put4byte :: "u32 \<Rightarrow> u8 list" where
  "sqlite3Put4byte v =
     [ucast (drop_bit 24 v), ucast (drop_bit 16 v), ucast (drop_bit 8 v), ucast v]"

subsection \<open>The decoder against a byte-at-a-time reference\<close>

text \<open>The textbook reading: seven bits a byte while the high bit is set, the ninth byte
  whole.\<close>

function varint_ref :: "u8 list \<Rightarrow> nat \<Rightarrow> u64 \<Rightarrow> (nat \<times> u64) option" where
  "varint_ref p n acc = do {
     b \<leftarrow> peek p n;
     if 8 \<le> n then Some (9, push_bit 8 acc OR ucast b)
     else if \<not> bit b 7 then Some (n + 1, push_bit 7 acc OR ucast b)
     else varint_ref p (n + 1) (push_bit 7 acc OR ucast (b AND 0x7f))
   }"
  by pat_completeness auto
termination by (relation "measure (\<lambda>(p, n, acc). 9 - n)") auto

declare varint_ref.simps [simp del]

text \<open>One step of the reference: the accumulator after a byte with its high bit set.\<close>

definition seven :: "u64 \<Rightarrow> u8 \<Rightarrow> u64" where
  "seven acc b = push_bit 7 acc OR ucast (b AND 0x7f)"

lemma varint_ref_step:
  "n < 8 \<Longrightarrow> n + 1 = m \<Longrightarrow> varint_ref p n acc = do {
     b \<leftarrow> peek p n;
     if \<not> bit b 7 then Some (m, push_bit 7 acc OR ucast b)
     else varint_ref p m (push_bit 7 acc OR ucast (b AND 0x7f)) }"
  by (simp add: varint_ref.simps [of p n] cong: if_cong)

lemma varint_ref_last: "varint_ref p 8 acc = do {
     b \<leftarrow> peek p 8; Some (9, push_bit 8 acc OR ucast b) }"
  by (simp add: varint_ref.simps [of p 8])

lemmas varint_ref_unroll =
  varint_ref_step [of 0 1] varint_ref_step [of 1 2] varint_ref_step [of 2 3]
  varint_ref_step [of 3 4] varint_ref_step [of 4 5] varint_ref_step [of 5 6]
  varint_ref_step [of 6 7] varint_ref_step [of 7 8] varint_ref_last

lemma varint_ref_eq: "varint_ref p 0 0 = do {
    b0 \<leftarrow> peek p 0;
    if \<not> bit b0 7 then Some (1, ucast b0) else do {
    b1 \<leftarrow> peek p 1;
    let v1 = push_bit 7 (ucast (b0 AND 0x7f)) in
    if \<not> bit b1 7 then Some (2, v1 OR ucast b1) else do {
    b2 \<leftarrow> peek p 2;
    let v2 = push_bit 7 (v1 OR ucast (b1 AND 0x7f)) in
    if \<not> bit b2 7 then Some (3, v2 OR ucast b2) else do {
    b3 \<leftarrow> peek p 3;
    let v3 = push_bit 7 (v2 OR ucast (b2 AND 0x7f)) in
    if \<not> bit b3 7 then Some (4, v3 OR ucast b3) else do {
    b4 \<leftarrow> peek p 4;
    let v4 = push_bit 7 (v3 OR ucast (b3 AND 0x7f)) in
    if \<not> bit b4 7 then Some (5, v4 OR ucast b4) else do {
    b5 \<leftarrow> peek p 5;
    let v5 = push_bit 7 (v4 OR ucast (b4 AND 0x7f)) in
    if \<not> bit b5 7 then Some (6, v5 OR ucast b5) else do {
    b6 \<leftarrow> peek p 6;
    let v6 = push_bit 7 (v5 OR ucast (b5 AND 0x7f)) in
    if \<not> bit b6 7 then Some (7, v6 OR ucast b6) else do {
    b7 \<leftarrow> peek p 7;
    let v7 = push_bit 7 (v6 OR ucast (b6 AND 0x7f)) in
    if \<not> bit b7 7 then Some (8, v7 OR ucast b7) else do {
    b8 \<leftarrow> peek p 8;
    Some (9, push_bit 8 (v7 OR ucast (b7 AND 0x7f)) OR ucast b8) }}}}}}}}}"
  by (simp add: varint_ref_unroll Let_def del: One_nat_def cong: if_cong)

lemma bind_if_eqI:
  fixes m :: "_ option"
  assumes "\<And>x. c x = c' x" and "\<And>x. c' x \<Longrightarrow> f x = f' x" and "\<And>x. m = Some x \<Longrightarrow> \<not> c' x \<Longrightarrow> g x = g' x"
  shows "m \<bind> (\<lambda>x. if c x then f x else g x) = m \<bind> (\<lambda>x. if c' x then f' x else g' x)"
  using assms by (cases m) auto

lemma bind_eqI:
  fixes m :: "_ option"
  shows "(\<And>x. f x = g x) \<Longrightarrow> m \<bind> f = m \<bind> g"
  by (cases m) auto

lemma GetVarint_ref: "sqlite3GetVarint p = varint_ref p 0 0"
  unfolding sqlite3GetVarint_def varint_ref_eq Option.bind_map_option comp_def and_0x80_eq_0 Let_def
  apply (rule bind_if_eqI, simp add: bit_simps, simp, rule bit_eqI64, simp add: bit_eval join64_def)+
  apply (rule bind_eqI, simp, rule bit_eqI64, simp add: bit_eval join64_def)
  done
lemma map_bind_if:
  fixes m :: "_ option"
  shows "map_option h (m \<bind> (\<lambda>x. if c x then f x else g x)) = m \<bind> (\<lambda>x. if c x then map_option h (f x) else map_option h (g x))"
  by (cases m) auto

lemma bind_prod_map: "m \<bind> (\<lambda>(n, v). Some (n, f v)) = map_option (map_prod id f) m" for m :: "_ option"
  by (cases m) auto

lemma u8_lt_0x80: "(b :: u8) < 0x80 \<longleftrightarrow> \<not> bit b 7"
proof -
  have "bit b 7 \<longleftrightarrow> bit (unat b) 7" by (simp add: bit_unsigned_iff)
  then have "bit b 7 \<longleftrightarrow> odd (unat b div 128)" by (simp only: bit_iff_odd) simp
  moreover have "unat b < 256" using unat_less [of b] by simp
  then have "unat b div 128 = (if 128 \<le> unat b then 1 else 0)"
    by (auto simp: div_eq_0_iff le_div_geq)
  ultimately show ?thesis by (auto simp: word_less_nat_alt not_less split: if_splits)
qed

lemma getVarint32_trunc: "getVarint32 p = map_option (map_prod id ucast) (sqlite3GetVarint p)"
  unfolding getVarint32_def sqlite3GetVarint32_def GetVarint_ref 
  apply (subst (2) varint_ref_eq)
  unfolding map_bind_if Let_def u8_lt_0x80 Option.bind_map_option comp_def and_0x80_eq_0
  apply (rule bind_if_eqI, simp, simp, rule bit_eqI32, simp add: bit_eval)
  apply simp
  apply (rule bind_if_eqI, simp add: bit_simps, simp, rule bit_eqI32, simp add: bit_eval)+
  apply (simp only: bind_prod_map varint_ref_eq)
  apply (simp add: map_bind_if Let_def cong: if_cong)
  done

subsection \<open>What the encoder writes\<close>

lemma varint_ref_high:
  "\<forall>b \<in> set xs. bit b 7 \<Longrightarrow> length pre + length xs \<le> 8 \<Longrightarrow>
   varint_ref (pre @ xs @ ys) (length pre) acc
   = varint_ref (pre @ xs @ ys) (length pre + length xs) (foldl seven acc xs)"
proof (induction xs arbitrary: pre acc)
  case Nil
  then show ?case by simp
next
  case (Cons b bs)
  have "varint_ref (pre @ (b # bs) @ ys) (length pre) acc
        = varint_ref ((pre @ [b]) @ bs @ ys) (length (pre @ [b])) (seven acc b)"
    using Cons.prems by (subst varint_ref.simps) (simp add: peek_def nth_append seven_def)
  also have "\<dots> = varint_ref ((pre @ [b]) @ bs @ ys) (length (pre @ [b]) + length bs)
                     (foldl seven (seven acc b) bs)"
    using Cons.prems by (intro Cons.IH) auto
  finally show ?case by simp
qed

lemma seven_group: "seven (drop_bit 7 v) (ucast (v AND 0x7f) OR 0x80) = v"
  unfolding seven_def by (rule bit_eqI64) (simp add: bit_eval)

lemma varint_groups_ne: "varint_groups v \<noteq> []"
  by (subst varint_groups.simps) (simp add: Let_def)

lemma varint_groups_fold: "foldl seven 0 (rev (varint_groups v)) = v"
proof (induction v rule: varint_groups.induct)
  case (1 v)
  show ?case
  proof (cases "drop_bit 7 v = 0")
    case True
    then show ?thesis
      using seven_group [of v] by (subst varint_groups.simps) (simp add: Let_def)
  next
    case False
    with 1 show ?thesis
      by (subst varint_groups.simps) (simp add: Let_def seven_group)
  qed
qed

lemma varint_groups_high: "b \<in> set (varint_groups v) \<Longrightarrow> bit b 7"
proof (induction v rule: varint_groups.induct)
  case (1 v)
  then show ?case
    by (subst (asm) varint_groups.simps) (auto simp: Let_def bit_simps split: if_splits)
qed

lemma unat_drop7: "unat (drop_bit 7 v) = unat v div 128" for v :: u64
  by (simp add: unat_div drop_bit_eq_div)

lemma varint_groups_length: "0 < k \<Longrightarrow> length (varint_groups v) \<le> k \<longleftrightarrow> unat v < 128 ^ k"
proof (induction v arbitrary: k rule: varint_groups.induct)
  case (1 v)
  obtain j where k: "k = Suc j" using 1 by (cases k) auto
  show ?case
  proof (cases "drop_bit 7 v = 0")
    case True
    then have "unat v div 128 = 0" by (metis unat_drop7 unat_0)
    then have "unat v < 128" by simp
    then have "unat v < 128 ^ k" by (simp add: k less_le_trans [of _ 128])
    with True show ?thesis by (subst varint_groups.simps) (simp add: k Let_def)
  next
    case False
    then have v: "0 < unat v div 128"
      by (metis unat_drop7 unat_eq_0 neq0_conv)
    show ?thesis
    proof (cases "j = 0")
      case True
      with False v show ?thesis
        by (subst varint_groups.simps) (auto simp: k Let_def varint_groups_ne)
    next
      case nz: False
      have "length (varint_groups (drop_bit 7 v)) \<le> j \<longleftrightarrow> unat v div 128 < 128 ^ j"
        using "1.IH" [OF refl refl False] nz by (simp only: unat_drop7)
      also have "\<dots> \<longleftrightarrow> unat v < 128 ^ k"
        by (simp add: k div_less_iff_less_mult mult.commute)
      finally show ?thesis
        using False by (subst varint_groups.simps) (simp add: k Let_def)
    qed
  qed
qed

lemma top_byte_zero: "v AND push_bit 32 0xff000000 = 0 \<longleftrightarrow> unat v < 128 ^ 8" for v :: u64
proof -
  have "v AND push_bit 32 0xff000000 = push_bit 56 (drop_bit 56 v)"
    by (rule bit_eqI64) (simp add: bit_eval)
  moreover have "drop_bit 56 (push_bit 56 (drop_bit 56 v)) = drop_bit 56 v"
    by (rule bit_eqI64) (simp add: bit_eval)
  ultimately have "v AND push_bit 32 0xff000000 = 0 \<longleftrightarrow> drop_bit 56 v = 0"
    by (metis drop_bit_of_0 push_bit_of_0)
  also have "\<dots> \<longleftrightarrow> unat v div 2 ^ 56 = 0"
    by (simp add: unat_div drop_bit_eq_div flip: unat_eq_0)
  also have "\<dots> \<longleftrightarrow> unat v < 128 ^ 8" by (simp add: div_eq_0_iff)
  finally show ?thesis .
qed

lemma varint_high_split:
  "\<exists>hs. varint_high n v acc = hs @ acc \<and> length hs = n \<and> (\<forall>b \<in> set hs. bit b 7)
      \<and> (unat v < 128 ^ n \<longrightarrow> foldl seven 0 hs = v)"
proof (induction n arbitrary: v acc)
  case 0
  then show ?case by (simp add: unat_eq_0)
next
  case (Suc n)
  let ?g = "ucast (v AND 0x7f) OR 0x80 :: u8"
  obtain hs where hs: "varint_high n (drop_bit 7 v) (?g # acc) = hs @ ?g # acc" "length hs = n"
    "\<forall>b \<in> set hs. bit b 7" "unat (drop_bit 7 v) < 128 ^ n \<longrightarrow> foldl seven 0 hs = drop_bit 7 v"
    using Suc.IH [of "drop_bit 7 v" "?g # acc"] by blast
  have "unat v < 128 ^ Suc n \<longrightarrow> unat (drop_bit 7 v) < 128 ^ n"
    by (simp only: unat_drop7) (simp add: div_less_iff_less_mult mult.commute)
  moreover have "seven (drop_bit 7 v) ?g = v" by (rule seven_group)
  ultimately show ?case
    using hs by (intro exI [of _ "hs @ [?g]"]) (auto simp: bit_simps)
qed

lemma GetVarint_PutVarint:
  "sqlite3GetVarint (sqlite3PutVarint v @ rest) = Some (length (sqlite3PutVarint v), v)"
proof (cases "v AND push_bit 32 0xff000000 = 0")
  case True
  obtain g gs where g: "varint_groups v = g # gs"
    by (cases "varint_groups v") (auto simp: varint_groups_ne)
  have put: "sqlite3PutVarint v = rev gs @ [g AND 0x7f]"
    using True g by (simp add: sqlite3PutVarint_def Let_def)
  have "length (g # gs) \<le> 8"
    using True unfolding top_byte_zero g [symmetric] by (subst varint_groups_length) simp_all
  then have len: "length gs \<le> 7" by simp
  have "varint_ref ([] @ rev gs @ ((g AND 0x7f) # rest)) (length []) 0
        = varint_ref (rev gs @ (g AND 0x7f) # rest) (length gs) (foldl seven 0 (rev gs))"
    using varint_ref_high [of "rev gs" "[]" "(g AND 0x7f) # rest" 0] varint_groups_high [of _ v] g len
    by simp
  also have "\<dots> = Some (length gs + 1, seven (foldl seven 0 (rev gs)) g)"
    using len by (subst varint_ref.simps) (simp add: peek_def nth_append seven_def bit_simps mask7_eq)
  also have "seven (foldl seven 0 (rev gs)) g = v"
    using varint_groups_fold [of v] g by simp
  finally show ?thesis by (simp add: GetVarint_ref put)
next
  case False
  obtain hs where hs: "varint_high 8 (drop_bit 8 v) [ucast v] = hs @ [ucast v]" "length hs = 8"
    "\<forall>b \<in> set hs. bit b 7" "unat (drop_bit 8 v) < 128 ^ 8 \<longrightarrow> foldl seven 0 hs = drop_bit 8 v"
    using varint_high_split [of 8 "drop_bit 8 v" "[ucast v]"] by blast
  have "unat (drop_bit 8 v) < 128 ^ 8"
    using unat_less [of v] by (simp add: unat_div drop_bit_eq_div div_less_iff_less_mult)
  with hs have fold: "foldl seven 0 hs = drop_bit 8 v" by blast
  have "varint_ref ([] @ hs @ (ucast v # rest)) (length []) 0
        = varint_ref (hs @ ucast v # rest) 8 (drop_bit 8 v)"
    using varint_ref_high [of hs "[]" "ucast v # rest" 0] hs fold by simp
  also have "\<dots> = Some (9, push_bit 8 (drop_bit 8 v) OR ucast (ucast v :: u8))"
    using hs by (simp add: varint_ref_last peek_def nth_append)
  also have "push_bit 8 (drop_bit 8 v) OR ucast (ucast v :: u8) = v"
    by (rule bit_eqI64) (simp add: bit_eval)
  finally show ?thesis
    using False hs by (simp add: GetVarint_ref sqlite3PutVarint_def)
qed

declare sqlite3VarintLen_loop.simps [simp del]
lemma VarintLen_loop: "i < 9 \<Longrightarrow> sqlite3VarintLen_loop i v = min 9 (i + length (varint_groups v))"
proof (induction i v rule: sqlite3VarintLen_loop.induct)
  case (1 i v)
  have ne: "0 < length (varint_groups w)" for w by (simp add: varint_groups_ne)
  show ?case
    using 1 ne [of "drop_bit 7 v"]
    by (subst sqlite3VarintLen_loop.simps, subst varint_groups.simps) (auto simp: Let_def)
qed

lemma VarintLen_Put: "sqlite3VarintLen v = length (sqlite3PutVarint v)"
proof (cases "v AND push_bit 32 0xff000000 = 0")
  case True
  then have "length (varint_groups v) \<le> 8"
    unfolding top_byte_zero by (subst varint_groups_length) simp_all
  with True show ?thesis
    by (simp add: sqlite3VarintLen_def sqlite3PutVarint_def Let_def VarintLen_loop)
next
  case False
  then have "\<not> length (varint_groups v) \<le> 8"
    unfolding top_byte_zero by (subst varint_groups_length) simp_all
  moreover obtain hs where "varint_high 8 (drop_bit 8 v) [ucast v] = hs @ [ucast v]" "length hs = 8"
    using varint_high_split [of 8 "drop_bit 8 v" "[ucast v]"] by blast
  ultimately show ?thesis
    using False by (simp add: sqlite3VarintLen_def sqlite3PutVarint_def VarintLen_loop)
qed

lemma Get4byte_Put4byte: "sqlite3Get4byte (sqlite3Put4byte v @ rest) = Some v"
proof -
  have "push_bit 24 (ucast (ucast (drop_bit 24 v) :: u8)) OR push_bit 16 (ucast (ucast (drop_bit 16 v) :: u8))
     OR push_bit 8 (ucast (ucast (drop_bit 8 v) :: u8)) OR ucast (ucast v :: u8) = v"
    by (rule bit_eqI32) (simp add: bit_eval)
  then show ?thesis
   by (simp add: sqlite3Get4byte_def sqlite3Put4byte_def)
qed

lemma u32_less_pow: "v < 2 ^ n \<longleftrightarrow> drop_bit n v = 0" if "n < 32" for v :: u32
proof -
  have "unat (2 ^ n :: u32) = 2 ^ n" 
  proof -
    have "unat (2 ^ n :: u32) = unat (word_of_nat (2 ^ n) :: u32)" by simp
    also have "\<dots> = 2 ^ n" using that
      by (simp only: unsigned_of_nat take_bit_nat_eq_self_iff) simp
    finally show ?thesis .
  qed
  moreover have "drop_bit n v = 0 \<longleftrightarrow> unat v div 2 ^ n = 0"
    by (metis unat_drop_bit_eq drop_bit_eq_div unat_eq_0)
  ultimately show ?thesis by (simp add: div_eq_0_iff word_less_nat_alt)
qed

lemma groups_small: "drop_bit 7 v = 0 \<Longrightarrow> varint_groups v = [ucast (v AND 0x7f) OR 0x80]"
  by (subst varint_groups.simps) (simp add: Let_def)

lemma groups_more: "drop_bit 7 v \<noteq> 0 \<Longrightarrow>
  varint_groups v = (ucast (v AND 0x7f) OR 0x80) # varint_groups (drop_bit 7 v)"
  by (subst varint_groups.simps) (simp add: Let_def)

lemma PutVarint_small:
  "unat v < 128 ^ 8 \<Longrightarrow>
   sqlite3PutVarint v = rev ((varint_groups v)[0 := varint_groups v ! 0 AND 0x7f])"
  by (simp only: sqlite3PutVarint_def top_byte_zero [symmetric] Let_def) simp

lemma unat_ucast_32_64: "unat (ucast (v :: u32) :: u64) = unat v"
  using unat_less [of v] by (simp add: unsigned_ucast_eq take_bit_nat_eq_self_iff)

lemma ucast_drop: "drop_bit n (ucast (v :: u32) :: u64) = ucast (drop_bit n v)"
  by (rule bit_word_eqI) (auto simp: bit_simps dest: bit_imp_le_length)

lemma ucast_0: "(ucast (v :: u32) :: u64) = 0 \<longleftrightarrow> v = 0"
  by (metis unat_ucast_32_64 unat_eq_0)

lemma PutVarint32_eq: "putVarint32 v = sqlite3PutVarint (ucast v)"
proof -
  have put: "sqlite3PutVarint (ucast v)
    = rev ((varint_groups (ucast v))[0 := varint_groups (ucast v) ! 0 AND 0x7f])"
    using unat_less [of v] by (intro PutVarint_small) (simp add: unat_ucast_32_64)
  have masks: "v AND NOT 0x3fff = push_bit 14 (drop_bit 14 v)"
    by (rule bit_eqI32) (simp add: bit_eval)
  have two: "v AND NOT 0x3fff = 0 \<longleftrightarrow> drop_bit 14 v = 0"
  proof -
    have "drop_bit 14 (push_bit 14 (drop_bit 14 v)) = drop_bit 14 v"
      by (rule bit_eqI32) (simp add: bit_eval)
    then show ?thesis unfolding masks by (metis drop_bit_of_0 push_bit_of_0)
  qed
  have low: "(ucast ((ucast w :: u64) AND 0x7f) OR 0x80) AND 0x7f = (ucast (w AND 0x7f) :: u8)" for w :: u32
    by (rule bit_eqI8) (simp add: bit_eval)
  have low': "(ucast (w AND 0x7f) OR 0x80) AND 0x7f = (ucast (w AND 0x7f) :: u8)" for w :: u32
    by (rule bit_eqI8) (simp add: bit_eval)
  have high: "(ucast ((ucast w :: u64) AND 0x7f) OR 0x80) = (ucast (w AND 0x7f) OR 0x80 :: u8)" for w :: u32
    by (rule bit_eqI8) (simp add: bit_eval)
  have and7: "w AND 0x7f = w" if "drop_bit 7 w = 0" for w :: u32
    using bits_ident [of 7 w] that by (simp add: take_bit_eq_mask mask7_eq)
  show ?thesis
  proof (cases "drop_bit 7 v = 0")
    case True
    then show ?thesis
      using u32_less_pow [of 7 v] by (simp add: putVarint32_def put groups_small ucast_drop low and7)
  next
    case nz: False
    then have big: "\<not> v < 0x80" using u32_less_pow [of 7 v] by simp
    show ?thesis
    proof (cases "drop_bit 14 v = 0")
      case True
      then have "drop_bit 7 (drop_bit 7 v) = 0" by simp
      with nz big True show ?thesis
        using and7 [of "drop_bit 7 v"]
        by (simp add: putVarint32_def sqlite3PutVarint32_def put groups_more groups_small
            ucast_drop ucast_0 two low low' high)
    next
      case False
      with big show ?thesis unfolding putVarint32_def sqlite3PutVarint32_def two by simp
    qed
  qed
qed

lemma PutVarint_length: "1 \<le> length (sqlite3PutVarint v) \<and> length (sqlite3PutVarint v) \<le> 9"
proof -
  have "0 < length (varint_groups v)" by (simp add: varint_groups_ne)
  then have "Suc 0 \<le> length (varint_groups v)" by (simp only: Suc_le_eq)
  then show ?thesis
    by (simp add: VarintLen_loop sqlite3VarintLen_def flip: VarintLen_Put)
qed

subsection \<open>Properties\<close>

text \<open>
  C22: the unrolled decoder of util.c, with its three 32-bit accumulators, its shared masks
  and its nine exits, computes on every buffer what the byte-at-a-time reading of the format
  computes, including the reads that fall off the end of the buffer.
\<close>
theorem GetVarint_equals_reference: "sqlite3GetVarint p = varint_ref p 0 0"
  by (rule GetVarint_ref)

text \<open>
  C23: every 64-bit value survives encoding and decoding, whatever bytes follow it in the
  buffer: the decoder returns the value and exactly the number of bytes written, which is
  what sqlite3VarintLen predicts and lies between 1 and 9.
\<close>
theorem varint_roundtrip:
  "sqlite3GetVarint (sqlite3PutVarint v @ rest) = Some (sqlite3VarintLen v, v)
   \<and> length (sqlite3PutVarint v) = sqlite3VarintLen v
   \<and> 1 \<le> sqlite3VarintLen v \<and> sqlite3VarintLen v \<le> 9"
  using GetVarint_PutVarint [of v rest] PutVarint_length [of v] by (simp add: VarintLen_Put)

text \<open>
  the 32-bit fast path agrees with the general routines. Encoding writes the bytes
  sqlite3PutVarint writes for the same number, and decoding returns the same byte count and
  the low 32 bits of what sqlite3GetVarint returns, also on over-long (corrupt) input.
\<close>
theorem varint32_agrees:
  "putVarint32 w = sqlite3PutVarint (ucast w)
   \<and> getVarint32 p = map_option (\<lambda>(n, v). (n, ucast v)) (sqlite3GetVarint p)"
  by (simp add: PutVarint32_eq getVarint32_trunc map_prod_def id_def)

end
