(* ===== verification/Bitvec.thy ===== *)
theory Bitvec
  imports Prelude
begin

text \<open>
  The fixed-length bitmap of bitvec.c, which the pager uses to remember which pages are in
  the journal. A Bitvec is one of three things: a straight bitmap (\<open>iSize \<le> BITVEC_NBIT\<close>), an
  open hash table of at most \<open>BITVEC_MXHASH\<close> values, or an array of pointers to sub-bitmaps;
  a full hash table is split into sub-bitmaps by sqlite3BitvecSet itself. The union of the C
  struct is the datatype \<open>bv_u\<close>, and sub-bitmaps are owned by their parent, so a tree of
  values models them. Sizes are those of a target with four-byte pointers.
\<close>

subsection \<open>Data\<close>

definition sizeof_ptr :: nat where "sizeof_ptr = 4"
definition BITVEC_SZ :: nat where "BITVEC_SZ = 512"
definition BITVEC_USIZE :: nat where
  "BITVEC_USIZE = ((BITVEC_SZ - 12) div sizeof_ptr) * sizeof_ptr"
definition BITVEC_NCHAR :: nat where "BITVEC_NCHAR = BITVEC_USIZE"
definition BITVEC_NBIT :: nat where "BITVEC_NBIT = BITVEC_NCHAR * 8"
definition BITVEC_NINT :: nat where "BITVEC_NINT = BITVEC_USIZE div 4"
definition BITVEC_MXHASH :: nat where "BITVEC_MXHASH = BITVEC_NINT div 2"
definition BITVEC_NPTR :: nat where "BITVEC_NPTR = BITVEC_USIZE div sizeof_ptr"

text \<open>\<open>(X*37) % BITVEC_NINT\<close> on u32: the product wraps.\<close>

definition BITVEC_HASH :: "nat \<Rightarrow> nat" where
  "BITVEC_HASH x = ((x * 37) mod 2 ^ 32) mod BITVEC_NINT"

datatype Bitvec = Bitvec (iSize: nat) (nSet: nat) (iDivisor: nat) (bv_union: bv_u)
  and bv_u = aBitmap "u8 list" | aHash "nat list" | apSub "Bitvec option list"

subsection \<open>Operations\<close>

text \<open>sqlite3MallocZero clears the struct: whichever member of the union the size selects is
  all zero.\<close>

definition sqlite3BitvecCreate :: "nat \<Rightarrow> Bitvec" where
  "sqlite3BitvecCreate n =
     Bitvec n 0 0 (if n \<le> BITVEC_NBIT then aBitmap (replicate BITVEC_NCHAR 0)
                   else aHash (replicate BITVEC_NINT 0))"

lemma size_peek_option: "peek xs n = Some q \<Longrightarrow> size_option size q < Suc (size_list (size_option size) xs)"
  unfolding peek_Some_iff
  by (metis less_Suc_eq_le nth_mem order_refl size_list_estimation')

text \<open>The probing loop of Test and Set: the slot at which it stops, either empty or holding
  \<open>i\<close>. After BITVEC_NINT steps every slot has been seen, so a loop still running then never
  stops: \<open>None\<close>.\<close>

fun hash_find :: "nat \<Rightarrow> nat list \<Rightarrow> nat \<Rightarrow> nat \<Rightarrow> nat option" where
  "hash_find 0 tbl i h = None"
| "hash_find (Suc f) tbl i h = do {
     x \<leftarrow> peek tbl h;
     if x = 0 \<or> x = i then Some h
     else hash_find f tbl i (if h + 1 \<ge> BITVEC_NINT then 0 else h + 1)
   }"

function sqlite3BitvecTest :: "Bitvec option \<Rightarrow> nat \<Rightarrow> bool option" where
  "sqlite3BitvecTest None i = Some False"
| "sqlite3BitvecTest (Some (Bitvec sz ns dv un)) i =
     (if i > sz \<or> i = 0 then Some False
      else if sz \<le> BITVEC_NBIT then
        (case un of
           aBitmap bm \<Rightarrow> do {
             b \<leftarrow> peek bm ((i - 1) div 8);
             Some (b AND push_bit ((i - 1) mod 8) 1 \<noteq> 0)
           }
         | _ \<Rightarrow> None)
      else if dv > 0 then
        (case un of
           apSub sub \<Rightarrow> do {
             q \<leftarrow> peek sub ((i - 1) div dv);
             sqlite3BitvecTest q ((i - 1) mod dv + 1)
           }
         | _ \<Rightarrow> None)
      else
        (case un of
           aHash tbl \<Rightarrow> do {
             h \<leftarrow> hash_find BITVEC_NINT tbl i (BITVEC_HASH i);
             Some (tbl ! h \<noteq> 0)
           }
         | _ \<Rightarrow> None))"
  by pat_completeness auto

termination
  by (relation "measure (\<lambda>(p, i). size_option size p)")
     (auto simp: less_Suc_eq_le dest!: size_peek_option)

text \<open>The loop that puts the values of a table back, collecting the result codes with
  \<open>rc |= ...\<close>; the routine that sets one bit is its argument.\<close>

fun set_values ::
  "(Bitvec \<Rightarrow> nat \<Rightarrow> oom \<Rightarrow> (rc \<times> Bitvec \<times> oom) option) \<Rightarrow> nat list \<Rightarrow> rc \<Rightarrow> Bitvec \<Rightarrow> oom
   \<Rightarrow> (rc \<times> Bitvec \<times> oom) option" where
  "set_values S [] rc p m = Some (rc, p, m)"
| "set_values S (v # vs) rc p m =
     (if v \<noteq> 0 then do { (rc', p', m') \<leftarrow> S p v m; set_values S vs (rc OR rc') p' m' }
      else set_values S vs rc p m)"

text \<open>The first argument bounds the depth of the recursion; \<open>BITVEC_DEPTH\<close> below is enough.\<close>

fun bitvec_set :: "nat \<Rightarrow> Bitvec \<Rightarrow> nat \<Rightarrow> oom \<Rightarrow> (rc \<times> Bitvec \<times> oom) option" where
  "bitvec_set 0 p i m = None"
| "bitvec_set (Suc f) (Bitvec sz ns dv un) i m =
     (if i = 0 then None
      else if sz \<le> BITVEC_NBIT then
        (case un of
           aBitmap bm \<Rightarrow> do {
             b \<leftarrow> peek bm ((i - 1) div 8);
             Some (SQLITE_OK,
                   Bitvec sz ns dv (aBitmap (bm[(i - 1) div 8 := b OR push_bit ((i - 1) mod 8) 1])), m)
           }
         | _ \<Rightarrow> None)
      else if dv \<noteq> 0 then
        (case un of
           apSub sub \<Rightarrow>
             let bin = (i - 1) div dv; i' = (i - 1) mod dv + 1 in do {
             q \<leftarrow> peek sub bin;
             (case q of
                None \<Rightarrow>
                  (case malloc_next m of (ok, m1) \<Rightarrow>
                     if \<not> ok then Some (SQLITE_NOMEM, Bitvec sz ns dv un, m1)
                     else do {
                       (rc, q', m2) \<leftarrow> bitvec_set f (sqlite3BitvecCreate dv) i' m1;
                       Some (rc, Bitvec sz ns dv (apSub (sub[bin := Some q'])), m2)
                     })
              | Some q \<Rightarrow> do {
                  (rc, q', m2) \<leftarrow> bitvec_set f q i' m;
                  Some (rc, Bitvec sz ns dv (apSub (sub[bin := Some q'])), m2)
                })
           }
         | _ \<Rightarrow> None)
      else
        (case un of
           aHash tbl \<Rightarrow> do {
             h \<leftarrow> hash_find BITVEC_NINT tbl i (BITVEC_HASH i);
             if tbl ! h = i then Some (SQLITE_OK, Bitvec sz ns dv un, m)
             else if ns + 1 \<ge> BITVEC_MXHASH then do {
               (rc, p', m') \<leftarrow> bitvec_set f
                  (Bitvec sz (ns + 1) (((sz + BITVEC_NPTR - 1) mod 2 ^ 32) div BITVEC_NPTR)
                     (apSub (replicate BITVEC_NPTR None))) i m;
               set_values (\<lambda>p v m. bitvec_set f p v m) tbl rc p' m'
             }
             else Some (SQLITE_OK, Bitvec sz (ns + 1) dv (aHash (tbl[h := i])), m)
           }
         | _ \<Rightarrow> None))"

definition BITVEC_DEPTH :: nat where "BITVEC_DEPTH = 7"

definition sqlite3BitvecSet :: "Bitvec \<Rightarrow> nat \<Rightarrow> oom \<Rightarrow> (rc \<times> Bitvec \<times> oom) option" where
  "sqlite3BitvecSet = bitvec_set BITVEC_DEPTH"

text \<open>Clearing a bit of the hash table empties the table and sets the other values again; the
  result codes of those calls are ignored.\<close>

function sqlite3BitvecClear :: "Bitvec \<Rightarrow> nat \<Rightarrow> oom \<Rightarrow> (Bitvec \<times> oom) option" where
  "sqlite3BitvecClear (Bitvec sz ns dv un) i m =
     (if i = 0 then None
      else if sz \<le> BITVEC_NBIT then
        (case un of
           aBitmap bm \<Rightarrow> do {
             b \<leftarrow> peek bm ((i - 1) div 8);
             Some (Bitvec sz ns dv
                     (aBitmap (bm[(i - 1) div 8 := b AND NOT (push_bit ((i - 1) mod 8) 1)])), m)
           }
         | _ \<Rightarrow> None)
      else if dv \<noteq> 0 then
        (case un of
           apSub sub \<Rightarrow> do {
             q \<leftarrow> peek sub ((i - 1) div dv);
             (case q of
                None \<Rightarrow> Some (Bitvec sz ns dv un, m)
              | Some q \<Rightarrow> do {
                  (q', m') \<leftarrow> sqlite3BitvecClear q ((i - 1) mod dv + 1) m;
                  Some (Bitvec sz ns dv (apSub (sub[(i - 1) div dv := Some q'])), m')
                })
           }
         | _ \<Rightarrow> None)
      else
        (case un of
           aHash tbl \<Rightarrow> do {
             (rc, p', m') \<leftarrow> set_values sqlite3BitvecSet (map (\<lambda>v. if v = i then 0 else v) tbl) SQLITE_OK
                (Bitvec sz 0 dv (aHash (replicate BITVEC_NINT 0))) m;
             Some (p', m')
           }
         | _ \<Rightarrow> None))"
  by pat_completeness auto
termination
  by (relation "measure (\<lambda>(p, i, m). size p)")
     (auto simp: less_Suc_eq_le dest!: size_peek_option)

subsection \<open>Programs of set and clear operations\<close>

text \<open>What a client does with a bitmap: a sequence of sets and clears. The first run uses the
  operations of an implementation and stops at the first error; the second is the set of
  numbers the sequence describes.\<close>

datatype bit_op = BitSet nat | BitClear nat

fun bit_op_arg :: "bit_op \<Rightarrow> nat" where
  "bit_op_arg (BitSet i) = i"
| "bit_op_arg (BitClear i) = i"

fun run_bit_ops ::
  "('s \<Rightarrow> nat \<Rightarrow> oom \<Rightarrow> (rc \<times> 's \<times> oom) option) \<Rightarrow> ('s \<Rightarrow> nat \<Rightarrow> oom \<Rightarrow> ('s \<times> oom) option)
   \<Rightarrow> bit_op list \<Rightarrow> 's \<Rightarrow> oom \<Rightarrow> (rc \<times> 's \<times> oom) option" where
  "run_bit_ops S C [] s m = Some (SQLITE_OK, s, m)"
| "run_bit_ops S C (BitSet i # ops) s m = do {
     (rc, s', m') \<leftarrow> S s i m;
     if rc \<noteq> SQLITE_OK then Some (rc, s', m') else run_bit_ops S C ops s' m'
   }"
| "run_bit_ops S C (BitClear i # ops) s m = do {
     (s', m') \<leftarrow> C s i m;
     run_bit_ops S C ops s' m'
   }"

fun abs_bit_ops :: "bit_op list \<Rightarrow> nat set \<Rightarrow> nat set" where
  "abs_bit_ops [] A = A"
| "abs_bit_ops (BitSet i # ops) A = abs_bit_ops ops (insert i A)"
| "abs_bit_ops (BitClear i # ops) A = abs_bit_ops ops (A - {i})"

declare sqlite3BitvecTest.simps(2) [simp del] bitvec_set.simps(2) [simp del]
  sqlite3BitvecClear.simps [simp del]


subsection \<open>Constants\<close>

lemma bitvec_consts [codes]:
  "BITVEC_NCHAR = 500" "BITVEC_NBIT = 4000" "BITVEC_NINT = 125" "BITVEC_MXHASH = 62"
  "BITVEC_NPTR = 125"
  by (simp_all add: BITVEC_NCHAR_def BITVEC_NBIT_def BITVEC_NINT_def BITVEC_MXHASH_def
      BITVEC_NPTR_def BITVEC_USIZE_def BITVEC_SZ_def sizeof_ptr_def)

lemma BITVEC_HASH_less: "BITVEC_HASH x < 125"
  by (simp add: BITVEC_HASH_def codes)

subsection \<open>The probing loop\<close>

abbreviation next_slot :: "nat \<Rightarrow> nat" where
  "next_slot h \<equiv> (if h + 1 \<ge> BITVEC_NINT then 0 else h + 1)"

lemma next_slot_mod: "h < 125 \<Longrightarrow> next_slot h = Suc h mod 125"
  by (auto simp: codes mod_Suc)

lemma hash_find_None:
  "hash_find f tbl i h = None \<Longrightarrow> length tbl = 125 \<Longrightarrow> h < 125 \<Longrightarrow> k < f
   \<Longrightarrow> tbl ! ((h + k) mod 125) \<noteq> 0"
proof (induction f arbitrary: h k)
  case 0
  then show ?case by simp
next
  case (Suc f)
  from Suc.prems have here: "tbl ! h \<noteq> 0" and
    rest: "hash_find f tbl i (next_slot h) = None"
    by (auto split: if_splits)
  show ?case
  proof (cases k)
    case 0
    then show ?thesis using here Suc.prems by simp
  next
    case (Suc k')
    have "tbl ! ((next_slot h + k') mod 125) \<noteq> 0"
      using rest Suc.prems Suc by (intro Suc.IH) (auto simp: codes)
    then show ?thesis
      using Suc.prems Suc by (simp add: next_slot_mod mod_simps del: One_nat_def)
  qed
qed

lemma hash_find_stops:
  assumes "length tbl = 125" and "h < 125" and "0 \<in> set tbl"
  shows "\<exists>j. hash_find BITVEC_NINT tbl i h = Some j"
proof (rule ccontr)
  assume "\<not> ?thesis"
  then have none: "hash_find 125 tbl i h = None" by (simp add: codes)
  obtain j where j: "j < 125" "tbl ! j = 0" using assms by (metis in_set_conv_nth)
  have "tbl ! ((h + (j + 125 - h) mod 125) mod 125) \<noteq> 0"
    using none assms by (intro hash_find_None) auto
  moreover have "(h + (j + 125 - h) mod 125) mod 125 = j"
    using assms j by (simp add: mod_simps)
  ultimately show False using j by simp
qed

lemma hash_find_Some:
  "hash_find f tbl i h = Some j \<Longrightarrow> j < length tbl \<and> (tbl ! j = 0 \<or> tbl ! j = i)"
  by (induction f arbitrary: h) (auto simp: peek_Some_iff split: Option.bind_splits if_splits)

lemma nth_upd: "j < length xs \<Longrightarrow> xs[i := x] ! j = (if i = j then x else xs ! j)"
  by (simp add: nth_list_update)

text \<open>Filling an empty slot does not move any other value's stopping slot.\<close>

lemma hash_find_frame:
  "hash_find f tbl y h = Some j \<Longrightarrow> tbl ! j = y \<Longrightarrow> y \<noteq> 0 \<Longrightarrow> tbl ! e = 0
   \<Longrightarrow> hash_find f (tbl[e := x]) y h = Some j"
  by (induction f arbitrary: h)
     (auto simp: nth_upd peek_def split: if_splits)

lemma hash_find_fill:
  "hash_find f tbl x h = Some e \<Longrightarrow> tbl ! e = 0 \<Longrightarrow> x \<noteq> 0
   \<Longrightarrow> hash_find f (tbl[e := x]) x h = Some e"
  by (induction f arbitrary: h)
     (auto simp: nth_upd peek_def split: if_splits)

subsection \<open>Well-formed bitmaps\<close>

text \<open>In a well-formed table every stored value is where its own probe stops, the count is the
  number of stored values, and there is room.\<close>

definition hash_ok :: "nat \<Rightarrow> nat \<Rightarrow> nat list \<Rightarrow> bool" where
  "hash_ok sz ns tbl \<longleftrightarrow>
     length tbl = BITVEC_NINT \<and> ns = length (filter (\<lambda>v. v \<noteq> 0) tbl) \<and> ns < BITVEC_MXHASH
     \<and> (\<forall>j < BITVEC_NINT. tbl ! j \<noteq> 0 \<longrightarrow>
          tbl ! j \<le> sz \<and> hash_find BITVEC_NINT tbl (tbl ! j) (BITVEC_HASH (tbl ! j)) = Some j)"

text \<open>The largest size for which the rounding up in \<open>iDivisor\<close> does not wrap.\<close>

definition BITVEC_MAX :: nat where "BITVEC_MAX = 2 ^ 32 - BITVEC_NPTR"

inductive bitvec_ok :: "Bitvec \<Rightarrow> bool" where
  ok_bitmap: "0 < sz \<Longrightarrow> sz \<le> BITVEC_NBIT \<Longrightarrow> length bm = BITVEC_NCHAR
    \<Longrightarrow> bitvec_ok (Bitvec sz ns 0 (aBitmap bm))"
| ok_hash: "BITVEC_NBIT < sz \<Longrightarrow> sz \<le> BITVEC_MAX \<Longrightarrow> hash_ok sz ns tbl
    \<Longrightarrow> bitvec_ok (Bitvec sz ns 0 (aHash tbl))"
| ok_sub: "BITVEC_NBIT < sz \<Longrightarrow> sz \<le> BITVEC_MAX \<Longrightarrow> dv = (sz + 124) div BITVEC_NPTR
    \<Longrightarrow> length sub = BITVEC_NPTR
    \<Longrightarrow> (\<And>q. Some q \<in> set sub \<Longrightarrow> bitvec_ok q \<and> iSize q = dv)
    \<Longrightarrow> bitvec_ok (Bitvec sz ns dv (apSub sub))"

definition bv_members :: "Bitvec \<Rightarrow> nat set" where
  "bv_members p = {i. sqlite3BitvecTest (Some p) i = Some True}"

lemma bv_members_range: "i \<in> bv_members p \<Longrightarrow> 1 \<le> i \<and> i \<le> iSize p"
  by (cases p) (auto simp: bv_members_def sqlite3BitvecTest.simps(2) split: if_splits)

lemma hash_ok_stored:
  "hash_ok sz ns tbl \<Longrightarrow> j < 125 \<Longrightarrow> tbl ! j = i \<Longrightarrow> i \<noteq> 0
   \<Longrightarrow> i \<le> sz \<and> hash_find BITVEC_NINT tbl i (BITVEC_HASH i) = Some j"
  unfolding hash_ok_def bitvec_consts by blast

lemma hash_ok_bound: "hash_ok sz ns tbl \<Longrightarrow> \<forall>v \<in> set tbl. v \<le> sz"
  unfolding hash_ok_def bitvec_consts by (metis in_set_conv_nth le0)

lemma set_fill: "h < length tbl \<Longrightarrow> tbl ! h = 0 \<Longrightarrow> i \<noteq> 0 \<Longrightarrow> set (tbl[h := i]) - {0} = insert i (set tbl - {0})"
  for i :: nat
  by (subst (2) id_take_nth_drop [of h tbl]) (auto simp: upd_conv_take_nth_drop)

lemma hash_ok_zero: "hash_ok sz ns tbl \<Longrightarrow> 0 \<in> set tbl"
proof (rule ccontr)
  assume ok: "hash_ok sz ns tbl" and "0 \<notin> set tbl"
  then have "filter (\<lambda>v. v \<noteq> 0) tbl = tbl" by (intro filter_True) metis
  with ok show False by (auto simp: hash_ok_def codes)
qed

lemma hash_ok_find:
  assumes "hash_ok sz ns tbl" and "i \<noteq> 0"
  obtains h where "hash_find BITVEC_NINT tbl i (BITVEC_HASH i) = Some h" and "h < 125"
    and "tbl ! h = 0 \<or> tbl ! h = i" and "tbl ! h = i \<longleftrightarrow> i \<in> set tbl"
proof -
  have len: "length tbl = 125" using assms by (simp add: hash_ok_def codes)
  obtain h where h: "hash_find BITVEC_NINT tbl i (BITVEC_HASH i) = Some h"
    using hash_find_stops [OF len BITVEC_HASH_less hash_ok_zero [OF assms(1)]] by blast
  have "tbl ! h = i" if i: "i \<in> set tbl"
  proof -
    obtain j where j: "j < 125" "tbl ! j = i" using i len by (auto simp: in_set_conv_nth)
    then have "hash_find BITVEC_NINT tbl i (BITVEC_HASH i) = Some j"
      using hash_ok_stored [OF assms(1) j assms(2)] by blast
    with h j show ?thesis by simp
  qed
  moreover have "h < length tbl" and "tbl ! h = 0 \<or> tbl ! h = i" using hash_find_Some [OF h] by auto
  ultimately show ?thesis using h len assms(2) nth_mem [of h tbl] by (intro that [of h]) auto
qed

lemma members_bitmap:
  "sz \<le> BITVEC_NBIT \<Longrightarrow> length bm = BITVEC_NCHAR \<Longrightarrow>
   bv_members (Bitvec sz ns dv (aBitmap bm)) = {i. 1 \<le> i \<and> i \<le> sz \<and> bit (bm ! ((i - 1) div 8)) ((i - 1) mod 8)}"
  by (auto simp: bv_members_def sqlite3BitvecTest.simps(2) codes and_exp_eq_0_iff_not_bit peek_def split: if_splits)

lemma members_hash:
  assumes "BITVEC_NBIT < sz" and ok: "hash_ok sz ns tbl"
  shows "bv_members (Bitvec sz ns 0 (aHash tbl)) = set tbl - {0}"
proof (intro set_eqI)
  fix i
  have len: "length tbl = 125" using ok by (simp add: hash_ok_def codes)
  then have le: "i \<le> sz" if "i \<in> set tbl" "i \<noteq> 0"
    using hash_ok_stored [OF ok] that len by (metis in_set_conv_nth)
  show "i \<in> bv_members (Bitvec sz ns 0 (aHash tbl)) \<longleftrightarrow> i \<in> set tbl - {0}"
  proof (cases "i = 0")
    case True
    then show ?thesis by (simp add: bv_members_def sqlite3BitvecTest.simps(2))
  next
    case False
    then obtain h where "hash_find BITVEC_NINT tbl i (BITVEC_HASH i) = Some h" "h < 125"
      "tbl ! h = 0 \<or> tbl ! h = i" "tbl ! h = i \<longleftrightarrow> i \<in> set tbl"
      using hash_ok_find [OF ok] by blast
    with False le assms(1) show ?thesis
      by (auto simp: bv_members_def sqlite3BitvecTest.simps(2) len)
  qed
qed

lemma sub_bin:
  assumes "BITVEC_NBIT < sz" and "dv = (sz + 124) div BITVEC_NPTR" and "1 \<le> i" and "i \<le> sz"
  shows "(i - 1) div dv < 125" and "0 < dv" and "(i - 1) mod dv + 1 \<le> dv"
proof -
  have "125 * dv \<ge> sz" using assms by (simp add: codes)
  then have "i - 1 < dv * 125" using assms by linarith
  then show "(i - 1) div dv < 125" by (simp add: less_mult_imp_div_less)
  show pos: "0 < dv" using assms by (simp add: codes div_greater_zero_iff)
  then show "(i - 1) mod dv + 1 \<le> dv" by (simp add: Suc_le_eq)
qed

lemma members_sub:
  assumes "BITVEC_NBIT < sz" and "dv = (sz + 124) div BITVEC_NPTR" and "length sub = BITVEC_NPTR"
  shows "bv_members (Bitvec sz ns dv (apSub sub)) =
     {i. 1 \<le> i \<and> i \<le> sz \<and> (\<exists>q. sub ! ((i - 1) div dv) = Some q \<and> (i - 1) mod dv + 1 \<in> bv_members q)}"
proof (intro set_eqI)
  fix i
  show "i \<in> bv_members (Bitvec sz ns dv (apSub sub)) \<longleftrightarrow> i \<in> {i. 1 \<le> i \<and> i \<le> sz \<and>
      (\<exists>q. sub ! ((i - 1) div dv) = Some q \<and> (i - 1) mod dv + 1 \<in> bv_members q)}"
  proof (cases "1 \<le> i \<and> i \<le> sz")
    case True
    then have "(i - 1) div dv < 125" and "0 < dv" using sub_bin [OF assms(1,2)] by blast+
    then show ?thesis
      using True assms
      by (cases "sub ! ((i - 1) div dv)")
         (auto simp: bv_members_def sqlite3BitvecTest.simps(2) codes)
  next
    case False
    then show ?thesis by (auto simp: bv_members_def sqlite3BitvecTest.simps(2))
  qed
qed

subsection \<open>Setting a bit\<close>

definition set_post :: "nat \<Rightarrow> Bitvec \<Rightarrow> oom \<Rightarrow> (rc \<times> Bitvec \<times> oom) option \<Rightarrow> bool" where
  "set_post i p m r \<longleftrightarrow> (\<exists>rc p' m'. r = Some (rc, p', m') \<and> bitvec_ok p' \<and> iSize p' = iSize p
     \<and> (rc = SQLITE_OK \<or> rc = SQLITE_NOMEM) \<and> (no_oom m \<longrightarrow> rc = SQLITE_OK \<and> no_oom m')
     \<and> bv_members p' \<subseteq> insert i (bv_members p)
     \<and> (rc = SQLITE_OK \<longrightarrow> bv_members p' = insert i (bv_members p)))"

lemma hash_ok_insert:
  assumes ok: "hash_ok sz ns tbl" and "hash_find BITVEC_NINT tbl i (BITVEC_HASH i) = Some h"
    and "tbl ! h \<noteq> i" and "0 < i" and "i \<le> sz" and "ns + 1 < BITVEC_MXHASH"
  shows "hash_ok sz (ns + 1) (tbl[h := i])"
proof -
  have len: "length tbl = 125" using ok by (simp add: hash_ok_def codes)
  with hash_find_Some [OF assms(2)] assms(3) have h: "h < length tbl" "tbl ! h = 0" by auto
  have "length (filter (\<lambda>v. v \<noteq> 0) (tbl[h := i])) = Suc (length (filter (\<lambda>v. v \<noteq> 0) tbl))"
    using h assms(4) by (subst (2) id_take_nth_drop [of h tbl]) (simp_all add: upd_conv_take_nth_drop)
  moreover have "(tbl[h := i]) ! j \<le> sz
      \<and> hash_find BITVEC_NINT (tbl[h := i]) ((tbl[h := i]) ! j) (BITVEC_HASH ((tbl[h := i]) ! j)) = Some j"
    if j: "j < BITVEC_NINT" "(tbl[h := i]) ! j \<noteq> 0" for j
  proof (cases "j = h")
    case True
    then show ?thesis using h assms hash_find_fill [OF assms(2)] by simp
  next
    case False
    then have "tbl ! j \<noteq> 0" and same: "(tbl[h := i]) ! j = tbl ! j" using j by auto
    then have "tbl ! j \<le> sz \<and> hash_find BITVEC_NINT tbl (tbl ! j) (BITVEC_HASH (tbl ! j)) = Some j"
      using hash_ok_stored [OF ok] j by (simp add: codes)
    then show ?thesis
      unfolding same using hash_find_frame \<open>tbl ! j \<noteq> 0\<close> h by blast
  qed
  ultimately show ?thesis using ok assms len by (simp add: hash_ok_def codes)
qed

lemma bitmap_set:
  assumes "0 < sz" and "sz \<le> BITVEC_NBIT" and "length bm = BITVEC_NCHAR" and "1 \<le> i" and "i \<le> sz"
  shows "set_post i (Bitvec sz ns 0 (aBitmap bm)) m (bitvec_set (Suc f) (Bitvec sz ns 0 (aBitmap bm)) i m)"
proof -
  have "(i - 1) div 8 < 500" using assms by (simp add: codes)
  let ?bm = "bm[(i - 1) div 8 := bm ! ((i - 1) div 8) OR push_bit ((i - 1) mod 8) 1]"
  have "bv_members (Bitvec sz ns 0 (aBitmap ?bm)) = insert i (bv_members (Bitvec sz ns 0 (aBitmap bm)))"
  proof (intro set_eqI)
    fix j
    have "(i - 1) div 8 = (j - 1) div 8 \<and> (i - 1) mod 8 = (j - 1) mod 8 \<longleftrightarrow> i = j" if "1 \<le> j"
      using that assms by (metis div_mult_mod_eq le_add_diff_inverse)
    then show "j \<in> bv_members (Bitvec sz ns 0 (aBitmap ?bm))
        \<longleftrightarrow> j \<in> insert i (bv_members (Bitvec sz ns 0 (aBitmap bm)))"
      using assms by (auto simp: members_bitmap nth_list_update bit_simps codes)
  qed
  then show ?thesis
    using assms by (auto simp: set_post_def bitvec_set.simps(2) codes intro!: ok_bitmap)
qed


text \<open>The child that receives \<open>i\<close> changes, and nothing else.\<close>

lemma members_sub_update:
  assumes sz: "BITVEC_NBIT < sz" and dv: "dv = (sz + 124) div BITVEC_NPTR"
    and len: "length sub = BITVEC_NPTR" and i: "1 \<le> i" "i \<le> sz" and bin: "bin = (i - 1) div dv"
    and old: "(case sub ! bin of None \<Rightarrow> {} | Some q \<Rightarrow> bv_members q) = Q"
  shows "bv_members q' = insert ((i - 1) mod dv + 1) Q \<Longrightarrow>
      bv_members (Bitvec sz ns dv (apSub (sub[bin := Some q']))) = insert i (bv_members (Bitvec sz ns' dv (apSub sub)))"
    and "bv_members q' \<subseteq> insert ((i - 1) mod dv + 1) Q \<Longrightarrow>
      bv_members (Bitvec sz ns dv (apSub (sub[bin := Some q']))) \<subseteq> insert i (bv_members (Bitvec sz ns' dv (apSub sub)))"
    and "bv_members q' = Q - {(i - 1) mod dv + 1} \<Longrightarrow>
      bv_members (Bitvec sz ns dv (apSub (sub[bin := Some q']))) = bv_members (Bitvec sz ns' dv (apSub sub)) - {i}"
proof -
  note bins = sub_bin [OF sz dv]
  have b: "bin < length sub" using bins [OF i] bin len by (simp add: codes)
  have new: "bv_members (Bitvec sz ns dv (apSub (sub[bin := Some q']))) =
     {j. 1 \<le> j \<and> j \<le> sz \<and> (\<exists>q. sub[bin := Some q'] ! ((j - 1) div dv) = Some q \<and> (j - 1) mod dv + 1 \<in> bv_members q)}"
    using sz dv len by (intro members_sub) simp_all
  have same: "j = i \<longleftrightarrow> (j - 1) div dv = bin \<and> (j - 1) mod dv = (i - 1) mod dv" if "1 \<le> j" for j
    using that i bin by (metis div_mult_mod_eq le_add_diff_inverse)
  have was: "(\<exists>q. sub ! bin = Some q \<and> x \<in> bv_members q) \<longleftrightarrow> x \<in> Q" for x
    using old by (auto split: option.splits)
  note mem = new members_sub [OF sz dv len] nth_list_update [OF b]
  show "bv_members q' = insert ((i - 1) mod dv + 1) Q \<Longrightarrow>
      bv_members (Bitvec sz ns dv (apSub (sub[bin := Some q']))) = insert i (bv_members (Bitvec sz ns' dv (apSub sub)))"
    unfolding mem using same was i by (auto split: if_splits)
  show "bv_members q' \<subseteq> insert ((i - 1) mod dv + 1) Q \<Longrightarrow>
      bv_members (Bitvec sz ns dv (apSub (sub[bin := Some q']))) \<subseteq> insert i (bv_members (Bitvec sz ns' dv (apSub sub)))"
    unfolding mem using same was i by (auto split: if_splits)
  show "bv_members q' = Q - {(i - 1) mod dv + 1} \<Longrightarrow>
      bv_members (Bitvec sz ns dv (apSub (sub[bin := Some q']))) = bv_members (Bitvec sz ns' dv (apSub sub)) - {i}"
    unfolding mem using same was i by (auto split: if_splits)
qed


lemma create_ok: "0 < n \<Longrightarrow> n \<le> BITVEC_MAX \<Longrightarrow> bitvec_ok (sqlite3BitvecCreate n)"
  by (auto simp: sqlite3BitvecCreate_def hash_ok_def codes not_le intro!: ok_bitmap ok_hash)

lemma create_size [simp]: "iSize (sqlite3BitvecCreate n) = n"
  by (simp add: sqlite3BitvecCreate_def)

lemma create_members: "0 < n \<Longrightarrow> n \<le> BITVEC_MAX \<Longrightarrow> bv_members (sqlite3BitvecCreate n) = {}"
  using create_ok [of n]
  by (cases "n \<le> BITVEC_NBIT")
     (auto simp: sqlite3BitvecCreate_def members_bitmap members_hash codes hash_ok_def)

lemma set_postE:
  assumes "set_post i p m r"
  obtains rc p' m' where "r = Some (rc, p', m')" "bitvec_ok p'" "iSize p' = iSize p"
    "rc = SQLITE_OK \<or> rc = SQLITE_NOMEM" "no_oom m \<longrightarrow> rc = SQLITE_OK \<and> no_oom m'"
    "bv_members p' \<subseteq> insert i (bv_members p)"
    "rc = SQLITE_OK \<longrightarrow> bv_members p' = insert i (bv_members p)"
  using assms unfolding set_post_def by blast

text \<open>One level of sub-bitmaps, given that the children of size \<open>dv\<close> behave.\<close>

lemma set_split:
  assumes sz: "BITVEC_NBIT < sz" "sz \<le> BITVEC_MAX" and dv: "dv = (sz + 124) div BITVEC_NPTR"
    and len: "length sub = BITVEC_NPTR"
    and sub: "\<And>q. Some q \<in> set sub \<Longrightarrow> bitvec_ok q \<and> iSize q = dv"
    and i: "1 \<le> i" "i \<le> sz"
    and child: "\<And>q i m. bitvec_ok q \<Longrightarrow> iSize q = dv \<Longrightarrow> 1 \<le> i \<Longrightarrow> i \<le> dv \<Longrightarrow> set_post i q m (bitvec_set f q i m)"
  shows "\<exists>rc sub' m'. bitvec_set (Suc f) (Bitvec sz ns dv (apSub sub)) i m
           = Some (rc, Bitvec sz ns dv (apSub sub'), m')
         \<and> set_post i (Bitvec sz ns dv (apSub sub)) m (Some (rc, Bitvec sz ns dv (apSub sub'), m'))"
proof -
  define bin i' where "bin = (i - 1) div dv" and "i' = (i - 1) mod dv + 1"
  have b: "bin < length sub" and dpos: "0 < dv" and i': "1 \<le> i'" "i' \<le> dv"
    using sub_bin [OF sz(1) dv i] len by (simp_all add: bin_def i'_def codes)
  have dmax: "dv \<le> BITVEC_MAX" using sz dv by (simp add: codes BITVEC_MAX_def)
  have unfold: "bitvec_set (Suc f) (Bitvec sz ns dv (apSub sub)) i m =
     (case sub ! bin of
        None \<Rightarrow> (case malloc_next m of (ok, m1) \<Rightarrow>
           if \<not> ok then Some (SQLITE_NOMEM, Bitvec sz ns dv (apSub sub), m1)
           else bitvec_set f (sqlite3BitvecCreate dv) i' m1 \<bind>
             (\<lambda>(rc, q', m2). Some (rc, Bitvec sz ns dv (apSub (sub[bin := Some q'])), m2)))
      | Some q \<Rightarrow> bitvec_set f q i' m \<bind>
             (\<lambda>(rc, q', m2). Some (rc, Bitvec sz ns dv (apSub (sub[bin := Some q'])), m2)))"
    using i sz b dpos unfolding bin_def i'_def by (simp add: bitvec_set.simps(2) Let_def cong: option.case_cong prod.case_cong if_cong)
  have ok': "bitvec_ok (Bitvec sz ns dv (apSub (sub[bin := Some q'])))" if "bitvec_ok q'" "iSize q' = dv" for q'
    using that sz dv len sub set_update_subset_insert [of sub bin "Some q'"]
    by (intro ok_sub) auto
  have ok: "bitvec_ok (Bitvec sz ns dv (apSub sub))" using sz dv len sub by (intro ok_sub) auto
  note upd = members_sub_update [OF sz(1) dv len i bin_def refl, folded i'_def]
  show ?thesis
  proof (cases "sub ! bin")
    case None
    obtain okb m1 where m1: "malloc_next m = (okb, m1)" by force
    show ?thesis
    proof (cases okb)
      case False
      then show ?thesis
        using unfold None m1 ok malloc_next_no_oom [of m okb m1]
        by (auto simp: set_post_def rc_defs)
    next
      case True
      obtain rc q' m2 where r: "bitvec_set f (sqlite3BitvecCreate dv) i' m1 = Some (rc, q', m2)"
        "bitvec_ok q'" "iSize q' = dv" "rc = SQLITE_OK \<or> rc = SQLITE_NOMEM" "no_oom m1 \<longrightarrow> rc = SQLITE_OK \<and> no_oom m2"
        "bv_members q' \<subseteq> insert i' {}" "rc = SQLITE_OK \<longrightarrow> bv_members q' = insert i' {}"
        using child [of "sqlite3BitvecCreate dv" i' m1] create_ok [OF dpos dmax] create_members [OF dpos dmax] i'
        by (auto elim: set_postE)
      then show ?thesis
        using unfold None m1 True ok' upd [of q' ns ns] malloc_next_no_oom [of m okb m1]
        by (auto simp: set_post_def)
    qed
  next
    case (Some q)
    then have "bitvec_ok q \<and> iSize q = dv" using sub b nth_mem by metis
    then obtain rc q' m2 where r: "bitvec_set f q i' m = Some (rc, q', m2)"
        "bitvec_ok q'" "iSize q' = dv" "rc = SQLITE_OK \<or> rc = SQLITE_NOMEM" "no_oom m \<longrightarrow> rc = SQLITE_OK \<and> no_oom m2"
        "bv_members q' \<subseteq> insert i' (bv_members q)" "rc = SQLITE_OK \<longrightarrow> bv_members q' = insert i' (bv_members q)"
      using child [of q i' m] i' by (auto elim: set_postE)
    then show ?thesis
      using unfold Some ok' upd [of q' ns ns] by (auto simp: set_post_def)
  qed
qed


text \<open>Putting a list of values into a split bitmap.\<close>

lemma set_values_split:
  assumes step: "\<And>sub v m. length sub = BITVEC_NPTR \<Longrightarrow> (\<forall>q. Some q \<in> set sub \<longrightarrow> bitvec_ok q \<and> iSize q = dv)
      \<Longrightarrow> 1 \<le> v \<Longrightarrow> v \<le> sz \<Longrightarrow> \<exists>rc sub' m'. S (Bitvec sz ns dv (apSub sub)) v m
           = Some (rc, Bitvec sz ns dv (apSub sub'), m')
         \<and> set_post v (Bitvec sz ns dv (apSub sub)) m (Some (rc, Bitvec sz ns dv (apSub sub'), m'))"
    and p: "bitvec_ok (Bitvec sz ns dv (apSub sub))"
    and vs: "\<forall>v \<in> set vs. v \<le> sz" and rc: "rc = SQLITE_OK \<or> rc = SQLITE_NOMEM"
  shows "\<exists>rc' sub' m'. set_values S vs rc (Bitvec sz ns dv (apSub sub)) m = Some (rc', Bitvec sz ns dv (apSub sub'), m')
      \<and> bitvec_ok (Bitvec sz ns dv (apSub sub'))
      \<and> (rc' = SQLITE_OK \<or> rc' = SQLITE_NOMEM) \<and> (no_oom m \<longrightarrow> rc' = rc \<and> no_oom m')
      \<and> bv_members (Bitvec sz ns dv (apSub sub')) \<subseteq> bv_members (Bitvec sz ns dv (apSub sub)) \<union> (set vs - {0})
      \<and> (rc' = SQLITE_OK \<longrightarrow> rc = SQLITE_OK \<and>
           bv_members (Bitvec sz ns dv (apSub sub')) = bv_members (Bitvec sz ns dv (apSub sub)) \<union> (set vs - {0}))"
  using p vs rc
proof (induction vs arbitrary: sub rc m)
  case Nil
  then show ?case by auto
next
  case (Cons v vs)
  show ?case
  proof (cases "v = 0")
    case True
    with Cons.IH [of sub rc m] Cons.prems show ?thesis by auto
  next
    case False
    from Cons.prems(1) have sub: "length sub = BITVEC_NPTR" "\<forall>q. Some q \<in> set sub \<longrightarrow> bitvec_ok q \<and> iSize q = dv"
      by (auto elim: bitvec_ok.cases)
    obtain rc1 sub1 m1 where 1: "S (Bitvec sz ns dv (apSub sub)) v m = Some (rc1, Bitvec sz ns dv (apSub sub1), m1)"
      "bitvec_ok (Bitvec sz ns dv (apSub sub1))" "rc1 = SQLITE_OK \<or> rc1 = SQLITE_NOMEM"
      "no_oom m \<longrightarrow> rc1 = SQLITE_OK \<and> no_oom m1"
      "bv_members (Bitvec sz ns dv (apSub sub1)) \<subseteq> insert v (bv_members (Bitvec sz ns dv (apSub sub)))"
      "rc1 = SQLITE_OK \<longrightarrow> bv_members (Bitvec sz ns dv (apSub sub1)) = insert v (bv_members (Bitvec sz ns dv (apSub sub)))"
      using step [OF sub, of v m] False Cons.prems(2) by (force simp: set_post_def)
    have or: "rc OR rc1 = SQLITE_OK \<or> rc OR rc1 = SQLITE_NOMEM"
      "rc OR rc1 = SQLITE_OK \<longleftrightarrow> rc = SQLITE_OK \<and> rc1 = SQLITE_OK" "rc1 = SQLITE_OK \<longrightarrow> rc OR rc1 = rc"
      using Cons.prems(3) 1(3) by (auto simp: codes)
    obtain rc' sub' m' where 2: "set_values S vs (rc OR rc1) (Bitvec sz ns dv (apSub sub1)) m1
          = Some (rc', Bitvec sz ns dv (apSub sub'), m')"
      "bitvec_ok (Bitvec sz ns dv (apSub sub'))" "rc' = SQLITE_OK \<or> rc' = SQLITE_NOMEM"
      "no_oom m1 \<longrightarrow> rc' = rc OR rc1 \<and> no_oom m'"
      "bv_members (Bitvec sz ns dv (apSub sub')) \<subseteq> bv_members (Bitvec sz ns dv (apSub sub1)) \<union> (set vs - {0})"
      "rc' = SQLITE_OK \<longrightarrow> rc OR rc1 = SQLITE_OK \<and>
           bv_members (Bitvec sz ns dv (apSub sub')) = bv_members (Bitvec sz ns dv (apSub sub1)) \<union> (set vs - {0})"
      using Cons.IH [OF 1(2) _ or(1), of m1] Cons.prems(2) by auto
    have "set_values S (v # vs) rc (Bitvec sz ns dv (apSub sub)) m = Some (rc', Bitvec sz ns dv (apSub sub'), m')"
      using False 1(1) 2(1) by simp
    moreover have "bv_members (Bitvec sz ns dv (apSub sub')) \<subseteq> bv_members (Bitvec sz ns dv (apSub sub)) \<union> (set (v # vs) - {0})"
      using False 1(5) 2(5) by auto
    moreover have "rc' = SQLITE_OK \<longrightarrow> rc = SQLITE_OK \<and>
        bv_members (Bitvec sz ns dv (apSub sub')) = bv_members (Bitvec sz ns dv (apSub sub)) \<union> (set (v # vs) - {0})"
      using False 1(6) 2(6) or(2) by auto
    ultimately show ?thesis using 1(4) 2 or(3) by blast
  qed
qed

text \<open>The recursion: a bitmap of size at most \<open>4000 * 125 ^ k\<close> needs depth \<open>2 * k + 1\<close>.\<close>

lemma bitvec_set_post:
  "bitvec_ok p \<Longrightarrow> iSize p \<le> BITVEC_NBIT * BITVEC_NPTR ^ k \<Longrightarrow> 1 \<le> i \<Longrightarrow> i \<le> iSize p
   \<Longrightarrow> 2 * k + 1 \<le> f \<Longrightarrow> set_post i p m (bitvec_set f p i m)"
proof (induction k arbitrary: p i m f)
  case 0
  obtain g where f: "f = Suc g" using 0 by (cases f) auto
  from 0(1) show ?case using 0
    by cases (auto simp: f intro!: bitmap_set)
next
  case (Suc k)
  obtain g where f: "f = Suc (Suc g)" using Suc.prems by (cases f; cases "f - 1") auto
  have split: "\<exists>rc sub' m'. bitvec_set h (Bitvec sz ns dv (apSub sub)) v m = Some (rc, Bitvec sz ns dv (apSub sub'), m')
         \<and> set_post v (Bitvec sz ns dv (apSub sub)) m (Some (rc, Bitvec sz ns dv (apSub sub'), m'))"
    if "BITVEC_NBIT < sz" "sz \<le> BITVEC_MAX" "dv = (sz + 124) div BITVEC_NPTR" "length sub = BITVEC_NPTR"
      "\<forall>q. Some q \<in> set sub \<longrightarrow> bitvec_ok q \<and> iSize q = dv" "1 \<le> v" "v \<le> sz"
      "sz \<le> BITVEC_NBIT * BITVEC_NPTR ^ Suc k" "2 * k + 2 \<le> h" for sz ns dv sub v m h
  proof -
    have "h \<noteq> 0" using that by simp
    then obtain h' where h: "h = Suc h'" by (auto simp: gr0_conv_Suc)
    have "dv \<le> BITVEC_NBIT * BITVEC_NPTR ^ k" using that by (simp add: codes)
    then show ?thesis
      unfolding h using that h by (intro set_split) (auto intro!: Suc.IH)
  qed
  from Suc.prems(1) show ?case
  proof cases
    case (ok_bitmap sz bm ns)
    then show ?thesis using Suc.prems by (auto simp: f intro!: bitmap_set)
  next
    case (ok_sub sz dv sub ns)
    then show ?thesis using split [of sz dv sub i f ns m] Suc.prems by auto
  next
    case (ok_hash sz ns tbl)
    have i: "i \<noteq> 0" "i \<le> sz" using Suc.prems ok_hash by auto
    obtain h where h: "hash_find BITVEC_NINT tbl i (BITVEC_HASH i) = Some h" "tbl ! h = i \<longleftrightarrow> i \<in> set tbl"
      using hash_ok_find [OF ok_hash(4) i(1)] by blast
    note unfold = bitvec_set.simps(2) [of "Suc g" sz ns 0 "aHash tbl" i m]
    consider (old) "i \<in> set tbl" | (room) "i \<notin> set tbl" "ns + 1 < BITVEC_MXHASH"
      | (full) "i \<notin> set tbl" "ns + 1 \<ge> BITVEC_MXHASH" by linarith
    then show ?thesis
    proof cases
      case old
      with ok_hash i h have "bitvec_set f p i m = Some (SQLITE_OK, p, m)"
        by (simp add: unfold f)
      moreover have "i \<in> bv_members p" using ok_hash i old by (simp add: members_hash)
      ultimately show ?thesis using Suc.prems(1) by (auto simp: set_post_def)
    next
      case room
      have new: "hash_ok sz (ns + 1) (tbl[h := i])"
        using ok_hash i h room by (intro hash_ok_insert) auto
      have "bitvec_set f p i m = Some (SQLITE_OK, Bitvec sz (ns + 1) 0 (aHash (tbl[h := i])), m)"
        using ok_hash i h room by (simp add: unfold f)
      moreover have "set (tbl[h := i]) - {0} = insert i (set tbl - {0})"
        using hash_find_Some [OF h(1)] h(2) room i by (intro set_fill) auto
      ultimately show ?thesis
        using ok_hash new i by (auto simp: set_post_def members_hash intro!: bitvec_ok.ok_hash)
    next
      case full
      let ?dv = "(sz + 124) div BITVEC_NPTR"
      let ?p1 = "Bitvec sz (ns + 1) ?dv (apSub (replicate BITVEC_NPTR None))"
      have dv: "((sz + BITVEC_NPTR - 1) mod 2 ^ 32) div BITVEC_NPTR = ?dv"
        and dv': "((sz + BITVEC_NPTR - Suc 0) mod 4294967296) div BITVEC_NPTR = ?dv"
        using ok_hash by (simp_all add: codes BITVEC_MAX_def)
      have tbl: "\<forall>v \<in> set tbl. v \<le> sz" using hash_ok_bound [OF ok_hash(4)] .
      have eq: "bitvec_set f p i m = bitvec_set (Suc g) ?p1 i m \<bind>
          (\<lambda>(rc, p', m'). set_values (\<lambda>p v m. bitvec_set (Suc g) p v m) tbl rc p' m')"
        using ok_hash i h full by (simp add: unfold f dv')
      have nil: "bv_members ?p1 = {}" 
        using members_sub [of sz ?dv "replicate BITVEC_NPTR None" "ns + 1"] sub_bin(1) [of sz ?dv] ok_hash
        by (auto simp: codes)
      obtain rc1 sub1 m1 where 1: "bitvec_set (Suc g) ?p1 i m = Some (rc1, Bitvec sz (ns + 1) ?dv (apSub sub1), m1)"
         "set_post i ?p1 m (Some (rc1, Bitvec sz (ns + 1) ?dv (apSub sub1), m1))"
        using split [of sz ?dv "replicate BITVEC_NPTR None" i "Suc g" "ns + 1" m] Suc.prems ok_hash i
        by (auto simp: f)
      obtain rc2 sub2 m2 where 2: "set_values (\<lambda>p v m. bitvec_set (Suc g) p v m) tbl rc1
            (Bitvec sz (ns + 1) ?dv (apSub sub1)) m1 = Some (rc2, Bitvec sz (ns + 1) ?dv (apSub sub2), m2)"
         "bitvec_ok (Bitvec sz (ns + 1) ?dv (apSub sub2))"
         "rc2 = SQLITE_OK \<or> rc2 = SQLITE_NOMEM" "no_oom m1 \<longrightarrow> rc2 = rc1 \<and> no_oom m2"
         "bv_members (Bitvec sz (ns + 1) ?dv (apSub sub2)) \<subseteq> bv_members (Bitvec sz (ns + 1) ?dv (apSub sub1)) \<union> (set tbl - {0})"
         "rc2 = SQLITE_OK \<longrightarrow> rc1 = SQLITE_OK \<and>
           bv_members (Bitvec sz (ns + 1) ?dv (apSub sub2)) = bv_members (Bitvec sz (ns + 1) ?dv (apSub sub1)) \<union> (set tbl - {0})"
        using set_values_split [of ?dv sz "\<lambda>p v m. bitvec_set (Suc g) p v m" "ns + 1" sub1 tbl rc1 m1]
          split [of sz ?dv _ _ "Suc g" "ns + 1"] Suc.prems ok_hash 1(2) tbl
        by (auto simp: f set_post_def)
      have "bitvec_set f p i m = Some (rc2, Bitvec sz (ns + 1) ?dv (apSub sub2), m2)"
        using eq 1(1) 2(1) by simp
      then show ?thesis
        using 1(2) 2 nil ok_hash by (auto simp: set_post_def members_hash)
    qed
  qed
qed


lemma bitvec_ok_size: "bitvec_ok p \<Longrightarrow> iSize p \<le> BITVEC_NBIT * BITVEC_NPTR ^ 3"
  by (erule bitvec_ok.cases) (auto simp: codes BITVEC_MAX_def)

lemma BitvecSet_post:
  "bitvec_ok p \<Longrightarrow> 1 \<le> i \<Longrightarrow> i \<le> iSize p \<Longrightarrow> set_post i p m (sqlite3BitvecSet p i m)"
  unfolding sqlite3BitvecSet_def BITVEC_DEPTH_def
  by (rule bitvec_set_post [OF _ bitvec_ok_size]) auto

subsection \<open>Clearing a bit\<close>

lemma hash_set_room:
  assumes ok: "hash_ok sz ns tbl" and sz: "BITVEC_NBIT < sz" and i: "0 < i" "i \<le> sz"
    and room: "ns + 1 < BITVEC_MXHASH"
  shows "\<exists>ns' tbl'. sqlite3BitvecSet (Bitvec sz ns 0 (aHash tbl)) i m
            = Some (SQLITE_OK, Bitvec sz ns' 0 (aHash tbl'), m)
          \<and> hash_ok sz ns' tbl' \<and> ns' \<le> ns + 1 \<and> set tbl' - {0} = insert i (set tbl - {0})"
proof -
  obtain h where h: "hash_find BITVEC_NINT tbl i (BITVEC_HASH i) = Some h" "tbl ! h = i \<longleftrightarrow> i \<in> set tbl"
    using hash_ok_find [OF ok, of i] i by blast
  have "sqlite3BitvecSet (Bitvec sz ns 0 (aHash tbl)) i m = bitvec_set (Suc 6) (Bitvec sz ns 0 (aHash tbl)) i m"
    by (simp add: sqlite3BitvecSet_def BITVEC_DEPTH_def)
  note unfold = this [unfolded bitvec_set.simps(2)]
  show ?thesis
  proof (cases "i \<in> set tbl")
    case True
    with h i sz ok show ?thesis
      by (intro exI [of _ ns] exI [of _ tbl]) (auto simp: unfold)
  next
    case False
    have "hash_ok sz (ns + 1) (tbl[h := i])"
      using ok i h room False by (intro hash_ok_insert) auto
    moreover have "set (tbl[h := i]) - {0} = insert i (set tbl - {0})"
      using hash_find_Some [OF h(1)] h(2) False i by (intro set_fill) auto
    ultimately show ?thesis
      using h i sz room False
      by (intro exI [of _ "ns + 1"] exI [of _ "tbl[h := i]"]) (simp add: unfold)
  qed
qed

lemma set_values_hash:
  assumes "BITVEC_NBIT < sz" and "hash_ok sz ns tbl" and "\<forall>v \<in> set vs. v \<le> sz"
    and "ns + length (filter (\<lambda>v. v \<noteq> 0) vs) < BITVEC_MXHASH"
  shows "\<exists>ns' tbl'. set_values sqlite3BitvecSet vs SQLITE_OK (Bitvec sz ns 0 (aHash tbl)) m
            = Some (SQLITE_OK, Bitvec sz ns' 0 (aHash tbl'), m)
          \<and> hash_ok sz ns' tbl' \<and> set tbl' - {0} = (set tbl \<union> set vs) - {0}"
  using assms(2-)
proof (induction vs arbitrary: ns tbl)
  case Nil
  then show ?case by auto
next
  case (Cons v vs)
  show ?case
  proof (cases "v = 0")
    case True
    with Cons.IH [of ns tbl] Cons.prems show ?thesis by auto
  next
    case False
    obtain ns1 tbl1 where 1: "sqlite3BitvecSet (Bitvec sz ns 0 (aHash tbl)) v m
            = Some (SQLITE_OK, Bitvec sz ns1 0 (aHash tbl1), m)"
      "hash_ok sz ns1 tbl1" "ns1 \<le> ns + 1" "set tbl1 - {0} = insert v (set tbl - {0})"
      using hash_set_room [of sz ns tbl v m] Cons.prems False assms(1) by auto
    have "SQLITE_OK OR SQLITE_OK = SQLITE_OK" by (simp add: rc_defs)
    moreover obtain ns' tbl' where "set_values sqlite3BitvecSet vs SQLITE_OK (Bitvec sz ns1 0 (aHash tbl1)) m
            = Some (SQLITE_OK, Bitvec sz ns' 0 (aHash tbl'), m)"
          "hash_ok sz ns' tbl'" "set tbl' - {0} = (set tbl1 \<union> set vs) - {0}"
      using Cons.IH [OF 1(2)] Cons.prems 1(3) False by auto
    ultimately show ?thesis using False 1 by auto
  qed
qed

lemma bitmap_clear:
  assumes "0 < sz" and "sz \<le> BITVEC_NBIT" and "length bm = BITVEC_NCHAR" and "1 \<le> i" and "i \<le> sz"
  shows "bv_members (Bitvec sz ns 0 (aBitmap
           (bm[(i - 1) div 8 := bm ! ((i - 1) div 8) AND NOT (push_bit ((i - 1) mod 8) 1)])))
         = bv_members (Bitvec sz ns 0 (aBitmap bm)) - {i}" (is "bv_members ?p' = bv_members ?p - {i}")
proof (intro set_eqI)
  fix j
  have "(i - 1) div 8 = (j - 1) div 8 \<and> (i - 1) mod 8 = (j - 1) mod 8 \<longleftrightarrow> i = j" if "1 \<le> j"
    using that assms by (metis div_mult_mod_eq le_add_diff_inverse)
  then show "j \<in> bv_members ?p' \<longleftrightarrow> j \<in> bv_members ?p - {i}"
    using assms by (auto simp: members_bitmap nth_list_update bit_simps codes)
qed

lemma BitvecClear_post:
  "bitvec_ok p \<Longrightarrow> 1 \<le> i \<Longrightarrow> i \<le> iSize p \<Longrightarrow>
   \<exists>p'. sqlite3BitvecClear p i m = Some (p', m) \<and> bitvec_ok p' \<and> iSize p' = iSize p
      \<and> bv_members p' = bv_members p - {i}"
proof (induction arbitrary: i rule: bitvec_ok.induct)
  case (ok_bitmap sz bm ns)
  let ?p' = "Bitvec sz ns 0 (aBitmap
      (bm[(i - 1) div 8 := bm ! ((i - 1) div 8) AND NOT (push_bit ((i - 1) mod 8) 1)]))"
  have "(i - 1) div 8 < length bm" using ok_bitmap by (simp add: codes)
  then have "sqlite3BitvecClear (Bitvec sz ns 0 (aBitmap bm)) i m = Some (?p', m)"
    using ok_bitmap by (subst sqlite3BitvecClear.simps) simp
  moreover have "bitvec_ok ?p'" using ok_bitmap by (intro bitvec_ok.ok_bitmap) simp_all
  moreover have "bv_members ?p' = bv_members (Bitvec sz ns 0 (aBitmap bm)) - {i}"
    using ok_bitmap by (intro bitmap_clear) simp_all
  ultimately show ?case by (intro exI [of _ ?p']) simp
next
  case (ok_hash sz ns tbl)
  let ?vs = "map (\<lambda>v. if v = i then 0 else v) tbl"
  have z: "hash_ok sz 0 (replicate BITVEC_NINT 0)" by (simp add: hash_ok_def codes)
  have "length (filter (\<lambda>v. v \<noteq> 0) ?vs) \<le> length (filter (\<lambda>v. v \<noteq> 0) tbl)"
    by (induction tbl) auto
  moreover have "length (filter (\<lambda>v. v \<noteq> 0) tbl) < BITVEC_MXHASH" using ok_hash by (simp add: hash_ok_def)
  ultimately have room: "length (filter (\<lambda>v. v \<noteq> 0) ?vs) < BITVEC_MXHASH" by linarith
  obtain ns' tbl' where "set_values sqlite3BitvecSet ?vs SQLITE_OK (Bitvec sz 0 0 (aHash (replicate BITVEC_NINT 0))) m
            = Some (SQLITE_OK, Bitvec sz ns' 0 (aHash tbl'), m)"
          "hash_ok sz ns' tbl'" "set tbl' - {0} = (set (replicate BITVEC_NINT 0) \<union> set ?vs) - {0}"
    using set_values_hash [OF ok_hash(1) z, of ?vs m] hash_ok_bound [OF ok_hash(3)] room by auto
  moreover have "(set (replicate BITVEC_NINT 0) \<union> set ?vs) - {0} = set tbl - {0} - {i}"
    by (auto simp: codes)
  ultimately show ?case
    using ok_hash by (auto simp: sqlite3BitvecClear.simps members_hash intro!: bitvec_ok.ok_hash)
next
  case (ok_sub sz dv sub ns)
  define bin i' where "bin = (i - 1) div dv" and "i' = (i - 1) mod dv + 1"
  have i: "1 \<le> i" "i \<le> sz" using ok_sub by simp_all
  have b: "bin < length sub" and dpos: "0 < dv" and i': "1 \<le> i'" "i' \<le> dv"
    using sub_bin [OF ok_sub(1,3) i] ok_sub(4) by (simp_all add: bin_def i'_def codes)
  note unfold = sqlite3BitvecClear.simps [of sz ns dv "apSub sub" i m, folded bin_def i'_def]
  have ok: "bitvec_ok (Bitvec sz ns dv (apSub sub))" using ok_sub by (intro bitvec_ok.ok_sub) auto
  show ?case
  proof (cases "sub ! bin")
    case None
    then have "i \<notin> bv_members (Bitvec sz ns dv (apSub sub))"
      using ok_sub by (simp add: members_sub bin_def)
    then show ?thesis using unfold None i b dpos ok_sub ok by auto
  next
    case (Some q)
    then have "Some q \<in> set sub" using b nth_mem by metis
    with ok_sub i' obtain q' where q': "sqlite3BitvecClear q i' m = Some (q', m)" "bitvec_ok q'" "iSize q' = dv"
      "bv_members q' = bv_members q - {i'}" by metis
    have "bitvec_ok (Bitvec sz ns dv (apSub (sub[bin := Some q'])))"
      using q' ok_sub set_update_subset_insert [of sub bin "Some q'"] by (intro bitvec_ok.ok_sub) auto
    then show ?thesis
      using unfold Some i b dpos ok_sub q' members_sub_update(3) [OF ok_sub(1,3,4) i bin_def refl, of q' ns ns]
      by (auto simp: i'_def)
  qed
qed


subsection \<open>Testing a bit\<close>

lemma BitvecTest_members: "bitvec_ok p \<Longrightarrow> sqlite3BitvecTest (Some p) i = Some (i \<in> bv_members p)"
proof -
  have "\<exists>b. sqlite3BitvecTest (Some p) i = Some b" if "bitvec_ok p"
    using that
  proof (induction arbitrary: i rule: bitvec_ok.induct)
    case (ok_bitmap sz bm ns)
    then show ?case by (auto simp: sqlite3BitvecTest.simps(2) codes)
  next
    case (ok_hash sz ns tbl)
    show ?case
    proof (cases "i = 0")
      case False
      then obtain h where "hash_find BITVEC_NINT tbl i (BITVEC_HASH i) = Some h"
        using hash_ok_find [OF ok_hash(3)] by blast
      with ok_hash show ?thesis by (auto simp: sqlite3BitvecTest.simps(2))
    qed (auto simp: sqlite3BitvecTest.simps(2))
  next
    case (ok_sub sz dv sub ns)
    show ?case
    proof (cases "1 \<le> i \<and> i \<le> sz")
      case True
      then have b: "(i - 1) div dv < length sub" and "0 < dv"
        using sub_bin(1,2) [OF ok_sub(1,3), of i] ok_sub(4) by (simp_all add: codes)
      then have "\<exists>b. sqlite3BitvecTest (sub ! ((i - 1) div dv)) ((i - 1) mod dv + 1) = Some b"
      proof (cases "sub ! ((i - 1) div dv)")
        case (Some q)
        then have "Some q \<in> set sub" using nth_mem [OF b] by simp
        then show ?thesis unfolding Some using ok_sub(5) by blast
      qed auto
      with True ok_sub(1) b \<open>0 < dv\<close> show ?thesis by (simp add: sqlite3BitvecTest.simps(2))
    qed (auto simp: sqlite3BitvecTest.simps(2))
  qed
  then show "bitvec_ok p \<Longrightarrow> ?thesis" by (auto simp: bv_members_def)
qed

subsection \<open>The interface the pager uses\<close>

text \<open>
  A fixed-size set of page numbers: what a client may rely on. Operations keep the invariant
  and the size; a set that reports SQLITE_OK has added its element, one that fails has added
  nothing but possibly its element, and only an allocation failure makes it fail.
\<close>

locale page_set =
  fixes ok :: "'s \<Rightarrow> bool"
    and cap :: "'s \<Rightarrow> nat"
    and members :: "'s \<Rightarrow> nat set"
    and test :: "'s \<Rightarrow> nat \<Rightarrow> bool option"
    and insert_op :: "'s \<Rightarrow> nat \<Rightarrow> oom \<Rightarrow> (rc \<times> 's \<times> oom) option"
    and remove_op :: "'s \<Rightarrow> nat \<Rightarrow> oom \<Rightarrow> ('s \<times> oom) option"
  assumes test_law: "ok s \<Longrightarrow> test s i = Some (i \<in> members s)"
    and insert_law: "ok s \<Longrightarrow> 1 \<le> i \<Longrightarrow> i \<le> cap s \<Longrightarrow>
      \<exists>rc s' m'. insert_op s i m = Some (rc, s', m') \<and> ok s' \<and> cap s' = cap s
        \<and> (rc = SQLITE_OK \<or> rc = SQLITE_NOMEM) \<and> (no_oom m \<longrightarrow> rc = SQLITE_OK \<and> no_oom m')
        \<and> members s' \<subseteq> insert i (members s)
        \<and> (rc = SQLITE_OK \<longrightarrow> members s' = insert i (members s))"
    and remove_law: "ok s \<Longrightarrow> 1 \<le> i \<Longrightarrow> i \<le> cap s \<Longrightarrow>
      \<exists>s'. remove_op s i m = Some (s', m) \<and> ok s' \<and> cap s' = cap s \<and> members s' = members s - {i}"
begin

lemma run_refines:
  "ok s \<Longrightarrow> \<forall>op \<in> set ops. 1 \<le> bit_op_arg op \<and> bit_op_arg op \<le> cap s \<Longrightarrow> no_oom m \<Longrightarrow>
   \<exists>s' m'. run_bit_ops insert_op remove_op ops s m = Some (SQLITE_OK, s', m')
     \<and> ok s' \<and> cap s' = cap s \<and> members s' = abs_bit_ops ops (members s)"
proof (induction ops arbitrary: s m)
  case Nil
  then show ?case by simp
next
  case (Cons op ops)
  show ?case
  proof (cases op)
    case (BitSet i)
    then obtain s1 m1 where 1: "insert_op s i m = Some (SQLITE_OK, s1, m1)" "ok s1" "cap s1 = cap s"
      "no_oom m1" "members s1 = insert i (members s)"
      using insert_law [of s i m] Cons.prems by auto
    then show ?thesis using Cons.IH [of s1 m1] Cons.prems BitSet by simp
  next
    case (BitClear i)
    then obtain s1 where 1: "remove_op s i m = Some (s1, m)" "ok s1" "cap s1 = cap s"
      "members s1 = members s - {i}"
      using remove_law [of s i m] Cons.prems by auto
    then show ?thesis using Cons.IH [of s1 m] Cons.prems BitClear by simp
  qed
qed

lemma run_tests:
  assumes "ok s" and "members s = {}" and "no_oom m"
    and "\<forall>op \<in> set ops. 1 \<le> bit_op_arg op \<and> bit_op_arg op \<le> cap s"
  shows "\<exists>s' m'. run_bit_ops insert_op remove_op ops s m = Some (SQLITE_OK, s', m')
     \<and> (\<forall>i. test s' i = Some (i \<in> abs_bit_ops ops {}))"
  using run_refines [OF assms(1,4,3)] test_law assms(2) by auto

end

interpretation bv: page_set bitvec_ok iSize bv_members "\<lambda>p. sqlite3BitvecTest (Some p)"
    sqlite3BitvecSet sqlite3BitvecClear
proof unfold_locales
  fix p i m
  assume p: "bitvec_ok p"
  show "sqlite3BitvecTest (Some p) i = Some (i \<in> bv_members p)" by (rule BitvecTest_members [OF p])
  assume i: "1 \<le> i" "i \<le> iSize p"
  show "\<exists>rc p' m'. sqlite3BitvecSet p i m = Some (rc, p', m') \<and> bitvec_ok p' \<and> iSize p' = iSize p
        \<and> (rc = SQLITE_OK \<or> rc = SQLITE_NOMEM) \<and> (no_oom m \<longrightarrow> rc = SQLITE_OK \<and> no_oom m')
        \<and> bv_members p' \<subseteq> insert i (bv_members p)
        \<and> (rc = SQLITE_OK \<longrightarrow> bv_members p' = insert i (bv_members p))"
    using BitvecSet_post [OF p i, of m] unfolding set_post_def by blast
  show "\<exists>p'. sqlite3BitvecClear p i m = Some (p', m) \<and> bitvec_ok p' \<and> iSize p' = iSize p
      \<and> bv_members p' = bv_members p - {i}"
    by (rule BitvecClear_post [OF p i])
qed

subsection \<open>Properties\<close>

text \<open>
  C24: a Bitvec is a set of page numbers. After any program of sets and clears within its
  size, in whichever of the three representations it has passed through, no call has gone out
  of bounds or failed to return, and testing a number answers whether the program leaves it
  in the set. Sizes up to \<open>2 ^ 32 - 125\<close> are covered; a page number of SQLite is below
  \<open>2 ^ 31\<close>.
\<close>
theorem bitvec_is_a_set:
  assumes "1 \<le> n" and "n \<le> 2 ^ 32 - 125" and "no_oom m"
    and "\<forall>op \<in> set ops. 1 \<le> bit_op_arg op \<and> bit_op_arg op \<le> n"
  shows "\<exists>p m'. run_bit_ops sqlite3BitvecSet sqlite3BitvecClear ops (sqlite3BitvecCreate n) m
             = Some (SQLITE_OK, p, m')
     \<and> (\<forall>i. sqlite3BitvecTest (Some p) i = Some (i \<in> abs_bit_ops ops {}))"
proof -
  have n: "0 < n" "n \<le> BITVEC_MAX" using assms by (simp_all add: BITVEC_MAX_def codes)
  show ?thesis
    by (rule bv.run_tests [OF create_ok [OF n] create_members [OF n] assms(3)])
       (use assms(4) in simp)
qed

theorem bitvec_is_a_set_witness:
  "\<exists>p m'. run_bit_ops sqlite3BitvecSet sqlite3BitvecClear [BitSet 7, BitSet 4999, BitClear 7]
             (sqlite3BitvecCreate 5000) [] = Some (SQLITE_OK, p, m')
     \<and> (\<forall>i. sqlite3BitvecTest (Some p) i = Some (i \<in> {4999}))"
  using bitvec_is_a_set [of 5000 "[]" "[BitSet 7, BitSet 4999, BitClear 7]"]
  by (simp add: insert_Diff_if)

text \<open>
  setting a bit when memory runs out, at any point of the recursion and of the conversion
  of a full hash table: the call returns with SQLITE_OK or SQLITE_NOMEM and a well-formed
  bitmap; with SQLITE_OK exactly that bit has been added, and with SQLITE_NOMEM no bit is set
  that was not set or asked for. Without allocation failures it returns SQLITE_OK.
\<close>
theorem bitvec_set_out_of_memory:
  assumes "bitvec_ok p" and "1 \<le> i" and "i \<le> iSize p"
  shows "\<exists>rc p' m'. sqlite3BitvecSet p i m = Some (rc, p', m') \<and> bitvec_ok p' \<and> iSize p' = iSize p
     \<and> (rc = SQLITE_OK \<or> rc = SQLITE_NOMEM) \<and> (no_oom m \<longrightarrow> rc = SQLITE_OK)
     \<and> bv_members p' \<subseteq> insert i (bv_members p)
     \<and> (rc = SQLITE_OK \<longrightarrow> bv_members p' = insert i (bv_members p))"
  using bv.insert_law [OF assms, of m] by blast

theorem bitvec_set_out_of_memory_witness:
  "\<exists>rc p' m'. sqlite3BitvecSet (sqlite3BitvecCreate 600000) 599999 [False] = Some (rc, p', m')
     \<and> bitvec_ok p' \<and> iSize p' = 600000 \<and> bv_members p' \<subseteq> {599999}"
proof -
  have ok: "bitvec_ok (sqlite3BitvecCreate 600000)"
    by (rule create_ok) (simp_all add: BITVEC_MAX_def codes)
  have "bv_members (sqlite3BitvecCreate 600000) = {}"
    by (rule create_members) (simp_all add: BITVEC_MAX_def codes)
  then show ?thesis
    using bitvec_set_out_of_memory [OF ok, of 599999 "[False]"] by auto
qed

end
