(* ===== verification/TextUtil.thy ===== *)
theory TextUtil
  imports Prelude "HOL-Library.Char_ord"
begin

text \<open>
  The text routines of util.c: the case table of global.c and the comparisons that use it,
  unquoting in place, and the recognisers and converters of numbers and of BLOB literals.

  A \<open>char *\<close> is the list of characters from that address to the end of its buffer, the
  terminating zero among them; a read past the end is \<open>None\<close>. \<open>isspace\<close> and \<open>isdigit\<close> are those
  of the C locale. \<open>sqlite3AtoF\<close> computes in floating point and is not modelled.
\<close>

abbreviation NUL :: char where "NUL \<equiv> CHR 0x00"

text \<open>The text of a zero-terminated buffer.\<close>

definition cstr :: "char list \<Rightarrow> char list" where
  "cstr z = takeWhile (\<lambda>c. c \<noteq> NUL) z"

lemma cstr_NUL: "NUL \<notin> set s \<Longrightarrow> cstr (s @ NUL # t) = s"
  unfolding cstr_def by (induction s) auto

definition isdigit :: "char \<Rightarrow> bool" where
  "isdigit c \<longleftrightarrow> 48 \<le> (of_char c :: nat) \<and> (of_char c :: nat) \<le> 57"

definition isspace :: "char \<Rightarrow> bool" where
  "isspace c \<longleftrightarrow> (of_char c :: nat) = 32 \<or> 9 \<le> (of_char c :: nat) \<and> (of_char c :: nat) \<le> 13"

text \<open>\<open>while( P(*z) ) z++;\<close>\<close>

fun skip_while :: "(char \<Rightarrow> bool) \<Rightarrow> char list \<Rightarrow> char list option" where
  "skip_while P [] = None"
| "skip_while P (c # z) = (if P c then skip_while P z else Some (c # z))"

lemma skip_while_append:
  "\<forall>c \<in> set xs. P c \<Longrightarrow> skip_while P (xs @ z) = skip_while P z"
  by (induction xs) auto

lemma skip_while_stop: "\<not> P c \<Longrightarrow> skip_while P (c # z) = Some (c # z)"
  by simp

subsection \<open>Case-insensitive comparison\<close>

definition sqlite3UpperToLower :: "nat list" where
  "sqlite3UpperToLower =
     [0, 1, 2, 3, 4, 5, 6, 7, 8, 9, 10, 11, 12, 13, 14, 15, 16, 17,
      18, 19, 20, 21, 22, 23, 24, 25, 26, 27, 28, 29, 30, 31, 32, 33, 34, 35,
      36, 37, 38, 39, 40, 41, 42, 43, 44, 45, 46, 47, 48, 49, 50, 51, 52, 53,
      54, 55, 56, 57, 58, 59, 60, 61, 62, 63, 64, 97, 98, 99, 100, 101, 102, 103,
      104, 105, 106, 107, 108, 109, 110, 111, 112, 113, 114, 115, 116, 117, 118, 119, 120, 121,
      122, 91, 92, 93, 94, 95, 96, 97, 98, 99, 100, 101, 102, 103, 104, 105, 106, 107,
      108, 109, 110, 111, 112, 113, 114, 115, 116, 117, 118, 119, 120, 121, 122, 123, 124, 125,
      126, 127, 128, 129, 130, 131, 132, 133, 134, 135, 136, 137, 138, 139, 140, 141, 142, 143,
      144, 145, 146, 147, 148, 149, 150, 151, 152, 153, 154, 155, 156, 157, 158, 159, 160, 161,
      162, 163, 164, 165, 166, 167, 168, 169, 170, 171, 172, 173, 174, 175, 176, 177, 178, 179,
      180, 181, 182, 183, 184, 185, 186, 187, 188, 189, 190, 191, 192, 193, 194, 195, 196, 197,
      198, 199, 200, 201, 202, 203, 204, 205, 206, 207, 208, 209, 210, 211, 212, 213, 214, 215,
      216, 217, 218, 219, 220, 221, 222, 223, 224, 225, 226, 227, 228, 229, 230, 231, 232, 233,
      234, 235, 236, 237, 238, 239, 240, 241, 242, 243, 244, 245, 246, 247, 248, 249, 250, 251,
      252, 253, 254, 255]"

definition UpperToLower :: "char \<Rightarrow> nat" where
  "UpperToLower c = sqlite3UpperToLower ! of_char c"

fun sqlite3StrICmp :: "char list \<Rightarrow> char list \<Rightarrow> int option" where
  "sqlite3StrICmp (a # as) (b # bs) =
     (if a \<noteq> NUL \<and> UpperToLower a = UpperToLower b then sqlite3StrICmp as bs
      else Some (int (UpperToLower a) - int (UpperToLower b)))"
| "sqlite3StrICmp _ _ = None"

fun sqlite3StrNICmp :: "char list \<Rightarrow> char list \<Rightarrow> nat \<Rightarrow> int option" where
  "sqlite3StrNICmp _ _ 0 = Some 0"
| "sqlite3StrNICmp (a # as) (b # bs) (Suc n) =
     (if a \<noteq> NUL \<and> UpperToLower a = UpperToLower b then sqlite3StrNICmp as bs n
      else Some (int (UpperToLower a) - int (UpperToLower b)))"
| "sqlite3StrNICmp _ _ (Suc n) = None"

subsection \<open>Unquoting\<close>

text \<open>The loop reads at \<open>i\<close> and writes at \<open>j\<close> of the same buffer.\<close>

function dequote_loop :: "char \<Rightarrow> nat \<Rightarrow> nat \<Rightarrow> char list \<Rightarrow> char list option" where
  "dequote_loop quote i j z = do {
     c \<leftarrow> peek z i;
     if c = NUL then Some z
     else if c = quote then do {
       d \<leftarrow> peek z (i + 1);
       if d = quote then do { z' \<leftarrow> poke z j quote; dequote_loop quote (i + 2) (j + 1) z' }
       else poke z j NUL
     }
     else do { z' \<leftarrow> poke z j c; dequote_loop quote (i + 1) (j + 1) z' }
   }"
  by pat_completeness auto
termination
  by (relation "measure (\<lambda>(q, i, j, z). length z - i)") (auto simp: buf_simps)

definition sqlite3Dequote :: "char list \<Rightarrow> char list option" where
  "sqlite3Dequote z = do {
     quote \<leftarrow> peek z 0;
     if quote = CHR 39 \<or> quote = CHR 34 \<or> quote = CHR 96 then dequote_loop quote 1 0 z
     else if quote = CHR ''['' then dequote_loop (CHR '']'') 1 0 z
     else Some z
   }"

subsection \<open>Numbers\<close>

text \<open>Text encodings of sqlite3.h; a UTF-16 digit is a pair of bytes, so the scan advances by
  two, starting at the low byte.\<close>

definition SQLITE_UTF8 :: int where "SQLITE_UTF8 = 1"
definition SQLITE_UTF16LE :: int where "SQLITE_UTF16LE = 2"
definition SQLITE_UTF16BE :: int where "SQLITE_UTF16BE = 3"

lemmas enc_defs [codes] = SQLITE_UTF8_def SQLITE_UTF16LE_def SQLITE_UTF16BE_def

text \<open>\<open>while( isdigit(*z) ){ z += incr; }\<close>\<close>

function skip_digits :: "nat \<Rightarrow> char list \<Rightarrow> char list option" where
  "skip_digits incr [] = None"
| "skip_digits incr (c # z) =
     (if isdigit c then (if incr = 0 then None else skip_digits incr (drop incr (c # z)))
      else Some (c # z))"
  by pat_completeness auto
termination
  by (relation "measure (\<lambda>(incr, z). length z)") auto

text \<open>The fraction and the exponent: whether the scan fails there with \<open>return 0\<close>, the rest of
  the text, and the value of \<open>*realnum\<close>.\<close>

definition isnumber_frac :: "nat \<Rightarrow> char list \<Rightarrow> (bool \<times> char list \<times> bool) option" where
  "isnumber_frac incr z = do {
     c \<leftarrow> peek z 0;
     if c = CHR ''.'' then do {
       c \<leftarrow> peek (drop incr z) 0;
       if \<not> isdigit c then Some (True, [], False)
       else do { z \<leftarrow> skip_digits incr (drop incr z); Some (False, z, True) }
     }
     else Some (False, z, False)
   }"

definition isnumber_exp :: "nat \<Rightarrow> char list \<Rightarrow> bool \<Rightarrow> (bool \<times> char list \<times> bool) option" where
  "isnumber_exp incr z realnum = do {
     c \<leftarrow> peek z 0;
     if c = CHR ''e'' \<or> c = CHR ''E'' then do {
       c \<leftarrow> peek (drop incr z) 0;
       z \<leftarrow> Some (if c = CHR ''+'' \<or> c = CHR ''-'' then drop incr (drop incr z) else drop incr z);
       c \<leftarrow> peek z 0;
       if \<not> isdigit c then Some (True, [], realnum)
       else do { z \<leftarrow> skip_digits incr z; Some (False, z, True) }
     }
     else Some (False, z, realnum)
   }"

text \<open>The result is the return value and the value left in \<open>*realnum\<close>.\<close>

definition isnumber_scan :: "nat \<Rightarrow> char list \<Rightarrow> bool \<Rightarrow> (bool \<times> bool) option" where
  "isnumber_scan incr z realnum = do {
     c \<leftarrow> peek z 0;
     z \<leftarrow> Some (if c = CHR ''-'' \<or> c = CHR ''+'' then drop incr z else z);
     c \<leftarrow> peek z 0;
     if \<not> isdigit c then Some (False, realnum)
     else do {
       z \<leftarrow> skip_digits incr (drop incr z);
       (bad, z, r) \<leftarrow> isnumber_frac incr z;
       if bad then Some (False, r)
       else do {
         (bad, z, r) \<leftarrow> isnumber_exp incr z r;
         if bad then Some (False, r)
         else do { c \<leftarrow> peek z 0; Some (c = NUL, r) }
       }
     }
   }"

definition sqlite3IsNumber :: "char list \<Rightarrow> bool \<Rightarrow> int \<Rightarrow> (bool \<times> bool) option" where
  "sqlite3IsNumber z realnum enc =
     isnumber_scan (if enc = SQLITE_UTF8 then 1 else 2)
       (if enc = SQLITE_UTF16BE then drop 1 z else z) realnum"

text \<open>\<open>memcmp\<close> on \<open>n\<close> bytes; only its sign is specified, and only its sign is used.\<close>

fun memcmp :: "char list \<Rightarrow> char list \<Rightarrow> nat \<Rightarrow> int option" where
  "memcmp _ _ 0 = Some 0"
| "memcmp (a # as) (b # bs) (Suc n) =
     (if a = b then memcmp as bs n else Some (int (of_char a) - int (of_char b)))"
| "memcmp _ _ (Suc n) = None"

definition compare2pow63 :: "char list \<Rightarrow> int option" where
  "compare2pow63 z = do {
     c \<leftarrow> memcmp z ''922337203685477580'' 18;
     if c = 0 then do { d \<leftarrow> peek z 18; Some (int (of_char d) - 56) } else Some c
   }"

text \<open>The digit loop: number of digits, the character that stops it and the value, which wraps
  at 64 bits; a result with more than 19 digits is not used.\<close>

text \<open>
  The accumulator is a signed 64-bit integer that overflows from the 19th digit on. The addition is
  modelled with wrap-around; a text for which it wraps is rejected by its length or by compare2pow63.
\<close>

fun atoi_digits :: "char list \<Rightarrow> nat \<Rightarrow> i64 \<Rightarrow> (nat \<times> char \<times> i64) option" where
  "atoi_digits [] i v = None"
| "atoi_digits (c # z) i v =
     (if isdigit c then atoi_digits z (i + 1) (v * 10 + of_nat (of_char c) - 48)
      else Some (i, c, v))"

definition sqlite3Atoi64 :: "char list \<Rightarrow> (bool \<times> i64) option" where
  "sqlite3Atoi64 zNum = do {
     z1 \<leftarrow> skip_while isspace zNum;
     c \<leftarrow> peek z1 0;
     let neg = (c = CHR ''-'');
     let zStart = (if c = CHR ''-'' \<or> c = CHR ''+'' then drop 1 z1 else z1);
     z \<leftarrow> skip_while (\<lambda>c. c = CHR ''0'') zStart;
     (i, c, v) \<leftarrow> atoi_digits z 0 0;
     let num = (if neg then - v else v);
     if c \<noteq> NUL \<or> i = 0 \<and> length z = length zStart \<or> i > 19 then Some (False, num)
     else if i < 19 then Some (True, num)
     else do { k \<leftarrow> compare2pow63 z; Some (k < (if neg then 1 else 0), num) }
   }"

definition sqlite3FitsIn64Bits :: "char list \<Rightarrow> bool \<Rightarrow> bool option" where
  "sqlite3FitsIn64Bits zNum negFlag = do {
     c \<leftarrow> peek zNum 0;
     let neg = (c = CHR ''-'');
     let z1 = (if c = CHR ''-'' \<or> c = CHR ''+'' then drop 1 zNum else zNum);
     let neg = (if negFlag then \<not> neg else neg);
     z \<leftarrow> skip_while (\<lambda>c. c = CHR ''0'') z1;
     (i, c, v) \<leftarrow> atoi_digits z 0 0;
     if i < 19 then Some True
     else if i > 19 then Some False
     else do { k \<leftarrow> compare2pow63 z; Some (k < (if neg then 1 else 0)) }
   }"

text \<open>At most 11 digits are read, so \<open>v\<close> stays far below \<open>2 ^ 63\<close> and is an integer here.\<close>

fun getint_digits :: "char list \<Rightarrow> nat \<Rightarrow> int \<Rightarrow> (nat \<times> int) option" where
  "getint_digits z i v =
     (if i < 11 then
        (case z of [] \<Rightarrow> None
         | c # z' \<Rightarrow>
           if isdigit c then getint_digits z' (i + 1) (v * 10 + (int (of_char c) - 48))
           else Some (i, v))
      else Some (i, v))"

text \<open>\<open>Some None\<close>: the routine returns 0 and stores nothing.\<close>

definition sqlite3GetInt32 :: "char list \<Rightarrow> int option option" where
  "sqlite3GetInt32 zNum = do {
     c \<leftarrow> peek zNum 0;
     let neg = (if c = CHR ''-'' then 1 else 0 :: int);
     let z1 = (if c = CHR ''-'' \<or> c = CHR ''+'' then drop 1 zNum else zNum);
     z \<leftarrow> skip_while (\<lambda>c. c = CHR ''0'') z1;
     (i, v) \<leftarrow> getint_digits z 0 0;
     if i > 10 then Some None
     else if v - neg > 2147483647 then Some None
     else Some (Some (if neg \<noteq> 0 then - v else v))
   }"

subsection \<open>BLOB literals\<close>

definition hexToInt :: "nat \<Rightarrow> nat" where
  "hexToInt h = (h + 9 * (1 AND drop_bit 6 h)) AND 0xf"

function hex_loop :: "char list \<Rightarrow> nat \<Rightarrow> nat \<Rightarrow> u8 list option" where
  "hex_loop z i n =
     (if i < n then do {
        a \<leftarrow> peek z i;
        b \<leftarrow> peek z (i + 1);
        bs \<leftarrow> hex_loop z (i + 2) n;
        Some (of_nat (push_bit 4 (hexToInt (of_char a)) OR hexToInt (of_char b)) # bs)
      } else Some [])"
  by pat_completeness auto
termination
  by (relation "measure (\<lambda>(z, i, n). n - i)") auto

text \<open>The bytes written to the new buffer, its final zero included; \<open>Some None\<close> when malloc fails.\<close>

definition sqlite3HexToBlob :: "char list \<Rightarrow> nat \<Rightarrow> oom \<Rightarrow> u8 list option option" where
  "sqlite3HexToBlob z n m =
     (if fst (malloc_next m) then do {
        bs \<leftarrow> hex_loop z 0 (n - 1);
        Some (Some (bs @ [0]))
      } else Some None)"

declare dequote_loop.simps [simp del] getint_digits.simps [simp del] hex_loop.simps [simp del]

subsection \<open>The case table\<close>

lemma UpperToLower_table:
  "sqlite3UpperToLower = map (\<lambda>n. if 65 \<le> n \<and> n \<le> 90 then n + 32 else n) [0..<256]"
  by (simp add: sqlite3UpperToLower_def upt_rec [of 0] upt_rec [of "Suc 0"] flip: numeral_2_eq_2)

lemma of_char_256: "(of_char c :: nat) < 256"
  by (metis of_char_mod_256 mod_less_divisor zero_less_numeral)

lemma UpperToLower_eq:
  "UpperToLower c = (if 65 \<le> (of_char c :: nat) \<and> (of_char c :: nat) \<le> 90
                     then of_char c + 32 else of_char c)"
  using of_char_256 [of c] by (simp add: UpperToLower_def UpperToLower_table)

lemma of_char_NUL: "(of_char c :: nat) = 0 \<longleftrightarrow> c = NUL"
proof -
  have "(of_char c :: nat) = of_char NUL \<longleftrightarrow> c = NUL" by (rule of_char_eq_iff)
  then show ?thesis by simp
qed

text \<open>The comparison orders the texts by their lower-case forms.\<close>

definition fold_case :: "char list \<Rightarrow> nat list" where
  "fold_case s = map UpperToLower s"

lemma UpperToLower_NUL: "UpperToLower c = 0 \<longleftrightarrow> c = NUL"
  using of_char_NUL [of c] by (auto simp: UpperToLower_eq)

text \<open>
  Keys and names carry no zero, except that a terminator may be counted in: comparing two such
  texts of equal length decides equality up to case.
\<close>

lemma StrNICmp_decides:
  "length as = n \<Longrightarrow> length bs = n \<Longrightarrow> NUL \<notin> set (butlast as) \<Longrightarrow>
   \<exists>r. sqlite3StrNICmp as bs n = Some r \<and> (r = 0 \<longleftrightarrow> fold_case as = fold_case bs)"
proof (induction as bs n rule: sqlite3StrNICmp.induct)
  case (2 a as b bs n)
  show ?case
  proof (cases "as = []")
    case True
    with 2 show ?thesis by (auto simp: fold_case_def)
  next
    case False
    with 2 have "a \<noteq> NUL" by auto
    with 2 False show ?thesis by (auto simp: fold_case_def)
  qed
qed (auto simp: fold_case_def)

subsection \<open>Unquoting\<close>

text \<open>A quoted identifier or string doubles each quote inside it.\<close>

definition quote_body :: "char \<Rightarrow> char list \<Rightarrow> char list" where
  "quote_body q s = concat (map (\<lambda>c. if c = q then [q, q] else [c]) s)"

lemma drop_eq_ConsD: "drop i z = c # r \<Longrightarrow> i < length z \<and> z ! i = c \<and> drop (Suc i) z = r"
  by (metis Cons_nth_drop_Suc drop_all list.inject list.simps(3) not_less)

lemma dequote_loop_spec:
  assumes "drop i z = quote_body q s @ q # r # rest" and "r \<noteq> q" and "q \<noteq> NUL"
    and "NUL \<notin> set s" and "j < i"
  shows "\<exists>z'. dequote_loop q i j z = Some z' \<and> length z' = length z \<and> take j z' = take j z
     \<and> take (Suc (length s)) (drop j z') = s @ [NUL]"
  using assms
proof (induction s arbitrary: i j z)
  case Nil
  then have i: "i < length z" "z ! i = q" "Suc i < length z" "z ! Suc i = r"
    by (auto simp: quote_body_def dest!: drop_eq_ConsD)
  with Nil have "dequote_loop q i j z = Some (z[j := NUL])"
    by (subst dequote_loop.simps) simp
  moreover have "take 1 (drop j (z[j := NUL])) = [NUL]"
    using i Nil(5) by (simp add: drop_update_swap take_Suc_conv_app_nth)
  ultimately show ?case by simp
next
  case (Cons c s)
  let ?k = "if c = q then 2 else 1 :: nat"
  have d: "drop (i + ?k) z = quote_body q s @ q # r # rest"
    using Cons.prems(1) by (auto simp: quote_body_def dest!: drop_eq_ConsD)
  have i: "i < length z" "z ! i = c" "c = q \<Longrightarrow> Suc i < length z \<and> z ! Suc i = q"
    using Cons.prems(1) by (auto simp: quote_body_def split: if_splits dest!: drop_eq_ConsD)
  have step: "dequote_loop q i j z = dequote_loop q (i + ?k) (j + 1) (z[j := c])"
    using i Cons.prems by (subst dequote_loop.simps) auto
  have "drop (i + ?k) (z[j := c]) = quote_body q s @ q # r # rest"
    using d Cons.prems(5) by simp
  moreover have "j + 1 < i + ?k" using Cons.prems(5) by simp
  moreover have "NUL \<notin> set s" using Cons.prems(4) by simp
  ultimately obtain z' where z': "dequote_loop q (i + ?k) (j + 1) (z[j := c]) = Some z'"
      "length z' = length (z[j := c])" "take (j + 1) z' = take (j + 1) (z[j := c])"
      "take (Suc (length s)) (drop (j + 1) z') = s @ [NUL]"
    using Cons.IH Cons.prems(2,3) by meson
  have j: "j < length z" using i(1) Cons.prems(5) by simp
  have "take j (take (j + 1) z') = take j (take (j + 1) (z[j := c]))" using z'(3) by simp
  then have "take j z' = take j z" by (simp add: min_def)
  moreover have "take (j + 1) z' ! j = take (j + 1) (z[j := c]) ! j" using z'(3) by simp
  then have "z' ! j = c" using j by simp
  then have "take (Suc (length (c # s))) (drop j z') = (c # s) @ [NUL]"
    using z'(2,4) j by (simp add: Cons_nth_drop_Suc [symmetric] del: take_Suc)
  ultimately show ?case using step z'(1,2) by auto
qed

lemma Dequote_quoted:
  assumes "(lq, q) \<in> {(CHR 39, CHR 39), (CHR 34, CHR 34), (CHR 96, CHR 96), (CHR ''['', CHR '']'')}"
    and "NUL \<notin> set s" and "r \<noteq> q"
  shows "\<exists>z'. sqlite3Dequote (lq # quote_body q s @ q # r # rest) = Some z'
     \<and> length z' = length (lq # quote_body q s @ q # r # rest) \<and> cstr z' = s"
proof -
  let ?z = "lq # quote_body q s @ q # r # rest"
  have q: "q \<noteq> NUL" "sqlite3Dequote ?z = dequote_loop q 1 0 ?z"
    using assms(1) by (auto simp: sqlite3Dequote_def)
  obtain z' where z': "dequote_loop q 1 0 ?z = Some z'" "length z' = length ?z"
      "take (Suc (length s)) z' = s @ [NUL]"
    using dequote_loop_spec [of 1 ?z q s r rest 0] assms(2,3) q(1) by auto
  obtain t where "z' = s @ NUL # t"
    using z'(3) append_take_drop_id [of "Suc (length s)" z'] by (auto intro: that [OF sym])
  then have "cstr z' = s"
    using assms(2) by (auto simp: cstr_NUL)
  with z' q(2) show ?thesis by simp
qed

subsection \<open>Decimal texts\<close>

definition digit_val :: "char \<Rightarrow> nat" where
  "digit_val c = of_char c - 48"

fun dec :: "char list \<Rightarrow> nat" where
  "dec [] = 0"
| "dec (c # cs) = digit_val c * 10 ^ length cs + dec cs"

lemma digit_val_le: "isdigit c \<Longrightarrow> digit_val c \<le> 9"
  by (auto simp: isdigit_def digit_val_def)

lemma of_char_digit: "isdigit c \<Longrightarrow> (of_char c :: nat) = 48 + digit_val c"
  by (simp add: isdigit_def digit_val_def)

lemma digit_val_inj: "isdigit c \<Longrightarrow> isdigit d \<Longrightarrow> digit_val c = digit_val d \<longleftrightarrow> c = d"
  by (metis of_char_digit of_char_eq_iff)

lemma dec_less: "\<forall>c \<in> set ds. isdigit c \<Longrightarrow> dec ds < 10 ^ length ds"
proof (induction ds)
  case (Cons c ds)
  then have "digit_val c * 10 ^ length ds \<le> 9 * 10 ^ length ds" and "dec ds < 10 ^ length ds"
    using mult_right_mono [OF digit_val_le, of c "10 ^ length ds"] by auto
  then show ?case unfolding dec.simps length_Cons power_Suc by linarith
qed simp

lemma dec_append: "dec (xs @ ys) = dec xs * 10 ^ length ys + dec ys"
  by (induction xs) (simp_all add: power_add algebra_simps)

lemma dec_zeros: "\<forall>c \<in> set xs. c = CHR ''0'' \<Longrightarrow> dec xs = 0"
  by (induction xs) (auto simp: digit_val_def)

lemma dec_ge: "isdigit c \<Longrightarrow> c \<noteq> CHR ''0'' \<Longrightarrow> 10 ^ length cs \<le> dec (c # cs)"
proof -
  assume "isdigit c" "c \<noteq> CHR ''0''"
  then have "1 \<le> digit_val c"
    using digit_val_inj [of c "CHR ''0''"] by (auto simp: isdigit_def digit_val_def)
  then have "1 * 10 ^ length cs \<le> digit_val c * 10 ^ length cs" by (rule mult_right_mono) simp
  then show ?thesis unfolding dec.simps by linarith
qed

text \<open>Equally long digit texts compare as their values do.\<close>

lemma memcmp_dec:
  "length xs = n \<Longrightarrow> length ys = n \<Longrightarrow> \<forall>c \<in> set xs. isdigit c \<Longrightarrow> \<forall>c \<in> set ys. isdigit c \<Longrightarrow>
   \<exists>k. memcmp (xs @ r) ys n = Some k \<and> (k < 0 \<longleftrightarrow> dec xs < dec ys) \<and> (k = 0 \<longleftrightarrow> dec xs = dec ys)"
proof (induction n arbitrary: xs ys)
  case (Suc n)
  then obtain x xs' y ys' where xy: "xs = x # xs'" "ys = y # ys'"
    by (metis length_Suc_conv)
  have less: "dec xs' < 10 ^ n" "dec ys' < 10 ^ n"
    using dec_less [of xs'] dec_less [of ys'] Suc.prems by (auto simp: xy)
  consider "x = y" | "digit_val x < digit_val y" | "digit_val y < digit_val x"
    using digit_val_inj [of x y] Suc.prems by (force simp: xy)
  then show ?case
  proof cases
    case 1
    with Suc.IH [of xs' ys'] Suc.prems show ?thesis by (auto simp: xy)
  next
    case 2
    then have "(digit_val x + 1) * 10 ^ n \<le> digit_val y * 10 ^ n" by (intro mult_right_mono) auto
    then have "digit_val x * 10 ^ n + dec xs' < digit_val y * 10 ^ n + dec ys'"
      using less by (simp add: algebra_simps)
    with 2 Suc.prems show ?thesis
      by (auto simp: xy of_char_digit)
  next
    case 3
    then have "(digit_val y + 1) * 10 ^ n \<le> digit_val x * 10 ^ n" by (intro mult_right_mono) auto
    then have "digit_val y * 10 ^ n + dec ys' < digit_val x * 10 ^ n + dec xs'"
      using less by (simp add: algebra_simps)
    with 3 Suc.prems show ?thesis
      by (auto simp: xy of_char_digit)
  qed
qed simp

lemma compare2pow63_dec:
  assumes "length ds = 19" and "\<forall>c \<in> set ds. isdigit c"
  shows "\<exists>k. compare2pow63 (ds @ r) = Some k
     \<and> (k < 0 \<longleftrightarrow> dec ds < 2 ^ 63) \<and> (k < 1 \<longleftrightarrow> dec ds \<le> 2 ^ 63)"
proof -
  obtain xs d where ds: "ds = xs @ [d]" "length xs = 18"
    using assms(1) by (cases ds rule: rev_cases) auto
  define p where "p = ''922337203685477580''"
  have p: "\<forall>c \<in> set p. isdigit c" "length p = 18" "dec p = 922337203685477580"
    by (simp_all add: p_def isdigit_def digit_val_def)
  obtain k where k: "memcmp (xs @ d # r) p 18 = Some k" "k < 0 \<longleftrightarrow> dec xs < dec p" "k = 0 \<longleftrightarrow> dec xs = dec p"
    using memcmp_dec [of xs 18 p "d # r"] p(1,2) ds assms(2) by auto
  have d: "dec ds = 10 * dec xs + digit_val d" "digit_val d \<le> 9" "(of_char d :: nat) = 48 + digit_val d"
    using assms(2) ds digit_val_le [of d] of_char_digit [of d] by (auto simp: dec_append)
  show ?thesis
  proof (cases "k = 0")
    case True
    with k d p(3) ds show ?thesis by (auto simp: compare2pow63_def p_def [symmetric] peek_append2 nth_append)
  next
    case False
    with k d p(3) ds show ?thesis by (auto simp: compare2pow63_def p_def [symmetric])
  qed
qed

lemma skip_while_NUL:
  "\<not> P NUL \<Longrightarrow> skip_while P (s @ NUL # r) = Some (dropWhile P s @ NUL # r)"
  by (induction s) auto

lemma atoi_digits_dec:
  "\<forall>c \<in> set ds. isdigit c \<Longrightarrow> \<not> isdigit c \<Longrightarrow>
   atoi_digits (ds @ c # z) i v = Some (i + length ds, c, v * 10 ^ length ds + of_nat (dec ds))"
  by (induction ds arbitrary: i v) (simp_all add: of_char_digit algebra_simps)

lemma not_digit_NUL [simp]: "\<not> isdigit NUL" "\<not> isspace NUL"
  by (simp_all add: isdigit_def isspace_def)

text \<open>The digits of a text after its leading zeros, and the character that ends them.\<close>

definition sig_digits :: "char list \<Rightarrow> char list" where
  "sig_digits t = takeWhile isdigit (dropWhile (\<lambda>c. c = CHR ''0'') t)"

definition end_char :: "char list \<Rightarrow> char" where
  "end_char t = hd (dropWhile isdigit t @ [NUL])"

lemma sig_digits_digits: "\<forall>c \<in> set (sig_digits t). isdigit c"
  by (auto simp: sig_digits_def dest: set_takeWhileD)

lemma zero_digit [simp]: "isdigit (CHR ''0'')"
  by (simp add: isdigit_def)

lemma dec_sig_digits: "dec (sig_digits t) = dec (takeWhile isdigit t)"
  unfolding sig_digits_def by (induction t) (auto simp: digit_val_def)

lemma end_char_zeros: "end_char (dropWhile (\<lambda>c. c = CHR ''0'') t) = end_char t"
  unfolding end_char_def by (induction t) auto

lemma end_char_NUL: "NUL \<notin> set t \<Longrightarrow> end_char t = NUL \<longleftrightarrow> list_all isdigit t"
  unfolding end_char_def by (induction t) auto

lemma scan_digits:
  "\<exists>r'. dropWhile (\<lambda>c. c = CHR ''0'') t @ NUL # r = sig_digits t @ end_char t # r'"
proof -
  let ?u = "dropWhile (\<lambda>c. c = CHR ''0'') t"
  have "\<exists>r'. u @ NUL # r = takeWhile isdigit u @ end_char u # r'" for u
    unfolding end_char_def by (induction u) auto
  then show ?thesis unfolding sig_digits_def end_char_zeros [of t, symmetric] by blast
qed

lemma end_char_not_digit: "\<not> isdigit (end_char t)"
  unfolding end_char_def by (induction t) auto

lemma sig_digits_large:
  assumes "n < length (sig_digits t)" shows "10 ^ n \<le> dec (sig_digits t)"
proof -
  obtain c cs where cs: "sig_digits t = c # cs" using assms by (cases "sig_digits t") auto
  then have "c \<noteq> CHR ''0''"
    unfolding sig_digits_def by (induction t) (auto split: if_splits)
  moreover have "isdigit c" using sig_digits_digits [of t] cs by simp
  moreover have "(10 :: nat) ^ n \<le> 10 ^ length cs" using assms cs by (simp add: power_increasing)
  ultimately show ?thesis using dec_ge [of c cs] unfolding cs by linarith
qed

lemma sig_digits_small: "length (sig_digits t) \<le> n \<Longrightarrow> dec (sig_digits t) < 10 ^ n"
  using dec_less [OF sig_digits_digits, of t] power_increasing [of "length (sig_digits t)" n "10 :: nat"]
  by linarith

text \<open>The test all three converters end with: whether the digits fit, decided from their
  number and, at 19 digits, by text comparison with \<open>2 ^ 63\<close>.\<close>

lemma fits_nineteen:
  assumes "length (sig_digits t) = 19"
    and "dropWhile (\<lambda>c. c = CHR ''0'') t @ NUL # r = sig_digits t @ end_char t # r'"
  shows "\<exists>k. compare2pow63 (dropWhile (\<lambda>c. c = CHR ''0'') t @ NUL # r) = Some k
     \<and> (k < 0 \<longleftrightarrow> dec (sig_digits t) < 2 ^ 63) \<and> (k < 1 \<longleftrightarrow> dec (sig_digits t) \<le> 2 ^ 63)"
  unfolding assms(2) by (rule compare2pow63_dec [OF assms(1) sig_digits_digits])

text \<open>What the texts denote: \<open>int_text\<close> reads spaces, a sign and digits up to the end,
  \<open>int_prefix\<close> a sign and the digits that follow it.\<close>

definition strip_sign :: "char list \<Rightarrow> char list" where
  "strip_sign t = (case t of c # u \<Rightarrow> if c = CHR ''-'' \<or> c = CHR ''+'' then u else t | [] \<Rightarrow> [])"

definition signed :: "char list \<Rightarrow> nat \<Rightarrow> int" where
  "signed t n = (case t of c # u \<Rightarrow> if c = CHR ''-'' then - int n else int n | [] \<Rightarrow> int n)"

definition int_text :: "char list \<Rightarrow> int option" where
  "int_text s = (let t = dropWhile isspace s; ds = strip_sign t in
     if ds \<noteq> [] \<and> list_all isdigit ds then Some (signed t (dec ds)) else None)"

definition int_prefix :: "char list \<Rightarrow> int" where
  "int_prefix t = signed t (dec (takeWhile isdigit (strip_sign t)))"

lemma strip_sign_eq:
  "(let c = (t @ NUL # r) ! 0 in
    if c = CHR ''-'' \<or> c = CHR ''+'' then drop 1 (t @ NUL # r) else t @ NUL # r)
   = strip_sign t @ NUL # r"
  by (cases t) (auto simp: strip_sign_def Let_def)

lemma signed_eq: "signed t n = (if (t @ NUL # r) ! 0 = CHR ''-'' then - int n else int n)"
  by (cases t) (auto simp: signed_def)

lemma NUL_strip: "NUL \<notin> set t \<Longrightarrow> NUL \<notin> set (strip_sign t)"
  by (auto simp: strip_sign_def split: list.splits if_splits)

lemma FitsIn64Bits_spec:
  "sqlite3FitsIn64Bits (t @ NUL # r) negFlag =
     Some (let n = (if negFlag then - int_prefix t else int_prefix t) in - (2 ^ 63) \<le> n \<and> n < 2 ^ 63)"
proof -
  let ?u = "strip_sign t"
  obtain r' where r': "dropWhile (\<lambda>c. c = CHR ''0'') ?u @ NUL # r = sig_digits ?u @ end_char ?u # r'"
    using scan_digits by blast
  let ?n = "dec (sig_digits ?u)"
  let ?neg = "if negFlag then (t @ NUL # r) ! 0 \<noteq> CHR ''-'' else (t @ NUL # r) ! 0 = CHR ''-''"
  have ds: "atoi_digits (sig_digits ?u @ end_char ?u # r') 0 0
      = Some (length (sig_digits ?u), end_char ?u, of_nat ?n)"
    using atoi_digits_dec [OF sig_digits_digits end_char_not_digit, of ?u ?u r' 0 0] by simp
  have n: "int_prefix t = (if (t @ NUL # r) ! 0 = CHR ''-'' then - int ?n else int ?n)"
    unfolding int_prefix_def by (simp add: dec_sig_digits signed_eq [of t _ r])
  have fits: "?n < 2 ^ 63 + (if ?neg then 1 else 0) \<longleftrightarrow>
      (let n = (if negFlag then - int_prefix t else int_prefix t) in - (2 ^ 63) \<le> n \<and> n < 2 ^ 63)"
    unfolding n by (auto simp: Let_def)
  consider "length (sig_digits ?u) < 19" | "19 < length (sig_digits ?u)" | "length (sig_digits ?u) = 19"
    by linarith
  then have "sqlite3FitsIn64Bits (t @ NUL # r) negFlag = Some (?n < 2 ^ 63 + (if ?neg then 1 else 0))"
  proof cases
    case 1
    with sig_digits_small [of ?u 18] have "?n < 2 ^ 63" by simp
    with 1 show ?thesis
      by (simp add: sqlite3FitsIn64Bits_def strip_sign_eq [simplified Let_def] skip_while_NUL r' ds Let_def)
  next
    case 2
    with sig_digits_large [of 19 ?u] have "\<not> ?n < 2 ^ 63 + 1" by simp
    with 2 show ?thesis
      by (simp add: sqlite3FitsIn64Bits_def strip_sign_eq [simplified Let_def] skip_while_NUL r' ds Let_def)
  next
    case 3
    from fits_nineteen [OF 3 r'] 3 show ?thesis
      by (auto simp: sqlite3FitsIn64Bits_def strip_sign_eq [simplified Let_def] skip_while_NUL r' ds Let_def)
  qed
  with fits show ?thesis by simp
qed

text \<open>A 64-bit word holds every value the routine accepts.\<close>

lemma sint_in_range:
  assumes "- (2 ^ 63) \<le> n" and "n < 2 ^ 63" shows "sint (of_int n :: i64) = n"
  using assms by (simp add: signed_of_int signed_take_bit_int_eq_self)

lemma Atoi64_spec:
  assumes "NUL \<notin> set s"
  shows "\<exists>ok v. sqlite3Atoi64 (s @ NUL # r) = Some (ok, v)
     \<and> (ok \<longleftrightarrow> (\<exists>n. int_text s = Some n \<and> - (2 ^ 63) \<le> n \<and> n < 2 ^ 63))
     \<and> (ok \<longrightarrow> int_text s = Some (sint v))"
proof -
  define t where "t = dropWhile isspace s"
  let ?u = "strip_sign t"
  have NUL: "NUL \<notin> set ?u" "NUL \<notin> set t"
    using assms NUL_strip [of t] unfolding t_def by (auto dest: set_dropWhileD)
  obtain r' where r': "dropWhile (\<lambda>c. c = CHR ''0'') ?u @ NUL # r = sig_digits ?u @ end_char ?u # r'"
    using scan_digits by blast
  let ?n = "dec (sig_digits ?u)" and ?neg = "(t @ NUL # r) ! 0 = CHR ''-''"
  let ?v = "if ?neg then - of_nat ?n else of_nat ?n :: i64"
  have ds: "atoi_digits (sig_digits ?u @ end_char ?u # r') 0 0
      = Some (length (sig_digits ?u), end_char ?u, of_nat ?n)"
    using atoi_digits_dec [OF sig_digits_digits end_char_not_digit, of ?u ?u r' 0 0] by simp
  have empty: "?u = [] \<longleftrightarrow> sig_digits ?u = [] \<and> length (dropWhile (\<lambda>c. c = CHR ''0'') ?u) = length ?u"
    if "list_all isdigit ?u"
    using that length_dropWhile_le [of "\<lambda>c. c = CHR ''0''" "tl ?u"]
    unfolding sig_digits_def by (cases ?u) auto
  have all: "takeWhile isdigit ?u = ?u" if "list_all isdigit ?u"
    using that by (simp add: list_all_iff)
  have val: "int_text s = (if ?u \<noteq> [] \<and> end_char ?u = NUL then Some (if ?neg then - int ?n else int ?n) else None)"
    unfolding int_text_def t_def [symmetric] end_char_NUL [OF NUL(1)]
    by (simp add: all dec_sig_digits signed_eq [of t _ r] Let_def del: takeWhile_eq_all_conv)
  have len: "length (sig_digits ?u) + length r' = length (dropWhile (\<lambda>c. c = CHR ''0'') ?u) + length r"
    using arg_cong [OF r', of length] by simp
  have step: "sqlite3Atoi64 (s @ NUL # r) =
      (if end_char ?u \<noteq> NUL \<or> ?u = [] \<or> length (sig_digits ?u) > 19 then Some (False, ?v)
       else if length (sig_digits ?u) < 19 then Some (True, ?v)
       else do { k \<leftarrow> compare2pow63 (dropWhile (\<lambda>c. c = CHR ''0'') ?u @ NUL # r);
                 Some (k < (if ?neg then 1 else 0), ?v) })"
    using empty len unfolding end_char_NUL [OF NUL(1)]
    by (auto simp: sqlite3Atoi64_def strip_sign_eq [simplified Let_def] skip_while_NUL r' ds
        t_def [symmetric] Let_def end_char_NUL [OF NUL(1)])
  have v: "int_text s = Some (sint ?v)"
    if "?u \<noteq> []" "end_char ?u = NUL" "?n < 2 ^ 63 + (if ?neg then 1 else 0)"
    using that val sint_in_range [of "if ?neg then - int ?n else int ?n"] by auto
  show ?thesis
  proof (cases "end_char ?u \<noteq> NUL \<or> ?u = []")
    case True
    with step val show ?thesis by auto
  next
    case False
    have ok: "?n < 2 ^ 63 + (if ?neg then 1 else 0) \<longleftrightarrow>
       (\<exists>n. int_text s = Some n \<and> - (2 ^ 63) \<le> n \<and> n < 2 ^ 63)"
      using False val by auto
    consider "length (sig_digits ?u) < 19" | "19 < length (sig_digits ?u)" | "length (sig_digits ?u) = 19"
      by linarith
    then have "sqlite3Atoi64 (s @ NUL # r) = Some (?n < 2 ^ 63 + (if ?neg then 1 else 0), ?v)"
    proof cases
      case 1
      with sig_digits_small [of ?u 18] have "?n < 2 ^ 63" by simp
      with 1 False step show ?thesis by simp
    next
      case 2
      with sig_digits_large [of 19 ?u] have "\<not> ?n < 2 ^ 63 + 1" by simp
      with 2 False step show ?thesis by simp
    next
      case 3
      from fits_nineteen [OF 3 r'] 3 False step show ?thesis by auto
    qed
    with ok v False show ?thesis by auto
  qed
qed

lemma getint_digits_dec:
  "\<forall>c \<in> set ds. isdigit c \<Longrightarrow> \<not> isdigit c \<Longrightarrow> i + length ds < 11 \<Longrightarrow>
   getint_digits (ds @ c # z) i v = Some (i + length ds, v * 10 ^ length ds + int (dec ds))"
proof (induction ds arbitrary: i v)
  case (Cons d ds)
  then show ?case
    by (subst getint_digits.simps) (simp add: of_char_digit algebra_simps)
qed (subst getint_digits.simps, simp)

lemma getint_digits_eleven:
  "\<forall>c \<in> set ds. isdigit c \<Longrightarrow> i \<le> 11 \<Longrightarrow> 11 \<le> i + length ds \<Longrightarrow>
   \<exists>v'. getint_digits (ds @ z) i v = Some (11, v')"
proof (induction ds arbitrary: i v)
  case (Cons d ds)
  then show ?case
    by (subst getint_digits.simps) auto
qed (subst getint_digits.simps, simp)

lemma GetInt32_spec:
  "sqlite3GetInt32 (t @ NUL # r) =
     Some (if - (2 ^ 31) \<le> int_prefix t \<and> int_prefix t < 2 ^ 31 then Some (int_prefix t) else None)"
proof -
  let ?u = "strip_sign t"
  obtain r' where r': "dropWhile (\<lambda>c. c = CHR ''0'') ?u @ NUL # r = sig_digits ?u @ end_char ?u # r'"
    using scan_digits by blast
  let ?n = "dec (sig_digits ?u)" and ?neg = "(t @ NUL # r) ! 0 = CHR ''-''"
  have n: "int_prefix t = (if ?neg then - int ?n else int ?n)"
    unfolding int_prefix_def by (simp add: dec_sig_digits signed_eq [of t _ r])
  show ?thesis
  proof (cases "length (sig_digits ?u) < 11")
    case True
    then have ds: "getint_digits (sig_digits ?u @ end_char ?u # r') 0 0 = Some (length (sig_digits ?u), int ?n)"
      using getint_digits_dec [OF sig_digits_digits end_char_not_digit, of 0 ?u ?u r' 0] by simp
    with True n show ?thesis
      by (auto simp: sqlite3GetInt32_def strip_sign_eq [simplified Let_def] skip_while_NUL r' ds Let_def)
  next
    case False
    then obtain v' where ds: "getint_digits (sig_digits ?u @ end_char ?u # r') 0 0 = Some (11, v')"
      using getint_digits_eleven [OF sig_digits_digits, of 0 ?u "end_char ?u # r'" 0] by auto
    have "2 ^ 31 < ?n" using False sig_digits_large [of 10 ?u] by simp
    then show ?thesis unfolding n
      by (simp add: sqlite3GetInt32_def strip_sign_eq [simplified Let_def] skip_while_NUL r' ds Let_def)
  qed
qed

subsection \<open>Numbers in UTF-16\<close>

text \<open>The scan sees a UTF-16 text through its low bytes: every second byte of the buffer.\<close>

fun wide :: "char list \<Rightarrow> char list \<Rightarrow> char list" where
  "wide t [] = []"
| "wide t [c] = c # t"
| "wide t (c # d # z) = c # NUL # wide t (d # z)"

lemma peek_wide: "peek (wide t z) 0 = peek z 0"
  by (cases "(t, z)" rule: wide.cases) (auto simp: peek_def)

lemma drop_wide: "length t \<le> 1 \<Longrightarrow> drop 2 (wide t z) = wide t (drop (Suc 0) z)"
  by (cases "(t, z)" rule: wide.cases) (auto simp: numeral_2_eq_2)

lemma skip_digits_wide:
  assumes "length t \<le> 1"
  shows "skip_digits 2 (wide t z) = map_option (wide t) (skip_digits 1 z)"
proof (induction z rule: induct_list012)
  case (2 c)
  then show ?case using assms by (cases t) (auto simp: numeral_2_eq_2)
next
  case (3 c d z)
  then show ?case by (auto simp: numeral_2_eq_2)
qed simp

abbreviation widen :: "char list \<Rightarrow> bool \<times> char list \<times> bool \<Rightarrow> bool \<times> char list \<times> bool" where
  "widen t \<equiv> \<lambda>(bad, z, r). (bad, wide t z, r)"

lemma frac_wide:
  "length t \<le> 1 \<Longrightarrow> isnumber_frac 2 (wide t z) = map_option (widen t) (isnumber_frac 1 z)"
  by (auto simp: isnumber_frac_def peek_wide drop_wide skip_digits_wide Option.map_conv_bind_option
      intro!: Option.bind_cong)

lemma exp_wide:
  "length t \<le> 1 \<Longrightarrow> isnumber_exp 2 (wide t z) r = map_option (widen t) (isnumber_exp 1 z r)"
  by (auto simp: isnumber_exp_def peek_wide drop_wide skip_digits_wide Option.map_conv_bind_option
      simp del: drop_drop intro!: Option.bind_cong)

lemma scan_wide: "length t \<le> 1 \<Longrightarrow> isnumber_scan 2 (wide t z) r = isnumber_scan 1 z r"
  by (auto simp: isnumber_scan_def peek_wide drop_wide skip_digits_wide frac_wide exp_wide
      Option.map_conv_bind_option simp del: drop_drop intro!: Option.bind_cong)

subsection \<open>Hexadecimal digits\<close>

definition hex_chars :: "char list \<Rightarrow> u8 \<Rightarrow> char list" where
  "hex_chars tab b = [tab ! (unat b div 16), tab ! (unat b mod 16)]"

definition hex_tables :: "char list set" where
  "hex_tables = {''0123456789abcdef'', ''0123456789ABCDEF''}"

lemma hexToInt_table:
  assumes "tab \<in> hex_tables" and "n < 16" shows "hexToInt (of_char (tab ! n)) = n"
proof -
  have "n \<in> set [0..<16]" using assms(2) by simp
  then have "n \<in> {0, 1, 2, 3, 4, 5, 6, 7, 8, 9, 10, 11, 12, 13, 14, 15}"
    by (auto simp: upt_rec)
  with assms(1) show ?thesis
    unfolding hex_tables_def by (elim insertE emptyE) (simp_all add: hexToInt_def)
qed

lemma hex_pair:
  assumes "tab \<in> hex_tables"
  shows "of_nat (push_bit 4 (hexToInt (of_char (tab ! (unat b div 16))))
            OR hexToInt (of_char (tab ! (unat b mod 16)))) = (b :: u8)"
proof -
  have b: "unat b < 256" using unat_less [of b] by simp
  have "push_bit 4 (unat b div 16) OR (unat b mod 16) = unat b"
    by (rule bit_eqI) (auto simp: bit_simps take_bit_eq_mod [of 4, simplified, symmetric]
        drop_bit_eq_div [of 4, simplified, symmetric])
  with b show ?thesis by (simp add: hexToInt_table [OF assms] less_mult_imp_div_less)
qed

lemma hex_loop_chars:
  assumes "tab \<in> hex_tables"
  shows "n \<le> length pre + 2 * length bs \<Longrightarrow> length pre + 2 * length bs \<le> n + 1 \<Longrightarrow>
    hex_loop (pre @ concat (map (hex_chars tab) bs) @ r) (length pre) n = Some bs"
proof (induction bs arbitrary: pre)
  case Nil
  then show ?case by (subst hex_loop.simps) simp
next
  case (Cons b bs)
  let ?z = "pre @ concat (map (hex_chars tab) (b # bs)) @ r"
  have "hex_loop ((pre @ hex_chars tab b) @ concat (map (hex_chars tab) bs) @ r) (length (pre @ hex_chars tab b)) n
      = Some bs"
    by (rule Cons.IH) (use Cons.prems in \<open>simp_all add: hex_chars_def\<close>)
  then have "hex_loop ?z (length pre + 2) n = Some bs"
    by (simp add: hex_chars_def)
  then show ?case using Cons.prems
    by (subst hex_loop.simps) (simp add: hex_chars_def nth_append hex_pair [OF assms])
qed

subsection \<open>Properties\<close>

text \<open>
  C39: unquoting inverts quoting. A text between quotes of any of the four styles, its own
  quotes doubled, is turned in place, within the bounds of the buffer, into the
  zero-terminated text itself.
\<close>
theorem Dequote_inverts_quoting:
  assumes "(lq, q) \<in> {(CHR 39, CHR 39), (CHR 34, CHR 34), (CHR 96, CHR 96), (CHR ''['', CHR '']'')}"
    and "NUL \<notin> set s" and "r \<noteq> q"
  shows "\<exists>z'. sqlite3Dequote (lq # quote_body q s @ q # r # rest) = Some z'
     \<and> length z' = length (lq # quote_body q s @ q # r # rest) \<and> cstr z' = s"
  by (rule Dequote_quoted [OF assms])

theorem Dequote_inverts_quoting_witness:
  "\<exists>z'. sqlite3Dequote (''[a]]b]'' @ [NUL]) = Some z' \<and> cstr z' = ''a]b''"
  using Dequote_inverts_quoting [of "CHR ''[''" "CHR '']''" "''a]b''" NUL "[]"]
  by (auto simp: quote_body_def)

text \<open>
  C27: sqlite3Atoi64 accepts exactly the texts made of spaces, an optional sign and digits
  whose value fits a signed 64-bit integer, and then stores that value; it never reads past
  the terminator.
\<close>
theorem Atoi64_exact:
  assumes "NUL \<notin> set s"
  shows "\<exists>ok v. sqlite3Atoi64 (s @ NUL # r) = Some (ok, v)
     \<and> (ok \<longleftrightarrow> (\<exists>n. int_text s = Some n \<and> - (2 ^ 63) \<le> n \<and> n < 2 ^ 63))
     \<and> (ok \<longrightarrow> int_text s = Some (sint v))"
  by (rule Atoi64_spec [OF assms])

theorem Atoi64_exact_witness:
  "\<exists>v. sqlite3Atoi64 (''  -009223372036854775808'' @ [NUL]) = Some (True, v)
     \<and> sint v = - 9223372036854775808"
  using Atoi64_exact [of "''  -009223372036854775808''" "[]"]
  by (auto simp: int_text_def strip_sign_def signed_def isspace_def isdigit_def digit_val_def)

text \<open>
  the two converters that read a numeric prefix. sqlite3GetInt32 stores the value when it
  fits a signed 32-bit integer and refuses it otherwise; sqlite3FitsIn64Bits answers whether
  the value, negated when \<open>negFlag\<close> is set, fits a signed 64-bit integer, the most negative
  one included.
\<close>
theorem int_prefix_converters:
  "sqlite3GetInt32 (t @ NUL # r) =
     Some (if - (2 ^ 31) \<le> int_prefix t \<and> int_prefix t < 2 ^ 31 then Some (int_prefix t) else None)
   \<and> sqlite3FitsIn64Bits (t @ NUL # r) negFlag =
     Some (let n = (if negFlag then - int_prefix t else int_prefix t) in - (2 ^ 63) \<le> n \<and> n < 2 ^ 63)"
  by (intro conjI GetInt32_spec FitsIn64Bits_spec)

text \<open>
  a UTF-16 text of either byte order whose characters are below 256 is classified as a
  number, and as a real number, exactly as the same text in UTF-8, also on buffers that end
  too early.
\<close>
theorem IsNumber_encodings:
  "sqlite3IsNumber (concat (map (\<lambda>c. [c, NUL]) z)) rn SQLITE_UTF16LE = sqlite3IsNumber z rn SQLITE_UTF8
   \<and> sqlite3IsNumber (concat (map (\<lambda>c. [NUL, c]) z)) rn SQLITE_UTF16BE = sqlite3IsNumber z rn SQLITE_UTF8"
proof -
  have "concat (map (\<lambda>c. [c, NUL]) z) = wide [NUL] z"
    by (induction z rule: induct_list012) auto
  moreover have "drop 1 (concat (map (\<lambda>c. [NUL, c]) z)) = wide [] z"
    by (induction z rule: induct_list012) auto
  ultimately show ?thesis
    by (simp add: sqlite3IsNumber_def codes scan_wide [simplified])
qed

text \<open>
  converting a BLOB literal recovers the bytes its hexadecimal digits, of either case,
  spell, followed by a zero; \<open>n\<close> may or may not count the closing quote.
\<close>
theorem HexToBlob_roundtrip:
  assumes "tab \<in> hex_tables" and "n = 2 * length bs \<or> n = 2 * length bs + 1"
    and "fst (malloc_next m)"
  shows "sqlite3HexToBlob (concat (map (hex_chars tab) bs) @ r) n m = Some (Some (bs @ [0]))"
  using hex_loop_chars [OF assms(1), of "n - 1" "[]" bs r] assms(2,3)
  by (auto simp: sqlite3HexToBlob_def)

theorem HexToBlob_roundtrip_witness:
  "sqlite3HexToBlob ''4AFF'' 4 [] = Some (Some [0x4A, 0xFF, 0])"
  using HexToBlob_roundtrip [of "''0123456789ABCDEF''" 4 "[0x4A, 0xFF]" "[]" "[]"]
  by (simp add: hex_tables_def hex_chars_def)

text \<open>The digits of a number with more than 19 digits have wrapped before it is rejected.\<close>

lemma atoi_wraps: "sqlite3Atoi64 (''18446744073709551621'' @ [NUL]) = Some (False, 5)"
  by code_simp

end
