(* ===== verification/Tokenize.thy ===== *)
theory Tokenize
  imports TextUtil
begin

text \<open>
  The SQL tokenizer of tokenize.c: \<open>sqlite3GetToken\<close>, which measures and classifies the token
  at a position, and the loop of \<open>sqlite3RunParser\<close> that feeds the tokens to the parser.

  The recogniser of keywords (generated by mkkeywordhash.c) and the parser engine (generated by
  lemon) are parameters: \<open>kw\<close> maps the text of an identifier to its token, and
  \<open>parser\<close> is one step of the engine on a token, with the error code it leaves in
  \<open>pParse->rc\<close>.
\<close>

text \<open>Token types of parse.h; \<open>TK_CODE\<close> is a code that \<open>keywordCode\<close> returned and \<open>TK_EOF\<close> the
  token 0 that ends the input.\<close>

datatype token_type =
    TK_EOF | TK_SPACE | TK_MINUS | TK_LP | TK_RP | TK_SEMI | TK_PLUS | TK_STAR | TK_SLASH | TK_REM
  | TK_EQ | TK_LE | TK_NE | TK_LSHIFT | TK_LT | TK_GE | TK_RSHIFT | TK_GT | TK_ILLEGAL | TK_BITOR
  | TK_CONCAT | TK_COMMA | TK_BITAND | TK_BITNOT | TK_STRING | TK_ID | TK_DOT | TK_INTEGER
  | TK_FLOAT | TK_VARIABLE | TK_REGISTER | TK_BLOB | TK_CODE int

definition sqlite3IsAsciiIdChar :: "nat list" where
  "sqlite3IsAsciiIdChar =
     [0, 0, 0, 0, 1, 0, 0, 0, 0, 0, 0, 0, 0, 0, 0, 0,
      1, 1, 1, 1, 1, 1, 1, 1, 1, 1, 0, 0, 0, 0, 0, 0,
      0, 1, 1, 1, 1, 1, 1, 1, 1, 1, 1, 1, 1, 1, 1, 1,
      1, 1, 1, 1, 1, 1, 1, 1, 1, 1, 1, 0, 0, 0, 0, 1,
      0, 1, 1, 1, 1, 1, 1, 1, 1, 1, 1, 1, 1, 1, 1, 1,
      1, 1, 1, 1, 1, 1, 1, 1, 1, 1, 1, 0, 0, 0, 0, 0]"

definition IdChar :: "char \<Rightarrow> bool" where
  "IdChar c \<longleftrightarrow> (let n = of_char c :: nat in
     n AND 0x80 \<noteq> 0 \<or> n > 0x1f \<and> sqlite3IsAsciiIdChar ! (n - 0x20) \<noteq> 0)"

definition isxdigit :: "char \<Rightarrow> bool" where
  "isxdigit c \<longleftrightarrow> isdigit c \<or> 65 \<le> (of_char c :: nat) \<and> (of_char c :: nat) \<le> 70
     \<or> 97 \<le> (of_char c :: nat) \<and> (of_char c :: nat) \<le> 102"

text \<open>\<open>while( P(z[i]) ) i++;\<close>\<close>

function scan_while :: "(char \<Rightarrow> bool) \<Rightarrow> char list \<Rightarrow> nat \<Rightarrow> nat option" where
  "scan_while P z i = do { c \<leftarrow> peek z i; if P c then scan_while P z (i + 1) else Some i }"
  by pat_completeness auto
termination
  by (relation "measure (\<lambda>(P, z, i). length z - i)") (auto simp: buf_simps)

text \<open>The comment loop: \<open>for(i=3, c=z[2]; (c!='*' || z[i]!='/') && (c=z[i])!=0; i++){}\<close>, with
  the final \<open>c\<close>.\<close>

function comment_loop :: "char list \<Rightarrow> nat \<Rightarrow> char \<Rightarrow> (nat \<times> char) option" where
  "comment_loop z i c = do {
     d \<leftarrow> peek z i;
     if c \<noteq> CHR ''*'' \<or> d \<noteq> CHR ''/'' then (if d \<noteq> NUL then comment_loop z (i + 1) d else Some (i, d))
     else Some (i, c)
   }"
  by pat_completeness auto
termination
  by (relation "measure (\<lambda>(z, i, c). length z - i)") (auto simp: buf_simps)

text \<open>A quoted token: the position and the character that end the loop.\<close>

function quote_loop :: "char \<Rightarrow> char list \<Rightarrow> nat \<Rightarrow> (nat \<times> char) option" where
  "quote_loop delim z i = do {
     c \<leftarrow> peek z i;
     if c = NUL then Some (i, c)
     else if c = delim then do {
       d \<leftarrow> peek z (i + 1);
       if d = delim then quote_loop delim z (i + 2) else Some (i, c)
     }
     else quote_loop delim z (i + 1)
   }"
  by pat_completeness auto
termination
  by (relation "measure (\<lambda>(q, z, i). length z - i)") (auto simp: buf_simps)

text \<open>A bracketed identifier: \<open>for(i=1, c=z[0]; c!=']' && (c=z[i])!=0; i++){}\<close>.\<close>

function bracket_loop :: "char list \<Rightarrow> nat \<Rightarrow> char \<Rightarrow> (nat \<times> char) option" where
  "bracket_loop z i c =
     (if c \<noteq> CHR '']'' then do {
        d \<leftarrow> peek z i;
        if d \<noteq> NUL then bracket_loop z (i + 1) d else Some (i, d)
      } else Some (i, c))"
  by pat_completeness auto
termination
  by (relation "measure (\<lambda>(z, i, c). length z - i)") (auto simp: buf_simps)

text \<open>The name of a host parameter: the end of the loop, the number of identifier characters
  and whether the token became illegal. The inner loop runs to \<open>)\<close>, a space or the end.\<close>

function variable_loop :: "char list \<Rightarrow> nat \<Rightarrow> nat \<Rightarrow> (nat \<times> nat \<times> bool) option" where
  "variable_loop z i n = do {
     c \<leftarrow> peek z i;
     if c = NUL then Some (i, n, False)
     else if IdChar c then variable_loop z (i + 1) (n + 1)
     else if c = CHR ''('' \<and> n > 0 then do {
       j \<leftarrow> scan_while (\<lambda>c. c \<noteq> NUL \<and> \<not> isspace c \<and> c \<noteq> CHR '')'') z (i + 1);
       c \<leftarrow> peek z j;
       if c = CHR '')'' then Some (j + 1, n, False) else Some (j, n, True)
     }
     else if c = CHR '':'' then do {
       d \<leftarrow> peek z (i + 1);
       if d = CHR '':'' then variable_loop z (i + 2) n else Some (i, n, False)
     }
     else Some (i, n, False)
   }"
  by pat_completeness auto
termination
  by (relation "measure (\<lambda>(z, i, n). length z - i)") (auto simp: buf_simps)

text \<open>A BLOB literal: the end of the loop, its last character and whether a character was no
  hexadecimal digit.\<close>

function blob_loop :: "char list \<Rightarrow> nat \<Rightarrow> bool \<Rightarrow> (nat \<times> char \<times> bool) option" where
  "blob_loop z i bad = do {
     c \<leftarrow> peek z i;
     if c \<noteq> NUL \<and> c \<noteq> CHR 39 then blob_loop z (i + 1) (bad \<or> \<not> isxdigit c) else Some (i, c, bad)
   }"
  by pat_completeness auto
termination
  by (relation "measure (\<lambda>(z, i, b). length z - i)") (auto simp: buf_simps)

definition number_token :: "char list \<Rightarrow> (nat \<times> token_type) option" where
  "number_token z = do {
     i \<leftarrow> scan_while isdigit z 0;
     c \<leftarrow> peek z i;
     (i, t) \<leftarrow> (if c = CHR ''.'' then do { i \<leftarrow> scan_while isdigit z (i + 1); Some (i, TK_FLOAT) }
                else Some (i, TK_INTEGER));
     c \<leftarrow> peek z i;
     expo \<leftarrow> (if c = CHR ''e'' \<or> c = CHR ''E'' then do {
                 d \<leftarrow> peek z (i + 1);
                 if isdigit d then Some True
                 else if d = CHR ''+'' \<or> d = CHR ''-'' then do { e \<leftarrow> peek z (i + 2); Some (isdigit e) }
                 else Some False
               } else Some False);
     (i, t) \<leftarrow> (if expo then do { i \<leftarrow> scan_while isdigit z (i + 2); Some (i, TK_FLOAT) } else Some (i, t));
     j \<leftarrow> scan_while IdChar z i;
     Some (j, if j > i then TK_ILLEGAL else t)
   }"

definition variable_token :: "char list \<Rightarrow> (nat \<times> token_type) option" where
  "variable_token z = do {
     (i, n, bad) \<leftarrow> variable_loop z 1 0;
     Some (i, if bad \<or> n = 0 then TK_ILLEGAL else TK_VARIABLE)
   }"

text \<open>The default case: an identifier or keyword, or a character that starts no token.\<close>

definition word_token :: "(char list \<Rightarrow> token_type) \<Rightarrow> char list \<Rightarrow> (nat \<times> token_type) option" where
  "word_token kw z = do {
     c \<leftarrow> peek z 0;
     if \<not> IdChar c then Some (1, TK_ILLEGAL)
     else do { i \<leftarrow> scan_while IdChar z 1; Some (i, kw (take i z)) }
   }"

text \<open>A token of one character, or of two when the second one is in the list.\<close>

definition operator_token ::
  "char list \<Rightarrow> (char \<times> token_type) list \<Rightarrow> token_type \<Rightarrow> (nat \<times> token_type) option" where
  "operator_token z two one = do {
     c \<leftarrow> peek z 1;
     (case map_of two c of Some t \<Rightarrow> Some (2, t) | None \<Rightarrow> Some (1, one))
   }"

text \<open>The switch on the first character. The case of a blank string literal \<open>x'...'\<close> falls
  through to the default case, and \<open>#\<close> without digits to that of the named parameters.\<close>

definition sqlite3GetToken :: "(char list \<Rightarrow> token_type) \<Rightarrow> char list \<Rightarrow> (nat \<times> token_type) option" where
  "sqlite3GetToken kw z = do {
     c \<leftarrow> peek z 0;
     if c = CHR '' '' \<or> c = CHR 0x09 \<or> c = CHR 0x0A \<or> c = CHR 0x0C \<or> c = CHR 0x0D then do {
       i \<leftarrow> scan_while isspace z 1;
       Some (i, TK_SPACE)
     }
     else if c = CHR ''-'' then do {
       d \<leftarrow> peek z 1;
       if d = CHR ''-'' then do {
         i \<leftarrow> scan_while (\<lambda>c. c \<noteq> NUL \<and> c \<noteq> CHR 0x0A) z 2;
         Some (i, TK_SPACE)
       }
       else Some (1, TK_MINUS)
     }
     else if c = CHR ''('' then Some (1, TK_LP)
     else if c = CHR '')'' then Some (1, TK_RP)
     else if c = CHR '';'' then Some (1, TK_SEMI)
     else if c = CHR ''+'' then Some (1, TK_PLUS)
     else if c = CHR ''*'' then Some (1, TK_STAR)
     else if c = CHR ''/'' then do {
       d \<leftarrow> peek z 1;
       if d \<noteq> CHR ''*'' then Some (1, TK_SLASH)
       else do {
         e \<leftarrow> peek z 2;
         if e = NUL then Some (1, TK_SLASH)
         else do {
           (i, c) \<leftarrow> comment_loop z 3 e;
           Some (if c \<noteq> NUL then i + 1 else i, TK_SPACE)
         }
       }
     }
     else if c = CHR ''%'' then Some (1, TK_REM)
     else if c = CHR ''='' then operator_token z [(CHR ''='', TK_EQ)] TK_EQ
     else if c = CHR ''<'' then
       operator_token z [(CHR ''='', TK_LE), (CHR ''>'', TK_NE), (CHR ''<'', TK_LSHIFT)] TK_LT
     else if c = CHR ''>'' then operator_token z [(CHR ''='', TK_GE), (CHR ''>'', TK_RSHIFT)] TK_GT
     else if c = CHR ''!'' then do {
       d \<leftarrow> peek z 1;
       Some (2, if d \<noteq> CHR ''='' then TK_ILLEGAL else TK_NE)
     }
     else if c = CHR ''|'' then operator_token z [(CHR ''|'', TK_CONCAT)] TK_BITOR
     else if c = CHR '','' then Some (1, TK_COMMA)
     else if c = CHR ''&'' then Some (1, TK_BITAND)
     else if c = CHR ''~'' then Some (1, TK_BITNOT)
     else if c = CHR 96 \<or> c = CHR 39 \<or> c = CHR 34 then do {
       (i, e) \<leftarrow> quote_loop c z 1;
       Some (if e = CHR 39 then (i + 1, TK_STRING)
             else if e \<noteq> NUL then (i + 1, TK_ID) else (i, TK_ILLEGAL))
     }
     else if c = CHR ''.'' then do {
       d \<leftarrow> peek z 1;
       if \<not> isdigit d then Some (1, TK_DOT) else number_token z
     }
     else if isdigit c then number_token z
     else if c = CHR ''['' then do {
       (i, e) \<leftarrow> bracket_loop z 1 c;
       Some (i, if e = CHR '']'' then TK_ID else TK_ILLEGAL)
     }
     else if c = CHR ''?'' then do {
       i \<leftarrow> scan_while isdigit z 1;
       Some (i, TK_VARIABLE)
     }
     else if c = CHR ''#'' then do {
       i \<leftarrow> scan_while isdigit z 1;
       if i > 1 then Some (i, TK_REGISTER) else variable_token z
     }
     else if c = CHR ''$'' \<or> c = CHR ''@'' \<or> c = CHR '':'' then variable_token z
     else if c = CHR ''x'' \<or> c = CHR ''X'' then do {
       d \<leftarrow> peek z 1;
       if d = CHR 39 then do {
         (i, e, bad) \<leftarrow> blob_loop z 2 False;
         Some (if e \<noteq> NUL then i + 1 else i,
               if bad \<or> i mod 2 \<noteq> 0 \<or> e = NUL then TK_ILLEGAL else TK_BLOB)
       }
       else word_token kw z
     }
     else word_token kw z
   }"

text \<open>How the token loop of \<open>sqlite3RunParser\<close> ends: at the end of the text, after a failed
  allocation, at the length limit, when interrupted, at an unrecognised token, or because the parser
  has set \<open>pParse->rc\<close>: to SQLITE_DONE at the end of a statement, or to an error.\<close>

datatype stop = End_of_text | No_memory | Too_big | Interrupt | Illegal | Parser_rc

text \<open>One step of the parser engine returns the engine, whether \<open>pParse->rc\<close> is still
  SQLITE_OK, and \<open>db->mallocFailed\<close>.\<close>

type_synonym 'p engine = "'p \<Rightarrow> token_type \<Rightarrow> char list \<Rightarrow> 'p \<times> bool \<times> bool"

text \<open>
  The loop. \<open>i\<close> is the position in \<open>z\<close>; \<open>lastTok\<close> is \<open>lastTokenParsed\<close> and \<open>sLast\<close> the text of
  \<open>pParse->sLastToken\<close>. The result is the reason to leave the loop, the position, the last
  token parsed, the last token read and the engine.
\<close>

function run_tokens ::
  "(char list \<Rightarrow> token_type) \<Rightarrow> 'p engine \<Rightarrow> bool \<Rightarrow> nat \<Rightarrow> char list \<Rightarrow> nat \<Rightarrow> token_type option
   \<Rightarrow> char list \<Rightarrow> bool \<Rightarrow> 'p \<Rightarrow> (stop \<times> nat \<times> token_type option \<times> char list \<times> 'p) option" where
  "run_tokens kw parser interrupted mx z i lastTok sLast mallocFailed p =
     (if mallocFailed then Some (No_memory, i, lastTok, sLast, p)
      else do {
        c \<leftarrow> peek z i;
        if c = NUL then Some (End_of_text, i, lastTok, sLast, p)
        else do {
          (n, t) \<leftarrow> sqlite3GetToken kw (drop i z);
          let j = i + n; tok = take n (drop i z) in
          if j > mx then Some (Too_big, j, lastTok, tok, p)
          else if t = TK_SPACE then
            (if interrupted then Some (Interrupt, j, lastTok, tok, p)
             else if n = 0 then None
             else run_tokens kw parser interrupted mx z j lastTok tok False p)
          else if t = TK_ILLEGAL then Some (Illegal, j, lastTok, tok, p)
          else (case parser p t tok of (p', ok, mem) \<Rightarrow>
            if \<not> ok then Some (Parser_rc, j, Some t, tok, p')
            else if n = 0 then None
            else run_tokens kw parser interrupted mx z j (Some t) tok mem p')
        }
      })"
  by pat_completeness auto
termination
  by (relation "measure (\<lambda>(kw, parser, int, mx, z, i, l, x, m, p). length z - i)") (auto simp: buf_simps)

text \<open>What happens at \<open>abort_parse\<close>: it looks at \<open>zSql[i]\<close> again, and at the end of a text
  without error it feeds a final semicolon, unless there was one, and the end marker.\<close>

definition run_parser ::
  "(char list \<Rightarrow> token_type) \<Rightarrow> 'p engine \<Rightarrow> bool \<Rightarrow> nat \<Rightarrow> char list \<Rightarrow> 'p \<Rightarrow> (stop \<times> 'p) option" where
  "run_parser kw parser interrupted mx z p = do {
     (st, i, lastTok, sLast, p1) \<leftarrow> run_tokens kw parser interrupted mx z 0 None [] False p;
     c \<leftarrow> peek z i;
     if c = NUL \<and> (st = End_of_text \<or> st = No_memory) then
       (let p2 = (if lastTok \<noteq> Some TK_SEMI then fst (parser p1 TK_SEMI sLast) else p1)
        in Some (st, fst (parser p2 TK_EOF sLast)))
     else Some (st, p1)
   }"

declare scan_while.simps [simp del] comment_loop.simps [simp del] quote_loop.simps [simp del]
  bracket_loop.simps [simp del] variable_loop.simps [simp del] blob_loop.simps [simp del]
  run_tokens.simps [simp del]

subsection \<open>The loops stay within a terminated text\<close>

definition terminated :: "char list \<Rightarrow> nat \<Rightarrow> bool" where
  "terminated z L \<longleftrightarrow> L < length z \<and> z ! L = NUL \<and> (\<forall>k < L. z ! k \<noteq> NUL)"

lemma terminated_append: "NUL \<notin> set s \<Longrightarrow> terminated (s @ NUL # r) (length s)"
  by (auto simp: terminated_def nth_append) (metis nth_mem)

lemma terminated_peek: "terminated z L \<Longrightarrow> i \<le> L \<Longrightarrow> peek z i = Some (z ! i)"
  by (auto simp: terminated_def)

lemma terminated_NUL: "terminated z L \<Longrightarrow> i \<le> L \<Longrightarrow> z ! i = NUL \<longleftrightarrow> i = L"
  by (metis le_neq_implies_less terminated_def)

text \<open>Induction towards the terminator.\<close>

lemma upto_induct [consumes 1, case_names at below]:
  assumes "i \<le> L" and "P L" and "\<And>i. i < L \<Longrightarrow> (\<And>j. i < j \<Longrightarrow> j \<le> L \<Longrightarrow> P j) \<Longrightarrow> P i"
  shows "P (i :: nat)"
  using assms(1)
proof (induction "L - i" arbitrary: i rule: less_induct)
  case less
  then show ?case using assms(2,3) by (cases "i = L") (auto simp: diff_less_mono2)
qed

lemma scan_while_ok:
  assumes z: "terminated z L" and "\<not> P NUL" and "i \<le> L"
  shows "k \<le> i \<Longrightarrow> \<exists>j. scan_while P z i = Some j \<and> k \<le> j \<and> j \<le> L \<and> \<not> P (z ! j)"
  using assms(3)
proof (induction i rule: upto_induct)
  case at
  with assms show ?case by (subst scan_while.simps) (auto simp: terminated_peek terminated_def)
next
  case (below i)
  with below.IH [of "i + 1"] z show ?case by (subst scan_while.simps) (auto simp: terminated_peek)
qed

lemma comment_loop_ok:
  assumes z: "terminated z L" and "i \<le> L"
  shows "k \<le> i \<Longrightarrow> \<exists>j e. comment_loop z i c = Some (j, e) \<and> k \<le> j \<and> j \<le> L \<and> (e \<noteq> NUL \<longrightarrow> j < L)"
  using assms(2)
proof (induction i arbitrary: c rule: upto_induct)
  case at
  with z show ?case by (subst comment_loop.simps) (auto simp: terminated_peek terminated_def)
next
  case (below i)
  then have "z ! i \<noteq> NUL" using z by (simp add: terminated_def)
  with below.IH [of "i + 1" "z ! i"] below.prems below.hyps z show ?case
    by (subst comment_loop.simps) (auto simp: terminated_peek)
qed

lemma quote_loop_ok:
  assumes z: "terminated z L" and "q \<noteq> NUL" and "i \<le> L"
  shows "k \<le> i \<Longrightarrow> \<exists>j e. quote_loop q z i = Some (j, e) \<and> k \<le> j \<and> j \<le> L \<and> (e \<noteq> NUL \<longrightarrow> j < L)"
  using assms(3)
proof (induction i rule: upto_induct)
  case at
  with z show ?case by (subst quote_loop.simps) (auto simp: terminated_peek terminated_def)
next
  case (below i)
  then have "z ! i \<noteq> NUL" using z by (simp add: terminated_def)
  moreover have "z ! Suc i = q \<Longrightarrow> Suc (Suc i) \<le> L"
    using below.hyps z assms(2) terminated_NUL [OF z, of "Suc i"] by (metis Suc_leI le_neq_implies_less)
  ultimately show ?case
    using below.IH [of "i + 2"] below.IH [of "i + 1"] below.prems below.hyps z
    by (subst quote_loop.simps) (auto simp: terminated_peek)
qed

lemma bracket_loop_ok:
  assumes z: "terminated z L" and "i \<le> L"
  shows "k \<le> i \<Longrightarrow> \<exists>j e. bracket_loop z i c = Some (j, e) \<and> k \<le> j \<and> j \<le> L"
  using assms(2)
proof (induction i arbitrary: c rule: upto_induct)
  case at
  with z show ?case by (subst bracket_loop.simps) (auto simp: terminated_peek terminated_def)
next
  case (below i)
  then have "z ! i \<noteq> NUL" using z by (simp add: terminated_def)
  with below.IH [of "i + 1" "z ! i"] below.prems below.hyps z show ?case
    by (subst bracket_loop.simps) (auto simp: terminated_peek)
qed

lemma blob_loop_ok:
  assumes z: "terminated z L" and "i \<le> L"
  shows "k \<le> i \<Longrightarrow>
    \<exists>j e b'. blob_loop z i b = Some (j, e, b') \<and> k \<le> j \<and> j \<le> L \<and> (e \<noteq> NUL \<longrightarrow> j < L)"
  using assms(2)
proof (induction i arbitrary: b rule: upto_induct)
  case at
  with z show ?case by (subst blob_loop.simps) (auto simp: terminated_peek terminated_def)
next
  case (below i)
  then have "z ! i \<noteq> NUL" using z by (simp add: terminated_def)
  with below.IH [of "i + 1" "b \<or> \<not> isxdigit (z ! i)"] below.prems below.hyps z show ?case
    by (subst blob_loop.simps) (auto simp: terminated_peek)
qed

lemma IdChar_NUL [simp]: "\<not> IdChar NUL"
  by (simp add: IdChar_def)

lemma variable_loop_ok:
  assumes z: "terminated z L" and "i \<le> L"
  shows "k \<le> i \<Longrightarrow> \<exists>j n' b. variable_loop z i n = Some (j, n', b) \<and> k \<le> j \<and> j \<le> L"
  using assms(2)
proof (induction i arbitrary: n rule: upto_induct)
  case at
  with z show ?case by (subst variable_loop.simps) (auto simp: terminated_peek terminated_def)
next
  case (below i)
  then have nz: "z ! i \<noteq> NUL" using z by (simp add: terminated_def)
  obtain j where j: "scan_while (\<lambda>c. c \<noteq> NUL \<and> \<not> isspace c \<and> c \<noteq> CHR '')'') z (Suc i) = Some j"
      "k \<le> j" "j \<le> L"
    using scan_while_ok [OF z, of "\<lambda>c. c \<noteq> NUL \<and> \<not> isspace c \<and> c \<noteq> CHR '')''" "Suc i" k] below by auto
  have "z ! j = CHR '')'' \<Longrightarrow> Suc j \<le> L"
    using j(3) z terminated_NUL [OF z, of j] by (cases "j = L") auto
  moreover have "z ! Suc i = CHR '':'' \<Longrightarrow> Suc (Suc i) \<le> L"
    using below.hyps z terminated_NUL [OF z, of "Suc i"] by (cases "Suc i = L") auto
  ultimately show ?case
    using below.IH [of "i + 1" "n + 1"] below.IH [of "i + 2" n] below.prems below.hyps z nz j
    by (subst variable_loop.simps) (auto simp: terminated_peek)
qed

text \<open>A token that the scanner measures: not empty and within the text.\<close>

definition token_ok :: "nat \<Rightarrow> (nat \<times> token_type) option \<Rightarrow> bool" where
  "token_ok L r \<longleftrightarrow> (\<exists>n t. r = Some (n, t) \<and> 1 \<le> n \<and> n \<le> L)"

lemma token_okI: "r = Some (n, t) \<Longrightarrow> 1 \<le> n \<Longrightarrow> n \<le> L \<Longrightarrow> token_ok L r"
  by (auto simp: token_ok_def)

lemma scan_token_ok:
  assumes "terminated z L" and "\<not> P NUL" and "1 \<le> i" and "i \<le> L"
  shows "token_ok L (do { j \<leftarrow> scan_while P z i; Some (j, f j) })"
  using scan_while_ok [OF assms(1), of P i 1] assms(2-4) by (auto simp: token_ok_def)

lemma word_token_ok: "terminated z L \<Longrightarrow> 1 \<le> L \<Longrightarrow> token_ok L (word_token kw z)"
  using scan_while_ok [of z L IdChar 1 1] by (auto simp: word_token_def token_ok_def terminated_peek)

lemma variable_token_ok: "terminated z L \<Longrightarrow> 1 \<le> L \<Longrightarrow> token_ok L (variable_token z)"
  using variable_loop_ok [of z L 1 1 0] by (auto simp: variable_token_def token_ok_def)

lemma operator_token_ok:
  assumes "terminated z L" and "1 \<le> L" and "\<forall>(c, t) \<in> set two. c \<noteq> NUL"
  shows "token_ok L (operator_token z two one)"
proof -
  have "map_of two (z ! 1) = Some t \<Longrightarrow> 2 \<le> L" for t
    using assms terminated_NUL [OF assms(1), of 1] by (cases "L = 1") (auto dest!: map_of_SomeD)
  then show ?thesis
    using assms by (auto simp: operator_token_def token_ok_def terminated_peek split: option.splits)
qed

lemma number_token_ok:
  assumes z: "terminated z L" and L: "1 \<le> L" and c: "isdigit (z ! 0) \<or> z ! 0 = CHR ''.''"
  shows "token_ok L (number_token z)"
proof -
  obtain i where i: "scan_while isdigit z 0 = Some i" "i \<le> L" "\<not> isdigit (z ! i)"
    using scan_while_ok [OF z, of isdigit 0 0] by auto
  have i1: "1 \<le> i" if "z ! i \<noteq> CHR ''.''"
    using i(3) c that by (cases i) auto
  have next': "\<exists>j. scan_while isdigit z (Suc i) = Some j \<and> 1 \<le> j \<and> j \<le> L" if "z ! i = CHR ''.''"
    using scan_while_ok [OF z, of isdigit "Suc i" 1] that terminated_NUL [OF z i(2)] i(2) by (cases "i = L") auto
  obtain i' t where i': "(if z ! i = CHR ''.'' then do { i \<leftarrow> scan_while isdigit z (i + 1); Some (i, TK_FLOAT) }
      else Some (i, TK_INTEGER)) = Some (i', t)" "1 \<le> i'" "i' \<le> L"
    using i(2) i1 next' by (cases "z ! i = CHR ''.''") auto
  have nz: "Suc k \<le> L" if "z ! k \<noteq> NUL" "k \<le> L" for k
    using that terminated_NUL [OF z that(2)] by (cases "k = L") auto
  have "\<exists>e. (if z ! i' = CHR ''e'' \<or> z ! i' = CHR ''E'' then do {
          d \<leftarrow> peek z (i' + 1);
          if isdigit d then Some True
          else if d = CHR ''+'' \<or> d = CHR ''-'' then do { e \<leftarrow> peek z (i' + 2); Some (isdigit e) }
          else Some False } else Some False) = Some e \<and> (e \<longrightarrow> i' + 2 \<le> L)"
  proof (cases "z ! i' = CHR ''e'' \<or> z ! i' = CHR ''E''")
    case True
    then have "Suc i' \<le> L" using nz [of i'] i'(3) by auto
    with True nz [of "Suc i'"] show ?thesis
      by (cases "z ! Suc i' = NUL") (auto simp: terminated_peek [OF z])
  qed auto
  then obtain e where e: "(if z ! i' = CHR ''e'' \<or> z ! i' = CHR ''E'' then do {
          d \<leftarrow> peek z (i' + 1);
          if isdigit d then Some True
          else if d = CHR ''+'' \<or> d = CHR ''-'' then do { e \<leftarrow> peek z (i' + 2); Some (isdigit e) }
          else Some False } else Some False) = Some e" "e \<longrightarrow> i' + 2 \<le> L"
    by blast
  obtain j u where j: "(if e then do { i \<leftarrow> scan_while isdigit z (i' + 2); Some (i, TK_FLOAT) }
      else Some (i', t)) = Some (j, u)" "1 \<le> j" "j \<le> L"
    using scan_while_ok [OF z, of isdigit "i' + 2" 1] e(2) i'(2,3) by (cases e) auto
  obtain k where k: "scan_while IdChar z j = Some k" "1 \<le> k" "k \<le> L"
    using scan_while_ok [OF z, of IdChar j 1] j(2,3) by auto
  have "number_token z = Some (k, if k > j then TK_ILLEGAL else u)"
    unfolding number_token_def
    by (simp only: i(1) terminated_peek [OF z i(2)] terminated_peek [OF z i'(3)] i'(1) e(1) j(1) k(1)
        bind.bind_lunit prod.case)
  then show ?thesis by (rule token_okI [OF _ k(2,3)])
qed

lemma token_ok_if:
  "(b \<Longrightarrow> token_ok L x) \<Longrightarrow> (\<not> b \<Longrightarrow> token_ok L y) \<Longrightarrow> token_ok L (if b then x else y)"
  by simp

lemma token_ok_one: "1 \<le> L \<Longrightarrow> token_ok L (Some (1, t))"
  by (simp add: token_ok_def)

lemma token_ok_peek: "terminated z L \<Longrightarrow> 1 \<le> L \<Longrightarrow> token_ok L (f (z ! 1)) \<Longrightarrow> token_ok L (peek z 1 \<bind> f)"
  by (simp add: terminated_peek)

lemma dash_ok: "terminated z L \<Longrightarrow> z ! 1 \<noteq> NUL \<Longrightarrow> 1 \<le> L \<Longrightarrow> 2 \<le> L"
  using terminated_NUL [of z L 1] by (cases "L = 1") auto

lemma comment_token_ok:
  assumes z: "terminated z L" and "z ! 1 \<noteq> NUL" and L: "1 \<le> L"
  shows "token_ok L (do { e \<leftarrow> peek z 2; if e = NUL then Some (1, TK_SLASH)
    else do { (i, c) \<leftarrow> comment_loop z 3 e; Some (if c \<noteq> NUL then i + 1 else i, TK_SPACE) } })"
proof -
  have L2: "2 \<le> L" by (rule dash_ok [OF z assms(2) L])
  have "3 \<le> L" if "z ! 2 \<noteq> NUL" using that terminated_NUL [OF z L2] L2 by (cases "L = 2") auto
  then show ?thesis
    using comment_loop_ok [OF z, of 3 1 "z ! 2"] L L2
    by (auto simp: terminated_peek [OF z] token_ok_def Suc_le_eq)
qed

lemma quoted_token_ok:
  assumes "terminated z L" and "1 \<le> L" and "q \<noteq> NUL"
  shows "token_ok L (do { (i, e) \<leftarrow> quote_loop q z 1;
    Some (if e = CHR 39 then (i + 1, TK_STRING) else if e \<noteq> NUL then (i + 1, TK_ID) else (i, TK_ILLEGAL)) })"
  using quote_loop_ok [OF assms(1,3,2), of 1] by (fastforce simp: token_ok_def)

lemma bracket_token_ok:
  assumes "terminated z L" and "1 \<le> L"
  shows "token_ok L (do { (i, e) \<leftarrow> bracket_loop z 1 c; Some (i, if e = CHR '']'' then TK_ID else TK_ILLEGAL) })"
  using bracket_loop_ok [OF assms, of 1 c] by (auto simp: token_ok_def)

lemma blob_token_ok:
  assumes "terminated z L" and "z ! 1 \<noteq> NUL" and "1 \<le> L"
  shows "token_ok L (do { (i, e, bad) \<leftarrow> blob_loop z 2 False;
    Some (if e \<noteq> NUL then i + 1 else i, if bad \<or> i mod 2 \<noteq> 0 \<or> e = NUL then TK_ILLEGAL else TK_BLOB) })"
  using blob_loop_ok [OF assms(1) dash_ok [OF assms], of 1 False] by (fastforce simp: token_ok_def)

lemmas token_oks = token_ok_if token_ok_one token_ok_peek scan_token_ok word_token_ok variable_token_ok
  operator_token_ok number_token_ok comment_token_ok quoted_token_ok bracket_token_ok blob_token_ok

lemma GetToken_ok:
  assumes z: "terminated z L" and L: "1 \<le> L" and c: "z ! 0 \<noteq> CHR ''!''"
  shows "token_ok L (sqlite3GetToken kw z)"
proof -
  have z0: "peek z 0 = Some (z ! 0)" using terminated_peek [OF z] L by auto
  have reg: "token_ok L (do { i \<leftarrow> scan_while isdigit z 1; if i > 1 then Some (i, TK_REGISTER) else variable_token z })"
    using scan_while_ok [OF z, of isdigit 1 1] variable_token_ok [OF z L] L by (auto simp: token_ok_def)
  show ?thesis
    unfolding sqlite3GetToken_def z0 bind.bind_lunit
    using c dash_ok [OF z _ L]
    by (intro token_oks [where L = L] reg z L) auto
qed

lemma GetToken_bang:
  assumes "terminated z L" and "1 \<le> L" and "z ! 0 = CHR ''!''"
  shows "sqlite3GetToken kw z = Some (2, if z ! 1 = CHR ''='' then TK_NE else TK_ILLEGAL)"
  using assms by (auto simp: sqlite3GetToken_def terminated_peek)

subsection \<open>The token loop\<close>

lemma terminated_drop: "terminated z L \<Longrightarrow> i \<le> L \<Longrightarrow> terminated (drop i z) (L - i)"
  by (auto simp: terminated_def)

lemma GetToken_at:
  assumes z: "terminated z L" and i: "i < L" and bang: "z ! (L - 1) \<noteq> CHR ''!''"
  obtains n t where "sqlite3GetToken kw (drop i z) = Some (n, t)" "1 \<le> n" "i + n \<le> L"
proof (cases "z ! i = CHR ''!''")
  case True
  have "drop i z ! 0 = CHR ''!''" using True z i by (simp add: terminated_def)
  moreover have "i \<noteq> L - 1" using True bang by auto
  then have "i + 2 \<le> L" using i by linarith
  ultimately show ?thesis
    using GetToken_bang [OF terminated_drop [OF z], of i kw] that [of 2] i by simp
next
  case False
  then have "drop i z ! 0 \<noteq> CHR ''!''" using z i by (simp add: terminated_def)
  then have "token_ok (L - i) (sqlite3GetToken kw (drop i z))"
    using GetToken_ok [OF terminated_drop [OF z], of i kw] i by simp
  then obtain n t where "sqlite3GetToken kw (drop i z) = Some (n, t)" "1 \<le> n" "n \<le> L - i"
    by (auto simp: token_ok_def)
  with i show ?thesis by (intro that [of n t]) auto
qed

lemma run_tokens_ok:
  assumes z: "terminated z L" and bang: "L > 0 \<Longrightarrow> z ! (L - 1) \<noteq> CHR ''!''" and "i \<le> L"
  shows "\<exists>st j l x p'. run_tokens kw parser interrupted mx z i lt sl mf p = Some (st, j, l, x, p') \<and> j \<le> L"
  using assms(3)
proof (induction i arbitrary: lt sl mf p rule: upto_induct)
  case at
  with z show ?case by (subst run_tokens.simps) (auto simp: terminated_peek terminated_def)
next
  case (below i)
  then have nz: "z ! i \<noteq> NUL" using z by (simp add: terminated_def)
  obtain n t where n: "sqlite3GetToken kw (drop i z) = Some (n, t)" "1 \<le> n" "i + n \<le> L"
    using GetToken_at [OF z below.hyps, of kw] bang below.hyps by auto
  let ?x = "take n (drop i z)"
  obtain p' ok mem where p': "parser p t ?x = (p', ok, mem)" by (cases "parser p t ?x")
  show ?case
    using below.IH [of "i + n" lt ?x False p] below.IH [of "i + n" "Some t" ?x mem p'] nz n p' below.hyps
    by (subst run_tokens.simps) (auto simp: terminated_peek [OF z] Let_def)
qed

lemma run_parser_ok:
  assumes "NUL \<notin> set s" and "s = [] \<or> last s \<noteq> CHR ''!''"
  shows "\<exists>st p'. run_parser kw parser interrupted mx (s @ NUL # r) p = Some (st, p')"
proof -
  let ?z = "s @ NUL # r" and ?L = "length s"
  have z: "terminated ?z ?L" by (rule terminated_append [OF assms(1)])
  have "?L > 0 \<Longrightarrow> ?z ! (?L - 1) \<noteq> CHR ''!''"
    using assms(2) by (auto simp: nth_append last_conv_nth)
  from run_tokens_ok [OF z this, of 0 kw parser interrupted mx None "[]" False p]
  obtain st j l x p' where "run_tokens kw parser interrupted mx ?z 0 None [] False p = Some (st, j, l, x, p')"
    "j \<le> ?L" by auto
  then show ?thesis
    by (auto simp: run_parser_def terminated_peek [OF z] Let_def)
qed

text \<open>A text split into legal tokens: each piece is what the tokenizer measures there. \<open>r\<close> is
  what follows the terminator in the buffer.\<close>

inductive tokenized :: "(char list \<Rightarrow> token_type) \<Rightarrow> char list \<Rightarrow> char list
    \<Rightarrow> (token_type \<times> char list) list \<Rightarrow> bool" for kw r where
  tokenized_Nil: "tokenized kw r [] []"
| tokenized_Cons: "sqlite3GetToken kw (x @ s @ NUL # r) = Some (length x, t) \<Longrightarrow> x \<noteq> [] \<Longrightarrow>
    t \<noteq> TK_ILLEGAL \<Longrightarrow> tokenized kw r s ts \<Longrightarrow> tokenized kw r (x @ s) ((t, x) # ts)"

inductive_cases tokenized_NilE: "tokenized kw r s []"
inductive_cases tokenized_ConsE: "tokenized kw r s (a # ts)"

text \<open>What the parser receives: the tokens that are not space and, at the end of the text, a semicolon
  unless the last one is one, and the end marker; each with its text, the last two with the text of
  the last token.\<close>

definition feed :: "'p engine \<Rightarrow> (token_type \<times> char list) list \<Rightarrow> 'p \<Rightarrow> 'p" where
  "feed parser ts p = fold (\<lambda>(t, x) p. fst (parser p t x)) ts p"

definition words :: "(token_type \<times> char list) list \<Rightarrow> (token_type \<times> char list) list" where
  "words ts = filter (\<lambda>(t, x). t \<noteq> TK_SPACE) ts"

definition closing :: "(token_type \<times> char list) list \<Rightarrow> (token_type \<times> char list) list" where
  "closing ts =
     (let us = words ts; lastText = (if ts = [] then [] else snd (last ts)) in
      (if us = [] \<or> fst (last us) \<noteq> TK_SEMI then [(TK_SEMI, lastText)] else []) @ [(TK_EOF, lastText)])"

text \<open>Tokens are fed up to and including the first one at which the engine sets \<open>rc\<close>; the flag tells that there is none.\<close>

fun feed_until :: "'p engine \<Rightarrow> (token_type \<times> char list) list \<Rightarrow> 'p \<Rightarrow> 'p \<times> bool" where
  "feed_until parser [] p = (p, True)"
| "feed_until parser ((t, x) # us) p =
     (case parser p t x of (p', ok, mem) \<Rightarrow> if ok then feed_until parser us p' else (p', False))"

definition last_token :: "token_type option \<Rightarrow> (token_type \<times> char list) list \<Rightarrow> token_type option" where
  "last_token l ts = (let us = filter (\<lambda>(t, x). t \<noteq> TK_SPACE) ts in
     if us = [] then l else Some (fst (last us)))"

lemma run_tokens_feed:
  assumes "\<And>p t x. \<not> snd (snd (parser p t x))" and "NUL \<notin> set s"
  shows "tokenized kw r s ts \<Longrightarrow> pre @ s @ NUL # r = z \<Longrightarrow> length pre + length s \<le> mx \<Longrightarrow>
   (case feed_until parser (words ts) p of
      (p', True) \<Rightarrow> run_tokens kw parser False mx z (length pre) lt sl False p =
        Some (End_of_text, length pre + length s, last_token lt ts, (if ts = [] then sl else snd (last ts)), p')
    | (p', False) \<Rightarrow> \<exists>j l x. run_tokens kw parser False mx z (length pre) lt sl False p = Some (Parser_rc, j, l, x, p')
        \<and> j \<le> length pre + length s)"
  using assms(2)
proof (induction ts arbitrary: s pre lt sl p)
  case Nil
  then have "s = []" by (auto elim: tokenized_NilE)
  with Nil show ?case by (subst run_tokens.simps) (auto simp: words_def last_token_def)
next
  case (Cons a ts)
  obtain t x s' where a: "a = (t, x)" "s = x @ s'" "sqlite3GetToken kw (x @ s' @ NUL # r) = Some (length x, t)"
      "x \<noteq> []" "t \<noteq> TK_ILLEGAL" "tokenized kw r s' ts"
    using Cons.prems(1) by (auto elim: tokenized_ConsE)
  have z: "drop (length pre) z = x @ s' @ NUL # r" "z = (pre @ x) @ s' @ NUL # r" "length pre < length z"
    using Cons.prems(2) a(2) by auto
  have c: "peek z (length pre) = Some (hd x)" "hd x \<noteq> NUL"
    using Cons.prems(4) a(2,4) z by (cases x; auto simp: peek_def nth_append)+
  have IH: "case feed_until parser (words ts) p' of
      (p2, True) \<Rightarrow> run_tokens kw parser False mx z (length pre + length x) lt' sl' False p' =
        Some (End_of_text, length pre + length s, last_token lt' ts, (if ts = [] then sl' else snd (last ts)), p2)
    | (p2, False) \<Rightarrow> \<exists>j l x'. run_tokens kw parser False mx z (length pre + length x) lt' sl' False p' = Some (Parser_rc, j, l, x', p2)
        \<and> j \<le> length pre + length s" for lt' sl' p'
    using Cons.IH [OF a(6), where pre = "pre @ x" and p = p' and lt = lt' and sl = sl'] Cons.prems a(2) z(2) by (simp add: add.assoc)
  obtain p' ok where p': "parser p t x = (p', ok, False)"
    using assms(1) [of p t x] by (cases "parser p t x") auto
  have step: "run_tokens kw parser False mx z (length pre) lt sl False p =
      (if t = TK_SPACE then run_tokens kw parser False mx z (length pre + length x) lt x False p
       else if ok then run_tokens kw parser False mx z (length pre + length x) (Some t) x False p'
       else Some (Parser_rc, length pre + length x, Some t, x, p'))"
    using a c z p' Cons.prems(3) by (subst run_tokens.simps) (simp add: Let_def)
  show ?case
  proof (cases "t = TK_SPACE")
    case True
    then have "words (a # ts) = words ts" "last_token lt (a # ts) = last_token lt ts" by (simp_all add: words_def last_token_def a(1))
    then show ?thesis using IH [where p' = p and lt' = lt and sl' = x] step True a(1) by (simp split: prod.splits bool.splits)
  next
    case False
    have w: "words (a # ts) = a # words ts" "last_token lt (a # ts) = last_token (Some t) ts"
      using False by (auto simp: words_def last_token_def a(1) Let_def)
    show ?thesis
    proof (cases ok)
      case True
      then have "feed_until parser (words (a # ts)) p = feed_until parser (words ts) p'" using w(1) p' a(1) by simp
      then show ?thesis using IH [where p' = p' and lt' = "Some t" and sl' = x] step False True a(1) w(2) by (simp split: prod.splits bool.splits)
    next
      case no: False
      then have "feed_until parser (words (a # ts)) p = (p', False)" using w(1) p' a(1) by simp
      then show ?thesis using step False no a(2) by simp
    qed
  qed
qed

lemma run_parser_feed:
  assumes "\<And>p t x. \<not> snd (snd (parser p t x))" and "NUL \<notin> set s"
    and "tokenized kw r s ts" and "length s \<le> mx"
  shows "run_parser kw parser False mx (s @ NUL # r) p = Some (case feed_until parser (words ts) p of
      (p', True) \<Rightarrow> (End_of_text, feed parser (closing ts) p')
    | (p', False) \<Rightarrow> (Parser_rc, p'))"
proof -
  have run: "case feed_until parser (words ts) p of
      (p', True) \<Rightarrow> run_tokens kw parser False mx (s @ NUL # r) 0 None [] False p =
        Some (End_of_text, length s, last_token None ts, (if ts = [] then [] else snd (last ts)), p')
    | (p', False) \<Rightarrow> \<exists>j l x. run_tokens kw parser False mx (s @ NUL # r) 0 None [] False p = Some (Parser_rc, j, l, x, p') \<and> j \<le> length s"
    using run_tokens_feed [where parser = parser, OF assms(1-3), where pre = "[]" and z = "s @ NUL # r" and mx = mx and lt = None and sl = "[]" and p = p] assms(4)
    by (auto split: prod.splits bool.splits)
  obtain p' b where f: "feed_until parser (words ts) p = (p', b)" by (cases "feed_until parser (words ts) p")
  show ?thesis
  proof (cases b)
    case True
    then have "run_tokens kw parser False mx (s @ NUL # r) 0 None [] False p =
        Some (End_of_text, length s, last_token None ts, (if ts = [] then [] else snd (last ts)), p')" using run f by simp
    then show ?thesis using f True
      by (auto simp: run_parser_def feed_def closing_def last_token_def words_def Let_def)
  next
    case False
    then obtain j l x where "run_tokens kw parser False mx (s @ NUL # r) 0 None [] False p = Some (Parser_rc, j, l, x, p')" "j \<le> length s"
      using run f by auto
    then show ?thesis using f False by (simp add: run_parser_def)
  qed
qed

subsection \<open>Properties\<close>

text \<open>
  C28: the tokenizer makes progress and stays inside the text. At every text that has a
  character before its terminator it returns a token of at least one byte that ends at or
  before the terminator; the one exception is a text that is just \<open>!\<close>, for which it
  returns two bytes, the terminator among them.
\<close>
theorem GetToken_measures:
  assumes "NUL \<notin> set s" and "s \<noteq> []"
  shows "\<exists>n t. sqlite3GetToken kw (s @ NUL # r) = Some (n, t) \<and> 1 \<le> n
     \<and> (if s = ''!'' then n = 2 \<and> t = TK_ILLEGAL else n \<le> length s)"
proof -
  have z: "terminated (s @ NUL # r) (length s)" by (rule terminated_append [OF assms(1)])
  have L: "1 \<le> length s" using assms(2) by (simp add: Suc_le_eq)
  show ?thesis
  proof (cases "(s @ NUL # r) ! 0 = CHR ''!''")
    case True
    with assms have "s = CHR ''!'' # tl s" by (cases s) auto
    with GetToken_bang [OF z L True, of kw] assms(1) show ?thesis
      by (cases "tl s") (auto simp: nth_append)
  next
    case False
    then have "s \<noteq> ''!''" by auto
    with GetToken_ok [OF z L False, of kw] show ?thesis by (auto simp: token_ok_def)
  qed
qed

theorem GetToken_measures_witness:
  "\<exists>n t. sqlite3GetToken (\<lambda>x. TK_ID) (''/* a */ b'' @ [NUL]) = Some (n, t) \<and> 1 \<le> n \<and> n \<le> 9"
  using GetToken_measures [of "''/* a */ b''" "\<lambda>x. TK_ID" "[]"]
  by (simp add: eval_nat_numeral)

text \<open>
  C29: the parser sees the statement the text spells. When a text splits into legal tokens and
  fits the length limit, no interrupt is pending and no allocation fails, the loop of sqlite3RunParser
  hands the engine its tokens without the spaces and comments, in order, up to and including the first
  one at which the engine sets \<open>rc\<close> (SQLITE_DONE when a statement is complete, or an error); when there is
  none, a semicolon unless the last token is one, and then the end marker.
\<close>
theorem run_parser_feeds_tokens:
  assumes "\<And>p t x. \<not> snd (snd (parser p t x))" and "NUL \<notin> set s"
    and "tokenized kw r s ts" and "length s \<le> mx"
  shows "run_parser kw parser False mx (s @ NUL # r) p = Some (case feed_until parser (words ts) p of
      (p', True) \<Rightarrow> (End_of_text, feed parser (closing ts) p')
    | (p', False) \<Rightarrow> (Parser_rc, p'))"
  by (rule run_parser_feed [OF assms])

text \<open>An engine that is done at a semicolon sees the first statement only.\<close>

theorem run_parser_feeds_tokens_witness:
  "run_parser (\<lambda>x. TK_ID) (\<lambda>p t x. (p @ [(t, x)], t \<noteq> TK_SEMI, False)) False 10 (''a< ;b'' @ [NUL]) [] =
     Some (Parser_rc, [(TK_ID, ''a''), (TK_LT, ''<''), (TK_SEMI, '';'')])"
proof -
  have t: "sqlite3GetToken (\<lambda>x. TK_ID) (''a'' @ ''< ;b'' @ NUL # []) = Some (length ''a'', TK_ID)"
    "sqlite3GetToken (\<lambda>x. TK_ID) (''<'' @ '' ;b'' @ NUL # []) = Some (length ''<'', TK_LT)"
    "sqlite3GetToken (\<lambda>x. TK_ID) ('' '' @ '';b'' @ NUL # []) = Some (length '' '', TK_SPACE)"
    "sqlite3GetToken (\<lambda>x. TK_ID) ('';'' @ ''b'' @ NUL # []) = Some (length '';'', TK_SEMI)"
    "sqlite3GetToken (\<lambda>x. TK_ID) (''b'' @ [] @ NUL # []) = Some (length ''b'', TK_ID)"
    by code_simp+
  have "tokenized (\<lambda>x. TK_ID) [] (''a'' @ ''<'' @ '' '' @ '';'' @ ''b'' @ [])
      [(TK_ID, ''a''), (TK_LT, ''<''), (TK_SPACE, '' ''), (TK_SEMI, '';''), (TK_ID, ''b'')]"
    by (intro tokenized_Cons tokenized_Nil) (use t in simp_all)
  then show ?thesis
    using run_parser_feeds_tokens [of "\<lambda>p t x. (p @ [(t, x)], t \<noteq> TK_SEMI, False)" "''a< ;b''" "\<lambda>x. TK_ID" "[]"
        "[(TK_ID, ''a''), (TK_LT, ''<''), (TK_SPACE, '' ''), (TK_SEMI, '';''), (TK_ID, ''b'')]" 10 "[]"]
    by (simp add: words_def)
qed

text \<open>
  C40: on every text whose last character is not \<open>!\<close>, with any parser, keyword recogniser,
  length limit and interrupt flag, the loop returns without reading past the terminator; on
  the text \<open>!\<close> alone the look at \<open>zSql[i]\<close> after the loop is outside a buffer that ends with
  the terminator.
\<close>
theorem run_parser_returns:
  "(NUL \<notin> set s \<and> (s = [] \<or> last s \<noteq> CHR ''!'') \<longrightarrow>
      (\<exists>st p'. run_parser kw parser interrupted mx (s @ NUL # r) p = Some (st, p')))
   \<and> run_parser kw parser interrupted mx (''!'' @ [NUL]) p = None"
proof -
  have "sqlite3GetToken kw (''!'' @ [NUL]) = Some (2, TK_ILLEGAL)"
    by (simp add: sqlite3GetToken_def)
  then have "run_tokens kw parser interrupted mx (''!'' @ [NUL]) 0 None [] False p =
      Some (if 2 > mx then Too_big else Illegal, 2, None, ''!'' @ [NUL], p)"
    by (subst run_tokens.simps) (simp add: Let_def)
  then have "run_parser kw parser interrupted mx (''!'' @ [NUL]) p = None"
    by (simp add: run_parser_def peek_def)
  then show ?thesis using run_parser_ok [of s kw parser interrupted mx r p] by blast
qed

theorem run_parser_returns_witness:
  "\<exists>st p'. run_parser (\<lambda>x. TK_ID) (\<lambda>p t x. (p, True, False)) True 5 (''SELECT 1'' @ [NUL]) () = Some (st, p')"
  using run_parser_returns [of "''SELECT 1''" "\<lambda>x. TK_ID" "\<lambda>p t x. (p, True, False)" True 5 "[]" "()"]
  by simp

end
