(* ===== verification/Complete.thy ===== *)
theory Complete
  imports Tokenize "HOL-Library.Sublist"
begin

text \<open>
  \<open>sqlite3_complete\<close> of complete.c: whether a text ends at the end of an SQL statement. The
  scanner and the state machine are those of the source; the development characterises the
  machine on token sequences and the scanner on texts, and shows that the answer for a text
  that starts with complete statements is the answer for its rest.

  \<open>sqlite3_complete16\<close> converts to UTF-8 through the value layer and is not modelled.
\<close>

subsection \<open>Tokens and states\<close>

definition tkSEMI :: nat where "tkSEMI = 0"
definition tkWS :: nat where "tkWS = 1"
definition tkOTHER :: nat where "tkOTHER = 2"
definition tkEXPLAIN :: nat where "tkEXPLAIN = 3"
definition tkCREATE :: nat where "tkCREATE = 4"
definition tkTEMP :: nat where "tkTEMP = 5"
definition tkTRIGGER :: nat where "tkTRIGGER = 6"
definition tkEND :: nat where "tkEND = 7"

named_theorems tk_defs
lemmas [tk_defs] = tkSEMI_def tkWS_def tkOTHER_def tkEXPLAIN_def tkCREATE_def tkTEMP_def
  tkTRIGGER_def tkEND_def

definition trans_table :: "nat list list" where
  "trans_table =
     [[0, 0, 1, 2, 3, 1, 1, 1],
      [0, 1, 1, 1, 1, 1, 1, 1],
      [0, 2, 1, 1, 3, 1, 1, 1],
      [0, 3, 1, 1, 1, 3, 4, 1],
      [5, 4, 4, 4, 4, 4, 4, 4],
      [5, 5, 4, 4, 4, 4, 4, 6],
      [0, 6, 4, 4, 4, 4, 4, 4]]"

definition next_state :: "nat \<Rightarrow> nat \<Rightarrow> nat" where
  "next_state state tok = trans_table ! state ! tok"

subsection \<open>The scanner\<close>

text \<open>The keyword comparison: \<open>nId == k && sqlite3StrNICmp(zSql, "...", k) == 0\<close>. The literal
  carries its terminator.\<close>

definition is_keyword :: "char list \<Rightarrow> nat \<Rightarrow> char list \<Rightarrow> bool option" where
  "is_keyword z nId w =
     (if nId = length w then do { r \<leftarrow> sqlite3StrNICmp z (w @ [NUL]) nId; Some (r = 0) } else Some False)"

definition word_class :: "char list \<Rightarrow> nat \<Rightarrow> nat option" where
  "word_class z nId = do {
     c \<leftarrow> peek z 0;
     if c = CHR ''c'' \<or> c = CHR ''C'' then do {
       b \<leftarrow> is_keyword z nId ''create'';
       Some (if b then tkCREATE else tkOTHER)
     }
     else if c = CHR ''t'' \<or> c = CHR ''T'' then do {
       b \<leftarrow> is_keyword z nId ''trigger'';
       if b then Some tkTRIGGER
       else do {
         b \<leftarrow> is_keyword z nId ''temp'';
         if b then Some tkTEMP
         else do { b \<leftarrow> is_keyword z nId ''temporary''; Some (if b then tkTEMP else tkOTHER) }
       }
     }
     else if c = CHR ''e'' \<or> c = CHR ''E'' then do {
       b \<leftarrow> is_keyword z nId ''end'';
       if b then Some tkEND
       else do { b \<leftarrow> is_keyword z nId ''explain''; Some (if b then tkEXPLAIN else tkOTHER) }
     }
     else Some tkOTHER
   }"

text \<open>\<open>while( zSql[0] && (zSql[0]!='*' || zSql[1]!='/') ){ zSql++; }\<close>\<close>

fun skip_comment :: "char list \<Rightarrow> char list option" where
  "skip_comment [] = None"
| "skip_comment (c # z) =
     (if c = NUL then Some (c # z)
      else if c \<noteq> CHR ''*'' then skip_comment z
      else do { d \<leftarrow> peek z 0; if d \<noteq> CHR ''/'' then skip_comment z else Some (c # z) })"

text \<open>One round of the switch: the routine returns at once, with 0 or with \<open>state==0\<close>, or it
  has found a token, with \<open>zSql\<close> at the last character of that token.\<close>

datatype scan = Return_0 | Return_state | Token nat "char list"

definition scan_token :: "char list \<Rightarrow> scan option" where
  "scan_token z = do {
     c \<leftarrow> peek z 0;
     if c = CHR '';'' then Some (Token tkSEMI z)
     else if c = CHR '' '' \<or> c = CHR 0x0D \<or> c = CHR 0x09 \<or> c = CHR 0x0A \<or> c = CHR 0x0C
     then Some (Token tkWS z)
     else if c = CHR ''/'' then do {
       d \<leftarrow> peek z 1;
       if d \<noteq> CHR ''*'' then Some (Token tkOTHER z)
       else do {
         z \<leftarrow> skip_comment (drop 2 z);
         c \<leftarrow> peek z 0;
         if c = NUL then Some Return_0 else Some (Token tkWS (drop 1 z))
       }
     }
     else if c = CHR ''-'' then do {
       d \<leftarrow> peek z 1;
       if d \<noteq> CHR ''-'' then Some (Token tkOTHER z)
       else do {
         z \<leftarrow> skip_while (\<lambda>c. c \<noteq> NUL \<and> c \<noteq> CHR 0x0A) z;
         c \<leftarrow> peek z 0;
         if c = NUL then Some Return_state else Some (Token tkWS z)
       }
     }
     else if c = CHR ''['' then do {
       z \<leftarrow> skip_while (\<lambda>c. c \<noteq> NUL \<and> c \<noteq> CHR '']'') (drop 1 z);
       c \<leftarrow> peek z 0;
       if c = NUL then Some Return_0 else Some (Token tkOTHER z)
     }
     else if c = CHR 96 \<or> c = CHR 34 \<or> c = CHR 39 then do {
       z \<leftarrow> skip_while (\<lambda>d. d \<noteq> NUL \<and> d \<noteq> c) (drop 1 z);
       d \<leftarrow> peek z 0;
       if d = NUL then Some Return_0 else Some (Token tkOTHER z)
     }
     else if IdChar c then do {
       nId \<leftarrow> scan_while IdChar z 1;
       t \<leftarrow> word_class z nId;
       Some (Token t (drop (nId - 1) z))
     }
     else Some (Token tkOTHER z)
   }"

lemma skip_while_length: "skip_while P z = Some z' \<Longrightarrow> length z' \<le> length z"
  by (induction z) (auto split: if_splits)

lemma skip_comment_length: "skip_comment z = Some z' \<Longrightarrow> length z' \<le> length z"
  by (induction z) (auto split: if_splits Option.bind_splits)

definition within :: "nat \<Rightarrow> scan option \<Rightarrow> bool" where
  "within n r \<longleftrightarrow> (\<forall>t z. r = Some (Token t z) \<longrightarrow> length z \<le> n)"

lemma within_if: "within n x \<Longrightarrow> within n y \<Longrightarrow> within n (if b then x else y)"
  by simp

lemma within_bind: "(\<And>x. m = Some x \<Longrightarrow> within n (f x)) \<Longrightarrow> within n (m \<bind> f)"
  by (cases m) (auto simp: within_def)

lemma within_Token: "length z \<le> n \<Longrightarrow> within n (Some (Token t z))"
  "within n (Some Return_0)" "within n (Some Return_state)"
  by (simp_all add: within_def)

lemma scan_token_length: "scan_token z = Some (Token t z') \<Longrightarrow> length z' \<le> length z"
proof -
  have "within (length z) (scan_token z)"
    unfolding scan_token_def
    by (intro within_if within_bind within_Token) (auto dest!: skip_while_length skip_comment_length)
  then show "scan_token z = Some (Token t z') \<Longrightarrow> ?thesis" by (simp add: within_def)
qed

lemma after_token: "peek z 0 = Some c \<Longrightarrow> scan_token z = Some (Token t x) \<Longrightarrow> length x - 1 < length z"
  using scan_token_length [of z t x] by (cases z) (auto simp: peek_def)

function complete_loop :: "nat \<Rightarrow> char list \<Rightarrow> bool option" where
  "complete_loop state z = do {
     c \<leftarrow> peek z 0;
     if c = NUL then Some (state = 0)
     else do {
       r \<leftarrow> scan_token z;
       (case r of
          Return_0 \<Rightarrow> Some False
        | Return_state \<Rightarrow> Some (state = 0)
        | Token tok z' \<Rightarrow> complete_loop (next_state state tok) (drop 1 z'))
     }
   }"
  by pat_completeness auto
termination
proof (relation "measure (\<lambda>(s, z). length z)", goal_cases)
  case (2 state z c r tok z')
  then show ?case using after_token [of z c tok z'] by simp
qed simp

definition sqlite3_complete :: "char list \<Rightarrow> bool option" where
  "sqlite3_complete zSql = complete_loop 0 zSql"

declare complete_loop.simps [simp del]

subsection \<open>The scanner stays within the text\<close>

lemma skip_comment_ok:
  "\<exists>s'. skip_comment (s @ NUL # r) = Some (s' @ NUL # r) \<and> suffix s' s
     \<and> (s' \<noteq> [] \<longrightarrow> suffix (drop 2 s') s \<and> 2 \<le> length s' \<or> NUL \<in> set s)"
proof (induction s)
  case (Cons c s)
  then obtain s' where IH: "skip_comment (s @ NUL # r) = Some (s' @ NUL # r)" "suffix s' s"
    "s' \<noteq> [] \<longrightarrow> suffix (drop 2 s') s \<and> 2 \<le> length s' \<or> NUL \<in> set s" by blast
  show ?case
  proof (cases "c = NUL \<or> c = CHR ''*'' \<and> (s @ NUL # r) ! 0 = CHR ''/''")
    case True
    then have "skip_comment ((c # s) @ NUL # r) = Some ((c # s) @ NUL # r)" by auto
    moreover have "c \<noteq> NUL \<Longrightarrow> s \<noteq> []" using True by (cases s) auto
    ultimately show ?thesis
      by (intro exI [of _ "c # s"]) (auto simp: Suc_le_eq suffix_Cons suffix_drop)
  next
    case False
    then have "skip_comment ((c # s) @ NUL # r) = skip_comment (s @ NUL # r)" by auto
    with IH show ?thesis by (auto simp: suffix_Cons intro!: exI [of _ s'])
  qed
qed simp

lemma StrNICmp_total: "n \<le> length a \<Longrightarrow> n \<le> length b \<Longrightarrow> \<exists>r. sqlite3StrNICmp a b n = Some r"
  by (induction a b n rule: sqlite3StrNICmp.induct) auto

lemma is_keyword_total: "nId \<le> length z \<Longrightarrow> \<exists>b. is_keyword z nId w = Some b"
  using StrNICmp_total [of nId z "w @ [NUL]"] by (auto simp: is_keyword_def)

lemma word_class_total:
  assumes "z \<noteq> []" and "nId \<le> length z" shows "\<exists>t. word_class z nId = Some t"
proof -
  obtain k where k: "is_keyword z nId w = Some (k w)" for w
    using is_keyword_total [OF assms(2)] by metis
  have "peek z 0 = Some (z ! 0)" using assms(1) by simp
  then show ?thesis by (simp add: word_class_def k)
qed

text \<open>A round of the scanner on a terminated text: it returns, or ends at a character of it.\<close>

definition scan_ok :: "char list \<Rightarrow> char list \<Rightarrow> scan option \<Rightarrow> bool" where
  "scan_ok s r res \<longleftrightarrow> res = Some Return_0 \<or> res = Some Return_state
     \<or> (\<exists>t d s'. res = Some (Token t (d # s' @ NUL # r)) \<and> suffix s' s \<and> length s' < length s)"

lemma scan_ok_if: "(b \<Longrightarrow> scan_ok s r x) \<Longrightarrow> (\<not> b \<Longrightarrow> scan_ok s r y) \<Longrightarrow> scan_ok s r (if b then x else y)"
  by simp

lemma scan_ok_char: "scan_ok (c # s) r (Some (Token t (c # s @ NUL # r)))"
  by (auto simp: scan_ok_def suffix_Cons)

lemma scan_ok_peek:
  "(\<And>d. d = (s @ NUL # r) ! 0 \<Longrightarrow> scan_ok (c # s) r (f d)) \<Longrightarrow>
   scan_ok (c # s) r (peek (c # s @ NUL # r) 1 \<bind> f)"
  by (cases s) (auto simp: peek_def)

text \<open>A scan to a closing character.\<close>

lemma scan_ok_close:
  assumes "\<not> P NUL" and "NUL \<notin> set s"
  shows "scan_ok (c # s) r (do { z \<leftarrow> skip_while P (s @ NUL # r); d \<leftarrow> peek z 0;
           if d = NUL then Some Return_0 else Some (Token t z) })"
proof (cases "dropWhile P s")
  case Nil
  show ?thesis by (simp only: skip_while_NUL [where P = P, OF assms(1)] Nil) (simp add: scan_ok_def)
next
  case (Cons d s')
  then have "suffix (d # s') s" by (metis suffix_dropWhile)
  then have "suffix s' s" "length s' < length (c # s)"
    by (auto dest: suffix_ConsD2 suffix_length_le simp: suffix_ConsD less_Suc_eq_le)
  then show ?thesis
    by (simp only: skip_while_NUL [where P = P, OF assms(1)] Cons) (auto simp: scan_ok_def suffix_Cons)
qed

lemma scan_ok_comment:
  assumes "NUL \<notin> set s" and "(s @ NUL # r) ! 0 = CHR ''*''"
  shows "scan_ok (c # s) r (do { z \<leftarrow> skip_comment (drop 2 (c # s @ NUL # r)); d \<leftarrow> peek z 0;
           if d = NUL then Some Return_0 else Some (Token t (drop 1 z)) })"
proof -
  obtain s1 where s1: "s = CHR ''*'' # s1" using assms(2) by (cases s) auto
  obtain s' where s': "skip_comment (s1 @ NUL # r) = Some (s' @ NUL # r)" "suffix s' s1"
      "s' \<noteq> [] \<longrightarrow> 2 \<le> length s'"
    using skip_comment_ok [of s1 r] assms(1) s1 by auto
  show ?thesis
  proof (cases s')
    case Nil
    with s' s1 show ?thesis by (simp add: scan_ok_def)
  next
    case (Cons d s2)
    with s'(3) obtain e s3 where "s2 = e # s3" by (cases s2) auto
    with Cons s'(2) have "suffix s3 s1" by (metis suffix_ConsD)
    then have "suffix s3 (c # s)" "length s3 < length (c # s)"
      using s1 by (auto simp: suffix_Cons dest: suffix_length_le)
    with s'(1) s1 Cons \<open>s2 = e # s3\<close> show ?thesis by (auto simp: scan_ok_def)
  qed
qed

text \<open>A line comment starts with the first dash, which is no line end.\<close>

lemma scan_ok_line:
  assumes "NUL \<notin> set (c # s)" and "c \<noteq> CHR 0x0A"
  shows "scan_ok (c # s) r (do { z \<leftarrow> skip_while (\<lambda>c. c \<noteq> NUL \<and> c \<noteq> CHR 0x0A) (c # s @ NUL # r);
           d \<leftarrow> peek z 0; if d = NUL then Some Return_state else Some (Token t z) })"
proof -
  let ?P = "\<lambda>c. c \<noteq> NUL \<and> c \<noteq> CHR 0x0A"
  have sk: "skip_while ?P (c # s @ NUL # r) = Some (dropWhile ?P s @ NUL # r)"
    using skip_while_NUL [of ?P "c # s" r] assms by (auto split: if_splits)
  show ?thesis
  proof (cases "dropWhile ?P s")
    case Nil
    show ?thesis by (simp only: sk Nil) (simp add: scan_ok_def)
  next
    case (Cons d s')
    then have "suffix (d # s') s" by (metis suffix_dropWhile)
    then have "suffix s' s" "length s' < length (c # s)"
      by (auto dest: suffix_ConsD2 suffix_length_le simp: suffix_ConsD less_Suc_eq_le)
    then show ?thesis by (simp only: sk Cons) (auto simp: scan_ok_def suffix_Cons)
  qed
qed

lemma scan_ok_word:
  assumes "NUL \<notin> set (c # s)" and "IdChar c"
  shows "scan_ok (c # s) r (do { nId \<leftarrow> scan_while IdChar (c # s @ NUL # r) 1;
           t \<leftarrow> word_class (c # s @ NUL # r) nId;
           Some (Token t (drop (nId - 1) (c # s @ NUL # r))) })"
proof -
  let ?z = "(c # s) @ NUL # r"
  have z: "terminated ?z (length (c # s))" by (rule terminated_append [OF assms(1)])
  obtain n where n: "scan_while IdChar ?z 1 = Some n" "1 \<le> n" "n \<le> length (c # s)"
    using scan_while_ok [OF z, of IdChar 1 1] by auto
  obtain t where t: "word_class ?z n = Some t"
    using word_class_total [of ?z n] n(3) by auto
  obtain d s' where d: "drop (n - 1) (c # s) = d # s'" using n(2,3) by (cases "drop (n - 1) (c # s)") auto
  then have "suffix s' (c # s)" by (metis suffix_drop suffix_ConsD)
  moreover have "length (drop (n - 1) (c # s)) = Suc (length s')" unfolding d by simp
  then have "length s' < length (c # s)" by simp
  moreover have "drop (n - 1) ?z = d # s' @ NUL # r"
    using d n(3) by (simp only: drop_append) simp
  ultimately show ?thesis using n(1) t by (auto simp: scan_ok_def)
qed

lemma scan_token_stops:
  assumes "NUL \<notin> set (c # s)"
  shows "scan_ok (c # s) r (scan_token (c # s @ NUL # r))"
proof -
  have c: "peek (c # s @ NUL # r) 0 = Some c" "drop 1 (c # s @ NUL # r) = s @ NUL # r" by simp_all
  show ?thesis
    unfolding scan_token_def c bind.bind_lunit
    by (intro scan_ok_if scan_ok_char scan_ok_peek scan_ok_close scan_ok_comment scan_ok_line scan_ok_word assms)
       (use assms in auto)
qed

lemma complete_returns_aux:
  "NUL \<notin> set s \<Longrightarrow> \<exists>b. complete_loop st (s @ NUL # r) = Some b"
proof (induction "length s" arbitrary: s st rule: less_induct)
  case less
  show ?case
  proof (cases s)
    case Nil
    then show ?thesis by (subst complete_loop.simps) simp
  next
    case (Cons c s1)
    have "scan_ok (c # s1) r (scan_token (c # s1 @ NUL # r))"
      using scan_token_stops less.prems Cons by blast
    then consider "scan_token (c # s1 @ NUL # r) = Some Return_0" | "scan_token (c # s1 @ NUL # r) = Some Return_state"
      | t d s' where "scan_token (c # s1 @ NUL # r) = Some (Token t (d # s' @ NUL # r))"
        "suffix s' s" "length s' < length s"
      unfolding scan_ok_def Cons by blast
    then show ?thesis
    proof cases
      case (3 t d s')
      then have "NUL \<notin> set s'" using less.prems by (auto dest: set_mono_suffix)
      with less.hyps [OF 3(3)] 3(1) less.prems Cons show ?thesis
        by (subst complete_loop.simps) auto
    qed (use less.prems Cons in \<open>subst complete_loop.simps, auto\<close>)+
  qed
qed

subsection \<open>The state machine on token sequences\<close>

definition run_machine :: "nat \<Rightarrow> nat list \<Rightarrow> nat" where
  "run_machine st ts = foldl next_state st ts"

definition significant :: "nat list \<Rightarrow> nat list" where
  "significant ts = filter (\<lambda>t. t \<noteq> tkWS) ts"

lemma next_state_table:
  "next_state 0 tkSEMI = 0" "next_state 0 tkOTHER = 1" "next_state 0 tkEXPLAIN = 2" "next_state 0 tkCREATE = 3"
  "next_state 0 tkTEMP = 1" "next_state 0 tkTRIGGER = 1" "next_state 0 tkEND = 1"
  "next_state 2 tkCREATE = 3" "next_state 3 tkTEMP = 3" "next_state 3 tkTRIGGER = 4"
  by (simp_all add: next_state_def trans_table_def tk_defs)

lemma lt_eq_set: "(n :: nat) < 8 \<longleftrightarrow> n \<in> {0, 1, 2, 3, 4, 5, 6, 7}" "(n :: nat) < 7 \<longleftrightarrow> n \<in> {0, 1, 2, 3, 4, 5, 6}"
  by auto

lemma next_state_bounds: "st < 7 \<Longrightarrow> t < 8 \<Longrightarrow> next_state st t < 7"
  unfolding lt_eq_set by (auto simp: next_state_def trans_table_def)

lemma next_state_WS: "st < 7 \<Longrightarrow> next_state st tkWS = st"
  unfolding lt_eq_set by (auto simp: next_state_def trans_table_def tk_defs)

lemma run_machine_significant:
  "st < 7 \<Longrightarrow> \<forall>t \<in> set ts. t < 8 \<Longrightarrow> run_machine st ts = run_machine st (significant ts)"
  unfolding run_machine_def significant_def
  by (induction ts arbitrary: st) (auto simp: next_state_WS next_state_bounds)

text \<open>Without TRIGGER the machine stays among the first four states, and a semicolon, and
  nothing else, brings it back to the start.\<close>

lemma next_state_ordinary:
  "st < 4 \<Longrightarrow> t < 8 \<Longrightarrow> t \<noteq> tkTRIGGER \<Longrightarrow> t \<noteq> tkWS \<Longrightarrow>
   next_state st t < 4 \<and> (next_state st t = 0 \<longleftrightarrow> t = tkSEMI)"
proof -
  assume "st < 4" "t < 8" "t \<noteq> tkTRIGGER" "t \<noteq> tkWS"
  then have "st \<in> {0, 1, 2, 3}" "t \<in> {0, 2, 3, 4, 5, 7}" by (auto simp: lt_eq_set tk_defs)
  then show ?thesis by (auto simp: next_state_def trans_table_def tk_defs)
qed

lemma run_ordinary:
  "\<forall>t \<in> set us. t < 8 \<and> t \<noteq> tkTRIGGER \<and> t \<noteq> tkWS \<Longrightarrow>
   run_machine 0 us < 4 \<and> (run_machine 0 us = 0 \<longleftrightarrow> us = [] \<or> last us = tkSEMI)"
  by (induction us rule: rev_induct) (auto simp: run_machine_def next_state_ordinary)

text \<open>Inside a trigger definition the state records how much of \<open>; END ;\<close> has been seen.\<close>

definition trigger_end :: "nat list" where
  "trigger_end = [tkSEMI, tkEND, tkSEMI]"

lemma next_state_trigger:
  "st \<in> {4, 5, 6} \<Longrightarrow> t < 8 \<Longrightarrow> t \<noteq> tkWS \<Longrightarrow>
   next_state st t = (if t = tkSEMI then (if st = 6 then 0 else 5)
                      else if st = 5 \<and> t = tkEND then 6 else 4)"
  unfolding lt_eq_set by (auto simp: next_state_def trans_table_def tk_defs)

lemma run_trigger:
  "\<forall>t \<in> set us. t < 8 \<and> t \<noteq> tkWS \<Longrightarrow> \<not> sublist trigger_end us \<Longrightarrow>
   run_machine 4 us \<in> {4, 5, 6}
   \<and> (run_machine 4 us = 6 \<longleftrightarrow> suffix [tkSEMI, tkEND] us)
   \<and> (run_machine 4 us = 5 \<longleftrightarrow> suffix [tkSEMI] us)"
proof (induction us rule: rev_induct)
  case (snoc t us)
  have sub: "\<not> sublist trigger_end us" using snoc.prems(2) unfolding sublist_def by (metis append.assoc)
  with snoc have IH: "run_machine 4 us \<in> {4, 5, 6}" "run_machine 4 us = 6 \<longleftrightarrow> suffix [tkSEMI, tkEND] us"
    "run_machine 4 us = 5 \<longleftrightarrow> suffix [tkSEMI] us" by auto
  have not0: "\<not> (run_machine 4 us = 6 \<and> t = tkSEMI)"
  proof
    assume "run_machine 4 us = 6 \<and> t = tkSEMI"
    then obtain p where "us @ [t] = p @ trigger_end" using IH(2) by (auto simp: suffix_def trigger_end_def)
    then have "sublist trigger_end (us @ [t])" by (metis append_Nil2 sublist_appendI)
    with snoc.prems(2) show False ..
  qed
  have step: "run_machine 4 (us @ [t]) = next_state (run_machine 4 us) t" by (simp add: run_machine_def)
  have t: "t < 8" "t \<noteq> tkWS" using snoc.prems(1) by auto
  have suf: "suffix [tkSEMI, tkEND] (us @ [t]) \<longleftrightarrow> t = tkEND \<and> suffix [tkSEMI] us"
    "suffix [tkSEMI] (us @ [t]) \<longleftrightarrow> t = tkSEMI"
    by (auto simp: suffix_def)
  show ?case
    unfolding step next_state_trigger [OF IH(1) t] suf
    using IH not0 by (auto simp: tk_defs)
qed (simp add: run_machine_def)

subsection \<open>Texts and their tokens\<close>

text \<open>
  A text cut into the tokens the scanner finds, and how it ends: at its terminator, inside a string, an
  identifier or a block comment that is left open, or in a comment up to the end of the text.
\<close>

datatype finish = At_end | Open_token | Line_comment

inductive scans :: "char list \<Rightarrow> nat list \<Rightarrow> finish \<Rightarrow> bool" where
  scans_End: "scans (NUL # r) [] At_end"
| scans_Open: "c \<noteq> NUL \<Longrightarrow> scan_token (c # z) = Some Return_0 \<Longrightarrow> scans (c # z) [] Open_token"
| scans_Line: "c \<noteq> NUL \<Longrightarrow> scan_token (c # z) = Some Return_state \<Longrightarrow> scans (c # z) [] Line_comment"
| scans_Token: "c \<noteq> NUL \<Longrightarrow> scan_token (c # z) = Some (Token t (d # z')) \<Longrightarrow> scans z' ts f \<Longrightarrow> scans (c # z) (t # ts) f"

text \<open>Every terminated text is cut in this way.\<close>

lemma scans_total: "NUL \<notin> set s \<Longrightarrow> \<exists>ts f. scans (s @ NUL # r) ts f"
proof (induction "length s" arbitrary: s rule: less_induct)
  case less
  show ?case
  proof (cases s)
    case Nil
    then show ?thesis using scans_End by auto
  next
    case (Cons c s1)
    then have c: "c \<noteq> NUL" using less.prems by auto
    from scan_token_stops [of c s1 r] less.prems Cons consider "scan_token (c # s1 @ NUL # r) = Some Return_0"
      | "scan_token (c # s1 @ NUL # r) = Some Return_state"
      | t d s' where "scan_token (c # s1 @ NUL # r) = Some (Token t (d # s' @ NUL # r))" "suffix s' (c # s1)" "length s' < length (c # s1)"
      unfolding scan_ok_def by blast
    then show ?thesis
    proof cases
      case 1
      then show ?thesis using scans_Open [OF c 1] Cons by auto
    next
      case 2
      then show ?thesis using scans_Line [OF c 2] Cons by auto
    next
      case (3 t d s')
      have "NUL \<notin> set s'" using 3(2) less.prems Cons set_mono_suffix by blast
      then obtain ts f where "scans (s' @ NUL # r) ts f" using less.hyps [of s'] 3(3) Cons by auto
      then show ?thesis using scans_Token [OF c 3(1)] Cons by auto
    qed
  qed
qed

lemma word_class_lt: "word_class z n = Some t \<Longrightarrow> t < 8"
  by (auto simp: word_class_def tk_defs split: if_splits Option.bind_splits)

definition class_ok :: "scan option \<Rightarrow> bool" where
  "class_ok r \<longleftrightarrow> (\<forall>t z. r = Some (Token t z) \<longrightarrow> t < 8)"

lemma class_ok_intros:
  "class_ok x \<Longrightarrow> class_ok y \<Longrightarrow> class_ok (if b then x else y)"
  "t < 8 \<Longrightarrow> class_ok (Some (Token t z))" "class_ok (Some Return_0)" "class_ok (Some Return_state)"
  by (auto simp: class_ok_def)

lemma class_ok_bind: "(\<And>x. m = Some x \<Longrightarrow> class_ok (f x)) \<Longrightarrow> class_ok (m \<bind> f)"
  by (cases m) (auto simp: class_ok_def)

lemma scan_token_class: "scan_token z = Some (Token t z') \<Longrightarrow> t < 8"
proof -
  have "class_ok (scan_token z)"
    unfolding scan_token_def
    by (intro class_ok_intros class_ok_bind) (auto simp: tk_defs dest: word_class_lt)
  then show "scan_token z = Some (Token t z') \<Longrightarrow> t < 8" by (simp add: class_ok_def)
qed

lemma scans_classes: "scans z ts f \<Longrightarrow> \<forall>t \<in> set ts. t < 8"
  by (induction rule: scans.induct) (auto dest: scan_token_class)

lemma complete_loop_scans: "scans z ts f \<Longrightarrow> complete_loop st z = Some (f \<noteq> Open_token \<and> run_machine st ts = 0)"
proof (induction arbitrary: st rule: scans.induct)
  case (scans_Token c z t d z' ts f)
  then show ?case by (subst complete_loop.simps) (simp add: run_machine_def)
qed (subst complete_loop.simps, simp add: run_machine_def)+

lemma complete_scans:
  assumes "scans z ts f"
  shows "sqlite3_complete z = Some (f \<noteq> Open_token \<and> run_machine 0 (significant ts) = 0)"
  using complete_loop_scans [OF assms, of 0] run_machine_significant [OF _ scans_classes [OF assms], of 0]
  by (simp add: sqlite3_complete_def)

lemma significant_set: "t \<in> set (significant ts) \<Longrightarrow> t \<in> set ts \<and> t \<noteq> tkWS"
  by (auto simp: significant_def)

lemma run_machine_append: "run_machine st (us @ vs) = run_machine (run_machine st us) vs"
  by (simp add: run_machine_def)

lemma run_create_trigger:
  assumes "ex \<in> {[], [tkEXPLAIN]}" and "\<forall>t \<in> set temps. t = tkTEMP"
  shows "run_machine 0 (ex @ [tkCREATE] @ temps @ [tkTRIGGER]) = 4"
proof -
  have "run_machine 3 temps = 3" using assms(2) unfolding run_machine_def
    by (induction temps) (simp_all add: next_state_table)
  moreover have "run_machine 0 (ex @ [tkCREATE]) = 3"
    using assms(1) by (auto simp: run_machine_def next_state_table)
  ultimately show ?thesis
    by (simp add: run_machine_append next_state_table flip: append_assoc) (simp add: run_machine_def next_state_table)
qed

subsection \<open>Properties\<close>

text \<open>
  sqlite3_complete returns on every zero-terminated text, without reading past the
  terminator, whatever comments, strings and identifiers are left open.
\<close>
theorem complete_returns:
  assumes "NUL \<notin> set s" shows "\<exists>b. sqlite3_complete (s @ NUL # r) = Some b"
  unfolding sqlite3_complete_def by (rule complete_returns_aux [OF assms])

theorem complete_returns_witness: "\<exists>b. sqlite3_complete (''SELECT '' @ [CHR 39] @ ''a /* --'' @ [NUL]) = Some b"
  using complete_returns [of "''SELECT '' @ [CHR 39] @ ''a /* --''" "[]"] by simp

text \<open>
  C33: a text without the word TRIGGER that has a token besides comments and spaces is complete exactly
  when the last of these tokens is a semicolon and the text does not end inside a string, a quoted
  identifier or a block comment. Every terminated text is cut into such tokens (scans_total).
\<close>
theorem complete_ordinary:
  assumes "scans z ts f" and "tkTRIGGER \<notin> set ts" and "significant ts \<noteq> []"
  shows "sqlite3_complete z = Some (last (significant ts) = tkSEMI \<and> f \<noteq> Open_token)"
proof -
  have "\<forall>t \<in> set (significant ts). t < 8 \<and> t \<noteq> tkTRIGGER \<and> t \<noteq> tkWS"
    using assms(2) scans_classes [OF assms(1)] significant_set by blast
  then show ?thesis
    using run_ordinary [of "significant ts"] assms(3) by (auto simp: complete_scans [OF assms(1)])
qed

theorem complete_ordinary_witness:
  "sqlite3_complete (''a; /*;*/'' @ [NUL]) = Some True \<and> sqlite3_complete (''a; /*;'' @ [NUL]) = Some False"
proof -
  have "scan_token (CHR ''a'' # ''; /*;*/'' @ [NUL]) = Some (Token tkOTHER (CHR ''a'' # ''; /*;*/'' @ [NUL]))"
    "scan_token (CHR '';'' # '' /*;*/'' @ [NUL]) = Some (Token tkSEMI (CHR '';'' # '' /*;*/'' @ [NUL]))"
    "scan_token (CHR '' '' # ''/*;*/'' @ [NUL]) = Some (Token tkWS (CHR '' '' # ''/*;*/'' @ [NUL]))"
    "scan_token (CHR ''/'' # ''*;*/'' @ [NUL]) = Some (Token tkWS (CHR ''/'' # [NUL]))"
    by code_simp+
  then have 1: "scans (''a; /*;*/'' @ [NUL]) [tkOTHER, tkSEMI, tkWS, tkWS] At_end" by (auto intro!: scans.intros)
  have "scan_token (CHR ''a'' # ''; /*;'' @ [NUL]) = Some (Token tkOTHER (CHR ''a'' # ''; /*;'' @ [NUL]))"
    "scan_token (CHR '';'' # '' /*;'' @ [NUL]) = Some (Token tkSEMI (CHR '';'' # '' /*;'' @ [NUL]))"
    "scan_token (CHR '' '' # ''/*;'' @ [NUL]) = Some (Token tkWS (CHR '' '' # ''/*;'' @ [NUL]))"
    "scan_token (CHR ''/'' # ''*;'' @ [NUL]) = Some Return_0"
    by code_simp+
  then have 2: "scans (''a; /*;'' @ [NUL]) [tkOTHER, tkSEMI, tkWS] Open_token" by (auto intro!: scans.intros)
  show ?thesis using complete_ordinary [OF 1] complete_ordinary [OF 2] by (simp add: tk_defs significant_def)
qed

text \<open>A text of spaces and comments only is complete, although it has no semicolon.\<close>

lemma blank_is_complete:
  assumes "scans z ts f" and "significant ts = []" and "f \<noteq> Open_token"
  shows "sqlite3_complete z = Some True"
  using complete_scans [OF assms(1)] assms(2,3) by (simp add: run_machine_def)

lemma blank_examples: "sqlite3_complete [NUL] = Some True \<and> sqlite3_complete ('' -- x'' @ [NUL]) = Some True"
  by code_simp

text \<open>
  a trigger definition, possibly temporary or explained, is complete at the first
  \<open>; END ;\<close> of its body and not before.
\<close>
theorem complete_trigger:
  assumes "scans z ts f" and "ex \<in> {[], [tkEXPLAIN]}" and "\<forall>t \<in> set temps. t = tkTEMP"
    and "significant ts = ex @ [tkCREATE] @ temps @ [tkTRIGGER] @ body"
  shows "(\<not> sublist trigger_end body \<longrightarrow> sqlite3_complete z = Some False)
    \<and> (\<forall>pre. body = pre @ [tkSEMI] \<and> suffix [tkSEMI, tkEND] pre \<and> \<not> sublist trigger_end pre
        \<longrightarrow> sqlite3_complete z = Some (f \<noteq> Open_token))"
proof -
  have cl: "\<forall>t \<in> set body. t < 8 \<and> t \<noteq> tkWS"
    using scans_classes [OF assms(1)] significant_set [of _ ts] unfolding assms(4) by auto
  have run: "sqlite3_complete z = Some (f \<noteq> Open_token \<and> run_machine 4 body = 0)"
    using run_create_trigger [OF assms(2,3)] run_machine_append [of 0 "ex @ [tkCREATE] @ temps @ [tkTRIGGER]" body]
    by (simp add: complete_scans [OF assms(1)] assms(4))
  have "run_machine 4 body = 0"
    if b: "body = pre @ [tkSEMI]" "suffix [tkSEMI, tkEND] pre" "\<not> sublist trigger_end pre" for pre
    using run_trigger [of pre] cl b next_state_trigger [of 6 tkSEMI]
    by (simp add: run_machine_append) (simp add: run_machine_def tk_defs)
  then show ?thesis using run run_trigger [OF cl] by auto
qed

theorem complete_trigger_witness:
  "sqlite3_complete (''CREATE TRIGGER;END;'' @ [NUL]) = Some True"
proof -
  have "scan_token (CHR ''C'' # ''REATE TRIGGER;END;'' @ [NUL]) = Some (Token tkCREATE (CHR ''E'' # '' TRIGGER;END;'' @ [NUL]))"
    "scan_token (CHR '' '' # ''TRIGGER;END;'' @ [NUL]) = Some (Token tkWS (CHR '' '' # ''TRIGGER;END;'' @ [NUL]))"
    "scan_token (CHR ''T'' # ''RIGGER;END;'' @ [NUL]) = Some (Token tkTRIGGER (CHR ''R'' # '';END;'' @ [NUL]))"
    "scan_token (CHR '';'' # ''END;'' @ [NUL]) = Some (Token tkSEMI (CHR '';'' # ''END;'' @ [NUL]))"
    "scan_token (CHR ''E'' # ''ND;'' @ [NUL]) = Some (Token tkEND (CHR ''D'' # '';'' @ [NUL]))"
    "scan_token (CHR '';'' # [NUL]) = Some (Token tkSEMI (CHR '';'' # [NUL]))"
    by code_simp+
  then have s: "scans (''CREATE TRIGGER;END;'' @ [NUL]) [tkCREATE, tkWS, tkTRIGGER, tkSEMI, tkEND, tkSEMI] At_end"
    by (auto intro!: scans.intros)
  have "\<not> sublist trigger_end [tkSEMI, tkEND]" by (auto simp: trigger_end_def dest: sublist_length_le)
  with complete_trigger [OF s, of "[]" "[]" "[tkSEMI, tkEND, tkSEMI]"] show ?thesis
    by (simp add: significant_def tk_defs)
qed

end
