(* ===== verification/HashTable.thy ===== *)
theory HashTable
  imports TextUtil
begin

text \<open>
  The hash table of hash.c, which holds the schema: tables, indices, triggers and collations
  by name, without regard to case. All elements are on one doubly linked list; a bucket knows
  its first element and how many follow it on the list.

  The list is modelled with its pointers: elements live in a store from addresses to
  \<open>HashElem\<close> records, address 0 is the null pointer, and every assignment through a pointer of
  the source is an update of the store. A key is the text the key pointer addresses (the model
  does not follow later changes a caller makes to a key it still shares). Data pointers are
  numbers, 0 the null pointer. Addresses of new elements come from a counter.
\<close>

record HashElem =
  nxt :: addr
  prv :: addr
  data :: nat
  pKey :: "char list"
  nKey :: nat

record ht_entry =
  ht_count :: nat
  chain :: addr

record Hash =
  copyKey :: bool
  htsize :: nat
  hcount :: nat
  first :: addr
  ht :: "ht_entry list"
  elems :: "addr \<Rightarrow> HashElem option"
  fresh :: addr

definition sqlite3HashInit :: "bool \<Rightarrow> Hash" where
  "sqlite3HashInit copy = \<lparr>copyKey = copy, htsize = 0, hcount = 0, first = 0, ht = [],
     elems = (\<lambda>a. None), fresh = 1\<rparr>"

subsection \<open>Keys\<close>

fun strHash_loop :: "char list \<Rightarrow> nat \<Rightarrow> u32 \<Rightarrow> u32 option" where
  "strHash_loop z 0 h = Some h"
| "strHash_loop [] (Suc n) h = None"
| "strHash_loop (c # z) (Suc n) h =
     strHash_loop z n (push_bit 3 h XOR h XOR of_nat (UpperToLower c))"

fun strlen :: "char list \<Rightarrow> nat option" where
  "strlen [] = None"
| "strlen (c # z) = (if c = NUL then Some 0 else map_option Suc (strlen z))"

definition strHash :: "char list \<Rightarrow> nat \<Rightarrow> nat option" where
  "strHash key n = do {
     n \<leftarrow> (if n = 0 then strlen key else Some n);
     h \<leftarrow> strHash_loop key n 0;
     Some (unat (h AND 0x7fffffff))
   }"

definition strCompare :: "char list \<Rightarrow> nat \<Rightarrow> char list \<Rightarrow> nat \<Rightarrow> int option" where
  "strCompare k1 n1 k2 n2 = (if n1 \<noteq> n2 then Some 1 else sqlite3StrNICmp k1 k2 n1)"

subsection \<open>Linking and searching\<close>

definition insertElement :: "Hash \<Rightarrow> nat \<Rightarrow> addr \<Rightarrow> Hash option" where
  "insertElement H b new = do {
     e \<leftarrow> peek (ht H) b;
     (m, fst1) \<leftarrow>
       (if chain e \<noteq> 0 then do {
          hd1 \<leftarrow> elems H (chain e);
          m \<leftarrow> upd (elems H) new (\<lambda>x. x\<lparr>nxt := chain e, prv := prv hd1\<rparr>);
          (m, f) \<leftarrow> (if prv hd1 \<noteq> 0 then do { m \<leftarrow> upd m (prv hd1) (\<lambda>x. x\<lparr>nxt := new\<rparr>); Some (m, first H) }
                    else Some (m, new));
          m \<leftarrow> upd m (chain e) (\<lambda>x. x\<lparr>prv := new\<rparr>);
          Some (m, f)
        }
        else do {
          m \<leftarrow> upd (elems H) new (\<lambda>x. x\<lparr>nxt := first H\<rparr>);
          m \<leftarrow> (if first H \<noteq> 0 then upd m (first H) (\<lambda>x. x\<lparr>prv := new\<rparr>) else Some m);
          m \<leftarrow> upd m new (\<lambda>x. x\<lparr>prv := 0\<rparr>);
          Some (m, new)
        });
     Some (H\<lparr>elems := m, first := fst1,
             ht := (ht H)[b := \<lparr>ht_count = ht_count e + 1, chain = new\<rparr>]\<rparr>)
   }"

fun find_loop :: "(addr \<Rightarrow> HashElem option) \<Rightarrow> addr \<Rightarrow> nat \<Rightarrow> char list \<Rightarrow> nat \<Rightarrow> addr option" where
  "find_loop m elem 0 k n = Some 0"
| "find_loop m elem (Suc cnt) k n =
     (if elem = 0 then Some 0
      else do {
        e \<leftarrow> m elem;
        r \<leftarrow> strCompare (pKey e) (nKey e) k n;
        if r = 0 then Some elem else find_loop m (nxt e) cnt k n
      })"

text \<open>A null bucket array is the empty list: the array has at least 16 buckets.\<close>

definition findElementGivenHash :: "Hash \<Rightarrow> char list \<Rightarrow> nat \<Rightarrow> nat \<Rightarrow> addr option" where
  "findElementGivenHash H k n b =
     (if ht H \<noteq> [] then do { e \<leftarrow> peek (ht H) b; find_loop (elems H) (chain e) (ht_count e) k n }
      else Some 0)"

subsection \<open>Clearing and rehashing\<close>

text \<open>The loops follow the links of the list, and return only where the list ends.\<close>

partial_function (option) clear_loop :: "(addr \<Rightarrow> HashElem option) \<Rightarrow> addr \<Rightarrow> (addr \<Rightarrow> HashElem option) option" where
  "clear_loop m elem =
     (if elem = 0 then Some m
      else (case m elem of None \<Rightarrow> None | Some e \<Rightarrow> clear_loop (m(elem := None)) (nxt e)))"

definition sqlite3HashClear :: "Hash \<Rightarrow> Hash option" where
  "sqlite3HashClear H = do {
     m \<leftarrow> clear_loop (elems H) (first H);
     Some (H\<lparr>first := 0, ht := [], htsize := 0, hcount := 0, elems := m\<rparr>)
   }"

partial_function (option) rehash_loop :: "Hash \<Rightarrow> addr \<Rightarrow> nat \<Rightarrow> Hash option" where
  "rehash_loop H elem new_size =
     (if elem = 0 then Some H
      else (case elems H elem of None \<Rightarrow> None | Some e \<Rightarrow>
        (case strHash (pKey e) (nKey e) of None \<Rightarrow> None | Some hraw \<Rightarrow>
        (case insertElement H (hraw AND (new_size - 1)) elem of None \<Rightarrow> None | Some H' \<Rightarrow>
           rehash_loop H' (nxt e) new_size))))"

text \<open>The application does not define SQLITE_MALLOC_SOFT_LIMIT. A failing allocation leaves the
  table as it is.\<close>

definition rehash :: "Hash \<Rightarrow> nat \<Rightarrow> oom \<Rightarrow> (Hash \<times> oom) option" where
  "rehash H new_size m =
     (case malloc_next m of (ok, m') \<Rightarrow>
        if \<not> ok then Some (H, m')
        else do {
          H' \<leftarrow> rehash_loop (H\<lparr>ht := replicate new_size \<lparr>ht_count = 0, chain = 0\<rparr>, htsize := new_size, first := 0\<rparr>)
                  (first H) new_size;
          Some (H', m')
        })"

subsection \<open>The operations\<close>

definition removeElementGivenHash :: "Hash \<Rightarrow> addr \<Rightarrow> nat \<Rightarrow> Hash option" where
  "removeElementGivenHash H elem b = do {
     e \<leftarrow> elems H elem;
     (m, f) \<leftarrow> (if prv e \<noteq> 0 then do { m \<leftarrow> upd (elems H) (prv e) (\<lambda>x. x\<lparr>nxt := nxt e\<rparr>); Some (m, first H) }
               else Some (elems H, nxt e));
     m \<leftarrow> (if nxt e \<noteq> 0 then upd m (nxt e) (\<lambda>x. x\<lparr>prv := prv e\<rparr>) else Some m);
     p \<leftarrow> peek (ht H) b;
     let ch = (if chain p = elem then nxt e else chain p);
     if ht_count p = 0 then None
     else do {
       let H1 = H\<lparr>elems := m(elem := None), first := f,
                  ht := (ht H)[b := \<lparr>ht_count = ht_count p - 1, chain = (if ht_count p - 1 \<le> 0 then 0 else ch)\<rparr>],
                  hcount := hcount H - 1\<rparr>;
       if hcount H1 = 0 then sqlite3HashClear H1 else Some H1
     }
   }"

definition sqlite3HashFindElem :: "Hash \<Rightarrow> char list \<Rightarrow> nat \<Rightarrow> addr option" where
  "sqlite3HashFindElem H k n =
     (if ht H = [] then Some 0
      else do { h \<leftarrow> strHash k n; findElementGivenHash H k n (h mod htsize H) })"

definition sqlite3HashFind :: "Hash \<Rightarrow> char list \<Rightarrow> nat \<Rightarrow> nat option" where
  "sqlite3HashFind H k n = do {
     elem \<leftarrow> sqlite3HashFindElem H k n;
     if elem = 0 then Some 0 else map_option data (elems H elem)
   }"

text \<open>Insertion of a new element, after the search has found none: the returned data pointer, the
  table and the rest of the allocations. An allocation of no bytes returns null.\<close>

definition insert_new :: "Hash \<Rightarrow> nat \<Rightarrow> char list \<Rightarrow> nat \<Rightarrow> nat \<Rightarrow> oom \<Rightarrow> (nat \<times> Hash \<times> oom) option" where
  "insert_new H hraw k n d m =
     (case malloc_next m of (ok, m) \<Rightarrow>
        if \<not> ok then Some (d, H, m)
        else (case (if copyKey H then (if n = 0 then (False, m) else malloc_next m) else (True, m)) of (ok, m) \<Rightarrow>
          if \<not> ok then Some (d, H, m)
          else do {
            let new = fresh H;
            let key = (if copyKey H then take n k else k);
            let H1 = H\<lparr>elems := (elems H)(new \<mapsto> \<lparr>nxt = 0, prv = 0, data = 0, pKey = key, nKey = n\<rparr>),
                       fresh := new + 1, hcount := hcount H + 1\<rparr>;
            (H2, m) \<leftarrow> (if htsize H1 = 0 then rehash H1 16 m else Some (H1, m));
            if htsize H2 = 0 then Some (d, H2\<lparr>hcount := 0, elems := (elems H2)(new := None)\<rparr>, m)
            else do {
              (H3, m) \<leftarrow> (if hcount H2 > htsize H2 then rehash H2 (htsize H2 * 2) m else Some (H2, m));
              H4 \<leftarrow> insertElement H3 (hraw mod htsize H3) new;
              m4 \<leftarrow> upd (elems H4) new (\<lambda>x. x\<lparr>data := d\<rparr>);
              Some (0, H4\<lparr>elems := m4\<rparr>, m)
            }
          }))"

definition sqlite3HashInsert :: "Hash \<Rightarrow> char list \<Rightarrow> nat \<Rightarrow> nat \<Rightarrow> oom \<Rightarrow> (nat \<times> Hash \<times> oom) option" where
  "sqlite3HashInsert H k n d m = do {
     hraw \<leftarrow> strHash k n;
     elem \<leftarrow> (if htsize H \<noteq> 0 then findElementGivenHash H k n (hraw mod htsize H) else Some 0);
     if elem \<noteq> 0 then do {
       e \<leftarrow> elems H elem;
       if d = 0 then do { H' \<leftarrow> removeElementGivenHash H elem (hraw mod htsize H); Some (data e, H', m) }
       else do {
         m1 \<leftarrow> upd (elems H) elem (\<lambda>x. x\<lparr>data := d, pKey := (if copyKey H then pKey x else k)\<rparr>);
         Some (data e, H\<lparr>elems := m1\<rparr>, m)
       }
     }
     else if d = 0 then Some (0, H, m)
     else insert_new H hraw k n d m
   }"

subsection \<open>Doubly linked segments\<close>

text \<open>The elements \<open>xs\<close>, linked both ways, the first one after \<open>p\<close> and the last one before \<open>n\<close>.\<close>

fun dll :: "(addr \<Rightarrow> HashElem option) \<Rightarrow> addr \<Rightarrow> addr list \<Rightarrow> addr \<Rightarrow> bool" where
  "dll m p [] n = True"
| "dll m p (x # xs) n =
     (x \<noteq> 0 \<and> (\<exists>e. m x = Some e \<and> prv e = p \<and> nxt e = hd0 xs n) \<and> dll m x xs n)"

lemma dll_append: "dll m p (xs @ ys) n \<longleftrightarrow> dll m p xs (hd0 ys n) \<and> dll m (last0 xs p) ys n"
  by (induction xs arbitrary: p) (auto simp: hd0_append last0_Cons)

lemma dll_frame: "(\<And>x. x \<in> set xs \<Longrightarrow> m' x = m x) \<Longrightarrow> dll m' p xs n = dll m p xs n"
  by (induction xs arbitrary: p) auto

lemma dll_frame_upd: "a \<notin> set xs \<Longrightarrow> dll (m(a := v)) p xs n = dll m p xs n"
  by (rule dll_frame) auto

lemma dll_not_0: "dll m p xs n \<Longrightarrow> 0 \<notin> set xs"
  by (induction xs arbitrary: p) auto

lemma dll_dom: "dll m p xs n \<Longrightarrow> x \<in> set xs \<Longrightarrow> \<exists>e. m x = Some e"
  by (induction xs arbitrary: p) auto

text \<open>What linking and unlinking leave alone: the key and the data of every element.\<close>

definition payload :: "HashElem \<Rightarrow> nat \<times> char list \<times> nat" where
  "payload e = (data e, pKey e, nKey e)"

definition same_payload :: "(addr \<Rightarrow> HashElem option) \<Rightarrow> (addr \<Rightarrow> HashElem option) \<Rightarrow> bool" where
  "same_payload m' m \<longleftrightarrow> (\<forall>x. map_option payload (m' x) = map_option payload (m x))"

lemma same_payload_refl [simp]: "same_payload m m"
  by (simp add: same_payload_def)

lemma same_payload_trans: "same_payload m2 m1 \<Longrightarrow> same_payload m1 m \<Longrightarrow> same_payload m2 m"
  by (simp add: same_payload_def)

lemma same_payload_upd:
  "m x = Some e \<Longrightarrow> payload e' = payload e \<Longrightarrow> same_payload m1 m \<Longrightarrow> m1 x = Some e1 \<Longrightarrow> same_payload (m1(x \<mapsto> e')) m"
  by (simp add: same_payload_def)

lemma payload_upd [simp]: "payload (e\<lparr>nxt := a\<rparr>) = payload e" "payload (e\<lparr>prv := a\<rparr>) = payload e"
  by (simp_all add: payload_def)

text \<open>The two places where an element is linked in: at the front of the list, and before an
  element \<open>y\<close>.\<close>

lemma link_front:
  assumes "dll m 0 xs 0" and "m new = Some e" and "new \<noteq> 0" and "new \<notin> set xs" and "distinct xs"
  shows "\<exists>m'. do { m \<leftarrow> upd m new (\<lambda>x. x\<lparr>nxt := hd0 xs 0\<rparr>);
             m \<leftarrow> (if hd0 xs 0 \<noteq> 0 then upd m (hd0 xs 0) (\<lambda>x. x\<lparr>prv := new\<rparr>) else Some m);
             m \<leftarrow> upd m new (\<lambda>x. x\<lparr>prv := 0\<rparr>);
             Some (m, new) } = Some (m', new)
     \<and> dll m' 0 (new # xs) 0 \<and> same_payload m' m \<and> (\<forall>x. x \<notin> insert new (set xs) \<longrightarrow> m' x = m x)"
proof (cases xs)
  case Nil
  with assms show ?thesis by (auto simp: same_payload_def)
next
  case (Cons y zs)
  with assms obtain ey where "m y = Some ey" "nxt ey = hd0 zs 0" "dll m y zs 0" "y \<noteq> 0" "y \<notin> set zs" "new \<notin> set zs" "y \<noteq> new"
    by auto
  with Cons assms show ?thesis
    by (auto simp: same_payload_def dll_frame_upd)
qed

lemma link_before:
  assumes "dll m 0 (us @ y # zs) 0" and "m new = Some e" and "new \<noteq> 0"
    and "new \<notin> set (us @ y # zs)" and "distinct (us @ y # zs)"
  shows "\<exists>m'. do {
             hd1 \<leftarrow> m y;
             m \<leftarrow> upd m new (\<lambda>x. x\<lparr>nxt := y, prv := prv hd1\<rparr>);
             (m, f) \<leftarrow> (if prv hd1 \<noteq> 0 then do { m \<leftarrow> upd m (prv hd1) (\<lambda>x. x\<lparr>nxt := new\<rparr>); Some (m, hd0 (us @ y # zs) 0) }
                       else Some (m, new));
             m \<leftarrow> upd m y (\<lambda>x. x\<lparr>prv := new\<rparr>);
             Some (m, f) } = Some (m', hd0 (us @ new # y # zs) 0)
     \<and> dll m' 0 (us @ new # y # zs) 0 \<and> same_payload m' m
     \<and> (\<forall>x. x \<notin> insert new (set (us @ y # zs)) \<longrightarrow> m' x = m x)"
proof -
  obtain ey where y: "m y = Some ey" "prv ey = last0 us 0" "nxt ey = hd0 zs 0" "dll m y zs 0" "y \<noteq> 0"
    and us: "dll m 0 us y"
    using assms(1) by (auto simp: dll_append)
  show ?thesis
  proof (cases us rule: rev_cases)
    case Nil
    with y assms show ?thesis by (auto simp: same_payload_def dll_frame_upd payload_def)
  next
    case (snoc us' u)
    then obtain eu where u: "m u = Some eu" "prv eu = last0 us' 0" "u \<noteq> 0" "dll m 0 us' u"
      using us by (auto simp: dll_append)
    with snoc y assms show ?thesis
      by (auto simp: same_payload_def dll_frame_upd dll_append hd0_append payload_def)
  qed
qed

text \<open>Unlinking.\<close>

lemma unlink:
  assumes "dll m 0 (us @ x # zs) 0" and "distinct (us @ x # zs)" and "m x = Some e"
  shows "\<exists>m'. do {
      (m, f) \<leftarrow> (if prv e \<noteq> 0 then do { m \<leftarrow> upd m (prv e) (\<lambda>x. x\<lparr>nxt := nxt e\<rparr>); Some (m, hd0 (us @ x # zs) 0) }
               else Some (m, nxt e));
      m \<leftarrow> (if nxt e \<noteq> 0 then upd m (nxt e) (\<lambda>x. x\<lparr>prv := prv e\<rparr>) else Some m);
      Some (m(x := None), f) } = Some (m', hd0 (us @ zs) 0)
    \<and> dll m' 0 (us @ zs) 0 \<and> same_payload m' (m(x := None))
    \<and> (\<forall>a. a \<notin> set (us @ x # zs) \<longrightarrow> m' a = m a)"
proof -
  have e: "prv e = last0 us 0" "nxt e = hd0 zs 0" "dll m x zs 0" "dll m 0 us x"
    using assms by (auto simp: dll_append)
  show ?thesis
  proof (cases us rule: rev_cases)
    case Nil
    show ?thesis
    proof (cases zs)
      case Nil
      with \<open>us = []\<close> e assms(2,3) show ?thesis by (auto simp: same_payload_def)
    next
      case (Cons z zs')
      with \<open>us = []\<close> e assms(2,3) show ?thesis by (auto simp: same_payload_def dll_frame_upd)
    qed
  next
    case (snoc us' u)
    then obtain eu where u: "m u = Some eu" "prv eu = last0 us' 0" "u \<noteq> 0" "dll m 0 us' u"
      using e(4) by (auto simp: dll_append)
    show ?thesis
    proof (cases zs)
      case Nil
      with snoc u e assms(2,3) show ?thesis by (auto simp: same_payload_def dll_frame_upd dll_append hd0_append)
    next
      case (Cons z zs')
      with snoc u e assms(2,3) show ?thesis by (auto simp: same_payload_def dll_frame_upd dll_append hd0_append)
    qed
  qed
qed

subsection \<open>Buckets\<close>

text \<open>Bucket \<open>b\<close> stands for the elements that \<open>g\<close> sends to \<open>b\<close>; they are contiguous on the list.\<close>

abbreviation blk :: "(addr \<Rightarrow> nat) \<Rightarrow> addr list \<Rightarrow> nat \<Rightarrow> addr list" where
  "blk g xs b \<equiv> filter (\<lambda>x. g x = b) xs"

definition bucket_ok :: "(addr \<Rightarrow> nat) \<Rightarrow> addr list \<Rightarrow> nat \<Rightarrow> ht_entry \<Rightarrow> bool" where
  "bucket_ok g xs b e \<longleftrightarrow> ht_count e = length (blk g xs b) \<and> chain e = hd0 (blk g xs b) 0
     \<and> (\<exists>us vs. xs = us @ blk g xs b @ vs)"

definition buckets :: "(addr \<Rightarrow> nat) \<Rightarrow> ht_entry list \<Rightarrow> addr list \<Rightarrow> bool" where
  "buckets g hts xs \<longleftrightarrow> (\<forall>b < length hts. bucket_ok g xs b (hts ! b))"

lemma blk_contiguous:
  assumes "xs = us @ blk g xs b @ vs" shows "blk g us b = []" "blk g vs b = []"
  using arg_cong [OF assms, of "\<lambda>l. length (blk g l b)"] by simp_all

lemma split_outside:
  assumes "us1 @ B @ vs1 = us @ y # zs" and "distinct (us @ y # zs)" and "y \<notin> set B"
  shows "(\<exists>t. us1 = us @ y # t \<and> zs = t @ B @ vs1) \<or> (\<exists>t. us = us1 @ B @ t \<and> vs1 = t @ y # zs)"
proof -
  have y: "y \<notin> set us" "y \<notin> set zs" using assms(2) by auto
  have "y \<in> set us1 \<or> y \<in> set vs1"
    using arg_cong [OF assms(1), of set] assms(3) by auto
  then show ?thesis
  proof
    assume "y \<in> set us1"
    then obtain a c where us1: "us1 = a @ y # c" by (metis split_list)
    have "us @ y # zs = a @ y # (c @ B @ vs1)" using assms(1) us1 by simp
    from iffD1 [OF append_Cons_eq_iff [OF y] this] us1 show ?thesis by simp
  next
    assume "y \<in> set vs1"
    then obtain a c where vs1: "vs1 = a @ y # c" by (metis split_list)
    have "us @ y # zs = (us1 @ B @ a) @ y # c" using assms(1) vs1 by simp
    from iffD1 [OF append_Cons_eq_iff [OF y] this] vs1 show ?thesis by simp
  qed
qed

lemma bucket_ok_insert_other:
  assumes "bucket_ok g (us @ zs) b' e" and "g new \<noteq> b'" and "distinct (us @ zs)"
    and "us = [] \<or> (\<exists>y zs'. zs = y # zs' \<and> g y \<noteq> b')"
  shows "bucket_ok g (us @ new # zs) b' e"
proof -
  define B where "B = blk g (us @ zs) b'"
  obtain us1 vs1 where s: "us @ zs = us1 @ B @ vs1" using assms(1) by (auto simp: bucket_ok_def B_def)
  have same: "blk g (us @ new # zs) b' = B" using assms(2) by (simp add: B_def)
  have "\<exists>us2 vs2. us @ new # zs = us2 @ B @ vs2"
    using assms(4)
  proof (elim disjE exE conjE)
    assume "us = []"
    then have "us @ new # zs = (new # us1) @ B @ vs1" using s by simp
    then show ?thesis by blast
  next
    fix y zs' assume y: "zs = y # zs'" "g y \<noteq> b'"
    have "y \<notin> set B" using y(2) by (simp add: B_def)
    from split_outside [OF s [symmetric, unfolded y(1)] _ this] assms(3) y(1)
    consider t where "us1 = us @ y # t" "zs' = t @ B @ vs1" | t where "us = us1 @ B @ t" "vs1 = t @ y # zs'"
      by auto
    then show ?thesis
    proof cases
      case 1
      then have "us @ new # zs = (us @ new # y # t) @ B @ vs1" using y by simp
      then show ?thesis by blast
    next
      case 2
      then have "us @ new # zs = us1 @ B @ (t @ new # y # zs')" using y by simp
      then show ?thesis by blast
    qed
  qed
  with assms(1) show ?thesis unfolding bucket_ok_def same B_def [symmetric] by simp
qed

lemma bucket_ok_insert_same:
  assumes "us @ zs = us @ blk g (us @ zs) b @ vs" and "g new = b"
    and "bucket_ok g (us @ zs) b e"
  shows "bucket_ok g (us @ new # zs) b \<lparr>ht_count = ht_count e + 1, chain = new\<rparr>"
proof -
  define B where "B = blk g (us @ zs) b"
  have "blk g us b = []" using blk_contiguous [OF assms(1)] by simp
  then have new: "blk g (us @ new # zs) b = new # B" using assms(2) by (simp add: B_def)
  have "us @ zs = us @ B @ vs" using assms(1) unfolding B_def .
  then have "us @ new # zs = us @ (new # B) @ vs" by simp
  then have "\<exists>us2 vs2. us @ new # zs = us2 @ (new # B) @ vs2" by blast
  with assms(3) show ?thesis unfolding bucket_ok_def new B_def [symmetric] by simp
qed

lemma bucket_ok_remove_other:
  assumes "bucket_ok g (us @ x # zs) b' e" and "g x \<noteq> b'" and "distinct (us @ x # zs)"
  shows "bucket_ok g (us @ zs) b' e"
proof -
  let ?B = "blk g (us @ x # zs) b'"
  obtain us1 vs1 where s: "us @ x # zs = us1 @ ?B @ vs1" using assms(1) by (auto simp: bucket_ok_def)
  have same: "blk g (us @ zs) b' = ?B" using assms(2) by simp
  have "x \<notin> set ?B" using assms(2) by simp
  from split_outside [OF s [symmetric] assms(3) this]
  have "\<exists>us2 vs2. us @ zs = us2 @ ?B @ vs2" by (metis append.assoc)
  with same assms(1) show ?thesis unfolding bucket_ok_def by metis
qed

lemma bucket_ok_remove_same:
  assumes "bucket_ok g (us @ x # zs) b e" and "g x = b" and "distinct (us @ x # zs)"
  shows "0 < ht_count e"
    and "bucket_ok g (us @ zs) b
      \<lparr>ht_count = ht_count e - 1, chain = (if ht_count e - 1 \<le> 0 then 0 else if chain e = x then hd0 zs 0 else chain e)\<rparr>"
proof -
  let ?B = "blk g (us @ x # zs) b"
  obtain us1 vs1 where s: "us @ x # zs = us1 @ ?B @ vs1" using assms(1) by (auto simp: bucket_ok_def)
  have B: "?B = blk g us b @ x # blk g zs b" using assms(2) by simp
  with assms(1) show "0 < ht_count e" by (simp add: bucket_ok_def)
  have "us @ x # zs = (us1 @ blk g us b) @ x # (blk g zs b @ vs1)"
    by (subst s) (simp only: B append_assoc append_Cons)
  moreover have "x \<notin> set us" "x \<notin> set zs" using assms(3) by auto
  ultimately have p: "us = us1 @ blk g us b" "zs = blk g zs b @ vs1"
    using append_Cons_eq_iff [of x us zs] by blast+
  define B1 B2 where "B1 = blk g us b" and "B2 = blk g zs b"
  have new: "blk g (us @ zs) b = B1 @ B2" by (simp add: B1_def B2_def)
  have "us @ zs = us1 @ (B1 @ B2) @ vs1"
    using p unfolding B1_def [symmetric] B2_def [symmetric] by simp
  then have ex: "\<exists>us2 vs2. us @ zs = us2 @ (B1 @ B2) @ vs2" by blast
  have hz: "hd0 zs 0 = hd0 B2 (hd0 vs1 0)" by (metis hd0_append p(2) B2_def)
  have e: "chain e = hd0 B1 x" "ht_count e = length B1 + 1 + length B2"
    using assms(1) B by (simp_all add: bucket_ok_def hd0_append B1_def B2_def)
  have "set B1 \<subseteq> set us" by (auto simp: B1_def)
  then have ne: "B1 \<noteq> [] \<Longrightarrow> hd B1 \<noteq> x" using assms(3) hd_in_set by fastforce
  show "bucket_ok g (us @ zs) b
      \<lparr>ht_count = ht_count e - 1, chain = (if ht_count e - 1 \<le> 0 then 0 else if chain e = x then hd0 zs 0 else chain e)\<rparr>"
    unfolding bucket_ok_def new using ex hz e ne by (auto simp: hd0_def)
qed

lemma hd0_0: "0 \<notin> set xs \<Longrightarrow> hd0 xs 0 = 0 \<longleftrightarrow> xs = []"
  by (cases xs) auto

definition insert_post :: "Hash \<Rightarrow> addr list \<Rightarrow> (addr \<Rightarrow> nat) \<Rightarrow> addr \<Rightarrow> Hash \<Rightarrow> addr list \<Rightarrow> bool" where
  "insert_post H xs g new H' xs' \<longleftrightarrow>
     (\<exists>m' hts. H' = H\<lparr>elems := m', first := hd0 xs' 0, ht := hts\<rparr> \<and> dll m' 0 xs' 0 \<and> distinct xs'
      \<and> set xs' = insert new (set xs) \<and> same_payload m' (elems H)
      \<and> (\<forall>x. x \<notin> insert new (set xs) \<longrightarrow> m' x = elems H x)
      \<and> buckets g hts xs' \<and> length hts = length (ht H))"

lemma insertElement_post:
  assumes d: "dll (elems H) 0 xs 0" and f: "first H = hd0 xs 0" and xs: "distinct xs" "new \<notin> set xs" "new \<noteq> 0"
    and e: "elems H new = Some e" and bk: "buckets g (ht H) xs" and b: "b < length (ht H)" "g new = b"
  shows "\<exists>H' xs'. insertElement H b new = Some H' \<and> insert_post H xs g new H' xs'"
proof -
  let ?e = "ht H ! b"
  have ok: "bucket_ok g xs b ?e" using bk b by (simp add: buckets_def)
  have pk: "peek (ht H) b = Some ?e" using b by simp
  have B0: "0 \<notin> set (blk g xs b)" using dll_not_0 [OF d] by auto
  have bks: "buckets g ((ht H)[b := \<lparr>ht_count = ht_count ?e + 1, chain = new\<rparr>]) xs'"
    if new: "bucket_ok g xs' b \<lparr>ht_count = ht_count ?e + 1, chain = new\<rparr>"
      and other: "\<And>b' e'. bucket_ok g xs b' e' \<Longrightarrow> b' \<noteq> b \<Longrightarrow> bucket_ok g xs' b' e'" for xs'
    unfolding buckets_def
  proof (intro allI impI)
    fix b' assume "b' < length ((ht H)[b := \<lparr>ht_count = ht_count ?e + 1, chain = new\<rparr>])"
    then show "bucket_ok g xs' b' ((ht H)[b := \<lparr>ht_count = ht_count ?e + 1, chain = new\<rparr>] ! b')"
      using new other [of b' "ht H ! b'"] bk by (cases "b' = b") (auto simp: buckets_def)
  qed
  show ?thesis
  proof (cases "blk g xs b")
    case Nil
    then have c: "chain ?e = 0" using ok by (simp add: bucket_ok_def)
    obtain m' where m': "do { m \<leftarrow> upd (elems H) new (\<lambda>x. x\<lparr>nxt := hd0 xs 0\<rparr>);
             m \<leftarrow> (if hd0 xs 0 \<noteq> 0 then upd m (hd0 xs 0) (\<lambda>x. x\<lparr>prv := new\<rparr>) else Some m);
             m \<leftarrow> upd m new (\<lambda>x. x\<lparr>prv := 0\<rparr>);
             Some (m, new) } = Some (m', new)"
      "dll m' 0 (new # xs) 0" "same_payload m' (elems H)" "\<forall>x. x \<notin> insert new (set xs) \<longrightarrow> m' x = elems H x"
      using link_front [OF d e xs(3,2,1)] by blast
    have "bucket_ok g ([] @ new # xs) b \<lparr>ht_count = ht_count ?e + 1, chain = new\<rparr>"
      by (rule bucket_ok_insert_same [where vs = xs]) (use Nil ok b in simp_all)
    moreover have "bucket_ok g ([] @ new # xs) b' e'" if "bucket_ok g xs b' e'" "b' \<noteq> b" for b' e'
      by (rule bucket_ok_insert_other) (use that b xs in simp_all)
    ultimately have "buckets g ((ht H)[b := \<lparr>ht_count = ht_count ?e + 1, chain = new\<rparr>]) (new # xs)"
      using bks [of "new # xs"] by simp
    with m'(2-4) xs have "insert_post H xs g new (H\<lparr>elems := m', first := new,
        ht := (ht H)[b := \<lparr>ht_count = ht_count ?e + 1, chain = new\<rparr>]\<rparr>) (new # xs)"
      unfolding insert_post_def
      by (intro exI [of _ m'] exI [of _ "(ht H)[b := \<lparr>ht_count = ht_count ?e + 1, chain = new\<rparr>]"] conjI) simp_all
    moreover have "insertElement H b new = Some (H\<lparr>elems := m', first := new,
        ht := (ht H)[b := \<lparr>ht_count = ht_count ?e + 1, chain = new\<rparr>]\<rparr>)"
      unfolding insertElement_def pk bind.bind_lunit f using m'(1) c by simp
    ultimately show ?thesis by blast
  next
    case (Cons y ys)
    have "chain ?e = y" using ok unfolding bucket_ok_def Cons by simp
    moreover have "y \<noteq> 0" using B0 unfolding Cons by auto
    moreover have "y \<in> set (blk g xs b)" unfolding Cons by simp
    ultimately have c: "chain ?e = y" "y \<noteq> 0" "g y = b" by simp_all
    obtain us vs where s: "xs = us @ (y # ys) @ vs" using ok unfolding bucket_ok_def Cons by blast
    let ?zs = "ys @ vs" and ?x' = "us @ new # y # ys @ vs"
    have s': "xs = us @ y # ?zs" using s by simp
    obtain m' where m': "do {
             hd1 \<leftarrow> elems H y;
             m \<leftarrow> upd (elems H) new (\<lambda>x. x\<lparr>nxt := y, prv := prv hd1\<rparr>);
             (m, f) \<leftarrow> (if prv hd1 \<noteq> 0 then do { m \<leftarrow> upd m (prv hd1) (\<lambda>x. x\<lparr>nxt := new\<rparr>); Some (m, hd0 xs 0) }
                       else Some (m, new));
             m \<leftarrow> upd m y (\<lambda>x. x\<lparr>prv := new\<rparr>);
             Some (m, f) } = Some (m', hd0 ?x' 0)"
      "dll m' 0 ?x' 0" "same_payload m' (elems H)" "\<forall>x. x \<notin> insert new (set xs) \<longrightarrow> m' x = elems H x"
      using link_before [of "elems H" us y ?zs new e] d e xs unfolding s' by blast
    have "bucket_ok g ?x' b \<lparr>ht_count = ht_count ?e + 1, chain = new\<rparr>"
      by (rule bucket_ok_insert_same [where vs = vs]) (use Cons ok b s in simp_all)
    moreover have "bucket_ok g ?x' b' e'" if "bucket_ok g xs b' e'" "b' \<noteq> b" for b' e'
      by (rule bucket_ok_insert_other) (use that b xs c s in simp_all)
    ultimately have "buckets g ((ht H)[b := \<lparr>ht_count = ht_count ?e + 1, chain = new\<rparr>]) ?x'"
      by (rule bks)
    with m'(2-4) xs s' have "insert_post H xs g new (H\<lparr>elems := m', first := hd0 ?x' 0,
        ht := (ht H)[b := \<lparr>ht_count = ht_count ?e + 1, chain = new\<rparr>]\<rparr>) ?x'"
      unfolding insert_post_def
      by (intro exI [of _ m'] exI [of _ "(ht H)[b := \<lparr>ht_count = ht_count ?e + 1, chain = new\<rparr>]"] conjI)
         (simp_all, blast?)
    moreover have "insertElement H b new = Some (H\<lparr>elems := m', first := hd0 ?x' 0,
        ht := (ht H)[b := \<lparr>ht_count = ht_count ?e + 1, chain = new\<rparr>]\<rparr>)"
      unfolding insertElement_def pk bind.bind_lunit f using m'(1) c by simp
    ultimately show ?thesis by blast
  qed
qed

definition remove_post :: "Hash \<Rightarrow> addr list \<Rightarrow> addr list \<Rightarrow> (addr \<Rightarrow> nat) \<Rightarrow> addr \<Rightarrow> Hash \<Rightarrow> bool" where
  "remove_post H us zs g x H' \<longleftrightarrow>
     (\<exists>m' hts. H' = H\<lparr>elems := m', first := hd0 (us @ zs) 0, ht := hts, hcount := hcount H - 1\<rparr>
      \<and> dll m' 0 (us @ zs) 0 \<and> same_payload m' ((elems H)(x := None))
      \<and> buckets g hts (us @ zs) \<and> length hts = length (ht H))"

lemma clear_loop_dll: "dll m p xs 0 \<Longrightarrow> distinct xs \<Longrightarrow> \<exists>m'. clear_loop m (hd0 xs 0) = Some m'"
proof (induction xs arbitrary: m p)
  case Nil
  then show ?case by (simp add: clear_loop.simps)
next
  case (Cons x xs)
  then obtain e where e: "m x = Some e" "nxt e = hd0 xs 0" "x \<noteq> 0" "dll (m(x := None)) x xs 0"
    by (auto simp: dll_frame_upd)
  obtain m' where "clear_loop (m(x := None)) (hd0 xs 0) = Some m'"
    using Cons.IH [OF e(4)] Cons.prems(2) unfolding distinct.simps by blast
  with e show ?case by (subst clear_loop.simps) simp
qed

lemma removeElement_post:
  assumes d: "dll (elems H) 0 (us @ x # zs) 0" and f: "first H = hd0 (us @ x # zs) 0"
    and dist: "distinct (us @ x # zs)" and bk: "buckets g (ht H) (us @ x # zs)"
    and b: "b < length (ht H)" "g x = b" and cnt: "hcount H = length (us @ x # zs)"
  shows "\<exists>H1. removeElementGivenHash H x b = (if us @ zs = [] then sqlite3HashClear H1 else Some H1)
     \<and> remove_post H us zs g x H1"
proof -
  let ?p = "ht H ! b"
  obtain e where e: "elems H x = Some e" using d by (auto simp: dll_append)
  have ok: "bucket_ok g (us @ x # zs) b ?p" using bk b by (simp add: buckets_def)
  have pk: "peek (ht H) b = Some ?p" using b by simp
  have nx: "nxt e = hd0 zs 0" using d e by (auto simp: dll_append)
  let ?p' = "\<lparr>ht_count = ht_count ?p - 1,
    chain = (if ht_count ?p - 1 \<le> 0 then 0 else if chain ?p = x then hd0 zs 0 else chain ?p)\<rparr>"
  note same = bucket_ok_remove_same [OF ok b(2) dist]
  obtain m f' where m: "(if prv e \<noteq> 0 then do { m \<leftarrow> upd (elems H) (prv e) (\<lambda>x. x\<lparr>nxt := nxt e\<rparr>); Some (m, hd0 (us @ x # zs) 0) }
             else Some (elems H, nxt e)) = Some (m, f')"
    and rest: "\<exists>m'. do { m \<leftarrow> (if nxt e \<noteq> 0 then upd m (nxt e) (\<lambda>x. x\<lparr>prv := prv e\<rparr>) else Some m);
        Some (m(x := None), f') } = Some (m', hd0 (us @ zs) 0)
      \<and> dll m' 0 (us @ zs) 0 \<and> same_payload m' ((elems H)(x := None))"
    using unlink [OF d dist e] by (auto simp: bind_eq_Some_conv)
  obtain m2 where m2: "(if nxt e \<noteq> 0 then upd m (nxt e) (\<lambda>x. x\<lparr>prv := prv e\<rparr>) else Some m) = Some m2"
    "f' = hd0 (us @ zs) 0" "dll (m2(x := None)) 0 (us @ zs) 0" "same_payload (m2(x := None)) ((elems H)(x := None))"
    using rest by (auto simp: bind_eq_Some_conv)
  let ?H1 = "H\<lparr>elems := m2(x := None), first := hd0 (us @ zs) 0, ht := (ht H)[b := ?p'], hcount := hcount H - 1\<rparr>"
  have "buckets g ((ht H)[b := ?p']) (us @ zs)"
    unfolding buckets_def
  proof (intro allI impI)
    fix b' assume "b' < length ((ht H)[b := ?p'])"
    then show "bucket_ok g (us @ zs) b' ((ht H)[b := ?p'] ! b')"
      using same(2) bucket_ok_remove_other [of g us x zs b' "ht H ! b'"] bk b dist
      by (cases "b' = b") (auto simp: buckets_def)
  qed
  with m2(3,4) have "remove_post H us zs g x ?H1"
    unfolding remove_post_def
    by (intro exI [of _ "m2(x := None)"] exI [of _ "(ht H)[b := ?p']"] conjI) simp_all
  moreover have "removeElementGivenHash H x b = (if us @ zs = [] then sqlite3HashClear ?H1 else Some ?H1)"
    unfolding removeElementGivenHash_def e pk bind.bind_lunit f m prod.case m2(1) nx [symmetric]
    using same(1) cnt m2(2) by (auto simp: Let_def nx)
  ultimately show ?thesis by blast
qed

subsection \<open>Keys and their classes\<close>

text \<open>Two keys are the same key when their first \<open>n\<close> characters agree up to case.\<close>

definition key_class :: "char list \<Rightarrow> nat \<Rightarrow> nat list" where
  "key_class k n = fold_case (take n k)"

definition key_ok :: "char list \<Rightarrow> nat \<Rightarrow> bool" where
  "key_ok k n \<longleftrightarrow> 1 \<le> n \<and> n \<le> length k \<and> NUL \<notin> set (butlast (take n k))"

definition hash_of :: "nat list \<Rightarrow> nat" where
  "hash_of ks = unat (foldl (\<lambda>h c. push_bit 3 h XOR h XOR of_nat c) (0 :: u32) ks AND 0x7fffffff)"

lemma strHash_loop_fold:
  "n \<le> length z \<Longrightarrow> strHash_loop z n h = Some (foldl (\<lambda>h c. push_bit 3 h XOR h XOR of_nat c) h (fold_case (take n z)))"
  by (induction z n h rule: strHash_loop.induct) (auto simp: fold_case_def)

lemma strHash_class: "key_ok k n \<Longrightarrow> strHash k n = Some (hash_of (key_class k n))"
  by (auto simp: strHash_def key_ok_def strHash_loop_fold hash_of_def key_class_def)

lemma StrNICmp_take:
  "n \<le> length as \<Longrightarrow> n \<le> length bs \<Longrightarrow> sqlite3StrNICmp as bs n = sqlite3StrNICmp (take n as) (take n bs) n"
  by (induction as bs n rule: sqlite3StrNICmp.induct) auto

lemma strCompare_class:
  assumes "key_ok k1 n1" and "key_ok k2 n2"
  shows "\<exists>r. strCompare k1 n1 k2 n2 = Some r \<and> (r = 0 \<longleftrightarrow> key_class k1 n1 = key_class k2 n2)"
proof (cases "n1 = n2")
  case True
  with assms StrNICmp_decides [of "take n1 k1" n1 "take n1 k2"] StrNICmp_take [of n1 k1 k2] show ?thesis
    by (auto simp: strCompare_def key_ok_def key_class_def)
next
  case False
  then have "length (key_class k1 n1) \<noteq> length (key_class k2 n2)"
    using assms by (auto simp: key_class_def fold_case_def key_ok_def)
  with False show ?thesis by (auto simp: strCompare_def)
qed

definition ekey :: "(addr \<Rightarrow> HashElem option) \<Rightarrow> addr \<Rightarrow> nat list" where
  "ekey m x = (case m x of None \<Rightarrow> [] | Some e \<Rightarrow> key_class (pKey e) (nKey e))"

definition slot :: "nat \<Rightarrow> (addr \<Rightarrow> HashElem option) \<Rightarrow> addr \<Rightarrow> nat" where
  "slot sz m x = hash_of (ekey m x) mod sz"

lemma ekey_payload: "same_payload m' m \<Longrightarrow> ekey m' x = ekey m x"
  unfolding same_payload_def ekey_def
  by (drule spec [of _ x]) (auto simp: payload_def split: option.splits)

lemma slot_payload: "same_payload m' m \<Longrightarrow> slot sz m' = slot sz m"
  by (rule ext) (simp add: slot_def ekey_payload)

text \<open>The elements of a set have usable keys, all different, and data.\<close>

definition elems_ok :: "(addr \<Rightarrow> HashElem option) \<Rightarrow> addr set \<Rightarrow> bool" where
  "elems_ok m A \<longleftrightarrow> (\<forall>x \<in> A. \<exists>e. m x = Some e \<and> key_ok (pKey e) (nKey e) \<and> data e \<noteq> 0) \<and> inj_on (ekey m) A"

lemma elems_ok_payload: "same_payload m' m \<Longrightarrow> elems_ok m A \<Longrightarrow> elems_ok m' A"
  unfolding elems_ok_def
proof (intro conjI ballI)
  fix x assume s: "same_payload m' m" and A: "(\<forall>x \<in> A. \<exists>e. m x = Some e \<and> key_ok (pKey e) (nKey e) \<and> data e \<noteq> 0) \<and> inj_on (ekey m) A" "x \<in> A"
  then obtain e where "m x = Some e" "key_ok (pKey e) (nKey e)" "data e \<noteq> 0" by blast
  with s show "\<exists>e. m' x = Some e \<and> key_ok (pKey e) (nKey e) \<and> data e \<noteq> 0"
    unfolding same_payload_def by (drule_tac x = x in spec) (auto simp: payload_def)
qed (auto simp: inj_on_def ekey_payload)

lemma elems_ok_subset: "elems_ok m A \<Longrightarrow> B \<subseteq> A \<Longrightarrow> elems_ok m B"
  unfolding elems_ok_def by (blast intro: inj_on_subset)

subsection \<open>Searching a bucket\<close>

lemma find_loop_segment:
  assumes "key_ok k n"
  shows "dll m p (ys @ vs) 0 \<Longrightarrow> elems_ok m (set ys) \<Longrightarrow>
    \<exists>a. find_loop m (hd0 (ys @ vs) 0) (length ys) k n = Some a
      \<and> (a = 0 \<and> (\<forall>x \<in> set ys. ekey m x \<noteq> key_class k n) \<or> a \<noteq> 0 \<and> a \<in> set ys \<and> ekey m a = key_class k n)"
proof (induction ys arbitrary: p)
  case (Cons y ys)
  then obtain e where e: "m y = Some e" "nxt e = hd0 (ys @ vs) 0" "y \<noteq> 0" "dll m y (ys @ vs) 0" by auto
  have k: "key_ok (pKey e) (nKey e)" using Cons.prems(2) e(1) by (auto simp: elems_ok_def)
  obtain r where r: "strCompare (pKey e) (nKey e) k n = Some r" "r = 0 \<longleftrightarrow> ekey m y = key_class k n"
    using strCompare_class [OF k assms] e(1) by (auto simp: ekey_def)
  have "elems_ok m (set ys)" using Cons.prems(2) elems_ok_subset by fastforce
  from Cons.IH [OF e(4) this] e r show ?case by (cases "r = 0") auto
qed simp

lemma findElement_spec:
  assumes d: "dll (elems H) 0 xs 0" and ok: "elems_ok (elems H) (set xs)" and k: "key_ok k n"
    and ht: "length (ht H) = htsize H" "htsize H \<noteq> 0" and bk: "buckets (slot (htsize H) (elems H)) (ht H) xs"
  shows "\<exists>a. findElementGivenHash H k n (hash_of (key_class k n) mod htsize H) = Some a
      \<and> (a = 0 \<and> (\<forall>x \<in> set xs. ekey (elems H) x \<noteq> key_class k n)
         \<or> a \<noteq> 0 \<and> a \<in> set xs \<and> ekey (elems H) a = key_class k n)"
proof -
  let ?b = "hash_of (key_class k n) mod htsize H" and ?g = "slot (htsize H) (elems H)"
  let ?ys = "blk ?g xs ?b"
  have b: "?b < length (ht H)" using ht by simp
  then have ok': "bucket_ok ?g xs ?b (ht H ! ?b)" using bk by (simp add: buckets_def)
  then obtain us vs where s: "xs = us @ ?ys @ vs" by (auto simp: bucket_ok_def)
  have "elems_ok (elems H) (set ?ys)" by (rule elems_ok_subset [OF ok]) auto
  moreover have "dll (elems H) (last0 us 0) (?ys @ vs) 0" using d s by (metis dll_append)
  ultimately obtain a where a: "find_loop (elems H) (hd0 (?ys @ vs) 0) (length ?ys) k n = Some a"
    "a = 0 \<and> (\<forall>x \<in> set ?ys. ekey (elems H) x \<noteq> key_class k n) \<or> a \<noteq> 0 \<and> a \<in> set ?ys \<and> ekey (elems H) a = key_class k n"
    using find_loop_segment [OF k] by blast
  have "find_loop (elems H) (chain (ht H ! ?b)) (ht_count (ht H ! ?b)) k n = Some a"
  proof (cases "?ys")
    case Nil
    then have "ht_count (ht H ! ?b) = 0" using ok' unfolding bucket_ok_def Nil by simp
    with a(1) Nil show ?thesis by simp
  next
    case (Cons y zs)
    then have "hd0 (?ys @ vs) 0 = hd0 ?ys 0" by simp
    with a(1) ok' show ?thesis unfolding bucket_ok_def by simp
  qed
  moreover have "ekey (elems H) x = key_class k n \<Longrightarrow> ?g x = ?b" for x by (simp add: slot_def)
  ultimately show ?thesis
    using a(2) b ht by (intro exI [of _ a]) (auto simp: findElementGivenHash_def)
qed

subsection \<open>The table invariant\<close>

definition rep :: "Hash \<Rightarrow> addr list \<Rightarrow> bool" where
  "rep H xs \<longleftrightarrow> dll (elems H) 0 xs 0 \<and> first H = hd0 xs 0 \<and> distinct xs \<and> elems_ok (elems H) (set xs)
     \<and> 0 < fresh H \<and> (\<forall>x \<in> set xs. x < fresh H)
     \<and> (if htsize H = 0 then ht H = [] \<and> xs = []
        else length (ht H) = htsize H \<and> (\<exists>k. htsize H = 2 ^ k) \<and> buckets (slot (htsize H) (elems H)) (ht H) xs)"

lemma repD:
  assumes "rep H xs"
  shows "dll (elems H) 0 xs 0" "first H = hd0 xs 0" "distinct xs" "elems_ok (elems H) (set xs)" "0 < fresh H"
    "x \<in> set xs \<Longrightarrow> x < fresh H" "htsize H = 0 \<Longrightarrow> ht H = []" "htsize H = 0 \<Longrightarrow> xs = []"
    "htsize H \<noteq> 0 \<Longrightarrow> length (ht H) = htsize H" "htsize H \<noteq> 0 \<Longrightarrow> \<exists>k. htsize H = 2 ^ k"
    "htsize H \<noteq> 0 \<Longrightarrow> buckets (slot (htsize H) (elems H)) (ht H) xs"
  using assms by (auto simp: rep_def split: if_splits)

lemma and_pow2: "(n :: nat) AND (2 ^ k - 1) = n mod 2 ^ k"
  using take_bit_eq_mask [of k n] take_bit_eq_mod [of k n] by (simp add: mask_eq_exp_minus_1)

lemma rehash_loop_post:
  assumes sz: "sz = 2 ^ k" and len: "length (ht H) = sz"
    and xs: "dll (elems H) 0 xs 0" "first H = hd0 xs 0" "distinct (xs @ ys)" "buckets (slot sz (elems H)) (ht H) xs"
    and ys: "dll (elems H) p ys 0" and ok: "elems_ok (elems H) (set ys)"
  shows "\<exists>m' hts zs. rehash_loop H (hd0 ys 0) sz = Some (H\<lparr>elems := m', first := hd0 zs 0, ht := hts\<rparr>)
     \<and> dll m' 0 zs 0 \<and> distinct zs \<and> set zs = set xs \<union> set ys \<and> same_payload m' (elems H)
     \<and> buckets (slot sz m') hts zs \<and> length hts = sz"
  using len xs ys ok
proof (induction ys arbitrary: H xs p)
  case Nil
  then show ?case
    by (intro exI [of _ "elems H"] exI [of _ "ht H"] exI [of _ xs]) (simp add: rehash_loop.simps)
next
  case (Cons y ys)
  then obtain e where e: "elems H y = Some e" "nxt e = hd0 ys 0" "y \<noteq> 0" "dll (elems H) y ys 0" by auto
  have key: "key_ok (pKey e) (nKey e)" using Cons.prems(7) e(1) by (auto simp: elems_ok_def)
  let ?h = "hash_of (key_class (pKey e) (nKey e))" and ?g = "slot sz (elems H)"
  have h: "strHash (pKey e) (nKey e) = Some ?h" by (rule strHash_class [OF key])
  have b: "?h AND (sz - 1) < length (ht H)" "?g y = ?h AND (sz - 1)"
    unfolding sz and_pow2 using Cons.prems(1) e(1) sz by (simp_all add: slot_def ekey_def)
  obtain H1 xs1 where H1: "insertElement H (?h AND (sz - 1)) y = Some H1" "insert_post H xs ?g y H1 xs1"
    using insertElement_post [OF Cons.prems(2,3) _ _ e(3,1) Cons.prems(5) b] Cons.prems(4) by auto
  obtain m1 hts1 where H1': "H1 = H\<lparr>elems := m1, first := hd0 xs1 0, ht := hts1\<rparr>" "dll m1 0 xs1 0" "distinct xs1"
      "set xs1 = insert y (set xs)" "same_payload m1 (elems H)" "\<forall>x. x \<notin> insert y (set xs) \<longrightarrow> m1 x = elems H x"
      "buckets ?g hts1 xs1" "length hts1 = length (ht H)"
    using H1(2) unfolding insert_post_def by blast
  have "dll m1 y ys 0"
    using e(4) H1'(6) Cons.prems(4) dll_frame [of ys m1 "elems H" y 0] by fastforce
  moreover have "elems_ok m1 (set ys)"
    by (rule elems_ok_payload [OF H1'(5) elems_ok_subset [OF Cons.prems(7)]]) auto
  moreover have "distinct (xs1 @ ys)" using Cons.prems(4) H1'(3,4) by auto
  ultimately have "\<exists>m' hts zs. rehash_loop H1 (hd0 ys 0) sz = Some (H1\<lparr>elems := m', first := hd0 zs 0, ht := hts\<rparr>)
     \<and> dll m' 0 zs 0 \<and> distinct zs \<and> set zs = set xs1 \<union> set ys \<and> same_payload m' (elems H1)
     \<and> buckets (slot sz m') hts zs \<and> length hts = sz"
    using H1' Cons.prems(1) by (intro Cons.IH [where p = y]) (simp_all add: slot_payload)
  then obtain m' hts zs where Z: "rehash_loop H1 (hd0 ys 0) sz = Some (H1\<lparr>elems := m', first := hd0 zs 0, ht := hts\<rparr>)"
     "dll m' 0 zs 0" "distinct zs" "set zs = set xs1 \<union> set ys" "same_payload m' (elems H1)"
     "buckets (slot sz m') hts zs" "length hts = sz" by blast
  have "same_payload m' (elems H)" using Z(5) H1'(1,5) by (auto intro: same_payload_trans)
  moreover have "rehash_loop H (hd0 (y # ys) 0) sz = Some (H\<lparr>elems := m', first := hd0 zs 0, ht := hts\<rparr>)"
    using e h H1(1) H1'(1) Z(1) by (subst rehash_loop.simps) simp
  ultimately show ?case using Z H1'(4)
    by (intro exI [of _ m'] exI [of _ hts] exI [of _ zs]) auto
qed

text \<open>Rehashing, whether or not its allocation succeeds, keeps the elements.\<close>

definition rehash_post :: "Hash \<Rightarrow> addr list \<Rightarrow> Hash \<Rightarrow> addr list \<Rightarrow> bool" where
  "rehash_post H xs H' xs' \<longleftrightarrow> rep H' xs' \<and> set xs' = set xs \<and> same_payload (elems H') (elems H)
     \<and> fresh H' = fresh H \<and> hcount H' = hcount H \<and> copyKey H' = copyKey H"

lemma bucket_ok_empty: "bucket_ok g [] b \<lparr>ht_count = 0, chain = 0\<rparr>"
  by (simp add: bucket_ok_def)

lemma rehash_spec:
  assumes r: "rep H xs" and sz: "sz = 2 ^ k"
  shows "\<exists>H' m' xs'. rehash H sz m = Some (H', m') \<and> rehash_post H xs H' xs'
     \<and> m' = snd (malloc_next m) \<and> htsize H' = (if fst (malloc_next m) then sz else htsize H)"
proof (cases "fst (malloc_next m)")
  case False
  then obtain m' where "malloc_next m = (False, m')" by (cases "malloc_next m") auto
  with r show ?thesis
    by (intro exI [of _ H] exI [of _ m'] exI [of _ xs]) (simp add: rehash_def rehash_post_def)
next
  case True
  then obtain m' where m: "malloc_next m = (True, m')" by (cases "malloc_next m") auto
  let ?H0 = "H\<lparr>ht := replicate sz \<lparr>ht_count = 0, chain = 0\<rparr>, htsize := sz, first := 0\<rparr>"
  have "\<exists>m' hts zs. rehash_loop ?H0 (hd0 xs 0) sz = Some (?H0\<lparr>elems := m', first := hd0 zs 0, ht := hts\<rparr>)
     \<and> dll m' 0 zs 0 \<and> distinct zs \<and> set zs = set [] \<union> set xs \<and> same_payload m' (elems ?H0)
     \<and> buckets (slot sz m') hts zs \<and> length hts = sz"
    by (rule rehash_loop_post [OF sz]) (use repD [OF r] in \<open>auto simp: buckets_def bucket_ok_empty\<close>)
  then obtain m1 hts zs where Z: "rehash_loop ?H0 (hd0 xs 0) sz = Some (?H0\<lparr>elems := m1, first := hd0 zs 0, ht := hts\<rparr>)"
     "dll m1 0 zs 0" "distinct zs" "set zs = set xs" "same_payload m1 (elems H)"
     "buckets (slot sz m1) hts zs" "length hts = sz" by auto
  let ?H' = "?H0\<lparr>elems := m1, first := hd0 zs 0, ht := hts\<rparr>"
  have "elems_ok m1 (set zs)" using elems_ok_payload [OF Z(5) repD(4) [OF r]] Z(4) by simp
  then have "rehash_post H xs ?H' zs"
    using Z repD(5,6) [OF r] sz unfolding rehash_post_def rep_def by auto
  moreover have "rehash H sz m = Some (?H', m')"
    unfolding rehash_def m using Z(1) repD(2) [OF r] by simp
  ultimately show ?thesis using m
    by (intro exI [of _ ?H'] exI [of _ m'] exI [of _ zs]) simp
qed

subsection \<open>The map a table holds\<close>

fun walk :: "(addr \<Rightarrow> HashElem option) \<Rightarrow> addr \<Rightarrow> nat \<Rightarrow> addr list" where
  "walk m a 0 = []"
| "walk m a (Suc n) = (case m a of None \<Rightarrow> [] | Some e \<Rightarrow> a # walk m (nxt e) n)"

text \<open>The elements as \<open>sqliteHashFirst\<close> and \<open>sqliteHashNext\<close> enumerate them, \<open>sqliteHashCount\<close> many.\<close>

definition hash_list :: "Hash \<Rightarrow> addr list" where
  "hash_list H = walk (elems H) (first H) (hcount H)"

definition hash_inv :: "Hash \<Rightarrow> bool" where
  "hash_inv H \<longleftrightarrow> rep H (hash_list H) \<and> hcount H = length (hash_list H)"

definition habs :: "Hash \<Rightarrow> nat list \<Rightarrow> nat option" where
  "habs H K = (case find (\<lambda>x. ekey (elems H) x = K) (hash_list H) of
     None \<Rightarrow> None | Some x \<Rightarrow> map_option data (elems H x))"

definition view :: "(addr \<Rightarrow> HashElem option) \<Rightarrow> addr set \<Rightarrow> nat list \<Rightarrow> nat \<Rightarrow> bool" where
  "view m A K d \<longleftrightarrow> (\<exists>x \<in> A. \<exists>e. m x = Some e \<and> key_class (pKey e) (nKey e) = K \<and> data e = d)"

lemma walk_dll: "dll m p xs 0 \<Longrightarrow> walk m (hd0 xs 0) (length xs) = xs"
  by (induction xs arbitrary: p) auto

lemma hash_invI: "rep H xs \<Longrightarrow> hcount H = length xs \<Longrightarrow> hash_inv H \<and> hash_list H = xs"
  using walk_dll [OF repD(1)] repD(2) by (simp add: hash_inv_def hash_list_def)

lemma view_payload: "same_payload m' m \<Longrightarrow> view m' A = view m A"
proof (intro ext)
  fix K d assume s: "same_payload m' m"
  have p: "map_option payload (m' x) = map_option payload (m x)" for x
    using s by (simp add: same_payload_def)
  have "(\<exists>e. m' x = Some e \<and> key_class (pKey e) (nKey e) = K \<and> data e = d) \<longleftrightarrow>
     (\<exists>e. m x = Some e \<and> key_class (pKey e) (nKey e) = K \<and> data e = d)" for x
    using p [of x] by (cases "m x"; cases "m' x") (auto simp: payload_def)
  then show "view m' A K d = view m A K d" by (simp add: view_def)
qed

lemma view_iff: "view m A K d \<longleftrightarrow> (\<exists>x \<in> A. ekey m x = K \<and> map_option data (m x) = Some d)"
  unfolding view_def ekey_def by (intro bex_cong refl) (auto split: option.splits)

lemma habs_view:
  assumes "rep H xs" and "hcount H = length xs"
  shows "habs H K = Some d \<longleftrightarrow> view (elems H) (set xs) K d"
proof -
  have l: "hash_list H = xs" using hash_invI [OF assms] by simp
  have ok: "elems_ok (elems H) (set xs)" by (rule repD(4) [OF assms(1)])
  show ?thesis
  proof (cases "find (\<lambda>x. ekey (elems H) x = K) xs")
    case None
    then have "\<forall>x \<in> set xs. ekey (elems H) x \<noteq> K" by (auto simp: find_None_iff)
    then have "\<not> view (elems H) (set xs) K d" by (force simp: view_def ekey_def)
    with None l show ?thesis by (simp add: habs_def)
  next
    case (Some x)
    then have x: "x \<in> set xs" "ekey (elems H) x = K" by (auto simp: find_Some_iff)
    then obtain e where e: "elems H x = Some e" using ok by (auto simp: elems_ok_def)
    have y: "y \<in> set xs \<and> ekey (elems H) y = K \<longleftrightarrow> y = x" for y
      using ok x by (auto simp: elems_ok_def dest: inj_onD)
    then have "view (elems H) (set xs) K d \<longleftrightarrow> map_option data (elems H x) = Some d"
      unfolding view_iff by metis
    with Some l e show ?thesis by (simp add: habs_def)
  qed
qed

lemma map_eq_iff: "f = g" if "\<And>k d. f k = Some d \<longleftrightarrow> g k = Some d" for f g :: "'k \<Rightarrow> 'd option"
proof (rule ext)
  fix k show "f k = g k" by (metis that not_None_eq)
qed

lemma habs_eqI:
  assumes "rep H xs" "hcount H = length xs" and "\<And>K d. f K = Some d \<longleftrightarrow> view (elems H) (set xs) K d"
  shows "habs H = f"
  by (rule map_eq_iff) (simp add: habs_view [OF assms(1,2)] assms(3))

lemma habs_data: "rep H xs \<Longrightarrow> hcount H = length xs \<Longrightarrow> habs H K = Some d \<Longrightarrow> d \<noteq> 0"
  using repD(4) [of H xs] by (fastforce simp: habs_view view_def elems_ok_def)

lemma buckets_cong: "(\<And>x. x \<in> set xs \<Longrightarrow> g x = g' x) \<Longrightarrow> buckets g hts xs = buckets g' hts xs"
proof -
  assume "\<And>x. x \<in> set xs \<Longrightarrow> g x = g' x"
  then have "blk g xs b = blk g' xs b" for b by (intro filter_cong) auto
  then show ?thesis by (simp add: buckets_def bucket_ok_def)
qed

subsection \<open>Finding and replacing\<close>

text \<open>The search with which every operation starts.\<close>

definition search_result :: "Hash \<Rightarrow> addr list \<Rightarrow> nat list \<Rightarrow> addr \<Rightarrow> bool" where
  "search_result H xs K a \<longleftrightarrow> a = 0 \<and> (\<forall>x \<in> set xs. ekey (elems H) x \<noteq> K)
     \<or> a \<noteq> 0 \<and> a \<in> set xs \<and> ekey (elems H) a = K"

lemma search_spec:
  assumes "rep H xs" and "key_ok k n" and "htsize H \<noteq> 0"
  shows "\<exists>a. findElementGivenHash H k n (hash_of (key_class k n) mod htsize H) = Some a
     \<and> search_result H xs (key_class k n) a"
  using findElement_spec [OF repD(1,4) [OF assms(1)] assms(2) repD(9) [OF assms(1,3)] assms(3) repD(11) [OF assms(1,3)]]
  unfolding search_result_def .

lemma search_habs:
  assumes r: "rep H xs" "hcount H = length xs" and s: "search_result H xs K a"
  shows "if a = 0 then habs H K = None else \<exists>e. elems H a = Some e \<and> habs H K = Some (data e)
     \<and> key_class (pKey e) (nKey e) = K"
proof (cases "a = 0")
  case True
  then have "\<not> view (elems H) (set xs) K d" for d using s by (force simp: search_result_def view_def ekey_def)
  then have "habs H K \<noteq> Some d" for d by (simp add: habs_view [OF r])
  with True show ?thesis by (cases "habs H K") auto
next
  case False
  then have a: "a \<in> set xs" "ekey (elems H) a = K" using s by (auto simp: search_result_def)
  then obtain e where e: "elems H a = Some e" using dll_dom [OF repD(1) [OF r(1)]] by blast
  with a have "view (elems H) (set xs) K (data e)" by (auto simp: view_def ekey_def)
  with False a e show ?thesis by (auto simp: habs_view [OF r] ekey_def)
qed

lemma HashFind_spec:
  assumes "hash_inv H" and "key_ok k n"
  shows "sqlite3HashFind H k n = Some (case habs H (key_class k n) of None \<Rightarrow> 0 | Some d \<Rightarrow> d)"
proof (cases "htsize H = 0")
  case True
  have r: "rep H (hash_list H)" using assms(1) by (simp add: hash_inv_def)
  then have "habs H (key_class k n) = None" using repD(8) [OF r True] by (simp add: habs_def)
  with repD(7) [OF r True] show ?thesis by (simp add: sqlite3HashFind_def sqlite3HashFindElem_def)
next
  case False
  have r: "rep H (hash_list H)" "hcount H = length (hash_list H)" using assms(1) by (simp_all add: hash_inv_def)
  obtain a where a: "findElementGivenHash H k n (hash_of (key_class k n) mod htsize H) = Some a"
     "search_result H (hash_list H) (key_class k n) a"
    using search_spec [OF r(1) assms(2) False] by blast
  have "ht H \<noteq> []" using repD(9) [OF r(1) False] False by auto
  with a(1) have "sqlite3HashFindElem H k n = Some a"
    by (simp add: sqlite3HashFindElem_def strHash_class [OF assms(2)])
  then show ?thesis
    using search_habs [OF r a(2)] by (cases "a = 0") (auto simp: sqlite3HashFind_def)
qed

lemma dll_fields:
  "m a = Some e \<Longrightarrow> nxt e' = nxt e \<Longrightarrow> prv e' = prv e \<Longrightarrow> dll (m(a \<mapsto> e')) p xs n = dll m p xs n"
  by (induction xs arbitrary: p) auto

lemma key_class_length: "key_ok k n \<Longrightarrow> length (key_class k n) = n"
  by (simp add: key_class_def fold_case_def key_ok_def)

lemma replace_rep:
  assumes r: "rep H xs" and a: "a \<in> set xs" "elems H a = Some e"
    and e': "nxt e' = nxt e" "prv e' = prv e" "key_class (pKey e') (nKey e') = key_class (pKey e) (nKey e)"
      "key_ok (pKey e') (nKey e')" "data e' \<noteq> 0"
  shows "rep (H\<lparr>elems := (elems H)(a \<mapsto> e')\<rparr>) xs"
proof -
  have k: "ekey ((elems H)(a \<mapsto> e')) = ekey (elems H)"
    by (rule ext) (simp add: ekey_def a(2) e'(3))
  then have s: "slot sz ((elems H)(a \<mapsto> e')) = slot sz (elems H)" for sz
    by (rule_tac ext) (simp add: slot_def)
  have "elems_ok ((elems H)(a \<mapsto> e')) (set xs)"
    using repD(4) [OF r] e'(4,5) unfolding elems_ok_def k by auto
  with r show ?thesis
    by (simp add: rep_def dll_fields [of "elems H" a e e', OF a(2) e'(1,2)] s)
qed

subsection \<open>Removing and adding an element\<close>

lemma HashClear_empty:
  "first H = 0 \<Longrightarrow> 0 < fresh H \<Longrightarrow>
   \<exists>H'. sqlite3HashClear H = Some H' \<and> rep H' [] \<and> hcount H' = 0 \<and> copyKey H' = copyKey H"
  by (simp add: sqlite3HashClear_def clear_loop.simps rep_def elems_ok_def)

lemma remove_rep:
  assumes r: "rep H xs" "hcount H = length xs" and a: "a \<in> set xs"
  shows "\<exists>H'. removeElementGivenHash H a (slot (htsize H) (elems H) a) = Some H' \<and> hash_inv H'
     \<and> copyKey H' = copyKey H \<and> habs H' = (habs H)(ekey (elems H) a := None)"
proof -
  let ?g = "slot (htsize H) (elems H)"
  have sz: "htsize H \<noteq> 0" using repD(8) [OF r(1)] a by (cases xs) auto
  obtain us zs where xs: "xs = us @ a # zs" using a by (metis split_list)
  note D = repD [OF r(1)]
  have "?g a < length (ht H)" using D(9) sz by (simp add: slot_def)
  from removeElement_post [OF D(1) [unfolded xs] D(2) [unfolded xs] D(3) [unfolded xs] D(11) [OF sz, unfolded xs] this refl r(2) [unfolded xs]]
  obtain H1 where H1: "removeElementGivenHash H a (?g a) = (if us @ zs = [] then sqlite3HashClear H1 else Some H1)"
    "remove_post H us zs ?g a H1" by blast
  obtain m' hts where m': "H1 = H\<lparr>elems := m', first := hd0 (us @ zs) 0, ht := hts, hcount := hcount H - 1\<rparr>"
      "dll m' 0 (us @ zs) 0" "same_payload m' ((elems H)(a := None))" "buckets ?g hts (us @ zs)" "length hts = length (ht H)"
    using H1(2) unfolding remove_post_def by blast
  have ek: "ekey m' x = ekey (elems H) x" if "x \<noteq> a" for x
    using that ekey_payload [OF m'(3), of x] by (simp add: ekey_def)
  have na: "a \<notin> set (us @ zs)" using D(3) xs by auto
  have ok: "elems_ok m' (set (us @ zs))"
  proof (rule elems_ok_payload [OF m'(3)])
    have "elems_ok (elems H) (set (us @ zs))" by (rule elems_ok_subset [OF D(4)]) (auto simp: xs)
    with na show "elems_ok ((elems H)(a := None)) (set (us @ zs))"
      unfolding elems_ok_def by (auto simp: inj_on_def ekey_def)
  qed
  have "buckets (slot (htsize H) m') hts (us @ zs)"
  proof (subst buckets_cong)
    show "slot (htsize H) m' x = ?g x" if x: "x \<in> set (us @ zs)" for x
    proof -
      have "x \<noteq> a" using x na by metis
      then show ?thesis by (simp add: slot_def ek)
    qed
  qed (rule m'(4))
  then have r1: "rep H1 (us @ zs)"
    using D m'(1,2,5) ok sz xs unfolding rep_def by auto
  have cnt: "hcount H1 = length (us @ zs)" using m'(1) r(2) xs by simp
  have v: "view m' (set (us @ zs)) K d \<longleftrightarrow> K \<noteq> ekey (elems H) a \<and> view (elems H) (set xs) K d" for K d
  proof -
    have "view m' (set (us @ zs)) K d \<longleftrightarrow> view (elems H) (set (us @ zs)) K d"
      unfolding view_payload [OF m'(3)] view_iff using na by (auto simp: ekey_def)
    moreover have "ekey (elems H) x \<noteq> ekey (elems H) a" if "x \<in> set (us @ zs)" for x
      using D(4) that na xs by (auto simp: elems_ok_def inj_on_def)
    ultimately show ?thesis unfolding view_iff by (auto simp: xs)
  qed
  have fin: "habs H' = (habs H)(ekey (elems H) a := None)" if "rep H' (us @ zs)" "hcount H' = length (us @ zs)"
      "view (elems H') (set (us @ zs)) = view m' (set (us @ zs))" for H'
    by (rule habs_eqI [OF that(1,2)]) (auto simp: that(3) v habs_view [OF r] simp del: set_append)
  show ?thesis
  proof (cases "us @ zs = []")
    case True
    then have "first H1 = 0" "0 < fresh H1" using m'(1) D(5) by (auto simp: hd0_def)
    from HashClear_empty [OF this] obtain H' where H': "sqlite3HashClear H1 = Some H'" "rep H' []" "hcount H' = 0" "copyKey H' = copyKey H1"
      by blast
    have "view (elems H') (set (us @ zs)) = view m' (set (us @ zs))" using True by (auto simp: view_def fun_eq_iff)
    then show ?thesis
      using H' H1(1) True m'(1) fin [of H'] hash_invI [OF H'(2)] by auto
  next
    case False
    then show ?thesis
      using H1(1) m'(1) r1 cnt fin [OF r1 cnt] hash_invI [OF r1 cnt] by auto
  qed
qed

text \<open>Linking a new element whose key is not in the table.\<close>

lemma link_new:
  assumes r: "rep H xs" "htsize H \<noteq> 0" and new: "new \<notin> set xs" "0 < new" "new < fresh H" "elems H new = Some e"
    and k: "key_ok (pKey e) (nKey e)" "\<forall>x \<in> set xs. ekey (elems H) x \<noteq> key_class (pKey e) (nKey e)" and d: "d \<noteq> 0"
  shows "\<exists>H4 m4 xs4. insertElement H (hash_of (key_class (pKey e) (nKey e)) mod htsize H) new = Some H4
     \<and> upd (elems H4) new (\<lambda>x. x\<lparr>data := d\<rparr>) = Some m4
     \<and> rep (H4\<lparr>elems := m4\<rparr>) xs4 \<and> length xs4 = length xs + 1 \<and> hcount H4 = hcount H \<and> copyKey H4 = copyKey H
     \<and> (\<forall>K c. view m4 (set xs4) K c \<longleftrightarrow>
          (if K = key_class (pKey e) (nKey e) then c = d else view (elems H) (set xs) K c))"
proof -
  let ?g = "slot (htsize H) (elems H)" and ?K = "key_class (pKey e) (nKey e)"
  note D = repD [OF r(1)]
  have b: "?g new = hash_of ?K mod htsize H" by (simp add: slot_def ekey_def new(4))
  have bl: "hash_of ?K mod htsize H < length (ht H)" using D(9) r(2) by simp
  obtain H4 xs4 where H4: "insertElement H (hash_of ?K mod htsize H) new = Some H4" "insert_post H xs ?g new H4 xs4"
    using insertElement_post [OF D(1-3) new(1) _ new(4) D(11) [OF r(2)] bl b] new(2) by blast
  obtain m' hts where m': "H4 = H\<lparr>elems := m', first := hd0 xs4 0, ht := hts\<rparr>" "dll m' 0 xs4 0" "distinct xs4"
      "set xs4 = insert new (set xs)" "same_payload m' (elems H)" "buckets ?g hts xs4" "length hts = length (ht H)"
    using H4(2) unfolding insert_post_def by blast
  have "map_option payload (m' new) = map_option payload (elems H new)" using m'(5) by (simp add: same_payload_def)
  then obtain e' where e': "m' new = Some e'" "payload e' = payload e" using new(4) by (cases "m' new") auto
  let ?m4 = "m'(new \<mapsto> e'\<lparr>data := d\<rparr>)"
  have ek: "ekey ?m4 x = ekey (elems H) x" for x
    using ekey_payload [OF m'(5), of x] e' new(4) by (auto simp: ekey_def payload_def)
  then have sl: "slot sz ?m4 = slot sz (elems H)" for sz by (rule_tac ext) (simp add: slot_def)
  have ok: "elems_ok ?m4 (set xs4)"
  proof -
    have "elems_ok m' (set xs)" by (rule elems_ok_payload [OF m'(5) D(4)])
    moreover have "inj_on (ekey ?m4) (set xs4)"
      using D(4) k(2) new(1) unfolding m'(4) elems_ok_def ek by (auto simp: inj_on_def ekey_def new(4))
    ultimately show ?thesis
      using e' k(1) d unfolding elems_ok_def m'(4) by (auto simp: payload_def)
  qed
  have "dll ?m4 0 xs4 0" using m'(2) e'(1) by (simp add: dll_fields)
  then have "rep (H4\<lparr>elems := ?m4\<rparr>) xs4"
    using m'(1,3,4,6,7) ok D r(2) new(3) sl unfolding rep_def by auto
  moreover have "length xs4 = length xs + 1"
    using distinct_card [OF m'(3)] distinct_card [OF D(3)] new(1) unfolding m'(4) by simp
  moreover have "view ?m4 (set xs4) K c \<longleftrightarrow> (if K = ?K then c = d else view (elems H) (set xs) K c)" for K c
  proof -
    have dm: "map_option data (m' x) = map_option data (elems H x)" for x
    proof -
      have "map_option payload (m' x) = map_option payload (elems H x)" using m'(5) by (simp add: same_payload_def)
      then show ?thesis by (cases "m' x"; cases "elems H x") (auto simp: payload_def)
    qed
    have "view ?m4 (set xs4) K c \<longleftrightarrow> (\<exists>x \<in> set xs4. ekey (elems H) x = K \<and> map_option data (?m4 x) = Some c)"
      unfolding view_iff ek ..
    also have "\<dots> \<longleftrightarrow> ekey (elems H) new = K \<and> map_option data (?m4 new) = Some c
        \<or> (\<exists>x \<in> set xs. ekey (elems H) x = K \<and> map_option data (?m4 x) = Some c)"
      unfolding m'(4) by blast
    also have "(\<exists>x \<in> set xs. ekey (elems H) x = K \<and> map_option data (?m4 x) = Some c)
        \<longleftrightarrow> view (elems H) (set xs) K c"
      unfolding view_iff
    proof (intro bex_cong refl)
      fix x assume "x \<in> set xs"
      then have "map_option data (?m4 x) = map_option data (elems H x)" using new(1) dm [of x] by auto
      then show "(ekey (elems H) x = K \<and> map_option data (?m4 x) = Some c) =
          (ekey (elems H) x = K \<and> map_option data (elems H x) = Some c)" by simp
    qed
    also have "ekey (elems H) new = K \<and> map_option data (?m4 new) = Some c \<or> view (elems H) (set xs) K c
        \<longleftrightarrow> (if K = ?K then c = d else view (elems H) (set xs) K c)"
      using k(2) new(4) by (auto simp: ekey_def view_iff)
    finally show ?thesis .
  qed
  ultimately show ?thesis using H4(1) m'(1) e'(1)
    by (intro exI [of _ H4] exI [of _ ?m4] exI [of _ xs4]) simp
qed

subsection \<open>Insertion\<close>

lemma rep_malloc:
  assumes r: "rep H xs" and new: "new = fresh H"
  shows "rep (H\<lparr>elems := (elems H)(new \<mapsto> e), fresh := new + 1, hcount := c\<rparr>) xs"
    and "view ((elems H)(new \<mapsto> e)) (set xs) = view (elems H) (set xs)"
    and "x \<in> set xs \<Longrightarrow> ekey ((elems H)(new \<mapsto> e)) x = ekey (elems H) x"
proof -
  note D = repD [OF r]
  have na: "new \<notin> set xs" using D(6) new by blast
  then show ek: "x \<in> set xs \<Longrightarrow> ekey ((elems H)(new \<mapsto> e)) x = ekey (elems H) x" for x
    by (auto simp: ekey_def)
  show "view ((elems H)(new \<mapsto> e)) (set xs) = view (elems H) (set xs)"
    using na by (auto simp: view_def fun_eq_iff intro!: bex_cong)
  have "elems_ok ((elems H)(new \<mapsto> e)) (set xs)"
    using D(4) na ek unfolding elems_ok_def by (auto simp: inj_on_def)
  moreover have "buckets (slot sz ((elems H)(new \<mapsto> e))) hts xs = buckets (slot sz (elems H)) hts xs" for sz hts
    by (rule buckets_cong) (simp add: slot_def ek)
  ultimately show "rep (H\<lparr>elems := (elems H)(new \<mapsto> e), fresh := new + 1, hcount := c\<rparr>) xs"
    using r na D(6) new unfolding rep_def by (auto simp: dll_frame_upd less_Suc_eq)
qed

text \<open>What an insertion may do: report success, or hand the data back with nothing changed.\<close>

definition stored :: "Hash \<Rightarrow> nat list \<Rightarrow> nat \<Rightarrow> oom \<Rightarrow> (nat \<times> Hash \<times> oom) option \<Rightarrow> bool" where
  "stored H K d m res \<longleftrightarrow> (\<exists>ret H' m'. res = Some (ret, H', m') \<and> hash_inv H' \<and> copyKey H' = copyKey H
     \<and> (no_oom m \<longrightarrow> no_oom m')
     \<and> (ret = 0 \<and> habs H' = (habs H)(K \<mapsto> d) \<or> ret = d \<and> habs H' = habs H \<and> \<not> no_oom m))"

lemma stored_failed: "hash_inv H \<Longrightarrow> \<not> no_oom m \<Longrightarrow> stored H K d m (Some (d, H, m'))"
  by (simp add: stored_def)

lemma no_oom_rest: "no_oom m \<Longrightarrow> fst (malloc_next m) \<and> no_oom (snd (malloc_next m))"
  by (cases m) auto

lemma no_oom_next: "no_oom m \<Longrightarrow> malloc_next m = (b, m') \<Longrightarrow> b" "no_oom m \<Longrightarrow> malloc_next m = (b, m') \<Longrightarrow> no_oom m'"
  using malloc_next_no_oom by blast+

text \<open>The end of an insertion: a table with a bucket for the new element.\<close>

lemma insert_finish:
  assumes r: "rep H xs" "hcount H = length xs" and H1: "rep H1 xs1" "htsize H1 \<noteq> 0" "set xs1 = set xs"
      "same_payload (elems H1) ((elems H)(new \<mapsto> e))" "fresh H1 = new + 1" "hcount H1 = hcount H + 1" "copyKey H1 = copyKey H"
    and new: "new = fresh H" and e: "key_class (pKey e) (nKey e) = K" "key_ok (pKey e) (nKey e)" and d: "d \<noteq> 0"
    and K: "habs H K = None" and oom: "no_oom m \<longrightarrow> no_oom m'"
  shows "stored H K d m (do { H4 \<leftarrow> insertElement H1 (hash_of K mod htsize H1) new;
           m4 \<leftarrow> upd (elems H4) new (\<lambda>x. x\<lparr>data := d\<rparr>); Some (0, H4\<lparr>elems := m4\<rparr>, m') })"
proof -
  have na: "new \<notin> set xs" using repD(6) [OF r(1)] new by blast
  have "map_option payload (elems H1 new) = Some (payload e)" using H1(4) by (simp add: same_payload_def)
  then obtain e1 where e1: "elems H1 new = Some e1" "payload e1 = payload e" by auto
  then have e1': "key_class (pKey e1) (nKey e1) = K" "key_ok (pKey e1) (nKey e1)" using e by (auto simp: payload_def)
  have v: "view (elems H1) (set xs1) = view (elems H) (set xs)"
    using view_payload [OF H1(4), of "set xs"] rep_malloc(2) [OF r(1) new, of e] H1(3) by simp
  have nk: "\<forall>x \<in> set xs1. ekey (elems H1) x \<noteq> K"
  proof
    fix x assume x: "x \<in> set xs1"
    then obtain ex where "elems H1 x = Some ex" using dll_dom [OF repD(1) [OF H1(1)]] by blast
    then have "ekey (elems H1) x = K \<Longrightarrow> view (elems H1) (set xs1) K (data ex)"
      using x by (auto simp: view_iff)
    then show "ekey (elems H1) x \<noteq> K" using K unfolding v by (auto simp: habs_view [OF r, symmetric])
  qed
  have "0 < new" using repD(5) [OF r(1)] new by simp
  from link_new [OF H1(1,2) _ this _ e1(1) e1'(2) _ d] e1'(1) nk na H1(3,5)
  obtain H4 m4 xs4 where H4: "insertElement H1 (hash_of K mod htsize H1) new = Some H4"
     "upd (elems H4) new (\<lambda>x. x\<lparr>data := d\<rparr>) = Some m4"
     "rep (H4\<lparr>elems := m4\<rparr>) xs4" "length xs4 = length xs1 + 1" "hcount H4 = hcount H1" "copyKey H4 = copyKey H1"
     "\<forall>K' c. view m4 (set xs4) K' c \<longleftrightarrow> (if K' = K then c = d else view (elems H1) (set xs1) K' c)"
    by auto
  have len: "length xs1 = length xs"
    using distinct_card [OF repD(3) [OF H1(1)]] distinct_card [OF repD(3) [OF r(1)]] H1(3) by simp
  then have cnt: "hcount (H4\<lparr>elems := m4\<rparr>) = length xs4" using H4(4,5) H1(6) r(2) by simp
  have "habs (H4\<lparr>elems := m4\<rparr>) = (habs H)(K \<mapsto> d)"
    by (rule habs_eqI [OF H4(3) cnt]) (auto simp: H4(7) v habs_view [OF r])
  with H4 hash_invI [OF H4(3) cnt] H1(7) oom show ?thesis by (auto simp: stored_def)
qed

lemma insert_new_stored:
  assumes inv: "hash_inv H" and k: "key_ok k n" and d: "d \<noteq> 0" and K: "habs H (key_class k n) = None"
  shows "stored H (key_class k n) d m (insert_new H (hash_of (key_class k n)) k n d m)"
proof -
  let ?xs = "hash_list H" and ?K = "key_class k n"
  have r: "rep H ?xs" "hcount H = length ?xs" using inv by (simp_all add: hash_inv_def)
  obtain b1 m1 where m1: "malloc_next m = (b1, m1)" by (cases "malloc_next m") auto
  obtain b2 m2 where m2: "(if copyKey H then (if n = 0 then (False, m1) else malloc_next m1) else (True, m1)) = (b2, m2)"
    by (cases "(if copyKey H then (if n = 0 then (False, m1) else malloc_next m1) else (True, m1))")
  have n: "1 \<le> n" "n \<le> length k" using k by (auto simp: key_ok_def)
  have om1: "no_oom m \<longrightarrow> b1 \<and> no_oom m1" using no_oom_next m1 by blast
  have om2: "no_oom m \<longrightarrow> b2 \<and> no_oom m2" using om1 no_oom_next [of m1 b2 m2] m2 n by (auto split: if_splits)
  show ?thesis
  proof (cases "b1 \<and> b2")
    case False
    then show ?thesis
      unfolding insert_new_def m1 m2 prod.case
      using om1 om2 inv by (auto simp: stored_failed m2)
  next
    case True
    let ?new = "fresh H" and ?key = "if copyKey H then take n k else k"
    let ?e = "\<lparr>nxt = 0, prv = 0, data = 0, pKey = ?key, nKey = n\<rparr>"
    let ?H1 = "H\<lparr>elems := (elems H)(?new \<mapsto> ?e), fresh := ?new + 1, hcount := hcount H + 1\<rparr>"
    have e: "key_class (pKey ?e) (nKey ?e) = ?K" "key_ok (pKey ?e) (nKey ?e)"
      using k by (auto simp: key_class_def key_ok_def)
    have r1: "rep ?H1 ?xs" by (rule rep_malloc(1) [OF r(1) refl])
    define fin where "fin = (\<lambda>(H3 :: Hash, m). do { H4 \<leftarrow> insertElement H3 (hash_of ?K mod htsize H3) ?new;
        m4 \<leftarrow> upd (elems H4) ?new (\<lambda>x. x\<lparr>data := d\<rparr>); Some (0 :: nat, H4\<lparr>elems := m4\<rparr>, m :: oom) })"
    have def_new: "insert_new H (hash_of ?K) k n d m = do {
        (H2, m) \<leftarrow> (if htsize ?H1 = 0 then rehash ?H1 16 m2 else Some (?H1, m2));
        if htsize H2 = 0 then Some (d, H2\<lparr>hcount := 0, elems := (elems H2)(?new := None)\<rparr>, m)
        else do {
          (H3, m) \<leftarrow> (if hcount H2 > htsize H2 then rehash H2 (htsize H2 * 2) m else Some (H2, m));
          fin (H3, m) } }"
      unfolding insert_new_def m1 prod.case m2 fin_def using True by (simp add: Let_def)
    obtain H2 m3 xs2 where H2: "(if htsize ?H1 = 0 then rehash ?H1 16 m2 else Some (?H1, m2)) = Some (H2, m3)"
        "rehash_post ?H1 ?xs H2 xs2" "no_oom m \<longrightarrow> htsize H2 \<noteq> 0 \<and> no_oom m3"
    proof (cases "htsize H = 0")
      case True
      obtain H2 m3 xs2 where "rehash ?H1 16 m2 = Some (H2, m3)" "rehash_post ?H1 ?xs H2 xs2"
         "m3 = snd (malloc_next m2)" "htsize H2 = (if fst (malloc_next m2) then 16 else htsize ?H1)"
        using rehash_spec [OF r1, of 16 4 m2] by auto
      moreover have "no_oom m \<longrightarrow> fst (malloc_next m2) \<and> no_oom (snd (malloc_next m2))"
        using om2 no_oom_rest by blast
      ultimately show ?thesis using True by (intro that [of H2 m3 xs2]) simp_all
    next
      case False
      with r1 om2 show ?thesis by (intro that [of ?H1 m2 ?xs]) (auto simp: rehash_post_def)
    qed
    show ?thesis
    proof (cases "htsize H2 = 0")
      case True
      have x2: "rep H2 xs2" "set xs2 = set ?xs" using H2(2) by (auto simp: rehash_post_def)
      then have "xs2 = []" "?xs = []" using repD(8) [OF x2(1) True] by auto
      let ?H = "H2\<lparr>hcount := 0, elems := (elems H2)(?new := None)\<rparr>"
      have rr: "rep ?H []" "hcount ?H = length []"
        using x2(1) True unfolding rep_def by (auto simp: elems_ok_def)
      have "habs ?H = habs H"
        by (rule habs_eqI [OF rr]) (simp add: habs_view [OF r] \<open>?xs = []\<close> view_def)
      moreover have "copyKey ?H = copyKey H" using H2(2) by (simp add: rehash_post_def)
      moreover have "\<not> no_oom m" using H2(3) True by blast
      ultimately show ?thesis
        unfolding def_new H2(1) using True hash_invI [OF rr] by (simp add: stored_def)
    next
      case False
      obtain H3 m4 xs3 where H3: "(if hcount H2 > htsize H2 then rehash H2 (htsize H2 * 2) m3 else Some (H2, m3)) = Some (H3, m4)"
        "rehash_post H2 xs2 H3 xs3" "htsize H3 \<noteq> 0" "no_oom m \<longrightarrow> no_oom m4"
      proof (cases "hcount H2 > htsize H2")
        case True
        have r2: "rep H2 xs2" using H2(2) by (simp add: rehash_post_def)
        then obtain q where "htsize H2 * 2 = 2 ^ q" using repD(10) [OF r2 False] by (metis power_Suc2)
        from rehash_spec [OF r2 this, of m3] obtain H3 m4 xs3 where
          "rehash H2 (htsize H2 * 2) m3 = Some (H3, m4)" "rehash_post H2 xs2 H3 xs3" "m4 = snd (malloc_next m3)"
          "htsize H3 = (if fst (malloc_next m3) then htsize H2 * 2 else htsize H2)" by blast
        moreover have "no_oom m \<longrightarrow> no_oom (snd (malloc_next m3))" using H2(3) no_oom_rest by blast
        ultimately show ?thesis using True False by (intro that [of H3 m4 xs3]) simp_all
      next
        case F: False
        with False H2 show ?thesis by (intro that [of H2 m3 xs2]) (auto simp: rehash_post_def)
      qed
      have p3: "rep H3 xs3" "set xs3 = set ?xs" "same_payload (elems H3) ((elems H)(?new \<mapsto> ?e))"
        "fresh H3 = ?new + 1" "hcount H3 = hcount H + 1" "copyKey H3 = copyKey H"
        using H2(2) H3(2) by (auto simp: rehash_post_def intro: same_payload_trans)
      have "stored H ?K d m (fin (H3, m4))"
        unfolding fin_def prod.case
        by (rule insert_finish [OF r p3(1) H3(3) p3(2-6) refl e d K H3(4)])
      then show ?thesis unfolding def_new H2(1) using False H3(1) by simp
    qed
  qed
qed

lemma view_replace:
  assumes inj: "inj_on (ekey m) A" and a: "a \<in> A" "m a = Some e"
    and e': "key_class (pKey e') (nKey e') = K" "key_class (pKey e) (nKey e) = K"
  shows "view (m(a \<mapsto> e')) A K' d' \<longleftrightarrow> (if K' = K then d' = data e' else view m A K' d')"
proof -
  have ek: "ekey (m(a \<mapsto> e')) x = ekey m x" for x using a e' by (auto simp: ekey_def)
  have ka: "ekey m a = K" using a e' by (simp add: ekey_def)
  show ?thesis
  proof (cases "K' = K")
    case True
    have u: "x \<in> A \<and> ekey m x = K \<longleftrightarrow> x = a" for x using inj a ka by (auto dest: inj_onD)
    have "view (m(a \<mapsto> e')) A K' d' \<longleftrightarrow>
        (\<exists>x. (x \<in> A \<and> ekey m x = K) \<and> map_option data ((m(a \<mapsto> e')) x) = Some d')"
      unfolding view_iff ek True by blast
    then show ?thesis unfolding u using True by auto
  next
    case False
    have "view (m(a \<mapsto> e')) A K' d' \<longleftrightarrow> view m A K' d'"
      unfolding view_iff ek
    proof (intro bex_cong refl)
      fix x show "(ekey m x = K' \<and> map_option data ((m(a \<mapsto> e')) x) = Some d') =
          (ekey m x = K' \<and> map_option data (m x) = Some d')"
        using False ka by (cases "x = a") auto
    qed
    with False show ?thesis by simp
  qed
qed

text \<open>The outcome of an insertion in full: the old data is returned and the map updated (removed
  when the new data is null), or memory ran out, the key was not there and nothing changed.\<close>

definition old_data :: "Hash \<Rightarrow> nat list \<Rightarrow> nat" where
  "old_data H K = (case habs H K of None \<Rightarrow> 0 | Some d \<Rightarrow> d)"

lemma HashInsert_spec:
  assumes inv: "hash_inv H" and k: "key_ok k n"
  shows "\<exists>ret H' m'. sqlite3HashInsert H k n d m = Some (ret, H', m') \<and> hash_inv H' \<and> copyKey H' = copyKey H
     \<and> (no_oom m \<longrightarrow> no_oom m')
     \<and> (ret = old_data H (key_class k n) \<and> habs H' = (habs H)(key_class k n := if d = 0 then None else Some d)
        \<or> ret = d \<and> d \<noteq> 0 \<and> habs H (key_class k n) = None \<and> habs H' = habs H \<and> \<not> no_oom m)"
proof -
  let ?K = "key_class k n" and ?xs = "hash_list H"
  have r: "rep H ?xs" "hcount H = length ?xs" using inv by (simp_all add: hash_inv_def)
  note h = strHash_class [OF k]
  obtain a where a: "(if htsize H \<noteq> 0 then findElementGivenHash H k n (hash_of ?K mod htsize H) else Some 0) = Some a"
      "search_result H ?xs ?K a"
  proof (cases "htsize H = 0")
    case True
    then have "?xs = []" using repD(8) [OF r(1)] by simp
    with True show ?thesis by (intro that [of 0]) (simp_all add: search_result_def)
  next
    case False
    with search_spec [OF r(1) k] that show ?thesis by auto
  qed
  have H0: "sqlite3HashInsert H k n d m =
     (if a \<noteq> 0 then do {
        e \<leftarrow> elems H a;
        if d = 0 then do { H' \<leftarrow> removeElementGivenHash H a (hash_of ?K mod htsize H); Some (data e, H', m) }
        else do { m1 \<leftarrow> upd (elems H) a (\<lambda>x. x\<lparr>data := d, pKey := (if copyKey H then pKey x else k)\<rparr>);
                  Some (data e, H\<lparr>elems := m1\<rparr>, m) } }
      else if d = 0 then Some (0, H, m) else insert_new H (hash_of ?K) k n d m)"
    unfolding sqlite3HashInsert_def h bind.bind_lunit a(1) ..
  show ?thesis
  proof (cases "a = 0")
    case True
    then have K: "habs H ?K = None" using search_habs [OF r a(2)] by simp
    show ?thesis
    proof (cases "d = 0")
      case d: True
      have "(habs H)(?K := None) = habs H" using K by auto
      with True d K inv H0 show ?thesis by (auto simp: old_data_def)
    next
      case d: False
      with insert_new_stored [OF inv k d K, of m] True K H0 show ?thesis
        by (auto simp: stored_def old_data_def)
    qed
  next
    case False
    then have am: "a \<in> set ?xs" "ekey (elems H) a = ?K" using a(2) by (auto simp: search_result_def)
    obtain e where e: "elems H a = Some e" "habs H ?K = Some (data e)" "key_class (pKey e) (nKey e) = ?K"
      using search_habs [OF r a(2)] False by auto
    show ?thesis
    proof (cases "d = 0")
      case d: True
      have "slot (htsize H) (elems H) a = hash_of ?K mod htsize H" by (simp add: slot_def am(2))
      with remove_rep [OF r am(1)] obtain H' where
        "removeElementGivenHash H a (hash_of ?K mod htsize H) = Some H'" "hash_inv H'" "copyKey H' = copyKey H"
        "habs H' = (habs H)(?K := None)" unfolding am(2) by auto
      with False d e H0 show ?thesis by (auto simp: old_data_def)
    next
      case d: False
      let ?e = "e\<lparr>data := d, pKey := (if copyKey H then pKey e else k)\<rparr>"
      have ke: "key_ok (pKey e) (nKey e)" using repD(4) [OF r(1)] am(1) e(1) by (auto simp: elems_ok_def)
      have n: "nKey e = n" using key_class_length [OF ke] key_class_length [OF k] e(3) by simp
      have k': "key_class (pKey ?e) (nKey ?e) = ?K" "key_ok (pKey ?e) (nKey ?e)" using n ke k e(3) by auto
      have rr: "rep (H\<lparr>elems := (elems H)(a \<mapsto> ?e)\<rparr>) ?xs"
        by (rule replace_rep [OF r(1) am(1) e(1)]) (use k' e(3) d in auto)
      let ?H = "H\<lparr>elems := (elems H)(a \<mapsto> ?e)\<rparr>"
      have cnt: "hcount ?H = length ?xs" using r(2) by simp
      have inj: "inj_on (ekey (elems H)) (set ?xs)" using repD(4) [OF r(1)] unfolding elems_ok_def by blast
      have "habs ?H = (habs H)(?K \<mapsto> d)"
      proof (rule habs_eqI [OF rr cnt])
        fix K' d'
        show "((habs H)(?K \<mapsto> d)) K' = Some d' \<longleftrightarrow> view (elems ?H) (set ?xs) K' d'"
          using view_replace [OF inj am(1) e(1) k'(1) e(3), of K' d'] by (auto simp: habs_view [OF r])
      qed
      with False d e H0 hash_invI [OF rr cnt] show ?thesis by (auto simp: old_data_def)
    qed
  qed
qed

lemma HashInit_inv: "hash_inv (sqlite3HashInit c)" "habs (sqlite3HashInit c) = (\<lambda>K. None)"
  by (simp_all add: hash_inv_def hash_list_def sqlite3HashInit_def rep_def elems_ok_def habs_def fun_eq_iff)

subsection \<open>The interface of the schema\<close>

text \<open>
  A table from names to objects, whose operations find, replace and delete by one routine. A
  client may rely on the laws below; what it proves from them holds for every table.
\<close>

fun run_puts :: "('s \<Rightarrow> 'k \<Rightarrow> nat \<Rightarrow> oom \<Rightarrow> (nat \<times> 's \<times> oom) option) \<Rightarrow> ('k \<times> nat) list \<Rightarrow> 's \<Rightarrow> oom
    \<Rightarrow> (nat list \<times> 's \<times> oom) option" where
  "run_puts put [] s m = Some ([], s, m)"
| "run_puts put ((k, d) # ops) s m = do {
     (ret, s, m) \<leftarrow> put s k d m;
     (rets, s, m) \<leftarrow> run_puts put ops s m;
     Some (ret # rets, s, m)
   }"

definition deref :: "nat option \<Rightarrow> nat" where
  "deref v = (case v of None \<Rightarrow> 0 | Some d \<Rightarrow> d)"

definition pointer :: "nat \<Rightarrow> nat option" where
  "pointer d = (if d = 0 then None else Some d)"

fun abs_puts :: "('k \<Rightarrow> 'c) \<Rightarrow> ('k \<times> nat) list \<Rightarrow> ('c \<Rightarrow> nat option) \<Rightarrow> nat list \<times> ('c \<Rightarrow> nat option)" where
  "abs_puts cls [] f = ([], f)"
| "abs_puts cls ((k, d) # ops) f =
     (case abs_puts cls ops (f(cls k := pointer d)) of (rets, g) \<Rightarrow> (deref (f (cls k)) # rets, g))"

locale symbol_table =
  fixes inv :: "'s \<Rightarrow> bool"
    and absf :: "'s \<Rightarrow> 'c \<Rightarrow> nat option"
    and okk :: "'k \<Rightarrow> bool"
    and cls :: "'k \<Rightarrow> 'c"
    and find_op :: "'s \<Rightarrow> 'k \<Rightarrow> nat option"
    and put_op :: "'s \<Rightarrow> 'k \<Rightarrow> nat \<Rightarrow> oom \<Rightarrow> (nat \<times> 's \<times> oom) option"
  assumes find_law: "inv s \<Longrightarrow> okk k \<Longrightarrow> find_op s k = Some (deref (absf s (cls k)))"
    and put_law: "inv s \<Longrightarrow> okk k \<Longrightarrow> no_oom m \<Longrightarrow>
      \<exists>s' m'. put_op s k d m = Some (deref (absf s (cls k)), s', m') \<and> inv s' \<and> no_oom m'
        \<and> absf s' = (absf s)(cls k := pointer d)"
begin

lemma run_refines:
  "inv s \<Longrightarrow> no_oom m \<Longrightarrow> \<forall>(k, d) \<in> set ops. okk k \<Longrightarrow>
   \<exists>s' m'. run_puts put_op ops s m = Some (fst (abs_puts cls ops (absf s)), s', m') \<and> inv s' \<and> no_oom m'
     \<and> absf s' = snd (abs_puts cls ops (absf s))"
proof (induction ops arbitrary: s m)
  case (Cons op ops)
  obtain k d where op: "op = (k, d)" by (cases op)
  with put_law [OF Cons.prems(1) _ Cons.prems(2), of k d] Cons.prems(3)
  obtain s1 m1 where s1: "put_op s k d m = Some (deref (absf s (cls k)), s1, m1)" "inv s1" "no_oom m1"
    "absf s1 = (absf s)(cls k := pointer d)" by auto
  obtain rets g where g: "abs_puts cls ops (absf s1) = (rets, g)" by fastforce
  then have "abs_puts cls (op # ops) (absf s) = (deref (absf s (cls k)) # rets, g)"
    using op by (simp add: s1(4))
  moreover obtain s' m' where "run_puts put_op ops s1 m1 = Some (rets, s', m')" "inv s'" "no_oom m'" "absf s' = g"
    using Cons.IH [OF s1(2,3)] Cons.prems(3) g by auto
  ultimately show ?case using op s1(1) by simp
qed simp

lemma run_find:
  assumes "inv s" "no_oom m" "\<forall>(k, d) \<in> set ops. okk k"
  shows "\<exists>s' m'. run_puts put_op ops s m = Some (fst (abs_puts cls ops (absf s)), s', m') \<and> inv s'
     \<and> (\<forall>k. okk k \<longrightarrow> find_op s' k = Some (deref (snd (abs_puts cls ops (absf s)) (cls k))))"
  using run_refines [OF assms] find_law by metis

end

abbreviation hash_okk :: "char list \<times> nat \<Rightarrow> bool" where
  "hash_okk \<equiv> \<lambda>(k, n). key_ok k n"

abbreviation hash_cls :: "char list \<times> nat \<Rightarrow> nat list" where
  "hash_cls \<equiv> \<lambda>(k, n). key_class k n"

abbreviation hash_put :: "Hash \<Rightarrow> char list \<times> nat \<Rightarrow> nat \<Rightarrow> oom \<Rightarrow> (nat \<times> Hash \<times> oom) option" where
  "hash_put \<equiv> \<lambda>H (k, n). sqlite3HashInsert H k n"

interpretation schema: symbol_table hash_inv habs hash_okk hash_cls "\<lambda>H (k, n). sqlite3HashFind H k n" hash_put
proof unfold_locales
  fix H kn assume "hash_inv H" "hash_okk kn"
  then show "(\<lambda>(k, n). sqlite3HashFind H k n) kn = Some (deref (habs H (hash_cls kn)))"
    by (cases kn) (auto simp: HashFind_spec deref_def)
next
  fix H kn m d assume "hash_inv H" "hash_okk kn" "no_oom m"
  then show "\<exists>s' m'. hash_put H kn d m = Some (deref (habs H (hash_cls kn)), s', m') \<and> hash_inv s' \<and> no_oom m'
        \<and> habs s' = (habs H)(hash_cls kn := pointer d)"
    using HashInsert_spec [of H "fst kn" "snd kn" d m]
    by (cases kn) (auto simp: deref_def pointer_def old_data_def)
qed

subsection \<open>Properties\<close>

text \<open>
  C1: a hash table is a map. After any sequence of insertions, replacements and deletions on an
  empty table each call has returned the previous data of its key, and every lookup finds what
  the sequence left under the key, the case of letters aside, whatever the sequence of
  collisions and rehashings on the way.
\<close>
theorem hash_table_is_a_map:
  assumes "no_oom m" and "\<forall>((k, n), d) \<in> set ops. key_ok k n"
  shows "\<exists>H m'. run_puts (\<lambda>H (k, n). sqlite3HashInsert H k n) ops (sqlite3HashInit copy) m
        = Some (fst (abs_puts (\<lambda>(k, n). key_class k n) ops (\<lambda>K. None)), H, m')
     \<and> (\<forall>k n. key_ok k n \<longrightarrow> sqlite3HashFind H k n
            = Some (deref (snd (abs_puts (\<lambda>(k, n). key_class k n) ops (\<lambda>K. None)) (key_class k n))))"
proof -
  have "\<forall>(kn, d) \<in> set ops. hash_okk kn" using assms(2) by auto
  from schema.run_find [OF HashInit_inv(1) assms(1) this, of copy] show ?thesis
    unfolding HashInit_inv(2) by fastforce
qed

theorem hash_table_is_a_map_witness:
  "\<exists>H m'. run_puts (\<lambda>H (k, n). sqlite3HashInsert H k n) [((''Ab'', 2), 7), ((''aB'', 2), 8), ((''c'', 1), 9), ((''C'', 1), 0)]
        (sqlite3HashInit True) [] = Some ([0, 7, 0, 9], H, m')
     \<and> sqlite3HashFind H ''AB'' 2 = Some 8 \<and> sqlite3HashFind H ''c'' 1 = Some 0"
proof -
  let ?ops = "[((''Ab'', 2), 7), ((''aB'', 2), 8), ((''c'', 1), 9), ((''C'', 1), 0 :: nat)]"
  have "\<forall>((k, n), d) \<in> set ?ops. key_ok k n" by (simp add: key_ok_def)
  then obtain H m' where H: "run_puts (\<lambda>H (k, n). sqlite3HashInsert H k n) ?ops (sqlite3HashInit True) []
        = Some (fst (abs_puts (\<lambda>(k, n). key_class k n) ?ops (\<lambda>K. None)), H, m')"
    "\<forall>k n. key_ok k n \<longrightarrow> sqlite3HashFind H k n
            = Some (deref (snd (abs_puts (\<lambda>(k, n). key_class k n) ?ops (\<lambda>K. None)) (key_class k n)))"
    using hash_table_is_a_map [of "[]" ?ops True] by auto
  have cls: "key_class ''Ab'' 2 = [97, 98]" "key_class ''aB'' 2 = [97, 98]" "key_class ''AB'' 2 = [97, 98]"
    "key_class ''c'' (Suc 0) = [99]" "key_class ''C'' (Suc 0) = [99]"
    by (simp_all add: key_class_def fold_case_def UpperToLower_eq)
  have ok: "key_ok ''AB'' 2" "key_ok ''c'' (Suc 0)" by (simp_all add: key_ok_def)
  have "sqlite3HashFind H ''AB'' 2 = Some 8" "sqlite3HashFind H ''c'' 1 = Some 0"
    using H(2) ok by (simp_all add: cls pointer_def deref_def)
  with H(1) show ?thesis by (simp add: cls pointer_def deref_def)
qed

text \<open>
  C35: an insertion that cannot allocate the element, its key or the first bucket array hands the
  new data back and leaves the map as it was; a rehash that cannot allocate is not an error. The
  table stays well formed in every case, its links and its buckets included.
\<close>
theorem hash_insert_out_of_memory:
  assumes "hash_inv H" and "key_ok k n"
  shows "\<exists>ret H' m'. sqlite3HashInsert H k n d m = Some (ret, H', m') \<and> hash_inv H' \<and> copyKey H' = copyKey H
     \<and> (ret = old_data H (key_class k n) \<and> habs H' = (habs H)(key_class k n := if d = 0 then None else Some d)
        \<or> ret = d \<and> d \<noteq> 0 \<and> habs H (key_class k n) = None \<and> habs H' = habs H \<and> \<not> no_oom m)"
  using HashInsert_spec [OF assms, of d m] by blast

theorem hash_insert_out_of_memory_witness:
  "\<exists>ret H' m'. sqlite3HashInsert (sqlite3HashInit True) ''t1'' 2 5 [True, True, False] = Some (ret, H', m')
     \<and> hash_inv H'"
  using hash_insert_out_of_memory [OF HashInit_inv(1), of "''t1''" 2 True 5 "[True, True, False]"]
  by (auto simp: key_ok_def)

end
