(* ===== verification/Prng.thy ===== *)
theory Prng
  imports Prelude "HOL-Library.Multiset"
begin

text \<open>
  The pseudo-random number generator of random.c: RC4 over a table of 256 bytes, seeded once from
  \<open>sqlite3OsRandomness\<close>. The 256 bytes of the operating system are the parameter \<open>seed\<close> of the
  operations. The mutex is omitted: the library is built with SQLITE_THREADSAFE=0.
\<close>

record prng =
  isInit :: bool
  pi :: u8
  pj :: u8
  ps :: "u8 list"

definition prng_zero :: prng where
  "prng_zero = \<lparr>isInit = False, pi = 0, pj = 0, ps = replicate 256 0\<rparr>"

subsection \<open>Operations\<close>

text \<open>\<open>t = s[a]; s[a] = s[b]; s[b] = t;\<close>\<close>

definition exchange :: "'a list \<Rightarrow> nat \<Rightarrow> nat \<Rightarrow> 'a list option" where
  "exchange s a b = do {
     x \<leftarrow> peek s a;
     y \<leftarrow> peek s b;
     s1 \<leftarrow> poke s a y;
     poke s1 b x
   }"

text \<open>The second loop of the initialisation; \<open>n\<close> iterations are left.\<close>

fun key_schedule :: "u8 list \<Rightarrow> nat \<Rightarrow> nat \<Rightarrow> u8 \<Rightarrow> u8 list \<Rightarrow> (u8 \<times> u8 list) option" where
  "key_schedule k i 0 j s = Some (j, s)"
| "key_schedule k i (Suc n) j s = do {
     a \<leftarrow> peek s i;
     b \<leftarrow> peek k i;
     let j' = j + (a + b);
     s' \<leftarrow> exchange s (unat j') i;
     key_schedule k (i + 1) n j' s'
   }"

definition prng_init :: "u8 list \<Rightarrow> prng \<Rightarrow> prng option" where
  "prng_init seed p =
     (if isInit p then Some p
      else do {
        (j, s) \<leftarrow> key_schedule seed 0 256 0 (map of_nat [0..<256]);
        Some \<lparr>isInit = True, pi = 0, pj = j, ps = s\<rparr>
      })"

definition prng_step :: "prng \<Rightarrow> (u8 \<times> prng) option" where
  "prng_step p = do {
     let i = pi p + 1;
     t \<leftarrow> peek (ps p) (unat i);
     let j = pj p + t;
     x \<leftarrow> peek (ps p) (unat j);
     s1 \<leftarrow> poke (ps p) (unat i) x;
     s2 \<leftarrow> poke s1 (unat j) t;
     y \<leftarrow> peek s2 (unat i);
     r \<leftarrow> peek s2 (unat (t + y));
     Some (r, p\<lparr>pi := i, pj := j, ps := s2\<rparr>)
   }"

definition randomByte :: "u8 list \<Rightarrow> prng \<Rightarrow> (u8 \<times> prng) option" where
  "randomByte seed p = do { p \<leftarrow> prng_init seed p; prng_step p }"

fun sqlite3_randomness :: "u8 list \<Rightarrow> nat \<Rightarrow> prng \<Rightarrow> (u8 list \<times> prng) option" where
  "sqlite3_randomness seed 0 p = Some ([], p)"
| "sqlite3_randomness seed (Suc n) p = do {
     (b, p) \<leftarrow> randomByte seed p;
     (bs, p) \<leftarrow> sqlite3_randomness seed n p;
     Some (b # bs, p)
   }"

text \<open>The test interface: the second component is \<open>sqlite3SavedPrng\<close>.\<close>

definition sqlite3PrngSaveState :: "prng \<times> prng \<Rightarrow> prng \<times> prng" where
  "sqlite3PrngSaveState = (\<lambda>(p, saved). (p, p))"

definition sqlite3PrngRestoreState :: "prng \<times> prng \<Rightarrow> prng \<times> prng" where
  "sqlite3PrngRestoreState = (\<lambda>(p, saved). (saved, saved))"

definition sqlite3PrngResetState :: "prng \<times> prng \<Rightarrow> prng \<times> prng" where
  "sqlite3PrngResetState = (\<lambda>(p, saved). (p\<lparr>isInit := False\<rparr>, saved))"

subsection \<open>The table stays a permutation of the bytes\<close>

definition bytes :: "u8 multiset" where
  "bytes = mset (map of_nat [0..<256])"

definition prng_ok :: "prng \<Rightarrow> bool" where
  "prng_ok p \<longleftrightarrow> (isInit p \<longrightarrow> mset (ps p) = bytes)"

lemma unat_u8 [simp]: "unat (b :: u8) < 256"
  using unat_less [of b] by simp

lemma mset_bytes_length: "mset s = bytes \<Longrightarrow> length s = 256"
  using size_mset [of s] by (simp add: bytes_def)

lemma exchange_Some:
  assumes "a < length s" and "b < length s"
  shows "exchange s a b = Some (s[a := s ! b, b := s ! a])" and "mset (s[a := s ! b, b := s ! a]) = mset s"
  using assms mset_swap [of b s a] by (simp_all add: exchange_def)

lemma key_schedule_ok:
  "mset s = bytes \<Longrightarrow> length k = 256 \<Longrightarrow> i + n \<le> 256 \<Longrightarrow>
   \<exists>j' s'. key_schedule k i n j s = Some (j', s') \<and> mset s' = bytes"
proof (induction n arbitrary: i j s)
  case (Suc n)
  then have l: "length s = 256" by (simp add: mset_bytes_length)
  let ?j = "j + (s ! i + k ! i)" and ?s = "s[unat (j + (s ! i + k ! i)) := s ! i, i := s ! unat (j + (s ! i + k ! i))]"
  have "exchange s (unat ?j) i = Some ?s" "mset ?s = bytes"
    using exchange_Some [of "unat ?j" s i] l Suc.prems by simp_all
  moreover from Suc.IH [OF this(2) Suc.prems(2), of "i + 1" ?j] Suc.prems(3)
  obtain j' s' where "key_schedule k (i + 1) n ?j ?s = Some (j', s')" "mset s' = bytes" by auto
  ultimately show ?case using l Suc.prems by simp
qed simp

lemma prng_init_ok:
  assumes "prng_ok p" and "length seed = 256"
  shows "\<exists>p'. prng_init seed p = Some p' \<and> prng_ok p' \<and> isInit p' \<and> (isInit p \<longrightarrow> p' = p)"
  using assms key_schedule_ok [of "map of_nat [0..<256]" seed 0 256 0]
  by (auto simp: prng_init_def prng_ok_def bytes_def)

text \<open>One step on an initialised generator, and the step back.\<close>

definition prng_next :: "prng \<Rightarrow> prng" where
  "prng_next p = (let i = pi p + 1; t = ps p ! unat i; j = pj p + t in
     p\<lparr>pi := i, pj := j, ps := (ps p)[unat i := ps p ! unat j, unat j := t]\<rparr>)"

definition prng_prev :: "prng \<Rightarrow> prng" where
  "prng_prev p = (let i = pi p; j = pj p; t = ps p ! unat j in
     p\<lparr>pi := i - 1, pj := j - t, ps := (ps p)[unat j := ps p ! unat i, unat i := t]\<rparr>)"

lemma prng_step_ok:
  assumes "prng_ok p" and "isInit p"
  shows "\<exists>b. prng_step p = Some (b, prng_next p)" and "prng_ok (prng_next p)" and "isInit (prng_next p)"
proof -
  have l: "length (ps p) = 256" using assms by (simp add: prng_ok_def mset_bytes_length)
  then show "\<exists>b. prng_step p = Some (b, prng_next p)"
    by (simp add: prng_step_def prng_next_def Let_def)
  show "isInit (prng_next p)" using assms(2) by (simp add: prng_next_def Let_def)
  show "prng_ok (prng_next p)"
    using assms l mset_swap [of "unat (pj p + ps p ! unat (pi p + 1))" "ps p" "unat (pi p + 1)"] by (simp add: prng_ok_def prng_next_def Let_def)
qed

lemma prng_prev_next:
  assumes "length (ps p) = 256" shows "prng_prev (prng_next p) = p"
proof -
  let ?i = "unat (pi p + 1)" and ?j = "unat (pj p + ps p ! unat (pi p + 1))"
  have l: "?i < length (ps p)" "?j < length (ps p)" using assms by simp_all
  then have "(ps p)[?i := ps p ! ?j, ?j := ps p ! ?i] ! ?j = ps p ! ?i"
    "(ps p)[?i := ps p ! ?j, ?j := ps p ! ?i] ! ?i = ps p ! ?j"
    by (auto simp: nth_list_update)
  moreover have "(ps p)[?i := ps p ! ?j, ?j := ps p ! ?i, ?j := ps p ! ?j, ?i := ps p ! ?i] = ps p"
    using l by (intro nth_equalityI) (auto simp: nth_list_update)
  ultimately show ?thesis by (simp add: prng_prev_def prng_next_def Let_def)
qed

lemma randomness_ok:
  assumes "length seed = 256"
  shows "prng_ok p \<Longrightarrow> \<exists>bs p'. sqlite3_randomness seed n p = Some (bs, p') \<and> length bs = n \<and> prng_ok p'
     \<and> (isInit p \<longrightarrow> isInit p' \<and> p = (prng_prev ^^ n) p')"
proof (induction n arbitrary: p)
  case (Suc n)
  obtain p0 where p0: "prng_init seed p = Some p0" "prng_ok p0" "isInit p0" "isInit p \<longrightarrow> p0 = p"
    using prng_init_ok [OF Suc.prems assms] by blast
  note step = prng_step_ok [OF p0(2,3)]
  obtain b where b: "prng_step p0 = Some (b, prng_next p0)" using step(1) by blast
  have "prng_prev (prng_next p0) = p0"
    using prng_prev_next p0(2,3) by (simp add: prng_ok_def mset_bytes_length)
  moreover obtain bs p' where "sqlite3_randomness seed n (prng_next p0) = Some (bs, p')" "length bs = n"
      "prng_ok p'" "isInit p'" "prng_next p0 = (prng_prev ^^ n) p'"
    using Suc.IH [OF step(2)] step(3) by blast
  ultimately show ?case using p0 b by (auto simp: randomByte_def)
qed simp

subsection \<open>Properties\<close>

text \<open>
  C38: whatever the seed, the generator never leaves its tables, delivers as many bytes as asked
  for, and its table stays a permutation of the 256 byte values.
\<close>
theorem randomness_permutes:
  assumes "length seed = 256" and "prng_ok p"
  shows "\<exists>bs p'. sqlite3_randomness seed n p = Some (bs, p') \<and> length bs = n \<and> prng_ok p'"
  using randomness_ok [OF assms, of n] by blast

theorem randomness_permutes_witness:
  "\<exists>bs p'. sqlite3_randomness (replicate 256 7) 1000 prng_zero = Some (bs, p') \<and> length bs = 1000 \<and> prng_ok p'"
  by (rule randomness_permutes) (simp_all add: prng_ok_def prng_zero_def)

text \<open>
  the state of an initialised generator is never lost. Delivering bytes can be undone step
  by step, so distinct states stay distinct; and restoring a saved state makes the generator
  repeat what it delivered since.
\<close>
theorem randomness_reversible:
  assumes "length seed = 256" and "prng_ok p" and "isInit p"
  shows "\<exists>bs p'. sqlite3_randomness seed n p = Some (bs, p') \<and> (prng_prev ^^ n) p' = p
     \<and> (\<forall>saved. sqlite3_randomness seed n (fst (sqlite3PrngRestoreState (p', snd (sqlite3PrngSaveState (p, saved)))))
          = Some (bs, p'))"
proof -
  obtain bs p' where "sqlite3_randomness seed n p = Some (bs, p')" "p = (prng_prev ^^ n) p'"
    using randomness_ok [OF assms(1,2), of n] assms(3) by blast
  then show ?thesis by (simp add: sqlite3PrngRestoreState_def sqlite3PrngSaveState_def)
qed

theorem randomness_reversible_witness:
  "\<exists>bs p'. sqlite3_randomness (replicate 256 0) 16 \<lparr>isInit = True, pi = 3, pj = 5, ps = map of_nat [0..<256]\<rparr>
       = Some (bs, p') \<and> (prng_prev ^^ 16) p' = \<lparr>isInit = True, pi = 3, pj = 5, ps = map of_nat [0..<256]\<rparr>"
  using randomness_reversible [of "replicate 256 0" "\<lparr>isInit = True, pi = 3, pj = 5, ps = map of_nat [0..<256]\<rparr>" 16]
  unfolding prng_ok_def bytes_def by (auto simp del: map_map upt_rec_numeral)

end
