(* ===== verification/Fifo.thy ===== *)
theory Fifo
  imports Prelude
begin

text \<open>
  The queue of row ids of vdbefifo.c, which UPDATE and DELETE fill in one pass over a table and
  empty in a second one. Values sit in pages that are linked from the oldest to the newest; the
  pages live in a store of addresses. A new page's slots are zero here, where the code leaves
  them undefined; no slot is read before it is written.
\<close>

record FifoPage =
  nSlot :: nat
  iWrite :: nat
  iRead :: nat
  pNext :: addr
  aSlot :: "i64 list"

record Fifo =
  nEntry :: nat
  pFirst :: addr
  pLast :: addr
  pages :: "addr \<Rightarrow> FifoPage option"
  pfresh :: addr

text \<open>\<open>sizeof(FifoPage)\<close> on the 32-bit target.\<close>

definition sizeof_FifoPage :: nat where "sizeof_FifoPage = 24"
definition FIFOSIZE_FIRST :: nat where "FIFOSIZE_FIRST = (128 - sizeof_FifoPage) div 8 + 1"
definition FIFOSIZE_MAX :: nat where "FIFOSIZE_MAX = (262144 - sizeof_FifoPage) div 8 + 1"

lemmas fifo_consts [codes] = sizeof_FifoPage_def FIFOSIZE_FIRST_def FIFOSIZE_MAX_def

subsection \<open>Operations\<close>

text \<open>The new page's address, 0 when there is no memory.\<close>

definition allocateFifoPage :: "Fifo \<Rightarrow> nat \<Rightarrow> oom \<Rightarrow> addr \<times> Fifo \<times> oom" where
  "allocateFifoPage F n m =
     (let n = (if n > FIFOSIZE_MAX then FIFOSIZE_MAX else n) in
      case malloc_next m of (ok, m') \<Rightarrow>
        if ok then
          (pfresh F,
           F\<lparr>pages := (pages F)(pfresh F \<mapsto>
                \<lparr>nSlot = n, iWrite = 0, iRead = 0, pNext = 0, aSlot = replicate n 0\<rparr>),
             pfresh := pfresh F + 1\<rparr>, m')
        else (0, F, m'))"

definition sqlite3VdbeFifoInit :: Fifo where
  "sqlite3VdbeFifoInit = \<lparr>nEntry = 0, pFirst = 0, pLast = 0, pages = (\<lambda>a. None), pfresh = 1\<rparr>"

text \<open>\<open>pPage->aSlot[pPage->iWrite++] = val; pFifo->nEntry++;\<close>\<close>

definition fifo_store :: "Fifo \<Rightarrow> addr \<Rightarrow> i64 \<Rightarrow> Fifo option" where
  "fifo_store F a val = do {
     p \<leftarrow> pages F a;
     s \<leftarrow> poke (aSlot p) (iWrite p) val;
     Some (F\<lparr>pages := (pages F)(a \<mapsto> p\<lparr>aSlot := s, iWrite := iWrite p + 1\<rparr>), nEntry := nEntry F + 1\<rparr>)
   }"

definition sqlite3VdbeFifoPush :: "Fifo \<Rightarrow> i64 \<Rightarrow> oom \<Rightarrow> (rc \<times> Fifo \<times> oom) option" where
  "sqlite3VdbeFifoPush F val m =
     (if pLast F = 0 then
        (case allocateFifoPage F FIFOSIZE_FIRST m of (a, F1, m1) \<Rightarrow>
           let F2 = F1\<lparr>pLast := a, pFirst := a\<rparr> in
           if a = 0 then Some (SQLITE_NOMEM, F2, m1)
           else do { F3 \<leftarrow> fifo_store F2 a val; Some (SQLITE_OK, F3, m1) })
      else do {
        p \<leftarrow> pages F (pLast F);
        if iWrite p \<ge> nSlot p then
          (case allocateFifoPage F (nEntry F) m of (a, F1, m1) \<Rightarrow> do {
             s \<leftarrow> upd (pages F1) (pLast F) (\<lambda>p. p\<lparr>pNext := a\<rparr>);
             if a = 0 then Some (SQLITE_NOMEM, F1\<lparr>pages := s\<rparr>, m1)
             else do { F3 \<leftarrow> fifo_store (F1\<lparr>pages := s, pLast := a\<rparr>) a val; Some (SQLITE_OK, F3, m1) }
           })
        else do { F3 \<leftarrow> fifo_store F (pLast F) val; Some (SQLITE_OK, F3, m) }
      })"

definition sqlite3VdbeFifoPop :: "Fifo \<Rightarrow> (rc \<times> i64 option \<times> Fifo) option" where
  "sqlite3VdbeFifoPop F =
     (if nEntry F = 0 then Some (SQLITE_DONE, None, F)
      else do {
        p \<leftarrow> pages F (pFirst F);
        val \<leftarrow> peek (aSlot p) (iRead p);
        let p1 = p\<lparr>iRead := iRead p + 1\<rparr>;
        let F1 = F\<lparr>nEntry := nEntry F - 1, pages := (pages F)(pFirst F \<mapsto> p1)\<rparr>;
        if iRead p1 \<ge> iWrite p1 then
          (let F2 = F1\<lparr>pFirst := pNext p1, pages := (pages F1)(pFirst F := None)\<rparr> in
           Some (SQLITE_OK, Some val, if nEntry F2 = 0 then F2\<lparr>pLast := 0\<rparr> else F2))
        else Some (SQLITE_OK, Some val, F1)
      })"

text \<open>The loop of Clear follows the links from page to page and frees them.\<close>

partial_function (option) fifo_free :: "(addr \<Rightarrow> FifoPage option) \<Rightarrow> addr \<Rightarrow> (addr \<Rightarrow> FifoPage option) option" where
  "fifo_free s a =
     (if a = 0 then Some s
      else (case s a of None \<Rightarrow> None | Some p \<Rightarrow> fifo_free (s(a := None)) (pNext p)))"

definition sqlite3VdbeFifoClear :: "Fifo \<Rightarrow> Fifo option" where
  "sqlite3VdbeFifoClear F = do {
     s \<leftarrow> fifo_free (pages F) (pFirst F);
     Some (sqlite3VdbeFifoInit\<lparr>pages := s, pfresh := pfresh F\<rparr>)
   }"

subsection \<open>The list of pages\<close>

fun pchain :: "(addr \<Rightarrow> FifoPage option) \<Rightarrow> addr list \<Rightarrow> addr \<Rightarrow> bool" where
  "pchain s [] n = True"
| "pchain s (a # as) n = (a \<noteq> 0 \<and> (\<exists>p. s a = Some p \<and> pNext p = hd0 as n) \<and> pchain s as n)"

lemma pchain_append: "pchain s (as @ bs) n \<longleftrightarrow> pchain s as (hd0 bs n) \<and> pchain s bs n"
  by (induction as) (auto simp: hd0_append)

definition page_ok :: "FifoPage \<Rightarrow> bool" where
  "page_ok p \<longleftrightarrow> iRead p < iWrite p \<and> iWrite p \<le> nSlot p \<and> nSlot p = length (aSlot p)"

definition page_data :: "FifoPage \<Rightarrow> i64 list" where
  "page_data p = take (iWrite p - iRead p) (drop (iRead p) (aSlot p))"

definition fifo_data :: "(addr \<Rightarrow> FifoPage option) \<Rightarrow> addr list \<Rightarrow> i64 list" where
  "fifo_data s as = concat (map (\<lambda>a. page_data (the (s a))) as)"

definition fifo_rep :: "Fifo \<Rightarrow> addr list \<Rightarrow> bool" where
  "fifo_rep F as \<longleftrightarrow> pchain (pages F) as 0 \<and> distinct as \<and> pFirst F = hd0 as 0 \<and> pLast F = last0 as 0
     \<and> (\<forall>a \<in> set as. a < pfresh F \<and> (\<exists>p. pages F a = Some p \<and> page_ok p)) \<and> 0 < pfresh F
     \<and> nEntry F = length (fifo_data (pages F) as)"

lemma pchain_frame: "(\<And>a. a \<in> set as \<Longrightarrow> s' a = s a) \<Longrightarrow> pchain s' as n = pchain s as n"
  by (induction as) auto

lemma fifo_data_frame: "(\<And>a. a \<in> set as \<Longrightarrow> s' a = s a) \<Longrightarrow> fifo_data s' as = fifo_data s as"
  by (induction as) (auto simp: fifo_data_def)

lemma fifo_data_simps [simp]:
  "fifo_data s [] = []" "fifo_data s (a # as) = page_data (the (s a)) @ fifo_data s as"
  "fifo_data s (as @ bs) = fifo_data s as @ fifo_data s bs"
  by (simp_all add: fifo_data_def)

lemma frame_upd [simp]:
  "a \<notin> set as \<Longrightarrow> pchain (s(a := v)) as n = pchain s as n"
  "a \<notin> set as \<Longrightarrow> fifo_data (s(a := v)) as = fifo_data s as"
  by (rule pchain_frame, auto) (rule fifo_data_frame, auto)

lemma page_data_ne: "page_ok p \<Longrightarrow> page_data p \<noteq> []"
  by (auto simp: page_ok_def page_data_def)

lemma rep_last:
  assumes "fifo_rep F as" and "as \<noteq> []"
  obtains bs a p where "as = bs @ [a]" "pLast F = a" "a \<noteq> 0" "pages F a = Some p" "page_ok p" "pNext p = 0"
    "pchain (pages F) bs a" "a < pfresh F" "a \<notin> set bs"
proof -
  obtain bs a where "as = bs @ [a]" using assms(2) by (cases as rule: rev_cases) auto
  with assms(1) that show ?thesis by (auto simp: fifo_rep_def pchain_append)
qed

lemma rep_pLast_0: "fifo_rep F as \<Longrightarrow> pLast F = 0 \<longleftrightarrow> as = []"
  by (metis rep_last fifo_rep_def hd0_simps(3))

text \<open>Storing a value on the last page, which has room.\<close>

lemma store_last:
  assumes ch: "pchain (pages F) bs a" and d: "distinct (bs @ [a])" and fst: "pFirst F = hd0 (bs @ [a]) 0"
    and la: "pLast F = a" and bs: "\<forall>b \<in> set bs. b < pfresh F \<and> (\<exists>p. pages F b = Some p \<and> page_ok p)"
    and a: "a \<noteq> 0" "a < pfresh F" "pages F a = Some p" "pNext p = 0"
    and room: "iRead p \<le> iWrite p" "iWrite p < nSlot p" "nSlot p = length (aSlot p)"
    and n: "nEntry F = length (fifo_data (pages F) (bs @ [a]))"
  shows "\<exists>F'. fifo_store F a v = Some F' \<and> fifo_rep F' (bs @ [a])
     \<and> fifo_data (pages F') (bs @ [a]) = fifo_data (pages F) (bs @ [a]) @ [v]"
proof -
  let ?p = "p\<lparr>aSlot := (aSlot p)[iWrite p := v], iWrite := iWrite p + 1\<rparr>"
  let ?s = "(pages F)(a \<mapsto> ?p)"
  have ok: "page_ok ?p" using room by (simp add: page_ok_def)
  have data: "page_data ?p = page_data p @ [v]"
    using room by (simp add: page_data_def Suc_diff_le take_Suc_conv_app_nth drop_update_swap)
  have "pchain ?s (bs @ [a]) 0"
    using ch d a by (auto simp: pchain_append)
  moreover have dat: "fifo_data ?s (bs @ [a]) = fifo_data (pages F) (bs @ [a]) @ [v]"
    using d a(3) data by simp
  moreover have "\<forall>b \<in> set (bs @ [a]). b < pfresh F \<and> (\<exists>p. ?s b = Some p \<and> page_ok p)"
    using bs a(2) ok by auto
  ultimately have "fifo_rep (F\<lparr>pages := ?s, nEntry := nEntry F + 1\<rparr>) (bs @ [a])"
    using d fst la n a(2) unfolding fifo_rep_def by auto
  then show ?thesis using room a(3) dat by (auto simp: fifo_store_def)
qed

definition pushed :: "Fifo \<Rightarrow> i64 list \<Rightarrow> i64 \<Rightarrow> oom \<Rightarrow> (rc \<times> Fifo \<times> oom) option \<Rightarrow> bool" where
  "pushed F q v m r \<longleftrightarrow> (\<exists>rc F' m' as'. r = Some (rc, F', m') \<and> fifo_rep F' as'
     \<and> (no_oom m \<longrightarrow> rc = SQLITE_OK \<and> no_oom m')
     \<and> (rc = SQLITE_OK \<and> fifo_data (pages F') as' = q @ [v]
        \<or> rc = SQLITE_NOMEM \<and> fifo_data (pages F') as' = q))"

lemma pushedI:
  "r = Some (SQLITE_OK, F', m') \<Longrightarrow> fifo_rep F' as' \<Longrightarrow> fifo_data (pages F') as' = q @ [v] \<Longrightarrow>
   (no_oom m \<longrightarrow> no_oom m') \<Longrightarrow> pushed F q v m r"
  unfolding pushed_def by blast

lemma push_empty:
  assumes "fifo_rep F []" shows "pushed F [] v m (sqlite3VdbeFifoPush F v m)"
proof -
  have F: "pLast F = 0" "pFirst F = 0" "nEntry F = 0" "0 < pfresh F"
    using assms by (simp_all add: fifo_rep_def)
  obtain ok m' where m: "malloc_next m = (ok, m')" by (cases "malloc_next m")
  show ?thesis
  proof (cases ok)
    case False
    then have "\<not> no_oom m" using m malloc_next_no_oom by blast
    then show ?thesis using False m F assms
      by (auto simp: pushed_def sqlite3VdbeFifoPush_def allocateFifoPage_def Let_def fifo_rep_def
          intro!: exI [of _ "[]"])
  next
    case True
    let ?a = "pfresh F"
    let ?p = "\<lparr>nSlot = FIFOSIZE_FIRST, iWrite = 0, iRead = 0, pNext = 0, aSlot = replicate FIFOSIZE_FIRST 0\<rparr>"
    let ?F = "F\<lparr>pages := (pages F)(?a \<mapsto> ?p), pfresh := ?a + 1, pLast := ?a, pFirst := ?a\<rparr>"
    have "\<exists>F'. fifo_store ?F ?a v = Some F' \<and> fifo_rep F' ([] @ [?a])
     \<and> fifo_data (pages F') ([] @ [?a]) = fifo_data (pages ?F) ([] @ [?a]) @ [v]"
      by (rule store_last [where p = ?p]) (use F in \<open>simp_all add: codes page_data_def\<close>)
    then obtain F' where F': "fifo_store ?F ?a v = Some F'" "fifo_rep F' [?a]" "fifo_data (pages F') [?a] = [] @ [v]"
      by (auto simp: page_data_def)
    have "sqlite3VdbeFifoPush F v m = Some (SQLITE_OK, F', m')"
      using True m F F'(1) by (simp add: sqlite3VdbeFifoPush_def allocateFifoPage_def Let_def codes)
    from pushedI [OF this F'(2,3)] show ?thesis using m malloc_next_no_oom by blast
  qed
qed

lemma allocate_page:
  "malloc_next m = (True, m') \<Longrightarrow> allocateFifoPage F n m =
     (pfresh F, F\<lparr>pages := (pages F)(pfresh F \<mapsto> \<lparr>nSlot = min n FIFOSIZE_MAX, iWrite = 0, iRead = 0,
        pNext = 0, aSlot = replicate (min n FIFOSIZE_MAX) 0\<rparr>), pfresh := pfresh F + 1\<rparr>, m')"
  by (simp add: allocateFifoPage_def min_def)

lemma push_nonempty:
  assumes r: "fifo_rep F as" and ne: "as \<noteq> []"
  shows "pushed F (fifo_data (pages F) as) v m (sqlite3VdbeFifoPush F v m)"
proof -
  obtain bs a p where A: "as = bs @ [a]" "pLast F = a" "a \<noteq> 0" "pages F a = Some p" "page_ok p" "pNext p = 0"
    "pchain (pages F) bs a" "a < pfresh F" "a \<notin> set bs" using rep_last [OF r ne] by metis
  have R: "distinct as" "pFirst F = hd0 as 0" "\<forall>a \<in> set as. a < pfresh F \<and> (\<exists>p. pages F a = Some p \<and> page_ok p)"
      "0 < pfresh F" "nEntry F = length (fifo_data (pages F) as)"
    using r by (simp_all add: fifo_rep_def)
  have room: "iRead p \<le> iWrite p" "nSlot p = length (aSlot p)" using A(5) by (auto simp: page_ok_def)
  show ?thesis
  proof (cases "iWrite p \<ge> nSlot p")
    case False
    obtain F' where "fifo_store F a v = Some F'" "fifo_rep F' as" "fifo_data (pages F') as = fifo_data (pages F) as @ [v]"
      using store_last [OF A(7) _ _ A(2) _ A(3,8,4,6) room(1) _ room(2)] False R A(1) by auto
    then show ?thesis using False A by (auto simp: pushed_def sqlite3VdbeFifoPush_def)
  next
    case True
    obtain ok m' where m: "malloc_next m = (ok, m')" by (cases "malloc_next m")
    show ?thesis
    proof (cases ok)
      case False
      have "(pages F)(a \<mapsto> p\<lparr>pNext := 0\<rparr>) = pages F" using A(4,6) by auto
      moreover have "\<not> no_oom m" using False m malloc_next_no_oom by blast
      ultimately show ?thesis using False m True A r
        by (auto simp: pushed_def sqlite3VdbeFifoPush_def allocateFifoPage_def Let_def intro!: exI [of _ as])
    next
      case okT: True
      let ?b = "pfresh F" and ?n = "min (nEntry F) FIFOSIZE_MAX"
      let ?q = "\<lparr>nSlot = ?n, iWrite = 0, iRead = 0, pNext = 0, aSlot = replicate ?n 0\<rparr>"
      let ?s = "(pages F)(?b \<mapsto> ?q, a \<mapsto> p\<lparr>pNext := ?b\<rparr>)"
      let ?F = "F\<lparr>pfresh := ?b + 1, pages := ?s, pLast := ?b\<rparr>"
      have b: "?b \<notin> set as" "?b \<noteq> a" using R(3) A(1,8) by auto
      have "fifo_data (pages F) as \<noteq> []" using A(1,4) page_data_ne [OF A(5)] by simp
      then have n: "0 < ?n" using R(5) by (auto simp: codes)
      have dp: "page_data (p\<lparr>pNext := ?b\<rparr>) = page_data p" by (simp add: page_data_def)
      have dat: "fifo_data ?s as = fifo_data (pages F) as"
        using A(1,4,9) b dp by simp
      have new: "fifo_data ?s (as @ [?b]) = fifo_data (pages F) as"
        using dat b by (simp add: page_data_def)
      have "pchain ?s bs a" using A(1,7,9) b by simp
      then have ch: "pchain ?s as ?b" using A b by (auto simp: pchain_append)
      have "\<exists>F'. fifo_store ?F ?b v = Some F' \<and> fifo_rep F' (as @ [?b])
         \<and> fifo_data (pages F') (as @ [?b]) = fifo_data (pages ?F) (as @ [?b]) @ [v]"
        by (rule store_last [where p = ?q])
           (use ch R b n new ne A in \<open>auto simp: hd0_append page_ok_def less_Suc_eq\<close>)
      then obtain F' where F': "fifo_store ?F ?b v = Some F'" "fifo_rep F' (as @ [?b])"
          "fifo_data (pages F') (as @ [?b]) = fifo_data (pages F) as @ [v]"
        using new by auto
      have "sqlite3VdbeFifoPush F v m = Some (SQLITE_OK, F', m')"
        using okT m True A(2-4) b R(4) F'(1) by (simp add: sqlite3VdbeFifoPush_def allocate_page)
      from pushedI [OF this F'(2,3)] show ?thesis using m malloc_next_no_oom by blast
    qed
  qed
qed

lemma push_law:
  "fifo_rep F as \<Longrightarrow> pushed F (fifo_data (pages F) as) v m (sqlite3VdbeFifoPush F v m)"
  using push_empty push_nonempty by (cases "as = []") (auto simp: fifo_data_def)

text \<open>Popping takes the oldest value, and frees the page it was the last value of.\<close>

lemma page_data_step:
  "page_ok p \<Longrightarrow> page_data p = aSlot p ! iRead p # page_data (p\<lparr>iRead := iRead p + 1\<rparr>)"
  by (auto simp: page_ok_def page_data_def Cons_nth_drop_Suc [symmetric] take_Cons' Suc_diff_Suc)

lemma pop_law_empty: "fifo_rep F as \<Longrightarrow> fifo_data (pages F) as = [] \<Longrightarrow> sqlite3VdbeFifoPop F = Some (SQLITE_DONE, None, F)"
  by (simp add: fifo_rep_def sqlite3VdbeFifoPop_def)

lemma pop_law:
  assumes r: "fifo_rep F as" and d: "fifo_data (pages F) as = v # q"
  shows "\<exists>F' as'. sqlite3VdbeFifoPop F = Some (SQLITE_OK, Some v, F') \<and> fifo_rep F' as' \<and> fifo_data (pages F') as' = q"
proof -
  obtain a bs where as: "as = a # bs" using d by (cases as) auto
  obtain p where p: "pages F a = Some p" "page_ok p" "pNext p = hd0 bs 0" and a: "a \<notin> set bs" "a \<noteq> 0"
    "pchain (pages F) bs 0" "distinct bs" "pFirst F = a" "pLast F = last0 (a # bs) 0" "a < pfresh F"
    and bs: "\<forall>b \<in> set bs. b < pfresh F \<and> (\<exists>p. pages F b = Some p \<and> page_ok p)"
    using r d as by (auto simp: fifo_rep_def)
  have n: "nEntry F = Suc (length q)" using r d by (simp add: fifo_rep_def)
  have i: "iRead p < length (aSlot p)" using p(2) by (auto simp: page_ok_def)
  let ?p = "p\<lparr>iRead := Suc (iRead p)\<rparr>"
  have v: "aSlot p ! iRead p = v" and q: "q = page_data ?p @ fifo_data (pages F) bs"
    using d as p page_data_step [OF p(2)] by simp_all
  show ?thesis
  proof (cases "Suc (iRead p) \<ge> iWrite p")
    case False
    let ?F = "F\<lparr>nEntry := nEntry F - 1, pages := (pages F)(a \<mapsto> ?p)\<rparr>"
    have "fifo_rep ?F as"
      using False p a bs n q as by (auto simp: fifo_rep_def page_ok_def)
    moreover have "sqlite3VdbeFifoPop F = Some (SQLITE_OK, Some v, ?F)"
      using False p a n i v by (simp add: sqlite3VdbeFifoPop_def Let_def)
    ultimately show ?thesis using q as a p by fastforce
  next
    case True
    then have "page_data ?p = []" by (simp add: page_data_def)
    with q have q': "q = fifo_data (pages F) bs" by simp
    then have emp: "q = [] \<longleftrightarrow> bs = []"
      using bs page_data_ne by (cases bs) (auto simp: Ball_def)
    let ?F = "F\<lparr>nEntry := nEntry F - 1, pFirst := hd0 bs 0, pages := (pages F)(a := None),
                pLast := (if q = [] then 0 else pLast F)\<rparr>"
    have "fifo_rep ?F bs"
      using p a bs n q' emp by (cases bs) (auto simp: fifo_rep_def last0_Cons)
    moreover have "sqlite3VdbeFifoPop F = Some (SQLITE_OK, Some v, ?F)"
      using True p a n i v by (simp add: sqlite3VdbeFifoPop_def Let_def)
    ultimately show ?thesis using q' a by fastforce
  qed
qed

text \<open>Clearing frees every page and leaves the empty queue.\<close>

declare fifo_free.simps [simp del]

lemma fifo_free_chain: "pchain s as 0 \<Longrightarrow> distinct as \<Longrightarrow> \<exists>s'. fifo_free s (hd0 as 0) = Some s' \<and> (\<forall>a \<in> set as. s' a = None)
     \<and> (\<forall>a. a \<notin> set as \<longrightarrow> s' a = s a)"
proof (induction as arbitrary: s)
  case Nil
  then show ?case by (simp add: fifo_free.simps)
next
  case (Cons a as)
  then obtain p where p: "a \<noteq> 0" "s a = Some p" "pNext p = hd0 as 0" "pchain (s(a := None)) as 0" by auto
  from Cons.IH [OF p(4)] Cons.prems obtain s' where "fifo_free (s(a := None)) (hd0 as 0) = Some s'"
    "\<forall>b \<in> set as. s' b = None" "\<forall>b. b \<notin> set as \<longrightarrow> s' b = (s(a := None)) b" by (auto simp del: fun_upd_apply)
  moreover have "fifo_free s a = fifo_free (s(a := None)) (hd0 as 0)" using p by (simp add: fifo_free.simps [of s a])
  ultimately show ?case using p Cons.prems by auto
qed

lemma clear_law:
  assumes "fifo_rep F as"
  shows "\<exists>F'. sqlite3VdbeFifoClear F = Some F' \<and> fifo_rep F' [] \<and> (\<forall>a \<in> set as. pages F' a = None)"
proof -
  obtain s where "fifo_free (pages F) (pFirst F) = Some s" "\<forall>a \<in> set as. s a = None"
    using assms fifo_free_chain unfolding fifo_rep_def by metis
  then show ?thesis using assms by (auto simp: sqlite3VdbeFifoClear_def sqlite3VdbeFifoInit_def fifo_rep_def)
qed

subsection \<open>A queue and its histories\<close>

datatype fifo_op = FPush i64 | FPop | FClear

text \<open>What each call of a sequence returns: the result code and, for a pop, the value.\<close>

fun fifo_run :: "Fifo \<Rightarrow> fifo_op list \<Rightarrow> oom \<Rightarrow> (rc \<times> i64 option) list option" where
  "fifo_run F [] m = Some []"
| "fifo_run F (FPush v # ops) m = do {
     (rc, F', m') \<leftarrow> sqlite3VdbeFifoPush F v m; rs \<leftarrow> fifo_run F' ops m'; Some ((rc, None) # rs) }"
| "fifo_run F (FPop # ops) m = do {
     (rc, v, F') \<leftarrow> sqlite3VdbeFifoPop F; rs \<leftarrow> fifo_run F' ops m; Some ((rc, v) # rs) }"
| "fifo_run F (FClear # ops) m = do {
     F' \<leftarrow> sqlite3VdbeFifoClear F; rs \<leftarrow> fifo_run F' ops m; Some ((SQLITE_OK, None) # rs) }"

text \<open>The results a first-in first-out queue holding \<open>q\<close> may give: a push that reports no
  memory leaves it as it was.\<close>

fun queue_history :: "i64 list \<Rightarrow> fifo_op list \<Rightarrow> (rc \<times> i64 option) list \<Rightarrow> bool" where
  "queue_history q [] rs = (rs = [])"
| "queue_history q (FPush v # ops) ((rc, w) # rs) =
     (w = None \<and> (rc = SQLITE_OK \<and> queue_history (q @ [v]) ops rs \<or> rc = SQLITE_NOMEM \<and> queue_history q ops rs))"
| "queue_history [] (FPop # ops) ((rc, w) # rs) = (rc = SQLITE_DONE \<and> w = None \<and> queue_history [] ops rs)"
| "queue_history (v # q) (FPop # ops) ((rc, w) # rs) = (rc = SQLITE_OK \<and> w = Some v \<and> queue_history q ops rs)"
| "queue_history q (FClear # ops) ((rc, w) # rs) = (rc = SQLITE_OK \<and> w = None \<and> queue_history [] ops rs)"
| "queue_history q (_ # ops) [] = False"

text \<open>What the statements of the virtual machine rely on: the queue's three calls over an
  abstraction to the list of the values it holds.\<close>

locale row_queue =
  fixes holds :: "'q \<Rightarrow> i64 list \<Rightarrow> bool"
    and push :: "'q \<Rightarrow> i64 \<Rightarrow> oom \<Rightarrow> (rc \<times> 'q \<times> oom) option"
    and pop :: "'q \<Rightarrow> (rc \<times> i64 option \<times> 'q) option"
    and clear :: "'q \<Rightarrow> 'q option"
  assumes push: "holds q vs \<Longrightarrow> \<exists>rc q' m'. push q v m = Some (rc, q', m') \<and> (no_oom m \<longrightarrow> rc = SQLITE_OK \<and> no_oom m')
       \<and> (rc = SQLITE_OK \<and> holds q' (vs @ [v]) \<or> rc = SQLITE_NOMEM \<and> holds q' vs)"
    and pop_empty: "holds q [] \<Longrightarrow> pop q = Some (SQLITE_DONE, None, q)"
    and pop_value: "holds q (v # vs) \<Longrightarrow> \<exists>q'. pop q = Some (SQLITE_OK, Some v, q') \<and> holds q' vs"
    and clear: "holds q vs \<Longrightarrow> \<exists>q'. clear q = Some q' \<and> holds q' []"
begin

primrec run :: "fifo_op list \<Rightarrow> 'q \<Rightarrow> oom \<Rightarrow> (rc \<times> i64 option) list option" where
  "run [] q m = Some []"
| "run (c # ops) q m = (case c of
     FPush v \<Rightarrow> do { (rc, q', m') \<leftarrow> push q v m; rs \<leftarrow> run ops q' m'; Some ((rc, None) # rs) }
   | FPop \<Rightarrow> do { (rc, w, q') \<leftarrow> pop q; rs \<leftarrow> run ops q' m; Some ((rc, w) # rs) }
   | FClear \<Rightarrow> do { q' \<leftarrow> clear q; rs \<leftarrow> run ops q' m; Some ((SQLITE_OK, None) # rs) })"

lemma run_is_history:
  "holds q vs \<Longrightarrow> \<exists>rs. run ops q m = Some rs \<and> queue_history vs ops rs
     \<and> (no_oom m \<longrightarrow> SQLITE_NOMEM \<notin> fst ` set rs)"
proof (induction ops arbitrary: q vs m)
  case Nil
  then show ?case by simp
next
  case (Cons c ops)
  show ?case
  proof (cases c)
    case (FPush v)
    from push [OF Cons.prems, of v m] obtain rc q' m' vs' where P: "push q v m = Some (rc, q', m')"
      "no_oom m \<longrightarrow> rc = SQLITE_OK \<and> no_oom m'" "holds q' vs'"
      "rc = SQLITE_OK \<and> vs' = vs @ [v] \<or> rc = SQLITE_NOMEM \<and> vs' = vs" by auto
    from Cons.IH [OF P(3), of m'] obtain rs where "run ops q' m' = Some rs" "queue_history vs' ops rs"
      "no_oom m' \<longrightarrow> SQLITE_NOMEM \<notin> fst ` set rs" by auto
    with P FPush show ?thesis by (auto simp: codes)
  next
    case FPop
    show ?thesis
    proof (cases vs)
      case Nil
      with Cons.IH [OF Cons.prems, of m] FPop pop_empty Cons.prems show ?thesis by (auto simp: codes)
    next
      case (Cons v q1)
      with pop_value Cons.prems obtain q' where "pop q = Some (SQLITE_OK, Some v, q')" "holds q' q1" by blast
      with Cons.IH [of q' q1 m] FPop Cons show ?thesis by (auto simp: codes)
    qed
  next
    case FClear
    from clear [OF Cons.prems] obtain q' where "clear q = Some q'" "holds q' []" by blast
    with Cons.IH [of q' "[]" m] FClear show ?thesis by (auto simp: codes)
  qed
qed

end

definition fifo_holds :: "Fifo \<Rightarrow> i64 list \<Rightarrow> bool" where
  "fifo_holds F vs \<longleftrightarrow> (\<exists>as. fifo_rep F as \<and> fifo_data (pages F) as = vs)"

interpretation fifo: row_queue fifo_holds sqlite3VdbeFifoPush sqlite3VdbeFifoPop sqlite3VdbeFifoClear
proof
  show "\<exists>rc q' m'. sqlite3VdbeFifoPush q v m = Some (rc, q', m') \<and> (no_oom m \<longrightarrow> rc = SQLITE_OK \<and> no_oom m')
       \<and> (rc = SQLITE_OK \<and> fifo_holds q' (vs @ [v]) \<or> rc = SQLITE_NOMEM \<and> fifo_holds q' vs)"
    if "fifo_holds q vs" for q vs v m
    using that push_law unfolding fifo_holds_def pushed_def by metis
  show "sqlite3VdbeFifoPop q = Some (SQLITE_DONE, None, q)" if "fifo_holds q []" for q
    using that pop_law_empty unfolding fifo_holds_def by blast
  show "\<exists>q'. sqlite3VdbeFifoPop q = Some (SQLITE_OK, Some v, q') \<and> fifo_holds q' vs" if "fifo_holds q (v # vs)" for q v vs
    using that pop_law unfolding fifo_holds_def by metis
  show "\<exists>q'. sqlite3VdbeFifoClear q = Some q' \<and> fifo_holds q' []" if "fifo_holds q vs" for q vs
    using that clear_law unfolding fifo_holds_def by (metis fifo_data_simps(1))
qed

lemma fifo_run_eq: "fifo_run F ops m = fifo.run ops F m"
  by (induction ops arbitrary: F m rule: list.induct)
    (auto split: fifo_op.splits intro!: Option.bind_cong)

lemma init_holds: "fifo_holds sqlite3VdbeFifoInit []"
  by (auto simp: fifo_holds_def fifo_rep_def sqlite3VdbeFifoInit_def intro!: exI [of _ "[]"])

text \<open>C37: From an initialised Fifo every sequence of Push, Pop and Clear returns, reads only
  slots it has written and pages it has not freed, and answers as a first-in first-out queue does;
  a Push that cannot allocate a page returns SQLITE_NOMEM and keeps the queue's values, and this
  happens only when an allocation fails.\<close>

theorem fifo_is_a_queue:
  "\<exists>rs. fifo_run sqlite3VdbeFifoInit ops m = Some rs \<and> queue_history [] ops rs
     \<and> (no_oom m \<longrightarrow> SQLITE_NOMEM \<notin> fst ` set rs)"
  using fifo.run_is_history [OF init_holds] by (simp add: fifo_run_eq)

theorem fifo_is_a_queue_witness:
  "no_oom [] \<and> (\<exists>rs. fifo_run sqlite3VdbeFifoInit [FPush 7, FPush 9, FPop, FClear, FPop] [] = Some rs
     \<and> queue_history [] [FPush 7, FPush 9, FPop, FClear, FPop] rs \<and> SQLITE_NOMEM \<notin> fst ` set rs)"
  using fifo_is_a_queue [of "[FPush 7, FPush 9, FPop, FClear, FPop]" "[]"] by simp

end
