(* ===== verification/Utf.thy ===== *)
theory Utf
  imports Prelude
begin

text \<open>
  The character encodings of utf.c: the macros that write one character in UTF-8 and in the
  two byte orders of UTF-16, the macros that read one back, the conversion loops of
  sqlite3VdbeMemTranslate, and the two length functions. A pointer is the list of bytes from
  that address on, \<open>zTerm\<close> is the number of bytes before it; a reader returns the character
  and the number of bytes it has consumed.
\<close>

subsection \<open>Writing one character\<close>

definition WRITE_UTF8 :: "u32 \<Rightarrow> u8 list" where
  "WRITE_UTF8 c =
     (if c < 0x80 then [ucast (c AND 0xFF)]
      else if c < 0x800 then
        [ucast (0xC0 + (drop_bit 6 c AND 0x1F)), ucast (0x80 + (c AND 0x3F))]
      else if c < 0x10000 then
        [ucast (0xE0 + (drop_bit 12 c AND 0x0F)), ucast (0x80 + (drop_bit 6 c AND 0x3F)),
         ucast (0x80 + (c AND 0x3F))]
      else
        [ucast (0xF0 + (drop_bit 18 c AND 0x07)), ucast (0x80 + (drop_bit 12 c AND 0x3F)),
         ucast (0x80 + (drop_bit 6 c AND 0x3F)), ucast (0x80 + (c AND 0x3F))])"

definition WRITE_UTF16LE :: "u32 \<Rightarrow> u8 list" where
  "WRITE_UTF16LE c =
     (if c \<le> 0xFFFF then [ucast (c AND 0xFF), ucast (drop_bit 8 c AND 0xFF)]
      else [ucast ((drop_bit 10 c AND 0x3F) + (drop_bit 10 (c - 0x10000) AND 0xC0)),
            ucast (0xD8 + (drop_bit 18 (c - 0x10000) AND 0x03)),
            ucast (c AND 0xFF), ucast (0xDC + (drop_bit 8 c AND 0x03))])"

definition WRITE_UTF16BE :: "u32 \<Rightarrow> u8 list" where
  "WRITE_UTF16BE c =
     (if c \<le> 0xFFFF then [ucast (drop_bit 8 c AND 0xFF), ucast (c AND 0xFF)]
      else [ucast (0xD8 + (drop_bit 18 (c - 0x10000) AND 0x03)),
            ucast ((drop_bit 10 c AND 0x3F) + (drop_bit 10 (c - 0x10000) AND 0xC0)),
            ucast (0xDC + (drop_bit 8 c AND 0x03)), ucast (c AND 0xFF)])"

subsection \<open>Reading one character\<close>

definition sqlite3UtfTrans1 :: "u8 list" where
  "sqlite3UtfTrans1 =
     [0x00, 0x01, 0x02, 0x03, 0x04, 0x05, 0x06, 0x07,
      0x08, 0x09, 0x0a, 0x0b, 0x0c, 0x0d, 0x0e, 0x0f,
      0x10, 0x11, 0x12, 0x13, 0x14, 0x15, 0x16, 0x17,
      0x18, 0x19, 0x1a, 0x1b, 0x1c, 0x1d, 0x1e, 0x1f,
      0x00, 0x01, 0x02, 0x03, 0x04, 0x05, 0x06, 0x07,
      0x08, 0x09, 0x0a, 0x0b, 0x0c, 0x0d, 0x0e, 0x0f,
      0x00, 0x01, 0x02, 0x03, 0x04, 0x05, 0x06, 0x07,
      0x00, 0x01, 0x02, 0x03, 0x00, 0x01, 0x00, 0x00]"

text \<open>The loop of READ_UTF8 over the continuation bytes; \<open>k\<close> bytes are left before \<open>zTerm\<close>.\<close>

text \<open>
  The continuation bytes, any number of them, are shifted in with wrap-around: sqlite3VdbeMemTranslate
  does this in an unsigned int, sqlite3Utf8Read in a signed one, which overflows after five or six of them.
\<close>

fun utf8_cont :: "u8 list \<Rightarrow> nat \<Rightarrow> u32 \<Rightarrow> nat \<Rightarrow> (u32 \<times> nat) option" where
  "utf8_cont p 0 c n = Some (c, n)"
| "utf8_cont [] (Suc k) c n = None"
| "utf8_cont (b # p) (Suc k) c n =
     (if b AND 0xC0 = 0x80 then utf8_cont p k (push_bit 6 c + (0x3F AND ucast b)) (n + 1) else Some (c, n))"

text \<open>The macro compares \<open>c < 0x80\<close> in the type of the caller's \<open>c\<close>, which is the parameter
  \<open>small\<close>: unsigned in sqlite3VdbeMemTranslate, signed in sqlite3Utf8Read.\<close>

definition READ_UTF8 :: "(u32 \<Rightarrow> bool) \<Rightarrow> u8 list \<Rightarrow> nat \<Rightarrow> (u32 \<times> nat) option" where
  "READ_UTF8 small p k = do {
     c \<leftarrow> peek p 0;
     if c \<ge> 0xC0 then do {
       c1 \<leftarrow> peek sqlite3UtfTrans1 (unat (c - 0xC0));
       (c2, n) \<leftarrow> utf8_cont (drop 1 p) (k - 1) (ucast c1) 1;
       Some (if small c2 \<or> c2 AND 0xFFFFF800 = 0xD800 \<or> c2 AND 0xFFFFFFFE = 0xFFFE then 0xFFFD else c2, n)
     } else Some (ucast c, 1)
   }"

definition sqlite3Utf8Read :: "u8 list \<Rightarrow> nat \<Rightarrow> (u32 \<times> nat) option" where
  "sqlite3Utf8Read p k = READ_UTF8 (\<lambda>c. sint c < 0x80) p k"

text \<open>One byte of UTF-16 text as an \<open>int\<close>: sqlite3Utf16ByteLen reads it through a \<open>char\<close>
  pointer, and \<open>ext\<close> says how the compiler widens a \<open>char\<close>; everywhere else it is \<open>ucast\<close>.\<close>

definition utf16_pair :: "(u8 \<Rightarrow> u32) \<Rightarrow> u32 \<Rightarrow> u32 \<Rightarrow> u32" where
  "utf16_pair ext c c2 =
     (let c = (c2 AND 0x03FF) + push_bit 10 (c AND 0x003F) + push_bit 10 ((c AND 0x03C0) + 0x0040)
      in if c AND 0xFFFF0000 = 0 then 0xFFFD else c)"

definition READ_UTF16LE :: "(u8 \<Rightarrow> u32) \<Rightarrow> u8 list \<Rightarrow> (u32 \<times> nat) option" where
  "READ_UTF16LE ext p = do {
     b0 \<leftarrow> peek p 0; b1 \<leftarrow> peek p 1;
     let c = ext b0 + push_bit 8 (ext b1);
     if 0xD800 \<le> c \<and> c < 0xE000 then do {
       b2 \<leftarrow> peek p 2; b3 \<leftarrow> peek p 3;
       Some (utf16_pair ext c (ext b2 + push_bit 8 (ext b3)), 4)
     } else Some (c, 2)
   }"

definition READ_UTF16BE :: "(u8 \<Rightarrow> u32) \<Rightarrow> u8 list \<Rightarrow> (u32 \<times> nat) option" where
  "READ_UTF16BE ext p = do {
     b0 \<leftarrow> peek p 0; b1 \<leftarrow> peek p 1;
     let c = push_bit 8 (ext b0) + ext b1;
     if 0xD800 \<le> c \<and> c < 0xE000 then do {
       b2 \<leftarrow> peek p 2; b3 \<leftarrow> peek p 3;
       Some (utf16_pair ext c (push_bit 8 (ext b2) + ext b3), 4)
     } else Some (c, 2)
   }"

lemma READ_UTF8_pos: "READ_UTF8 small p k = Some (c, n) \<Longrightarrow> 0 < n"
proof -
  have "utf8_cont p k c n = Some (c', n') \<Longrightarrow> n \<le> n'" for p k c n c' n'
    by (induction p k c n rule: utf8_cont.induct) (auto split: if_splits)
  then show "READ_UTF8 small p k = Some (c, n) \<Longrightarrow> 0 < n"
    by (fastforce simp: READ_UTF8_def Option.bind_eq_Some_conv split: if_splits)
qed

lemma READ_UTF16_pos:
  "READ_UTF16LE ext p = Some (c, n) \<Longrightarrow> n = 2 \<or> n = 4" "READ_UTF16BE ext p = Some (c, n) \<Longrightarrow> n = 2 \<or> n = 4"
  by (auto simp: READ_UTF16LE_def READ_UTF16BE_def Let_def Option.bind_eq_Some_conv split: if_splits)

subsection \<open>The conversion loops\<close>

text \<open>\<open>while( zIn<zTerm ){ READ_UTF8(zIn, zTerm, c); WRITE(z, c); }\<close>\<close>

function utf8_to_utf16 :: "(u32 \<Rightarrow> u8 list) \<Rightarrow> u8 list \<Rightarrow> nat \<Rightarrow> u8 list option" where
  "utf8_to_utf16 W p k =
     (if k = 0 then Some [] else do {
        (c, n) \<leftarrow> READ_UTF8 (\<lambda>c. c < 0x80) p k;
        out \<leftarrow> utf8_to_utf16 W (drop n p) (k - n);
        Some (W c @ out) })"
  by pat_completeness auto
termination by (relation "measure (\<lambda>(W, p, k). k)") (auto dest!: READ_UTF8_pos)

text \<open>\<open>while( zIn<zTerm ){ READ_UTF16(zIn, c); WRITE_UTF8(z, c); }\<close>; a pair at the end may be read
  across \<open>zTerm\<close>, and then the loop ends.\<close>

function utf16_to_utf8 :: "bool \<Rightarrow> u8 list \<Rightarrow> nat \<Rightarrow> u8 list option" where
  "utf16_to_utf8 be p k =
     (if k = 0 then Some [] else do {
        (c, n) \<leftarrow> (if be then READ_UTF16BE ucast p else READ_UTF16LE ucast p);
        out \<leftarrow> utf16_to_utf8 be (drop n p) (k - n);
        Some (WRITE_UTF8 c @ out) })"
  by pat_completeness auto
termination
  by (relation "measure (\<lambda>(be, p, k). k)") (auto dest!: READ_UTF16_pos split: if_splits)

text \<open>The loop that exchanges the two bytes of every UTF-16 unit in place.\<close>

fun utf16_swap :: "u8 list \<Rightarrow> nat \<Rightarrow> u8 list option" where
  "utf16_swap p 0 = Some p"
| "utf16_swap (a # b # p) (Suc k) = do { q \<leftarrow> utf16_swap p (k - 1); Some (b # a # q) }"
| "utf16_swap _ (Suc k) = None"

subsection \<open>Lengths\<close>

text \<open>SQLITE_SKIP_UTF8: the number of bytes skipped.\<close>

fun skip_cont :: "u8 list \<Rightarrow> nat option" where
  "skip_cont [] = None"
| "skip_cont (b # p) = (if b AND 0xC0 = 0x80 then map_option Suc (skip_cont p) else Some 0)"

definition SQLITE_SKIP_UTF8 :: "u8 list \<Rightarrow> nat option" where
  "SQLITE_SKIP_UTF8 p = do {
     b \<leftarrow> peek p 0;
     if b \<ge> 0xC0 then map_option Suc (skip_cont (drop 1 p)) else Some 1 }"

lemma SKIP_pos: "SQLITE_SKIP_UTF8 p = Some n \<Longrightarrow> 0 < n \<and> p \<noteq> []"
  by (auto simp: SQLITE_SKIP_UTF8_def Option.bind_eq_Some_conv buf_simps split: if_splits)

text \<open>\<open>z<zTerm\<close> holds as long as fewer than \<open>nByte\<close> bytes are passed, always when nByte is negative.\<close>

function utf8_charlen_loop :: "u8 list \<Rightarrow> nat option \<Rightarrow> nat \<Rightarrow> nat option" where
  "utf8_charlen_loop p left r = do {
     b \<leftarrow> peek p 0;
     if b \<noteq> 0 \<and> left \<noteq> Some 0 then do {
       n \<leftarrow> SQLITE_SKIP_UTF8 p;
       utf8_charlen_loop (drop n p) (map_option (\<lambda>l. l - n) left) (r + 1) }
     else Some r }"
  by pat_completeness auto
termination by (relation "measure (\<lambda>(p, left, r). length p)") (auto dest!: SKIP_pos)

definition sqlite3Utf8CharLen :: "u8 list \<Rightarrow> int \<Rightarrow> nat option" where
  "sqlite3Utf8CharLen z nByte = utf8_charlen_loop z (if nByte \<ge> 0 then Some (nat nByte) else None) 0"

function utf16_bytelen_loop :: "(u8 \<Rightarrow> u32) \<Rightarrow> bool \<Rightarrow> u8 list \<Rightarrow> int \<Rightarrow> int \<Rightarrow> u32 \<Rightarrow> nat \<Rightarrow> (nat \<times> u32) option" where
  "utf16_bytelen_loop ext be p nChar n c used =
     (if c \<noteq> 0 \<and> (nChar < 0 \<or> n < nChar) then do {
        (c', k) \<leftarrow> (if be then READ_UTF16BE ext p else READ_UTF16LE ext p);
        utf16_bytelen_loop ext be (drop k p) nChar (n + 1) c' (used + k) }
      else Some (used, c))"
  by pat_completeness auto
termination
proof (relation "measure (\<lambda>(ext, be, p, nChar, n, c, used). length p)", simp, goal_cases)
  case (1 ext be p nChar n c used x c' k)
  then have "k = 2 \<or> k = 4" by (auto dest!: READ_UTF16_pos split: if_splits)
  moreover have "p \<noteq> []" using 1 by (auto simp: READ_UTF16BE_def READ_UTF16LE_def peek_def split: if_splits)
  ultimately show ?case by auto
qed

definition sqlite3Utf16ByteLen :: "(u8 \<Rightarrow> u32) \<Rightarrow> bool \<Rightarrow> u8 list \<Rightarrow> int \<Rightarrow> int option" where
  "sqlite3Utf16ByteLen ext native_be z nChar = do {
     (used, c) \<leftarrow> utf16_bytelen_loop ext native_be z nChar 0 1 0;
     Some (int used - (if c = 0 then 2 else 0)) }"

declare utf8_to_utf16.simps [simp del] utf16_to_utf8.simps [simp del] utf8_charlen_loop.simps [simp del]
  utf16_bytelen_loop.simps [simp del]

subsection \<open>What is written is read back\<close>

text \<open>The code points that have no UTF-16 unit of their own or are not characters.\<close>

definition is_surrogate :: "u32 \<Rightarrow> bool" where "is_surrogate c \<longleftrightarrow> 0xD800 \<le> c \<and> c < 0xE000"
definition is_nonchar :: "u32 \<Rightarrow> bool" where "is_nonchar c \<longleftrightarrow> c = 0xFFFE \<or> c = 0xFFFF"

lemma bits_above: "(c :: u32) < 2 ^ k \<Longrightarrow> k \<le> n \<Longrightarrow> \<not> bit c n"
proof
  assume c: "c < 2 ^ k" and kn: "k \<le> n" and b: "bit c n"
  have "(0 :: u32) < 2 ^ k" using c le_less_trans [of 0 c] by simp
  with c have "uint c < 2 ^ k" by (simp add: word_less_def uint_2p)
  also have "\<dots> \<le> 2 ^ n" using kn by simp
  finally have "\<not> bit (uint c) n" by (simp add: bit_iff_odd)
  with b show False using bit_imp_le_length [OF b] by (simp add: bit_uint_iff)
qed

lemma drop_push_27: "drop_bit 11 (push_bit 11 27) = (27 :: u32)"
  by simp

lemma masked_range: "(c :: u32) AND 0xFFFFF800 = 0xD800 \<longleftrightarrow> is_surrogate c"
proof -
  have "c AND 0xFFFFF800 = push_bit 11 (drop_bit 11 c)"
    by (rule bit_eqI32) (simp add: bit_eval)
  moreover have "(0xD800 :: u32) = push_bit 11 27" by simp
  moreover have "drop_bit 11 (push_bit 11 (drop_bit 11 c)) = drop_bit 11 c"
    by (rule bit_eqI32) (simp add: bit_eval)
  then have "push_bit 11 (drop_bit 11 c) = push_bit 11 27 \<longleftrightarrow> drop_bit 11 c = (27 :: u32)"
    by (metis drop_push_27)
  moreover have "drop_bit 11 c = (27 :: u32) \<longleftrightarrow> unat c div 2048 = 27"
    by (simp add: word_unat_eq_iff unat_div drop_bit_eq_div)
  ultimately show ?thesis unfolding is_surrogate_def word_le_nat_alt word_less_nat_alt by simp linarith
qed

lemma masked_pair: "(c :: u32) AND 0xFFFFFFFE = 0xFFFE \<longleftrightarrow> is_nonchar c"
proof
  assume m: "c AND 0xFFFFFFFE = 0xFFFE"
  have "c = (c AND 0xFFFFFFFE) OR (c AND 1)" by (rule bit_eqI32) (simp add: bit_eval)
  moreover have "c AND 1 = 0 \<or> c AND 1 = 1" by (cases "bit c 0") (auto simp: and_one_eq)
  ultimately show "is_nonchar c" unfolding is_nonchar_def using m by auto
next
  assume "is_nonchar c" then show "c AND 0xFFFFFFFE = 0xFFFE" by (auto simp: is_nonchar_def)
qed

text \<open>Table facts about lead bytes, checked for every value.\<close>

lemma all_below: "list_all P (map of_nat [0..<n]) \<Longrightarrow> unat (y :: u32) < n \<Longrightarrow> P y"
  by (auto simp: list_all_iff dest!: bspec [of _ _ "unat y"])

definition lead_ok :: "u32 \<Rightarrow> u32 \<Rightarrow> bool" where
  "lead_ok m y \<longleftrightarrow> (ucast (m + y) :: u8) \<ge> 0xC0
     \<and> peek sqlite3UtfTrans1 (unat ((ucast (m + y) :: u8) - 0xC0)) = Some (ucast y)"

lemma lead2: "unat y < 32 \<Longrightarrow> lead_ok 0xC0 y"
  by (rule all_below [of _ 32]) code_simp

lemma lead3: "unat y < 16 \<Longrightarrow> lead_ok 0xE0 y"
  by (rule all_below [of _ 16]) code_simp

lemma lead4: "unat y < 8 \<Longrightarrow> lead_ok 0xF0 y"
  by (rule all_below [of _ 8]) code_simp

text \<open>Continuation bytes.\<close>

lemma cont_byte:
  "(ucast (0x80 + (x AND 0x3F) :: u32) :: u8) AND 0xC0 = 0x80"
  "0x3F AND ucast (ucast (0x80 + (x AND 0x3F) :: u32) :: u8) = x AND (0x3F :: u32)"
proof -
  have *: "0x80 + (x AND 0x3F) = (0x80 OR (x AND 0x3F) :: u32)"
    by (rule disjunctive_add_eq_or, rule bit_eqI32) (simp add: bit_eval)
  show "(ucast (0x80 + (x AND 0x3F) :: u32) :: u8) AND 0xC0 = 0x80"
    unfolding * by (rule bit_eqI8) (simp add: bit_eval)
  show "0x3F AND ucast (ucast (0x80 + (x AND 0x3F) :: u32) :: u8) = x AND (0x3F :: u32)"
    unfolding * by (rule bit_eqI32) (simp add: bit_eval)
qed

lemma utf8_cont_stop:
  "k = 0 \<or> (\<exists>b r. p = b # r \<and> b AND 0xC0 \<noteq> 0x80) \<Longrightarrow> utf8_cont p k c n = Some (c, n)"
  by (cases k) auto

text \<open>The six-bit groups put together again.\<close>

lemma join2: "(c :: u32) < 0x800 \<Longrightarrow> push_bit 6 (drop_bit 6 c AND 0x1F) + (c AND 0x3F) = c"
proof -
  assume "c < 0x800"
  then have h: "\<And>n. 11 \<le> n \<Longrightarrow> \<not> bit c n" using bits_above [of c 11] by simp
  have "push_bit 6 (drop_bit 6 c AND 0x1F) + (c AND 0x3F) = (push_bit 6 (drop_bit 6 c AND 0x1F) OR (c AND 0x3F))"
    by (rule disjunctive_add_eq_or, rule bit_eqI32) (simp add: bit_eval)
  also have "\<dots> = c" by (rule bit_eqI32) (simp add: bit_eval h)
  finally show ?thesis .
qed

lemma join3:
  "(c :: u32) < 0x10000 \<Longrightarrow>
   push_bit 6 (push_bit 6 (drop_bit 12 c AND 0x0F) + (drop_bit 6 c AND 0x3F)) + (c AND 0x3F) = c"
proof -
  assume "c < 0x10000"
  then have h: "\<And>n. 16 \<le> n \<Longrightarrow> \<not> bit c n" using bits_above [of c 16] by simp
  have 1: "push_bit 6 (drop_bit 12 c AND 0x0F) + (drop_bit 6 c AND 0x3F)
      = (push_bit 6 (drop_bit 12 c AND 0x0F) OR (drop_bit 6 c AND 0x3F))"
    by (rule disjunctive_add_eq_or, rule bit_eqI32) (simp add: bit_eval)
  also have "\<dots> = drop_bit 6 c" by (rule bit_eqI32) (simp add: bit_eval h)
  finally have "push_bit 6 (push_bit 6 (drop_bit 12 c AND 0x0F) + (drop_bit 6 c AND 0x3F)) + (c AND 0x3F)
      = push_bit 6 (drop_bit 6 c) + (c AND 0x3F)" by simp
  also have "\<dots> = (push_bit 6 (drop_bit 6 c) OR (c AND 0x3F))"
    by (rule disjunctive_add_eq_or, rule bit_eqI32) (simp add: bit_eval)
  also have "\<dots> = c" by (rule bit_eqI32) (simp add: bit_eval h)
  finally show ?thesis .
qed

lemma join4:
  "(c :: u32) < 0x110000 \<Longrightarrow>
   push_bit 6 (push_bit 6 (push_bit 6 (drop_bit 18 c AND 0x07) + (drop_bit 12 c AND 0x3F)) + (drop_bit 6 c AND 0x3F)) + (c AND 0x3F) = c"
proof -
  assume "c < 0x110000"
  then have "c < 2 ^ 21" by (rule less_trans) simp
  then have h: "\<And>n. 21 \<le> n \<Longrightarrow> \<not> bit c n" using bits_above [of c 21] by blast
  have "push_bit 6 (drop_bit 18 c AND 0x07) + (drop_bit 12 c AND 0x3F)
      = (push_bit 6 (drop_bit 18 c AND 0x07) OR (drop_bit 12 c AND 0x3F))"
    by (rule disjunctive_add_eq_or, rule bit_eqI32) (simp add: bit_eval)
  also have "\<dots> = drop_bit 12 c" by (rule bit_eqI32) (simp add: bit_eval h)
  finally have 1: "push_bit 6 (drop_bit 18 c AND 0x07) + (drop_bit 12 c AND 0x3F) = drop_bit 12 c" .
  have "push_bit 6 (drop_bit 12 c) + (drop_bit 6 c AND 0x3F) = (push_bit 6 (drop_bit 12 c) OR (drop_bit 6 c AND 0x3F))"
    by (rule disjunctive_add_eq_or, rule bit_eqI32) (simp add: bit_eval)
  also have "\<dots> = drop_bit 6 c" by (rule bit_eqI32) (simp add: bit_eval)
  finally have 2: "push_bit 6 (drop_bit 12 c) + (drop_bit 6 c AND 0x3F) = drop_bit 6 c" .
  have "push_bit 6 (drop_bit 6 c) + (c AND 0x3F) = (push_bit 6 (drop_bit 6 c) OR (c AND 0x3F))"
    by (rule disjunctive_add_eq_or, rule bit_eqI32) (simp add: bit_eval)
  also have "\<dots> = c" by (rule bit_eqI32) (simp add: bit_eval)
  finally show ?thesis unfolding 1 2 .
qed

lemma unat_and_le: "unat ((x :: 'a::len word) AND m) \<le> unat m"
  by (simp add: word_and_le1 flip: word_le_nat_alt)

definition utf8_value :: "u32 \<Rightarrow> u32" where
  "utf8_value c = (if 0x80 \<le> c \<and> (is_surrogate c \<or> is_nonchar c) then 0xFFFD else c)"

lemma ucast_small: "unat (y :: u32) < 256 \<Longrightarrow> ucast (ucast y :: u8) = y"
  by (simp add: word_unat_eq_iff unsigned_ucast_eq unsigned_take_bit_eq take_bit_nat_eq_self)

lemma read_utf8_lead:
  assumes "lead_ok m y" "unat y < 256"
  shows "READ_UTF8 small (ucast (m + y) # p) (Suc k) = do {
     (c2, n) \<leftarrow> utf8_cont p k y 1;
     Some (if small c2 \<or> is_surrogate c2 \<or> is_nonchar c2 then 0xFFFD else c2, n) }"
  using assms by (simp add: READ_UTF8_def lead_ok_def ucast_small masked_range masked_pair)

lemma utf8_cont_step:
  "utf8_cont (ucast (0x80 + (x AND 0x3F) :: u32) # p) (Suc k) c n = utf8_cont p k (push_bit 6 c + (x AND 0x3F)) (n + 1)"
  by (simp add: cont_byte)

lemma read_utf8_written:
  assumes c: "c < 0x110000" and small: "small c \<Longrightarrow> c < 0x80"
    and stop: "k = 0 \<or> (\<exists>b r. p = b # r \<and> b AND 0xC0 \<noteq> 0x80)"
  shows "READ_UTF8 small (WRITE_UTF8 c @ p) (length (WRITE_UTF8 c) + k) = Some (utf8_value c, length (WRITE_UTF8 c))"
proof -
  consider "c < 0x80" | "0x80 \<le> c" "c < 0x800" "\<not> c < 0x80"
    | "0x80 \<le> c" "c < 0x10000" "\<not> c < 0x80" "\<not> c < 0x800"
    | "0x80 \<le> c" "\<not> c < 0x80" "\<not> c < 0x800" "\<not> c < 0x10000" using not_le by blast
  then show ?thesis
  proof cases
    case 1
    then have "unat c < 128" by (simp add: word_less_nat_alt)
    moreover have "c AND 0xFF = c" using bits_above [of c 7] 1 by (intro bit_eqI32) (simp add: bit_eval)
    moreover have "\<not> (0xC0 \<le> (ucast c :: u8))" using \<open>unat c < 128\<close>
      by (simp add: word_le_nat_alt unsigned_ucast_eq take_bit_nat_eq_self)
    moreover have "\<not> 0x80 \<le> c" using 1 by (simp add: linorder_not_le)
    ultimately show ?thesis using 1
      by (simp add: READ_UTF8_def WRITE_UTF8_def utf8_value_def ucast_small)
  next
    case 2
    have "unat (drop_bit 6 c AND 0x1F) < 32" using unat_and_le [of "drop_bit 6 c" 31] by simp
    note lead = read_utf8_lead [OF lead2 [OF this], of small "ucast (0x80 + (c AND 0x3F)) # p" "Suc k",
        unfolded utf8_cont_step join2 [OF 2(2)] utf8_cont_stop [OF stop]]
    then show ?thesis using 2 small \<open>unat (drop_bit 6 c AND 0x1F) < 32\<close> by (auto simp: WRITE_UTF8_def utf8_value_def)
  next
    case 3
    have "unat (drop_bit 12 c AND 0x0F) < 16" using unat_and_le [of "drop_bit 12 c" 15] by simp
    note lead = read_utf8_lead [OF lead3 [OF this], of small "ucast (0x80 + (drop_bit 6 c AND 0x3F)) # ucast (0x80 + (c AND 0x3F)) # p"
        "Suc (Suc k)", unfolded utf8_cont_step join3 [OF 3(2)] utf8_cont_stop [OF stop]]
    then show ?thesis using 3 small \<open>unat (drop_bit 12 c AND 0x0F) < 16\<close> by (auto simp: WRITE_UTF8_def utf8_value_def)
  next
    case 4
    have "unat (drop_bit 18 c AND 0x07) < 8" using unat_and_le [of "drop_bit 18 c" 7] by simp
    note lead = read_utf8_lead [OF lead4 [OF this], of small "ucast (0x80 + (drop_bit 12 c AND 0x3F)) #
        ucast (0x80 + (drop_bit 6 c AND 0x3F)) # ucast (0x80 + (c AND 0x3F)) # p"
        "Suc (Suc (Suc k))", unfolded utf8_cont_step join4 [OF c] utf8_cont_stop [OF stop]]
    then show ?thesis using 4 small c \<open>unat (drop_bit 18 c AND 0x07) < 8\<close> by (auto simp: WRITE_UTF8_def utf8_value_def)
  qed
qed

subsubsection \<open>UTF-16\<close>

text \<open>A character above the basic plane is \<open>0x10000\<close> plus a twenty-bit number, whose upper four
  bits are \<open>g\<close> and whose lower sixteen are those of the character.\<close>

lemma high_plane:
  assumes "0x10000 \<le> c" and "c < (0x110000 :: u32)"
  obtains g where "\<And>n. 4 \<le> n \<Longrightarrow> \<not> bit g n" "c - 0x10000 = (push_bit 16 g OR (c AND 0xFFFF))"
    "c = (push_bit 16 g OR (c AND 0xFFFF)) + 0x10000"
proof -
  let ?g = "drop_bit 16 c - 1"
  have "drop_bit 16 c = c div 0x10000" by (simp add: drop_bit_eq_div)
  moreover have "1 \<le> unat c div 65536" "unat c div 65536 < 17"
    using assms by (simp_all add: word_le_nat_alt word_less_nat_alt)
  ultimately have "1 \<le> drop_bit 16 c" "drop_bit 16 c < 17"
    by (simp_all add: word_le_nat_alt word_less_nat_alt unat_div)
  then have g: "?g < 2 ^ 4" by (simp add: word_less_nat_alt unat_sub)
  have "push_bit 16 (?g + 1) = push_bit 16 ?g + push_bit 16 1" by (rule push_bit_add)
  then have 1: "push_bit 16 (drop_bit 16 c) = push_bit 16 ?g + 0x10000" by simp
  have 2: "push_bit 16 x + (c AND 0xFFFF) = (push_bit 16 x OR (c AND 0xFFFF))" for x
    by (rule disjunctive_add_eq_or, rule bit_eqI32) (simp add: bit_eval)
  have "(push_bit 16 (drop_bit 16 c) OR (c AND 0xFFFF)) = c"
    by (rule bit_eqI32) (simp add: bit_eval)
  then have "c = push_bit 16 (drop_bit 16 c) + (c AND 0xFFFF)" unfolding 2 by simp
  also have "\<dots> = push_bit 16 ?g + (c AND 0xFFFF) + 0x10000" unfolding 1 by simp
  finally have "c = (push_bit 16 ?g OR (c AND 0xFFFF)) + 0x10000" unfolding 2 .
  moreover from this have "c - 0x10000 = (push_bit 16 ?g OR (c AND 0xFFFF))" by (metis add_diff_cancel_right')
  ultimately show thesis using that [of ?g] bits_above [OF g] by blast
qed

text \<open>The two units of a pair, and what READ_UTF16 makes of them.\<close>

lemma units:
  assumes g: "\<And>n. 4 \<le> n \<Longrightarrow> \<not> bit g n"
  shows "(ucast (ucast ((drop_bit 10 c AND 0x3F) + (drop_bit 10 (push_bit 16 g OR (c AND 0xFFFF)) AND 0xC0)) :: u8) :: u32)
       + push_bit 8 (ucast (ucast (0xD8 + (drop_bit 18 (push_bit 16 g OR (c AND 0xFFFF)) AND 0x03) :: u32) :: u8))
       = (0xD800 OR push_bit 6 g OR (drop_bit 10 c AND 0x3F))" (is "?u1 = ?v1")
    and "(ucast (ucast (c AND 0xFF) :: u8) :: u32) + push_bit 8 (ucast (ucast (0xDC + (drop_bit 8 c AND 0x03) :: u32) :: u8))
       = (0xDC00 OR (c AND 0x3FF))" (is "?u2 = ?v2")
proof -
  have 1: "(drop_bit 10 c AND 0x3F) + (drop_bit 10 (push_bit 16 g OR (c AND 0xFFFF)) AND 0xC0)
     = ((drop_bit 10 c AND 0x3F) OR (drop_bit 10 (push_bit 16 g OR (c AND 0xFFFF)) AND 0xC0))"
    by (rule disjunctive_add_eq_or, rule bit_eqI32) (simp add: bit_eval)
  have 2: "0xD8 + (x AND 0x03) = (0xD8 OR (x AND 0x03))" "0xDC + (x AND 0x03) = (0xDC OR (x AND 0x03))" for x :: u32
    by (rule disjunctive_add_eq_or, rule bit_eqI32, simp add: bit_eval)+
  have 3: "(ucast (b :: u8) :: u32) + push_bit 8 x = (ucast b OR push_bit 8 x)" for b x
    by (rule disjunctive_add_eq_or, rule bit_eqI32) (simp add: bit_eval)
  show "?u1 = ?v1" unfolding 1 2 3 by (rule bit_eqI32) (simp add: bit_eval g numeral_2_eq_2 numeral_3_eq_3)
  show "?u2 = ?v2" unfolding 2 3 by (rule bit_eqI32) (simp add: bit_eval)
qed

lemma pair_read:
  assumes g: "\<And>n. 4 \<le> n \<Longrightarrow> \<not> bit g n" and c: "c = (push_bit 16 g OR (c AND 0xFFFF)) + 0x10000" "0x10000 \<le> c"
  defines "u1 \<equiv> (0xD800 OR push_bit 6 g OR (drop_bit 10 c AND 0x3F) :: u32)"
  shows "0xD800 \<le> u1 \<and> u1 < 0xE000" and "utf16_pair ext u1 (0xDC00 OR (c AND 0x3FF)) = c"
proof -
  have "u1 AND 0xFFFFF800 = 0xD800" unfolding u1_def by (rule bit_eqI32) (simp add: bit_eval g)
  then show "0xD800 \<le> u1 \<and> u1 < 0xE000" unfolding masked_range is_surrogate_def .
  have 1: "(0xDC00 OR (c AND 0x3FF)) AND 0x3FF = c AND 0x3FF" by (rule bit_eqI32) (simp add: bit_eval)
  have 2: "u1 AND 0x3F = drop_bit 10 c AND 0x3F" unfolding u1_def by (rule bit_eqI32) (simp add: bit_eval)
  have 3: "u1 AND 0x3C0 = push_bit 6 g" unfolding u1_def by (rule bit_eqI32) (simp add: bit_eval g)
  have "(c AND 0x3FF) + push_bit 10 (drop_bit 10 c AND 0x3F) = ((c AND 0x3FF) OR push_bit 10 (drop_bit 10 c AND 0x3F))"
    by (rule disjunctive_add_eq_or, rule bit_eqI32) (simp add: bit_eval)
  also have "\<dots> = c AND 0xFFFF" by (rule bit_eqI32) (simp add: bit_eval)
  finally have 4: "(c AND 0x3FF) + push_bit 10 (drop_bit 10 c AND 0x3F) = c AND 0xFFFF" .
  have 5: "push_bit 10 (push_bit 6 g + 0x40) = push_bit 16 g + (0x10000 :: u32)" by (simp add: push_bit_add)
  have "push_bit 16 g + (c AND 0xFFFF) = (push_bit 16 g OR (c AND 0xFFFF))"
    by (rule disjunctive_add_eq_or, rule bit_eqI32) (simp add: bit_eval)
  then have "c = push_bit 16 g + (c AND 0xFFFF) + 0x10000" using c(1) by metis
  moreover have "push_bit 16 g + (c AND 0xFFFF) + 0x10000 = (c AND 0xFFFF) + (push_bit 16 g + 0x10000)"
    by (simp only: add_ac)
  ultimately have 6: "(c AND 0xFFFF) + (push_bit 16 g + 0x10000) = c" by metis
  have "c AND 0xFFFF0000 \<noteq> 0"
  proof
    assume z: "c AND 0xFFFF0000 = 0"
    have "c = (c AND 0xFFFF0000) OR (c AND 0xFFFF)" by (rule bit_eqI32) (simp add: bit_eval)
    with z have "c = c AND 0xFFFF" by simp
    then have "c \<le> 0xFFFF" by (metis word_and_le1)
    with c(2) show False by (simp add: word_le_nat_alt)
  qed
  then show "utf16_pair ext u1 (0xDC00 OR (c AND 0x3FF)) = c"
    unfolding utf16_pair_def Let_def 1 2 3 4 5 6 by simp
qed

lemma read_utf16_written:
  assumes c: "c < 0x110000" "\<not> is_surrogate c"
  shows "READ_UTF16LE ucast (WRITE_UTF16LE c @ p) = Some (c, length (WRITE_UTF16LE c))"
    and "READ_UTF16BE ucast (WRITE_UTF16BE c @ p) = Some (c, length (WRITE_UTF16BE c))"
proof -
  have "READ_UTF16LE ucast (WRITE_UTF16LE c @ p) = Some (c, length (WRITE_UTF16LE c))
      \<and> READ_UTF16BE ucast (WRITE_UTF16BE c @ p) = Some (c, length (WRITE_UTF16BE c))"
  proof (cases "c \<le> 0xFFFF")
    case True
    then have "c < 2 ^ 16" by (simp add: word_le_nat_alt word_less_nat_alt)
    then have h: "\<And>n. 16 \<le> n \<Longrightarrow> \<not> bit c n" using bits_above [of c 16] by blast
    have "(ucast (ucast (c AND 0xFF) :: u8) :: u32) + push_bit 8 (ucast (ucast (drop_bit 8 c AND 0xFF) :: u8))
        = (ucast (ucast (c AND 0xFF) :: u8) OR push_bit 8 (ucast (ucast (drop_bit 8 c AND 0xFF) :: u8)))"
      by (rule disjunctive_add_eq_or, rule bit_eqI32) (simp add: bit_eval)
    also have "\<dots> = c" by (rule bit_eqI32) (simp add: bit_eval h)
    finally show ?thesis using True c(2)
      by (simp add: READ_UTF16LE_def READ_UTF16BE_def WRITE_UTF16LE_def WRITE_UTF16BE_def add.commute flip: is_surrogate_def)
  next
    case False
    then have ge: "0x10000 \<le> c" by (simp add: word_le_nat_alt)
    from high_plane [OF ge c(1)] obtain g where g: "\<And>n. 4 \<le> n \<Longrightarrow> \<not> bit g n"
      "c - 0x10000 = (push_bit 16 g OR (c AND 0xFFFF))" "c = (push_bit 16 g OR (c AND 0xFFFF)) + 0x10000" by blast
    show ?thesis using False pair_read [OF g(1) g(3) ge] units [OF g(1), of c]
      by (simp add: READ_UTF16LE_def READ_UTF16BE_def WRITE_UTF16LE_def WRITE_UTF16BE_def g(2) add.commute
          del: disjunctive_add_eq_or)
  qed
  then show "READ_UTF16LE ucast (WRITE_UTF16LE c @ p) = Some (c, length (WRITE_UTF16LE c))"
    "READ_UTF16BE ucast (WRITE_UTF16BE c @ p) = Some (c, length (WRITE_UTF16BE c))" by simp_all
qed

subsection \<open>Converting text\<close>

definition utf_text :: "(u32 \<Rightarrow> u8 list) \<Rightarrow> u32 list \<Rightarrow> u8 list" where
  "utf_text W cs = concat (map W cs)"

definition utf_char :: "u32 \<Rightarrow> bool" where
  "utf_char c \<longleftrightarrow> c < 0x110000 \<and> \<not> is_surrogate c \<and> \<not> is_nonchar c"

lemma utf_text_simps [simp]:
  "utf_text W [] = []" "utf_text W (c # cs) = W c @ utf_text W cs"
  by (simp_all add: utf_text_def)

text \<open>The first byte of a character is no continuation byte.\<close>

lemma lead_no_cont: "lead_ok m y \<Longrightarrow> (ucast (m + y) :: u8) AND 0xC0 \<noteq> 0x80"
proof
  assume l: "lead_ok m y" and b: "(ucast (m + y) :: u8) AND 0xC0 = 0x80"
  let ?b = "ucast (m + y) :: u8"
  have "?b = (?b AND 0xC0) OR (?b AND 0x3F)" by (rule bit_eqI8) (simp add: bit_eval)
  also have "\<dots> = 0x80 OR (?b AND 0x3F)" unfolding b ..
  also have "\<dots> = 0x80 + (?b AND 0x3F)"
    by (rule disjunctive_add_eq_or [symmetric], rule bit_eqI8) (simp add: bit_eval)
  finally have "unat ?b = unat (0x80 + (?b AND 0x3F))" by simp
  moreover have "unat (?b AND 0x3F) \<le> 63" using unat_and_le [of ?b 63] by simp
  ultimately show False using l by (simp add: lead_ok_def word_le_nat_alt unat_word_ariths)
qed

lemma write_utf8_lead:
  assumes "c < 0x110000"
  shows "\<exists>b r. WRITE_UTF8 c = b # r \<and> b AND 0xC0 \<noteq> 0x80"
proof -
  consider "c < 0x80" | "0x80 \<le> c" "c < 0x800" "\<not> c < 0x80"
    | "0x80 \<le> c" "c < 0x10000" "\<not> c < 0x80" "\<not> c < 0x800"
    | "0x80 \<le> c" "\<not> c < 0x80" "\<not> c < 0x800" "\<not> c < 0x10000" using not_le by blast
  then show ?thesis
  proof cases
    case 1
    then have "\<not> bit c 7" using bits_above [of c 7 7] by simp
    then have "\<not> bit ((ucast (c AND 0xFF) :: u8) AND 0xC0) 7" by (simp add: bit_eval)
    moreover have "bit (0x80 :: u8) 7" by simp
    ultimately have "(ucast (c AND 0xFF) :: u8) AND 0xC0 \<noteq> 0x80" by metis
    then show ?thesis using 1 by (simp add: WRITE_UTF8_def)
  next
    case 2
    have "unat (drop_bit 6 c AND 0x1F) < 32" using unat_and_le [of "drop_bit 6 c" 31] by simp
    from lead_no_cont [OF lead2 [OF this]] 2 show ?thesis by (auto simp: WRITE_UTF8_def)
  next
    case 3
    have "unat (drop_bit 12 c AND 0x0F) < 16" using unat_and_le [of "drop_bit 12 c" 15] by simp
    from lead_no_cont [OF lead3 [OF this]] 3 show ?thesis by (auto simp: WRITE_UTF8_def)
  next
    case 4
    have "unat (drop_bit 18 c AND 0x07) < 8" using unat_and_le [of "drop_bit 18 c" 7] by simp
    from lead_no_cont [OF lead4 [OF this]] 4 show ?thesis by (auto simp: WRITE_UTF8_def)
  qed
qed

lemma text_stop:
  "\<forall>c \<in> set cs. c < 0x110000 \<Longrightarrow>
   length (utf_text WRITE_UTF8 cs) = 0 \<or> (\<exists>b r. utf_text WRITE_UTF8 cs @ p = b # r \<and> b AND 0xC0 \<noteq> 0x80)"
  by (cases cs) (auto dest: write_utf8_lead)

lemma write_len:
  "0 < length (WRITE_UTF8 c)" "length (WRITE_UTF8 c) \<le> 4" "c \<le> 0xFFFF \<Longrightarrow> length (WRITE_UTF8 c) \<le> 3"
  "length (WRITE_UTF16LE c) = (if c \<le> 0xFFFF then 2 else 4)" "length (WRITE_UTF16BE c) = (if c \<le> 0xFFFF then 2 else 4)"
  by (auto simp: WRITE_UTF8_def WRITE_UTF16LE_def WRITE_UTF16BE_def word_less_nat_alt word_le_nat_alt)

lemma utf8_to_utf16_text:
  "\<forall>c \<in> set cs. c < 0x110000 \<Longrightarrow>
   utf8_to_utf16 W (utf_text WRITE_UTF8 cs @ p) (length (utf_text WRITE_UTF8 cs)) = Some (utf_text W (map utf8_value cs))"
proof (induction cs)
  case Nil
  then show ?case by (simp add: utf8_to_utf16.simps)
next
  case (Cons c cs)
  then have "READ_UTF8 (\<lambda>c. c < 0x80) (WRITE_UTF8 c @ utf_text WRITE_UTF8 cs @ p)
      (length (WRITE_UTF8 c) + length (utf_text WRITE_UTF8 cs)) = Some (utf8_value c, length (WRITE_UTF8 c))"
    by (intro read_utf8_written text_stop) auto
  with Cons write_len(1) [of c] show ?case by (subst utf8_to_utf16.simps) (auto simp: neq_Nil_conv)
qed

lemma utf16_to_utf8_text:
  "\<forall>c \<in> set cs. c < 0x110000 \<and> \<not> is_surrogate c \<Longrightarrow> W = (if be then WRITE_UTF16BE else WRITE_UTF16LE) \<Longrightarrow>
   utf16_to_utf8 be (utf_text W cs @ p) (length (utf_text W cs)) = Some (utf_text WRITE_UTF8 cs)"
proof (induction cs)
  case Nil
  then show ?case by (simp add: utf16_to_utf8.simps)
next
  case (Cons c cs)
  then have "W c \<noteq> []" by (auto simp: write_len simp flip: length_greater_0_conv)
  with Cons read_utf16_written [of c "utf_text W cs @ p"] show ?case
    by (subst utf16_to_utf8.simps) auto
qed

subsection \<open>The size of the output\<close>

lemma utf8_cont_total:
  "k \<le> length p \<Longrightarrow> \<exists>c' n'. utf8_cont p k c n = Some (c', n') \<and> n \<le> n' \<and> n' \<le> n + k \<and> (n' = n \<longrightarrow> c' = c)"
proof (induction p k c n rule: utf8_cont.induct)
  case (3 b p k c n)
  show ?case
  proof (cases "b AND 0xC0 = 0x80")
    case True
    with 3 obtain c' n' where "utf8_cont p k (push_bit 6 c + (0x3F AND ucast b)) (n + 1) = Some (c', n')" "n + 1 \<le> n'" "n' \<le> n + 1 + k"
      by auto
    with True show ?thesis by auto
  qed simp
qed auto

lemma trans_bound: "peek sqlite3UtfTrans1 i = Some y \<Longrightarrow> y < 0x40"
proof -
  have "list_all (\<lambda>y. y < 0x40) sqlite3UtfTrans1" by code_simp
  then show "peek sqlite3UtfTrans1 i = Some y \<Longrightarrow> y < 0x40" by (auto simp: list_all_length buf_simps)
qed

lemma READ_UTF8_total:
  assumes "0 < k" "k \<le> length p"
  shows "\<exists>c n. READ_UTF8 (\<lambda>c. c < 0x80) p k = Some (c, n) \<and> 0 < n \<and> n \<le> k \<and> (n = 1 \<longrightarrow> c \<le> 0xFFFF)"
proof -
  have c0: "peek p 0 = Some (p ! 0)" using assms by (auto simp: peek_def)
  show ?thesis
  proof (cases "p ! 0 \<ge> 0xC0")
    case False
    have "unat (ucast (p ! 0) :: u32) \<le> 255" using unat_less [of "p ! 0"] by (simp add: unsigned_ucast_eq take_bit_nat_eq_self)
    with False c0 assms show ?thesis by (simp add: READ_UTF8_def word_le_nat_alt)
  next
    case True
    have "unat (p ! 0 - 0xC0) < length sqlite3UtfTrans1"
      using True unat_less [of "p ! 0"] by (simp add: sqlite3UtfTrans1_def unat_sub word_le_nat_alt)
    then obtain y where y: "peek sqlite3UtfTrans1 (unat (p ! 0 - 0xC0)) = Some y" by simp
    from trans_bound [OF y] have "(ucast y :: u32) < 0x80"
      by (simp add: word_less_nat_alt unsigned_ucast_eq take_bit_nat_eq_self)
    moreover from assms have "k - 1 \<le> length (drop 1 p)" by simp
    from utf8_cont_total [OF this, of "ucast y" 1] obtain c n where
      "utf8_cont (drop 1 p) (k - 1) (ucast y) 1 = Some (c, n)" "1 \<le> n" "n \<le> 1 + (k - 1)" "n = 1 \<longrightarrow> c = ucast y" by blast
    ultimately show ?thesis using True c0 y assms by (auto simp: READ_UTF8_def)
  qed
qed

lemma utf8_to_utf16_fits:
  assumes W: "\<And>c. length (W c) = (if c \<le> 0xFFFF then 2 else 4)"
  shows "k \<le> length p \<Longrightarrow> \<exists>out. utf8_to_utf16 W p k = Some out \<and> length out \<le> 2 * k"
proof (induction k arbitrary: p rule: less_induct)
  case (less k)
  show ?case
  proof (cases "k = 0")
    case False
    with READ_UTF8_total [of k p] less.prems obtain c n where
      r: "READ_UTF8 (\<lambda>c. c < 0x80) p k = Some (c, n)" "0 < n" "n \<le> k" "n = 1 \<longrightarrow> c \<le> 0xFFFF" by auto
    moreover have "\<exists>out. utf8_to_utf16 W (drop n p) (k - n) = Some out \<and> length out \<le> 2 * (k - n)"
      by (rule less.IH) (use less.prems r in auto)
    then obtain out where
      "utf8_to_utf16 W (drop n p) (k - n) = Some out" "length out \<le> 2 * (k - n)" by blast
    moreover have "length (W c) \<le> 2 * n" using r W [of c] by (cases "n = 1") auto
    ultimately show ?thesis using r False by (subst utf8_to_utf16.simps) auto
  qed (simp add: utf8_to_utf16.simps)
qed

lemma unit_le: "(ucast (b :: u8) :: u32) + push_bit 8 (ucast (b' :: u8)) \<le> 0xFFFF"
proof -
  have "ucast b + push_bit 8 (ucast b' :: u32) = (ucast b OR push_bit 8 (ucast b'))"
    by (rule disjunctive_add_eq_or, rule bit_eqI32) (simp add: bit_eval)
  also have "\<dots> = (ucast b OR push_bit 8 (ucast b')) AND 0xFFFF" by (rule bit_eqI32) (simp add: bit_eval)
  finally show ?thesis by (metis word_and_le1)
qed

lemma READ_UTF16_total:
  assumes "4 \<le> length p"
  shows "\<exists>c n. (if be then READ_UTF16BE ucast p else READ_UTF16LE ucast p) = Some (c, n)
     \<and> (n = 2 \<and> c \<le> 0xFFFF \<or> n = 4)"
proof -
  from assms obtain b0 b1 b2 b3 r where "p = b0 # b1 # b2 # b3 # r"
    by (auto simp: numeral_eq_Suc Suc_le_length_iff)
  then show ?thesis using unit_le
    by (auto simp: READ_UTF16LE_def READ_UTF16BE_def Let_def add.commute [of "push_bit 8 _"] peek_def numeral_3_eq_3 numeral_2_eq_2)
qed

lemma utf16_to_utf8_fits:
  "even k \<Longrightarrow> k + 2 \<le> length p \<Longrightarrow> \<exists>out. utf16_to_utf8 be p k = Some out \<and> length out \<le> 2 * k"
proof (induction k arbitrary: p rule: less_induct)
  case (less k)
  show ?case
  proof (cases "k = 0")
    case False
    with less.prems have k: "2 \<le> k" by presburger
    with READ_UTF16_total [of p be] less.prems obtain c n where
      r: "(if be then READ_UTF16BE ucast p else READ_UTF16LE ucast p) = Some (c, n)" "n = 2 \<and> c \<le> 0xFFFF \<or> n = 4" by auto
    have e: "even (k - n)" using less.prems r by auto
    have "\<exists>out. utf16_to_utf8 be (drop n p) (k - n) = Some out \<and> length out \<le> 2 * (k - n)"
    proof (cases "n \<le> k")
      case True
      then show ?thesis using less.IH [of "k - n" "drop n p"] less.prems e r by auto
    qed (simp add: utf16_to_utf8.simps)
    then obtain out where out: "utf16_to_utf8 be (drop n p) (k - n) = Some out" "length out \<le> 2 * (k - n)" by blast
    have "length (WRITE_UTF8 c) + 2 * (k - n) \<le> 2 * k" using r(2) write_len(2) [of c] k by auto
    with out r False show ?thesis by (subst utf16_to_utf8.simps) auto
  qed (simp add: utf16_to_utf8.simps)
qed

subsection \<open>The lengths of text\<close>

lemma write_utf8_nonzero: "c < 0x110000 \<Longrightarrow> c \<noteq> 0 \<Longrightarrow> \<exists>b r. WRITE_UTF8 c = b # r \<and> b \<noteq> 0"
proof -
  assume c: "c < 0x110000" "c \<noteq> 0"
  show ?thesis
  proof (cases "c < 0x80")
    case True
    then have "unat c < 128" by (simp add: word_less_nat_alt)
    moreover have "c AND 0xFF = c" using bits_above [of c 7] True by (intro bit_eqI32) (simp add: bit_eval)
    ultimately have "(ucast c :: u8) \<noteq> 0" using c(2) ucast_small [of c] by auto
    then show ?thesis using True \<open>c AND 0xFF = c\<close> by (simp add: WRITE_UTF8_def)
  next
    case False
    have l: "lead_ok m y \<Longrightarrow> (ucast (m + y) :: u8) \<noteq> 0" for m y by (auto simp: lead_ok_def)
    have "unat (drop_bit 6 c AND 0x1F) < 32" "unat (drop_bit 12 c AND 0x0F) < 16" "unat (drop_bit 18 c AND 0x07) < 8"
      using unat_and_le [of "drop_bit 6 c" 31] unat_and_le [of "drop_bit 12 c" 15] unat_and_le [of "drop_bit 18 c" 7] by simp_all
    from l [OF lead2 [OF this(1)]] l [OF lead3 [OF this(2)]] l [OF lead4 [OF this(3)]] False
    show ?thesis by (simp add: WRITE_UTF8_def)
  qed
qed

lemma skip_cont_step:
  "skip_cont (ucast (0x80 + (x AND 0x3F) :: u32) # p) = map_option Suc (skip_cont p)"
  by (simp add: cont_byte)

lemma skip_written:
  assumes c: "c < 0x110000" and p: "p = b # r" "b AND 0xC0 \<noteq> 0x80"
  shows "SQLITE_SKIP_UTF8 (WRITE_UTF8 c @ p) = Some (length (WRITE_UTF8 c))"
proof (cases "c < 0x80")
  case True
  then have "unat c < 128" by (simp add: word_less_nat_alt)
  moreover have "c AND 0xFF = c" using bits_above [of c 7] True by (intro bit_eqI32) (simp add: bit_eval)
  moreover have "\<not> (0xC0 \<le> (ucast c :: u8))" using \<open>unat c < 128\<close>
    by (simp add: word_le_nat_alt unsigned_ucast_eq take_bit_nat_eq_self)
  ultimately show ?thesis using True by (simp add: WRITE_UTF8_def SQLITE_SKIP_UTF8_def)
next
  case False
  have s: "skip_cont p = Some 0" using p by simp
  have "unat (drop_bit 6 c AND 0x1F) < 32" "unat (drop_bit 12 c AND 0x0F) < 16" "unat (drop_bit 18 c AND 0x07) < 8"
    using unat_and_le [of "drop_bit 6 c" 31] unat_and_le [of "drop_bit 12 c" 15] unat_and_le [of "drop_bit 18 c" 7] by simp_all
  with lead2 [OF this(1)] lead3 [OF this(2)] lead4 [OF this(3)] False
  show ?thesis by (simp add: WRITE_UTF8_def SQLITE_SKIP_UTF8_def lead_ok_def skip_cont_step s del: skip_cont.simps)
qed

lemma sint_code_point: "c < 0x110000 \<Longrightarrow> sint (c :: u32) = uint c"
proof -
  assume c: "c < 0x110000"
  have "c < 2 ^ 21" using c by (rule less_trans) simp
  then have "\<not> bit c 31" using bits_above [of c 21 31] by simp
  moreover have "uint c < 2 ^ 31" using c by (simp add: word_less_def)
  ultimately show "sint c = uint c" by (simp add: sint_uint signed_take_bit_eq_if_positive bit_uint_iff take_bit_int_eq_self)
qed

lemma text_start:
  "\<forall>c \<in> set cs. c < 0x110000 \<Longrightarrow> \<exists>b r. utf_text WRITE_UTF8 cs @ 0 # p = b # r \<and> b AND 0xC0 \<noteq> 0x80"
  using text_stop [of cs "0 # p"] by (cases "utf_text WRITE_UTF8 cs") auto

lemma charlen_text:
  assumes "\<forall>c \<in> set cs. c < 0x110000 \<and> c \<noteq> 0" "\<forall>c \<in> set ds. c < 0x110000 \<and> c \<noteq> 0"
    and "left = Some (length (utf_text WRITE_UTF8 cs)) \<or> ds = [] \<and> left = None"
  shows "utf8_charlen_loop (utf_text WRITE_UTF8 (cs @ ds) @ 0 # p) left r = Some (r + length cs)"
  using assms
proof (induction cs arbitrary: left r)
  case Nil
  show ?case
  proof (cases "ds = []")
    case False
    then obtain c cs where "ds = c # cs" by (cases ds) auto
    then show ?thesis using Nil by (subst utf8_charlen_loop.simps) (auto dest!: write_utf8_nonzero)
  qed (simp add: utf8_charlen_loop.simps)
next
  case (Cons c cs)
  have "\<exists>b r. utf_text WRITE_UTF8 (cs @ ds) @ 0 # p = b # r \<and> b AND 0xC0 \<noteq> 0x80"
    by (rule text_start) (use Cons.prems in auto)
  then have "SQLITE_SKIP_UTF8 (WRITE_UTF8 c @ utf_text WRITE_UTF8 (cs @ ds) @ 0 # p) = Some (length (WRITE_UTF8 c))"
    using skip_written [of c] Cons.prems(1) by auto
  moreover from Cons.prems(1) obtain b r where "WRITE_UTF8 c = b # r" "b \<noteq> 0" using write_utf8_nonzero [of c] by auto
  moreover from Cons.prems have "left \<noteq> Some 0" using write_len(1) [of c] by auto
  moreover have "utf8_charlen_loop (utf_text WRITE_UTF8 (cs @ ds) @ 0 # p) (map_option (\<lambda>l. l - length (WRITE_UTF8 c)) left) (Suc r)
      = Some (Suc r + length cs)" for r
    using Cons.prems by (intro Cons.IH) auto
  ultimately show ?case by (subst utf8_charlen_loop.simps) simp
qed

lemma utf16_bytelen_text:
  assumes "\<forall>c \<in> set cs. c < 0x110000 \<and> c \<noteq> 0 \<and> \<not> is_surrogate c" and "W = (if be then WRITE_UTF16BE else WRITE_UTF16LE)"
    and "nChar < 0 \<and> q = 0 # 0 # p \<or> 0 \<le> n \<and> nChar = n + int (length cs)" and "c \<noteq> 0"
  shows "\<exists>k c'. utf16_bytelen_loop ucast be (utf_text W cs @ q) nChar n c used = Some (k, c')
     \<and> int k - (if c' = 0 then 2 else 0) = int (used + length (utf_text W cs))"
  using assms
proof (induction cs arbitrary: n c used)
  case Nil
  show ?case
  proof (cases "nChar < 0")
    case True
    with Nil have "q = 0 # 0 # p" by auto
    then have "(if be then READ_UTF16BE ucast q else READ_UTF16LE ucast q) = Some (0, 2)"
      by (simp add: READ_UTF16BE_def READ_UTF16LE_def)
    with True Nil have "utf16_bytelen_loop ucast be q nChar n c used = Some (used + 2, 0)"
      by (cases be; subst utf16_bytelen_loop.simps) (simp_all add: utf16_bytelen_loop.simps [of ucast _ _ nChar _ 0])
    then show ?thesis by simp
  next
    case False
    with Nil show ?thesis by (subst utf16_bytelen_loop.simps) auto
  qed
next
  case (Cons d cs)
  have "(if be then READ_UTF16BE ucast (W d @ utf_text W cs @ q) else READ_UTF16LE ucast (W d @ utf_text W cs @ q)) = Some (d, length (W d))"
    using read_utf16_written [of d "utf_text W cs @ q"] Cons.prems by auto
  moreover obtain k c' where "utf16_bytelen_loop ucast be (utf_text W cs @ q) nChar (n + 1) d (used + length (W d)) = Some (k, c')"
      and k: "int k - (if c' = 0 then 2 else 0) = int (used + length (W d) + length (utf_text W cs))"
    using Cons.IH [of "n + 1" d "used + length (W d)"] Cons.prems by auto
  moreover have "nChar < 0 \<or> n < nChar" using Cons.prems by auto
  ultimately have "utf16_bytelen_loop ucast be (utf_text W (d # cs) @ q) nChar n c used = Some (k, c')"
    using Cons.prems(4) by (subst utf16_bytelen_loop.simps) auto
  with k show ?case by auto
qed

subsection \<open>Properties\<close>

text \<open>C30: What the macros read of what they wrote. A code point below 0x110000 written in UTF-8 (at the
  end of the text or before any byte that does not continue it) is read as itself, the surrogates and
  the two non-characters U+FFFE and U+FFFF excepted, which come back as U+FFFD; a code point written in
  either byte order of UTF-16 is read as itself when it is not a surrogate. The reader consumes exactly
  the bytes written.\<close>

theorem utf_write_read:
  assumes "c < 0x110000" and "k = 0 \<or> (\<exists>b r. p = b # r \<and> b AND 0xC0 \<noteq> 0x80)"
  shows "sqlite3Utf8Read (WRITE_UTF8 c @ p) (length (WRITE_UTF8 c) + k) = Some (utf8_value c, length (WRITE_UTF8 c))
    \<and> (\<not> is_surrogate c \<longrightarrow>
        READ_UTF16LE ucast (WRITE_UTF16LE c @ q) = Some (c, length (WRITE_UTF16LE c)) \<and>
        READ_UTF16BE ucast (WRITE_UTF16BE c @ q) = Some (c, length (WRITE_UTF16BE c)))"
proof -
  have "sint c < 0x80 \<Longrightarrow> c < 0x80" using sint_code_point [OF assms(1)] by (simp add: word_less_def)
  then have "sqlite3Utf8Read (WRITE_UTF8 c @ p) (length (WRITE_UTF8 c) + k) = Some (utf8_value c, length (WRITE_UTF8 c))"
    unfolding sqlite3Utf8Read_def by (rule read_utf8_written [OF assms(1) _ assms(2)])
  then show ?thesis using read_utf16_written [OF assms(1)] by blast
qed

theorem utf_write_read_witness:
  "sqlite3Utf8Read (WRITE_UTF8 0x1F600 @ [0x41]) (length (WRITE_UTF8 0x1F600) + 1) = Some (0x1F600, 4)
   \<and> READ_UTF16LE ucast (WRITE_UTF16LE 0x1F600 @ []) = Some (0x1F600, 4)"
  using utf_write_read [of "0x1F600" 1 "[0x41]" "[]"]
  by (simp add: utf8_value_def is_surrogate_def is_nonchar_def WRITE_UTF8_def WRITE_UTF16LE_def)

text \<open>C31: The conversions of sqlite3VdbeMemTranslate are exact on text: the UTF-8 bytes of any
  sequence of characters become their UTF-16 bytes in either order, and these become the UTF-8 bytes
  again, whatever follows the text in memory.\<close>

theorem utf_conversion_exact:
  assumes "\<forall>c \<in> set cs. utf_char c"
  shows "utf8_to_utf16 W (utf_text WRITE_UTF8 cs @ p) (length (utf_text WRITE_UTF8 cs)) = Some (utf_text W cs)
    \<and> utf16_to_utf8 False (utf_text WRITE_UTF16LE cs @ p) (length (utf_text WRITE_UTF16LE cs)) = Some (utf_text WRITE_UTF8 cs)
    \<and> utf16_to_utf8 True (utf_text WRITE_UTF16BE cs @ p) (length (utf_text WRITE_UTF16BE cs)) = Some (utf_text WRITE_UTF8 cs)"
proof -
  have "map utf8_value cs = cs" using assms by (intro map_idI) (auto simp: utf8_value_def utf_char_def)
  then show ?thesis
    using assms utf8_to_utf16_text [of cs W p] utf16_to_utf8_text [of cs WRITE_UTF16LE False p]
      utf16_to_utf8_text [of cs WRITE_UTF16BE True p]
    by (auto simp: utf_char_def)
qed

theorem utf_conversion_exact_witness:
  "utf8_to_utf16 WRITE_UTF16BE (utf_text WRITE_UTF8 [0x41, 0xE9, 0x20AC, 0x1F600] @ []) (length (utf_text WRITE_UTF8 [0x41, 0xE9, 0x20AC, 0x1F600]))
     = Some (utf_text WRITE_UTF16BE [0x41, 0xE9, 0x20AC, 0x1F600])"
proof -
  have "\<forall>c \<in> set [0x41, 0xE9, 0x20AC, 0x1F600]. utf_char c"
    by (simp add: utf_char_def is_surrogate_def is_nonchar_def)
  from utf_conversion_exact [OF this, of WRITE_UTF16BE "[]"] show ?thesis by blast
qed

text \<open>C32: The conversion loops return and do not write past the buffer that sqlite3VdbeMemTranslate
  allocates: any \<open>n\<close> bytes read as UTF-8 need no more than \<open>2n\<close> bytes and the two of the terminator; any
  even number \<open>n\<close> of bytes read as UTF-16, with two readable bytes after them, no more than \<open>2n\<close> bytes
  and the one of the terminator.\<close>

theorem utf_conversion_fits:
  assumes "n \<le> length p"
  shows "(\<exists>out. utf8_to_utf16 WRITE_UTF16LE p n = Some out \<and> length out + 2 \<le> n * 2 + 2)
    \<and> (\<exists>out. utf8_to_utf16 WRITE_UTF16BE p n = Some out \<and> length out + 2 \<le> n * 2 + 2)
    \<and> (even n \<and> n + 2 \<le> length p \<longrightarrow> (\<exists>out. utf16_to_utf8 be p n = Some out \<and> length out + 1 \<le> n * 2 + 1))"
  using utf8_to_utf16_fits [of WRITE_UTF16LE n p] utf8_to_utf16_fits [of WRITE_UTF16BE n p] utf16_to_utf8_fits [of n p be] assms
  by (auto simp: write_len mult.commute)

theorem utf_conversion_fits_witness:
  "\<exists>out. utf16_to_utf8 False [0x01, 0xD8, 0xFF, 0xFF] 2 = Some out \<and> length out + 1 \<le> 2 * 2 + 1"
  using utf_conversion_fits [of 2 "[0x01, 0xD8, 0xFF, 0xFF]" False] by simp

text \<open>An odd number of bytes breaks that bound: one byte of UTF-16 is read as a unit together with
  the byte after it, and the three bytes of its UTF-8 form with the terminator do not fit in three.\<close>

lemma utf16_odd_overflows:
  "utf16_to_utf8 False [0xFF, 0x20, 0] 1 = Some [0xE2, 0x83, 0xBF] \<and> 3 + 1 > 1 * 2 + (1 :: nat)"
  by (simp add: utf16_to_utf8.simps READ_UTF16LE_def WRITE_UTF8_def)

text \<open>sqlite3Utf8CharLen counts the characters of terminated text, of all of it or of its first
  nByte bytes, and sqlite3Utf16ByteLen (with an unsigned char type) gives the length in bytes of
  all the text or of its first nChar characters.\<close>

theorem utf_lengths:
  assumes "\<forall>c \<in> set (cs @ ds). c < 0x110000 \<and> c \<noteq> 0 \<and> \<not> is_surrogate c"
    and "W = (if be then WRITE_UTF16BE else WRITE_UTF16LE)"
  shows "sqlite3Utf8CharLen (utf_text WRITE_UTF8 (cs @ ds) @ 0 # p) (int (length (utf_text WRITE_UTF8 cs))) = Some (length cs)
    \<and> sqlite3Utf8CharLen (utf_text WRITE_UTF8 cs @ 0 # p) (- 1) = Some (length cs)
    \<and> sqlite3Utf16ByteLen ucast be (utf_text W (cs @ ds) @ q) (int (length cs)) = Some (int (length (utf_text W cs)))
    \<and> sqlite3Utf16ByteLen ucast be (utf_text W cs @ 0 # 0 # p) (- 1) = Some (int (length (utf_text W cs)))"
proof (intro conjI)
  show "sqlite3Utf8CharLen (utf_text WRITE_UTF8 (cs @ ds) @ 0 # p) (int (length (utf_text WRITE_UTF8 cs))) = Some (length cs)"
    using charlen_text [of cs ds "Some (length (utf_text WRITE_UTF8 cs))" p 0] assms by (simp add: sqlite3Utf8CharLen_def)
  show "sqlite3Utf8CharLen (utf_text WRITE_UTF8 cs @ 0 # p) (- 1) = Some (length cs)"
    using charlen_text [of cs "[]" None p 0] assms by (simp add: sqlite3Utf8CharLen_def)
  show "sqlite3Utf16ByteLen ucast be (utf_text W (cs @ ds) @ q) (int (length cs)) = Some (int (length (utf_text W cs)))"
    using utf16_bytelen_text [of cs W be "int (length cs)" "utf_text W ds @ q" p 0 1 0] assms
    by (auto simp: sqlite3Utf16ByteLen_def utf_text_def)
  show "sqlite3Utf16ByteLen ucast be (utf_text W cs @ 0 # 0 # p) (- 1) = Some (int (length (utf_text W cs)))"
    using utf16_bytelen_text [of cs W be "- 1" "0 # 0 # p" p 0 1 0] assms by (auto simp: sqlite3Utf16ByteLen_def)
qed

theorem utf_lengths_witness:
  "sqlite3Utf16ByteLen ucast False (utf_text WRITE_UTF16LE ([0x1F600] @ [0x41]) @ []) 1 = Some 4"
  using utf_lengths [of "[0x1F600]" "[0x41]" WRITE_UTF16LE False "[]" "[]"]
  by (simp add: is_surrogate_def WRITE_UTF16LE_def)

text \<open>Where \<open>char\<close> is signed the bytes of sqlite3Utf16ByteLen are sign-extended, a surrogate is
  never recognised and the two units of a pair count as two characters.\<close>

lemma utf16_signed_char_splits_pair:
  "sqlite3Utf16ByteLen scast False (WRITE_UTF16LE 0x1F600 @ [0, 0]) 1 = Some 2"
  by (simp add: sqlite3Utf16ByteLen_def WRITE_UTF16LE_def READ_UTF16LE_def utf16_bytelen_loop.simps)

text \<open>Seven continuation bytes push the first ones out of the 32 bits.\<close>

lemma utf8_wraps: "utf8_cont (0x8F # replicate 6 0x80) 7 1 1 = Some (0, 8)"
  by code_simp

end
