(* ===== verification/Double.thy ===== *)
theory Double
  imports Prelude
begin

text \<open>
  The C type \<open>double\<close>, which the code stores, compares and converts: an IEEE 754 binary64 number is
  its 64-bit pattern. Comparisons follow the sign-magnitude order of the patterns, conversion from
  a 64-bit integer rounds to nearest with ties to even, conversion back truncates and is undefined
  out of range.
\<close>

type_synonym dbl = u64

definition dbl_exp :: "dbl \<Rightarrow> nat" where "dbl_exp x = unat (drop_bit 52 x AND 0x7FF)"
definition dbl_frac :: "dbl \<Rightarrow> nat" where "dbl_frac x = unat (x AND 0xFFFFFFFFFFFFF)"

definition dbl_isnan :: "dbl \<Rightarrow> bool" where
  "dbl_isnan x \<longleftrightarrow> dbl_exp x = 2047 \<and> dbl_frac x \<noteq> 0"

text \<open>The magnitude of a number is monotone in its exponent and fraction bits.\<close>

definition dbl_key :: "dbl \<Rightarrow> int" where
  "dbl_key x = (let m = int (unat (x AND 0x7FFFFFFFFFFFFFFF)) in if bit x 63 then - m else m)"

definition dbl_lt :: "dbl \<Rightarrow> dbl \<Rightarrow> bool" where
  "dbl_lt x y \<longleftrightarrow> \<not> dbl_isnan x \<and> \<not> dbl_isnan y \<and> dbl_key x < dbl_key y"

definition dbl_eq :: "dbl \<Rightarrow> dbl \<Rightarrow> bool" where
  "dbl_eq x y \<longleftrightarrow> \<not> dbl_isnan x \<and> \<not> dbl_isnan y \<and> dbl_key x = dbl_key y"

fun bitlen :: "nat \<Rightarrow> nat" where
  "bitlen m = (if m = 0 then 0 else Suc (bitlen (m div 2)))"

declare bitlen.simps [simp del]

definition dbl_of_nat :: "nat \<Rightarrow> nat" where
  "dbl_of_nat m =
     (if m = 0 then 0 else
      let e = bitlen m - 1 in
      if e \<le> 52 then (e + 1022) * 2 ^ 52 + m * 2 ^ (52 - e)
      else let s = e - 52; q = m div 2 ^ s; t = m mod 2 ^ s in
        (e + 1022) * 2 ^ 52 + (if 2 * t > 2 ^ s \<or> 2 * t = 2 ^ s \<and> odd q then q + 1 else q))"

definition dbl_of_i64 :: "i64 \<Rightarrow> dbl" where
  "dbl_of_i64 i = (if sint i < 0 then set_bit 63 (word_of_nat (dbl_of_nat (nat (- sint i))))
                   else word_of_nat (dbl_of_nat (nat (sint i))))"

definition i64_of_dbl :: "dbl \<Rightarrow> i64 option" where
  "i64_of_dbl x =
     (let e = dbl_exp x; m = 2 ^ 52 + dbl_frac x;
          v = (if e < 1023 then 0 else if e - 1023 \<ge> 52 then m * 2 ^ (e - 1075) else m div 2 ^ (1075 - e));
          i = (if bit x 63 then - int v else int v)
      in if e < 2047 \<and> - (2 ^ 63) \<le> i \<and> i < 2 ^ 63 then Some (word_of_int i) else None)"

lemma bitlen_bounds: "0 < m \<Longrightarrow> 2 ^ (bitlen m - 1) \<le> m \<and> m < 2 ^ bitlen m \<and> 0 < bitlen m"
proof (induction m rule: bitlen.induct)
  case (1 m)
  show ?case
  proof (cases "m div 2 = 0")
    case True
    with 1 have "m = 1" by simp
    then show ?thesis by (simp add: bitlen.simps [of "Suc 0"] bitlen.simps [of 0])
  next
    case False
    then have IH: "2 ^ (bitlen (m div 2) - 1) \<le> m div 2" "m div 2 < 2 ^ bitlen (m div 2)" "0 < bitlen (m div 2)"
      using 1 by auto
    have b: "bitlen m = Suc (bitlen (m div 2))" using 1(2) by (subst bitlen.simps) simp
    obtain k where k: "bitlen (m div 2) = Suc k" using IH(3) by (cases "bitlen (m div 2)") auto
    show ?thesis unfolding b using IH k by (auto simp: less_mult_imp_div_less)
  qed
qed

text \<open>Integers of at most 53 bits have exact doubles, in the same order.\<close>

lemma dbl_of_nat_small:
  assumes "0 < m" "m < 2 ^ 53"
  shows "dbl_of_nat m = (bitlen m + 1021) * 2 ^ 52 + m * 2 ^ (53 - bitlen m)"
    and "2 ^ 52 \<le> m * 2 ^ (53 - bitlen m)" "m * 2 ^ (53 - bitlen m) < 2 ^ 53" "bitlen m \<le> 53" "0 < bitlen m"
proof -
  have b: "2 ^ (bitlen m - 1) \<le> m" "m < 2 ^ bitlen m" "0 < bitlen m" using bitlen_bounds [OF assms(1)] by auto
  have "2 ^ (bitlen m - 1) < (2 :: nat) ^ 53" using b(1) assms(2) by linarith
  then have "bitlen m - 1 < 53" by (simp only: power_strict_increasing_iff)
  then show le: "bitlen m \<le> 53" and "0 < bitlen m" using b(3) by auto
  then show "dbl_of_nat m = (bitlen m + 1021) * 2 ^ 52 + m * 2 ^ (53 - bitlen m)"
    using assms(1) b(3) by (cases "bitlen m") (simp_all add: dbl_of_nat_def Let_def)
  have "2 ^ (bitlen m - 1) * 2 ^ (53 - bitlen m) \<le> m * (2 :: nat) ^ (53 - bitlen m)" using b(1) by (rule mult_le_mono1)
  then show "2 ^ 52 \<le> m * 2 ^ (53 - bitlen m)" using le b(3) by (simp flip: power_add)
  have "m * 2 ^ (53 - bitlen m) < 2 ^ bitlen m * (2 :: nat) ^ (53 - bitlen m)" using b(2) by simp
  then show "m * 2 ^ (53 - bitlen m) < 2 ^ 53" using le by (simp flip: power_add)
qed

lemma dbl_of_nat_bound: "m < 2 ^ 53 \<Longrightarrow> dbl_of_nat m < 2 ^ 62 + 2 ^ 61"
proof (cases "m = 0")
  case False
  assume "m < 2 ^ 53"
  from dbl_of_nat_small [OF _ this] False have "dbl_of_nat m < (53 + 1021) * 2 ^ 52 + 2 ^ 53" by (auto intro!: add_le_less_mono)
  then show ?thesis by simp
qed (simp add: dbl_of_nat_def)

lemma dbl_of_nat_mono:
  assumes "m < m'" "m' < 2 ^ 53" shows "dbl_of_nat m < dbl_of_nat m'"
proof (cases "m = 0")
  case True
  then show ?thesis using assms dbl_of_nat_small(1) [of m'] by (auto simp: dbl_of_nat_def)
next
  case False
  then have m: "0 < m" "m < 2 ^ 53" "0 < m'" using assms by auto
  note a = dbl_of_nat_small [OF m(1,2)] and a' = dbl_of_nat_small [OF m(3) assms(2)]
  consider "bitlen m = bitlen m'" | "bitlen m < bitlen m'" | "bitlen m' < bitlen m" by linarith
  then show ?thesis
  proof cases
    case 1
    then show ?thesis using a(1) a'(1) assms(1) by simp
  next
    case 2
    then have "(bitlen m + 1021) * 2 ^ 52 + 2 ^ 52 \<le> (bitlen m' + 1021) * (2 :: nat) ^ 52" by simp
    with a(1,3) a'(1,2) show ?thesis by simp
  next
    case 3
    have "m' < 2 ^ bitlen m'" "2 ^ (bitlen m - 1) \<le> m" using bitlen_bounds m by auto
    moreover have "(2 :: nat) ^ bitlen m' \<le> 2 ^ (bitlen m - 1)" using 3 by (intro power_increasing) auto
    ultimately show ?thesis using assms(1) by linarith
  qed
qed


lemma dbl_mask: "(0x7FFFFFFFFFFFFFFF :: u64) = mask 63" "(0x7FF :: u64) = mask 11" "(0xFFFFFFFFFFFFF :: u64) = mask 52"
  by (simp_all add: mask_eq_exp_minus_1)

lemma dbl_magnitude:
  assumes "k < 2 ^ 62 + 2 ^ 61" and "w = (word_of_nat k :: u64)" and "x = w \<or> x = set_bit 63 w"
  shows "unat (x AND 0x7FFFFFFFFFFFFFFF) = k" and "dbl_exp x = k div 2 ^ 52" and "dbl_frac x = k mod 2 ^ 52"
    and "bit x 63 \<longleftrightarrow> x = set_bit 63 w" and "\<not> dbl_isnan x" and "\<not> bit w 63"
proof -
  have u: "unat w = k" using assms(1,2) by (simp add: unsigned_of_nat take_bit_nat_eq_self)
  have "take_bit 63 x = take_bit 63 w" "take_bit 11 (drop_bit 52 x) = take_bit 11 (drop_bit 52 w)" "take_bit 52 x = take_bit 52 w"
    using assms(3) by (auto intro!: bit_word_eqI simp: bit_simps)
  note tb = this
  have "unat (x AND 0x7FFFFFFFFFFFFFFF) = take_bit 63 k"
    using u tb(1) by (simp only: dbl_mask flip: take_bit_eq_mask) (simp only: unsigned_take_bit_eq)
  then show "unat (x AND 0x7FFFFFFFFFFFFFFF) = k" using assms(1) by (simp add: take_bit_nat_eq_self)
  have "dbl_exp x = take_bit 11 (k div 2 ^ 52)"
    unfolding dbl_exp_def dbl_mask using u tb(2) by (simp only: unat_div drop_bit_eq_div unsigned_take_bit_eq flip: take_bit_eq_mask) simp
  moreover have "k div 2 ^ 52 < 2 ^ 11" using assms(1) by simp
  ultimately show e: "dbl_exp x = k div 2 ^ 52" by (simp add: take_bit_nat_eq_self)
  have "dbl_frac x = take_bit 52 k"
    unfolding dbl_frac_def dbl_mask using u tb(3) by (simp only: unsigned_take_bit_eq flip: take_bit_eq_mask)
  then show "dbl_frac x = k mod 2 ^ 52" by (simp add: take_bit_eq_mod)
  have "k div 2 ^ 52 < 2047" using assms(1) by simp
  with e show "\<not> dbl_isnan x" by (simp add: dbl_isnan_def)
  show nb: "\<not> bit w 63"
  proof
    assume "bit w 63"
    then have "bit (unat w) 63" by (simp add: bit_unsigned_iff)
    then have "odd (unat w div 2 ^ 63)" unfolding bit_iff_odd .
    then show False using u assms(1) by simp
  qed
  have "bit (set_bit 63 w) 63" by (simp add: bit_simps)
  with nb show "bit x 63 \<longleftrightarrow> x = set_bit 63 w" using assms(3) by auto
qed

lemma dbl_of_i64_key:
  assumes "\<bar>sint i\<bar> < 2 ^ 53"
  shows "dbl_key (dbl_of_i64 i) = (if sint i < 0 then - int (dbl_of_nat (nat (- sint i))) else int (dbl_of_nat (nat (sint i))))"
    and "\<not> dbl_isnan (dbl_of_i64 i)"
proof -
  have m: "nat (sint i) < 2 ^ 53" "nat (- sint i) < 2 ^ 53" using assms by (simp_all add: nat_less_iff)
  have "dbl_key (dbl_of_i64 i) = (if sint i < 0 then - int (dbl_of_nat (nat (- sint i))) else int (dbl_of_nat (nat (sint i))))
    \<and> \<not> dbl_isnan (dbl_of_i64 i)"
  proof (cases "sint i < 0")
    case True
    note d = dbl_magnitude [OF dbl_of_nat_bound [OF m(2)] refl disjI2 [OF refl]]
    show ?thesis using d True by (simp add: dbl_key_def dbl_of_i64_def)
  next
    case False
    note d = dbl_magnitude [OF dbl_of_nat_bound [OF m(1)] refl disjI1 [OF refl]]
    from d(6) d show ?thesis using False by (simp add: dbl_key_def dbl_of_i64_def)
  qed
  then show "dbl_key (dbl_of_i64 i) = (if sint i < 0 then - int (dbl_of_nat (nat (- sint i))) else int (dbl_of_nat (nat (sint i))))"
    and "\<not> dbl_isnan (dbl_of_i64 i)" by auto
qed

lemma dbl_key_mono:
  assumes "\<bar>sint i\<bar> < 2 ^ 53" "\<bar>sint j\<bar> < 2 ^ 53"
  shows "dbl_key (dbl_of_i64 i) < dbl_key (dbl_of_i64 j) \<longleftrightarrow> sint i < sint j"
proof -
  have 1: "sint x < sint y \<Longrightarrow> dbl_key (dbl_of_i64 x) < dbl_key (dbl_of_i64 y)"
    if "\<bar>sint x\<bar> < 2 ^ 53" "\<bar>sint y\<bar> < 2 ^ 53" for x y
  proof -
    assume lt: "sint x < sint y"
    have z: "dbl_of_nat 0 = 0" by (simp add: dbl_of_nat_def)
    have n: "nat (sint x) < 2 ^ 53" "nat (sint y) < 2 ^ 53" "nat (- sint x) < 2 ^ 53" using that by (simp_all add: nat_less_iff)
    have p: "0 < sint y \<Longrightarrow> 0 < dbl_of_nat (nat (sint y))" using dbl_of_nat_mono [of 0 "nat (sint y)"] n z by simp
    have q: "sint x < 0 \<Longrightarrow> 0 < dbl_of_nat (nat (- sint x))" using dbl_of_nat_mono [of 0 "nat (- sint x)"] n z by simp
    have "0 \<le> sint x \<Longrightarrow> dbl_of_nat (nat (sint x)) < dbl_of_nat (nat (sint y))"
      using lt n by (intro dbl_of_nat_mono) auto
    moreover have "sint y < 0 \<Longrightarrow> dbl_of_nat (nat (- sint y)) < dbl_of_nat (nat (- sint x))"
      using lt n by (intro dbl_of_nat_mono) auto
    ultimately show ?thesis using lt p q that by (auto simp: dbl_of_i64_key)
  qed
  have "sint i = sint j \<Longrightarrow> dbl_key (dbl_of_i64 i) = dbl_key (dbl_of_i64 j)"
    using assms by (simp add: dbl_of_i64_key)
  then show ?thesis using 1 [of i j] 1 [of j i] assms by linarith
qed

lemma div_mod_eq: "(x :: nat) = k * N + r \<Longrightarrow> r < N \<Longrightarrow> x div N = k \<and> x mod N = r"
  by simp

lemma dbl_exact:
  assumes "\<bar>sint i\<bar> < 2 ^ 53"
  shows "i64_of_dbl (dbl_of_i64 i) = Some i"
proof -
  let ?m = "nat \<bar>sint i\<bar>"
  have m: "?m < 2 ^ 53" using assms by (simp add: nat_less_iff)
  let ?w = "word_of_nat (dbl_of_nat ?m) :: u64"
  have x: "dbl_of_i64 i = (if sint i < 0 then set_bit 63 ?w else ?w)" by (simp add: dbl_of_i64_def)
  then have "dbl_of_i64 i = ?w \<or> dbl_of_i64 i = set_bit 63 ?w" by simp
  note d = dbl_magnitude [OF dbl_of_nat_bound [OF m] refl this]
  have sg: "bit (dbl_of_i64 i) 63 \<longleftrightarrow> sint i < 0" using x d(6) by (auto simp: bit_simps)
  show ?thesis
  proof (cases "?m = 0")
    case True
    then have "sint i = 0" by simp
    moreover have "word_of_int (sint i) = i" by simp
    ultimately have "i = 0" by simp
    then show ?thesis using d(2,3) by (simp add: i64_of_dbl_def dbl_of_nat_def)
  next
    case False
    then have p: "0 < ?m" by simp
    note s = dbl_of_nat_small [OF p m]
    let ?b = "bitlen ?m" and ?M = "?m * 2 ^ (53 - bitlen ?m)"
    have "dbl_of_nat ?m = (?b + 1022) * 2 ^ 52 + (?M - 2 ^ 52)" using s(1,2) by simp
    moreover have "?M - 2 ^ 52 < 2 ^ 52" using s(2,3) by simp linarith
    ultimately have e: "dbl_exp (dbl_of_i64 i) = ?b + 1022" and f: "dbl_frac (dbl_of_i64 i) = ?M - 2 ^ 52"
      unfolding d(2,3) using div_mod_eq by blast+
    have M: "2 ^ 52 + (?M - 2 ^ 52) = ?M" using s(2) by simp
    have v: "(if ?b + 1022 < 1023 then 0 else if ?b + 1022 - 1023 \<ge> 52 then ?M * 2 ^ (?b + 1022 - 1075)
         else ?M div 2 ^ (1075 - (?b + 1022))) = ?m"
      using s(4,5) by (cases "?b = 53") auto
    have i: "(if sint i < 0 then - int ?m else int ?m) = sint i" by simp
    have "\<not> 2047 \<le> ?b + 1022" using s(4) by simp
    moreover have "- (2 ^ 63) \<le> sint i \<and> sint i < 2 ^ 63" using assms by (simp add: abs_less_iff)
    ultimately show ?thesis unfolding i64_of_dbl_def Let_def e f M v sg i by simp
  qed
qed

end
