(* ===== verification/VdbeMem.thy ===== *)
theory VdbeMem
  imports TextUtil Utf Double
begin

text \<open>
  The value cells of the virtual machine (vdbemem.c and the functions on them in utf.c). A cell is
  a record of the members of \<open>struct Mem\<close>; what \<open>z\<close> points to is the list of bytes from there on.
  A cell owns at most one buffer, \<open>zMalloc\<close>: \<open>own\<close> says that \<open>z\<close> points to it, \<open>szMalloc\<close> is its
  size (0 for the null pointer). While \<open>z\<close> points elsewhere the bytes of the buffer are not
  read; fresh bytes, undefined in C, are zeros here and are not read before they are written.
  Aggregate accumulators (MEM_Agg), whose release calls a user function, are outside the model:
  releasing one is \<open>None\<close>.
\<close>

record Mem =
  mi :: i64
  mr :: dbl
  mz :: "u8 list option"
  mn :: nat
  mflags :: u16
  mtype :: int
  menc :: int
  mxDel :: bool
  own :: bool
  szMalloc :: nat

definition MEM_Null :: u16 where "MEM_Null = 0x0001"
definition MEM_Str :: u16 where "MEM_Str = 0x0002"
definition MEM_Int :: u16 where "MEM_Int = 0x0004"
definition MEM_Real :: u16 where "MEM_Real = 0x0008"
definition MEM_Blob :: u16 where "MEM_Blob = 0x0010"
definition MEM_Term :: u16 where "MEM_Term = 0x0020"
definition MEM_Dyn :: u16 where "MEM_Dyn = 0x0040"
definition MEM_Static :: u16 where "MEM_Static = 0x0080"
definition MEM_Ephem :: u16 where "MEM_Ephem = 0x0100"
definition MEM_Agg :: u16 where "MEM_Agg = 0x0400"
definition MEM_Zero :: u16 where "MEM_Zero = 0x0800"

lemmas mem_flags [codes] = MEM_Null_def MEM_Str_def MEM_Int_def MEM_Real_def MEM_Blob_def MEM_Term_def
  MEM_Dyn_def MEM_Static_def MEM_Ephem_def MEM_Agg_def MEM_Zero_def

definition SQLITE_INTEGER :: int where "SQLITE_INTEGER = 1"
definition SQLITE_FLOAT :: int where "SQLITE_FLOAT = 2"
definition SQLITE_TEXT :: int where "SQLITE_TEXT = 3"
definition SQLITE_BLOB :: int where "SQLITE_BLOB = 4"
definition SQLITE_NULL :: int where "SQLITE_NULL = 5"
definition SQLITE_TOOBIG :: rc where "SQLITE_TOOBIG = 18"

lemmas mem_types [codes] = SQLITE_INTEGER_def SQLITE_FLOAT_def SQLITE_TEXT_def SQLITE_BLOB_def SQLITE_NULL_def
  SQLITE_TOOBIG_def

text \<open>\<open>flags & f\<close>, \<open>flags |= f\<close> and \<open>flags &= ~f\<close>.\<close>

definition has :: "Mem \<Rightarrow> u16 \<Rightarrow> bool" where "has m f \<longleftrightarrow> mflags m AND f \<noteq> 0"
definition set_flags :: "u16 \<Rightarrow> Mem \<Rightarrow> Mem" where "set_flags f m = m\<lparr>mflags := mflags m OR f\<rparr>"
definition clr_flags :: "u16 \<Rightarrow> Mem \<Rightarrow> Mem" where "clr_flags f m = m\<lparr>mflags := mflags m AND NOT f\<rparr>"

definition setTypeFlag :: "Mem \<Rightarrow> u16 \<Rightarrow> Mem" where
  "setTypeFlag m f =
     m\<lparr>mflags := (mflags m AND NOT (MEM_Int OR MEM_Real OR MEM_Null OR MEM_Blob OR MEM_Str)) OR f\<rparr>"

subsection \<open>Buffers\<close>

text \<open>The allocator of mem1.c rounds a request up to a multiple of eight.\<close>

definition sqlite3MemRoundup :: "nat \<Rightarrow> nat" where
  "sqlite3MemRoundup n = (n + 7) div 8 * 8"

definition fresh_buf :: "nat \<Rightarrow> u8 list" where
  "fresh_buf n = replicate (sqlite3MemRoundup n) 0"

text \<open>\<open>z==zMalloc\<close>, which also holds of two null pointers.\<close>

definition z_is_zMalloc :: "Mem \<Rightarrow> bool" where
  "z_is_zMalloc m \<longleftrightarrow> own m \<or> mz m = None \<and> szMalloc m = 0"

text \<open>\<open>memcpy(dst, src, n)\<close> to the start of a buffer.\<close>

definition copy_into :: "u8 list \<Rightarrow> u8 list \<Rightarrow> nat \<Rightarrow> u8 list option" where
  "copy_into dst src n = (if n \<le> length src \<and> n \<le> length dst then Some (take n src @ drop n dst) else None)"

text \<open>The first part of Grow gives the new \<open>zMalloc\<close> (\<open>None\<close> for null), the cell whose \<open>z\<close> may have
  moved with it, and what is left of \<open>preserve\<close>; then the content is copied and \<open>z\<close> is set.\<close>

definition sqlite3VdbeMemGrow :: "Mem \<Rightarrow> nat \<Rightarrow> bool \<Rightarrow> oom \<Rightarrow> (rc \<times> Mem \<times> oom) option" where
  "sqlite3VdbeMemGrow m n preserve al =
     (let n = max n 32;
          (buf, m1, preserve, al1) =
            (if szMalloc m < n then
               (case malloc_next al of (ok, al1) \<Rightarrow>
                 if preserve \<and> z_is_zMalloc m then
                   (let old = (case mz m of None \<Rightarrow> [] | Some b \<Rightarrow> b);
                        new = (if ok then Some (old @ drop (length old) (fresh_buf n)) else None) in
                    (new, (if ok then m\<lparr>mz := new, own := True\<rparr> else m\<lparr>mz := None, own := False, mflags := MEM_Null\<rparr>),
                     False, al1))
                 else (if ok then Some (fresh_buf n) else None, m\<lparr>own := False\<rparr>, preserve, al1))
             else (Some (if own m then the (mz m) else replicate (szMalloc m) 0), m, preserve, al))
      in do {
        buf1 \<leftarrow> (case (mz m1, buf) of
                   (Some z, Some b) \<Rightarrow> if preserve \<and> \<not> own m1 then map_option Some (copy_into b z (mn m1)) else Some (Some b)
                 | _ \<Rightarrow> Some buf);
        let m2 = clr_flags (MEM_Ephem OR MEM_Static)
                   (m1\<lparr>mz := buf1, own := (buf1 \<noteq> None), szMalloc := (case buf1 of None \<Rightarrow> 0 | Some b \<Rightarrow> length b),
                       mxDel := False\<rparr>);
        Some (if buf1 \<noteq> None then SQLITE_OK else SQLITE_NOMEM, m2, al1)
      })"

text \<open>\<open>pMem->z[i] = b\<close>.\<close>

definition z_poke :: "Mem \<Rightarrow> nat \<Rightarrow> u8 \<Rightarrow> Mem option" where
  "z_poke m i b = do { z \<leftarrow> mz m; z' \<leftarrow> poke z i b; Some (m\<lparr>mz := Some z'\<rparr>) }"

text \<open>\<open>memset(&pMem->z[i], 0, n)\<close>.\<close>

fun z_zero :: "Mem \<Rightarrow> nat \<Rightarrow> nat \<Rightarrow> Mem option" where
  "z_zero m i 0 = Some m"
| "z_zero m i (Suc n) = do { m' \<leftarrow> z_poke m i 0; z_zero m' (i + 1) n }"

definition sqlite3VdbeMemExpandBlob :: "Mem \<Rightarrow> oom \<Rightarrow> (rc \<times> Mem \<times> oom) option" where
  "sqlite3VdbeMemExpandBlob m al =
     (if has m MEM_Zero then
        (let nByte = int (mn m) + sint (mi m); nByte = (if nByte \<le> 0 then 1 else nByte) in do {
           (rc, m1, al1) \<leftarrow> sqlite3VdbeMemGrow m (nat nByte) True al;
           if rc \<noteq> SQLITE_OK then Some (SQLITE_NOMEM, m1, al1)
           else do {
             m2 \<leftarrow> (if sint (mi m1) < 0 then None else z_zero m1 (mn m1) (nat (sint (mi m1))));
             Some (SQLITE_OK, clr_flags (MEM_Zero OR MEM_Term) (m2\<lparr>mn := mn m2 + nat (sint (mi m2))\<rparr>), al1)
           }})
      else Some (SQLITE_OK, m, al))"

text \<open>The result of expanding a blob is dropped, as the macro expandBlob is used as a statement.\<close>

definition sqlite3VdbeMemMakeWriteable :: "Mem \<Rightarrow> oom \<Rightarrow> (rc \<times> Mem \<times> oom) option" where
  "sqlite3VdbeMemMakeWriteable m al = do {
     (_, m1, al1) \<leftarrow> sqlite3VdbeMemExpandBlob m al;
     if has m1 (MEM_Str OR MEM_Blob) \<and> \<not> z_is_zMalloc m1 then do {
       (rc, m2, al2) \<leftarrow> sqlite3VdbeMemGrow m1 (mn m1 + 2) True al1;
       if rc \<noteq> SQLITE_OK then Some (SQLITE_NOMEM, m2, al2)
       else do {
         m3 \<leftarrow> z_poke m2 (mn m2) 0;
         m4 \<leftarrow> z_poke m3 (mn m3 + 1) 0;
         Some (SQLITE_OK, set_flags MEM_Term m4, al2)
       }
     } else Some (SQLITE_OK, m1, al1)
   }"

definition sqlite3VdbeMemNulTerminate :: "Mem \<Rightarrow> oom \<Rightarrow> (rc \<times> Mem \<times> oom) option" where
  "sqlite3VdbeMemNulTerminate m al =
     (if has m MEM_Term \<or> \<not> has m MEM_Str then Some (SQLITE_OK, m, al)
      else do {
        (rc, m1, al1) \<leftarrow> sqlite3VdbeMemGrow m (mn m + 2) True al;
        if rc \<noteq> SQLITE_OK then Some (SQLITE_NOMEM, m1, al1)
        else do {
          m2 \<leftarrow> z_poke m1 (mn m1) 0;
          m3 \<leftarrow> z_poke m2 (mn m2 + 1) 0;
          Some (SQLITE_OK, set_flags MEM_Term m3, al1)
        }})"

subsection \<open>Releasing and setting a cell\<close>

definition sqlite3VdbeMemReleaseExternal :: "Mem \<Rightarrow> Mem option" where
  "sqlite3VdbeMemReleaseExternal m =
     (if has m MEM_Agg then None
      else if has m MEM_Dyn \<and> mxDel m then Some (m\<lparr>mxDel := False\<rparr>) else Some m)"

definition sqlite3VdbeMemRelease :: "Mem \<Rightarrow> Mem option" where
  "sqlite3VdbeMemRelease m = do {
     m1 \<leftarrow> sqlite3VdbeMemReleaseExternal m;
     Some (m1\<lparr>mz := None, own := False, szMalloc := 0, mxDel := False\<rparr>)
   }"

definition sqlite3VdbeMemSetNull :: "Mem \<Rightarrow> Mem" where
  "sqlite3VdbeMemSetNull m = (setTypeFlag m MEM_Null)\<lparr>mtype := SQLITE_NULL\<rparr>"

definition sqlite3VdbeMemSetZeroBlob :: "Mem \<Rightarrow> int \<Rightarrow> Mem option" where
  "sqlite3VdbeMemSetZeroBlob m n = do {
     m1 \<leftarrow> sqlite3VdbeMemRelease m;
     Some ((setTypeFlag m1 MEM_Blob)\<lparr>mflags := MEM_Blob OR MEM_Zero, mtype := SQLITE_BLOB, mn := 0,
       mi := word_of_int (if n < 0 then 0 else n), menc := SQLITE_UTF8\<rparr>)
   }"

definition sqlite3VdbeMemSetInt64 :: "Mem \<Rightarrow> i64 \<Rightarrow> Mem option" where
  "sqlite3VdbeMemSetInt64 m val = do {
     m1 \<leftarrow> sqlite3VdbeMemRelease m;
     Some (m1\<lparr>mi := val, mflags := MEM_Int, mtype := SQLITE_INTEGER\<rparr>)
   }"

definition sqlite3VdbeMemSetDouble :: "Mem \<Rightarrow> dbl \<Rightarrow> Mem option" where
  "sqlite3VdbeMemSetDouble m val =
     (if dbl_isnan val then Some (sqlite3VdbeMemSetNull m)
      else do {
        m1 \<leftarrow> sqlite3VdbeMemRelease m;
        Some (m1\<lparr>mr := val, mflags := MEM_Real, mtype := SQLITE_FLOAT\<rparr>)
      })"

definition sqlite3VdbeMemTooBig :: "Mem \<Rightarrow> int \<Rightarrow> bool" where
  "sqlite3VdbeMemTooBig m limit =
     (if has m (MEM_Str OR MEM_Blob)
      then int (mn m) + (if has m MEM_Zero then sint (mi m) else 0) > limit else False)"

subsection \<open>Encodings\<close>

text \<open>sqlite3VdbeMemTranslate of utf.c. The text is converted into a new buffer of \<open>len\<close> bytes;
  more output than fits there, with its terminator, is undefined.\<close>

definition sqlite3VdbeMemTranslate :: "Mem \<Rightarrow> int \<Rightarrow> oom \<Rightarrow> (rc \<times> Mem \<times> oom) option" where
  "sqlite3VdbeMemTranslate m desiredEnc al =
     (if menc m \<noteq> SQLITE_UTF8 \<and> desiredEnc \<noteq> SQLITE_UTF8 then do {
        (rc, m1, al1) \<leftarrow> sqlite3VdbeMemMakeWriteable m al;
        if rc \<noteq> SQLITE_OK then Some (SQLITE_NOMEM, m1, al1)
        else do {
          z \<leftarrow> mz m1;
          z' \<leftarrow> utf16_swap z (mn m1);
          Some (SQLITE_OK, m1\<lparr>mz := Some z', menc := desiredEnc\<rparr>, al1)
        }
      } else
        (let len = mn m * 2 + (if desiredEnc = SQLITE_UTF8 then 1 else 2) in
         case malloc_next al of (ok, al1) \<Rightarrow>
           if \<not> ok then Some (SQLITE_NOMEM, m, al1)
           else do {
             z \<leftarrow> mz m;
             out \<leftarrow> (if menc m = SQLITE_UTF8
                     then utf8_to_utf16 (if desiredEnc = SQLITE_UTF16LE then WRITE_UTF16LE else WRITE_UTF16BE) z (mn m)
                     else utf16_to_utf8 (menc m \<noteq> SQLITE_UTF16LE) z (mn m));
             let zOut = out @ (if menc m = SQLITE_UTF8 then [0] else []) @ [0];
             if length zOut > len then None
             else do {
               m1 \<leftarrow> sqlite3VdbeMemRelease (m\<lparr>mn := length out\<rparr>);
               let m2 = set_flags (MEM_Term OR MEM_Dyn) (clr_flags (MEM_Static OR MEM_Dyn OR MEM_Ephem) m1);
               let buf = zOut @ drop (length zOut) (fresh_buf len);
               Some (SQLITE_OK, m2\<lparr>menc := desiredEnc, mz := Some buf, own := True, szMalloc := length buf\<rparr>, al1)
             }
           }))"

definition sqlite3VdbeChangeEncoding :: "Mem \<Rightarrow> int \<Rightarrow> oom \<Rightarrow> (rc \<times> Mem \<times> oom) option" where
  "sqlite3VdbeChangeEncoding m desiredEnc al =
     (if \<not> has m MEM_Str \<or> menc m = desiredEnc then Some (SQLITE_OK, m, al)
      else sqlite3VdbeMemTranslate m desiredEnc al)"

definition sqlite3VdbeMemHandleBom :: "Mem \<Rightarrow> oom \<Rightarrow> (rc \<times> Mem \<times> oom) option" where
  "sqlite3VdbeMemHandleBom m al = do {
     bom \<leftarrow> (if mn m > 1 then do {
               z \<leftarrow> mz m; b1 \<leftarrow> peek z 0; b2 \<leftarrow> peek z 1;
               Some (if b1 = 0xFF \<and> b2 = 0xFE then SQLITE_UTF16LE
                     else if b1 = 0xFE \<and> b2 = 0xFF then SQLITE_UTF16BE else 0) }
             else Some 0);
     if bom \<noteq> 0 then do {
       (rc, m1, al1) \<leftarrow> sqlite3VdbeMemMakeWriteable m al;
       if rc = SQLITE_OK then do {
         z \<leftarrow> mz m1;
         let n = mn m1 - 2;
         z1 \<leftarrow> copy_into z (drop 2 z) n;
         m2 \<leftarrow> z_poke (m1\<lparr>mn := n, mz := Some z1\<rparr>) n 0;
         m3 \<leftarrow> z_poke m2 (n + 1) 0;
         Some (rc, (set_flags MEM_Term m3)\<lparr>menc := bom\<rparr>, al1)
       } else Some (rc, m1, al1)
     } else Some (SQLITE_OK, m, al)
   }"

subsection \<open>Strings and blobs\<close>

datatype destructor = STATIC | TRANSIENT | DYNAMIC | Callback

text \<open>The scans for the terminator: \<open>nByte\<close> so far, at most \<open>iLimit\<close>.\<close>

function zero_scan :: "nat \<Rightarrow> u8 list \<Rightarrow> nat \<Rightarrow> nat \<Rightarrow> nat option" where
  "zero_scan step z iLimit nByte =
     (if nByte \<le> iLimit then do {
        b \<leftarrow> peek z nByte;
        c \<leftarrow> (if step = 1 then Some 0 else peek z (nByte + 1));
        if b OR c \<noteq> 0 then zero_scan step z iLimit (nByte + max step 1) else Some nByte }
      else Some nByte)"
  by pat_completeness auto
termination by (relation "measure (\<lambda>(step, z, iLimit, nByte). Suc iLimit - nByte)") auto

declare zero_scan.simps [simp del]

definition sqlite3VdbeMemSetStr ::
  "Mem \<Rightarrow> u8 list option \<Rightarrow> int \<Rightarrow> int \<Rightarrow> destructor \<Rightarrow> nat \<Rightarrow> oom \<Rightarrow> (rc \<times> Mem \<times> oom) option" where
  "sqlite3VdbeMemSetStr m zarg n encarg xDel iLimit al =
     (case zarg of
        None \<Rightarrow> Some (SQLITE_OK, sqlite3VdbeMemSetNull m, al)
      | Some z \<Rightarrow> do {
          let flags0 = (if encarg = 0 then MEM_Blob else MEM_Str);
          nByte \<leftarrow> (if n < 0 then zero_scan (if encarg = SQLITE_UTF8 then 1 else 2) z iLimit 0 else Some (nat n));
          let flags1 = (if n < 0 then flags0 OR MEM_Term else flags0);
          if nByte > iLimit then Some (SQLITE_TOOBIG, m, al)
          else do {
            (rc, m1, flags2, al1) \<leftarrow>
              (case xDel of
                 TRANSIENT \<Rightarrow>
                   (let nAlloc = nByte + (if n < 0 then if encarg = SQLITE_UTF8 then 1 else 2 else 0) in do {
                      (rc, m1, al1) \<leftarrow> sqlite3VdbeMemGrow m nAlloc False al;
                      if rc \<noteq> SQLITE_OK then Some (SQLITE_NOMEM, m1, flags1, al1)
                      else do {
                        b \<leftarrow> mz m1; b' \<leftarrow> copy_into b z nAlloc;
                        Some (SQLITE_OK, m1\<lparr>mz := Some b'\<rparr>, flags1, al1) }})
               | DYNAMIC \<Rightarrow> do {
                   m1 \<leftarrow> sqlite3VdbeMemRelease m;
                   Some (SQLITE_OK, m1\<lparr>mz := Some z, own := True, szMalloc := length z, mxDel := False\<rparr>, flags1, al) }
               | _ \<Rightarrow> do {
                   m1 \<leftarrow> sqlite3VdbeMemRelease m;
                   Some (SQLITE_OK, m1\<lparr>mz := Some z, mxDel := (xDel = Callback)\<rparr>,
                         flags1 OR (if xDel = STATIC then MEM_Static else MEM_Dyn), al) });
            if rc \<noteq> SQLITE_OK then Some (rc, m1, al1)
            else do {
              let m2 = m1\<lparr>mn := nByte, mflags := flags2, menc := (if encarg = 0 then SQLITE_UTF8 else encarg),
                          mtype := (if encarg = 0 then SQLITE_BLOB else SQLITE_TEXT)\<rparr>;
              if menc m2 \<noteq> SQLITE_UTF8 then do {
                (rc, m3, al2) \<leftarrow> sqlite3VdbeMemHandleBom m2 al1;
                Some (if rc \<noteq> SQLITE_OK then SQLITE_NOMEM else SQLITE_OK, m3, al2) }
              else Some (SQLITE_OK, m2, al1) }}})"

subsection \<open>Copies\<close>

text \<open>\<open>memcpy(pTo, pFrom, MEMCELLSIZE)\<close>: every member but \<open>zMalloc\<close>; \<open>z\<close> then points into the other
  cell's memory.\<close>

definition memcell_copy :: "Mem \<Rightarrow> Mem \<Rightarrow> Mem" where
  "memcell_copy pTo pFrom = pFrom\<lparr>own := False, szMalloc := szMalloc pTo\<rparr>"

definition sqlite3VdbeMemShallowCopy :: "Mem \<Rightarrow> Mem \<Rightarrow> u16 \<Rightarrow> Mem option" where
  "sqlite3VdbeMemShallowCopy pTo pFrom srcType = do {
     m0 \<leftarrow> sqlite3VdbeMemReleaseExternal pTo;
     let m1 = (memcell_copy m0 pFrom)\<lparr>mxDel := False\<rparr>;
     Some (if has pFrom MEM_Dyn \<or> z_is_zMalloc pFrom
           then set_flags srcType (clr_flags (MEM_Dyn OR MEM_Static OR MEM_Ephem) m1) else m1)
   }"

definition sqlite3VdbeMemCopy :: "Mem \<Rightarrow> Mem \<Rightarrow> oom \<Rightarrow> (rc \<times> Mem \<times> oom) option" where
  "sqlite3VdbeMemCopy pTo pFrom al = do {
     m0 \<leftarrow> sqlite3VdbeMemReleaseExternal pTo;
     let m1 = clr_flags MEM_Dyn (memcell_copy m0 pFrom);
     if has m1 (MEM_Str OR MEM_Blob) \<and> \<not> has pFrom MEM_Static
     then sqlite3VdbeMemMakeWriteable (set_flags MEM_Ephem m1) al
     else Some (SQLITE_OK, m1, al)
   }"

text \<open>Move returns both cells.\<close>

definition sqlite3VdbeMemMove :: "Mem \<Rightarrow> Mem \<Rightarrow> (Mem \<times> Mem) option" where
  "sqlite3VdbeMemMove pTo pFrom = do {
     _ \<leftarrow> sqlite3VdbeMemRelease pTo;
     Some (pFrom, pFrom\<lparr>mflags := MEM_Null, mxDel := False, own := False, szMalloc := 0\<rparr>)
   }"

subsection \<open>Numbers\<close>

definition doubleToInt64 :: "dbl \<Rightarrow> i64 option" where
  "doubleToInt64 r =
     (if dbl_lt r (dbl_of_i64 (- (2 ^ 63))) then Some (- (2 ^ 63))
      else if dbl_lt (dbl_of_i64 (2 ^ 63 - 1)) r then Some (- (2 ^ 63))
      else i64_of_dbl r)"

definition chars_of :: "u8 list \<Rightarrow> char list" where
  "chars_of = map (\<lambda>b. char_of (unat b))"

definition sqlite3VdbeIntValue :: "Mem \<Rightarrow> oom \<Rightarrow> (i64 \<times> Mem \<times> oom) option" where
  "sqlite3VdbeIntValue m al =
     (if has m MEM_Int then Some (mi m, m, al)
      else if has m MEM_Real then do { i \<leftarrow> doubleToInt64 (mr m); Some (i, m, al) }
      else if has m (MEM_Str OR MEM_Blob) then do {
        (rc, m1, al1) \<leftarrow> sqlite3VdbeChangeEncoding (set_flags MEM_Str m) SQLITE_UTF8 al;
        if rc \<noteq> SQLITE_OK then Some (0, m1, al1)
        else do {
          (rc, m2, al2) \<leftarrow> sqlite3VdbeMemNulTerminate m1 al1;
          if rc \<noteq> SQLITE_OK then Some (0, m2, al2)
          else do {
            z \<leftarrow> mz m2;
            (_, value) \<leftarrow> sqlite3Atoi64 (chars_of z);
            Some (value, m2, al2) }}}
      else Some (0, m, al))"

definition sqlite3VdbeMemIntegerify :: "Mem \<Rightarrow> oom \<Rightarrow> (rc \<times> Mem \<times> oom) option" where
  "sqlite3VdbeMemIntegerify m al = do {
     (i, m1, al1) \<leftarrow> sqlite3VdbeIntValue m al;
     Some (SQLITE_OK, setTypeFlag (m1\<lparr>mi := i\<rparr>) MEM_Int, al1)
   }"

definition sqlite3VdbeIntegerAffinity :: "Mem \<Rightarrow> Mem option" where
  "sqlite3VdbeIntegerAffinity m = do {
     i \<leftarrow> doubleToInt64 (mr m);
     let m1 = m\<lparr>mi := i\<rparr>;
     Some (if dbl_eq (mr m1) (dbl_of_i64 (mi m1)) then set_flags MEM_Int m1 else m1)
   }"

subsection \<open>Flags\<close>

text \<open>A flag is one bit; every test and update of the flags is evaluated bit by bit.\<close>

named_theorems flag_simps \<open>tests of the flags of a cell\<close>

lemma flag_bit:
  "(x :: u16) AND 0x0001 = 0 \<longleftrightarrow> \<not> bit x 0" "x AND 0x0002 = 0 \<longleftrightarrow> \<not> bit x 1" "x AND 0x0004 = 0 \<longleftrightarrow> \<not> bit x 2"
  "x AND 0x0008 = 0 \<longleftrightarrow> \<not> bit x 3" "x AND 0x0010 = 0 \<longleftrightarrow> \<not> bit x 4" "x AND 0x0020 = 0 \<longleftrightarrow> \<not> bit x 5"
  "x AND 0x0040 = 0 \<longleftrightarrow> \<not> bit x 6" "x AND 0x0080 = 0 \<longleftrightarrow> \<not> bit x 7" "x AND 0x0100 = 0 \<longleftrightarrow> \<not> bit x 8"
  "x AND 0x0400 = 0 \<longleftrightarrow> \<not> bit x 10" "x AND 0x0800 = 0 \<longleftrightarrow> \<not> bit x 11"
  using and_exp_eq_0_iff_not_bit [of x 0] and_exp_eq_0_iff_not_bit [of x 1] and_exp_eq_0_iff_not_bit [of x 2]
    and_exp_eq_0_iff_not_bit [of x 3] and_exp_eq_0_iff_not_bit [of x 4] and_exp_eq_0_iff_not_bit [of x 5]
    and_exp_eq_0_iff_not_bit [of x 6] and_exp_eq_0_iff_not_bit [of x 7] and_exp_eq_0_iff_not_bit [of x 8]
    and_exp_eq_0_iff_not_bit [of x 10] and_exp_eq_0_iff_not_bit [of x 11] by simp_all

lemma has_bit [flag_simps]:
  "has m MEM_Null \<longleftrightarrow> bit (mflags m) 0" "has m MEM_Str \<longleftrightarrow> bit (mflags m) 1" "has m MEM_Int \<longleftrightarrow> bit (mflags m) 2"
  "has m MEM_Real \<longleftrightarrow> bit (mflags m) 3" "has m MEM_Blob \<longleftrightarrow> bit (mflags m) 4" "has m MEM_Term \<longleftrightarrow> bit (mflags m) 5"
  "has m MEM_Dyn \<longleftrightarrow> bit (mflags m) 6" "has m MEM_Static \<longleftrightarrow> bit (mflags m) 7" "has m MEM_Ephem \<longleftrightarrow> bit (mflags m) 8"
  "has m MEM_Agg \<longleftrightarrow> bit (mflags m) 10" "has m MEM_Zero \<longleftrightarrow> bit (mflags m) 11"
  by (simp_all only: has_def mem_flags flag_bit simp_thms)

lemma has_or [flag_simps]: "has m (f OR g) \<longleftrightarrow> has m f \<or> has m g"
proof -
  have "mflags m AND (f OR g) = (mflags m AND f) OR (mflags m AND g)" by (simp add: bit.conj_disj_distrib)
  then show ?thesis by (simp add: has_def or_eq_0_iff)
qed

lemma has_flags [flag_simps]:
  "has (set_flags f m) g \<longleftrightarrow> has m g \<or> f AND g \<noteq> 0"
  by (simp add: has_def set_flags_def bit.conj_disj_distrib2 or_eq_0_iff)

lemma flags_only [simp]:
  "mz (set_flags f m) = mz m" "mn (set_flags f m) = mn m" "own (set_flags f m) = own m" "szMalloc (set_flags f m) = szMalloc m"
  "mi (set_flags f m) = mi m" "mr (set_flags f m) = mr m" "menc (set_flags f m) = menc m" "mxDel (set_flags f m) = mxDel m"
  "mz (clr_flags f m) = mz m" "mn (clr_flags f m) = mn m" "own (clr_flags f m) = own m" "szMalloc (clr_flags f m) = szMalloc m"
  "mi (clr_flags f m) = mi m" "mr (clr_flags f m) = mr m" "menc (clr_flags f m) = menc m" "mxDel (clr_flags f m) = mxDel m"
  "mflags (set_flags f m) = mflags m OR f" "mflags (clr_flags f m) = mflags m AND NOT f"
  "mtype (set_flags f m) = mtype m" "mtype (clr_flags f m) = mtype m"
  by (simp_all add: set_flags_def clr_flags_def)

lemma flag_bit_values [flag_simps]:
  "bit MEM_Null i \<longleftrightarrow> i = 0" "bit MEM_Str i \<longleftrightarrow> i = 1" "bit MEM_Int i \<longleftrightarrow> i = 2" "bit MEM_Real i \<longleftrightarrow> i = 3"
  "bit MEM_Blob i \<longleftrightarrow> i = 4" "bit MEM_Term i \<longleftrightarrow> i = 5" "bit MEM_Dyn i \<longleftrightarrow> i = 6" "bit MEM_Static i \<longleftrightarrow> i = 7"
  "bit MEM_Ephem i \<longleftrightarrow> i = 8" "bit MEM_Agg i \<longleftrightarrow> i = 10" "bit MEM_Zero i \<longleftrightarrow> i = 11"
proof -
  have p: "MEM_Null = 2 ^ 0" "MEM_Str = 2 ^ 1" "MEM_Int = 2 ^ 2" "MEM_Real = 2 ^ 3" "MEM_Blob = 2 ^ 4" "MEM_Term = 2 ^ 5"
    "MEM_Dyn = 2 ^ 6" "MEM_Static = 2 ^ 7" "MEM_Ephem = 2 ^ 8" "MEM_Agg = 2 ^ 10" "MEM_Zero = 2 ^ 11"
    by (simp_all add: mem_flags)
  show "bit MEM_Null i \<longleftrightarrow> i = 0" "bit MEM_Str i \<longleftrightarrow> i = 1" "bit MEM_Int i \<longleftrightarrow> i = 2" "bit MEM_Real i \<longleftrightarrow> i = 3"
    "bit MEM_Blob i \<longleftrightarrow> i = 4" "bit MEM_Term i \<longleftrightarrow> i = 5" "bit MEM_Dyn i \<longleftrightarrow> i = 6" "bit MEM_Static i \<longleftrightarrow> i = 7"
    "bit MEM_Ephem i \<longleftrightarrow> i = 8" "bit MEM_Agg i \<longleftrightarrow> i = 10" "bit MEM_Zero i \<longleftrightarrow> i = 11"
    unfolding p bit_exp_iff by auto
qed

subsection \<open>Growing a cell\<close>

text \<open>The buffer a cell owns is the one its size says.\<close>

definition mem_inv :: "Mem \<Rightarrow> bool" where
  "mem_inv m \<longleftrightarrow> (own m \<longrightarrow> (\<exists>b. mz m = Some b \<and> b \<noteq> [] \<and> length b = szMalloc m))"

lemma roundup_ge: "n \<le> sqlite3MemRoundup n"
  by (simp add: sqlite3MemRoundup_def)

lemma length_fresh [simp]: "length (fresh_buf n) = sqlite3MemRoundup n"
  by (simp add: fresh_buf_def)

lemma fresh_ne: "fresh_buf (max n 32) \<noteq> []"
  using roundup_ge [of "max n 32"] by (auto simp flip: length_greater_0_conv)

text \<open>What Grow returns: the cell owns a buffer of the size asked for, with the content when it is to
  be preserved, or, when the allocation failed, no buffer.\<close>

definition grown :: "Mem \<Rightarrow> nat \<Rightarrow> bool \<Rightarrow> oom \<Rightarrow> rc \<times> Mem \<times> oom \<Rightarrow> bool" where
  "grown m n preserve al res \<longleftrightarrow> (case res of (rc, m', al') \<Rightarrow>
     mem_inv m' \<and> (no_oom al \<longrightarrow> rc = SQLITE_OK \<and> no_oom al') \<and>
     (rc = SQLITE_NOMEM \<and> mz m' = None \<and> menc m' = menc m \<or>
      rc = SQLITE_OK \<and> (\<exists>b. max n 32 \<le> length b \<and> (preserve \<longrightarrow> take (mn m) b = take (mn m) (the (mz m))) \<and>
        m' = m\<lparr>mz := Some b, own := True, szMalloc := length b, mxDel := False,
               mflags := mflags m AND NOT (MEM_Ephem OR MEM_Static)\<rparr>)))"

lemma grow_law:
  assumes inv: "mem_inv m" and p: "preserve \<longrightarrow> mn m \<le> max n 32 \<and> (\<exists>z. mz m = Some z \<and> mn m \<le> length z)"
  shows "\<exists>res. sqlite3VdbeMemGrow m n preserve al = Some res \<and> grown m n preserve al res"
proof -
  obtain ok al1 where al: "malloc_next al = (ok, al1)" by (cases "malloc_next al")
  have ne: "\<not> ok \<Longrightarrow> \<not> no_oom al" "no_oom al \<Longrightarrow> no_oom al1" using malloc_next_no_oom al by blast+
  let ?n = "max n 32"
  have ge: "?n \<le> sqlite3MemRoundup ?n" "n \<le> sqlite3MemRoundup ?n" "32 \<le> sqlite3MemRoundup ?n"
    using roundup_ge [of ?n] by auto
  show ?thesis
  proof (cases "szMalloc m < ?n")
    case big: True
    show ?thesis
    proof (cases "preserve \<and> z_is_zMalloc m")
      case True
      then have o: "own m" using p by (auto simp: z_is_zMalloc_def)
      then obtain b where b: "mz m = Some b" "b \<noteq> []" "length b = szMalloc m" using inv by (auto simp: mem_inv_def)
      have "mn m \<le> length b" using p True b by auto
      with True o b big al ne ge show ?thesis
        by (cases ok) (auto simp: sqlite3VdbeMemGrow_def Let_def grown_def mem_inv_def codes clr_flags_def
            intro!: exI [of _ "b @ drop (szMalloc m) (fresh_buf (max n 32))"])
    next
      case False
      show ?thesis
      proof (cases preserve)
        case True
        then have no: "\<not> own m" using False by (auto simp: z_is_zMalloc_def)
        from True p obtain z where z: "mz m = Some z" "mn m \<le> length z" "mn m \<le> ?n" by auto
        then have "mn m \<le> sqlite3MemRoundup ?n" using ge by linarith
        with True False z no big al ne ge show ?thesis
          by (cases ok) (auto simp: sqlite3VdbeMemGrow_def Let_def grown_def mem_inv_def codes clr_flags_def copy_into_def
              intro!: exI [of _ "take (mn m) z @ drop (mn m) (fresh_buf (max n 32))"])
      next
        case np: False
        show ?thesis using np big al ne ge
          by (cases ok) (auto simp: sqlite3VdbeMemGrow_def Let_def grown_def mem_inv_def codes clr_flags_def fresh_ne
              split: option.splits intro!: exI [of _ "fresh_buf (max n 32)"])
      qed
    qed
  next
    case False
    then have "?n \<le> szMalloc m" unfolding not_less .
    then have ge: "?n \<le> szMalloc m" "n \<le> szMalloc m" "32 \<le> szMalloc m" by simp_all
    show ?thesis
    proof (cases "own m")
      case True
      with inv obtain b where "mz m = Some b" "b \<noteq> []" "length b = szMalloc m" by (auto simp: mem_inv_def)
      with True False ge show ?thesis
        by (auto simp: sqlite3VdbeMemGrow_def Let_def grown_def mem_inv_def codes clr_flags_def intro!: exI [of _ b])
    next
      case no: False
      show ?thesis
      proof (cases preserve)
        case True
        with p obtain z where z: "mz m = Some z" "mn m \<le> length z" "mn m \<le> ?n" by auto
        then have "mn m \<le> szMalloc m" "szMalloc m \<noteq> 0" using ge by linarith+
        with True False z no ge show ?thesis
          by (auto simp: sqlite3VdbeMemGrow_def Let_def grown_def mem_inv_def codes clr_flags_def copy_into_def
              intro!: exI [of _ "take (mn m) z @ drop (mn m) (replicate (szMalloc m) 0)"])
      next
        case np: False
        have "szMalloc m \<noteq> 0" using ge by linarith
        then show ?thesis using np False no ge
          by (auto simp: sqlite3VdbeMemGrow_def Let_def grown_def mem_inv_def codes clr_flags_def split: option.splits
              intro!: exI [of _ "replicate (szMalloc m) 0"])
      qed
    qed
  qed
qed

subsection \<open>Text in a cell\<close>

definition utf_writer :: "int \<Rightarrow> u32 \<Rightarrow> u8 list" where
  "utf_writer e = (if e = SQLITE_UTF8 then WRITE_UTF8 else if e = SQLITE_UTF16LE then WRITE_UTF16LE else WRITE_UTF16BE)"

definition is_enc :: "int \<Rightarrow> bool" where
  "is_enc e \<longleftrightarrow> e = SQLITE_UTF8 \<or> e = SQLITE_UTF16LE \<or> e = SQLITE_UTF16BE"

text \<open>The terminator of an encoding.\<close>

definition zeros :: "int \<Rightarrow> u8 list" where
  "zeros e = (if e = SQLITE_UTF8 then [0] else [0, 0])"

lemma zeros_prefix [simp]: "\<exists>ra. 0 # 0 # r = zeros e @ ra"
  by (simp add: zeros_def)

definition holds_text :: "Mem \<Rightarrow> u32 list \<Rightarrow> bool" where
  "holds_text m cs \<longleftrightarrow> has m MEM_Str \<and> \<not> has m MEM_Zero \<and> \<not> has m MEM_Agg \<and> is_enc (menc m)
     \<and> (\<forall>c \<in> set cs. utf_char c)
     \<and> (\<exists>p. mz m = Some (utf_text (utf_writer (menc m)) cs @ p) \<and> (has m MEM_Term \<longrightarrow> (\<exists>r. p = zeros (menc m) @ r)))
     \<and> mn m = length (utf_text (utf_writer (menc m)) cs)"

lemma z_poke_Some: "mz m = Some z \<Longrightarrow> i < length z \<Longrightarrow> z_poke m i b = Some (m\<lparr>mz := Some (z[i := b])\<rparr>)"
  by (simp add: z_poke_def)

lemma take_prefix: "take n b = take n z \<Longrightarrow> n \<le> length b \<Longrightarrow> z = xs @ p \<Longrightarrow> n = length xs \<Longrightarrow> \<exists>q. b = xs @ q"
  by (metis append_take_drop_id append_eq_conv_conj)

text \<open>Grow by two bytes and write the terminator, as MakeWriteable and NulTerminate do.\<close>

lemma grow_terminate:
  assumes inv: "mem_inv m" and t: "holds_text m cs"
  shows "\<exists>rc m' al'. (do { (rc, m2, al2) \<leftarrow> sqlite3VdbeMemGrow m (mn m + 2) True al;
       if rc \<noteq> SQLITE_OK then Some (SQLITE_NOMEM, m2, al2)
       else do { m3 \<leftarrow> z_poke m2 (mn m2) 0; m4 \<leftarrow> z_poke m3 (mn m3 + 1) 0; Some (SQLITE_OK, set_flags MEM_Term m4, al2) } })
       = Some (rc, m', al') \<and> mem_inv m' \<and> (no_oom al \<longrightarrow> rc = SQLITE_OK \<and> no_oom al')
     \<and> (rc = SQLITE_NOMEM \<or> rc = SQLITE_OK \<and> holds_text m' cs \<and> own m' \<and> menc m' = menc m \<and> mn m' = mn m
          \<and> has m' MEM_Term \<and> peek (the (mz m')) (mn m') = Some 0 \<and> peek (the (mz m')) (mn m' + 1) = Some 0)"
proof -
  from t obtain p where z: "mz m = Some (utf_text (utf_writer (menc m)) cs @ p)" "mn m = length (utf_text (utf_writer (menc m)) cs)"
    by (auto simp: holds_text_def)
  have "\<exists>res. sqlite3VdbeMemGrow m (mn m + 2) True al = Some res \<and> grown m (mn m + 2) True al res"
    by (rule grow_law [OF inv]) (use z in auto)
  then obtain rc m1 al1 where g: "sqlite3VdbeMemGrow m (mn m + 2) True al = Some (rc, m1, al1)"
    "grown m (mn m + 2) True al (rc, m1, al1)" by auto
  show ?thesis
  proof (cases "rc = SQLITE_OK")
    case False
    with g show ?thesis by (auto simp: grown_def codes)
  next
    case True
    with g(2) have "\<exists>b. max (mn m + 2) 32 \<le> length b \<and> take (mn m) b = take (mn m) (the (mz m)) \<and>
        m1 = m\<lparr>mz := Some b, own := True, szMalloc := length b, mxDel := False, mflags := mflags m AND NOT (MEM_Ephem OR MEM_Static)\<rparr>"
      unfolding grown_def prod.case by (simp add: SQLITE_OK_def SQLITE_NOMEM_def)
    then obtain b where b0: "max (mn m + 2) 32 \<le> length b" and b: "take (mn m) b = take (mn m) (the (mz m))"
      "m1 = m\<lparr>mz := Some b, own := True, szMalloc := length b, mxDel := False, mflags := mflags m AND NOT (MEM_Ephem OR MEM_Static)\<rparr>"
      by blast
    from b0 have len: "mn m + 2 \<le> length b" by simp
    note b = len b
    from take_prefix [OF b(2), of "utf_text (utf_writer (menc m)) cs" p] b(1) z obtain q where
      q: "b = utf_text (utf_writer (menc m)) cs @ q" by auto
    then have "2 \<le> length q" using b(1) z(2) by simp
    then obtain x y r where "q = x # y # r" by (cases q; cases "tl q") auto
    then have b': "b[mn m := 0, Suc (mn m) := 0] = utf_text (utf_writer (menc m)) cs @ 0 # 0 # r"
      using q z(2) by (simp add: list_update_append)
    have "z_poke m1 (mn m1) 0 = Some (m1\<lparr>mz := Some (b[mn m := 0])\<rparr>)"
      using b by (simp add: z_poke_Some)
    moreover have "z_poke (m1\<lparr>mz := Some (b[mn m := 0])\<rparr>) (mn m1 + 1) 0 = Some (m1\<lparr>mz := Some (b[mn m := 0, Suc (mn m) := 0])\<rparr>)"
      using b by (simp add: z_poke_Some)
    ultimately show ?thesis using True g t z b b' q \<open>q = x # y # r\<close>
      by (auto simp: grown_def mem_inv_def holds_text_def flag_simps bit_simps peek_def nth_append)
  qed
qed

lemma make_writeable_text:
  assumes inv: "mem_inv m" and t: "holds_text m cs"
  shows "\<exists>rc m' al'. sqlite3VdbeMemMakeWriteable m al = Some (rc, m', al') \<and> mem_inv m'
     \<and> (no_oom al \<longrightarrow> rc = SQLITE_OK \<and> no_oom al')
     \<and> (rc = SQLITE_NOMEM \<or> rc = SQLITE_OK \<and> holds_text m' cs \<and> own m' \<and> menc m' = menc m \<and> mn m' = mn m)"
proof -
  from t have f: "\<not> has m MEM_Zero" "has m (MEM_Str OR MEM_Blob)" "mz m \<noteq> None" by (auto simp: holds_text_def has_or)
  then have w: "z_is_zMalloc m = own m" by (auto simp: z_is_zMalloc_def)
  show ?thesis
  proof (cases "own m")
    case True
    then show ?thesis using f w inv t by (auto simp: sqlite3VdbeMemMakeWriteable_def sqlite3VdbeMemExpandBlob_def)
  next
    case False
    then show ?thesis using grow_terminate [OF inv t, of al] f w
      by (fastforce simp: sqlite3VdbeMemMakeWriteable_def sqlite3VdbeMemExpandBlob_def)
  qed
qed

lemma swap2: "utf16_swap (a # b # q) (k + 2) = map_option (\<lambda>r. b # a # r) (utf16_swap q k)"
  by (cases "utf16_swap q k") (simp_all add: numeral_2_eq_2)

lemma swap_text:
  assumes "W1 = WRITE_UTF16LE \<and> W2 = WRITE_UTF16BE \<or> W1 = WRITE_UTF16BE \<and> W2 = WRITE_UTF16LE"
  shows "utf16_swap (utf_text W1 cs @ p) (length (utf_text W1 cs)) = Some (utf_text W2 cs @ p)"
proof (induction cs)
  case (Cons c cs)
  have "utf16_swap (W1 c @ q) (length (W1 c) + k) = map_option (\<lambda>r. W2 c @ r) (utf16_swap q k)" for q k
    using assms swap2 [of _ _ q k] swap2 [of _ _ "_ # _ # q" "k + 2"]
    by (auto simp: WRITE_UTF16LE_def WRITE_UTF16BE_def option.map_comp comp_def add.commute [of _ k] add.assoc)
  with Cons show ?case by simp
qed simp

lemma translate_law:
  assumes inv: "mem_inv m" and t: "holds_text m cs" and e: "is_enc e" "e \<noteq> menc m"
  shows "\<exists>rc m' al'. sqlite3VdbeMemTranslate m e al = Some (rc, m', al') \<and> mem_inv m'
     \<and> (no_oom al \<longrightarrow> rc = SQLITE_OK \<and> no_oom al')
     \<and> (rc = SQLITE_NOMEM \<or> rc = SQLITE_OK \<and> holds_text m' cs \<and> menc m' = e)"
proof (cases "menc m \<noteq> SQLITE_UTF8 \<and> e \<noteq> SQLITE_UTF8")
  case True
  obtain rc m1 al1 where mw: "sqlite3VdbeMemMakeWriteable m al = Some (rc, m1, al1)" "mem_inv m1"
    "no_oom al \<longrightarrow> rc = SQLITE_OK \<and> no_oom al1"
    "rc = SQLITE_NOMEM \<or> rc = SQLITE_OK \<and> holds_text m1 cs \<and> own m1 \<and> menc m1 = menc m \<and> mn m1 = mn m"
    using make_writeable_text [OF inv t] by metis
  show ?thesis
  proof (cases "rc = SQLITE_OK")
    case False
    with mw True show ?thesis by (auto simp: sqlite3VdbeMemTranslate_def)
  next
    case ok: True
    with mw(4) have t1: "holds_text m1 cs" "own m1" "menc m1 = menc m" "mn m1 = mn m" by (auto simp: codes)
    from t1(1) obtain p where z: "mz m1 = Some (utf_text (utf_writer (menc m)) cs @ p)"
      "has m1 MEM_Term \<longrightarrow> (\<exists>r. p = zeros (menc m) @ r)"
      "mn m1 = length (utf_text (utf_writer (menc m)) cs)" using t1(3) by (auto simp: holds_text_def)
    have W: "utf_writer (menc m) = WRITE_UTF16LE \<and> utf_writer e = WRITE_UTF16BE
        \<or> utf_writer (menc m) = WRITE_UTF16BE \<and> utf_writer e = WRITE_UTF16LE"
      using True t e by (auto simp: holds_text_def is_enc_def utf_writer_def codes)
    from swap_text [OF W] z have sw: "utf16_swap (utf_text (utf_writer (menc m)) cs @ p) (mn m1) = Some (utf_text (utf_writer e) cs @ p)"
      by simp
    have zz: "zeros e = zeros (menc m)" using True by (simp add: zeros_def)
    have len: "length (utf_text (utf_writer e) cs) = length (utf_text (utf_writer (menc m)) cs)"
      using W by (induction cs) (auto simp: write_len)
    have "sqlite3VdbeMemTranslate m e al = Some (SQLITE_OK, m1\<lparr>mz := Some (utf_text (utf_writer e) cs @ p), menc := e\<rparr>, al1)"
      using True mw(1) ok z sw by (simp add: sqlite3VdbeMemTranslate_def)
    moreover have "holds_text (m1\<lparr>mz := Some (utf_text (utf_writer e) cs @ p), menc := e\<rparr>) cs"
      using t1 z e len zz by (simp add: holds_text_def has_def)
    moreover have "mem_inv (m1\<lparr>mz := Some (utf_text (utf_writer e) cs @ p), menc := e\<rparr>)"
      using mw(2) t1(2) z(1) len by (auto simp: mem_inv_def simp flip: length_greater_0_conv)
    ultimately show ?thesis using mw ok by auto
  qed
next
  case False
  obtain ok al1 where al: "malloc_next al = (ok, al1)" by (cases "malloc_next al")
  have no: "no_oom al \<longrightarrow> ok \<and> no_oom al1" using malloc_next_no_oom al by blast
  from t obtain p where z: "mz m = Some (utf_text (utf_writer (menc m)) cs @ p)" "mn m = length (utf_text (utf_writer (menc m)) cs)"
    and cs: "\<forall>c \<in> set cs. utf_char c" and enc: "is_enc (menc m)"
    by (auto simp: holds_text_def)
  let ?z = "utf_text (utf_writer (menc m)) cs @ p" and ?out = "utf_text (utf_writer e) cs"
  have cs': "\<forall>c \<in> set cs. c < 0x110000" "\<forall>c \<in> set cs. c < 0x110000 \<and> \<not> is_surrogate c" "map utf8_value cs = cs"
    using cs by (auto simp: utf_char_def utf8_value_def intro!: map_idI)
  have conv: "(if menc m = SQLITE_UTF8
       then utf8_to_utf16 (if e = SQLITE_UTF16LE then WRITE_UTF16LE else WRITE_UTF16BE) ?z (mn m)
       else utf16_to_utf8 (menc m \<noteq> SQLITE_UTF16LE) ?z (mn m)) = Some ?out"
  proof (cases "menc m = SQLITE_UTF8")
    case True
    then show ?thesis using e utf8_to_utf16_text [OF cs'(1), of "utf_writer e" p] z(2) cs'(3)
      by (auto simp: utf_writer_def)
  next
    case ne: False
    then have "e = SQLITE_UTF8" using False by auto
    then show ?thesis using ne utf16_to_utf8_text [OF cs'(2), of "utf_writer (menc m)" "menc m \<noteq> SQLITE_UTF16LE" p] z(2)
      by (auto simp: utf_writer_def)
  qed
  have fit: "length ?out \<le> 2 * mn m"
  proof -
    have "length (utf_writer e c) \<le> 2 * length (utf_writer (menc m) c)" for c
      using False e write_len(1) [of c] write_len(2) [of c] enc
      by (auto simp: utf_writer_def is_enc_def write_len codes)
         (auto simp: WRITE_UTF8_def word_less_nat_alt word_le_nat_alt)
    then have "length (utf_text (utf_writer e) cs) \<le> 2 * length (utf_text (utf_writer (menc m)) cs)"
    proof (induction cs)
      case (Cons c cs)
      then show ?case using add_mono [of "length (utf_writer e c)" "2 * length (utf_writer (menc m) c)"] by fastforce
    qed simp
    then show ?thesis using z(2) by simp
  qed
  show ?thesis
  proof (cases ok)
    case nok: False
    with al False no inv show ?thesis by (auto simp: sqlite3VdbeMemTranslate_def Let_def)
  next
    case ok: True
    let ?len = "mn m * 2 + (if e = SQLITE_UTF8 then 1 else 2)"
    let ?zOut = "?out @ (if menc m = SQLITE_UTF8 then [0] else []) @ [0]"
    let ?buf = "?zOut @ drop (length ?zOut) (fresh_buf ?len)"
    have len: "length ?zOut \<le> ?len" using fit False e by auto
    have na: "\<not> has m MEM_Agg" using t by (simp add: holds_text_def)
    define m1 where "m1 = (if has m MEM_Dyn \<and> mxDel m then m\<lparr>mn := length ?out, mxDel := False\<rparr> else m\<lparr>mn := length ?out\<rparr>)
        \<lparr>mz := None, own := False, szMalloc := 0, mxDel := False\<rparr>"
    have rel: "sqlite3VdbeMemRelease (m\<lparr>mn := length ?out\<rparr>) = Some m1"
      using na by (simp add: sqlite3VdbeMemRelease_def sqlite3VdbeMemReleaseExternal_def has_def m1_def)
    have m1: "mflags m1 = mflags m" "mn m1 = length ?out" by (simp_all add: m1_def)
    let ?m = "(set_flags (MEM_Term OR MEM_Dyn) (clr_flags (MEM_Static OR MEM_Dyn OR MEM_Ephem) m1))
       \<lparr>menc := e, mz := Some ?buf, own := True, szMalloc := length ?buf\<rparr>"
    have "sqlite3VdbeMemTranslate m e al = Some (SQLITE_OK, ?m, al1)"
      using al ok z(1) conv len rel unfolding sqlite3VdbeMemTranslate_def Let_def if_not_P [OF False] by simp
    moreover have "mem_inv ?m" by (auto simp: mem_inv_def)
    moreover have "\<exists>r. (if menc m = SQLITE_UTF8 then [0] else []) @ [0] @ drop (length ?zOut) (fresh_buf ?len) = zeros e @ r"
      using False e by (auto simp: zeros_def)
    then have "holds_text ?m cs"
      using t e cs m1 by (auto simp: holds_text_def flag_simps bit_simps)
    ultimately show ?thesis using no ok by (intro exI [of _ SQLITE_OK] exI [of _ ?m] exI [of _ al1]) auto
  qed
qed

subsection \<open>Setting text\<close>

fun units_nz :: "u8 list \<Rightarrow> bool" where
  "units_nz [] = True"
| "units_nz (a # b # r) = (a OR b \<noteq> 0 \<and> units_nz r)"
| "units_nz [a] = False"

lemma units_nz_append: "units_nz xs \<Longrightarrow> units_nz (xs @ ys) = units_nz ys"
  by (induction xs rule: units_nz.induct) auto

lemma zero_scan_bytes:
  "0 \<notin> set xs \<Longrightarrow> length (pre @ xs) \<le> L \<Longrightarrow> zero_scan 1 (pre @ xs @ 0 # r) L (length pre) = Some (length (pre @ xs))"
proof (induction xs arbitrary: pre)
  case (Cons x xs)
  then show ?case using Cons.IH [of "pre @ [x]"] by (subst zero_scan.simps) (auto simp: peek_def nth_append)
qed (simp add: zero_scan.simps peek_def nth_append)

lemma zero_scan_units:
  "units_nz xs \<Longrightarrow> length (pre @ xs) \<le> L \<Longrightarrow> zero_scan 2 (pre @ xs @ 0 # 0 # r) L (length pre) = Some (length (pre @ xs))"
proof (induction xs arbitrary: pre rule: units_nz.induct)
  case (2 a b xs)
  then show ?case using "2.IH" [of "pre @ [a, b]"] by (subst zero_scan.simps) (auto simp: peek_def nth_append)
qed (simp_all add: zero_scan.simps peek_def nth_append)

lemma high_byte_nz: "(ucast (0xD8 + (x AND 3) :: u32) :: u8) \<noteq> 0" "(ucast (0xDC + (x AND 3) :: u32) :: u8) \<noteq> 0"
proof -
  have "0xD8 + (x AND 3) = (0xD8 OR (x AND 3) :: u32)" "0xDC + (x AND 3) = (0xDC OR (x AND 3) :: u32)"
    by (rule disjunctive_add_eq_or, rule bit_eqI32, simp add: bit_eval)+
  then have "bit (ucast (0xD8 + (x AND 3) :: u32) :: u8) 7" "bit (ucast (0xDC + (x AND 3) :: u32) :: u8) 7"
    by (simp_all add: bit_simps)
  then show "(ucast (0xD8 + (x AND 3) :: u32) :: u8) \<noteq> 0" "(ucast (0xDC + (x AND 3) :: u32) :: u8) \<noteq> 0" by auto
qed

lemma bmp_units_nz: "(c :: u32) \<le> 0xFFFF \<Longrightarrow> c \<noteq> 0 \<Longrightarrow> (ucast (c AND 0xFF) :: u8) \<noteq> 0 \<or> (ucast (drop_bit 8 c AND 0xFF) :: u8) \<noteq> 0"
proof (rule ccontr)
  assume c: "c \<le> 0xFFFF" "c \<noteq> 0" and z: "\<not> ((ucast (c AND 0xFF) :: u8) \<noteq> 0 \<or> (ucast (drop_bit 8 c AND 0xFF) :: u8) \<noteq> 0)"
  have "c < 2 ^ 16" using c(1) by (simp add: word_le_nat_alt word_less_nat_alt)
  then have h: "\<And>n. 16 \<le> n \<Longrightarrow> \<not> bit c n" using bits_above [of c 16] by blast
  have "c = ucast (ucast (c AND 0xFF) :: u8) OR push_bit 8 (ucast (ucast (drop_bit 8 c AND 0xFF) :: u8))"
    by (rule bit_eqI32) (simp add: bit_eval h)
  with z c(2) show False by simp
qed

lemma write_utf16_nz:
  "c \<noteq> 0 \<Longrightarrow> units_nz (WRITE_UTF16LE c) \<and> units_nz (WRITE_UTF16BE c)"
  using bmp_units_nz [of c] high_byte_nz by (auto simp: WRITE_UTF16LE_def WRITE_UTF16BE_def or_eq_0_iff)

lemma cont_nz: "(ucast (0x80 + (x AND 0x3F) :: u32) :: u8) \<noteq> 0"
  using cont_byte(1) [of x] by auto

lemma write_utf8_nz: "c < 0x110000 \<Longrightarrow> c \<noteq> 0 \<Longrightarrow> 0 \<notin> set (WRITE_UTF8 c)"
  using write_utf8_nonzero [of c] cont_nz by (auto simp: WRITE_UTF8_def split: if_splits)

lemma text_scan:
  assumes "is_enc e" "\<forall>c \<in> set cs. utf_char c \<and> c \<noteq> 0" "length (utf_text (utf_writer e) cs) \<le> L"
  shows "zero_scan (if e = SQLITE_UTF8 then 1 else 2) (utf_text (utf_writer e) cs @ zeros e @ r) L 0
    = Some (length (utf_text (utf_writer e) cs))"
proof (cases "e = SQLITE_UTF8")
  case True
  have "0 \<notin> set (utf_text WRITE_UTF8 cs)" using assms(2) write_utf8_nz by (auto simp: utf_text_def utf_char_def)
  then show ?thesis using True zero_scan_bytes [of "utf_text WRITE_UTF8 cs" "[]" L r] assms(3)
    by (simp add: utf_writer_def zeros_def)
next
  case False
  have "units_nz (utf_text (utf_writer e) cs)" using assms(2)
  proof (induction cs)
    case (Cons c cs)
    then have "units_nz (utf_writer e c)" using False write_utf16_nz by (auto simp: utf_writer_def)
    with Cons show ?case by (simp add: units_nz_append)
  qed simp
  then show ?thesis using False zero_scan_units [of "utf_text (utf_writer e) cs" "[]" L r] assms(3)
    by (simp add: zeros_def)
qed

text \<open>A byte-order mark in front of UTF-16 text is taken off.\<close>

definition strip_bom :: "int \<Rightarrow> u32 list \<Rightarrow> u32 list" where
  "strip_bom e cs = (if e \<noteq> SQLITE_UTF8 \<and> cs \<noteq> [] \<and> hd cs = 0xFEFF then tl cs else cs)"

lemma bom_bytes:
  assumes "utf_char c" "W = WRITE_UTF16LE \<or> W = WRITE_UTF16BE"
  shows "\<exists>b1 b2 r. W c = b1 # b2 # r \<and> (b1 = 0xFF \<and> b2 = 0xFE \<longleftrightarrow> c = 0xFEFF \<and> W = WRITE_UTF16LE)
     \<and> (b1 = 0xFE \<and> b2 = 0xFF \<longleftrightarrow> c = 0xFEFF \<and> W = WRITE_UTF16BE) \<and> (c = 0xFEFF \<longrightarrow> r = [])"
proof (cases "c \<le> 0xFFFF")
  case True
  then have "c < 2 ^ 16" by (simp add: word_le_nat_alt word_less_nat_alt)
  then have h: "\<And>n. 16 \<le> n \<Longrightarrow> \<not> bit c n" using bits_above [of c 16] by blast
  let ?l = "ucast (c AND 0xFF) :: u8" and ?h = "ucast (drop_bit 8 c AND 0xFF) :: u8"
  have "c = ucast ?l OR push_bit 8 (ucast ?h)" by (rule bit_eqI32) (simp add: bit_eval h)
  then have "?l = 0xFF \<and> ?h = 0xFE \<longleftrightarrow> c = 0xFEFF" "?l = 0xFE \<and> ?h = 0xFF \<longleftrightarrow> c = 0xFFFE" by auto
  moreover have "c \<noteq> 0xFFFE" using assms(1) by (auto simp: utf_char_def is_nonchar_def)
  moreover have "WRITE_UTF16LE \<noteq> WRITE_UTF16BE"
  proof
    assume "WRITE_UTF16LE = WRITE_UTF16BE"
    then have "WRITE_UTF16LE 1 = WRITE_UTF16BE 1" by simp
    then show False by (simp add: WRITE_UTF16LE_def WRITE_UTF16BE_def)
  qed
  ultimately show ?thesis using True assms(2) by (auto simp: WRITE_UTF16LE_def WRITE_UTF16BE_def)
next
  case False
  then have ne: "c \<noteq> 0xFEFF" by auto
  have "unat (drop_bit 18 (c - 0x10000) AND 3) \<le> 3" using unat_and_le [of "drop_bit 18 (c - 0x10000)" 3] by simp
  then have "drop_bit 18 (c - 0x10000) AND 3 \<in> {0, 1, 2, 3}" by (auto simp: word_unat_eq_iff)
  then have "(ucast (0xD8 + (drop_bit 18 (c - 0x10000) AND 3)) :: u8) \<notin> {0xFE, 0xFF}" by auto
  then show ?thesis using False ne assms(2) by (auto simp: WRITE_UTF16LE_def WRITE_UTF16BE_def)
qed

lemma handle_bom_law:
  assumes inv: "mem_inv m" and t: "holds_text m cs" and e: "menc m \<noteq> SQLITE_UTF8"
  shows "\<exists>rc m' al'. sqlite3VdbeMemHandleBom m al = Some (rc, m', al') \<and> mem_inv m'
     \<and> (no_oom al \<longrightarrow> rc = SQLITE_OK \<and> no_oom al')
     \<and> (rc = SQLITE_NOMEM \<or> rc = SQLITE_OK \<and> holds_text m' (strip_bom (menc m) cs) \<and> menc m' = menc m)"
proof -
  let ?W = "utf_writer (menc m)"
  from t obtain p where z: "mz m = Some (utf_text ?W cs @ p)" "mn m = length (utf_text ?W cs)"
    and cs: "\<forall>c \<in> set cs. utf_char c" and enc: "is_enc (menc m)" by (auto simp: holds_text_def)
  have W: "?W = WRITE_UTF16LE \<and> menc m = SQLITE_UTF16LE \<or> ?W = WRITE_UTF16BE \<and> menc m = SQLITE_UTF16BE"
    using e enc by (auto simp: utf_writer_def is_enc_def codes)
  have dist: "WRITE_UTF16LE \<noteq> WRITE_UTF16BE"
  proof
    assume "WRITE_UTF16LE = WRITE_UTF16BE"
    then have "WRITE_UTF16LE 1 = WRITE_UTF16BE 1" by simp
    then show False by (simp add: WRITE_UTF16LE_def WRITE_UTF16BE_def)
  qed
  show ?thesis
  proof (cases "cs = [] \<or> hd cs \<noteq> 0xFEFF")
    case True
    have "sqlite3VdbeMemHandleBom m al = Some (SQLITE_OK, m, al)"
    proof (cases cs)
      case Nil
      then show ?thesis using z by (simp add: sqlite3VdbeMemHandleBom_def)
    next
      case (Cons c ds)
      with cs have "utf_char c" by simp
      from bom_bytes [OF this, of ?W] W obtain b1 b2 r where "?W c = b1 # b2 # r"
        "b1 = 0xFF \<and> b2 = 0xFE \<longleftrightarrow> c = 0xFEFF \<and> ?W = WRITE_UTF16LE"
        "b1 = 0xFE \<and> b2 = 0xFF \<longleftrightarrow> c = 0xFEFF \<and> ?W = WRITE_UTF16BE" by blast
      then show ?thesis using z Cons True by (auto simp: sqlite3VdbeMemHandleBom_def)
    qed
    moreover have "strip_bom (menc m) cs = cs" using True by (auto simp: strip_bom_def)
    ultimately show ?thesis using inv t by simp
  next
    case False
    then obtain ds where ds: "cs = 0xFEFF # ds" by (cases cs) auto
    from cs ds have "utf_char 0xFEFF" by simp
    from bom_bytes [OF this, of ?W] W obtain b1 b2 where b: "?W 0xFEFF = [b1, b2]"
      "b1 = 0xFF \<and> b2 = 0xFE \<longleftrightarrow> ?W = WRITE_UTF16LE" "b1 = 0xFE \<and> b2 = 0xFF \<longleftrightarrow> ?W = WRITE_UTF16BE" by auto
    have st: "strip_bom (menc m) cs = ds" using e ds by (simp add: strip_bom_def)
    have "mn m > 1" using z ds b by simp
    moreover have "(if b1 = 0xFF \<and> b2 = 0xFE then SQLITE_UTF16LE else if b1 = 0xFE \<and> b2 = 0xFF then SQLITE_UTF16BE else 0) = menc m"
    proof -
      have ne: "SQLITE_UTF16LE \<noteq> SQLITE_UTF16BE" by (simp add: codes)
      from W dist ne have "?W = WRITE_UTF16LE \<longleftrightarrow> menc m = SQLITE_UTF16LE" "?W = WRITE_UTF16BE \<longleftrightarrow> menc m = SQLITE_UTF16BE"
        by metis+
      with b(2,3) W show ?thesis by presburger
    qed
    moreover have "menc m \<noteq> 0" using W by (auto simp: codes)
    ultimately have hb: "sqlite3VdbeMemHandleBom m al = do {
       (rc, m1, al1) \<leftarrow> sqlite3VdbeMemMakeWriteable m al;
       if rc = SQLITE_OK then do {
         z \<leftarrow> mz m1;
         let n = mn m1 - 2;
         z1 \<leftarrow> copy_into z (drop 2 z) n;
         m2 \<leftarrow> z_poke (m1\<lparr>mn := n, mz := Some z1\<rparr>) n 0;
         m3 \<leftarrow> z_poke m2 (n + 1) 0;
         Some (rc, (set_flags MEM_Term m3)\<lparr>menc := menc m\<rparr>, al1)
       } else Some (rc, m1, al1) }"
      using z ds b(1) by (simp add: sqlite3VdbeMemHandleBom_def numeral_2_eq_2)
    obtain rc m1 al1 where mw: "sqlite3VdbeMemMakeWriteable m al = Some (rc, m1, al1)" "mem_inv m1"
      "no_oom al \<longrightarrow> rc = SQLITE_OK \<and> no_oom al1"
      "rc = SQLITE_NOMEM \<or> rc = SQLITE_OK \<and> holds_text m1 cs \<and> own m1 \<and> menc m1 = menc m \<and> mn m1 = mn m"
      using make_writeable_text [OF inv t] by metis
    show ?thesis
    proof (cases "rc = SQLITE_OK")
      case nok: False
      with mw hb show ?thesis by auto
    next
      case ok: True
      with mw(4) have t1: "holds_text m1 cs" "own m1" "menc m1 = menc m" "mn m1 = mn m" by (auto simp: codes)
      then obtain q where q: "mz m1 = Some (b1 # b2 # utf_text ?W ds @ q)" "mn m1 = length (utf_text ?W ds) + 2"
        using ds b z by (auto simp: holds_text_def)
      let ?n = "length (utf_text ?W ds)" and ?z = "b1 # b2 # utf_text ?W ds @ q"
      let ?z1 = "utf_text ?W ds @ drop ?n ?z"
      have l: "length (drop ?n ?z) \<ge> 2" by simp
      then obtain x y r where xy: "drop ?n ?z = x # y # r" by (cases "drop ?n ?z"; cases "tl (drop ?n ?z)") auto
      have cp: "copy_into ?z (drop 2 ?z) ?n = Some ?z1" by (simp add: copy_into_def)
      let ?m2 = "m1\<lparr>mn := ?n, mz := Some (utf_text ?W ds @ 0 # y # r)\<rparr>"
      let ?m3 = "m1\<lparr>mn := ?n, mz := Some (utf_text ?W ds @ 0 # 0 # r)\<rparr>"
      have p1: "z_poke (m1\<lparr>mn := ?n, mz := Some ?z1\<rparr>) ?n 0 = Some ?m2"
        unfolding xy by (simp add: z_poke_def list_update_append)
      have p2: "z_poke ?m2 (?n + 1) 0 = Some ?m3" by (simp add: z_poke_def list_update_append)
      have n2: "mn m1 - 2 = ?n" using q(2) by simp
      have "sqlite3VdbeMemHandleBom m al = Some (SQLITE_OK, (set_flags MEM_Term ?m3)\<lparr>menc := menc m\<rparr>, al1)"
        unfolding hb by (simp only: mw(1) ok q(1) n2 cp p1 p2 Option.bind.simps prod.case if_True Let_def simp_thms)
      moreover have "length r + 2 = length (drop ?n ?z)" unfolding xy by simp
      then have "mem_inv ((set_flags MEM_Term ?m3)\<lparr>menc := menc m\<rparr>)"
        using mw(2) t1(2) q(1) by (auto simp: mem_inv_def)
      moreover have "holds_text ((set_flags MEM_Term ?m3)\<lparr>menc := menc m\<rparr>) ds"
        using t1 ds by (auto simp: holds_text_def flag_simps bit_simps)
      ultimately show ?thesis using mw(3) ok st by auto
    qed
  qed
qed

lemma release_law:
  "\<not> has m MEM_Agg \<Longrightarrow> \<exists>m'. sqlite3VdbeMemRelease m = Some m' \<and> mz m' = None \<and> \<not> own m' \<and> szMalloc m' = 0 \<and> \<not> mxDel m'
     \<and> mflags m' = mflags m"
  by (auto simp: sqlite3VdbeMemRelease_def sqlite3VdbeMemReleaseExternal_def)

text \<open>The cell right after SetStr has set its members, before a byte-order mark is looked for.\<close>

lemma set_text_fields:
  assumes "is_enc e" "\<forall>c \<in> set cs. utf_char c" "mz m1 = Some (utf_text (utf_writer e) cs @ p)"
    and "f = MEM_Str OR (if t then MEM_Term else 0) OR g" "g \<in> {0, MEM_Static, MEM_Dyn}" "t \<longrightarrow> (\<exists>r. p = zeros e @ r)"
  shows "holds_text (m1\<lparr>mn := length (utf_text (utf_writer e) cs), mflags := f, menc := e, mtype := ty\<rparr>) cs"
  using assms by (auto simp: holds_text_def flag_simps bit_simps)

lemma set_str_law:
  assumes inv: "mem_inv m" and na: "\<not> has m MEM_Agg" and e: "is_enc e" and cs: "\<forall>c \<in> set cs. utf_char c \<and> c \<noteq> 0"
    and len: "length (utf_text (utf_writer e) cs) \<le> iLimit" and n: "n = int (length (utf_text (utf_writer e) cs)) \<or> n < 0"
    and z: "z = utf_text (utf_writer e) cs @ zeros e @ r"
  shows "\<exists>rc m' al'. sqlite3VdbeMemSetStr m (Some z) n e xDel iLimit al = Some (rc, m', al') \<and> mem_inv m'
     \<and> (no_oom al \<longrightarrow> rc = SQLITE_OK \<and> no_oom al')
     \<and> (rc = SQLITE_NOMEM \<or> rc = SQLITE_OK \<and> holds_text m' (strip_bom e cs) \<and> menc m' = e)"
proof -
  let ?t = "utf_text (utf_writer e) cs" and ?tlen = "if e = SQLITE_UTF8 then 1 else 2 :: nat"
  define nByte where "nByte = length ?t"
  have e0: "e \<noteq> 0" using e by (auto simp: is_enc_def codes)
  have nb: "(if n < 0 then zero_scan (if e = SQLITE_UTF8 then 1 else 2) z iLimit 0 else Some (nat n)) = Some nByte"
    using text_scan [OF e cs len, of r] n by (auto simp: z nByte_def)
  have lz: "length (zeros e) = ?tlen" by (simp add: zeros_def)
  define f where "f = MEM_Str OR (if n < 0 then MEM_Term else 0) OR
      (case xDel of TRANSIENT \<Rightarrow> 0 | DYNAMIC \<Rightarrow> 0 | STATIC \<Rightarrow> MEM_Static | Callback \<Rightarrow> MEM_Dyn)"
  let ?set = "\<lambda>m1. m1\<lparr>mn := nByte, mflags := f, menc := e, mtype := SQLITE_TEXT\<rparr>"
  have cs': "\<forall>c \<in> set cs. utf_char c" using cs by blast
  have step: "\<exists>rc m1 al1. sqlite3VdbeMemSetStr m (Some z) n e xDel iLimit al =
        (if rc \<noteq> SQLITE_OK then Some (rc, m1, al1)
         else if e \<noteq> SQLITE_UTF8 then do {
           (rc, m3, al2) \<leftarrow> sqlite3VdbeMemHandleBom (?set m1) al1;
           Some (if rc \<noteq> SQLITE_OK then SQLITE_NOMEM else SQLITE_OK, m3, al2) }
         else Some (SQLITE_OK, ?set m1, al1)) \<and> mem_inv m1
     \<and> (no_oom al \<longrightarrow> rc = SQLITE_OK \<and> no_oom al1)
     \<and> (rc = SQLITE_NOMEM \<or> rc = SQLITE_OK \<and> (\<exists>p. mz m1 = Some (?t @ p) \<and> (n < 0 \<longrightarrow> (\<exists>r. p = zeros e @ r))))"
  proof -
    obtain m0 where m0: "sqlite3VdbeMemRelease m = Some m0" "\<not> own m0" using release_law [OF na] by blast
    have zne: "z \<noteq> []" using z by (simp add: zeros_def)
    have nl: "\<not> nByte > iLimit" using len by (simp add: nByte_def)
    show ?thesis
    proof (cases xDel)
      case TRANSIENT
      let ?nA = "nByte + (if n < 0 then ?tlen else 0)"
      have "\<exists>res. sqlite3VdbeMemGrow m ?nA False al = Some res \<and> grown m ?nA False al res"
        by (rule grow_law [OF inv]) simp
      then obtain rc m1 al1 where g: "sqlite3VdbeMemGrow m ?nA False al = Some (rc, m1, al1)" "grown m ?nA False al (rc, m1, al1)"
        by auto
      show ?thesis
      proof (cases "rc = SQLITE_OK")
        case False
        with g nb nl e0 TRANSIENT show ?thesis
          by (intro exI [of _ SQLITE_NOMEM] exI [of _ m1] exI [of _ al1])
             (auto simp: sqlite3VdbeMemSetStr_def Let_def grown_def codes)
      next
        case True
        with g(2) obtain b where b: "max ?nA 32 \<le> length b" "mz m1 = Some b" "mem_inv m1" "own m1" "no_oom al \<longrightarrow> no_oom al1"
          by (auto simp: grown_def SQLITE_OK_def SQLITE_NOMEM_def)
        have le: "?nA \<le> length z" "?nA \<le> length b" using b(1) lz by (auto simp: z nByte_def)
        let ?b = "take ?nA z @ drop ?nA b"
        have cp: "copy_into b z ?nA = Some ?b" using le by (simp add: copy_into_def)
        have p: "\<exists>p. ?b = ?t @ p \<and> (n < 0 \<longrightarrow> (\<exists>r. p = zeros e @ r))"
          using lz by (auto simp: z nByte_def)
        have f: "f = MEM_Str OR (if n < 0 then MEM_Term else 0)" using TRANSIENT by (simp add: f_def)
        have "mem_inv (m1\<lparr>mz := Some ?b\<rparr>)" using b le by (auto simp: mem_inv_def simp flip: length_greater_0_conv)
        then show ?thesis using g True nb nl e0 TRANSIENT b cp p f
          by (intro exI [of _ SQLITE_OK] exI [of _ "m1\<lparr>mz := Some ?b\<rparr>"] exI [of _ al1])
             (auto simp: sqlite3VdbeMemSetStr_def Let_def)
      qed
    next
      case DYNAMIC
      have f: "f = MEM_Str OR (if n < 0 then MEM_Term else 0)" using DYNAMIC by (simp add: f_def)
      let ?m1 = "m0\<lparr>mz := Some z, own := True, szMalloc := length z, mxDel := False\<rparr>"
      show ?thesis using nb nl e0 DYNAMIC m0 z zne f
        by (intro exI [of _ SQLITE_OK] exI [of _ ?m1] exI [of _ al])
           (auto simp: sqlite3VdbeMemSetStr_def Let_def mem_inv_def)
    next
      case STATIC
      have f: "f = MEM_Str OR (if n < 0 then MEM_Term else 0) OR MEM_Static" using STATIC by (simp add: f_def)
      let ?m1 = "m0\<lparr>mz := Some z, mxDel := False\<rparr>"
      show ?thesis using nb nl e0 STATIC m0 z f
        by (intro exI [of _ SQLITE_OK] exI [of _ ?m1] exI [of _ al])
           (auto simp: sqlite3VdbeMemSetStr_def Let_def mem_inv_def or.assoc)
    next
      case Callback
      have f: "f = MEM_Str OR (if n < 0 then MEM_Term else 0) OR MEM_Dyn" using Callback by (simp add: f_def)
      let ?m1 = "m0\<lparr>mz := Some z, mxDel := True\<rparr>"
      show ?thesis using nb nl e0 Callback m0 z f
        by (intro exI [of _ SQLITE_OK] exI [of _ ?m1] exI [of _ al])
           (auto simp: sqlite3VdbeMemSetStr_def Let_def mem_inv_def or.assoc)
    qed
  qed
  then obtain rc m1 al1 where s: "sqlite3VdbeMemSetStr m (Some z) n e xDel iLimit al =
        (if rc \<noteq> SQLITE_OK then Some (rc, m1, al1)
         else if e \<noteq> SQLITE_UTF8 then do {
           (rc, m3, al2) \<leftarrow> sqlite3VdbeMemHandleBom (?set m1) al1;
           Some (if rc \<noteq> SQLITE_OK then SQLITE_NOMEM else SQLITE_OK, m3, al2) }
         else Some (SQLITE_OK, ?set m1, al1))" "mem_inv m1" "no_oom al \<longrightarrow> rc = SQLITE_OK \<and> no_oom al1"
      "rc = SQLITE_NOMEM \<or> rc = SQLITE_OK \<and> (\<exists>p. mz m1 = Some (?t @ p) \<and> (n < 0 \<longrightarrow> (\<exists>r. p = zeros e @ r)))" by blast
  show ?thesis
  proof (cases "rc = SQLITE_OK")
    case False
    with s show ?thesis by auto
  next
    case True
    with s(4) obtain p where p: "mz m1 = Some (?t @ p)" "n < 0 \<longrightarrow> (\<exists>r. p = zeros e @ r)" by (auto simp: codes)
    have h: "holds_text (?set m1) cs" unfolding nByte_def
      by (rule set_text_fields [OF e cs' p(1) _ _ p(2)]) (auto simp: f_def split: destructor.split)
    have i: "mem_inv (?set m1)" using s(2) by (simp add: mem_inv_def)
    show ?thesis
    proof (cases "e = SQLITE_UTF8")
      case True
      with s(1,3) \<open>rc = SQLITE_OK\<close> h i show ?thesis by (auto simp: strip_bom_def)
    next
      case ne: False
      from handle_bom_law [OF i h, of al1] ne obtain rc' m' al' where
        "sqlite3VdbeMemHandleBom (?set m1) al1 = Some (rc', m', al')" "mem_inv m'" "no_oom al1 \<longrightarrow> rc' = SQLITE_OK \<and> no_oom al'"
        "rc' = SQLITE_NOMEM \<or> rc' = SQLITE_OK \<and> holds_text m' (strip_bom e cs) \<and> menc m' = e" by auto
      with s(1,3) True ne show ?thesis by (auto simp: codes)
    qed
  qed
qed

subsection \<open>The integer value of text\<close>

definition code_points :: "char list \<Rightarrow> u32 list" where
  "code_points s = map (\<lambda>c. word_of_nat (of_char c)) s"

lemma char_of_0: "char_of (0 :: nat) = NUL"
  by (simp add: char_of_def)

lemma chars_bytes:
  "\<forall>c \<in> set s. of_char c < (128 :: nat) \<Longrightarrow> chars_of (map (\<lambda>c. word_of_nat (of_char c)) s) = s"
proof (induction s)
  case (Cons c s)
  then have "unat (word_of_nat (of_char c) :: u8) = of_char c" by (simp add: unsigned_of_nat take_bit_nat_eq_self)
  with Cons show ?case by (simp add: chars_of_def)
qed (simp add: chars_of_def)

lemma ascii_bytes:
  "\<forall>c \<in> set s. of_char c < (128 :: nat) \<Longrightarrow>
   utf_text WRITE_UTF8 (code_points s) = map (\<lambda>c. word_of_nat (of_char c)) s"
proof (induction s)
  case (Cons c s)
  then have c: "of_char c < (128 :: nat)" by simp
  let ?w = "word_of_nat (of_char c) :: u32"
  have u: "unat ?w = of_char c" using c by (simp add: unsigned_of_nat take_bit_nat_eq_self)
  then have lt: "?w < 0x80" using c by (simp add: word_less_nat_alt)
  have "?w AND 0xFF = ?w" using bits_above [of ?w 7] lt by (intro bit_eqI32) (simp add: bit_eval)
  then have w: "WRITE_UTF8 ?w = [word_of_nat (of_char c)]" using lt u c
    by (simp add: WRITE_UTF8_def word_unat_eq_iff unsigned_ucast_eq take_bit_nat_eq_self unsigned_of_nat)
  with Cons w show ?case by (simp add: code_points_def)
qed (simp add: code_points_def)

lemma nul_terminate_law:
  assumes inv: "mem_inv m" and t: "holds_text m cs"
  shows "\<exists>rc m' al'. sqlite3VdbeMemNulTerminate m al = Some (rc, m', al') \<and> mem_inv m'
     \<and> (no_oom al \<longrightarrow> rc = SQLITE_OK \<and> no_oom al')
     \<and> (rc = SQLITE_NOMEM \<or> rc = SQLITE_OK \<and> holds_text m' cs \<and> has m' MEM_Term \<and> menc m' = menc m)"
proof (cases "has m MEM_Term")
  case True
  then show ?thesis using assms by (auto simp: sqlite3VdbeMemNulTerminate_def)
next
  case False
  then show ?thesis using grow_terminate [OF inv t, of al] t
    by (fastforce simp: sqlite3VdbeMemNulTerminate_def holds_text_def)
qed

lemma change_encoding_law:
  assumes "mem_inv m" "holds_text m cs" "is_enc e"
  shows "\<exists>rc m' al'. sqlite3VdbeChangeEncoding m e al = Some (rc, m', al') \<and> mem_inv m'
     \<and> (no_oom al \<longrightarrow> rc = SQLITE_OK \<and> no_oom al')
     \<and> (rc = SQLITE_NOMEM \<or> rc = SQLITE_OK \<and> holds_text m' cs \<and> menc m' = e)"
proof (cases "menc m = e")
  case True
  then show ?thesis using assms by (auto simp: sqlite3VdbeChangeEncoding_def)
next
  case False
  then show ?thesis using translate_law [OF assms(1,2,3)] assms(2)
    by (auto simp: sqlite3VdbeChangeEncoding_def holds_text_def)
qed

lemma int_value_law:
  assumes inv: "mem_inv m" and t: "holds_text m (code_points s)" and f: "\<not> has m MEM_Int" "\<not> has m MEM_Real"
    and s: "\<forall>c \<in> set s. of_char c < (128 :: nat)" "NUL \<notin> set s" and al: "no_oom al"
    and n: "int_text s = Some n" "- (2 ^ 63) \<le> n" "n < 2 ^ 63"
  shows "\<exists>m' al'. sqlite3VdbeIntValue m al = Some (word_of_int n, m', al') \<and> mem_inv m' \<and> holds_text m' (code_points s)"
proof -
  have st: "has m MEM_Str" "\<not> has m MEM_Zero" using t by (auto simp: holds_text_def)
  have i1: "mem_inv (set_flags MEM_Str m)" using inv by (simp add: mem_inv_def)
  have t1: "holds_text (set_flags MEM_Str m) (code_points s)" using t st by (auto simp: holds_text_def flag_simps bit_simps)
  obtain rc m1 al1 where e: "sqlite3VdbeChangeEncoding (set_flags MEM_Str m) SQLITE_UTF8 al = Some (rc, m1, al1)" "mem_inv m1"
     "no_oom al \<longrightarrow> rc = SQLITE_OK \<and> no_oom al1"
     "rc = SQLITE_NOMEM \<or> rc = SQLITE_OK \<and> holds_text m1 (code_points s) \<and> menc m1 = SQLITE_UTF8"
    using change_encoding_law [OF i1 t1, of SQLITE_UTF8 al] by (auto simp: is_enc_def)
  with al have rc: "rc = SQLITE_OK" "no_oom al1" and t2: "holds_text m1 (code_points s)" "menc m1 = SQLITE_UTF8"
    by (auto simp: codes)
  obtain rc2 m2 al2 where t: "sqlite3VdbeMemNulTerminate m1 al1 = Some (rc2, m2, al2)" "mem_inv m2"
     "no_oom al1 \<longrightarrow> rc2 = SQLITE_OK \<and> no_oom al2"
     "rc2 = SQLITE_NOMEM \<or> rc2 = SQLITE_OK \<and> holds_text m2 (code_points s) \<and> has m2 MEM_Term \<and> menc m2 = menc m1"
    using nul_terminate_law [OF e(2) t2(1), of al1] by blast
  with rc t2 have rc2: "rc2 = SQLITE_OK" and t3: "holds_text m2 (code_points s)" "has m2 MEM_Term" "menc m2 = SQLITE_UTF8"
    by (auto simp: codes)
  then obtain r where z: "mz m2 = Some (utf_text WRITE_UTF8 (code_points s) @ 0 # r)"
    by (auto simp: holds_text_def zeros_def utf_writer_def)
  have ch: "chars_of (utf_text WRITE_UTF8 (code_points s) @ 0 # r) = s @ NUL # chars_of r"
    using ascii_bytes [OF s(1)] chars_bytes [OF s(1)] by (simp add: chars_of_def char_of_0)
  obtain ok v where a: "sqlite3Atoi64 (s @ NUL # chars_of r) = Some (ok, v)"
     "ok \<longleftrightarrow> (\<exists>n. int_text s = Some n \<and> - (2 ^ 63) \<le> n \<and> n < 2 ^ 63)" "ok \<longrightarrow> int_text s = Some (sint v)"
    using Atoi64_spec [OF s(2), of "chars_of r"] by blast
  then have "v = word_of_int n" using n by auto
  then have "sqlite3VdbeIntValue m al = Some (word_of_int n, m2, al2)"
    using f st e(1) rc t(1) rc2 z ch a(1) by (simp add: sqlite3VdbeIntValue_def has_or)
  then show ?thesis using t(2) t3(1) by blast
qed

subsection \<open>Copies\<close>

lemma mem_copy_law:
  assumes inv: "mem_inv pFrom" "mem_inv pTo" and t: "holds_text pFrom cs" and na: "\<not> has pTo MEM_Agg"
  shows "\<exists>rc m' al'. sqlite3VdbeMemCopy pTo pFrom al = Some (rc, m', al') \<and> mem_inv m'
     \<and> (no_oom al \<longrightarrow> rc = SQLITE_OK \<and> no_oom al')
     \<and> (rc = SQLITE_NOMEM \<or> rc = SQLITE_OK \<and> holds_text m' cs \<and> menc m' = menc pFrom \<and> (own m' \<or> has pFrom MEM_Static))"
proof -
  obtain m0 where m0: "sqlite3VdbeMemReleaseExternal pTo = Some m0"
    using na by (cases "sqlite3VdbeMemReleaseExternal pTo") (auto simp: sqlite3VdbeMemReleaseExternal_def split: if_splits)
  let ?m1 = "clr_flags MEM_Dyn (memcell_copy m0 pFrom)" and ?m2 = "set_flags MEM_Ephem (clr_flags MEM_Dyn (memcell_copy m0 pFrom))"
  have h: "holds_text ?m1 cs" "holds_text ?m2 cs"
    using t by (auto simp: holds_text_def memcell_copy_def flag_simps bit_simps)
  have i: "mem_inv ?m1" "mem_inv ?m2" by (simp_all add: mem_inv_def memcell_copy_def)
  have s: "has ?m1 (MEM_Str OR MEM_Blob)" using h(1) by (simp add: holds_text_def has_or)
  have e: "menc ?m2 = menc pFrom" "menc ?m1 = menc pFrom" by (simp_all add: memcell_copy_def)
  show ?thesis
  proof (cases "has pFrom MEM_Static")
    case True
    then show ?thesis using m0 h i e by (auto simp: sqlite3VdbeMemCopy_def Let_def)
  next
    case False
    then show ?thesis using m0 s make_writeable_text [OF i(2) h(2), of al] e
      by (auto simp: sqlite3VdbeMemCopy_def Let_def)
  qed
qed

lemma dbl_limits:
  "dbl_of_i64 (- (2 ^ 63)) = 0xC3E0000000000000" "dbl_of_i64 (2 ^ 63 - 1) = 0x43E0000000000000"
  by (simp_all add: dbl_of_i64_def dbl_of_nat_def bitlen.simps [of "numeral _"] bitlen.simps [of "Suc 0"] bitlen.simps [of 0]
      Let_def)

lemma doubleToInt64_exact:
  assumes "\<bar>sint i\<bar> < 2 ^ 53" shows "doubleToInt64 (dbl_of_i64 i) = Some i"
proof -
  have b: "dbl_of_nat m < 1076 * 2 ^ 52" if "m < 2 ^ 53" for m
  proof (cases "m = 0")
    case False
    then show ?thesis using dbl_of_nat_small [of m] that by simp
  qed (simp add: dbl_of_nat_def)
  have "nat (sint i) < 2 ^ 53" "nat (- sint i) < 2 ^ 53" using assms by (simp_all add: nat_less_iff)
  from b [OF this(1)] b [OF this(2)] have k: "\<bar>dbl_key (dbl_of_i64 i)\<bar> < 1076 * 2 ^ 52"
    using assms by (auto simp: dbl_of_i64_key)
  have l: "dbl_key 0xC3E0000000000000 = - (1086 * 2 ^ 52)" "dbl_key 0x43E0000000000000 = 1086 * 2 ^ 52"
    by (simp_all add: dbl_key_def)
  show ?thesis unfolding doubleToInt64_def dbl_limits using dbl_exact [OF assms] k l by (auto simp: dbl_lt_def)
qed

subsection \<open>Properties\<close>

text \<open>A well-formed cell for the examples below.\<close>

definition null_mem :: Mem where
  "null_mem = \<lparr>mi = 0, mr = 0, mz = None, mn = 0, mflags = MEM_Null, mtype = SQLITE_NULL, menc = SQLITE_UTF8,
     mxDel = False, own = False, szMalloc = 0\<rparr>"

definition abc_mem :: Mem where
  "abc_mem = null_mem\<lparr>mz := Some [0x61, 0x62, 0x63, 0], mn := 3, mflags := MEM_Str OR MEM_Static OR MEM_Term, mtype := SQLITE_TEXT\<rparr>"

lemma abc_mem: "mem_inv abc_mem" "holds_text abc_mem [0x61, 0x62, 0x63]"
  by (auto simp: abc_mem_def null_mem_def mem_inv_def holds_text_def flag_simps bit_simps is_enc_def utf_char_def
      is_surrogate_def is_nonchar_def utf_writer_def WRITE_UTF8_def zeros_def)

text \<open>C8: Changing the encoding of a cell that holds text: the call returns, reads and writes only
  inside the buffers, and the cell holds the same characters in the encoding asked for, or the call
  reports SQLITE_NOMEM, which it does only when an allocation fails.\<close>

theorem change_encoding_keeps_text:
  assumes "mem_inv m" "holds_text m cs" "is_enc e"
  shows "\<exists>rc m' al'. sqlite3VdbeChangeEncoding m e al = Some (rc, m', al') \<and> mem_inv m'
     \<and> (no_oom al \<longrightarrow> rc = SQLITE_OK)
     \<and> (rc = SQLITE_NOMEM \<or> rc = SQLITE_OK \<and> holds_text m' cs \<and> menc m' = e)"
  using change_encoding_law [OF assms, of al] by blast

theorem change_encoding_keeps_text_witness:
  "\<exists>rc m' al'. sqlite3VdbeChangeEncoding abc_mem SQLITE_UTF16BE [] = Some (rc, m', al')
     \<and> holds_text m' [0x61, 0x62, 0x63] \<and> menc m' = SQLITE_UTF16BE"
  using change_encoding_keeps_text [OF abc_mem, of SQLITE_UTF16BE "[]"] by (auto simp: is_enc_def codes)

text \<open>C12: Setting a cell to text, whatever the ownership of the string and whether its length is given
  or found by its terminator, leaves a cell that holds exactly those characters in that encoding, less
  a byte-order mark in front of UTF-16; SQLITE_NOMEM is the only other outcome and needs a failed
  allocation.\<close>

theorem set_str_holds_text:
  assumes "mem_inv m" and "\<not> has m MEM_Agg" and "is_enc e" and "\<forall>c \<in> set cs. utf_char c \<and> c \<noteq> 0"
    and "length (utf_text (utf_writer e) cs) \<le> iLimit" and "n = int (length (utf_text (utf_writer e) cs)) \<or> n < 0"
  shows "\<exists>rc m' al'. sqlite3VdbeMemSetStr m (Some (utf_text (utf_writer e) cs @ zeros e @ r)) n e xDel iLimit al = Some (rc, m', al')
     \<and> mem_inv m' \<and> (no_oom al \<longrightarrow> rc = SQLITE_OK)
     \<and> (rc = SQLITE_NOMEM \<or> rc = SQLITE_OK \<and> holds_text m' (strip_bom e cs) \<and> menc m' = e)"
  using set_str_law [OF assms refl, of r xDel al] by blast

theorem set_str_holds_text_witness:
  "\<exists>rc m' al'. sqlite3VdbeMemSetStr null_mem (Some (utf_text (utf_writer SQLITE_UTF16LE) [0xFEFF, 0x41] @ zeros SQLITE_UTF16LE @ []))
       (- 1) SQLITE_UTF16LE TRANSIENT 1000 [] = Some (rc, m', al') \<and> holds_text m' [0x41]"
proof -
  have "mem_inv null_mem" "\<not> has null_mem MEM_Agg" by (simp_all add: mem_inv_def null_mem_def flag_simps)
  moreover have "\<forall>c \<in> set [0xFEFF, 0x41]. utf_char c \<and> c \<noteq> 0" by (simp add: utf_char_def is_surrogate_def is_nonchar_def)
  ultimately show ?thesis
    using set_str_holds_text [of null_mem SQLITE_UTF16LE "[0xFEFF, 0x41]" 1000 "- 1" "[]" TRANSIENT "[]"]
    by (auto simp: is_enc_def utf_writer_def WRITE_UTF16LE_def codes strip_bom_def)
qed

text \<open>C16: The integer value of a cell that holds the decimal text of an integer of 64 bits is that
  integer, in whatever encoding the text is; reading it keeps the text.\<close>

theorem int_value_of_text:
  assumes "mem_inv m" and "holds_text m (code_points s)" and "\<not> has m MEM_Int" and "\<not> has m MEM_Real"
    and "\<forall>c \<in> set s. of_char c < (128 :: nat)" and "NUL \<notin> set s" and "no_oom al"
    and "int_text s = Some n" and "- (2 ^ 63) \<le> n" and "n < 2 ^ 63"
  shows "\<exists>m' al'. sqlite3VdbeIntValue m al = Some (word_of_int n, m', al') \<and> mem_inv m' \<and> holds_text m' (code_points s)"
  by (rule int_value_law [OF assms])

definition minus12_mem :: Mem where
  "minus12_mem = null_mem\<lparr>mz := Some [0, 0x2D, 0, 0x31, 0, 0x32], mn := 6, mflags := MEM_Str OR MEM_Static,
     menc := SQLITE_UTF16BE, mtype := SQLITE_TEXT\<rparr>"

theorem int_value_of_text_witness:
  "\<exists>m' al'. sqlite3VdbeIntValue minus12_mem [] = Some (- 12, m', al') \<and> holds_text m' (code_points ''-12'')"
proof -
  have "mem_inv minus12_mem" "holds_text minus12_mem (code_points ''-12'')" "\<not> has minus12_mem MEM_Int" "\<not> has minus12_mem MEM_Real"
    by (auto simp: minus12_mem_def null_mem_def mem_inv_def holds_text_def has_def is_enc_def utf_char_def
        is_surrogate_def is_nonchar_def utf_writer_def WRITE_UTF16BE_def zeros_def code_points_def codes)
  moreover have "int_text ''-12'' = Some (- 12)"
    by (simp add: int_text_def strip_sign_def signed_def isspace_def isdigit_def digit_val_def)
  ultimately show ?thesis using int_value_of_text [of minus12_mem "''-12''" "[]" "- 12"] by simp blast
qed

text \<open>A copy of a text cell holds the same characters in the same encoding in a buffer of its own,
  unless the text is static and can be shared; the original is not changed.\<close>

theorem mem_copy_holds_text:
  assumes "mem_inv pFrom" "mem_inv pTo" "holds_text pFrom cs" "\<not> has pTo MEM_Agg"
  shows "\<exists>rc m' al'. sqlite3VdbeMemCopy pTo pFrom al = Some (rc, m', al') \<and> mem_inv m' \<and> (no_oom al \<longrightarrow> rc = SQLITE_OK)
     \<and> (rc = SQLITE_NOMEM \<or> rc = SQLITE_OK \<and> holds_text m' cs \<and> menc m' = menc pFrom \<and> (own m' \<or> has pFrom MEM_Static))"
  using mem_copy_law [OF assms, of al] by blast

theorem mem_copy_holds_text_witness:
  "\<exists>rc m' al'. sqlite3VdbeMemCopy null_mem abc_mem [] = Some (rc, m', al') \<and> holds_text m' [0x61, 0x62, 0x63]"
proof -
  have "mem_inv null_mem" "\<not> has null_mem MEM_Agg" by (simp_all add: mem_inv_def null_mem_def flag_simps)
  then show ?thesis using mem_copy_holds_text [OF abc_mem(1) _ abc_mem(2), of null_mem "[]"] by (auto simp: codes)
qed

text \<open>A real number that is an integer of at most 53 bits is recognised as that integer:
  sqlite3VdbeIntegerAffinity converts it back without loss and adds the integer representation.\<close>

theorem integer_affinity_exact:
  assumes "\<bar>sint i\<bar> < 2 ^ 53" and "mr m = dbl_of_i64 i"
  shows "sqlite3VdbeIntegerAffinity m = Some (set_flags MEM_Int (m\<lparr>mi := i\<rparr>))"
  using doubleToInt64_exact [OF assms(1)] assms
  by (simp add: sqlite3VdbeIntegerAffinity_def dbl_eq_def dbl_of_i64_key(2) Let_def)

theorem integer_affinity_exact_witness:
  "sqlite3VdbeIntegerAffinity (null_mem\<lparr>mr := dbl_of_i64 (- 7), mflags := MEM_Real\<rparr>)
     = Some (set_flags MEM_Int (null_mem\<lparr>mr := dbl_of_i64 (- 7), mflags := MEM_Real, mi := - 7\<rparr>))"
  using integer_affinity_exact [of "- 7" "null_mem\<lparr>mr := dbl_of_i64 (- 7), mflags := MEM_Real\<rparr>"] by simp

text \<open>MakeWriteable drops the result of expanding a zero-filled blob: it reports success although
  the allocation failed and the cell has lost its content.\<close>

lemma make_writeable_ignores_nomem:
  "sqlite3VdbeMemMakeWriteable (null_mem\<lparr>mz := Some [1], mn := 1, mi := 5, mflags := MEM_Blob OR MEM_Zero OR MEM_Static\<rparr>) [False]
     = Some (SQLITE_OK, null_mem\<lparr>mz := None, mn := 1, mi := 5, mflags := MEM_Blob OR MEM_Zero\<rparr>, [])"
  by (simp add: sqlite3VdbeMemMakeWriteable_def sqlite3VdbeMemExpandBlob_def sqlite3VdbeMemGrow_def null_mem_def
      z_is_zMalloc_def has_def clr_flags_def Let_def codes)

text \<open>The largest 64-bit integer rounds up to 2 to the 63 as a double, so the range test of
  doubleToInt64 lets that value through to a conversion that is undefined.\<close>

lemma double_2pow63_undefined: "doubleToInt64 0x43E0000000000000 = None"
  by (simp add: doubleToInt64_def dbl_lt_def dbl_key_def dbl_isnan_def dbl_exp_def dbl_frac_def dbl_of_i64_def dbl_of_nat_def
      bitlen.simps [of "numeral _"] bitlen.simps [of "Suc 0"] bitlen.simps [of 0] i64_of_dbl_def Let_def)

end
