(* ===== verification/Serial.thy ===== *)
theory Serial
  imports Varint VdbeMem
begin

text \<open>
  One value of the record format (vdbeaux.c): its serial type, the bytes it is stored as, and
  reading them back into a cell of VdbeMem.
\<close>

subsection \<open>One value\<close>

definition MAX_6BYTE :: u64 where "MAX_6BYTE = push_bit 32 0x8000 - 1"

definition sqlite3VdbeSerialType :: "Mem \<Rightarrow> int \<Rightarrow> u32" where
  "sqlite3VdbeSerialType m file_format =
     (if has m MEM_Null then 0
      else if has m MEM_Int then
        (let i = mi m; u = (if sint i < 0 then - i else i) in
         if file_format \<ge> 4 \<and> i AND 1 = i then 8 + ucast i
         else if u \<le> 127 then 1
         else if u \<le> 32767 then 2
         else if u \<le> 8388607 then 3
         else if u \<le> 2147483647 then 4
         else if u \<le> MAX_6BYTE then 5
         else 6)
      else if has m MEM_Real then 7
      else (let n = word_of_nat (mn m) + (if has m MEM_Zero then ucast (mi m) else 0) in
            n * 2 + 12 + (if has m MEM_Str then 1 else 0)))"

definition aSize :: "nat list" where
  "aSize = [0, 1, 2, 3, 4, 6, 8, 8, 0, 0, 0, 0]"

definition sqlite3VdbeSerialTypeLen :: "u32 \<Rightarrow> nat" where
  "sqlite3VdbeSerialTypeLen serial_type =
     (if serial_type \<ge> 12 then unat ((serial_type - 12) div 2) else aSize ! unat serial_type)"

text \<open>\<open>while( i-- ){ buf[i] = (v&0xFF); v >>= 8; }\<close>\<close>

fun put_be :: "nat \<Rightarrow> u64 \<Rightarrow> u8 list \<Rightarrow> u8 list" where
  "put_be 0 v acc = acc"
| "put_be (Suc i) v acc = put_be i (drop_bit 8 v) (ucast (v AND 0xFF) # acc)"

text \<open>The bytes written to \<open>buf\<close>, of which \<open>nBuf\<close> are available; writing more is undefined.\<close>

definition sqlite3VdbeSerialPut :: "nat \<Rightarrow> Mem \<Rightarrow> int \<Rightarrow> u8 list option" where
  "sqlite3VdbeSerialPut nBuf m file_format =
     (let st = sqlite3VdbeSerialType m file_format in
      if st \<le> 7 \<and> st > 0 then
        (let v = (if st = 7 then mr m else mi m); len = sqlite3VdbeSerialTypeLen st in
         if len \<le> nBuf then Some (put_be len v []) else None)
      else if st \<ge> 12 then
        (if mn m \<le> nBuf then do {
           z \<leftarrow> (if mn m = 0 then Some [] else mz m);
           out \<leftarrow> (if mn m \<le> length z then Some (take (mn m) z) else None);
           Some (out @ (if has m MEM_Zero then replicate (min (nat (sint (mi m))) (nBuf - mn m)) 0 else []))
         } else None)
      else Some [])"

definition be4 :: "u8 \<Rightarrow> u8 \<Rightarrow> u8 \<Rightarrow> u8 \<Rightarrow> u32" where
  "be4 a b c d = push_bit 24 (ucast a) OR push_bit 16 (ucast b) OR push_bit 8 (ucast c) OR ucast d"

definition sqlite3VdbeSerialGet :: "u8 list \<Rightarrow> u32 \<Rightarrow> Mem \<Rightarrow> (nat \<times> Mem) option" where
  "sqlite3VdbeSerialGet buf st m =
     (let int_value = (\<lambda>n (i :: i64). Some (n, m\<lparr>mi := i, mflags := MEM_Int\<rparr>)) in
      if st = 0 \<or> st = 10 \<or> st = 11 then Some (0, m\<lparr>mflags := MEM_Null\<rparr>)
      else if st = 1 then do { a \<leftarrow> peek buf 0; int_value 1 (scast a) }
      else if st = 2 then do {
        a \<leftarrow> peek buf 0; b \<leftarrow> peek buf 1;
        int_value 2 (scast (push_bit 8 (scast a) OR ucast b :: u32)) }
      else if st = 3 then do {
        a \<leftarrow> peek buf 0; b \<leftarrow> peek buf 1; c \<leftarrow> peek buf 2;
        int_value 3 (scast (push_bit 16 (scast a) OR push_bit 8 (ucast b) OR ucast c :: u32)) }
      else if st = 4 then do {
        a \<leftarrow> peek buf 0; b \<leftarrow> peek buf 1; c \<leftarrow> peek buf 2; d \<leftarrow> peek buf 3;
        int_value 4 (scast (be4 a b c d)) }
      else if st = 5 then do {
        a \<leftarrow> peek buf 0; b \<leftarrow> peek buf 1; c \<leftarrow> peek buf 2; d \<leftarrow> peek buf 3; e \<leftarrow> peek buf 4; f \<leftarrow> peek buf 5;
        let x = scast (push_bit 8 (scast a) OR ucast b :: u32);
        int_value 6 (push_bit 32 x OR ucast (be4 c d e f)) }
      else if st = 6 \<or> st = 7 then do {
        a \<leftarrow> peek buf 0; b \<leftarrow> peek buf 1; c \<leftarrow> peek buf 2; d \<leftarrow> peek buf 3;
        e \<leftarrow> peek buf 4; f \<leftarrow> peek buf 5; g \<leftarrow> peek buf 6; h \<leftarrow> peek buf 7;
        let x = push_bit 32 (scast (be4 a b c d)) OR ucast (be4 e f g h);
        if st = 6 then int_value 8 x
        else Some (8, m\<lparr>mr := x, mflags := (if dbl_isnan x then MEM_Null else MEM_Real)\<rparr>) }
      else if st = 8 \<or> st = 9 then int_value 0 (ucast (st - 8))
      else (let len = unat ((st - 12) div 2) in
            Some (len, m\<lparr>mz := Some buf, mn := len, own := False, mxDel := False,
                         mflags := (if st AND 1 \<noteq> 0 then MEM_Str OR MEM_Ephem else MEM_Blob OR MEM_Ephem)\<rparr>)))"

subsection \<open>The value of a cell\<close>

datatype sval = VNull | VInt i64 | VReal dbl | VText "u8 list" | VBlob "u8 list"

definition mem_value :: "Mem \<Rightarrow> sval" where
  "mem_value m =
     (if has m MEM_Null then VNull
      else if has m MEM_Int then VInt (mi m)
      else if has m MEM_Real then VReal (mr m)
      else (let b = take (mn m) (the (mz m)) @ (if has m MEM_Zero then replicate (nat (sint (mi m))) 0 else []) in
            if has m MEM_Str then VText b else VBlob b))"

text \<open>What a cell must satisfy to be stored: real numbers are no NaN, the bytes of text or of a blob
  are there and fewer than \<open>2\<^sup>3\<^sup>0\<close> (the limit SQLITE_MAX_LENGTH is lower), and a zero-filled
  tail has been expanded.\<close>

definition storable :: "Mem \<Rightarrow> bool" where
  "storable m \<longleftrightarrow> has m MEM_Null \<or> has m MEM_Int \<or> has m MEM_Real \<and> \<not> dbl_isnan (mr m)
     \<or> \<not> has m MEM_Real \<and> \<not> has m MEM_Zero \<and> (has m MEM_Str \<or> has m MEM_Blob) \<and> (\<exists>z. mz m = Some z \<and> mn m \<le> length z) \<and> mn m < 2 ^ 30 - 10"

subsection \<open>Integers of every length\<close>

lemma sign_bits:
  assumes "- (2 ^ k) \<le> sint (i :: i64)" "sint i < 2 ^ k" "k < n" "n < 64"
  shows "bit i n = bit i k"
proof -
  have "signed_take_bit k (sint i) = sint i" using assms by (simp add: signed_take_bit_int_eq_self)
  then have "bit (sint i) n = bit (signed_take_bit k (sint i)) n" by simp
  then show ?thesis using assms(3,4) by (simp add: bit_signed_take_bit_iff bit_sint_iff min_def split: if_splits)
qed

text \<open>The magnitude test of SerialType bounds the integer.\<close>

lemma uint_magnitude: "uint (if sint i < 0 then - i else i) = \<bar>sint (i :: i64)\<bar>"
proof (cases "sint i < 0")
  case True
  have ge: "- (2 ^ 63) \<le> sint i" using sint_ge [of i] by simp
  have "uint (- i) = (- (sint i mod 2 ^ 64)) mod 2 ^ 64"
    by (simp add: uint_word_ariths uint_sint [of i] take_bit_eq_mod)
  also have "\<dots> = (- sint i) mod 2 ^ 64" by (rule mod_minus_eq)
  also have "\<dots> = - sint i" using True ge by (intro mod_pos_pos_trivial) auto
  finally show ?thesis using True by simp
next
  case False
  have "sint i < 2 ^ 63" using sint_lt [of i] by simp
  with False have "uint i = sint i" by (simp add: uint_sint take_bit_int_eq_self)
  then show ?thesis using False by simp
qed

lemma magnitude:
  fixes i :: i64 defines "u \<equiv> (if sint i < 0 then - i else i)"
  assumes "b < 2 ^ 63"
  shows "u \<le> word_of_nat b \<longleftrightarrow> \<bar>sint i\<bar> \<le> int b"
proof -
  have "uint (word_of_nat b :: i64) = int b" using assms(2)
    by (simp add: unsigned_of_nat uint_nat take_bit_nat_eq_self flip: of_nat_take_bit)
  then show ?thesis using uint_magnitude [of i] by (simp add: u_def word_le_def)
qed

lemma put_be_list:
  "put_be 1 v [] = [ucast (v AND 0xFF)]"
  "put_be 2 v [] = [ucast (drop_bit 8 v AND 0xFF), ucast (v AND 0xFF)]"
  "put_be 3 v [] = [ucast (drop_bit 16 v AND 0xFF), ucast (drop_bit 8 v AND 0xFF), ucast (v AND 0xFF)]"
  "put_be 4 v [] = [ucast (drop_bit 24 v AND 0xFF), ucast (drop_bit 16 v AND 0xFF), ucast (drop_bit 8 v AND 0xFF), ucast (v AND 0xFF)]"
  "put_be 6 v [] = [ucast (drop_bit 40 v AND 0xFF), ucast (drop_bit 32 v AND 0xFF), ucast (drop_bit 24 v AND 0xFF),
     ucast (drop_bit 16 v AND 0xFF), ucast (drop_bit 8 v AND 0xFF), ucast (v AND 0xFF)]"
  "put_be 8 v [] = [ucast (drop_bit 56 v AND 0xFF), ucast (drop_bit 48 v AND 0xFF), ucast (drop_bit 40 v AND 0xFF),
     ucast (drop_bit 32 v AND 0xFF), ucast (drop_bit 24 v AND 0xFF), ucast (drop_bit 16 v AND 0xFF), ucast (drop_bit 8 v AND 0xFF),
     ucast (v AND 0xFF)]"
  by (simp_all add: eval_nat_numeral)

lemma join_be:
  "- (2 ^ 7) \<le> sint i \<Longrightarrow> sint i < 2 ^ 7 \<Longrightarrow> scast (ucast (i AND 0xFF) :: u8) = (i :: i64)"
  "- (2 ^ 15) \<le> sint i \<Longrightarrow> sint i < 2 ^ 15 \<Longrightarrow>
     scast (push_bit 8 (scast (ucast (drop_bit 8 i AND 0xFF) :: u8)) OR ucast (ucast (i AND 0xFF) :: u8) :: u32) = i"
  "- (2 ^ 23) \<le> sint i \<Longrightarrow> sint i < 2 ^ 23 \<Longrightarrow>
     scast (push_bit 16 (scast (ucast (drop_bit 16 i AND 0xFF) :: u8)) OR push_bit 8 (ucast (ucast (drop_bit 8 i AND 0xFF) :: u8))
       OR ucast (ucast (i AND 0xFF) :: u8) :: u32) = i"
  "- (2 ^ 31) \<le> sint i \<Longrightarrow> sint i < 2 ^ 31 \<Longrightarrow>
     scast (be4 (ucast (drop_bit 24 i AND 0xFF)) (ucast (drop_bit 16 i AND 0xFF)) (ucast (drop_bit 8 i AND 0xFF)) (ucast (i AND 0xFF))) = i"
  "- (2 ^ 47) \<le> sint i \<Longrightarrow> sint i < 2 ^ 47 \<Longrightarrow>
     push_bit 32 (scast (push_bit 8 (scast (ucast (drop_bit 40 i AND 0xFF) :: u8)) OR ucast (ucast (drop_bit 32 i AND 0xFF) :: u8) :: u32))
       OR ucast (be4 (ucast (drop_bit 24 i AND 0xFF)) (ucast (drop_bit 16 i AND 0xFF)) (ucast (drop_bit 8 i AND 0xFF)) (ucast (i AND 0xFF))) = i"
  "push_bit 32 (scast (be4 (ucast (drop_bit 56 i AND 0xFF)) (ucast (drop_bit 48 i AND 0xFF)) (ucast (drop_bit 40 i AND 0xFF)) (ucast (drop_bit 32 i AND 0xFF))))
       OR ucast (be4 (ucast (drop_bit 24 i AND 0xFF)) (ucast (drop_bit 16 i AND 0xFF)) (ucast (drop_bit 8 i AND 0xFF)) (ucast (i AND 0xFF))) = i"
  subgoal premises p using sign_bits [OF p, of "numeral _"] by (intro bit_eqI64) (simp add: bit_eval)
  subgoal premises p using sign_bits [OF p, of "numeral _"] by (intro bit_eqI64) (simp add: bit_eval)
  subgoal premises p using sign_bits [OF p, of "numeral _"] by (intro bit_eqI64) (simp add: bit_eval)
  subgoal premises p using sign_bits [OF p, of "numeral _"] by (intro bit_eqI64) (simp add: bit_eval be4_def)
  subgoal premises p using sign_bits [OF p, of "numeral _"] by (intro bit_eqI64) (simp add: bit_eval be4_def)
  subgoal by (intro bit_eqI64) (simp add: bit_eval be4_def)
  done

subsection \<open>What is stored is read back\<close>

lemma type_len:
  "sqlite3VdbeSerialTypeLen 0 = 0" "sqlite3VdbeSerialTypeLen 1 = 1" "sqlite3VdbeSerialTypeLen 2 = 2"
  "sqlite3VdbeSerialTypeLen 3 = 3" "sqlite3VdbeSerialTypeLen 4 = 4" "sqlite3VdbeSerialTypeLen 5 = 6"
  "sqlite3VdbeSerialTypeLen 6 = 8" "sqlite3VdbeSerialTypeLen 7 = 8" "sqlite3VdbeSerialTypeLen 8 = 0"
  "sqlite3VdbeSerialTypeLen 9 = 0" "sqlite3VdbeSerialTypeLen 10 = 0" "sqlite3VdbeSerialTypeLen 11 = 0"
  by code_simp+

lemma serial_int_type:
  assumes "\<not> has m MEM_Null" "has m MEM_Int"
  shows "ff \<ge> 4 \<and> (mi m = 0 \<and> sqlite3VdbeSerialType m ff = 8 \<or> mi m = 1 \<and> sqlite3VdbeSerialType m ff = 9)
    \<or> (\<exists>k. \<exists>st \<in> {1, 2, 3, 4, 5, 6}. sqlite3VdbeSerialType m ff = st \<and> sqlite3VdbeSerialTypeLen st = k
      \<and> length (put_be k (mi m) []) = k
      \<and> (\<forall>r m0. sqlite3VdbeSerialGet (put_be k (mi m) [] @ r) st m0 = Some (k, m0\<lparr>mi := mi m, mflags := MEM_Int\<rparr>)))"
proof (cases "ff \<ge> 4 \<and> mi m AND 1 = mi m")
  case True
  have "mi m AND 1 = 0 \<or> mi m AND 1 = 1" by (cases "bit (mi m) 0") (auto simp: and_one_eq)
  with True have ff: "ff \<ge> 4" and "mi m = 0 \<or> mi m = 1" by metis+
  then consider "mi m = 0" | "mi m = 1" by blast
  then show ?thesis by cases (use ff assms in \<open>simp_all add: sqlite3VdbeSerialType_def Let_def\<close>)
next
  case False
  let ?i = "mi m"
  define u where "u = (if sint (mi m) < 0 then - mi m else mi m)"
  have t: "sqlite3VdbeSerialType m ff = (if u \<le> 127 then 1 else if u \<le> 32767 then 2 else if u \<le> 8388607 then 3
      else if u \<le> 2147483647 then 4 else if u \<le> MAX_6BYTE then 5 else 6)"
    by (simp only: sqlite3VdbeSerialType_def Let_def u_def if_not_P [OF assms(1)] if_P [OF assms(2)] if_not_P [OF False])
  have m6: "MAX_6BYTE = word_of_nat 140737488355327" by (simp add: MAX_6BYTE_def)
  note mag = magnitude [where i = ?i, folded u_def]
  consider "u \<le> 127" | "\<not> u \<le> 127" "u \<le> 32767" | "\<not> u \<le> 127" "\<not> u \<le> 32767" "u \<le> 8388607"
    | "\<not> u \<le> 127" "\<not> u \<le> 32767" "\<not> u \<le> 8388607" "u \<le> 2147483647"
    | "\<not> u \<le> 127" "\<not> u \<le> 32767" "\<not> u \<le> 8388607" "\<not> u \<le> 2147483647" "u \<le> MAX_6BYTE"
    | "\<not> u \<le> 127" "\<not> u \<le> 32767" "\<not> u \<le> 8388607" "\<not> u \<le> 2147483647" "\<not> u \<le> MAX_6BYTE"
    by blast
  then show ?thesis
  proof cases
    case 1
    then have r: "- (2 ^ 7) \<le> sint ?i" "sint ?i < 2 ^ 7" using mag [of 127] by (auto simp: abs_le_iff)
    then show ?thesis using 1 t join_be(1) [OF r]
      by (simp add: put_be_list [simplified] sqlite3VdbeSerialGet_def type_len Let_def)
  next
    case 2
    then have r: "- (2 ^ 15) \<le> sint ?i" "sint ?i < 2 ^ 15" using mag [of 32767] by (auto simp: abs_le_iff)
    then show ?thesis using 2 t join_be(2) [OF r]
      by (simp add: put_be_list [simplified] sqlite3VdbeSerialGet_def type_len Let_def)
  next
    case 3
    then have r: "- (2 ^ 23) \<le> sint ?i" "sint ?i < 2 ^ 23" using mag [of 8388607] by (auto simp: abs_le_iff)
    then show ?thesis using 3 t join_be(3) [OF r]
      by (simp add: put_be_list sqlite3VdbeSerialGet_def type_len Let_def)
  next
    case 4
    then have r: "- (2 ^ 31) \<le> sint ?i" "sint ?i < 2 ^ 31" using mag [of 2147483647] by (auto simp: abs_le_iff)
    then show ?thesis using 4 t join_be(4) [OF r]
      by (simp add: put_be_list sqlite3VdbeSerialGet_def type_len Let_def)
  next
    case 5
    then have r: "- (2 ^ 47) \<le> sint ?i" "sint ?i < 2 ^ 47" using mag [of 140737488355327] m6 by (auto simp: abs_le_iff)
    then show ?thesis using 5 t join_be(5) [OF r]
      by (simp add: put_be_list sqlite3VdbeSerialGet_def type_len Let_def)
  next
    case 6
    then show ?thesis using t join_be(6) [of ?i]
      by (simp add: put_be_list sqlite3VdbeSerialGet_def type_len Let_def)
  qed
qed

text \<open>Text and blobs.\<close>

lemma serial_bytes_type:
  fixes ff :: int
  assumes "\<not> has m MEM_Null" "\<not> has m MEM_Int" "\<not> has m MEM_Real" "\<not> has m MEM_Zero" "mn m < 2 ^ 30 - 10"
  defines "st \<equiv> sqlite3VdbeSerialType m ff"
  shows "12 \<le> st" "sqlite3VdbeSerialTypeLen st = mn m" "unat ((st - 12) div 2) = mn m" "st AND 1 \<noteq> 0 \<longleftrightarrow> has m MEM_Str"
    "\<not> st \<le> 7" "st \<notin> {0, 1, 2, 3, 4, 5, 6, 7, 8, 9, 10, 11}"
proof -
  have st: "st = word_of_nat (mn m) * 2 + 12 + (if has m MEM_Str then 1 else 0)"
    using assms by (simp add: sqlite3VdbeSerialType_def Let_def)
  then have "st = word_of_nat (mn m * 2 + 12 + (if has m MEM_Str then 1 else 0))" by simp
  moreover have "mn m * 2 + 12 + (if has m MEM_Str then 1 else 0) < 2 ^ 32" using assms(5) by simp
  ultimately have u: "unat st = mn m * 2 + 12 + (if has m MEM_Str then 1 else 0)"
    by (simp only: unsigned_of_nat of_nat_id) (rule take_bit_nat_eq_self, simp)
  show ge: "12 \<le> st" using u by (simp add: word_le_nat_alt)
  have "unat (st - 12) = unat st - 12" using ge by (simp add: unat_sub)
  then show d: "unat ((st - 12) div 2) = mn m" using u by (simp add: unat_div)
  show "sqlite3VdbeSerialTypeLen st = mn m" using ge d by (simp add: sqlite3VdbeSerialTypeLen_def)
  show "st AND 1 \<noteq> 0 \<longleftrightarrow> has m MEM_Str" using u by (simp add: and_one_eq word_unat_eq_iff unat_mod)
  show "\<not> st \<le> 7" using u by (simp add: word_le_nat_alt)
  show "st \<notin> {0, 1, 2, 3, 4, 5, 6, 7, 8, 9, 10, 11}" using u by (auto simp: word_unat_eq_iff)
qed

lemma SerialGet_bytes:
  assumes "st \<notin> {0, 1, 2, 3, 4, 5, 6, 7, 8, 9, 10, 11}"
  shows "sqlite3VdbeSerialGet buf st m = (let len = unat ((st - 12) div 2) in
            Some (len, m\<lparr>mz := Some buf, mn := len, own := False, mxDel := False,
                         mflags := (if st AND 1 \<noteq> 0 then MEM_Str OR MEM_Ephem else MEM_Blob OR MEM_Ephem)\<rparr>))"
  using assms by (simp add: sqlite3VdbeSerialGet_def)

lemma serial_law:
  assumes "storable m" "sqlite3VdbeSerialTypeLen (sqlite3VdbeSerialType m ff) \<le> nBuf"
  shows "\<exists>b. sqlite3VdbeSerialPut nBuf m ff = Some b
    \<and> length b = sqlite3VdbeSerialTypeLen (sqlite3VdbeSerialType m ff)
    \<and> (\<forall>r m0. \<exists>m'. sqlite3VdbeSerialGet (b @ r) (sqlite3VdbeSerialType m ff) m0 = Some (length b, m')
          \<and> mem_value m' = mem_value m)"
proof -
  let ?st = "sqlite3VdbeSerialType m ff"
  consider (null) "has m MEM_Null" | (int) "\<not> has m MEM_Null" "has m MEM_Int"
    | (real) "\<not> has m MEM_Null" "\<not> has m MEM_Int" "has m MEM_Real" "\<not> dbl_isnan (mr m)"
    | (bytes) z where "\<not> has m MEM_Null" "\<not> has m MEM_Int" "\<not> has m MEM_Real" "\<not> has m MEM_Zero"
        "has m MEM_Str \<or> has m MEM_Blob" "mz m = Some z" "mn m \<le> length z" "mn m < 2 ^ 30 - 10"
    using assms(1) unfolding storable_def by blast
  then show ?thesis
  proof cases
    case null
    then have "?st = 0" by (simp add: sqlite3VdbeSerialType_def)
    then show ?thesis using null
      by (simp add: sqlite3VdbeSerialPut_def sqlite3VdbeSerialGet_def type_len mem_value_def flag_simps)
  next
    case int
    from serial_int_type [OF int, of ff] show ?thesis
    proof (elim disjE exE bexE conjE)
      fix k st assume st: "st \<in> {1, 2, 3, 4, 5, 6}" "?st = st" "sqlite3VdbeSerialTypeLen st = k"
        and k: "length (put_be k (mi m) []) = k"
        and get: "\<forall>r m0. sqlite3VdbeSerialGet (put_be k (mi m) [] @ r) st m0 = Some (k, m0\<lparr>mi := mi m, mflags := MEM_Int\<rparr>)"
      have "st \<le> 7 \<and> st > 0 \<and> st \<noteq> 7" using st(1) by auto
      then have "sqlite3VdbeSerialPut nBuf m ff = Some (put_be k (mi m) [])"
        using st assms(2) by (simp add: sqlite3VdbeSerialPut_def Let_def)
      then show ?thesis using st k get int by (simp add: mem_value_def flag_simps)
    next
      assume "mi m = 0" "?st = 8"
      then show ?thesis using int
        by (simp add: sqlite3VdbeSerialPut_def sqlite3VdbeSerialGet_def type_len mem_value_def flag_simps)
    next
      assume "mi m = 1" "?st = 9"
      then show ?thesis using int
        by (simp add: sqlite3VdbeSerialPut_def sqlite3VdbeSerialGet_def type_len mem_value_def flag_simps)
    qed
  next
    case real
    then have st: "?st = 7" by (simp add: sqlite3VdbeSerialType_def)
    then show ?thesis using real assms(2) join_be(6) [of "mr m"]
      by (simp add: sqlite3VdbeSerialPut_def sqlite3VdbeSerialGet_def type_len mem_value_def flag_simps put_be_list Let_def)
  next
    case bytes
    note t = serial_bytes_type [OF bytes(1-4,8), of ff]
    have "sqlite3VdbeSerialPut nBuf m ff = Some (take (mn m) z)"
      using t(1,2,5) bytes assms(2) by (simp add: sqlite3VdbeSerialPut_def Let_def)
    then show ?thesis using bytes t(2-4) SerialGet_bytes [OF t(6)]
      by (simp add: mem_value_def flag_simps bit_simps Let_def)
  qed
qed

subsection \<open>The properties\<close>

text \<open>
  C5: a storable value written by sqlite3VdbeSerialPut into a buffer of at least the
  length of its serial type takes exactly that many bytes, and sqlite3VdbeSerialGet with that serial
  type reads the same value from them, whatever follows, whatever the cell held and in every file
  format.
\<close>
theorem serial_roundtrip:
  assumes "storable m" "sqlite3VdbeSerialTypeLen (sqlite3VdbeSerialType m ff) \<le> nBuf"
  shows "\<exists>b. sqlite3VdbeSerialPut nBuf m ff = Some b
    \<and> length b = sqlite3VdbeSerialTypeLen (sqlite3VdbeSerialType m ff)
    \<and> (\<forall>r m0. \<exists>m'. sqlite3VdbeSerialGet (b @ r) (sqlite3VdbeSerialType m ff) m0 = Some (length b, m')
          \<and> mem_value m' = mem_value m)"
  using assms by (rule serial_law)

theorem serial_roundtrip_witness:
  "\<exists>b. sqlite3VdbeSerialPut 5 abc_mem 4 = Some b \<and> length b = 3"
proof -
  have "storable abc_mem" by (simp add: storable_def abc_mem_def null_mem_def flag_simps bit_simps)
  moreover have len: "sqlite3VdbeSerialTypeLen (sqlite3VdbeSerialType abc_mem 4) = 3" by code_simp
  ultimately show ?thesis using serial_roundtrip [of abc_mem 4 5] by auto
qed

text \<open>
  the serial type of an integer is the shortest one for its magnitude: a length of
  \<open>k < 8\<close> bytes is used when the magnitude is below \<open>2\<^sup>8\<^sup>k\<^sup>-\<^sup>1\<close>
  and no shorter length would do, 8 bytes otherwise, and none exactly for 0 and 1 from file format 4 on.
\<close>
theorem serial_type_shortest:
  fixes ff :: int
  assumes "\<not> has m MEM_Null" "has m MEM_Int"
  defines "k \<equiv> sqlite3VdbeSerialTypeLen (sqlite3VdbeSerialType m ff)"
  shows "if ff \<ge> 4 \<and> sint (mi m) \<in> {0, 1} then k = 0
    else k \<in> {1, 2, 3, 4, 6, 8} \<and> (k < 8 \<longrightarrow> \<bar>sint (mi m)\<bar> < 2 ^ (8 * k - 1))
      \<and> (\<forall>j \<in> {1, 2, 3, 4, 6}. j < k \<longrightarrow> 2 ^ (8 * j - 1) \<le> \<bar>sint (mi m)\<bar>)"
proof -
  have 1: "mi m AND 1 = mi m \<longleftrightarrow> sint (mi m) \<in> {0, 1}"
  proof -
    have "mi m AND 1 = 0 \<or> mi m AND 1 = 1" by (cases "bit (mi m) 0") (auto simp: and_one_eq)
    moreover have "sint (mi m) = 0 \<longleftrightarrow> mi m = 0" "sint (mi m) = 1 \<longleftrightarrow> mi m = 1"
      using signed_word_eqI [of "mi m" 0] signed_word_eqI [of "mi m" 1] by auto
    ultimately show ?thesis by auto
  qed
  show ?thesis
  proof (cases "ff \<ge> 4 \<and> mi m AND 1 = mi m")
    case True
    have "mi m AND 1 = 0 \<or> mi m AND 1 = 1" by (cases "bit (mi m) 0") (auto simp: and_one_eq)
    with True have "mi m = 0 \<or> mi m = 1" by metis
    then show ?thesis using conjunct1 [OF True] assms(1,2)
      by (elim disjE) (simp_all add: sqlite3VdbeSerialType_def type_len k_def)
  next
    case False
    let ?a = "\<bar>sint (mi m)\<bar>"
    define u where "u = (if sint (mi m) < 0 then - mi m else mi m)"
    have le: "u \<le> 127 \<longleftrightarrow> ?a \<le> 127" "u \<le> 32767 \<longleftrightarrow> ?a \<le> 32767" "u \<le> 8388607 \<longleftrightarrow> ?a \<le> 8388607"
      "u \<le> 2147483647 \<longleftrightarrow> ?a \<le> 2147483647" "u \<le> MAX_6BYTE \<longleftrightarrow> ?a \<le> 140737488355327"
      using magnitude [of 127 "mi m", folded u_def] magnitude [of 32767 "mi m", folded u_def]
        magnitude [of 8388607 "mi m", folded u_def] magnitude [of 2147483647 "mi m", folded u_def]
        magnitude [of 140737488355327 "mi m", folded u_def] by (simp_all add: MAX_6BYTE_def)
    have "sqlite3VdbeSerialType m ff = (if ?a \<le> 127 then 1 else if ?a \<le> 32767 then 2 else if ?a \<le> 8388607 then 3
        else if ?a \<le> 2147483647 then 4 else if ?a \<le> 140737488355327 then 5 else 6)"
      by (simp only: sqlite3VdbeSerialType_def Let_def if_not_P [OF assms(1)] if_P [OF assms(2)] if_not_P [OF False]
          u_def [symmetric] le)
    then have k: "k = (if ?a \<le> 127 then 1 else if ?a \<le> 32767 then 2 else if ?a \<le> 8388607 then 3
        else if ?a \<le> 2147483647 then 4 else if ?a \<le> 140737488355327 then 6 else 8)"
      unfolding k_def by (simp only: type_len if_distrib [of sqlite3VdbeSerialTypeLen])
    have "\<not> (ff \<ge> 4 \<and> sint (mi m) \<in> {0, 1})" using False 1 by simp
    then show ?thesis using k by (simp only: if_False) (simp split: if_splits)
  qed
qed

theorem serial_type_shortest_witness:
  "2 \<le> sqlite3VdbeSerialTypeLen (sqlite3VdbeSerialType (null_mem\<lparr>mflags := MEM_Int, mi := - 128\<rparr>) 4)"
proof -
  let ?m = "null_mem\<lparr>mflags := MEM_Int, mi := - 128\<rparr>"
  have m: "\<not> has ?m MEM_Null" "has ?m MEM_Int" by (simp_all add: null_mem_def flag_simps)
  from serial_type_shortest [OF m, of 4] show ?thesis by auto
qed

end
