(* ===== verification/Compare.thy ===== *)
theory Compare
  imports Serial Complex_Main
begin

text \<open>
  The order of values: memcmp, the built-in collating sequences of main.c and sqlite3MemCompare of
  vdbemem.c, with the interface a comparison must satisfy before it can order an index.
\<close>

subsection \<open>Comparing values\<close>

fun memcmp8 :: "u8 list \<Rightarrow> u8 list \<Rightarrow> nat \<Rightarrow> int option" where
  "memcmp8 _ _ 0 = Some 0"
| "memcmp8 (a # as) (b # bs) (Suc n) = (if a = b then memcmp8 as bs n else Some (uint a - uint b))"
| "memcmp8 _ _ (Suc n) = None"

text \<open>A collating sequence is given the bytes of two strings; its \<open>pUser\<close> is part of the function.\<close>

record CollSeq =
  coll_enc :: int
  xCmp :: "u8 list \<Rightarrow> u8 list \<Rightarrow> int"

text \<open>sqlite3ValueText for cells with text or a blob and an encoding without the alignment bit;
  a number would be formatted first (sqlite3VdbeMemStringify), which is outside the model.\<close>

definition sqlite3ValueText :: "Mem \<Rightarrow> int \<Rightarrow> oom \<Rightarrow> (u8 list option \<times> Mem \<times> oom) option" where
  "sqlite3ValueText m e al =
     (if has m MEM_Null then Some (None, m, al)
      else do {
        let m = set_flags (drop_bit 3 (mflags m AND MEM_Blob)) m;
        (_, m1, al1) \<leftarrow> sqlite3VdbeMemExpandBlob m al;
        if has m1 MEM_Str then do {
          (_, m2, al2) \<leftarrow> sqlite3VdbeChangeEncoding m1 e al1;
          (_, m3, al3) \<leftarrow> sqlite3VdbeMemNulTerminate m2 al2;
          Some (if menc m3 = e then mz m3 else None, m3, al3)
        } else None
      })"

definition bytes_of :: "u8 list option \<Rightarrow> nat \<Rightarrow> u8 list option" where
  "bytes_of z n = (case z of None \<Rightarrow> (if n = 0 then Some [] else None)
                   | Some b \<Rightarrow> if n \<le> length b then Some (take n b) else None)"

definition sqlite3MemCompare :: "Mem \<Rightarrow> Mem \<Rightarrow> CollSeq option \<Rightarrow> oom \<Rightarrow> (int \<times> oom) option" where
  "sqlite3MemCompare m1 m2 pColl al =
     (let num = MEM_Int OR MEM_Real;
          blob_case = (do {
            a \<leftarrow> bytes_of (mz m1) (min (mn m1) (mn m2));
            b \<leftarrow> bytes_of (mz m2) (min (mn m1) (mn m2));
            rc \<leftarrow> memcmp8 a b (min (mn m1) (mn m2));
            Some (if rc = 0 then int (mn m1) - int (mn m2) else rc, al) })
      in
      if has m1 MEM_Null \<or> has m2 MEM_Null then
        Some ((if has m2 MEM_Null then 1 else 0) - (if has m1 MEM_Null then 1 else 0), al)
      else if has m1 num \<or> has m2 num then
        (if \<not> has m1 num then Some (1, al)
         else if \<not> has m2 num then Some (- 1, al)
         else if \<not> (has m1 MEM_Int \<and> has m2 MEM_Int) then
           (let r1 = (if has m1 MEM_Real then mr m1 else dbl_of_i64 (mi m1));
                r2 = (if has m2 MEM_Real then mr m2 else dbl_of_i64 (mi m2)) in
            Some (if dbl_lt r1 r2 then - 1 else if dbl_lt r2 r1 then 1 else 0, al))
         else Some (if sint (mi m1) < sint (mi m2) then - 1 else if sint (mi m1) > sint (mi m2) then 1 else 0, al))
      else if has m1 MEM_Str \<or> has m2 MEM_Str then
        (if \<not> has m1 MEM_Str then Some (1, al)
         else if \<not> has m2 MEM_Str then Some (- 1, al)
         else (case pColl of
             None \<Rightarrow> blob_case
           | Some coll \<Rightarrow>
               if menc m1 = coll_enc coll then do {
                 a \<leftarrow> bytes_of (mz m1) (mn m1);
                 b \<leftarrow> bytes_of (mz m2) (mn m2);
                 Some (xCmp coll a b, al) }
               else do {
                 c1 \<leftarrow> sqlite3VdbeMemShallowCopy null_mem m1 MEM_Ephem;
                 c2 \<leftarrow> sqlite3VdbeMemShallowCopy null_mem m2 MEM_Ephem;
                 (v1, c1', al1) \<leftarrow> sqlite3ValueText c1 (coll_enc coll) al;
                 (v2, c2', al2) \<leftarrow> sqlite3ValueText c2 (coll_enc coll) al1;
                 a \<leftarrow> (if v1 = None then Some [] else bytes_of v1 (mn c1'));
                 b \<leftarrow> (if v2 = None then Some [] else bytes_of v2 (mn c2'));
                 Some (xCmp coll a b, al2) }))
      else blob_case)"

subsection \<open>The built-in collating sequences\<close>

fun allSpaces :: "u8 list \<Rightarrow> nat \<Rightarrow> bool option" where
  "allSpaces z 0 = Some True"
| "allSpaces z (Suc n) = do { b \<leftarrow> peek z n; if b = 0x20 then allSpaces z n else Some False }"

definition binCollFunc :: "bool \<Rightarrow> nat \<Rightarrow> u8 list \<Rightarrow> nat \<Rightarrow> u8 list \<Rightarrow> int option" where
  "binCollFunc padFlag nKey1 pKey1 nKey2 pKey2 =
     (let n = min nKey1 nKey2 in do {
        rc \<leftarrow> memcmp8 pKey1 pKey2 n;
        if rc = 0 then do {
          s1 \<leftarrow> (if padFlag then allSpaces (drop n pKey1) (nKey1 - n) else Some False);
          s2 \<leftarrow> (if s1 then allSpaces (drop n pKey2) (nKey2 - n) else Some False);
          Some (if s2 then rc else int nKey1 - int nKey2)
        } else Some rc
      })"

definition nocaseCollatingFunc :: "nat \<Rightarrow> u8 list \<Rightarrow> nat \<Rightarrow> u8 list \<Rightarrow> int option" where
  "nocaseCollatingFunc nKey1 pKey1 nKey2 pKey2 = do {
     r \<leftarrow> sqlite3StrNICmp (chars_of pKey1) (chars_of pKey2) (min nKey1 nKey2);
     Some (if r = 0 then int nKey1 - int nKey2 else r)
   }"

subsection \<open>The interface of a comparison\<close>

text \<open>The key of the other comparisons: the first difference decides, a prefix is smaller.\<close>

fun lex_cmp :: "('a \<Rightarrow> 'a \<Rightarrow> int) \<Rightarrow> 'a list \<Rightarrow> 'a list \<Rightarrow> int" where
  "lex_cmp f [] [] = 0"
| "lex_cmp f [] (y # ys) = - 1"
| "lex_cmp f (x # xs) [] = 1"
| "lex_cmp f (x # xs) (y # ys) = (if f x y = 0 then lex_cmp f xs ys else f x y)"

locale comparison =
  fixes C :: "'a set" and cmp :: "'a \<Rightarrow> 'a \<Rightarrow> int"
  assumes anti: "x \<in> C \<Longrightarrow> y \<in> C \<Longrightarrow> sgn (cmp x y) = - sgn (cmp y x)"
    and trans: "x \<in> C \<Longrightarrow> y \<in> C \<Longrightarrow> z \<in> C \<Longrightarrow> cmp x y \<le> 0 \<Longrightarrow> cmp y z \<le> 0 \<Longrightarrow> cmp x z \<le> 0"
begin

lemma refl: "x \<in> C \<Longrightarrow> cmp x x = 0"
  using anti [of x x] by (simp add: sgn_if split: if_splits)

lemma swap:
  assumes "x \<in> C" "y \<in> C"
  shows "cmp x y \<le> 0 \<longleftrightarrow> 0 \<le> cmp y x" "cmp x y < 0 \<longleftrightarrow> 0 < cmp y x" "cmp x y = 0 \<longleftrightarrow> cmp y x = 0"
  using anti [OF assms] by (auto simp: sgn_if split: if_splits)

lemma total: "x \<in> C \<Longrightarrow> y \<in> C \<Longrightarrow> cmp x y \<le> 0 \<or> cmp y x \<le> 0"
  using swap [of x y] by linarith

lemma trans_less:
  assumes "x \<in> C" "y \<in> C" "z \<in> C"
  shows "cmp x y < 0 \<Longrightarrow> cmp y z \<le> 0 \<Longrightarrow> cmp x z < 0" and "cmp x y \<le> 0 \<Longrightarrow> cmp y z < 0 \<Longrightarrow> cmp x z < 0"
    and "cmp x y = 0 \<Longrightarrow> cmp y z = 0 \<Longrightarrow> cmp x z = 0"
proof -
  show 1: "cmp x z < 0" if "cmp x y < 0" "cmp y z \<le> 0"
  proof (rule ccontr)
    assume "\<not> cmp x z < 0"
    then have "cmp z x \<le> 0" using swap(1) [OF assms(3,1)] by simp
    from trans [OF assms(2,3,1) that(2) this] have "cmp y x \<le> 0" .
    with that(1) swap(2) [OF assms(1,2)] show False by simp
  qed
  show 2: "cmp x z < 0" if "cmp x y \<le> 0" "cmp y z < 0"
  proof (rule ccontr)
    assume "\<not> cmp x z < 0"
    then have "cmp z x \<le> 0" using swap(1) [OF assms(3,1)] by simp
    from trans [OF assms(3,1,2) this that(1)] have "cmp z y \<le> 0" .
    with that(2) swap(2) [OF assms(2,3)] show False by simp
  qed
  show "cmp x z = 0" if "cmp x y = 0" "cmp y z = 0"
  proof (rule antisym)
    show "cmp x z \<le> 0" using trans [OF assms] that by simp
    have "cmp y x \<le> 0" "cmp z y \<le> 0" using that swap(3) [OF assms(1,2)] swap(3) [OF assms(2,3)] by simp_all
    with trans [OF assms(3,2,1)] have "cmp z x \<le> 0" by blast
    then show "0 \<le> cmp x z" using swap(1) [OF assms(3,1)] by simp
  qed
qed

text \<open>Lists over an ordered carrier are ordered by their first difference.\<close>

lemma lex_anti: "xs \<in> lists C \<Longrightarrow> ys \<in> lists C \<Longrightarrow> sgn (lex_cmp cmp xs ys) = - sgn (lex_cmp cmp ys xs)"
proof (induction xs arbitrary: ys)
  case Nil
  then show ?case by (cases ys) auto
next
  case (Cons x xs)
  then show ?case using anti [of x "hd ys"] swap(3) [of x "hd ys"] by (cases ys) auto
qed

lemma lex_trans:
  "xs \<in> lists C \<Longrightarrow> ys \<in> lists C \<Longrightarrow> zs \<in> lists C \<Longrightarrow> lex_cmp cmp xs ys \<le> 0 \<Longrightarrow> lex_cmp cmp ys zs \<le> 0
   \<Longrightarrow> lex_cmp cmp xs zs \<le> 0"
proof (induction xs arbitrary: ys zs)
  case Nil
  then show ?case by (cases zs) auto
next
  case (Cons x xs)
  from Cons.prems obtain y ys' where y: "ys = y # ys'" by (cases ys) auto
  from Cons.prems y obtain z zs' where z: "zs = z # zs'" by (cases zs) auto
  show ?case using Cons.prems Cons.IH [of ys' zs'] trans_less [of x y z] trans [of x y z] y z
    by (auto split: if_splits)
qed

lemma lex: "comparison (lists C) (lex_cmp cmp)"
  by unfold_locales (use lex_anti lex_trans in blast)+

end

text \<open>A comparison by a key.\<close>

lemma key_comparison:
  assumes "\<And>x y. x \<in> C \<Longrightarrow> y \<in> C \<Longrightarrow> sgn (cmp x y) = sgn (k x - k y :: int)"
  shows "comparison C cmp"
proof
  fix x y z assume m: "x \<in> C" "y \<in> C" 
  show "sgn (cmp x y) = - sgn (cmp y x)" using assms [OF m] assms [OF m(2,1)] by (auto simp: sgn_if split: if_splits)
  assume "z \<in> C" "cmp x y \<le> 0" "cmp y z \<le> 0"
  then show "cmp x z \<le> 0" using assms [of x y] assms [of y z] assms [of x z] m by (auto simp: sgn_if split: if_splits)
qed

subsection \<open>Bytes\<close>

definition byte_diff :: "u8 \<Rightarrow> u8 \<Rightarrow> int" where "byte_diff a b = uint a - uint b"
definition nocase_diff :: "u8 \<Rightarrow> u8 \<Rightarrow> int" where
  "nocase_diff a b = int (UpperToLower (char_of (unat a))) - int (UpperToLower (char_of (unat b)))"

abbreviation bytes_cmp :: "u8 list \<Rightarrow> u8 list \<Rightarrow> int" where "bytes_cmp \<equiv> lex_cmp byte_diff"
abbreviation nocase_cmp :: "u8 list \<Rightarrow> u8 list \<Rightarrow> int" where "nocase_cmp \<equiv> lex_cmp nocase_diff"

interpretation byte: comparison UNIV byte_diff
  by (rule key_comparison [where k = uint]) (simp add: byte_diff_def)

interpretation nocase: comparison UNIV nocase_diff
  by (rule key_comparison [where k = "\<lambda>a. int (UpperToLower (char_of (unat a)))"]) (simp add: nocase_diff_def)

interpretation bytes: comparison "lists UNIV" bytes_cmp by (rule byte.lex)

interpretation nocase_text: comparison "lists UNIV" nocase_cmp by (rule nocase.lex)

lemma memcmp8_cmp:
  "length a = n \<Longrightarrow> length b = n \<Longrightarrow> \<exists>r. memcmp8 (a @ x) (b @ y) n = Some r \<and> sgn r = sgn (bytes_cmp a b)"
proof (induction a b n rule: memcmp8.induct)
  case (2 a as b bs n)
  then show ?case by (auto simp: byte_diff_def word_uint_eq_iff)
qed auto

lemma lex_cmp_length: "length a = length b \<Longrightarrow> lex_cmp f (a @ x) (b @ y) = (if lex_cmp f a b = 0 then lex_cmp f x y else lex_cmp f a b)"
  by (induction a b rule: list_induct2) auto

lemma lex_cmp_Nil: "lex_cmp f x [] = (if x = [] then 0 else 1)" "lex_cmp f [] y = (if y = [] then 0 else - 1)"
  by (cases x; simp) (cases y; simp)

text \<open>A common prefix and then the difference of the lengths: what memcmp is used for.\<close>

lemma prefix_cmp:
  fixes a b :: "'a list" and n :: nat
  defines "n \<equiv> min (length a) (length b)"
  assumes "sgn r = sgn (lex_cmp f (take n a) (take n b))"
  shows "sgn (if r = 0 then int (length a) - int (length b) else r) = sgn (lex_cmp f a b)"
proof -
  have "lex_cmp f a b = (if lex_cmp f (take n a) (take n b) = 0 then lex_cmp f (drop n a) (drop n b) else lex_cmp f (take n a) (take n b))"
    using lex_cmp_length [of "take n a" "take n b" f "drop n a" "drop n b"] by (simp add: n_def min_def)
  moreover have "sgn (lex_cmp f (drop n a) (drop n b)) = sgn (int (length a) - int (length b))"
    by (cases "length a \<le> length b") (auto simp: n_def min_def lex_cmp_Nil)
  ultimately show ?thesis using assms by (auto simp: sgn_0_0)
qed

text \<open>The built-in collating sequences compare keys that are followed by anything.\<close>

lemma binCollFunc_cmp:
  "\<exists>r. binCollFunc False (length a) (a @ x) (length b) (b @ y) = Some r \<and> sgn r = sgn (bytes_cmp a b)"
proof -
  let ?n = "min (length a) (length b)"
  obtain r where r: "memcmp8 (take ?n a @ (drop ?n a @ x)) (take ?n b @ (drop ?n b @ y)) ?n = Some r"
      "sgn r = sgn (bytes_cmp (take ?n a) (take ?n b))"
    using memcmp8_cmp [of "take ?n a" ?n "take ?n b" "drop ?n a @ x" "drop ?n b @ y"] by auto
  have "memcmp8 (a @ x) (b @ y) ?n = Some r" using r(1) by (simp flip: append_assoc)
  then show ?thesis using prefix_cmp [OF r(2)] by (auto simp: binCollFunc_def Let_def)
qed

lemma StrNICmp_cmp:
  "length a = n \<Longrightarrow> length b = n \<Longrightarrow> 0 \<notin> set a \<Longrightarrow>
   \<exists>r. sqlite3StrNICmp (chars_of (a @ x)) (chars_of (b @ y)) n = Some r \<and> sgn r = sgn (nocase_cmp a b)"
proof (induction a arbitrary: b n)
  case Nil
  then show ?case by simp
next
  case (Cons c a)
  obtain d b' where b: "b = d # b'" using Cons.prems by (cases b) auto
  have "char_of (unat c) \<noteq> NUL" using Cons.prems(3) 
    using unat_less [of c] of_char_NUL [of "char_of (unat c)"] by (auto simp: unat_eq_0)
  with Cons b show ?case by (auto simp: chars_of_def nocase_diff_def)
qed

lemma nocase_cmp_spec:
  assumes "0 \<notin> set a"
  shows "\<exists>r. nocaseCollatingFunc (length a) (a @ x) (length b) (b @ y) = Some r \<and> sgn r = sgn (nocase_cmp a b)"
proof -
  let ?n = "min (length a) (length b)"
  have "0 \<notin> set (take ?n a)" using assms by (meson in_set_takeD)
  then obtain r where r: "sqlite3StrNICmp (chars_of (take ?n a @ (drop ?n a @ x))) (chars_of (take ?n b @ (drop ?n b @ y))) ?n = Some r"
      "sgn r = sgn (nocase_cmp (take ?n a) (take ?n b))"
    using StrNICmp_cmp [of "take ?n a" ?n "take ?n b" "drop ?n a @ x" "drop ?n b @ y"] by auto
  have "sqlite3StrNICmp (chars_of (a @ x)) (chars_of (b @ y)) ?n = Some r" using r(1) by (simp flip: append_assoc)
  then show ?thesis using prefix_cmp [OF r(2)] by (auto simp: nocaseCollatingFunc_def)
qed

subsection \<open>Values\<close>

fun is_num :: "sval \<Rightarrow> bool" where
  "is_num (VInt _) = True" | "is_num (VReal _) = True" | "is_num _ = False"

text \<open>What the code compares when one of two numbers is real.\<close>

fun num_dbl :: "sval \<Rightarrow> dbl" where
  "num_dbl (VInt i) = dbl_of_i64 i" | "num_dbl (VReal r) = r" | "num_dbl _ = 0"

text \<open>
  The number that a double stands for: a fraction in units of \<open>2 ^ (- 1074)\<close> below the normal numbers,
  otherwise a significand of 53 bits; the pattern of infinity is read as \<open>2 ^ 1024\<close>, above every finite number.
\<close>

definition dbl_val :: "dbl \<Rightarrow> rat" where
  "dbl_val x = (if bit x 63 then - 1 else 1) *
     (if dbl_exp x = 0 then of_nat (dbl_frac x) / 2 ^ 1074 else of_nat (2 ^ 52 + dbl_frac x) * 2 ^ dbl_exp x / 2 ^ 1075)"

text \<open>Numbers are ordered by what they stand for.\<close>

fun num_val :: "sval \<Rightarrow> rat" where
  "num_val (VInt i) = of_int (sint i)" | "num_val (VReal r) = dbl_val r" | "num_val _ = 0"

definition num_cmp :: "sval \<Rightarrow> sval \<Rightarrow> int" where
  "num_cmp x y = (if num_val x < num_val y then - 1 else if num_val y < num_val x then 1 else 0)"

text \<open>Numbers that keep their value as a double: integers below \<open>2 ^ 53\<close> in magnitude; a NaN has none.\<close>

fun exact :: "sval \<Rightarrow> bool" where
  "exact (VInt i) = (\<bar>sint i\<bar> < 2 ^ 53)" | "exact (VReal r) = (\<not> dbl_isnan r)" | "exact _ = True"

text \<open>Two values need that only when they are numbers and one of them is real.\<close>

fun exact_pair :: "sval \<Rightarrow> sval \<Rightarrow> bool" where
  "exact_pair (VReal r) (VReal q) = (exact (VReal r) \<and> exact (VReal q))"
| "exact_pair (VReal r) (VInt j) = (exact (VReal r) \<and> exact (VInt j))"
| "exact_pair (VInt i) (VReal q) = (exact (VInt i) \<and> exact (VReal q))"
| "exact_pair _ _ = True"

lemma exact_pair_exact: "exact x \<Longrightarrow> exact y \<Longrightarrow> exact_pair x y"
  by (cases x; cases y; simp)

text \<open>The sign-magnitude order of the patterns is the order of the numbers.\<close>

definition scaled :: "nat \<Rightarrow> nat" where
  "scaled m = (if m div 2 ^ 52 = 0 then m mod 2 ^ 52 else (2 ^ 52 + m mod 2 ^ 52) * 2 ^ (m div 2 ^ 52 - 1))"

lemma scaled_step:
  fixes e f e' f' :: nat
  assumes "e * 2 ^ 52 + f < e' * 2 ^ 52 + f'" "f < 2 ^ 52" "f' < 2 ^ 52"
  shows "(if e = 0 then f else (2 ^ 52 + f) * 2 ^ (e - 1)) < (if e' = 0 then f' else (2 ^ 52 + f') * 2 ^ (e' - 1))"
proof -
  have le: "e \<le> e'"
  proof (rule ccontr)
    assume "\<not> e \<le> e'"
    then have "(e' + 1) * 2 ^ 52 \<le> e * 2 ^ 52" by (intro mult_le_mono1) simp
    then show False using assms by simp
  qed
  show ?thesis
  proof (cases "e = e'")
    case True
    then show ?thesis using assms(1) by simp
  next
    case False
    then have lt: "e < e'" using le by simp
    then have "(if e = 0 then f else (2 ^ 52 + f) * 2 ^ (e - 1)) < 2 ^ 53 * 2 ^ (e - 1)"
    proof (cases "e = 0")
      case False
      then show ?thesis using assms(2) by simp
    qed (use assms(2) in simp)
    then have up: "(if e = 0 then f else (2 ^ 52 + f) * 2 ^ (e - 1)) < 2 ^ 52 * 2 ^ (e' - 1)" if "e \<noteq> 0"
    proof -
      have "(2 :: nat) ^ (53 + (e - 1)) \<le> 2 ^ (52 + (e' - 1))" using lt that by (intro power_increasing) auto
      then have "(2 :: nat) ^ 53 * 2 ^ (e - 1) \<le> 2 ^ 52 * 2 ^ (e' - 1)" by (simp only: power_add)
      with \<open>_ < 2 ^ 53 * 2 ^ (e - 1)\<close> show ?thesis by (rule less_le_trans)
    qed
    show ?thesis
    proof (cases "e = 0")
      case True
      have "(2 :: nat) ^ 0 \<le> 2 ^ (e' - 1)" by (intro power_increasing) auto
      then have "2 ^ 52 * 1 \<le> (2 ^ 52 + f') * 2 ^ (e' - 1)" by (intro mult_le_mono) auto
      then show ?thesis using True lt assms(2) by simp
    next
      case False
      from up [OF False] have "(if e = 0 then f else (2 ^ 52 + f) * 2 ^ (e - 1)) < 2 ^ 52 * 2 ^ (e' - 1)" .
      also have "\<dots> \<le> (2 ^ 52 + f') * 2 ^ (e' - 1)" by (rule mult_le_mono1) simp
      finally show ?thesis using lt by simp
    qed
  qed
qed

lemma scaled_mono: "m < m' \<Longrightarrow> scaled m < scaled m'"
  unfolding scaled_def by (rule scaled_step) simp_all

lemma scaled_0 [simp]: "scaled 0 = 0"
  by (simp add: scaled_def)

lemma scaled_less: "scaled m < scaled m' \<longleftrightarrow> m < m'"
  using scaled_mono [of m m'] scaled_mono [of m' m] by (cases m m' rule: linorder_cases) auto

lemma dbl_parts:
  fixes x :: dbl defines "m \<equiv> unat (x AND 0x7FFFFFFFFFFFFFFF)"
  shows "dbl_exp x = m div 2 ^ 52" "dbl_frac x = m mod 2 ^ 52"
proof -
  have "take_bit 11 (drop_bit 52 x) = drop_bit 52 (take_bit 63 x)" by (auto intro!: bit_word_eqI simp: bit_simps)
  then show "dbl_exp x = m div 2 ^ 52"
    unfolding dbl_exp_def m_def dbl_mask by (simp only: take_bit_eq_mask [symmetric] drop_bit_eq_div unat_div) simp
  have "take_bit 52 x = take_bit 52 (take_bit 63 x)" by (auto intro!: bit_word_eqI simp: bit_simps)
  then have "unat (take_bit 52 x) = take_bit 52 (unat (take_bit 63 x))" by (simp only: unsigned_take_bit_eq)
  then show "dbl_frac x = m mod 2 ^ 52"
    unfolding dbl_frac_def m_def dbl_mask by (simp only: take_bit_eq_mask [symmetric] take_bit_eq_mod)
qed

lemma halve_power: "e \<noteq> 0 \<Longrightarrow> (a :: rat) * 2 ^ e / 2 ^ Suc c * 2 ^ c = a * 2 ^ (e - 1)"
  by (cases e) simp_all

lemma val_scale:
  "(if s then - 1 else 1) * (if e = 0 then of_nat f / 2 ^ c else of_nat (2 ^ 52 + f) * 2 ^ e / 2 ^ Suc c) * 2 ^ c
   = (of_int ((if s then - 1 else 1) * int (if e = 0 then f else (2 ^ 52 + f) * 2 ^ (e - 1))) :: rat)"
  using halve_power [of e "of_nat (2 ^ 52 + f)" c] by (cases "e = 0"; cases s; simp)

lemma dbl_val_scaled:
  "dbl_val x * 2 ^ 1074 = of_int ((if bit x 63 then - 1 else 1) * int (scaled (unat (x AND 0x7FFFFFFFFFFFFFFF))))"
proof -
  have "(1075 :: nat) = Suc 1074" by simp
  then show ?thesis unfolding dbl_val_def scaled_def dbl_parts by (simp only: val_scale)
qed

lemma scaled_sign:
  "(if s then - 1 else 1) * int (scaled m) < (if t then - 1 else 1) * int (scaled k)
   \<longleftrightarrow> (if s then - 1 else 1) * int m < (if t then - 1 else 1) * int k"
  using scaled_less [of m k] scaled_less [of k m] scaled_less [of 0 m] scaled_less [of 0 k] by (cases s; cases t) auto

lemma dbl_lt_val:
  assumes "\<not> dbl_isnan x" "\<not> dbl_isnan y"
  shows "dbl_lt x y \<longleftrightarrow> dbl_val x < dbl_val y"
proof -
  let ?m = "\<lambda>x :: dbl. unat (x AND 0x7FFFFFFFFFFFFFFF)"
  have "dbl_val x < dbl_val y \<longleftrightarrow> dbl_val x * 2 ^ 1074 < dbl_val y * 2 ^ 1074"
    by (rule mult_less_cancel_right_pos [symmetric]) (rule zero_less_power, simp)
  also have "\<dots> \<longleftrightarrow> (if bit x 63 then - 1 else 1) * int (scaled (?m x)) < (if bit y 63 then - 1 else 1) * int (scaled (?m y))"
    by (simp only: dbl_val_scaled of_int_less_iff)
  also have "\<dots> \<longleftrightarrow> (if bit x 63 then - 1 else 1) * int (?m x) < (if bit y 63 then - 1 else 1) * int (?m y)" by (rule scaled_sign)
  also have "\<dots> \<longleftrightarrow> dbl_key x < dbl_key y" unfolding dbl_key_def Let_def by (cases "bit x 63"; cases "bit y 63"; simp)
  also have "\<dots> \<longleftrightarrow> dbl_lt x y" using assms by (simp add: dbl_lt_def)
  finally show ?thesis by blast
qed

text \<open>An integer of at most 53 bits stands for itself.\<close>

lemma scaled_of_nat: "m < 2 ^ 53 \<Longrightarrow> scaled (dbl_of_nat m) = m * 2 ^ 1074"
proof (cases "m = 0")
  case True
  then show ?thesis by (simp add: scaled_def dbl_of_nat_def)
next
  case False
  assume "m < 2 ^ 53"
  note s = dbl_of_nat_small [OF _ this] 
  let ?b = "bitlen m" and ?M = "m * 2 ^ (53 - bitlen m)"
  have "dbl_of_nat m = (?b + 1022) * 2 ^ 52 + (?M - 2 ^ 52)" "?M - 2 ^ 52 < 2 ^ 52" "2 ^ 52 + (?M - 2 ^ 52) = ?M"
    using s False by auto
  then have e: "dbl_of_nat m div 2 ^ 52 = ?b + 1022" "2 ^ 52 + dbl_of_nat m mod 2 ^ 52 = ?M"
    using div_mod_eq [of "dbl_of_nat m" "?b + 1022" "2 ^ 52" "?M - 2 ^ 52"] by simp_all
  have "?b + 1022 \<noteq> 0" "?b + 1022 - 1 = ?b + 1021" by simp_all
  then have "scaled (dbl_of_nat m) = ?M * 2 ^ (?b + 1021)" unfolding scaled_def e by (simp only: if_False)
  also have "\<dots> = m * 2 ^ (53 - ?b + (?b + 1021))" by (simp only: power_add mult.assoc)
  also have "53 - ?b + (?b + 1021) = 1074" using s False by simp
  finally show ?thesis .
qed

lemma dbl_val_of_int:
  assumes "\<bar>sint i\<bar> < 2 ^ 53"
  shows "dbl_val (dbl_of_i64 i) = of_int (sint i)"
proof -
  let ?n = "nat \<bar>sint i\<bar>"
  have n: "?n < 2 ^ 53" using assms by (simp add: nat_less_iff)
  let ?w = "word_of_nat (dbl_of_nat ?n) :: u64"
  have x: "dbl_of_i64 i = (if sint i < 0 then set_bit 63 ?w else ?w)" by (simp add: dbl_of_i64_def)
  then have "dbl_of_i64 i = ?w \<or> dbl_of_i64 i = set_bit 63 ?w" by simp
  note d = dbl_magnitude [OF dbl_of_nat_bound [OF n] refl this]
  have sg: "bit (dbl_of_i64 i) 63 \<longleftrightarrow> sint i < 0" using x d(6) by (auto simp: bit_simps)
  have "dbl_val (dbl_of_i64 i) * 2 ^ 1074 = of_int ((if sint i < 0 then - 1 else 1) * int (?n * 2 ^ 1074))"
    by (simp only: dbl_val_scaled sg d(1) scaled_of_nat [OF n])
  also have "(if sint i < 0 then - 1 else 1) * int (?n * 2 ^ 1074) = sint i * 2 ^ 1074" by (simp del: power_numeral)
  finally have "dbl_val (dbl_of_i64 i) * 2 ^ 1074 = of_int (sint i) * 2 ^ 1074" by (simp only: of_int_mult of_int_power of_int_numeral)
  moreover have "(2 :: rat) ^ 1074 \<noteq> 0" by (simp only: power_not_zero) simp
  ultimately show ?thesis by (simp only: mult_cancel_right) blast
qed

lemma num_dbl_lt:
  assumes "exact x" "exact y" "is_num x" "is_num y"
  shows "dbl_lt (num_dbl x) (num_dbl y) \<longleftrightarrow> num_val x < num_val y"
proof -
  have v: "\<not> dbl_isnan (num_dbl z) \<and> dbl_val (num_dbl z) = num_val z" if "exact z" "is_num z" for z
    using that dbl_of_i64_key(2) dbl_val_of_int by (cases z) auto
  show ?thesis using dbl_lt_val v [OF assms(1,3)] v [OF assms(2,4)] by simp
qed

fun value_class :: "sval \<Rightarrow> int" where
  "value_class VNull = 0" | "value_class (VInt _) = 1" | "value_class (VReal _) = 1"
| "value_class (VText _) = 2" | "value_class (VBlob _) = 3"

definition text_cmp :: "CollSeq option \<Rightarrow> u8 list \<Rightarrow> u8 list \<Rightarrow> int" where
  "text_cmp coll = (case coll of None \<Rightarrow> bytes_cmp | Some c \<Rightarrow> xCmp c)"

definition val_cmp :: "CollSeq option \<Rightarrow> sval \<Rightarrow> sval \<Rightarrow> int" where
  "val_cmp coll x y =
     (if value_class x \<noteq> value_class y then value_class x - value_class y
      else case (x, y) of
        (VText a, VText b) \<Rightarrow> text_cmp coll a b
      | (VBlob a, VBlob b) \<Rightarrow> bytes_cmp a b
      | _ \<Rightarrow> if is_num x then num_cmp x y else 0)"

text \<open>A cell that can be compared: of one type, its bytes there, its text in the encoding of the
  collating sequence.\<close>

definition comparable :: "CollSeq option \<Rightarrow> Mem \<Rightarrow> bool" where
  "comparable coll m \<longleftrightarrow> has m MEM_Null
     \<or> (has m MEM_Int \<longleftrightarrow> \<not> has m MEM_Real) \<and> \<not> has m MEM_Null
     \<or> \<not> has m MEM_Null \<and> \<not> has m MEM_Int \<and> \<not> has m MEM_Real \<and> \<not> has m MEM_Zero
         \<and> (\<exists>z. mz m = Some z \<and> mn m \<le> length z)
         \<and> (has m MEM_Str \<longrightarrow> (case coll of None \<Rightarrow> True | Some c \<Rightarrow> menc m = coll_enc c))"

text \<open>The types a cell can be compared at.\<close>

lemma comparable_cases:
  assumes "comparable coll m"
  obtains (null) "has m MEM_Null" "mem_value m = VNull"
  | (int) "\<not> has m MEM_Null" "has m MEM_Int" "\<not> has m MEM_Real" "mem_value m = VInt (mi m)"
  | (real) "\<not> has m MEM_Null" "\<not> has m MEM_Int" "has m MEM_Real" "mem_value m = VReal (mr m)"
  | (str) "\<not> has m MEM_Null" "\<not> has m MEM_Int" "\<not> has m MEM_Real" "has m MEM_Str"
      "\<And>c. coll = Some c \<Longrightarrow> menc m = coll_enc c"
      "bytes_of (mz m) (mn m) = Some (take (mn m) (the (mz m)))" "mn m \<le> length (the (mz m))" "mz m = Some (the (mz m))"
      "mem_value m = VText (take (mn m) (the (mz m)))"
  | (blob) "\<not> has m MEM_Null" "\<not> has m MEM_Int" "\<not> has m MEM_Real" "\<not> has m MEM_Str"
      "mn m \<le> length (the (mz m))" "mz m = Some (the (mz m))" "mem_value m = VBlob (take (mn m) (the (mz m)))"
proof -
  let ?z = "the (mz m)"
  consider "has m MEM_Null" | "\<not> has m MEM_Null" "has m MEM_Int" "\<not> has m MEM_Real"
    | "\<not> has m MEM_Null" "\<not> has m MEM_Int" "has m MEM_Real"
    | (bytes) "\<not> has m MEM_Null" "\<not> has m MEM_Int" "\<not> has m MEM_Real"
    using assms unfolding comparable_def by blast
  then show thesis
  proof cases
    case bytes
    then have b: "\<not> has m MEM_Zero" "mz m = Some ?z" "mn m \<le> length ?z"
      "has m MEM_Str \<longrightarrow> (case coll of None \<Rightarrow> True | Some c \<Rightarrow> menc m = coll_enc c)"
      using assms by (auto simp: comparable_def)
    have v: "bytes_of (mz m) (mn m) = Some (take (mn m) ?z)" by (subst b(2)) (simp add: bytes_of_def b(3))
    have "mem_value m = (if has m MEM_Str then VText (take (mn m) ?z) else VBlob (take (mn m) ?z))"
      using bytes b(1) by (simp add: mem_value_def)
    show thesis
    proof (cases "has m MEM_Str")
      case True
      with b(4) have "\<And>c. coll = Some c \<Longrightarrow> menc m = coll_enc c" by simp
      from str [OF bytes True this v b(3) b(2)] \<open>mem_value m = _\<close> True show thesis by simp
    next
      case False
      from blob [OF bytes False b(3) b(2)] \<open>mem_value m = _\<close> False show thesis by simp
    qed
  qed (use null int real assms in \<open>auto simp: mem_value_def comparable_def\<close>)
qed

lemma blob_compare:
  assumes "n1 \<le> length z1" "n2 \<le> length z2"
  shows "\<exists>r. memcmp8 (take (min n1 n2) z1) (take (min n1 n2) z2) (min n1 n2) = Some r
    \<and> sgn (if r = 0 then int n1 - int n2 else r) = sgn (bytes_cmp (take n1 z1) (take n2 z2))"
proof -
  obtain r where r: "memcmp8 (take (min n1 n2) z1) (take (min n1 n2) z2) (min n1 n2) = Some r"
      "sgn r = sgn (bytes_cmp (take (min n1 n2) z1) (take (min n1 n2) z2))"
    using memcmp8_cmp [of "take (min n1 n2) z1" "min n1 n2" "take (min n1 n2) z2" "[]" "[]"] assms by auto
  have "sgn (if r = 0 then int (length (take n1 z1)) - int (length (take n2 z2)) else r) = sgn (bytes_cmp (take n1 z1) (take n2 z2))"
    by (rule prefix_cmp) (use r(2) assms in simp)
  moreover have "length (take n1 z1) = n1" "length (take n2 z2) = n2" using assms by simp_all
  ultimately show ?thesis using r(1) by (simp only:) blast
qed

lemma num_order: "comparison C num_cmp"
  by unfold_locales (auto simp: num_cmp_def split: if_splits)

lemma num_cmp_int: "num_cmp (VInt i) (VInt j) = (if sint i < sint j then - 1 else if sint j < sint i then 1 else 0)"
  unfolding num_cmp_def num_val.simps of_int_less_iff ..

lemma has_num: "has m (MEM_Int OR MEM_Real) \<longleftrightarrow> has m MEM_Int \<or> has m MEM_Real"
  by (rule has_or)

lemma mem_compare_law:
  assumes 1: "comparable coll m1" and 2: "comparable coll m2" and ex: "exact_pair (mem_value m1) (mem_value m2)"
  shows "\<exists>r. sqlite3MemCompare m1 m2 coll al = Some (r, al) \<and> sgn r = sgn (val_cmp coll (mem_value m1) (mem_value m2))"
  using 1
proof (cases rule: comparable_cases)
  case null
  from 2 show ?thesis by (cases rule: comparable_cases) (simp_all add: null sqlite3MemCompare_def val_cmp_def Let_def)
next
  case int
  from 2 show ?thesis
  proof (cases rule: comparable_cases)
    case real2: real
    have "exact (mem_value m1)" "exact (mem_value m2)" using ex int(4) real2(4) by auto
    then have "dbl_lt (dbl_of_i64 (mi m1)) (mr m2) \<longleftrightarrow> num_val (mem_value m1) < num_val (mem_value m2)"
      "dbl_lt (mr m2) (dbl_of_i64 (mi m1)) \<longleftrightarrow> num_val (mem_value m2) < num_val (mem_value m1)"
      using num_dbl_lt [of "mem_value m1" "mem_value m2"] num_dbl_lt [of "mem_value m2" "mem_value m1"] int(4) real2(4) by simp_all
    then show ?thesis using int real2 by (auto simp: sqlite3MemCompare_def val_cmp_def num_cmp_def has_num Let_def)
  qed (auto simp: int sqlite3MemCompare_def val_cmp_def num_cmp_int has_num Let_def)
next
  case real
  from 2 show ?thesis
  proof (cases rule: comparable_cases)
    case int2: int
    have "exact (mem_value m1)" "exact (mem_value m2)" using ex real(4) int2(4) by auto
    then have "dbl_lt (mr m1) (dbl_of_i64 (mi m2)) \<longleftrightarrow> num_val (mem_value m1) < num_val (mem_value m2)"
      "dbl_lt (dbl_of_i64 (mi m2)) (mr m1) \<longleftrightarrow> num_val (mem_value m2) < num_val (mem_value m1)"
      using num_dbl_lt [of "mem_value m1" "mem_value m2"] num_dbl_lt [of "mem_value m2" "mem_value m1"] real(4) int2(4) by simp_all
    then show ?thesis using real int2 by (auto simp: sqlite3MemCompare_def val_cmp_def num_cmp_def has_num Let_def)
  next
    case real2: real
    have "exact (mem_value m1)" "exact (mem_value m2)" using ex real(4) real2(4) by auto
    then have "dbl_lt (mr m1) (mr m2) \<longleftrightarrow> num_val (mem_value m1) < num_val (mem_value m2)"
      "dbl_lt (mr m2) (mr m1) \<longleftrightarrow> num_val (mem_value m2) < num_val (mem_value m1)"
      using num_dbl_lt [of "mem_value m1" "mem_value m2"] num_dbl_lt [of "mem_value m2" "mem_value m1"] real(4) real2(4) by simp_all
    then show ?thesis using real real2 by (auto simp: sqlite3MemCompare_def val_cmp_def num_cmp_def has_num Let_def)
  qed (auto simp: real sqlite3MemCompare_def val_cmp_def num_cmp_def has_num Let_def)
next
  case str
  from 2 show ?thesis
  proof (cases rule: comparable_cases)
    case text2: str
    obtain r where r: "memcmp8 (take (min (mn m1) (mn m2)) (the (mz m1))) (take (min (mn m1) (mn m2)) (the (mz m2))) (min (mn m1) (mn m2)) = Some r"
      "sgn (if r = 0 then int (mn m1) - int (mn m2) else r) = sgn (bytes_cmp (take (mn m1) (the (mz m1))) (take (mn m2) (the (mz m2))))"
      using blob_compare [OF str(7) text2(7)] by blast
    show ?thesis
    proof (cases coll)
      case None
      have "sqlite3MemCompare m1 m2 coll al = Some (if r = 0 then int (mn m1) - int (mn m2) else r, al)"
        unfolding sqlite3MemCompare_def Let_def using str(1-4,7) text2(1-4,7) r(1)
        by (subst str(8), subst text2(8)) (simp add: None has_num bytes_of_def min_le_iff_disj)
      then show ?thesis using r(2) str(9) text2(9) None by (simp add: val_cmp_def text_cmp_def)
    next
      case (Some c)
      have "sqlite3MemCompare m1 m2 coll al = Some (xCmp c (take (mn m1) (the (mz m1))) (take (mn m2) (the (mz m2))), al)"
        using str(1-6) text2(1-4,6) by (simp add: sqlite3MemCompare_def Let_def Some has_num)
      then show ?thesis using str(9) text2(9) Some by (simp add: val_cmp_def text_cmp_def)
    qed
  qed (simp_all add: str(1-4,9) sqlite3MemCompare_def val_cmp_def has_num Let_def)
next
  case blob
  from 2 show ?thesis
  proof (cases rule: comparable_cases)
    case blob2: blob
    obtain r where r: "memcmp8 (take (min (mn m1) (mn m2)) (the (mz m1))) (take (min (mn m1) (mn m2)) (the (mz m2))) (min (mn m1) (mn m2)) = Some r"
      "sgn (if r = 0 then int (mn m1) - int (mn m2) else r) = sgn (bytes_cmp (take (mn m1) (the (mz m1))) (take (mn m2) (the (mz m2))))"
      using blob_compare [OF blob(5) blob2(5)] by blast
    have "sqlite3MemCompare m1 m2 coll al = Some (if r = 0 then int (mn m1) - int (mn m2) else r, al)"
      unfolding sqlite3MemCompare_def Let_def using blob(1-5) blob2(1-5) r(1)
      by (subst blob(6), subst blob2(6)) (simp add: has_num bytes_of_def min_le_iff_disj)
    then show ?thesis using r(2) blob(7) blob2(7) by (simp add: val_cmp_def)
  qed (simp_all add: blob(1-4,7) sqlite3MemCompare_def val_cmp_def has_num Let_def)
qed

subsection \<open>The order of the values\<close>

text \<open>The values are ordered by val_cmp, whatever the collating sequence.\<close>

definition collates :: "CollSeq option \<Rightarrow> bool" where
  "collates coll \<longleftrightarrow> comparison UNIV (text_cmp coll)"

lemma collates_None [simp]: "collates None"
  using bytes.comparison_axioms by (simp add: collates_def text_cmp_def)

lemma collates_nocase [simp]: "collates (Some \<lparr>coll_enc = e, xCmp = nocase_cmp\<rparr>)"
  using nocase_text.comparison_axioms by (simp add: collates_def text_cmp_def)

lemma val_cmp_class: "value_class x \<noteq> value_class y \<Longrightarrow> val_cmp coll x y = value_class x - value_class y"
  by (simp add: val_cmp_def)

lemma val_cmp_same:
  "val_cmp coll VNull VNull = 0" "val_cmp coll (VText a) (VText b) = text_cmp coll a b"
  "val_cmp coll (VBlob a) (VBlob b) = bytes_cmp a b"
  "is_num x \<Longrightarrow> is_num y \<Longrightarrow> val_cmp coll x y = num_cmp x y"
  by (simp_all add: val_cmp_def) (cases x; cases y; simp)

lemma value_class_iff:
  "value_class x = 0 \<longleftrightarrow> x = VNull" "value_class x = 1 \<longleftrightarrow> is_num x"
  "value_class x = 2 \<longleftrightarrow> (\<exists>a. x = VText a)" "value_class x = 3 \<longleftrightarrow> (\<exists>a. x = VBlob a)"
  by (cases x; simp)+

lemma value_order:
  assumes coll: "collates coll"
  shows "comparison UNIV (val_cmp coll)"
proof
  note tc = coll [unfolded collates_def]
  fix x y z :: sval
  show "sgn (val_cmp coll x y) = - sgn (val_cmp coll y x)"
  proof (cases "value_class x = value_class y")
    case True
    then consider "x = VNull" "y = VNull" | "is_num x" "is_num y" | a b where "x = VText a" "y = VText b"
      | a b where "x = VBlob a" "y = VBlob b"
      by (cases x; cases y; auto)
    then show ?thesis
    proof cases
      case 2
      then show ?thesis using comparison.anti [OF num_order [of UNIV], of x y] by (simp add: val_cmp_same)
    next
      case (3 a b)
      then show ?thesis using comparison.anti [OF tc, of a b] by (simp add: val_cmp_same)
    next
      case (4 a b)
      then show ?thesis using bytes.anti [of a b] by (simp add: val_cmp_same)
    qed (simp add: val_cmp_same)
  qed (auto simp: val_cmp_class sgn_if)
  assume le: "val_cmp coll x y \<le> 0" "val_cmp coll y z \<le> 0"
  have c: "value_class x \<le> value_class y" "value_class y \<le> value_class z"
    using le val_cmp_class [of x y coll] val_cmp_class [of y z coll] by force+
  show "val_cmp coll x z \<le> 0"
  proof (cases "value_class x = value_class z")
    case True
    with c have "value_class y = value_class x" "value_class z = value_class x" by simp_all
    then consider "x = VNull" "z = VNull" | "is_num x" "is_num y" "is_num z" | a b c where "x = VText a" "y = VText b" "z = VText c"
      | a b c where "x = VBlob a" "y = VBlob b" "z = VBlob c"
      by (cases x) (auto simp: value_class_iff)
    then show ?thesis
    proof cases
      case 2
      then show ?thesis using comparison.trans [OF num_order [of UNIV], of x y z] le by (simp add: val_cmp_same)
    next
      case (3 a b c)
      then show ?thesis using comparison.trans [OF tc, of a b c] le by (simp add: val_cmp_same)
    next
      case (4 a b c)
      then show ?thesis using bytes.trans [of a b c] le by (simp add: val_cmp_same)
    qed (simp add: val_cmp_same)
  qed (use c val_cmp_class [of x z coll] in simp)
qed

interpretation sval: comparison UNIV "val_cmp None" by (rule value_order) simp

subsection \<open>The properties\<close>

text \<open>
  C13: for cells with one type each, their bytes in memory and text in the encoding of
  the collating sequence, sqlite3MemCompare returns a number with the sign of the order of their
  values: NULL before numbers before text before blobs, numbers by the number they stand for, text by
  the collating sequence or its bytes, blobs by their bytes. When one of two numbers is real this is
  for integers below \<open>2 ^ 53\<close> in magnitude and reals that are not NaN.
\<close>
theorem mem_compare_orders_values:
  assumes "comparable coll m1" "comparable coll m2" "exact_pair (mem_value m1) (mem_value m2)"
  shows "\<exists>r. sqlite3MemCompare m1 m2 coll al = Some (r, al)
    \<and> sgn r = sgn (val_cmp coll (mem_value m1) (mem_value m2))"
  using assms by (rule mem_compare_law)

definition five_mem :: Mem where "five_mem = null_mem\<lparr>mflags := MEM_Int, mi := 5\<rparr>"

definition real_mem :: Mem where "real_mem = null_mem\<lparr>mflags := MEM_Real, mr := 0x4014000000000000\<rparr>"

text \<open>The integer 5 and the real number 5 are equal.\<close>

theorem mem_compare_orders_values_witness:
  "sqlite3MemCompare five_mem real_mem None [] = Some (0, [])"
proof -
  have c: "comparable None five_mem" "comparable None real_mem"
    by (simp_all add: comparable_def real_mem_def five_mem_def null_mem_def flag_simps bit_simps)
  have v: "mem_value five_mem = VInt 5" "mem_value real_mem = VReal 0x4014000000000000"
    by (simp_all add: mem_value_def real_mem_def five_mem_def null_mem_def flag_simps bit_simps)
  have d: "dbl_exp 0x4014000000000000 = 1025" "dbl_frac 0x4014000000000000 = 2 ^ 50" "\<not> bit (0x4014000000000000 :: u64) 63"
    by (simp_all add: dbl_exp_def dbl_frac_def)
  have n: "dbl_val 0x4014000000000000 = 5" unfolding dbl_val_def d by simp
  have "exact_pair (mem_value five_mem) (mem_value real_mem)" unfolding v by (simp add: dbl_isnan_def d)
  from mem_compare_orders_values [OF c this, of "[]"] show ?thesis unfolding v by (simp add: val_cmp_def num_cmp_def n sgn_0_0)
qed

text \<open>
  C17: over cells whose integers are below \<open>2\<^sup>5\<^sup>3\<close> in magnitude, or over
  cells none of which is a real number, sqlite3MemCompare is a total preorder: swapping the
  operands flips the sign, and the order is transitive, so that a b-tree or a sorter may rely on it.
\<close>
theorem mem_compare_is_an_order:
  assumes "collates coll" "\<forall>m \<in> {a, b, c}. comparable coll m"
    and "(\<forall>m \<in> {a, b, c}. exact (mem_value m)) \<or> (\<forall>m \<in> {a, b, c}. \<not> has m MEM_Real)"
  shows "\<exists>ab ba bc ac. sqlite3MemCompare a b coll al = Some (ab, al) \<and> sqlite3MemCompare b a coll al = Some (ba, al)
    \<and> sqlite3MemCompare b c coll al = Some (bc, al) \<and> sqlite3MemCompare a c coll al = Some (ac, al)
    \<and> sgn ab = - sgn ba \<and> (ab \<le> 0 \<and> bc \<le> 0 \<longrightarrow> ac \<le> 0) \<and> (ab = 0 \<and> bc = 0 \<longrightarrow> ac = 0)"
proof -
  let ?v = mem_value
  note C = value_order [OF assms(1)]
  have ex: "exact_pair (?v x) (?v y)" if "x \<in> {a, b, c}" "y \<in> {a, b, c}" for x y
  proof (cases "\<forall>m \<in> {a, b, c}. exact (?v m)")
    case True
    then show ?thesis using that exact_pair_exact by blast
  next
    case False
    then have "\<not> has x MEM_Real" "\<not> has y MEM_Real" using assms(3) that by blast+
    then have "?v x \<noteq> VReal r" "?v y \<noteq> VReal r" for r by (auto simp: mem_value_def Let_def)
    then show ?thesis by (cases "?v x"; cases "?v y"; simp)
  qed
  have law: "\<exists>r. sqlite3MemCompare x y coll al = Some (r, al) \<and> sgn r = sgn (val_cmp coll (?v x) (?v y))"
    if "x \<in> {a, b, c}" "y \<in> {a, b, c}" for x y
    using mem_compare_law [of coll x y al] ex [OF that] assms(2) that by blast
  obtain ab ba bc ac where r: "sqlite3MemCompare a b coll al = Some (ab, al)" "sqlite3MemCompare b a coll al = Some (ba, al)"
      "sqlite3MemCompare b c coll al = Some (bc, al)" "sqlite3MemCompare a c coll al = Some (ac, al)"
    and s: "sgn ab = sgn (val_cmp coll (?v a) (?v b))" "sgn ba = sgn (val_cmp coll (?v b) (?v a))"
      "sgn bc = sgn (val_cmp coll (?v b) (?v c))" "sgn ac = sgn (val_cmp coll (?v a) (?v c))"
    using law [of a b] law [of b a] law [of b c] law [of a c] by auto
  have le: "(x \<le> 0 \<longleftrightarrow> y \<le> 0) \<and> (x = 0 \<longleftrightarrow> y = 0)" if "sgn x = sgn y" for x y :: int
    using that by (auto simp: sgn_if split: if_splits)
  show ?thesis
    unfolding r option.inject prod.inject simp_thms s(1,2)
    using comparison.anti [OF C, of "?v a" "?v b"] comparison.trans [OF C, of "?v a" "?v b" "?v c"] comparison.trans_less(3) [OF C, of "?v a" "?v b" "?v c"] le [OF s(1)] le [OF s(3)] le [OF s(4)] s
    by (intro exI [of _ ab] exI [of _ ba] exI [of _ bc] exI [of _ ac]) simp
qed

theorem mem_compare_is_an_order_witness:
  "\<exists>r. sqlite3MemCompare null_mem five_mem None [] = Some (r, []) \<and> r \<le> 0"
proof -
  have c: "\<forall>m \<in> {null_mem, null_mem, five_mem}. comparable None m" "\<forall>m \<in> {null_mem, null_mem, five_mem}. \<not> has m MEM_Real"
    by (simp_all add: comparable_def five_mem_def null_mem_def flag_simps bit_simps)
  from mem_compare_is_an_order [OF collates_None c(1) disjI2 [OF c(2)], of "[]"] show ?thesis
    by (auto simp: sqlite3MemCompare_def five_mem_def null_mem_def flag_simps bit_simps)
qed

text \<open>
  BINARY is the lexicographic order of the unsigned bytes and NOCASE that of their
  lower-case forms (for keys without zero bytes), and both are total preorders.
\<close>
theorem builtin_collations:
  assumes "0 \<notin> set a"
  shows "(\<exists>r. binCollFunc False (length a) (a @ x) (length b) (b @ y) = Some r \<and> sgn r = sgn (bytes_cmp a b))
    \<and> (\<exists>r. nocaseCollatingFunc (length a) (a @ x) (length b) (b @ y) = Some r \<and> sgn r = sgn (nocase_cmp a b))
    \<and> comparison UNIV bytes_cmp \<and> comparison UNIV nocase_cmp"
  using binCollFunc_cmp nocase_cmp_spec [OF assms] bytes.comparison_axioms nocase_text.comparison_axioms by simp

theorem builtin_collations_witness:
  "\<exists>r. nocaseCollatingFunc 2 [0x61, 0x62] 2 [0x41, 0x42] = Some r \<and> sgn r = sgn (nocase_cmp [0x61, 0x62] [0x41, 0x42])"
proof -
  have "0 \<notin> set [0x61, 0x62 :: u8]" by simp
  from builtin_collations [OF this, of "[]" "[0x41, 0x42]" "[]"] show ?thesis
    by (simp add: numeral_2_eq_2 del: lex_cmp.simps)
qed

text \<open>Above \<open>2\<^sup>5\<^sup>3\<close> the comparison through doubles is not transitive: two different
  integers are both equal to one real number.\<close>

definition int_cell :: "i64 \<Rightarrow> Mem" where "int_cell i = null_mem\<lparr>mflags := MEM_Int, mi := i\<rparr>"
definition real_cell :: "dbl \<Rightarrow> Mem" where "real_cell r = null_mem\<lparr>mflags := MEM_Real, mr := r\<rparr>"

lemma both_2pow53: "dbl_of_i64 0x20000000000001 = 0x4340000000000000 \<and> dbl_of_i64 0x20000000000000 = 0x4340000000000000"
proof -
  have "bitlen 0x20000000000001 = 54" "bitlen 0x20000000000000 = 54"
    by (simp_all add: bitlen.simps [of "numeral _"] bitlen.simps [of "Suc 0"] bitlen.simps [of 0])
  then show ?thesis by (simp add: dbl_of_i64_def dbl_of_nat_def)
qed

lemma mixed_order_not_transitive:
  "sqlite3MemCompare (int_cell 0x20000000000001) (real_cell 0x4340000000000000) None [] = Some (0, [])
   \<and> sqlite3MemCompare (real_cell 0x4340000000000000) (int_cell 0x20000000000000) None [] = Some (0, [])
   \<and> sqlite3MemCompare (int_cell 0x20000000000001) (int_cell 0x20000000000000) None [] = Some (1, [])"
  by (simp add: sqlite3MemCompare_def int_cell_def real_cell_def null_mem_def flag_simps bit_simps dbl_lt_def both_2pow53 Let_def)

text \<open>The RTRIM collation is not transitive either: a tab sorts before the blanks it ignores.\<close>

lemma rtrim_not_transitive:
  "binCollFunc True 2 [0x61, 0x20] 1 [0x61] = Some 0 \<and> binCollFunc True 1 [0x61] 2 [0x61, 0x09] = Some (- 1)
   \<and> binCollFunc True 2 [0x61, 0x20] 2 [0x61, 0x09] = Some 23"
  by code_simp

end
