(* ===== verification/RecordFormat.thy ===== *)
theory RecordFormat
  imports Compare
begin

text \<open>
  Records: OP_MakeRecord of vdbe.c builds one from a row of cells, sqlite3VdbeRecordUnpack takes it
  apart and sqlite3VdbeRecordCompare compares one with unpacked values, field by field.
\<close>

subsection \<open>Keys\<close>

record KeyInfo =
  ki_enc :: int
  ki_nField :: nat
  aSortOrder :: "bool list option"
  aColl :: "CollSeq option list"

definition UNPACKED_NEED_FREE :: u16 where "UNPACKED_NEED_FREE = 0x0001"
definition UNPACKED_NEED_DESTROY :: u16 where "UNPACKED_NEED_DESTROY = 0x0002"
definition UNPACKED_IGNORE_ROWID :: u16 where "UNPACKED_IGNORE_ROWID = 0x0004"
definition UNPACKED_INCRKEY :: u16 where "UNPACKED_INCRKEY = 0x0008"
definition UNPACKED_PREFIX_MATCH :: u16 where "UNPACKED_PREFIX_MATCH = 0x0010"

lemmas unpacked_flags [codes] = UNPACKED_NEED_FREE_def UNPACKED_NEED_DESTROY_def UNPACKED_IGNORE_ROWID_def
  UNPACKED_INCRKEY_def UNPACKED_PREFIX_MATCH_def

text \<open>\<open>aMem\<close> holds \<open>nField\<close> cells: the others are not initialized.\<close>

record UnpackedRecord =
  ur_keyInfo :: KeyInfo
  ur_flags :: u16
  aMem :: "Mem list"

definition ur_has :: "UnpackedRecord \<Rightarrow> u16 \<Rightarrow> bool" where "ur_has p f \<longleftrightarrow> ur_flags p AND f \<noteq> 0"

text \<open>A cell of which only the encoding, the flags and \<open>zMalloc\<close> have been set.\<close>

definition blank_mem :: "int \<Rightarrow> Mem" where
  "blank_mem e = null_mem\<lparr>menc := e, mflags := 0\<rparr>"

subsection \<open>Taking a record apart\<close>

text \<open>
  The loop with \<open>k = nField - u\<close> cells left to fill. \<open>d\<close> is a signed offset: a header size of
  \<open>2\<^sup>3\<^sup>1\<close> or more makes it negative, and the access below the record is undefined.
\<close>

fun unpack_loop :: "u8 list \<Rightarrow> nat \<Rightarrow> int \<Rightarrow> nat \<Rightarrow> nat \<Rightarrow> int \<Rightarrow> nat \<Rightarrow> Mem list option" where
  "unpack_loop aKey nKey e szHdr idx d 0 = Some []"
| "unpack_loop aKey nKey e szHdr idx d (Suc k) =
     (if idx < szHdr then do {
        (n, serial_type) \<leftarrow> getVarint32 (drop idx aKey);
        if d \<ge> int nKey \<and> sqlite3VdbeSerialTypeLen serial_type > 0 then Some []
        else if d < 0 then None
        else do {
          (len, pMem) \<leftarrow> sqlite3VdbeSerialGet (drop (nat d) aKey) serial_type (blank_mem e);
          rest \<leftarrow> unpack_loop aKey nKey e szHdr (idx + n) (d + int len) k;
          Some (pMem # rest)
        }
      } else Some [])"

text \<open>\<open>sizeof(Mem)\<close> of the 32-bit target. The result is NULL (the inner None) when memory runs out.\<close>

definition sizeof_Mem :: nat where "sizeof_Mem = 40"

definition sqlite3VdbeRecordUnpack ::
  "KeyInfo \<Rightarrow> nat \<Rightarrow> u8 list \<Rightarrow> nat \<Rightarrow> oom \<Rightarrow> (UnpackedRecord option \<times> oom) option" where
  "sqlite3VdbeRecordUnpack pKeyInfo nKey pKey szSpace al =
     (let nByte = sizeof_Mem * (ki_nField pKeyInfo + 2);
          (ok, al', fl) = (if nByte > szSpace
            then (case malloc_next al of (b, al') \<Rightarrow> (b, al', UNPACKED_NEED_FREE OR UNPACKED_NEED_DESTROY))
            else (True, al, UNPACKED_NEED_DESTROY))
      in if \<not> ok then Some (None, al') else do {
        (idx, szHdr) \<leftarrow> getVarint32 pKey;
        ms \<leftarrow> unpack_loop pKey nKey (ki_enc pKeyInfo) (unat szHdr) idx (sint szHdr)
               ((ki_nField pKeyInfo + 1) mod 2 ^ 16);
        Some (Some \<lparr>ur_keyInfo = pKeyInfo, ur_flags = fl, aMem = ms\<rparr>, al')
      })"

text \<open>Releasing the cells; whether the structure itself is then freed is the second component.\<close>

fun release_all :: "Mem list \<Rightarrow> Mem list option" where
  "release_all [] = Some []"
| "release_all (m # ms) = do {
     m' \<leftarrow> (if szMalloc m > 0 then sqlite3VdbeMemRelease m else Some m);
     ms' \<leftarrow> release_all ms;
     Some (m' # ms')
   }"

definition sqlite3VdbeDeleteUnpackedRecord :: "UnpackedRecord option \<Rightarrow> (UnpackedRecord option \<times> bool) option" where
  "sqlite3VdbeDeleteUnpackedRecord p = (case p of None \<Rightarrow> Some (None, False)
    | Some p \<Rightarrow> do {
        ms \<leftarrow> (if ur_has p UNPACKED_NEED_DESTROY then release_all (aMem p) else Some (aMem p));
        Some (Some (p\<lparr>aMem := ms\<rparr>), ur_has p UNPACKED_NEED_FREE)
      })"

subsection \<open>Comparing a record\<close>

text \<open>
  The loop over the cells of \<open>pPKey2\<close> that are left, \<open>ms\<close>, of which the first is number \<open>i\<close>. It
  returns the position reached in the header, the index and the result of the last comparison.
\<close>

fun compare_loop ::
  "u8 list \<Rightarrow> nat \<Rightarrow> KeyInfo \<Rightarrow> u32 \<Rightarrow> Mem \<Rightarrow> nat \<Rightarrow> nat \<Rightarrow> nat \<Rightarrow> Mem list \<Rightarrow> oom
   \<Rightarrow> (nat \<times> nat \<times> int \<times> oom) option" where
  "compare_loop aKey1 nKey1 ki szHdr1 mem1 idx1 d1 i [] al = Some (idx1, i, 0, al)"
| "compare_loop aKey1 nKey1 ki szHdr1 mem1 idx1 d1 i (m2 # ms) al =
     (if idx1 < unat szHdr1 then do {
        (n, serial_type1) \<leftarrow> getVarint32 (drop idx1 aKey1);
        let idx1 = idx1 + n;
        if d1 \<ge> nKey1 \<and> sqlite3VdbeSerialTypeLen serial_type1 > 0 then Some (idx1, i, 0, al)
        else do {
          (len, mem1) \<leftarrow> sqlite3VdbeSerialGet (drop d1 aKey1) serial_type1 mem1;
          coll \<leftarrow> (if i < ki_nField ki then peek (aColl ki) i else Some None);
          (rc, al) \<leftarrow> sqlite3MemCompare mem1 m2 coll al;
          if rc \<noteq> 0 then Some (idx1, i, rc, al)
          else compare_loop aKey1 nKey1 ki szHdr1 mem1 idx1 (d1 + len) (Suc i) ms al
        }
      } else Some (idx1, i, 0, al))"

definition sqlite3VdbeRecordCompare :: "nat \<Rightarrow> u8 list \<Rightarrow> UnpackedRecord \<Rightarrow> oom \<Rightarrow> (int \<times> oom) option" where
  "sqlite3VdbeRecordCompare nKey1 pKey1 pPKey2 al =
     (let ki = ur_keyInfo pPKey2 in do {
        (idx1, szHdr) \<leftarrow> getVarint32 pKey1;
        let szHdr1 = (if ur_has pPKey2 UNPACKED_IGNORE_ROWID then szHdr - 1 else szHdr);
        (idx1, i, rc, al) \<leftarrow> compare_loop pKey1 nKey1 ki szHdr1 (blank_mem (ki_enc ki)) idx1 (unat szHdr) 0 (aMem pPKey2) al;
        if rc = 0 then
          Some (if ur_has pPKey2 UNPACKED_INCRKEY then - 1
                else if ur_has pPKey2 UNPACKED_PREFIX_MATCH then rc
                else if idx1 < unat szHdr1 then 1 else rc, al)
        else do {
          desc \<leftarrow> (case aSortOrder ki of Some so \<Rightarrow> if i < ki_nField ki then peek so i else Some False | None \<Rightarrow> Some False);
          Some (if desc then - rc else rc, al)
        }
      })"

subsection \<open>Making a record\<close>

text \<open>
  OP_MakeRecord on the cells \<open>pData0 \<dots> pLast\<close> with no affinity string (\<open>P4\<close> is NULL). The first loop
  expands zero-filled tails in place and adds up the sizes.
\<close>

fun make_sizes :: "Mem list \<Rightarrow> int \<Rightarrow> nat \<Rightarrow> nat \<Rightarrow> int \<Rightarrow> oom \<Rightarrow> (Mem list \<times> nat \<times> nat \<times> int \<times> oom) option" where
  "make_sizes [] ff nData nHdr nZero al = Some ([], nData, nHdr, nZero, al)"
| "make_sizes (pRec # rs) ff nData nHdr nZero al = do {
     (_, pRec, al) \<leftarrow> (if has pRec MEM_Zero \<and> mn pRec > 0 then sqlite3VdbeMemExpandBlob pRec al else Some (0, pRec, al));
     let st = sqlite3VdbeSerialType pRec ff;
     let len = sqlite3VdbeSerialTypeLen st;
     let nZero = (if has pRec MEM_Zero then nZero + sint (mi pRec) else if len > 0 then 0 else nZero);
     (rs, r) \<leftarrow> make_sizes rs ff (nData + len) (nHdr + sqlite3VarintLen (ucast st)) nZero al;
     Some (pRec # rs, r)
   }"

definition header_size :: "nat \<Rightarrow> nat" where
  "header_size nHdr =
     (let nVarint = sqlite3VarintLen (word_of_nat nHdr); n = nHdr + nVarint in
      if nVarint < sqlite3VarintLen (word_of_nat n) then n + 1 else n)"

fun put_types :: "Mem list \<Rightarrow> int \<Rightarrow> u8 list" where
  "put_types [] ff = []"
| "put_types (pRec # rs) ff = putVarint32 (sqlite3VdbeSerialType pRec ff) @ put_types rs ff"

fun put_data :: "Mem list \<Rightarrow> int \<Rightarrow> nat \<Rightarrow> u8 list option" where
  "put_data [] ff left = Some []"
| "put_data (pRec # rs) ff left = do {
     b \<leftarrow> sqlite3VdbeSerialPut left pRec ff;
     bs \<leftarrow> put_data rs ff (left - length b);
     Some (b @ bs)
   }"

text \<open>The bytes of the record are written from the start of the buffer of \<open>pOut\<close>.\<close>

definition OP_MakeRecord :: "Mem list \<Rightarrow> int \<Rightarrow> nat \<Rightarrow> Mem \<Rightarrow> oom \<Rightarrow> (rc \<times> Mem list \<times> Mem \<times> oom) option" where
  "OP_MakeRecord recs file_format limit pOut al = do {
     (recs, nData, nHdr0, nZero, al) \<leftarrow> make_sizes recs file_format 0 0 0 al;
     let nHdr = header_size nHdr0;
     let nByte = int (nHdr + nData) - nZero;
     if nByte > int limit then Some (SQLITE_TOOBIG, recs, pOut, al)
     else if nByte < 0 then None
     else do {
       (rc, pOut, al) \<leftarrow> sqlite3VdbeMemGrow pOut (nat nByte) False al;
       if rc \<noteq> 0 then Some (SQLITE_NOMEM, recs, pOut, al)
       else do {
         let hdr = putVarint32 (word_of_nat nHdr) @ put_types recs file_format;
         z \<leftarrow> mz pOut;
         _ \<leftarrow> (if length hdr \<le> length z then Some () else None);
         body \<leftarrow> put_data recs file_format (nat nByte - length hdr);
         z' \<leftarrow> copy_into z (hdr @ body) (length (hdr @ body));
         let pOut = pOut\<lparr>mz := Some z', mn := nat nByte, mflags := MEM_Blob OR MEM_Dyn, mxDel := False\<rparr>;
         let pOut = (if nZero \<noteq> 0 then pOut\<lparr>mi := word_of_int nZero, mflags := mflags pOut OR MEM_Zero\<rparr> else pOut);
         Some (SQLITE_OK, recs, pOut\<lparr>menc := SQLITE_UTF8\<rparr>, al)
       }
     }
   }"

subsection \<open>Varints in a record header\<close>

lemma getVarint32_put: "getVarint32 (putVarint32 v @ r) = Some (length (putVarint32 v), v)"
proof -
  have "ucast (ucast v :: u64) = v" by (rule bit_eqI32) (simp add: bit_eval)
  then show ?thesis by (simp add: getVarint32_trunc PutVarint32_eq GetVarint_PutVarint)
qed

lemma VarintLen_put32: "sqlite3VarintLen (ucast v) = length (putVarint32 v)"
  by (simp add: PutVarint32_eq VarintLen_Put)

lemma VarintLen_le: "0 < k \<Longrightarrow> k < 9 \<Longrightarrow> n < 2 ^ 64 \<Longrightarrow> sqlite3VarintLen (word_of_nat n) \<le> k \<longleftrightarrow> n < 128 ^ k"
  using VarintLen_loop [of 0 "word_of_nat n"] varint_groups_length [of k "word_of_nat n"]
  by (auto simp: sqlite3VarintLen_def unsigned_of_nat take_bit_nat_eq_self min_def)

lemma VarintLen_pos: "0 < sqlite3VarintLen v"
  using PutVarint_length [of v] by (auto simp: VarintLen_Put)

lemma putVarint32_ne [simp]: "putVarint32 v \<noteq> []" "0 < length (putVarint32 v)"
  using VarintLen_pos [of "ucast v"] by (auto simp: VarintLen_put32)

text \<open>The size of the header counts the varint that holds it.\<close>

lemma header_size_consistent:
  assumes "n < 2 ^ 28"
  shows "header_size n = n + sqlite3VarintLen (word_of_nat (header_size n))" "header_size n \<le> n + 5"
proof -
  let ?L = "\<lambda>n. sqlite3VarintLen (word_of_nat n)"
  note le = VarintLen_le [where n = n] and pos = VarintLen_pos [of "word_of_nat n"]
  have v4: "?L n \<le> 4" using VarintLen_le [of 4 n] assms by simp
  have n: "n < 128 ^ ?L n" using VarintLen_le [of "?L n" n] pos v4 assms by simp
  let ?m = "n + ?L n"
  have "?m + 1 < 128 ^ Suc (?L n)" using n v4 pos by simp
  then have m: "?L ?m \<le> Suc (?L n)" "?L (?m + 1) \<le> Suc (?L n)"
    using VarintLen_le [of "Suc (?L n)" ?m] VarintLen_le [of "Suc (?L n)" "?m + 1"] v4 assms by simp_all
  have mono: "?L n \<le> ?L ?m" "?L ?m \<le> ?L (?m + 1)"
  proof -
    have up: "?L a \<le> ?L b" if "a \<le> b" "b < 2 ^ 32" for a b
    proof -
      have "b < 128 ^ 5" using that by simp
      then have "?L b \<le> 5" using VarintLen_le [of 5 b] that by simp
      then have "b < 128 ^ ?L b" using VarintLen_le [of "?L b" b] VarintLen_pos that by simp
      then show ?thesis using VarintLen_le [of "?L b" a] VarintLen_pos \<open>?L b \<le> 5\<close> that by simp
    qed
    show "?L n \<le> ?L ?m" by (rule up) (use v4 assms in simp_all)
    show "?L ?m \<le> ?L (?m + 1)" by (rule up) (use v4 assms in simp_all)
  qed
  show "header_size n = n + ?L (header_size n)" "header_size n \<le> n + 5"
    using m mono v4 by (auto simp: header_size_def Let_def)
qed

subsection \<open>The fields of a record\<close>

text \<open>The bytes \<open>b\<close> hold the value of the cell \<open>m\<close>.\<close>

definition stored :: "int \<Rightarrow> Mem \<Rightarrow> u8 list \<Rightarrow> bool" where
  "stored ff m b \<longleftrightarrow> length b = sqlite3VdbeSerialTypeLen (sqlite3VdbeSerialType m ff)
     \<and> (\<forall>r m0. \<exists>m'. sqlite3VdbeSerialGet (b @ r) (sqlite3VdbeSerialType m ff) m0 = Some (length b, m')
          \<and> mem_value m' = mem_value m)"

abbreviation data_size :: "int \<Rightarrow> Mem list \<Rightarrow> nat" where
  "data_size ff ms \<equiv> sum_list (map (\<lambda>m. sqlite3VdbeSerialTypeLen (sqlite3VdbeSerialType m ff)) ms)"

lemma put_data_law:
  "\<forall>m \<in> set ms. storable m \<Longrightarrow> data_size ff ms \<le> left \<Longrightarrow>
   \<exists>bs. put_data ms ff left = Some (concat bs) \<and> list_all2 (stored ff) ms bs"
proof (induction ms arbitrary: left)
  case Nil
  then show ?case by (simp add: exI [of _ "[]"])
next
  case (Cons m ms)
  then obtain b where b: "sqlite3VdbeSerialPut left m ff = Some b" "stored ff m b"
    using serial_law [of m ff left] by (auto simp: stored_def)
  then have "data_size ff ms \<le> left - length b" using Cons.prems(2) by (simp add: stored_def)
  with Cons.IH [of "left - length b"] Cons.prems(1) obtain bs where
    "put_data ms ff (left - length b) = Some (concat bs)" "list_all2 (stored ff) ms bs" by auto
  then show ?case using b by (intro exI [of _ "b # bs"]) simp
qed

lemma put_types_length: "length (put_types ms ff) = sum_list (map (\<lambda>m. sqlite3VarintLen (ucast (sqlite3VdbeSerialType m ff))) ms)"
  by (induction ms) (simp_all add: VarintLen_put32)

lemma make_sizes_law:
  "\<forall>m \<in> set ms. \<not> has m MEM_Zero \<Longrightarrow>
   make_sizes ms ff nData nHdr 0 al = Some (ms, nData + data_size ff ms, nHdr + length (put_types ms ff), 0, al)"
  by (induction ms arbitrary: nData nHdr) (simp_all add: VarintLen_put32 Let_def add.assoc)

text \<open>The position in the header after each type and in the data after each value.\<close>

lemma serial_step:
  assumes "stored ff m b" "drop idx aKey = putVarint32 (sqlite3VdbeSerialType m ff) @ ts" "drop d aKey = b @ bs"
  shows "getVarint32 (drop idx aKey) = Some (length (putVarint32 (sqlite3VdbeSerialType m ff)), sqlite3VdbeSerialType m ff)"
    "drop (idx + length (putVarint32 (sqlite3VdbeSerialType m ff))) aKey = ts"
    "drop (d + length b) aKey = bs"
    "\<exists>m'. sqlite3VdbeSerialGet (drop d aKey) (sqlite3VdbeSerialType m ff) m0 = Some (length b, m') \<and> mem_value m' = mem_value m"
    "sqlite3VdbeSerialTypeLen (sqlite3VdbeSerialType m ff) = length b"
proof -
  show "drop (idx + length (putVarint32 (sqlite3VdbeSerialType m ff))) aKey = ts"
    using arg_cong [OF assms(2), of "drop (length (putVarint32 (sqlite3VdbeSerialType m ff)))"] by (simp add: add.commute)
  show "drop (d + length b) aKey = bs" using arg_cong [OF assms(3), of "drop (length b)"] by (simp add: add.commute)
qed (use assms in \<open>auto simp: getVarint32_put stored_def\<close>)

lemma drop_append_length: "drop d xs = b @ c \<Longrightarrow> b \<noteq> [] \<Longrightarrow> d < length xs"
  by (metis append_is_Nil_conv drop_all leI)

text \<open>A value that has been read can be compared.\<close>

lemma SerialGet_flags:
  assumes "st \<in> {0, 1, 2, 3, 4, 5, 6, 7, 8, 9, 10, 11}" "sqlite3VdbeSerialGet buf st m0 = Some (n, m')"
  shows "mflags m' \<in> {MEM_Null, MEM_Int, MEM_Real} \<and> menc m' = menc m0"
  using assms
  by (elim insertE emptyE) (auto simp: sqlite3VdbeSerialGet_def Let_def elim!: bind_SomeE)

lemma SerialGet_comparable:
  assumes g: "sqlite3VdbeSerialGet buf st m0 = Some (n, m')" and n: "n \<le> length buf"
    and coll: "\<And>c. coll = Some c \<Longrightarrow> coll_enc c = menc m0"
  shows "comparable coll m' \<and> menc m' = menc m0"
proof (cases "st \<in> {0, 1, 2, 3, 4, 5, 6, 7, 8, 9, 10, 11}")
  case True
  from SerialGet_flags [OF this g] show ?thesis by (auto simp: comparable_def flag_simps)
next
  case False
  then show ?thesis using g n coll SerialGet_bytes [OF False, of buf m0]
    by (auto simp: comparable_def flag_simps bit_simps Let_def split: option.splits if_splits)
qed

lemma unpack_loop_law:
  assumes "list_all2 (stored ff) ms bs"
  shows "drop idx aKey = put_types ms ff @ rest \<Longrightarrow> drop d aKey = concat bs \<Longrightarrow> szHdr = idx + length (put_types ms ff)
    \<Longrightarrow> length ms \<le> k \<Longrightarrow> nKey = length aKey \<Longrightarrow>
    \<exists>ms'. unpack_loop aKey nKey e szHdr idx (int d) k = Some ms' \<and> map mem_value ms' = map mem_value ms
      \<and> (\<forall>m' \<in> set ms'. \<forall>coll. (\<forall>c. coll = Some c \<longrightarrow> coll_enc c = e) \<longrightarrow> comparable coll m')"
  using assms
proof (induction ms bs arbitrary: idx d k rule: list_all2_induct)
  case Nil
  then show ?case by (cases k) simp_all
next
  case (Cons m ms b bs)
  let ?st = "sqlite3VdbeSerialType m ff"
  obtain k' where k: "k = Suc k'" using Cons.prems(4) by (cases k) auto
  have hd: "drop idx aKey = putVarint32 ?st @ (put_types ms ff @ rest)" using Cons.prems(1) by simp
  have dd: "drop d aKey = b @ concat bs" using Cons.prems(2) by simp
  note s = serial_step [OF Cons.hyps(1) hd dd]
  obtain m' where m': "sqlite3VdbeSerialGet (drop d aKey) ?st (blank_mem e) = Some (length b, m')" "mem_value m' = mem_value m"
    using s(4) by blast
  have "0 < length (putVarint32 ?st)" using VarintLen_pos by (metis VarintLen_put32)
  then have 1: "idx < szHdr" using Cons.prems(3) by simp
  have 2: "\<not> (int d \<ge> int nKey \<and> sqlite3VdbeSerialTypeLen ?st > 0)"
    using drop_append_length [OF dd] s(5) Cons.prems(5) by (cases "b = []") auto
  obtain ms' where "unpack_loop aKey nKey e szHdr (idx + length (putVarint32 ?st)) (int (d + length b)) k' = Some ms'"
      "map mem_value ms' = map mem_value ms"
      "\<forall>m' \<in> set ms'. \<forall>coll. (\<forall>c. coll = Some c \<longrightarrow> coll_enc c = e) \<longrightarrow> comparable coll m'"
    using Cons.IH [OF s(2,3) _ _ Cons.prems(5), of k'] Cons.prems(3,4) k by fastforce
  moreover have "length b \<le> length (drop d aKey)" unfolding dd by simp
  then have "\<forall>coll. (\<forall>c. coll = Some c \<longrightarrow> coll_enc c = e) \<longrightarrow> comparable coll m'"
    using SerialGet_comparable [OF m'(1)] by (simp add: blank_mem_def)
  ultimately show ?case using s(1) 1 2 m' k by simp
qed

text \<open>The bytes of the record of the cells \<open>ms\<close>.\<close>

definition is_record :: "int \<Rightarrow> Mem list \<Rightarrow> u8 list \<Rightarrow> bool" where
  "is_record ff ms key \<longleftrightarrow> (\<exists>bs nHdr. list_all2 (stored ff) ms bs
     \<and> key = putVarint32 (word_of_nat nHdr) @ put_types ms ff @ concat bs
     \<and> nHdr = length (putVarint32 (word_of_nat nHdr)) + length (put_types ms ff) \<and> nHdr < 2 ^ 31)"

text \<open>A row that fits in a record: no zero-filled tails, and a size below the limits.\<close>

definition fits_record :: "int \<Rightarrow> Mem list \<Rightarrow> nat \<Rightarrow> bool" where
  "fits_record ff ms limit \<longleftrightarrow> (\<forall>m \<in> set ms. storable m \<and> \<not> has m MEM_Zero) \<and> length (put_types ms ff) < 2 ^ 28
     \<and> header_size (length (put_types ms ff)) + data_size ff ms \<le> limit"

lemma concat_stored_length: "list_all2 (stored ff) ms bs \<Longrightarrow> length (concat bs) = data_size ff ms"
  by (induction rule: list_all2_induct) (simp_all add: stored_def)

lemma make_record_law:
  assumes fits: "fits_record ff ms limit" and inv: "mem_inv pOut" and oom: "no_oom al"
  shows "\<exists>pOut' al'. OP_MakeRecord ms ff limit pOut al = Some (SQLITE_OK, ms, pOut', al') \<and> no_oom al'
    \<and> mem_inv pOut' \<and> has pOut' MEM_Blob \<and> \<not> has pOut' MEM_Zero
    \<and> is_record ff ms (take (mn pOut') (the (mz pOut'))) \<and> mn pOut' \<le> length (the (mz pOut'))"
proof -
  let ?types = "put_types ms ff" and ?nH = "header_size (length (put_types ms ff))"
  have st: "\<forall>m \<in> set ms. storable m" and nz: "\<forall>m \<in> set ms. \<not> has m MEM_Zero" and t28: "length ?types < 2 ^ 28"
    and lim: "?nH + data_size ff ms \<le> limit" using fits by (auto simp: fits_record_def)
  note hs = header_size_consistent [OF t28]
  have nH: "?nH < 2 ^ 31" using hs(2) t28 by simp
  have "(word_of_nat ?nH :: u64) = ucast (word_of_nat ?nH :: u32)"
    using nH by (simp add: word_unat_eq_iff unsigned_of_nat unsigned_ucast_eq take_bit_nat_eq_self)
  then have hdr: "?nH = length (putVarint32 (word_of_nat ?nH)) + length ?types" using hs(1) by (simp add: VarintLen_put32)
  let ?n = "?nH + data_size ff ms"
  obtain rc pg al1 where g: "sqlite3VdbeMemGrow pOut ?n False al = Some (rc, pg, al1)" and gr: "grown pOut ?n False al (rc, pg, al1)"
    using grow_law [OF inv, of False ?n al] by auto
  from gr oom obtain b where rc: "rc = SQLITE_OK" "no_oom al1" and b: "max ?n 32 \<le> length b"
    "pg = pOut\<lparr>mz := Some b, own := True, szMalloc := length b, mxDel := False, mflags := mflags pOut AND NOT (MEM_Ephem OR MEM_Static)\<rparr>"
    and pinv: "mem_inv pg"
    by (auto simp: grown_def codes)
  obtain bs where bs: "put_data ms ff (data_size ff ms) = Some (concat bs)" "list_all2 (stored ff) ms bs"
    using put_data_law [OF st, of ff "data_size ff ms"] by auto
  let ?rec = "putVarint32 (word_of_nat ?nH) @ ?types @ concat bs"
  have len: "length ?rec = ?n" using hdr concat_stored_length [OF bs(2)] by simp
  have "copy_into b ?rec (length ?rec) = Some (?rec @ drop ?n b)" using b(1) len by (simp add: copy_into_def)
  moreover have "length (putVarint32 (word_of_nat ?nH) @ ?types) \<le> length b" using b(1) hdr by simp
  moreover have "?n - length (putVarint32 (word_of_nat ?nH) @ ?types) = data_size ff ms" using hdr by simp
  ultimately have "OP_MakeRecord ms ff limit pOut al = Some (SQLITE_OK, ms, pg\<lparr>mz := Some (?rec @ drop ?n b), mn := ?n,
      mflags := MEM_Blob OR MEM_Dyn, mxDel := False, menc := SQLITE_UTF8\<rparr>, al1)"
    using g rc(1) lim bs(1) b(2) make_sizes_law [OF nz, of ff 0 0 al]
    by (simp add: OP_MakeRecord_def Let_def codes nat_int_add add.assoc)
  moreover have "is_record ff ms ?rec" unfolding is_record_def
    using bs(2) hdr nH by (intro exI [of _ bs] exI [of _ ?nH]) simp
  ultimately show ?thesis using rc(2) len pinv b
    by (auto simp: flag_simps bit_simps mem_inv_def)
qed

lemma record_unpack_law:
  assumes r: "is_record ff ms key" and k: "length ms \<le> ki_nField ki + 1" "ki_nField ki < 2 ^ 16 - 1"
    and oom: "no_oom al"
  shows "\<exists>p al'. sqlite3VdbeRecordUnpack ki (length key) key szSpace al = Some (Some p, al') \<and> no_oom al'
    \<and> ur_keyInfo p = ki \<and> map mem_value (aMem p) = map mem_value ms \<and> \<not> ur_has p UNPACKED_IGNORE_ROWID
    \<and> \<not> ur_has p UNPACKED_INCRKEY \<and> \<not> ur_has p UNPACKED_PREFIX_MATCH
    \<and> (\<forall>m' \<in> set (aMem p). \<forall>coll. (\<forall>c. coll = Some c \<longrightarrow> coll_enc c = ki_enc ki) \<longrightarrow> comparable coll m')"
proof -
  obtain bs nHdr where bs: "list_all2 (stored ff) ms bs"
    and key: "key = putVarint32 (word_of_nat nHdr) @ put_types ms ff @ concat bs"
    and h: "nHdr = length (putVarint32 (word_of_nat nHdr)) + length (put_types ms ff)" "nHdr < 2 ^ 31"
    using r unfolding is_record_def by blast
  have w: "unat (word_of_nat nHdr :: u32) = nHdr" using h(2) by (simp add: unsigned_of_nat take_bit_nat_eq_self)
  have s: "sint (word_of_nat nHdr :: u32) = int nHdr" using h(2)
    by (simp add: signed_of_nat signed_take_bit_int_eq_self)
  have "drop nHdr key = concat bs" by (subst h(1), subst key) simp
  moreover have "drop (length (putVarint32 (word_of_nat nHdr))) key = put_types ms ff @ concat bs" by (subst key) simp
  ultimately have "\<exists>ms'. unpack_loop key (length key) (ki_enc ki) nHdr (length (putVarint32 (word_of_nat nHdr))) (int nHdr)
      (ki_nField ki + 1) = Some ms' \<and> map mem_value ms' = map mem_value ms
      \<and> (\<forall>m' \<in> set ms'. \<forall>coll. (\<forall>c. coll = Some c \<longrightarrow> coll_enc c = ki_enc ki) \<longrightarrow> comparable coll m')"
    by (intro unpack_loop_law [OF bs _ _ h(1) k(1) refl])
  then obtain ms' where ms': "unpack_loop key (length key) (ki_enc ki) nHdr (length (putVarint32 (word_of_nat nHdr))) (int nHdr)
      (ki_nField ki + 1) = Some ms'" "map mem_value ms' = map mem_value ms"
      "\<forall>m' \<in> set ms'. \<forall>coll. (\<forall>c. coll = Some c \<longrightarrow> coll_enc c = ki_enc ki) \<longrightarrow> comparable coll m'"
    by blast
  obtain ok al1 where al: "malloc_next al = (ok, al1)" by (cases "malloc_next al")
  then have ok: "ok" "no_oom al1" using malloc_next_no_oom oom by blast+
  have g: "getVarint32 key = Some (length (putVarint32 (word_of_nat nHdr)), word_of_nat nHdr)"
    by (subst key) (rule getVarint32_put)
  show ?thesis using ms' al ok g w s k(2) oom
    by (simp add: sqlite3VdbeRecordUnpack_def ur_has_def codes Let_def del: unpack_loop.simps)
qed

subsection \<open>The order of records\<close>

definition coll_at :: "KeyInfo \<Rightarrow> nat \<Rightarrow> CollSeq option" where
  "coll_at ki i = (if i < ki_nField ki then aColl ki ! i else None)"

definition desc_at :: "KeyInfo \<Rightarrow> nat \<Rightarrow> bool" where
  "desc_at ki i = (case aSortOrder ki of Some so \<Rightarrow> i < ki_nField ki \<and> so ! i | None \<Rightarrow> False)"

definition key_info_ok :: "KeyInfo \<Rightarrow> bool" where
  "key_info_ok ki \<longleftrightarrow> ki_nField ki < 2 ^ 16 - 1 \<and> ki_nField ki \<le> length (aColl ki)
     \<and> (\<forall>so. aSortOrder ki = Some so \<longrightarrow> ki_nField ki \<le> length so)
     \<and> (\<forall>i < ki_nField ki. case aColl ki ! i of None \<Rightarrow> True | Some c \<Rightarrow> coll_enc c = ki_enc ki)"

text \<open>The first field that differs decides; \<open>tie\<close> is the result when one row has run out.\<close>

fun fields_cmp :: "KeyInfo \<Rightarrow> nat \<Rightarrow> (bool \<Rightarrow> int) \<Rightarrow> sval list \<Rightarrow> sval list \<Rightarrow> int" where
  "fields_cmp ki i tie (v # vs) (w # ws) =
     (let c = val_cmp (coll_at ki i) v w in
      if c = 0 then fields_cmp ki (Suc i) tie vs ws else if desc_at ki i then - c else c)"
| "fields_cmp ki i tie vs [] = tie (vs \<noteq> [])"
| "fields_cmp ki i tie [] (w # ws) = tie False"

definition tie_of :: "UnpackedRecord \<Rightarrow> bool \<Rightarrow> int" where
  "tie_of p longer = (if ur_has p UNPACKED_INCRKEY then - 1 else if ur_has p UNPACKED_PREFIX_MATCH then 0
     else if longer then 1 else 0)"

lemma compare_loop_law:
  assumes "list_all2 (stored ff) ms bs" and ki: "key_info_ok ki"
  shows "drop idx aKey = put_types ms ff @ rest \<Longrightarrow> drop d aKey = concat bs @ rest' \<Longrightarrow> unat szHdr1 = idx + length (put_types ms ff)
    \<Longrightarrow> nKey = length aKey \<Longrightarrow> menc mem1 = ki_enc ki
    \<Longrightarrow> \<forall>j < length ws. comparable (coll_at ki (i + j)) (ws ! j)
    \<Longrightarrow> \<forall>j < length ws. j < length ms \<longrightarrow> exact_pair (mem_value (ms ! j)) (mem_value (ws ! j)) \<Longrightarrow>
    \<exists>idx' i' rc. compare_loop aKey nKey ki szHdr1 mem1 idx d i ws al = Some (idx', i', rc, al)
      \<and> sgn (if rc = 0 then tie (idx' < unat szHdr1) else if desc_at ki i' then - rc else rc)
        = sgn (fields_cmp ki i tie (map mem_value ms) (map mem_value ws))"
  using assms(1)
proof (induction ms bs arbitrary: idx d i ws mem1 rule: list_all2_induct)
  case Nil
  then show ?case by (cases ws) simp_all
next
  case (Cons m ms b bs)
  let ?st = "sqlite3VdbeSerialType m ff"
  have hd: "drop idx aKey = putVarint32 ?st @ (put_types ms ff @ rest)" using Cons.prems(1) by simp
  have dd: "drop d aKey = b @ (concat bs @ rest')" using Cons.prems(2) by simp
  note s = serial_step [OF Cons.hyps(1) hd dd]
  have "0 < length (putVarint32 ?st)" using VarintLen_pos by (metis VarintLen_put32)
  then have 1: "idx < unat szHdr1" using Cons.prems(3) by simp
  show ?case
  proof (cases ws)
    case Nil
    then show ?thesis using 1 by simp
  next
    case ws: (Cons w ws')
    obtain m' where m': "sqlite3VdbeSerialGet (drop d aKey) ?st mem1 = Some (length b, m')" "mem_value m' = mem_value m"
      using s(4) by blast
    have 2: "\<not> (d \<ge> nKey \<and> sqlite3VdbeSerialTypeLen ?st > 0)"
      using drop_append_length [OF dd] s(5) Cons.prems(4) by (cases "b = []") auto
    have coll: "(if i < ki_nField ki then peek (aColl ki) i else Some None) = Some (coll_at ki i)"
      using ki by (auto simp: key_info_ok_def coll_at_def)
    have "length b \<le> length (drop d aKey)" unfolding dd by simp
    moreover have "coll_enc c = menc mem1" if "coll_at ki i = Some c" for c
      using that ki Cons.prems(5) by (auto simp: key_info_ok_def coll_at_def split: if_splits option.splits)
    ultimately have c: "comparable (coll_at ki i) m'" "menc m' = ki_enc ki"
      using SerialGet_comparable [OF m'(1), of "coll_at ki i"] Cons.prems(5) by simp_all
    have "comparable (coll_at ki i) w" using Cons.prems(6) ws by force
    moreover have "exact_pair (mem_value m') (mem_value w)" using Cons.prems(7) ws m'(2) by force
    ultimately obtain rc where
      rc: "sqlite3MemCompare m' w (coll_at ki i) al = Some (rc, al)"
        "sgn rc = sgn (val_cmp (coll_at ki i) (mem_value m) (mem_value w))" using mem_compare_law [OF c(1), of w al] m'(2) by auto
    let ?idx = "idx + length (putVarint32 ?st)"
    have step: "compare_loop aKey nKey ki szHdr1 mem1 idx d i ws al =
        (if rc \<noteq> 0 then Some (?idx, i, rc, al) else compare_loop aKey nKey ki szHdr1 m' ?idx (d + length b) (Suc i) ws' al)"
      by (simp only: ws compare_loop.simps if_P [OF 1] s(1) Option.bind.simps prod.case Let_def if_not_P [OF 2] m'(1) coll rc(1))
    show ?thesis
    proof (cases "rc = 0")
      case True
      have "\<forall>j < length ws'. comparable (coll_at ki (Suc i + j)) (ws' ! j)" using Cons.prems(6) ws by force
      moreover have "\<forall>j < length ws'. j < length ms \<longrightarrow> exact_pair (mem_value (ms ! j)) (mem_value (ws' ! j))"
        using Cons.prems(7) ws by force
      ultimately show ?thesis using Cons.IH [OF s(2,3) _ Cons.prems(4) c(2), of ws'] Cons.prems(3) step True rc(2) ws
        by (simp add: sgn_0_0 Let_def)
    next
      case False
      then have "val_cmp (coll_at ki i) (mem_value m) (mem_value w) \<noteq> 0" using rc(2) by (auto simp: sgn_0_0)
      then show ?thesis using step False rc(2) ws by (simp add: Let_def)
    qed
  qed
qed

text \<open>The cells of the record that take part: with UNPACKED_IGNORE_ROWID all but the last.\<close>

definition key_cells :: "UnpackedRecord \<Rightarrow> Mem list \<Rightarrow> Mem list" where
  "key_cells p ms = (if ur_has p UNPACKED_IGNORE_ROWID then butlast ms else ms)"

definition rowid_last :: "int \<Rightarrow> UnpackedRecord \<Rightarrow> Mem list \<Rightarrow> bool" where
  "rowid_last ff p ms \<longleftrightarrow>
     (ur_has p UNPACKED_IGNORE_ROWID \<longrightarrow> ms \<noteq> [] \<and> length (putVarint32 (sqlite3VdbeSerialType (last ms) ff)) = 1)"

lemma put_types_append: "put_types (ms @ ns) ff = put_types ms ff @ put_types ns ff"
  by (induction ms) simp_all

lemma record_compare_law:
  assumes r: "is_record ff ms key" and ki: "key_info_ok (ur_keyInfo p)" and last: "rowid_last ff p ms"
    and cells: "\<forall>j < length (aMem p). comparable (coll_at (ur_keyInfo p) j) (aMem p ! j)"
    and ex: "\<forall>j < length (aMem p). j < length (key_cells p ms) \<longrightarrow> exact_pair (mem_value (key_cells p ms ! j)) (mem_value (aMem p ! j))"
  shows "\<exists>rc. sqlite3VdbeRecordCompare (length key) key p al = Some (rc, al)
    \<and> sgn rc = sgn (fields_cmp (ur_keyInfo p) 0 (tie_of p) (map mem_value (key_cells p ms)) (map mem_value (aMem p)))"
proof -
  let ?ki = "ur_keyInfo p" and ?ks = "key_cells p ms"
  obtain bs nHdr where bs: "list_all2 (stored ff) ms bs"
    and key: "key = putVarint32 (word_of_nat nHdr) @ put_types ms ff @ concat bs"
    and h: "nHdr = length (putVarint32 (word_of_nat nHdr)) + length (put_types ms ff)" "nHdr < 2 ^ 31"
    using r unfolding is_record_def by blast
  let ?h = "putVarint32 (word_of_nat nHdr)"
  have w: "unat (word_of_nat nHdr :: u32) = nHdr" using h(2) by (simp add: unsigned_of_nat take_bit_nat_eq_self)
  define szHdr1 :: u32 where "szHdr1 = (if ur_has p UNPACKED_IGNORE_ROWID then word_of_nat nHdr - 1 else word_of_nat nHdr)"
  have "\<exists>bs0 rest rest'. list_all2 (stored ff) ?ks bs0 \<and> put_types ms ff @ concat bs = put_types ?ks ff @ rest
      \<and> concat bs = concat bs0 @ rest' \<and> unat szHdr1 = length ?h + length (put_types ?ks ff)"
  proof (cases "ur_has p UNPACKED_IGNORE_ROWID")
    case False
    then show ?thesis using bs h w
      by (intro exI [of _ bs] exI [of _ "concat bs"] exI [of _ "[]"]) (simp add: key_cells_def szHdr1_def)
  next
    case True
    then have ne: "ms \<noteq> []" and l1: "length (putVarint32 (sqlite3VdbeSerialType (last ms) ff)) = 1"
      using last by (simp_all add: rowid_last_def)
    have m: "ms = butlast ms @ [last ms]" using ne by simp
    then have t: "put_types ms ff = put_types (butlast ms) ff @ putVarint32 (sqlite3VdbeSerialType (last ms) ff)"
      using put_types_append [of "butlast ms" "[last ms]" ff] by simp
    from m bs obtain bs0 bl where b: "bs = bs0 @ bl" "list_all2 (stored ff) (butlast ms) bs0"
      by (metis list_all2_append1)
    have "0 < nHdr" using putVarint32_ne(2) [of "word_of_nat nHdr"] h(1) by linarith
    then have "unat (word_of_nat nHdr - 1 :: u32) = nHdr - 1" using w
      by (subst unat_minus_one) (auto simp: unat_eq_0 [symmetric])
    then have "unat szHdr1 = length ?h + length (put_types (butlast ms) ff)" using h(1) t l1 True by (simp add: szHdr1_def)
    then show ?thesis using b t True
      by (intro exI [of _ bs0] exI [of _ "putVarint32 (sqlite3VdbeSerialType (last ms) ff) @ concat bs"] exI [of _ "concat bl"])
        (simp add: key_cells_def)
  qed
  then obtain bs0 rest rest' where k: "list_all2 (stored ff) ?ks bs0" "put_types ms ff @ concat bs = put_types ?ks ff @ rest"
    "concat bs = concat bs0 @ rest'" "unat szHdr1 = length ?h + length (put_types ?ks ff)" by blast
  have d: "drop nHdr key = concat bs0 @ rest'" by (subst h(1), subst key) (simp add: k(3))
  have i: "drop (length ?h) key = put_types ?ks ff @ rest" by (subst key) (simp add: k(2))
  have cells': "\<forall>j < length (aMem p). comparable (coll_at ?ki (0 + j)) (aMem p ! j)" using cells by simp
  have e: "menc (blank_mem (ki_enc ?ki)) = ki_enc ?ki" by (simp add: blank_mem_def)
  obtain idx' i' rc where c: "compare_loop key (length key) ?ki szHdr1 (blank_mem (ki_enc ?ki)) (length ?h) nHdr 0 (aMem p) al
      = Some (idx', i', rc, al)"
    and s: "sgn (if rc = 0 then tie_of p (idx' < unat szHdr1) else if desc_at ?ki i' then - rc else rc)
      = sgn (fields_cmp ?ki 0 (tie_of p) (map mem_value ?ks) (map mem_value (aMem p)))"
    using compare_loop_law [OF k(1) ki i d k(4) refl e cells' ex, of al "tie_of p"] by blast
  have g: "getVarint32 key = Some (length ?h, word_of_nat nHdr)" by (subst key) (rule getVarint32_put)
  have desc: "(case aSortOrder ?ki of Some so \<Rightarrow> if i' < ki_nField ?ki then peek so i' else Some False | None \<Rightarrow> Some False)
      = Some (desc_at ?ki i')" using ki by (auto simp: key_info_ok_def desc_at_def split: option.split)
  have "sqlite3VdbeRecordCompare (length key) key p al
      = Some (if rc = 0 then tie_of p (idx' < unat szHdr1) else if desc_at ?ki i' then - rc else rc, al)"
    unfolding sqlite3VdbeRecordCompare_def Let_def g Option.bind.simps prod.case szHdr1_def [symmetric] w c desc
    by (simp add: tie_of_def)
  then show ?thesis using s by blast
qed

text \<open>Rows of one length are ordered.\<close>

lemma fields_order:
  assumes "\<And>j. collates (coll_at ki j)"
  shows "comparison {vs. length vs = n \<and> (\<forall>v \<in> set vs. exact v)} (fields_cmp ki i (\<lambda>_. 0))"
proof (induction n arbitrary: i)
  case 0
  show ?case by unfold_locales auto
next
  case (Suc n)
  let ?C = "{vs. length vs = n \<and> (\<forall>v \<in> set vs. exact v)}"
  let ?f = "fields_cmp ki (Suc i) (\<lambda>_. 0)" and ?v = "val_cmp (coll_at ki i)"
  note f = Suc.IH [of "Suc i"] and v = value_order [OF assms, of i]
  show ?case
  proof
    fix xs ys assume x: "xs \<in> {vs. length vs = Suc n \<and> (\<forall>v \<in> set vs. exact v)}"
      and y: "ys \<in> {vs. length vs = Suc n \<and> (\<forall>v \<in> set vs. exact v)}"
    from x obtain a as where a: "xs = a # as" "exact a" "as \<in> ?C" by (cases xs) auto
    from y obtain b bs where b: "ys = b # bs" "exact b" "bs \<in> ?C" by (cases ys) auto
    show "sgn (fields_cmp ki i (\<lambda>_. 0) xs ys) = - sgn (fields_cmp ki i (\<lambda>_. 0) ys xs)"
      using comparison.anti [OF v, of a b] comparison.swap(3) [OF v, of a b] comparison.anti [OF f a(3) b(3)] a b
      by (auto simp: Let_def)
    fix zs assume z: "zs \<in> {vs. length vs = Suc n \<and> (\<forall>v \<in> set vs. exact v)}"
      and le: "fields_cmp ki i (\<lambda>_. 0) xs ys \<le> 0" "fields_cmp ki i (\<lambda>_. 0) ys zs \<le> 0"
    from z obtain c cs where c: "zs = c # cs" "exact c" "cs \<in> ?C" by (cases zs) auto
    note t = comparison.trans_less [OF v, of a b c] comparison.trans_less [OF v, of c b a] comparison.trans [OF f a(3) b(3) c(3)]
      comparison.swap [OF v, of a b] comparison.swap [OF v, of b c] comparison.swap [OF v, of a c]
    show "fields_cmp ki i (\<lambda>_. 0) xs zs \<le> 0"
    proof (cases "desc_at ki i")
      case True
      then show ?thesis using t le a b c by (auto simp: Let_def not_less split: if_splits)
    next
      case False
      then show ?thesis using t le a b c by (auto simp: Let_def not_less split: if_splits)
    qed
  qed
qed

text \<open>An index entry: the bytes of a record and the same record taken apart.\<close>

definition index_entry :: "int \<Rightarrow> KeyInfo \<Rightarrow> nat \<Rightarrow> u8 list \<times> UnpackedRecord \<Rightarrow> bool" where
  "index_entry ff ki n e \<longleftrightarrow> (\<exists>ms. is_record ff ms (fst e) \<and> ur_keyInfo (snd e) = ki \<and> length ms = n
     \<and> map mem_value (aMem (snd e)) = map mem_value ms \<and> (\<forall>m \<in> set ms. exact (mem_value m))
     \<and> \<not> ur_has (snd e) UNPACKED_IGNORE_ROWID \<and> \<not> ur_has (snd e) UNPACKED_INCRKEY
     \<and> (\<forall>m' \<in> set (aMem (snd e)). \<forall>coll. (\<forall>c. coll = Some c \<longrightarrow> coll_enc c = ki_enc ki) \<longrightarrow> comparable coll m'))"

definition entry_cmp :: "oom \<Rightarrow> u8 list \<times> UnpackedRecord \<Rightarrow> u8 list \<times> UnpackedRecord \<Rightarrow> int" where
  "entry_cmp al e f = fst (the (sqlite3VdbeRecordCompare (length (fst e)) (fst e) (snd f) al))"

lemma fields_cmp_tie:
  "length vs = length ws \<Longrightarrow> tie False = 0 \<Longrightarrow> fields_cmp ki i tie vs ws = fields_cmp ki i (\<lambda>_. 0) vs ws"
  by (induction vs ws arbitrary: i rule: list_induct2) (simp_all add: Let_def)

lemma entry_cmp_values:
  assumes ki: "key_info_ok ki" and e: "index_entry ff ki n e" and f: "index_entry ff ki n f"
  shows "sgn (entry_cmp al e f) = sgn (fields_cmp ki 0 (\<lambda>_. 0) (map mem_value (aMem (snd e))) (map mem_value (aMem (snd f))))"
proof -
  obtain a where a: "is_record ff a (fst e)" "length a = n" "map mem_value (aMem (snd e)) = map mem_value a" "\<forall>m \<in> set a. exact (mem_value m)"
    using e unfolding index_entry_def by blast
  obtain b where b: "ur_keyInfo (snd f) = ki" "length b = n" "map mem_value (aMem (snd f)) = map mem_value b"
    "\<forall>m \<in> set b. exact (mem_value m)"
    "\<not> ur_has (snd f) UNPACKED_IGNORE_ROWID" "\<not> ur_has (snd f) UNPACKED_INCRKEY"
    "\<forall>m' \<in> set (aMem (snd f)). \<forall>coll. (\<forall>c. coll = Some c \<longrightarrow> coll_enc c = ki_enc ki) \<longrightarrow> comparable coll m'"
    using f unfolding index_entry_def by blast
  have coll: "coll_enc c = ki_enc ki" if "coll_at ki j = Some c" for j c
    using that ki by (auto simp: key_info_ok_def coll_at_def split: if_splits option.splits)
  have "\<forall>j < length (aMem (snd f)). comparable (coll_at (ur_keyInfo (snd f)) j) (aMem (snd f) ! j)"
    using b(1,7) coll by (metis nth_mem)
  moreover have "rowid_last ff (snd f) a" "key_cells (snd f) a = a" using b(5) by (simp_all add: rowid_last_def key_cells_def)
  moreover have "exact_pair (mem_value (a ! j)) (mem_value (aMem (snd f) ! j))" if j: "j < length (aMem (snd f))" for j
  proof -
    have len: "length (aMem (snd f)) = n" "length a = n" using a(2) b(2,3) by (metis length_map)+
    have "mem_value (aMem (snd f) ! j) = mem_value (b ! j)" using b(2,3) j len by (metis nth_map)
    then show ?thesis using exact_pair_exact a(4) b(4) j len b(2) by (metis nth_mem)
  qed
  ultimately obtain rc where "sqlite3VdbeRecordCompare (length (fst e)) (fst e) (snd f) al = Some (rc, al)"
    "sgn rc = sgn (fields_cmp ki 0 (tie_of (snd f)) (map mem_value a) (map mem_value (aMem (snd f))))"
    using record_compare_law [OF a(1), of "snd f" al] ki b(1) by auto
  then show ?thesis
    using fields_cmp_tie [of "map mem_value a" "map mem_value (aMem (snd f))" "tie_of (snd f)" ki 0] a(2,3) b
    by (simp add: entry_cmp_def tie_of_def)
qed

lemma sgn_le: "sgn (x :: int) = sgn y \<Longrightarrow> x \<le> 0 \<longleftrightarrow> y \<le> 0"
  by (auto simp: sgn_if split: if_splits)

lemma index_order:
  assumes ki: "key_info_ok ki" and coll: "\<And>j. collates (coll_at ki j)"
  shows "comparison {e. index_entry ff ki n e} (entry_cmp al)"
proof
  let ?v = "\<lambda>e. map mem_value (aMem (snd e))"
  note c = fields_order [OF coll, where n = n and i = 0]
  have in_C: "?v e \<in> {vs. length vs = n \<and> (\<forall>v \<in> set vs. exact v)}" if "index_entry ff ki n e" for e :: "u8 list \<times> UnpackedRecord"
  proof -
    from that obtain ms where "?v e = map mem_value ms" "length ms = n" "\<forall>m \<in> set ms. exact (mem_value m)"
      unfolding index_entry_def by blast
    then show ?thesis by (simp only: mem_Collect_eq length_map set_map) blast
  qed
  fix x y assume x: "x \<in> {e. index_entry ff ki n e}" and y: "y \<in> {e. index_entry ff ki n e}"
  show "sgn (entry_cmp al x y) = - sgn (entry_cmp al y x)"
    using entry_cmp_values [OF ki, of ff n x y] entry_cmp_values [OF ki, of ff n y x] comparison.anti [OF c, of "?v x" "?v y"] in_C x y
    by simp
  fix z assume z: "z \<in> {e. index_entry ff ki n e}" and le: "entry_cmp al x y \<le> 0" "entry_cmp al y z \<le> 0"
  show "entry_cmp al x z \<le> 0"
    using le sgn_le [OF entry_cmp_values [OF ki, of ff n x y]] sgn_le [OF entry_cmp_values [OF ki, of ff n y z]]
      sgn_le [OF entry_cmp_values [OF ki, of ff n x z]] comparison.trans [OF c, of "?v x" "?v y" "?v z"] in_C x y z
    by simp
qed

subsection \<open>The properties\<close>

text \<open>
  C3: a row of storable cells within the length limit is made into a record by
  OP_MakeRecord without an error, and sqlite3VdbeRecordUnpack of the bytes of that record gives
  cells with the same values, in the same order.
\<close>
theorem record_roundtrip:
  assumes "fits_record ff ms limit" "mem_inv pOut" "no_oom al" "length ms \<le> ki_nField ki + 1" "ki_nField ki < 2 ^ 16 - 1"
  shows "\<exists>pOut' al1 p al2. OP_MakeRecord ms ff limit pOut al = Some (SQLITE_OK, ms, pOut', al1)
    \<and> sqlite3VdbeRecordUnpack ki (mn pOut') (take (mn pOut') (the (mz pOut'))) szSpace al1 = Some (Some p, al2)
    \<and> map mem_value (aMem p) = map mem_value ms"
proof -
  obtain pOut' al1 where 1: "OP_MakeRecord ms ff limit pOut al = Some (SQLITE_OK, ms, pOut', al1)" "no_oom al1"
    "is_record ff ms (take (mn pOut') (the (mz pOut')))" "mn pOut' \<le> length (the (mz pOut'))"
    using make_record_law [OF assms(1-3)] by blast
  from record_unpack_law [OF 1(3) assms(4,5) 1(2), of szSpace] 1(4) obtain p al2 where
    "sqlite3VdbeRecordUnpack ki (mn pOut') (take (mn pOut') (the (mz pOut'))) szSpace al1 = Some (Some p, al2)"
    "map mem_value (aMem p) = map mem_value ms" by auto
  then show ?thesis using 1(1) by blast
qed

definition two_cols :: KeyInfo where
  "two_cols = \<lparr>ki_enc = SQLITE_UTF8, ki_nField = 2, aSortOrder = Some [True, False], aColl = [None, None]\<rparr>"

lemma two_cols_ok: "key_info_ok two_cols" "collates (coll_at two_cols j)"
  by (auto simp: key_info_ok_def two_cols_def coll_at_def less_2_cases_iff)

lemma two_cells:
  "storable five_mem" "storable abc_mem" "\<not> has five_mem MEM_Zero" "\<not> has abc_mem MEM_Zero"
  by (simp_all add: storable_def five_mem_def abc_mem_def null_mem_def flag_simps bit_simps)

theorem record_roundtrip_witness:
  "\<exists>pOut' al1. OP_MakeRecord [five_mem, abc_mem] 4 100 null_mem [] = Some (SQLITE_OK, [five_mem, abc_mem], pOut', al1)"
proof -
  have "put_types [five_mem, abc_mem] 4 = [1, 19]" "data_size 4 [five_mem, abc_mem] = 4" "header_size (Suc (Suc 0)) = 3" by code_simp+
  then have "fits_record 4 [five_mem, abc_mem] 100" using two_cells by (simp add: fits_record_def)
  moreover have "mem_inv null_mem" by (simp add: mem_inv_def null_mem_def flag_simps)
  ultimately show ?thesis using record_roundtrip [of 4 "[five_mem, abc_mem]" 100 null_mem "[]" two_cols 0] by (auto simp: two_cols_def)
qed

text \<open>
  C9: sqlite3VdbeRecordCompare of a record with unpacked values, of which there are no more than fields in
  the record, has the sign of the first field that differs, in the collating sequence and direction of
  that field; the last field of the record (the row id) is left out with UNPACKED_IGNORE_ROWID. When the
  values run out first, the record is smaller with UNPACKED_INCRKEY, equal with UNPACKED_PREFIX_MATCH and
  otherwise larger if it has fields left. Numbers are ordered by what they stand for; a real number
  must not be NaN and is compared with integers below \<open>2 ^ 53\<close> in magnitude only.
\<close>
theorem record_compare_orders_rows:
  assumes "is_record ff ms key" "key_info_ok (ur_keyInfo p)" "rowid_last ff p ms"
    and "\<forall>j < length (aMem p). comparable (coll_at (ur_keyInfo p) j) (aMem p ! j)"
    and "length (aMem p) \<le> length (key_cells p ms)"
    and "\<forall>j < length (aMem p). exact_pair (mem_value (key_cells p ms ! j)) (mem_value (aMem p ! j))"
  shows "\<exists>rc. sqlite3VdbeRecordCompare (length key) key p al = Some (rc, al)
    \<and> sgn rc = sgn (fields_cmp (ur_keyInfo p) 0 (tie_of p) (map mem_value (key_cells p ms)) (map mem_value (aMem p)))"
  by (rule record_compare_law [OF assms(1-4)]) (use assms(6) in simp)

lemma two_cells_record: "is_record 4 [five_mem, abc_mem] [3, 1, 19, 5, 0x61, 0x62, 0x63]"
proof -
  have t: "sqlite3VdbeSerialType five_mem 4 = 1" "sqlite3VdbeSerialType abc_mem 4 = 19" "sqlite3VdbeSerialTypeLen 19 = 3"
    by code_simp+
  have "stored 4 five_mem [5]" "stored 4 abc_mem [0x61, 0x62, 0x63]"
    unfolding stored_def t type_len
    by (simp_all add: sqlite3VdbeSerialGet_def mem_value_def five_mem_def abc_mem_def null_mem_def flag_simps bit_simps)
  moreover have "putVarint32 1 = [1]" "putVarint32 19 = [19]" "putVarint32 3 = [3]" by code_simp+
  ultimately show ?thesis unfolding is_record_def
    by (intro exI [of _ "[[5], [0x61, 0x62, 0x63]]"] exI [of _ 3]) (simp add: t)
qed

definition prefix_key :: UnpackedRecord where
  "prefix_key = \<lparr>ur_keyInfo = two_cols, ur_flags = UNPACKED_PREFIX_MATCH, aMem = [five_mem]\<rparr>"

theorem record_compare_orders_rows_witness:
  "\<exists>rc. sqlite3VdbeRecordCompare 7 [3, 1, 19, 5, 0x61, 0x62, 0x63] prefix_key [] = Some (rc, []) \<and> sgn rc = 0"
proof -
  have ki: "key_info_ok (ur_keyInfo prefix_key)" "rowid_last 4 prefix_key [five_mem, abc_mem]"
    using two_cols_ok(1) by (auto simp: prefix_key_def rowid_last_def ur_has_def codes)
  have c: "\<forall>j < length (aMem prefix_key). comparable (coll_at (ur_keyInfo prefix_key) j) (aMem prefix_key ! j)"
    by (simp add: prefix_key_def comparable_def five_mem_def null_mem_def flag_simps)
  have k: "key_cells prefix_key [five_mem, abc_mem] = [five_mem, abc_mem]" "aMem prefix_key = [five_mem]"
    by (simp_all add: prefix_key_def key_cells_def ur_has_def codes)
  have v: "mem_value five_mem = VInt 5" by (simp add: mem_value_def five_mem_def null_mem_def flag_simps)
  have l: "length (aMem prefix_key) \<le> length (key_cells prefix_key [five_mem, abc_mem])"
    and ex: "\<forall>j < length (aMem prefix_key). exact_pair (mem_value (key_cells prefix_key [five_mem, abc_mem] ! j)) (mem_value (aMem prefix_key ! j))"
    unfolding k by (simp_all add: v)
  have "fields_cmp (ur_keyInfo prefix_key) 0 (tie_of prefix_key) (map mem_value (key_cells prefix_key [five_mem, abc_mem]))
      (map mem_value (aMem prefix_key)) = 0"
  proof -
    have "tie_of prefix_key True = 0" by (simp add: prefix_key_def tie_of_def ur_has_def codes)
    then show ?thesis using k v by (simp add: val_cmp_def num_cmp_def)
  qed
  then show ?thesis using record_compare_orders_rows [OF two_cells_record ki c l ex, of "[]"] by (simp add: eval_nat_numeral)
qed

text \<open>
  C14: the comparison that orders a b-tree index, sqlite3VdbeRecordCompare over the entries with one field
  count whose numbers are exact (integers below \<open>2 ^ 53\<close> in magnitude, no NaN), is a total preorder for
  every choice of ordered collating sequences and directions: sgn-antisymmetric and transitive.
\<close>
theorem index_entries_ordered:
  assumes "key_info_ok ki" "\<forall>j. collates (coll_at ki j)"
  shows "comparison {e. index_entry ff ki n e} (entry_cmp al)"
  by (rule index_order [OF assms(1)]) (use assms(2) in simp)

theorem index_entries_ordered_witness:
  "comparison {e. index_entry 4 two_cols 2 e} (entry_cmp [])"
proof -
  have "\<forall>j. collates (coll_at two_cols j)" using two_cols_ok(2) by blast
  with two_cols_ok(1) show ?thesis by (rule index_entries_ordered)
qed

text \<open>A record that has fewer fields than the unpacked key compares as equal, not as less.\<close>

lemma shorter_key_is_equal:
  "sqlite3VdbeRecordCompare 3 [2, 1, 5] \<lparr>ur_keyInfo = two_cols, ur_flags = 0, aMem = [five_mem, abc_mem]\<rparr> [] = Some (0, [])"
  by code_simp

text \<open>A corrupt record whose header claims more data than there is makes the comparison read past its end.\<close>

lemma corrupt_record_overread:
  "sqlite3VdbeRecordCompare 3 [2, 6, 5] \<lparr>ur_keyInfo = two_cols, ur_flags = 0, aMem = [five_mem]\<rparr> [] = None"
  by code_simp

end
