(* ===== verification/Mem5.thy ===== *)
theory Mem5
  imports Prelude
begin

unbundle bit_operations_syntax

text \<open>
  The fixed-size allocator of mem5.c: a pool of \<open>nBlock\<close> atoms of \<open>nAtom\<close> bytes, handed out in
  aligned blocks of a power of two atoms. A control byte per atom gives the size of the block that
  starts there and whether it is free; the free blocks of each size are linked through the pool.
\<close>

subsection \<open>The state\<close>

definition LOGMAX :: nat where "LOGMAX = 30"
definition POW2_MAX :: int where "POW2_MAX = 2 ^ 20"
definition CTRL_LOGSIZE :: u8 where "CTRL_LOGSIZE = 0x1f"
definition CTRL_FREE :: u8 where "CTRL_FREE = 0x20"

lemmas mem5_consts [codes] = LOGMAX_def POW2_MAX_def CTRL_LOGSIZE_def CTRL_FREE_def

text \<open>An atom of the pool holds the link of a free block, or bytes of the client.\<close>

datatype atom = Link int int | Bytes "u8 list"

record Mem5Global =
  nAtom :: nat
  nBlock :: nat
  zPool :: "atom list"
  nAlloc :: u64
  totalAlloc :: u64
  totalExcess :: u64
  currentOut :: u32
  currentCount :: u32
  maxOut :: u32
  maxCount :: u32
  maxRequest :: u32
  aiFreelist :: "int list"
  aCtrl :: "u8 list"

definition MEM5LINK :: "Mem5Global \<Rightarrow> nat \<Rightarrow> (int \<times> int) option" where
  "MEM5LINK s i = (case peek (zPool s) i of Some (Link n p) \<Rightarrow> Some (n, p) | _ \<Rightarrow> None)"

definition set_link :: "Mem5Global \<Rightarrow> nat \<Rightarrow> int \<Rightarrow> int \<Rightarrow> Mem5Global option" where
  "set_link s i n p = do { z \<leftarrow> poke (zPool s) i (Link n p); Some (s\<lparr>zPool := z\<rparr>) }"

definition set_freelist :: "Mem5Global \<Rightarrow> nat \<Rightarrow> int \<Rightarrow> Mem5Global option" where
  "set_freelist s l x = do { f \<leftarrow> poke (aiFreelist s) l x; Some (s\<lparr>aiFreelist := f\<rparr>) }"

definition set_ctrl :: "Mem5Global \<Rightarrow> nat \<Rightarrow> u8 \<Rightarrow> Mem5Global option" where
  "set_ctrl s i b = do { c \<leftarrow> poke (aCtrl s) i b; Some (s\<lparr>aCtrl := c\<rparr>) }"

subsection \<open>The free lists\<close>

definition memsys5Unlink :: "Mem5Global \<Rightarrow> nat \<Rightarrow> nat \<Rightarrow> Mem5Global option" where
  "memsys5Unlink s i iLogsize = do {
     (next, prev) \<leftarrow> MEM5LINK s i;
     s \<leftarrow> (if prev < 0 then set_freelist s iLogsize next
           else do { (_, pp) \<leftarrow> MEM5LINK s (nat prev); set_link s (nat prev) next pp });
     (if next \<ge> 0 then do { (nn, _) \<leftarrow> MEM5LINK s (nat next); set_link s (nat next) nn prev } else Some s)
   }"

definition memsys5Link :: "Mem5Global \<Rightarrow> nat \<Rightarrow> nat \<Rightarrow> Mem5Global option" where
  "memsys5Link s i iLogsize = do {
     x \<leftarrow> peek (aiFreelist s) iLogsize;
     s \<leftarrow> set_link s i x (- 1);
     s \<leftarrow> (if x \<ge> 0 then do { (xn, _) \<leftarrow> MEM5LINK s (nat x); set_link s (nat x) xn (int i) } else Some s);
     set_freelist s iLogsize (int i)
   }"

text \<open>The loop of UnlinkFirst; on a cyclic list it would not return.\<close>

partial_function (option) unlink_scan :: "Mem5Global \<Rightarrow> int \<Rightarrow> int \<Rightarrow> int option" where
  "unlink_scan s i iFirst =
     (if i > 0 then
        Option.bind (MEM5LINK s (nat i)) (\<lambda>np. unlink_scan s (fst np) (if i < iFirst then i else iFirst))
      else Some iFirst)"

definition memsys5UnlinkFirst :: "Mem5Global \<Rightarrow> nat \<Rightarrow> (nat \<times> Mem5Global) option" where
  "memsys5UnlinkFirst s iLogsize = do {
     i \<leftarrow> peek (aiFreelist s) iLogsize;
     iFirst \<leftarrow> unlink_scan s i i;
     if iFirst < 0 then None
     else do { s \<leftarrow> memsys5Unlink s (nat iFirst) iLogsize; Some (nat iFirst, s) }
   }"

subsection \<open>Sizes\<close>

definition block_log :: "u8 \<Rightarrow> nat" where "block_log c = unat (c AND CTRL_LOGSIZE)"

text \<open>A block is given by the index of its first atom; the null pointer is None.\<close>

definition memsys5Size :: "Mem5Global \<Rightarrow> nat option \<Rightarrow> int option" where
  "memsys5Size s p = (case p of None \<Rightarrow> Some 0
     | Some i \<Rightarrow> do { c \<leftarrow> peek (aCtrl s) i; Some (int (nAtom s) * 2 ^ block_log c) })"

text \<open>Doubling \<open>iFullSz\<close> up to \<open>nByte\<close>: undefined when the int overflows or never grows.\<close>

function round_loop :: "int \<Rightarrow> nat \<Rightarrow> int \<Rightarrow> (int \<times> nat) option" where
  "round_loop iFullSz iLogsize nByte =
     (if iFullSz < nByte then
        (if 0 < iFullSz \<and> iFullSz * 2 < 2 ^ 31 then round_loop (iFullSz * 2) (Suc iLogsize) nByte else None)
      else Some (iFullSz, iLogsize))"
  by auto
termination by (relation "measure (\<lambda>(f, _, _). nat (2 ^ 31 - f))") auto

declare round_loop.simps [simp del]

definition memsys5Roundup :: "Mem5Global \<Rightarrow> int \<Rightarrow> int option" where
  "memsys5Roundup s n = map_option fst (round_loop (int (nAtom s)) 0 n)"

definition memsys5Log :: "int \<Rightarrow> nat option" where
  "memsys5Log iValue = map_option snd (round_loop 1 0 iValue)"

subsection \<open>Allocation\<close>

text \<open>The search reads the head of a list before it tests the index: past the last list it is undefined.\<close>

function find_bin :: "Mem5Global \<Rightarrow> nat \<Rightarrow> nat option" where
  "find_bin s iBin = do {
     f \<leftarrow> peek (aiFreelist s) iBin;
     if f < 0 \<and> iBin \<le> LOGMAX then find_bin s (Suc iBin) else Some iBin
   }"
  by auto
termination by (relation "measure (\<lambda>(_, b). Suc LOGMAX - b)") auto

declare find_bin.simps [simp del]

fun split_loop :: "Mem5Global \<Rightarrow> nat \<Rightarrow> nat \<Rightarrow> nat \<Rightarrow> Mem5Global option" where
  "split_loop s i iLogsize 0 = Some s"
| "split_loop s i iLogsize (Suc iBin) =
     (if Suc iBin > iLogsize then do {
        let newSize = 2 ^ iBin;
        s \<leftarrow> set_ctrl s (i + newSize) (CTRL_FREE OR word_of_nat iBin);
        s \<leftarrow> memsys5Link s (i + newSize) iBin;
        split_loop s i iLogsize iBin
      } else Some s)"

definition memsys5MallocUnsafe :: "Mem5Global \<Rightarrow> int \<Rightarrow> (nat option \<times> Mem5Global) option" where
  "memsys5MallocUnsafe s nByte =
     (let s = (if word_of_int nByte > maxRequest s then s\<lparr>maxRequest := word_of_int nByte\<rparr> else s) in
      if uint (word_of_int nByte :: u32) > POW2_MAX then Some (None, s)
      else do {
        (iFullSz, iLogsize) \<leftarrow> round_loop (int (nAtom s)) 0 nByte;
        iBin \<leftarrow> find_bin s iLogsize;
        if iBin > LOGMAX then Some (None, s)
        else do {
          (i, s) \<leftarrow> memsys5UnlinkFirst s iBin;
          s \<leftarrow> split_loop s i iLogsize iBin;
          s \<leftarrow> set_ctrl s i (word_of_nat iLogsize);
          let s = s\<lparr>nAlloc := nAlloc s + 1, totalAlloc := totalAlloc s + word_of_int iFullSz,
                   totalExcess := totalExcess s + word_of_int (iFullSz - nByte),
                   currentCount := currentCount s + 1, currentOut := currentOut s + word_of_int iFullSz\<rparr>;
          let s = (if maxCount s < currentCount s then s\<lparr>maxCount := currentCount s\<rparr> else s);
          let s = (if maxOut s < currentOut s then s\<lparr>maxOut := currentOut s\<rparr> else s);
          Some (Some i, s)
        }
      })"

subsection \<open>Freeing\<close>

function free_loop :: "Mem5Global \<Rightarrow> nat \<Rightarrow> nat \<Rightarrow> nat \<Rightarrow> (Mem5Global \<times> nat \<times> nat) option" where
  "free_loop s iBlock iLogsize sz =
     (if iLogsize < LOGMAX then
        (let right = (bit iBlock iLogsize) in
         if right \<and> iBlock < sz then None
         else let iBuddy = (if right then iBlock - sz else iBlock + sz) in
         if iBuddy + 2 ^ iLogsize > nBlock s then Some (s, iBlock, iLogsize)
         else do {
           c \<leftarrow> peek (aCtrl s) iBuddy;
           if c \<noteq> CTRL_FREE OR word_of_nat iLogsize then Some (s, iBlock, iLogsize)
           else do {
             s \<leftarrow> memsys5Unlink s iBuddy iLogsize;
             let iLogsize = Suc iLogsize;
             if iBuddy < iBlock then do {
               s \<leftarrow> set_ctrl s iBuddy (CTRL_FREE OR word_of_nat iLogsize);
               s \<leftarrow> set_ctrl s iBlock 0;
               free_loop s iBuddy iLogsize (sz * 2)
             } else do {
               s \<leftarrow> set_ctrl s iBlock (CTRL_FREE OR word_of_nat iLogsize);
               s \<leftarrow> set_ctrl s iBuddy 0;
               free_loop s iBlock iLogsize (sz * 2)
             }
           }
         })
      else Some (s, iBlock, iLogsize))"
  by auto
termination by (relation "measure (\<lambda>(_, _, l, _). LOGMAX - l)") auto

declare free_loop.simps [simp del]

definition memsys5FreeUnsafe :: "Mem5Global \<Rightarrow> nat \<Rightarrow> Mem5Global option" where
  "memsys5FreeUnsafe s iBlock = do {
     c \<leftarrow> peek (aCtrl s) iBlock;
     let iLogsize = block_log c;
     let sz = 2 ^ iLogsize;
     s \<leftarrow> set_ctrl s iBlock (c OR CTRL_FREE);
     c' \<leftarrow> peek (aCtrl s) (iBlock + sz - 1);
     s \<leftarrow> set_ctrl s (iBlock + sz - 1) (c' OR CTRL_FREE);
     let s = s\<lparr>currentCount := currentCount s - 1, currentOut := currentOut s - word_of_nat (sz * nAtom s)\<rparr>;
     s \<leftarrow> set_ctrl s iBlock (CTRL_FREE OR word_of_nat iLogsize);
     (s, iBlock, iLogsize) \<leftarrow> free_loop s iBlock iLogsize sz;
     memsys5Link s iBlock iLogsize
   }"

subsection \<open>The allocator interface\<close>

definition memsys5Malloc :: "Mem5Global \<Rightarrow> int \<Rightarrow> (nat option \<times> Mem5Global) option" where
  "memsys5Malloc s nBytes = (if nBytes > 0 then memsys5MallocUnsafe s nBytes else Some (None, s))"

definition memsys5Free :: "Mem5Global \<Rightarrow> nat option \<Rightarrow> Mem5Global option" where
  "memsys5Free s pPrior = (case pPrior of None \<Rightarrow> Some s | Some i \<Rightarrow> memsys5FreeUnsafe s i)"

text \<open>\<open>memcpy(p, pPrior, nOld)\<close>: the old block is a whole number \<open>k\<close> of atoms.\<close>

definition copy_atoms :: "Mem5Global \<Rightarrow> nat \<Rightarrow> nat \<Rightarrow> nat \<Rightarrow> Mem5Global option" where
  "copy_atoms s p q k =
     (if p + k \<le> length (zPool s) \<and> q + k \<le> length (zPool s)
      then Some (s\<lparr>zPool := take p (zPool s) @ take k (drop q (zPool s)) @ drop (p + k) (zPool s)\<rparr>) else None)"

definition memsys5Realloc :: "Mem5Global \<Rightarrow> nat option \<Rightarrow> int \<Rightarrow> (nat option \<times> Mem5Global) option" where
  "memsys5Realloc s pPrior nBytes = (case pPrior of None \<Rightarrow> memsys5Malloc s nBytes
     | Some i \<Rightarrow>
        if nBytes \<le> 0 then do { s \<leftarrow> memsys5Free s (Some i); Some (None, s) }
        else do {
          nOld \<leftarrow> memsys5Size s (Some i);
          if nBytes \<le> nOld then Some (Some i, s)
          else do {
            (p, s) \<leftarrow> memsys5MallocUnsafe s nBytes;
            (case p of None \<Rightarrow> Some (None, s)
             | Some j \<Rightarrow> do {
                 s \<leftarrow> copy_atoms s j i (nat nOld div nAtom s);
                 s \<leftarrow> memsys5FreeUnsafe s i;
                 Some (Some j, s) })
          }
        })"

subsection \<open>Initialization\<close>

fun atom_size :: "nat \<Rightarrow> nat \<Rightarrow> nat" where
  "atom_size 0 n = n"
| "atom_size (Suc k) n = (if 8 > n then atom_size k (2 * n) else n)"

text \<open>The loop over \<open>ii\<close> from LOGMAX down to 0, with \<open>k = ii + 1\<close>.\<close>

fun init_loop :: "Mem5Global \<Rightarrow> nat \<Rightarrow> nat \<Rightarrow> (Mem5Global \<times> nat) option" where
  "init_loop s iOffset 0 = Some (s, iOffset)"
| "init_loop s iOffset (Suc ii) =
     (let nAlloc = 2 ^ ii in
      if iOffset + nAlloc \<le> nBlock s then do {
        s \<leftarrow> set_ctrl s iOffset (word_of_nat ii OR CTRL_FREE);
        s \<leftarrow> memsys5Link s iOffset ii;
        init_loop s (iOffset + nAlloc) ii
      } else init_loop s iOffset ii)"

text \<open>\<open>heap\<close> is the content of \<open>pHeap\<close>, of \<open>nHeap\<close> bytes; None is a null pointer.\<close>

definition memsys5Init :: "Mem5Global \<Rightarrow> u8 list option \<Rightarrow> int \<Rightarrow> (rc \<times> Mem5Global) option" where
  "memsys5Init s heap mnReq = (case heap of None \<Rightarrow> Some (SQLITE_ERROR, s)
     | Some zByte \<Rightarrow> do {
         nMinLog \<leftarrow> memsys5Log mnReq;
         let a = atom_size 3 (2 ^ nMinLog);
         let nb = length zByte div (a + 1);
         let s = s\<lparr>nAtom := a, nBlock := nb, zPool := map (\<lambda>i. Bytes (take a (drop (i * a) zByte))) [0..<nb],
                   aCtrl := take nb (drop (nb * a) zByte), aiFreelist := replicate (LOGMAX + 1) (- 1)\<rparr>;
         (s, _) \<leftarrow> init_loop s 0 (LOGMAX + 1);
         Some (SQLITE_OK, s)
       })"

subsection \<open>Linked lists in the pool\<close>

definition hdi :: "nat list \<Rightarrow> int \<Rightarrow> int" where "hdi xs e = (if xs = [] then e else int (hd xs))"
definition lasti :: "nat list \<Rightarrow> int \<Rightarrow> int" where "lasti xs p = (if xs = [] then p else int (last xs))"

lemma hdi_simps [simp]: "hdi [] e = e" "hdi (x # xs) e = int x" "lasti [] p = p" "lasti (xs @ [x]) p = int x"
  "hdi (xs @ ys) e = hdi xs (hdi ys e)" "lasti (x # xs) p = lasti xs (int x)"
  by (simp_all add: hdi_def lasti_def)

fun linked :: "atom list \<Rightarrow> int \<Rightarrow> nat list \<Rightarrow> int \<Rightarrow> bool" where
  "linked z p [] e = True"
| "linked z p (x # xs) e \<longleftrightarrow> x < length z \<and> z ! x = Link (hdi xs e) p \<and> linked z (int x) xs e"

lemma linked_append: "linked z p (xs @ ys) e \<longleftrightarrow> linked z p xs (hdi ys e) \<and> linked z (lasti xs p) ys e"
  by (induction xs arbitrary: p) auto

lemma linked_cong: "length z' = length z \<Longrightarrow> (\<And>j. j \<in> set xs \<Longrightarrow> z' ! j = z ! j) \<Longrightarrow> linked z' p xs e = linked z p xs e"
  by (induction xs arbitrary: p) auto

lemma linked_frame: "linked z p xs e \<Longrightarrow> x \<notin> set xs \<Longrightarrow> linked (z[x := a]) p xs e"
  by (induction xs arbitrary: p) auto

lemma linked_length: "linked z p xs e \<Longrightarrow> x \<in> set xs \<Longrightarrow> x < length z"
  by (induction xs arbitrary: p) auto

lemma link_read: "i < length (zPool s) \<Longrightarrow> zPool s ! i = Link n p \<Longrightarrow> MEM5LINK s i = Some (n, p)"
  by (simp add: MEM5LINK_def)

lemma link_write: "i < length (zPool s) \<Longrightarrow> set_link s i n p = Some (s\<lparr>zPool := (zPool s)[i := Link n p]\<rparr>)"
  by (simp add: set_link_def)

text \<open>The end of the part before a block, and the start of the part after it, are redirected.\<close>

lemma linked_new_end:
  assumes "linked z p (us @ [u]) e" "distinct (us @ [u])"
  shows "linked (z[u := Link e' (lasti us p)]) p (us @ [u]) e'"
  using assms by (auto simp: linked_append linked_frame)

lemma linked_new_start:
  assumes "linked z p (v # vs) e" "distinct (v # vs)"
  shows "linked (z[v := Link (hdi vs e) p']) p' (v # vs) e"
  using assms by (auto simp: linked_frame)

subsection \<open>The lists of free blocks\<close>

definition lists_ok :: "Mem5Global \<Rightarrow> (nat \<Rightarrow> nat list) \<Rightarrow> bool" where
  "lists_ok s F \<longleftrightarrow> length (aiFreelist s) = LOGMAX + 1
     \<and> (\<forall>l \<le> LOGMAX. aiFreelist s ! l = hdi (F l) (- 1) \<and> linked (zPool s) (- 1) (F l) (- 1) \<and> distinct (F l))
     \<and> (\<forall>l \<le> LOGMAX. \<forall>l' \<le> LOGMAX. l \<noteq> l' \<longrightarrow> set (F l) \<inter> set (F l') = {})"

definition listed :: "(nat \<Rightarrow> nat list) \<Rightarrow> nat set" where
  "listed F = (\<Union>l \<in> {..LOGMAX}. set (F l))"

lemma lists_okD:
  assumes "lists_ok s F" "l \<le> LOGMAX"
  shows "l < length (aiFreelist s)" "aiFreelist s ! l = hdi (F l) (- 1)" "linked (zPool s) (- 1) (F l) (- 1)" "distinct (F l)"
    "set (F l) \<subseteq> listed F" "\<And>x. x \<in> set (F l) \<Longrightarrow> x < length (zPool s)"
  using assms linked_length [of "zPool s" "- 1" "F l" "- 1"] by (auto simp: lists_ok_def listed_def)

text \<open>A list is replaced; the pool has changed only at its elements, old and new.\<close>

lemma lists_ok_update:
  assumes ok: "lists_ok s F" and l: "l \<le> LOGMAX" and len: "length z = length (zPool s)"
    and same: "\<And>j. j \<in> listed F - set (F l) \<Longrightarrow> z ! j = zPool s ! j"
    and new: "linked z (- 1) xs (- 1)" "distinct xs" "set xs \<inter> (listed F - set (F l)) = {}"
  shows "lists_ok (s\<lparr>zPool := z, aiFreelist := (aiFreelist s)[l := hdi xs (- 1)]\<rparr>) (F(l := xs))"
proof -
  have dis: "set (F l') \<subseteq> listed F - set (F l)" if "l' \<le> LOGMAX" "l' \<noteq> l" for l'
    using ok l that by (auto simp: lists_ok_def listed_def)
  have "linked z (- 1) (F l') (- 1)" if "l' \<le> LOGMAX" "l' \<noteq> l" for l'
    using linked_cong [OF len, of "F l'" "- 1" "- 1"] same dis [OF that] lists_okD(3) [OF ok that(1)] by blast
  moreover have "set (F l') \<inter> set xs = {}" if "l' \<le> LOGMAX" "l' \<noteq> l" for l' using dis [OF that] new(3) by blast
  ultimately show ?thesis using ok l new(1,2) by (auto simp: lists_ok_def nth_list_update)
qed

lemma unlink_law:
  assumes ok: "lists_ok s F" and l: "l \<le> LOGMAX" and F: "F l = xs @ i # ys"
  shows "\<exists>z. memsys5Unlink s i l = Some (s\<lparr>zPool := z, aiFreelist := (aiFreelist s)[l := hdi (xs @ ys) (- 1)]\<rparr>)
    \<and> length z = length (zPool s) \<and> (\<forall>j. j \<notin> listed F \<longrightarrow> z ! j = zPool s ! j)
    \<and> lists_ok (s\<lparr>zPool := z, aiFreelist := (aiFreelist s)[l := hdi (xs @ ys) (- 1)]\<rparr>) (F(l := xs @ ys))"
proof -
  note d = lists_okD [OF ok l, unfolded F]
  let ?z = "zPool s"
  have L: "linked ?z (- 1) xs (int i)" "?z ! i = Link (hdi ys (- 1)) (lasti xs (- 1))" "linked ?z (int i) ys (- 1)" "i < length ?z"
    using d(3) by (simp_all add: linked_append)
  have dist: "distinct xs" "distinct ys" "set xs \<inter> set ys = {}" "i \<notin> set xs" "i \<notin> set ys" using d(4) by auto
  have rd: "MEM5LINK s i = Some (hdi ys (- 1), lasti xs (- 1))" by (rule link_read) (use L in auto)
  obtain z where z: "memsys5Unlink s i l = Some (s\<lparr>zPool := z, aiFreelist := (aiFreelist s)[l := hdi (xs @ ys) (- 1)]\<rparr>)"
      "length z = length ?z" "\<And>j. j \<notin> set xs \<union> set ys \<Longrightarrow> z ! j = ?z ! j"
      "linked z (- 1) xs (hdi ys (- 1))" "linked z (lasti xs (- 1)) ys (- 1)"
  proof -
    define z1 where "z1 = (if xs = [] then ?z else ?z[last xs := Link (hdi ys (- 1)) (lasti (butlast xs) (- 1))])"
    define z2 where "z2 = (if ys = [] then z1 else z1[hd ys := Link (hdi (tl ys) (- 1)) (lasti xs (- 1))])"
    have 1: "(if lasti xs (- 1) < 0 then set_freelist s l (hdi ys (- 1))
        else do { (_, pp) \<leftarrow> MEM5LINK s (nat (lasti xs (- 1))); set_link s (nat (lasti xs (- 1))) (hdi ys (- 1)) pp })
      = Some (s\<lparr>zPool := z1, aiFreelist := (aiFreelist s)[l := hdi (xs @ ys) (- 1)]\<rparr>)"
    proof (cases xs rule: rev_cases)
      case Nil
      then show ?thesis using d(1) by (simp add: z1_def set_freelist_def)
    next
      case (snoc us u)
      then have "u < length ?z" "?z ! u = Link (int i) (lasti us (- 1))" using L(1) by (simp_all add: linked_append)
      moreover have "(aiFreelist s)[l := hdi (us @ [u]) (hdi ys (- 1))] = aiFreelist s"
        using d(1,2) snoc by (metis append_is_Nil_conv hdi_def hdi_simps(5) list.distinct(1) list_update_id)
      ultimately show ?thesis using snoc by (simp add: link_read link_write z1_def)
    qed
    let ?s1 = "s\<lparr>zPool := z1, aiFreelist := (aiFreelist s)[l := hdi (xs @ ys) (- 1)]\<rparr>"
    have z1: "length z1 = length ?z" "\<And>j. j \<notin> set xs \<Longrightarrow> z1 ! j = ?z ! j" "linked z1 (- 1) xs (hdi ys (- 1))"
    proof -
      show "length z1 = length ?z" by (simp add: z1_def)
      show "z1 ! j = ?z ! j" if "j \<notin> set xs" for j using that last_in_set [of xs] by (cases "last xs = j") (auto simp: z1_def)
      show "linked z1 (- 1) xs (hdi ys (- 1))"
        using L(1) dist(1) linked_new_end by (cases xs rule: rev_cases) (simp_all add: z1_def)
    qed
    then have y1: "linked z1 (int i) ys (- 1)" using L(3) linked_cong [of z1 ?z ys] dist(3) by blast
    have 2: "(if hdi ys (- 1) \<ge> 0 then do { (nn, _) \<leftarrow> MEM5LINK ?s1 (nat (hdi ys (- 1))); set_link ?s1 (nat (hdi ys (- 1))) nn (lasti xs (- 1)) }
        else Some ?s1) = Some (s\<lparr>zPool := z2, aiFreelist := (aiFreelist s)[l := hdi (xs @ ys) (- 1)]\<rparr>)"
      using y1 by (cases ys) (simp_all add: link_read link_write z2_def)
    have "linked z2 (- 1) xs (hdi ys (- 1))"
      using z1(3) dist(3) by (cases ys) (auto simp: z2_def linked_frame)
    moreover have "linked z2 (lasti xs (- 1)) ys (- 1)"
      using y1 dist(2) linked_new_start by (cases ys) (simp_all add: z2_def)
    moreover have "length z2 = length ?z" using z1(1) by (simp add: z2_def)
    moreover have "z2 ! j = ?z ! j" if "j \<notin> set xs \<union> set ys" for j
      using that z1(2) by (cases ys) (auto simp: z2_def nth_list_update)
    moreover have "memsys5Unlink s i l = Some (s\<lparr>zPool := z2, aiFreelist := (aiFreelist s)[l := hdi (xs @ ys) (- 1)]\<rparr>)"
      unfolding memsys5Unlink_def rd Option.bind.simps prod.case 1 by (rule 2)
    ultimately show thesis by (intro that [of z2])
  qed
  have "lists_ok (s\<lparr>zPool := z, aiFreelist := (aiFreelist s)[l := hdi (xs @ ys) (- 1)]\<rparr>) (F(l := xs @ ys))"
    by (rule lists_ok_update [OF ok l z(2)]) (use z(3-5) dist F in \<open>auto simp: linked_append\<close>)
  moreover have "z ! j = ?z ! j" if "j \<notin> listed F" for j using z(3) d(5) that by auto
  ultimately show ?thesis using z(1,2) by blast
qed

lemma link_law:
  assumes ok: "lists_ok s F" and l: "l \<le> LOGMAX" and i: "i \<notin> listed F" "i < length (zPool s)"
  shows "\<exists>z. memsys5Link s i l = Some (s\<lparr>zPool := z, aiFreelist := (aiFreelist s)[l := int i]\<rparr>)
    \<and> length z = length (zPool s) \<and> (\<forall>j. j \<notin> listed F \<and> j \<noteq> i \<longrightarrow> z ! j = zPool s ! j)
    \<and> lists_ok (s\<lparr>zPool := z, aiFreelist := (aiFreelist s)[l := int i]\<rparr>) (F(l := i # F l))"
proof -
  note d = lists_okD [OF ok l]
  let ?z = "zPool s" and ?x = "hdi (F l) (- 1)"
  have ni: "i \<notin> set (F l)" using i d(5) by auto
  define z1 where "z1 = ?z[i := Link ?x (- 1)]"
  define z2 where "z2 = (if F l = [] then z1 else z1[hd (F l) := Link (hdi (tl (F l)) (- 1)) (int i)])"
  have F1: "linked z1 (- 1) (F l) (- 1)" using d(3) ni by (simp add: z1_def linked_frame)
  have "memsys5Link s i l = Some (s\<lparr>zPool := z2, aiFreelist := (aiFreelist s)[l := int i]\<rparr>)"
    using d(1,2) i(2) F1 [unfolded z1_def] unfolding memsys5Link_def
    by (cases "F l") (simp_all add: link_read link_write z2_def z1_def set_freelist_def)
  moreover have "length z2 = length ?z" by (simp add: z2_def z1_def)
  moreover have "z2 ! j = ?z ! j" if "j \<notin> set (F l)" "j \<noteq> i" for j
    using that by (cases "F l") (auto simp: z2_def z1_def nth_list_update)
  moreover have "linked z2 (int i) (F l) (- 1)"
    using F1 d(4) linked_new_start by (cases "F l") (simp_all add: z2_def)
  moreover have "i < length z2 \<and> z2 ! i = Link ?x (- 1)"
    using i(2) ni by (cases "F l") (auto simp: z2_def z1_def)
  moreover have "lists_ok (s\<lparr>zPool := z2, aiFreelist := (aiFreelist s)[l := hdi (i # F l) (- 1)]\<rparr>) (F(l := i # F l))"
    by (rule lists_ok_update [OF ok l]) (use calculation i ni d(4) in auto)
  ultimately show ?thesis using d(5) by (intro exI [of _ z2]) auto
qed

text \<open>UnlinkFirst takes some block of the list.\<close>

lemma unlink_scan_law:
  "linked (zPool s) p xs (- 1) \<Longrightarrow> f \<ge> 0 \<Longrightarrow> \<exists>r. unlink_scan s (hdi xs (- 1)) f = Some r \<and> (r = f \<or> r \<in> int ` set xs)"
proof (induction xs arbitrary: p f)
  case Nil
  then show ?case by (simp add: unlink_scan.simps)
next
  case (Cons x xs)
  then have rd: "MEM5LINK s x = Some (hdi xs (- 1), p)" by (simp add: link_read)
  let ?f = "if int x < f then int x else f"
  have "\<exists>r. unlink_scan s (hdi xs (- 1)) ?f = Some r \<and> (r = ?f \<or> r \<in> int ` set xs)"
    using Cons.IH [of "int x" ?f] Cons.prems by auto
  then show ?case using rd by (subst unlink_scan.simps) (auto split: if_splits)
qed

lemma unlink_first_law:
  assumes ok: "lists_ok s F" and l: "l \<le> LOGMAX" and ne: "F l \<noteq> []"
  shows "\<exists>i z f. memsys5UnlinkFirst s l = Some (i, s\<lparr>zPool := z, aiFreelist := f\<rparr>) \<and> i \<in> set (F l)
    \<and> length z = length (zPool s) \<and> (\<forall>j. j \<notin> listed F \<longrightarrow> z ! j = zPool s ! j)
    \<and> lists_ok (s\<lparr>zPool := z, aiFreelist := f\<rparr>) (F(l := remove1 i (F l)))"
proof -
  note d = lists_okD [OF ok l]
  have h: "hdi (F l) (- 1) \<ge> 0" "hdi (F l) (- 1) \<in> int ` set (F l)" using ne by (simp_all add: hdi_def)
  from unlink_scan_law [OF d(3) h(1)] h(2) obtain i where
    i: "unlink_scan s (hdi (F l) (- 1)) (hdi (F l) (- 1)) = Some (int i)" "i \<in> set (F l)" by auto
  from i(2) obtain xs ys where F: "F l = xs @ i # ys" by (meson split_list)
  then have r: "remove1 i (F l) = xs @ ys" using d(4) by (simp add: remove1_append)
  from unlink_law [OF ok l F] obtain z where
    z: "memsys5Unlink s i l = Some (s\<lparr>zPool := z, aiFreelist := (aiFreelist s)[l := hdi (xs @ ys) (- 1)]\<rparr>)"
      "length z = length (zPool s)" "\<forall>j. j \<notin> listed F \<longrightarrow> z ! j = zPool s ! j"
      "lists_ok (s\<lparr>zPool := z, aiFreelist := (aiFreelist s)[l := hdi (xs @ ys) (- 1)]\<rparr>) (F(l := xs @ ys))" by blast
  then show ?thesis using d(1,2) i r
    by (intro exI [of _ i] exI [of _ z] exI [of _ "(aiFreelist s)[l := hdi (xs @ ys) (- 1)]"]) (simp add: memsys5UnlinkFirst_def)
qed

subsection \<open>Control bytes\<close>

lemma ctrl_values:
  assumes "l \<le> LOGMAX" "l' \<le> LOGMAX"
  shows "block_log (word_of_nat l) = l" "block_log (CTRL_FREE OR word_of_nat l) = l"
    "CTRL_FREE OR word_of_nat l = CTRL_FREE OR word_of_nat l' \<longleftrightarrow> l = l'" "CTRL_FREE OR word_of_nat l \<noteq> (word_of_nat l' :: u8)"
proof -
  have m: "CTRL_LOGSIZE = mask 5" by (simp add: CTRL_LOGSIZE_def mask_eq_exp_minus_1)
  have u: "unat (word_of_nat k :: u8) = k" "take_bit 5 (word_of_nat k :: u8) = word_of_nat k" "\<not> bit (word_of_nat k :: u8) 5"
    if "k \<le> LOGMAX" for k
  proof -
    show 1: "unat (word_of_nat k :: u8) = k" using that by (simp add: unsigned_of_nat take_bit_nat_eq_self LOGMAX_def)
    show 2: "take_bit 5 (word_of_nat k :: u8) = word_of_nat k"
      using 1 that by (simp add: word_unat_eq_iff unsigned_take_bit_eq take_bit_nat_eq_self LOGMAX_def)
    have "\<not> bit (take_bit 5 (word_of_nat k :: u8)) 5" by (simp add: bit_take_bit_iff)
    then show "\<not> bit (word_of_nat k :: u8) 5" using 2 by simp
  qed
  have f: "take_bit 5 CTRL_FREE = 0" "bit CTRL_FREE 5" by (simp_all add: CTRL_FREE_def take_bit_eq_mod bit_iff_odd)
  show "block_log (word_of_nat l) = l" using u assms by (simp add: block_log_def m take_bit_eq_mask [symmetric])
  have t: "take_bit 5 (CTRL_FREE OR word_of_nat k) = (word_of_nat k :: u8)" if "k \<le> LOGMAX" for k
    using u [OF that] f by simp
  show "block_log (CTRL_FREE OR word_of_nat l) = l" using t u assms by (simp add: block_log_def m take_bit_eq_mask [symmetric])
  show "CTRL_FREE OR word_of_nat l = CTRL_FREE OR word_of_nat l' \<longleftrightarrow> l = l'" using t u assms by metis
  show "CTRL_FREE OR word_of_nat l \<noteq> (word_of_nat l' :: u8)" using u(3) [OF assms(2)] f(2) by (metis bit_or_iff)
qed

subsection \<open>The blocks of the pool\<close>

text \<open>Every atom is in exactly one block; \<open>S\<close> gives the logarithm of the size of
  the block that starts at an atom.\<close>

type_synonym blocks = "nat \<Rightarrow> nat option"

definition blocks_ok :: "nat \<Rightarrow> blocks \<Rightarrow> bool" where
  "blocks_ok n S \<longleftrightarrow> (\<forall>i l. S i = Some l \<longrightarrow> l \<le> LOGMAX \<and> 2 ^ l dvd i \<and> i + 2 ^ l \<le> n)
     \<and> (\<forall>i l i' l'. S i = Some l \<longrightarrow> S i' = Some l' \<longrightarrow> i < i' \<longrightarrow> i + 2 ^ l \<le> i')
     \<and> (\<forall>j < n. \<exists>i l. S i = Some l \<and> i \<le> j \<and> j < i + 2 ^ l)"

lemma blocks_okD:
  assumes "blocks_ok n S"
  shows "S i = Some l \<Longrightarrow> l \<le> LOGMAX" "S i = Some l \<Longrightarrow> 2 ^ l dvd i" "S i = Some l \<Longrightarrow> i + 2 ^ l \<le> n"
    "S i = Some l \<Longrightarrow> S i' = Some l' \<Longrightarrow> i < i' \<Longrightarrow> i + 2 ^ l \<le> i'"
    "j < n \<Longrightarrow> \<exists>i l. S i = Some l \<and> i \<le> j \<and> j < i + 2 ^ l"
  using assms unfolding blocks_ok_def by blast+

definition buddy :: "nat \<Rightarrow> nat \<Rightarrow> nat" where
  "buddy i l = (if bit i l then i - 2 ^ l else i + 2 ^ l)"

lemma buddy_pair:
  assumes "2 ^ l dvd (i :: nat)"
  shows "bit i l \<Longrightarrow> 2 ^ l \<le> i \<and> 2 ^ Suc l dvd (i - 2 ^ l)" "\<not> bit i l \<Longrightarrow> 2 ^ Suc l dvd i"
    "bit i l \<Longrightarrow> \<not> 2 ^ Suc l dvd i" "bit (i + 2 ^ l) l \<longleftrightarrow> \<not> bit i l"
proof -
  from assms obtain k where k: "i = 2 ^ l * k" by blast
  have b: "bit i l \<longleftrightarrow> odd k" by (simp add: k bit_iff_odd)
  have "i + 2 ^ l = 2 ^ l * (k + 1)" by (simp add: k)
  then have "bit (i + 2 ^ l) l \<longleftrightarrow> odd (k + 1)" by (simp add: bit_iff_odd)
  then show "bit (i + 2 ^ l) l \<longleftrightarrow> \<not> bit i l" using b by simp
  show "\<not> bit i l \<Longrightarrow> 2 ^ Suc l dvd i" using b by (auto simp: k elim!: evenE)
  show "bit i l \<Longrightarrow> \<not> 2 ^ Suc l dvd i" using b by (simp add: k mult.commute [of 2])
  assume "bit i l"
  with b obtain q where "k = 2 * q + 1" by (auto elim: oddE)
  then show "2 ^ l \<le> i \<and> 2 ^ Suc l dvd (i - 2 ^ l)" by (simp add: k algebra_simps)
qed

lemma dvd_interval: "2 ^ a dvd (k :: nat) \<Longrightarrow> 2 ^ a dvd j \<Longrightarrow> k < j \<Longrightarrow> k + 2 ^ a \<le> j"
  by (metis add_diff_inverse_nat dvd_diff_nat dvd_imp_le less_imp_le_nat nat_add_left_cancel_le not_less zero_less_diff)

lemma pow_dvd: "a \<le> b \<Longrightarrow> (2 :: nat) ^ b dvd i \<Longrightarrow> 2 ^ a dvd i"
  by (meson dvd_trans le_imp_power_dvd)

text \<open>The buddy of a block, when it lies in the pool, is the start of a block of at most that size.\<close>

lemma buddy_head:
  assumes ok: "blocks_ok n S" and S: "S i = Some l" and j: "buddy i l + 2 ^ l \<le> n"
  shows "\<exists>l'. S (buddy i l) = Some l' \<and> l' \<le> l"
proof -
  let ?j = "buddy i l"
  note d = blocks_okD [OF ok]
  have al: "2 ^ l dvd i" using d(2) [OF S] .
  have jl: "2 ^ l dvd ?j" using al by (auto simp: buddy_def)
  have ij: "bit i l \<and> i = ?j + 2 ^ l \<and> 2 ^ Suc l dvd ?j \<or> \<not> bit i l \<and> ?j = i + 2 ^ l \<and> 2 ^ Suc l dvd i"
    using buddy_pair [OF al] by (auto simp: buddy_def)
  have "?j < n" using j by (simp add: less_le_trans [OF _ j])
  then obtain k l' where k: "S k = Some l'" "k \<le> ?j" "?j < k + 2 ^ l'" using d(5) by blast
  have kl: "2 ^ l' dvd k" using d(2) [OF k(1)] .
  have l': "l' \<le> l"
  proof (rule ccontr)
    assume "\<not> l' \<le> l"
    then have big: "2 ^ Suc l dvd k" "(2 :: nat) ^ Suc l dvd 2 ^ l'" 
      using kl pow_dvd [of "Suc l" l' k] \<open>\<not> l' \<le> l\<close> by (simp, intro le_imp_power_dvd) simp
    from ij show False
    proof (elim disjE conjE)
      assume r: "i = ?j + 2 ^ l" "2 ^ Suc l dvd ?j"
      have "2 ^ Suc l dvd k + 2 ^ l'" using big by (rule dvd_add)
      from dvd_interval [OF r(2) this] k(3) have "?j + 2 ^ Suc l \<le> k + 2 ^ l'" by simp
      then have "i < k + 2 ^ l'" using r(1) zero_less_power [of "2 :: nat" l] unfolding power_Suc by linarith
      moreover have "k < i" using k(2) r(1) by (metis add_strict_increasing2 le0 le_less_trans less_add_same_cancel1 zero_less_numeral zero_less_power)
      ultimately show False using d(4) [OF k(1) S] by simp
    next
      assume r: "\<not> bit i l" "?j = i + 2 ^ l" "2 ^ Suc l dvd i"
      have "k \<le> i"
      proof (rule ccontr)
        assume "\<not> k \<le> i"
        then have "i + 2 ^ Suc l \<le> k" using dvd_interval [OF r(3) big(1)] by simp
        then show False using k(2) r(2) zero_less_power [of "2 :: nat" l] unfolding power_Suc by linarith
      qed
      moreover have "k \<noteq> i" using k(1) S \<open>\<not> l' \<le> l\<close> by auto
      ultimately have "k + 2 ^ l' \<le> i" using d(4) [OF k(1) S] by simp
      then show False using k(3) r(2) by simp
    qed
  qed
  have "k = ?j"
  proof (rule ccontr)
    assume "k \<noteq> ?j"
    then have "k + 2 ^ l' \<le> ?j" using dvd_interval [OF kl pow_dvd [OF l' jl]] k(2) by simp
    then show False using k(3) by simp
  qed
  then show ?thesis using k(1) l' by auto
qed


text \<open>A block is split in two halves, and two buddies are merged.\<close>

lemma blocks_split:
  assumes ok: "blocks_ok n S" and S: "S i = Some (Suc b)"
  shows "blocks_ok n (S(i \<mapsto> b, i + 2 ^ b \<mapsto> b))" "S (i + 2 ^ b) = None" "2 ^ Suc b dvd i"
proof -
  note d = blocks_okD [OF ok]
  have p: "(0 :: nat) < 2 ^ b" by simp
  show al: "2 ^ Suc b dvd i" using d(2) [OF S] .
  show none: "S (i + 2 ^ b) = None"
  proof (rule ccontr)
    assume "S (i + 2 ^ b) \<noteq> None"
    then obtain l where "S (i + 2 ^ b) = Some l" by auto
    from d(4) [OF S this] p show False by simp
  qed
  let ?S = "S(i \<mapsto> b, i + 2 ^ b \<mapsto> b)"
  have cases: "k = i \<and> l = b \<or> k = i + 2 ^ b \<and> l = b \<or> k \<noteq> i \<and> k \<noteq> i + 2 ^ b \<and> S k = Some l" if "?S k = Some l" for k l
    using that by (auto split: if_splits)
  have i_end: "i + 2 ^ b + 2 ^ b \<le> n" using d(3) [OF S] by simp
  have "2 ^ b dvd i" by (rule pow_dvd [OF _ al]) simp
  have half: "2 ^ l dvd k" "k + 2 ^ l \<le> n" "l \<le> LOGMAX" if "?S k = Some l" for k l
    using cases [OF that] d(1-3) [of k l] d(1) [OF S] i_end \<open>2 ^ b dvd i\<close> by auto
  have apart: "k + 2 ^ l \<le> k'" if k: "?S k = Some l" and k': "?S k' = Some l'" and less: "k < k'" for k l k' l'
  proof -
    have out: "m + 2 ^ q \<le> i \<or> i + 2 ^ b + 2 ^ b \<le> m" if "m \<noteq> i" "S m = Some q" for m q
      using d(4) [OF S that(2)] d(4) [OF that(2) S] that(1) by (cases "m < i") auto
    from cases [OF k] show ?thesis
    proof (elim disjE conjE)
      assume 1: "k = i" "l = b"
      from cases [OF k'] show ?thesis using 1 less out [of k' l'] p by fastforce
    next
      assume 1: "k = i + 2 ^ b" "l = b"
      from cases [OF k'] show ?thesis using 1 less out [of k' l'] p by fastforce
    next
      assume 1: "k \<noteq> i" "k \<noteq> i + 2 ^ b" "S k = Some l"
      from cases [OF k'] show ?thesis using 1 less out [of k l] d(4) [OF 1(3), of k' l'] p by fastforce
    qed
  qed
  have "\<exists>k l. ?S k = Some l \<and> k \<le> j \<and> j < k + 2 ^ l" if j: "j < n" for j
  proof -
    obtain k l where k: "S k = Some l" "k \<le> j" "j < k + 2 ^ l" using d(5) [OF j] by blast
    show ?thesis
    proof (cases "k = i")
      case True
      with k S have "i \<le> j" "j < i + 2 ^ b + 2 ^ b" by auto
      then show ?thesis using p by (cases "j < i + 2 ^ b") (rule exI [of _ i], simp, rule exI [of _ "i + 2 ^ b"], simp)
    next
      case False
      then have "?S k = Some l" using k(1) none by auto
      then show ?thesis using k by blast
    qed
  qed
  then show "blocks_ok n ?S" unfolding blocks_ok_def using half apart by blast
qed

lemma blocks_merge:
  assumes ok: "blocks_ok n S" and S: "S i = Some l" "S (i + 2 ^ l) = Some l" and al: "2 ^ Suc l dvd i" "l < LOGMAX"
  shows "blocks_ok n (S(i \<mapsto> Suc l, i + 2 ^ l := None))"
proof -
  note d = blocks_okD [OF ok]
  have p: "(0 :: nat) < 2 ^ l" by simp
  let ?S = "S(i \<mapsto> Suc l, i + 2 ^ l := None)"
  have cases: "k = i \<and> m = Suc l \<or> k \<noteq> i \<and> k \<noteq> i + 2 ^ l \<and> S k = Some m" if "?S k = Some m" for k m
    using that by (auto split: if_splits)
  have i_end: "i + 2 ^ l + 2 ^ l \<le> n" using d(3) [OF S(2)] by simp
  have half: "2 ^ m dvd k" "k + 2 ^ m \<le> n" "m \<le> LOGMAX" if "?S k = Some m" for k m
    using cases [OF that] d(1-3) [of k m] i_end al by auto
  have apart: "k + 2 ^ m \<le> k'" if k: "?S k = Some m" and k': "?S k' = Some m'" and less: "k < k'" for k m k' m'
  proof -
    from cases [OF k] show ?thesis
    proof (elim disjE conjE)
      assume 1: "k = i" "m = Suc l"
      with less cases [OF k'] have 2: "k' \<noteq> i + 2 ^ l" "S k' = Some m'" by auto
      from d(4) [OF S(1) 2(2)] less 1 have "i + 2 ^ l \<le> k'" by simp
      with 2(1) have "i + 2 ^ l < k'" by simp
      from d(4) [OF S(2) 2(2) this] show ?thesis using 1 by simp
    next
      assume 1: "k \<noteq> i" "k \<noteq> i + 2 ^ l" "S k = Some m"
      from cases [OF k'] show ?thesis using d(4) [OF 1(3)] S(1) less by blast
    qed
  qed
  have "\<exists>k m. ?S k = Some m \<and> k \<le> j \<and> j < k + 2 ^ m" if j: "j < n" for j
  proof -
    obtain k m where k: "S k = Some m" "k \<le> j" "j < k + 2 ^ m" using d(5) [OF j] by blast
    show ?thesis
    proof (cases "k = i \<or> k = i + 2 ^ l")
      case True
      with k S have "i \<le> j" "j < i + 2 ^ Suc l" by auto
      then show ?thesis using p by (intro exI [of _ i] exI [of _ "Suc l"]) simp
    next
      case False
      then show ?thesis using k by (intro exI [of _ k] exI [of _ m]) simp
    qed
  qed
  then show ?thesis unfolding blocks_ok_def using half apart by blast
qed

subsection \<open>The invariant\<close>

text \<open>\<open>A\<close> holds the first atoms of the blocks that are checked out; for the blocks of \<open>h\<close> the
  control byte is being changed.\<close>

definition coalesced :: "blocks \<Rightarrow> nat set \<Rightarrow> bool" where
  "coalesced S A \<longleftrightarrow> (\<forall>i l. S i = Some l \<longrightarrow> i \<notin> A \<longrightarrow> l < LOGMAX \<longrightarrow> \<not> bit i l \<longrightarrow> S (i + 2 ^ l) = Some l \<longrightarrow> i + 2 ^ l \<in> A)"

definition mem5_inv :: "Mem5Global \<Rightarrow> blocks \<Rightarrow> nat set \<Rightarrow> (nat \<Rightarrow> nat list) \<Rightarrow> nat set \<Rightarrow> bool" where
  "mem5_inv s S A F h \<longleftrightarrow> lists_ok s F \<and> length (zPool s) = nBlock s \<and> length (aCtrl s) = nBlock s \<and> 0 < nAtom s
     \<and> blocks_ok (nBlock s) S \<and> A \<subseteq> dom S \<and> coalesced S A
     \<and> (\<forall>i l. S i = Some l \<longrightarrow> i \<notin> h \<longrightarrow> aCtrl s ! i = (if i \<in> A then word_of_nat l else CTRL_FREE OR word_of_nat l))
     \<and> (\<forall>l \<le> LOGMAX. set (F l) = {i. S i = Some l \<and> i \<notin> A})"

lemma mem5_invD:
  assumes "mem5_inv s S A F h"
  shows "lists_ok s F" "length (zPool s) = nBlock s" "length (aCtrl s) = nBlock s" "0 < nAtom s" "blocks_ok (nBlock s) S"
    "A \<subseteq> dom S" "coalesced S A"
    "S i = Some l \<Longrightarrow> i \<notin> h \<Longrightarrow> aCtrl s ! i = (if i \<in> A then word_of_nat l else CTRL_FREE OR word_of_nat l)"
    "l \<le> LOGMAX \<Longrightarrow> set (F l) = {i. S i = Some l \<and> i \<notin> A}"
  using assms by (simp_all add: mem5_inv_def)

lemma mem5_invI:
  assumes "lists_ok s F" "length (zPool s) = nBlock s" "length (aCtrl s) = nBlock s" "0 < nAtom s" "blocks_ok (nBlock s) S"
    "A \<subseteq> dom S" "coalesced S A"
    "\<And>i l. S i = Some l \<Longrightarrow> i \<notin> h \<Longrightarrow> aCtrl s ! i = (if i \<in> A then word_of_nat l else CTRL_FREE OR word_of_nat l)"
    "\<And>l. l \<le> LOGMAX \<Longrightarrow> set (F l) = {i. S i = Some l \<and> i \<notin> A}"
  shows "mem5_inv s S A F h"
  unfolding mem5_inv_def using assms by blast

text \<open>The atoms of the blocks in \<open>A\<close>.\<close>

definition atoms :: "blocks \<Rightarrow> nat set \<Rightarrow> nat set" where
  "atoms S A = {j. \<exists>k l. k \<in> A \<and> S k = Some l \<and> k \<le> j \<and> j < k + 2 ^ l}"

lemma atoms_cong: "(\<And>k. k \<in> A \<Longrightarrow> S' k = S k) \<Longrightarrow> atoms S' A = atoms S A"
  unfolding atoms_def by auto

lemma atoms_mono: "A \<subseteq> A' \<Longrightarrow> atoms S A \<subseteq> atoms S A'"
  by (auto simp: atoms_def)

lemma listed_iff: "mem5_inv s S A F h \<Longrightarrow> i \<in> listed F \<longleftrightarrow> i \<in> dom S \<and> i \<notin> A"
  using mem5_invD(5,9) blocks_okD(1) by (fastforce simp: listed_def)

lemma head_of_block:
  assumes "blocks_ok n S" "S k = Some l" "k \<le> j" "j < k + 2 ^ l" "j \<in> dom S" shows "j = k"
proof (rule ccontr)
  assume "j \<noteq> k"
  moreover obtain m where "S j = Some m" using assms(5) by blast
  ultimately have "k + 2 ^ l \<le> j" using blocks_okD(4) [OF assms(1,2)] assms(3) by simp
  with assms(4) show False by simp
qed

lemma atoms_disjoint:
  assumes "blocks_ok n S" "A \<inter> B = {}"
  shows "atoms S A \<inter> atoms S B = {}"
proof (rule ccontr)
  assume "atoms S A \<inter> atoms S B \<noteq> {}"
  then obtain j k l k' l' where k: "k \<in> A" "S k = Some l" "k \<le> j" "j < k + 2 ^ l" and k': "k' \<in> B" "S k' = Some l'" "k' \<le> j" "j < k' + 2 ^ l'"
    unfolding atoms_def by blast
  have "k \<noteq> k'" using k k' assms(2) by blast
  then show False using blocks_okD(4) [OF assms(1) k(2) k'(2)] blocks_okD(4) [OF assms(1) k'(2) k(2)] k k' by (cases "k < k'") auto
qed

lemma atoms_not_listed:
  assumes "mem5_inv s S A F h" "j \<in> atoms S A" shows "j \<notin> listed F"
proof
  assume "j \<in> listed F"
  then have j: "j \<in> dom S" "j \<notin> A" using listed_iff [OF assms(1)] by auto
  obtain k l where k: "k \<in> A" "S k = Some l" "k \<le> j" "j < k + 2 ^ l" using assms(2) by (auto simp: atoms_def)
  from head_of_block [OF mem5_invD(5) [OF assms(1)] k(2-4) j(1)] k(1) j(2) show False by simp
qed

text \<open>Only the pool, the free lists and the control bytes change, and no atom of \<open>J\<close>.\<close>

definition kept :: "nat set \<Rightarrow> Mem5Global \<Rightarrow> Mem5Global \<Rightarrow> bool" where
  "kept J s s' \<longleftrightarrow> s' = s\<lparr>zPool := zPool s', aiFreelist := aiFreelist s', aCtrl := aCtrl s'\<rparr>
     \<and> (\<forall>j \<in> J. zPool s' ! j = zPool s ! j)"

lemma kept_trans: "kept J s s' \<Longrightarrow> kept J s' s'' \<Longrightarrow> kept J s s''"
  by (cases s; cases s'; cases s''; simp add: kept_def)

lemma kept_fields:
  assumes "kept J s s'"
  shows "nAtom s' = nAtom s" "nBlock s' = nBlock s" "currentCount s' = currentCount s" "currentOut s' = currentOut s"
  using assms by (cases s; cases s'; simp add: kept_def)+

lemma kept_intro: "(\<And>j. j \<in> J \<Longrightarrow> z ! j = zPool s ! j) \<Longrightarrow> kept J s (s\<lparr>zPool := z, aiFreelist := f, aCtrl := c\<rparr>)"
  by (simp add: kept_def)

lemma kept_refl: "kept J s s" by (simp add: kept_def)

lemma kept_mono: "kept J s s' \<Longrightarrow> J' \<subseteq> J \<Longrightarrow> kept J' s s'"
  by (auto simp: kept_def)

subsection \<open>Allocation keeps the invariant\<close>

lemma take_law:
  assumes inv: "mem5_inv s S A F {}" and b: "b \<le> LOGMAX" and ne: "F b \<noteq> []"
  shows "\<exists>i s' F'. memsys5UnlinkFirst s b = Some (i, s') \<and> S i = Some b \<and> i \<notin> A \<and> mem5_inv s' S (insert i A) F' {i}
    \<and> kept (atoms S A) s s'"
proof -
  note d = mem5_invD [OF inv]
  obtain i z f where u: "memsys5UnlinkFirst s b = Some (i, s\<lparr>zPool := z, aiFreelist := f\<rparr>)" "i \<in> set (F b)"
    "length z = length (zPool s)" "\<forall>j. j \<notin> listed F \<longrightarrow> z ! j = zPool s ! j"
    "lists_ok (s\<lparr>zPool := z, aiFreelist := f\<rparr>) (F(b := remove1 i (F b)))"
    using unlink_first_law [OF d(1) b ne] by blast
  have i: "S i = Some b" "i \<notin> A" using d(9) [OF b] u(2) by auto
  have dist: "distinct (F b)" using lists_okD(4) [OF d(1) b] .
  have "mem5_inv (s\<lparr>zPool := z, aiFreelist := f\<rparr>) S (insert i A) (F(b := remove1 i (F b))) {i}"
    unfolding mem5_inv_def using u(3,5) d i dist
    by (auto simp: coalesced_def set_remove1_eq)
  moreover have "kept (atoms S A) s (s\<lparr>zPool := z, aiFreelist := f\<rparr>)"
    using kept_intro [of "atoms S A" z s, where f = f and c = "aCtrl s"] u(4) atoms_not_listed [OF inv] by simp
  ultimately show ?thesis using u(1) i by blast
qed

lemma split_step_law:
  assumes inv: "mem5_inv s S A F {i}" and S: "S i = Some (Suc b)" and i: "i \<in> A"
  shows "\<exists>s1 s2 F'. set_ctrl s (i + 2 ^ b) (CTRL_FREE OR word_of_nat b) = Some s1 \<and> memsys5Link s1 (i + 2 ^ b) b = Some s2
    \<and> mem5_inv s2 (S(i \<mapsto> b, i + 2 ^ b \<mapsto> b)) A F' {i} \<and> kept (atoms S (A - {i})) s s2 \<and> i + 2 ^ b \<notin> A"
proof -
  note d = mem5_invD [OF inv]
  note sp = blocks_split [OF d(5) S]
  let ?j = "i + 2 ^ b" and ?S = "S(i \<mapsto> b, i + 2 ^ b \<mapsto> b)"
  let ?c = "(aCtrl s)[?j := CTRL_FREE OR word_of_nat b]"
  let ?s1 = "s\<lparr>aCtrl := ?c\<rparr>"
  have p: "(0 :: nat) < 2 ^ b" by simp
  have b: "b \<le> LOGMAX" "b < LOGMAX" using blocks_okD(1) [OF d(5) S] by simp_all
  have j: "?j < nBlock s" using blocks_okD(3) [OF d(5) S] p unfolding power_Suc by linarith
  have nA: "?j \<notin> A" using d(6) sp(2) by auto
  have nl: "?j \<notin> listed F" using listed_iff [OF inv] sp(2) by auto
  have ok1: "lists_ok ?s1 F" using d(1) by (simp add: lists_ok_def)
  obtain z where z: "memsys5Link ?s1 ?j b = Some (?s1\<lparr>zPool := z, aiFreelist := (aiFreelist s)[b := int ?j]\<rparr>)"
    "length z = length (zPool s)" "\<forall>k. k \<notin> listed F \<and> k \<noteq> ?j \<longrightarrow> z ! k = zPool s ! k"
    "lists_ok (?s1\<lparr>zPool := z, aiFreelist := (aiFreelist s)[b := int ?j]\<rparr>) (F(b := ?j # F b))"
    using link_law [OF ok1 b(1) nl] j d(2) by auto
  let ?s2 = "?s1\<lparr>zPool := z, aiFreelist := (aiFreelist s)[b := int ?j]\<rparr>"
  have al: "2 ^ b dvd i" by (rule pow_dvd [OF _ sp(3)]) simp
  have bit: "\<not> bit i b" using buddy_pair(3) [OF al] sp(3) by blast
  have co: "coalesced ?S A" unfolding coalesced_def
  proof (intro allI impI)
    fix k l assume k: "?S k = Some l" "k \<notin> A" "l < LOGMAX" "\<not> bit k l" "?S (k + 2 ^ l) = Some l"
    show "k + 2 ^ l \<in> A"
    proof (cases "k = ?j")
      case True
      then have "l = b" using k(1) p by auto
      then show ?thesis using k(4) True buddy_pair(4) [OF al] bit by simp
    next
      case False
      then have 1: "S k = Some l" "k \<noteq> i" using k(1,2) i by (auto split: if_splits)
      show ?thesis
      proof (cases "k + 2 ^ l = ?j")
        case True
        then have "l = b" using k(5) p by auto
        then show ?thesis using True 1 by simp
      next
        case False
        then show ?thesis using k 1 d(7) i by (cases "k + 2 ^ l = i") (auto simp: coalesced_def)
      qed
    qed
  qed
  have ij: "i \<noteq> ?j" using p by simp
  have "mem5_inv ?s2 ?S A (F(b := ?j # F b)) {i}"
  proof (rule mem5_invI)
    show "lists_ok ?s2 (F(b := ?j # F b))" by (rule z(4))
    show "length (zPool ?s2) = nBlock ?s2" "length (aCtrl ?s2) = nBlock ?s2" "0 < nAtom ?s2" using z(2) d(2-4) by simp_all
    show "blocks_ok (nBlock ?s2) ?S" using sp(1) by simp
    show "A \<subseteq> dom ?S" using d(6) by auto
    show "coalesced ?S A" by (rule co)
  next
    fix k l assume k: "?S k = Some l" "k \<notin> {i}"
    show "aCtrl ?s2 ! k = (if k \<in> A then word_of_nat l else CTRL_FREE OR word_of_nat l)"
    proof (cases "k = ?j")
      case True
      then show ?thesis using k nA j d(3) by simp
    next
      case False
      then show ?thesis using k d(8) [of k l] by simp
    qed
  next
    fix l assume l: "l \<le> LOGMAX"
    show "set ((F(b := ?j # F b)) l) = {k. ?S k = Some l \<and> k \<notin> A}"
    proof (cases "l = b")
      case True
      have "?S k = Some b \<and> k \<notin> A \<longleftrightarrow> k = ?j \<or> S k = Some b \<and> k \<notin> A" for k
        by (cases "k = ?j"; cases "k = i") (use i nA S in simp_all)
      then have "{k. ?S k = Some b \<and> k \<notin> A} = insert ?j {k. S k = Some b \<and> k \<notin> A}" by blast
      then show ?thesis using d(9) [OF b(1)] True by simp
    next
      case False
      have "?S k = Some l \<and> k \<notin> A \<longleftrightarrow> S k = Some l \<and> k \<notin> A" for k
        by (cases "k = ?j"; cases "k = i") (use False i sp(2) in simp_all)
      then show ?thesis using d(9) [OF l] False by simp
    qed
  qed
  moreover have "kept (atoms S (A - {i})) s ?s2"
  proof -
    have "z ! k = zPool s ! k" if "k \<in> atoms S (A - {i})" for k
    proof -
      have "k \<notin> listed F" using that atoms_not_listed [OF inv, of k] atoms_mono [of "A - {i}" A S] by blast
      moreover have "k \<noteq> ?j"
      proof
        assume "k = ?j"
        then have "k \<in> atoms S {i}" using S p by (auto simp: atoms_def)
        then show False using that atoms_disjoint [OF d(5), of "A - {i}" "{i}"] by blast
      qed
      ultimately show ?thesis using z(3) by blast
    qed
    then show ?thesis by (simp add: kept_def)
  qed
  ultimately show ?thesis using z(1) j d(3) nA by (intro exI [of _ ?s1] exI [of _ ?s2] exI [of _ "F(b := ?j # F b)"]) (simp add: set_ctrl_def)
qed

lemma split_loop_law:
  "mem5_inv s S A F {i} \<Longrightarrow> S i = Some b \<Longrightarrow> i \<in> A \<Longrightarrow> l \<le> b \<Longrightarrow>
   \<exists>s' S' F'. split_loop s i l b = Some s' \<and> mem5_inv s' S' A F' {i} \<and> S' i = Some l \<and> (\<forall>k \<in> A - {i}. S' k = S k)
     \<and> kept (atoms S (A - {i})) s s'"
proof (induction b arbitrary: s S F)
  case 0
  then show ?case using kept_refl by (intro exI [of _ s] exI [of _ S] exI [of _ F]) auto
next
  case (Suc b)
  show ?case
  proof (cases "l = Suc b")
    case True
    then show ?thesis using Suc.prems kept_refl by (intro exI [of _ s] exI [of _ S] exI [of _ F]) auto
  next
    case False
    let ?S = "S(i \<mapsto> b, i + 2 ^ b \<mapsto> b)"
    from split_step_law [OF Suc.prems(1-3)] obtain s1 s2 F1 where
      1: "set_ctrl s (i + 2 ^ b) (CTRL_FREE OR word_of_nat b) = Some s1" "memsys5Link s1 (i + 2 ^ b) b = Some s2"
        "mem5_inv s2 ?S A F1 {i}" "kept (atoms S (A - {i})) s s2" "i + 2 ^ b \<notin> A" by blast
    have Si: "?S i = Some b" by simp
    have "l \<le> b" using False Suc.prems(4) by simp
    from Suc.IH [OF 1(3) Si Suc.prems(3) this] obtain s' S' F' where
      2: "split_loop s2 i l b = Some s'" "mem5_inv s' S' A F' {i}" "S' i = Some l" "\<forall>k \<in> A - {i}. S' k = ?S k"
        "kept (atoms ?S (A - {i})) s2 s'" by blast
    have "\<forall>k \<in> A - {i}. ?S k = S k" using 1(5) by auto
    moreover have "atoms ?S (A - {i}) = atoms S (A - {i})" by (rule atoms_cong) (use calculation in blast)
    moreover have "split_loop s i l (Suc b) = Some s'" using 1(1,2) 2(1) False Suc.prems(4) by (simp add: Let_def)
    ultimately show ?thesis using 2 kept_trans [OF 1(4)] by (intro exI [of _ s'] exI [of _ S'] exI [of _ F']) simp
  qed
qed

text \<open>Writing the control byte of the block in hand ends its exception.\<close>

lemma ctrl_law:
  assumes inv: "mem5_inv s S A F {i}" and S: "S i = Some l" and i: "i \<in> A"
  shows "set_ctrl s i (word_of_nat l) = Some (s\<lparr>aCtrl := (aCtrl s)[i := word_of_nat l]\<rparr>)"
    "mem5_inv (s\<lparr>aCtrl := (aCtrl s)[i := word_of_nat l]\<rparr>) S A F {}"
proof -
  note d = mem5_invD [OF inv]
  have lt: "i < length (aCtrl s)" using blocks_okD(3) [OF d(5) S] d(3) zero_less_power [of "2 :: nat" l] by linarith
  then show "set_ctrl s i (word_of_nat l) = Some (s\<lparr>aCtrl := (aCtrl s)[i := word_of_nat l]\<rparr>)" by (simp add: set_ctrl_def)
  show "mem5_inv (s\<lparr>aCtrl := (aCtrl s)[i := word_of_nat l]\<rparr>) S A F {}"
  proof (rule mem5_invI)
    fix k m assume k: "S k = Some m"
    show "aCtrl (s\<lparr>aCtrl := (aCtrl s)[i := word_of_nat l]\<rparr>) ! k = (if k \<in> A then word_of_nat m else CTRL_FREE OR word_of_nat m)"
      using k S i d(8) [of k m] lt by (cases "k = i") simp_all
  qed (use d in \<open>simp_all add: lists_ok_def\<close>)
qed

text \<open>The size search of malloc.\<close>

lemma round_loop_law:
  "0 < f \<Longrightarrow> n \<le> 2 ^ 30 \<Longrightarrow> f < 2 ^ 31 \<Longrightarrow>
   \<exists>k. round_loop f l n = Some (f * 2 ^ k, l + k) \<and> n \<le> f * 2 ^ k \<and> (0 < k \<longrightarrow> f * 2 ^ (k - 1) < n)"
proof (induction f l n rule: round_loop.induct)
  case (1 f l n)
  show ?case
  proof (cases "f < n")
    case False
    then show ?thesis by (subst round_loop.simps) (auto intro!: exI [of _ 0])
  next
    case True
    then have "0 < f \<and> f * 2 < 2 ^ 31" using 1 by simp
    with 1 True obtain k where k: "round_loop (f * 2) (Suc l) n = Some (f * 2 * 2 ^ k, Suc l + k)" "n \<le> f * 2 * 2 ^ k"
      "0 < k \<longrightarrow> f * 2 * 2 ^ (k - 1) < n" by auto
    have "f * 2 ^ k < n" using k(3) True by (cases k) auto
    then show ?thesis using k True \<open>0 < f \<and> f * 2 < 2 ^ 31\<close>
      by (intro exI [of _ "Suc k"]) (subst round_loop.simps, auto simp: ac_simps)
  qed
qed

lemma find_bin_law:
  assumes ok: "lists_ok s F" and l: "l \<le> LOGMAX + 1"
  shows "(case find_bin s l of None \<Rightarrow> \<forall>m. l \<le> m \<and> m \<le> LOGMAX \<longrightarrow> F m = []
    | Some b \<Rightarrow> l \<le> b \<and> b \<le> LOGMAX \<and> F b \<noteq> [] \<and> (\<forall>m. l \<le> m \<and> m < b \<longrightarrow> F m = []))"
  using l
proof (induction "LOGMAX + 1 - l" arbitrary: l)
  case 0
  then have "l = LOGMAX + 1" by simp
  moreover have "length (aiFreelist s) = LOGMAX + 1" using ok by (simp add: lists_ok_def)
  ultimately have "find_bin s l = None" by (subst find_bin.simps) (simp add: peek_def)
  then show ?case using \<open>l = LOGMAX + 1\<close> by auto
next
  case (Suc n)
  then have l: "l \<le> LOGMAX" by simp
  note d = lists_okD [OF ok l]
  have f: "peek (aiFreelist s) l = Some (hdi (F l) (- 1))" using d(1,2) l by simp
  show ?case
  proof (cases "F l = []")
    case False
    then have "\<not> hdi (F l) (- 1) < 0" by (simp add: hdi_def)
    then have "find_bin s l = Some l" using f by (subst find_bin.simps) simp
    then show ?thesis using False l by auto
  next
    case True
    have "n = LOGMAX + 1 - Suc l" "Suc l \<le> LOGMAX + 1" using Suc.hyps(2) l by simp_all
    note IH = Suc.hyps(1) [OF this]
    have "find_bin s l = find_bin s (Suc l)" using f True l by (subst find_bin.simps) simp
    moreover have "F m = []" if "l \<le> m" "Suc l \<le> m \<Longrightarrow> F m = []" for m using that True by (cases "m = l") auto
    ultimately show ?thesis using IH by (cases "find_bin s (Suc l)") auto
  qed
qed

text \<open>When the blocks are coalesced, an aligned run of free atoms lies in one free block.\<close>

lemma coalesced_run:
  assumes ok: "blocks_ok n S" and co: "coalesced S A" and l: "l \<le> LOGMAX"
  shows "2 ^ l dvd i \<Longrightarrow> i + 2 ^ l \<le> n \<Longrightarrow> {i..<i + 2 ^ l} \<inter> atoms S A = {} \<Longrightarrow>
    \<exists>k m. S k = Some m \<and> k \<notin> A \<and> l \<le> m \<and> k \<le> i \<and> i + 2 ^ l \<le> k + 2 ^ m"
  using l
proof (induction l arbitrary: i)
  case 0
  then obtain k m where k: "S k = Some m" "k \<le> i" "i < k + 2 ^ m" using blocks_okD(5) [OF ok, of i] by auto
  then have "k \<notin> A" using 0 by (auto simp: atoms_def)
  then show ?case using k by (intro exI [of _ k] exI [of _ m]) simp
next
  case (Suc l)
  note d = blocks_okD [OF ok]
  have p: "(0 :: nat) < 2 ^ l" by simp
  have al: "2 ^ l dvd i" by (rule pow_dvd [OF _ Suc.prems(1)]) simp
  have al2: "2 ^ l dvd (i + 2 ^ l)" using al by simp
  have e: "i + 2 ^ l + 2 ^ l \<le> n" using Suc.prems(2) by simp
  have f1: "{i..<i + 2 ^ l} \<inter> atoms S A = {}" "{i + 2 ^ l..<i + 2 ^ l + 2 ^ l} \<inter> atoms S A = {}"
    using Suc.prems(3) by (auto simp: disjoint_iff)
  from Suc.IH [OF al _ f1(1)] e Suc.prems(4) obtain k m where
    k: "S k = Some m" "k \<notin> A" "l \<le> m" "k \<le> i" "i + 2 ^ l \<le> k + 2 ^ m" by auto
  from Suc.IH [OF al2 e f1(2)] Suc.prems(4) obtain k' m' where
    k': "S k' = Some m'" "k' \<notin> A" "l \<le> m'" "k' \<le> i + 2 ^ l" "i + 2 ^ l + 2 ^ l \<le> k' + 2 ^ m'" by auto
  show ?case
  proof (cases "l < m")
    case True
    have "2 ^ Suc l dvd k" by (rule pow_dvd [OF _ d(2) [OF k(1)]]) (use True in simp)
    moreover have "2 ^ Suc l dvd (2 :: nat) ^ m" by (rule le_imp_power_dvd) (use True in simp)
    ultimately have "2 ^ Suc l dvd k + 2 ^ m" by simp
    from dvd_interval [OF Suc.prems(1) this] k(5) p have "i + 2 ^ Suc l \<le> k + 2 ^ m" by linarith
    then show ?thesis using k True by (intro exI [of _ k] exI [of _ m]) auto
  next
    case ml: False
    then have m: "m = l" using k(3) by simp
    then have ki: "k = i" using k(4,5) by simp
    show ?thesis
    proof (cases "l < m'")
      case True
      have a: "2 ^ Suc l dvd k'" by (rule pow_dvd [OF _ d(2) [OF k'(1)]]) (use True in simp)
      have "k' \<le> i"
      proof (rule ccontr)
        assume "\<not> k' \<le> i"
        then have "i + 2 ^ Suc l \<le> k'" using dvd_interval [OF Suc.prems(1) a] by simp
        then show False using k'(4) p unfolding power_Suc by linarith
      qed
      then show ?thesis using k' True by (intro exI [of _ k'] exI [of _ m']) (auto simp: add.assoc)
    next
      case False
      then have m': "m' = l" using k'(3) by simp
      then have "k' = i + 2 ^ l" using k'(4,5) by simp
      moreover have "\<not> bit i l" using buddy_pair(3) [OF al] Suc.prems(1) by blast
      ultimately show ?thesis using co k(1,2) k'(1,2) ki m m' Suc.prems(4) by (auto simp: coalesced_def)
    qed
  qed
qed

subsection \<open>What malloc does\<close>

text \<open>The allocator with the blocks \<open>X\<close>, pairs of a first atom and the logarithm of a size, checked out.\<close>

definition checked_out :: "blocks \<Rightarrow> nat set \<Rightarrow> (nat \<times> nat) set" where
  "checked_out S A = {(i, l). i \<in> A \<and> S i = Some l}"

definition mem5_ok :: "Mem5Global \<Rightarrow> (nat \<times> nat) set \<Rightarrow> bool" where
  "mem5_ok s X \<longleftrightarrow> (\<exists>S A F. mem5_inv s S A F {} \<and> X = checked_out S A) \<and> finite X
     \<and> currentCount s = word_of_nat (card X) \<and> currentOut s = (\<Sum>(i, l) \<in> X. word_of_nat (nAtom s * 2 ^ l))"

definition block_atoms :: "(nat \<times> nat) set \<Rightarrow> nat set" where
  "block_atoms X = (\<Union>(i, l) \<in> X. {i..<i + 2 ^ l})"

lemma block_atoms_checked_out: "block_atoms (checked_out S A) = atoms S A"
  by (auto simp: block_atoms_def checked_out_def atoms_def)

text \<open>Any log that fits, and whether an aligned run of that size is free.\<close>

definition run_free :: "Mem5Global \<Rightarrow> (nat \<times> nat) set \<Rightarrow> nat \<Rightarrow> bool" where
  "run_free s X l \<longleftrightarrow> (\<exists>i. 2 ^ l dvd i \<and> i + 2 ^ l \<le> nBlock s \<and> {i..<i + 2 ^ l} \<inter> block_atoms X = {})"

definition fits_log :: "Mem5Global \<Rightarrow> int \<Rightarrow> nat \<Rightarrow> bool" where
  "fits_log s nByte l \<longleftrightarrow> nByte \<le> int (nAtom s) * 2 ^ l \<and> (0 < l \<longrightarrow> int (nAtom s) * 2 ^ (l - 1) < nByte)"

definition kept_data :: "(nat \<times> nat) set \<Rightarrow> Mem5Global \<Rightarrow> Mem5Global \<Rightarrow> bool" where
  "kept_data X s s' \<longleftrightarrow> nAtom s' = nAtom s \<and> nBlock s' = nBlock s \<and> (\<forall>j \<in> block_atoms X. zPool s' ! j = zPool s ! j)"

lemma kept_dataI: "kept (block_atoms X) s s' \<Longrightarrow> kept_data X s s'"
  unfolding kept_data_def by (metis kept_def kept_fields(1,2))

text \<open>Statistics do not matter to the invariant.\<close>

definition only_stats :: "Mem5Global \<Rightarrow> Mem5Global \<Rightarrow> bool" where
  "only_stats s s' \<longleftrightarrow> nAtom s' = nAtom s \<and> nBlock s' = nBlock s \<and> zPool s' = zPool s \<and> aiFreelist s' = aiFreelist s
     \<and> aCtrl s' = aCtrl s"

lemma only_stats_inv: "only_stats s s' \<Longrightarrow> mem5_inv s' S A F h = mem5_inv s S A F h"
  by (simp add: only_stats_def mem5_inv_def lists_ok_def)

text \<open>
  A request that is not refused at once gets a block of the smallest size that fits when an aligned
  run of free atoms of that size is there; without one the search for a free list leaves the array.
\<close>

definition given :: "Mem5Global \<Rightarrow> (nat \<times> nat) set \<Rightarrow> nat \<Rightarrow> nat \<Rightarrow> Mem5Global \<Rightarrow> bool" where
  "given s X l i s' \<longleftrightarrow> 2 ^ l dvd i \<and> i + 2 ^ l \<le> nBlock s \<and> {i..<i + 2 ^ l} \<inter> block_atoms X = {}
     \<and> mem5_ok s' (insert (i, l) X) \<and> kept_data X s s'"

lemma malloc_law:
  assumes ok: "mem5_ok s X" and n: "0 < nByte" "nByte < 2 ^ 31" and atom: "nAtom s < 2 ^ 31"
  shows "if nByte > POW2_MAX then \<exists>s'. memsys5MallocUnsafe s nByte = Some (None, s') \<and> mem5_ok s' X \<and> only_stats s s'
    else \<exists>l. fits_log s nByte l \<and> (if run_free s X l then \<exists>i s'. memsys5MallocUnsafe s nByte = Some (Some i, s') \<and> given s X l i s'
      else memsys5MallocUnsafe s nByte = None)"
proof -
  obtain S A F where inv: "mem5_inv s S A F {}" and X: "X = checked_out S A"
    and cnt: "finite X" "currentCount s = word_of_nat (card X)" "currentOut s = (\<Sum>(i, l) \<in> X. word_of_nat (nAtom s * 2 ^ l))"
    using ok unfolding mem5_ok_def by blast
  define s0 where "s0 = (if word_of_int nByte > maxRequest s then s\<lparr>maxRequest := word_of_int nByte\<rparr> else s)"
  have os: "only_stats s s0" by (simp add: s0_def only_stats_def)
  then have inv0: "mem5_inv s0 S A F {}" using only_stats_inv inv by simp
  note d = mem5_invD [OF inv0]
  have fields0: "nAtom s0 = nAtom s" "nBlock s0 = nBlock s" "zPool s0 = zPool s" "currentCount s0 = currentCount s" "currentOut s0 = currentOut s"
    by (simp_all add: s0_def)
  have ok0: "mem5_ok s0 X" unfolding mem5_ok_def using inv0 X cnt fields0 by auto
  have u: "uint (word_of_int nByte :: u32) = nByte" using n by (simp add: uint_word_of_int)
  have m: "memsys5MallocUnsafe s nByte = (if nByte > POW2_MAX then Some (None, s0)
      else do {
        (iFullSz, iLogsize) \<leftarrow> round_loop (int (nAtom s0)) 0 nByte;
        iBin \<leftarrow> find_bin s0 iLogsize;
        if iBin > LOGMAX then Some (None, s0)
        else do {
          (i, s) \<leftarrow> memsys5UnlinkFirst s0 iBin;
          s \<leftarrow> split_loop s i iLogsize iBin;
          s \<leftarrow> set_ctrl s i (word_of_nat iLogsize);
          let s = s\<lparr>nAlloc := nAlloc s + 1, totalAlloc := totalAlloc s + word_of_int iFullSz,
                   totalExcess := totalExcess s + word_of_int (iFullSz - nByte),
                   currentCount := currentCount s + 1, currentOut := currentOut s + word_of_int iFullSz\<rparr>;
          let s = (if maxCount s < currentCount s then s\<lparr>maxCount := currentCount s\<rparr> else s);
          let s = (if maxOut s < currentOut s then s\<lparr>maxOut := currentOut s\<rparr> else s);
          Some (Some i, s)
        }
      })" unfolding memsys5MallocUnsafe_def u Let_def s0_def [symmetric] by simp
  show ?thesis
  proof (cases "nByte > POW2_MAX")
    case True
    then show ?thesis using m ok0 os by auto
  next
    case small: False
    then have "nByte \<le> 2 ^ 20" by (simp add: POW2_MAX_def)
    then have "nByte \<le> 2 ^ 30" by simp
    moreover have a: "0 < int (nAtom s0)" "int (nAtom s0) < 2 ^ 31" using d(4) atom fields0(1) by simp_all
    ultimately obtain l where l: "round_loop (int (nAtom s0)) 0 nByte = Some (int (nAtom s0) * 2 ^ l, l)"
      "nByte \<le> int (nAtom s0) * 2 ^ l" "0 < l \<longrightarrow> int (nAtom s0) * 2 ^ (l - 1) < nByte"
      using round_loop_law [of "int (nAtom s0)" nByte 0] by auto
    have "l \<le> 21"
    proof (rule ccontr)
      assume "\<not> l \<le> 21"
      then have "(2 :: int) ^ 21 \<le> 2 ^ (l - 1)" by (intro power_increasing) auto
      moreover have "(2 :: int) ^ (l - 1) \<le> int (nAtom s0) * 2 ^ (l - 1)" using a by simp
      moreover have "int (nAtom s0) * 2 ^ (l - 1) < nByte" using l(3) \<open>\<not> l \<le> 21\<close> by simp
      ultimately have "(2 :: int) ^ 21 < 2 ^ 20" using \<open>nByte \<le> 2 ^ 20\<close> by linarith
      then show False by simp
    qed
    then have lmax: "l \<le> LOGMAX" by (simp add: LOGMAX_def)
    have fb: "case find_bin s0 l of None \<Rightarrow> \<forall>m. l \<le> m \<and> m \<le> LOGMAX \<longrightarrow> F m = []
        | Some b \<Rightarrow> l \<le> b \<and> b \<le> LOGMAX \<and> F b \<noteq> [] \<and> (\<forall>m. l \<le> m \<and> m < b \<longrightarrow> F m = [])"
      by (rule find_bin_law [OF d(1)]) (use lmax in simp)
    have fits: "fits_log s nByte l" using l(2,3) fields0(1) by (simp add: fits_log_def)
    show ?thesis
    proof (cases "find_bin s0 l")
      case None
      have none: "\<not> run_free s X l"
      proof
        assume "run_free s X l"
        then obtain i where "2 ^ l dvd i" "i + 2 ^ l \<le> nBlock s0" "{i..<i + 2 ^ l} \<inter> atoms S A = {}"
          using X block_atoms_checked_out fields0(2) by (auto simp: run_free_def)
        from coalesced_run [OF d(5,7) lmax this] obtain k q where k: "S k = Some q" "k \<notin> A" "l \<le> q" by blast
        have "q \<le> LOGMAX" using blocks_okD(1) [OF d(5) k(1)] .
        then have "k \<in> set (F q)" using d(9) k by simp
        moreover have "F q = []" using fb None k(3) \<open>q \<le> LOGMAX\<close> by simp
        ultimately show False by simp
      qed
      have "memsys5MallocUnsafe s nByte = None" using m small l(1) None by simp
      then show ?thesis using small none fits by auto
    next
      case (Some b)
      then have b: "find_bin s0 l = Some b" "l \<le> b" "b \<le> LOGMAX" "F b \<noteq> []" using fb by simp_all
      then obtain i s1 F1 where 1: "memsys5UnlinkFirst s0 b = Some (i, s1)" "S i = Some b" "i \<notin> A" "mem5_inv s1 S (insert i A) F1 {i}"
        "kept (atoms S A) s0 s1" using take_law [OF inv0, of b] b(3,4) by auto
      have iA: "i \<in> insert i A" "insert i A - {i} = A" using 1(3) by auto
      from split_loop_law [OF 1(4,2) iA(1) b(2)] obtain s2 S2 F2 where
        2: "split_loop s1 i l b = Some s2" "mem5_inv s2 S2 (insert i A) F2 {i}" "S2 i = Some l" "\<forall>k \<in> A. S2 k = S k" "kept (atoms S A) s1 s2"
        unfolding iA(2) by blast
      define s3 where "s3 = s2\<lparr>aCtrl := (aCtrl s2)[i := word_of_nat l]\<rparr>"
      have 3: "set_ctrl s2 i (word_of_nat l) = Some s3" "mem5_inv s3 S2 (insert i A) F2 {}"
        using ctrl_law [OF 2(2,3)] by (simp_all add: s3_def)
      have k3: "kept (atoms S A) s0 s3" using kept_trans [OF 1(5) 2(5)] by (cases s2) (simp add: kept_def s3_def)
      note f3 = kept_fields [OF k3]
      define s4 where "s4 = s3\<lparr>nAlloc := nAlloc s3 + 1, totalAlloc := totalAlloc s3 + word_of_int (int (nAtom s0) * 2 ^ l),
                   totalExcess := totalExcess s3 + word_of_int (int (nAtom s0) * 2 ^ l - nByte),
                   currentCount := currentCount s3 + 1, currentOut := currentOut s3 + word_of_int (int (nAtom s0) * 2 ^ l)\<rparr>"
      define s5 where "s5 = (if maxCount s4 < currentCount s4 then s4\<lparr>maxCount := currentCount s4\<rparr> else s4)"
      define s6 where "s6 = (if maxOut s5 < currentOut s5 then s5\<lparr>maxOut := currentOut s5\<rparr> else s5)"
      have r: "memsys5MallocUnsafe s nByte = Some (Some i, s6)"
        using m small l(1) b(1,3) 1(1) 2(1) 3(1) by (simp add: s6_def s5_def s4_def Let_def)
      have o6: "only_stats s3 s6" "currentCount s6 = currentCount s3 + 1" "currentOut s6 = currentOut s3 + word_of_int (int (nAtom s0) * 2 ^ l)"
        by (simp_all add: only_stats_def s6_def s5_def s4_def)
      have X': "checked_out S2 (insert i A) = insert (i, l) X"
        using X 2(3,4) 1(3) by (auto simp: checked_out_def)
      have niX: "(i, l) \<notin> X" using X 1(3) by (simp add: checked_out_def)
      have "mem5_ok s6 (insert (i, l) X)"
        unfolding mem5_ok_def
      proof (intro conjI)
        show "\<exists>S A F. mem5_inv s6 S A F {} \<and> insert (i, l) X = checked_out S A"
          using only_stats_inv [OF o6(1)] 3(2) X' by metis
        show "finite (insert (i, l) X)" using cnt(1) by simp
        show "currentCount s6 = word_of_nat (card (insert (i, l) X))"
          using o6(2) f3(3) fields0(4) cnt(1,2) niX by simp
        have "nAtom s6 = nAtom s" using o6(1) f3(1) fields0(1) by (simp add: only_stats_def)
        then show "currentOut s6 = (\<Sum>(j, m) \<in> insert (i, l) X. word_of_nat (nAtom s6 * 2 ^ m))"
          using o6(3) f3(4) fields0(1,5) cnt(1,3) niX by simp
      qed
      moreover have "i + 2 ^ l \<le> nBlock s"
        using blocks_okD(3) [OF mem5_invD(5) [OF 3(2)] 2(3)] f3(2) fields0(2) by simp
      moreover have "{i..<i + 2 ^ l} \<inter> block_atoms X = {}"
      proof -
        have "atoms S2 {i} \<inter> atoms S2 A = {}" by (rule atoms_disjoint [OF mem5_invD(5) [OF 3(2)]]) (use 1(3) in simp)
        moreover have "atoms S2 A = block_atoms X" using atoms_cong [of A S2 S] 2(4) X block_atoms_checked_out by simp
        moreover have "atoms S2 {i} = {i..<i + 2 ^ l}" using 2(3) by (auto simp: atoms_def)
        ultimately show ?thesis by simp
      qed
      moreover have "kept_data X s s6"
        using k3 o6(1) f3 fields0 X block_atoms_checked_out by (simp add: kept_data_def kept_def only_stats_def)
      moreover have "2 ^ l dvd i" using blocks_okD(2) [OF mem5_invD(5) [OF 3(2)] 2(3)] .
      ultimately have g: "given s X l i s6" by (simp add: given_def)
      then have "run_free s X l" unfolding given_def run_free_def by blast
      then show ?thesis using r fits g small by auto
    qed
  qed
qed

subsection \<open>What free does\<close>

lemma buddy_back:
  assumes "2 ^ l dvd i" shows "bit i l \<Longrightarrow> buddy i l + 2 ^ l = i" "\<not> bit i l \<Longrightarrow> buddy i l = i + 2 ^ l" "2 ^ l dvd buddy i l" "buddy i l \<noteq> i"
  using buddy_pair [OF assms] assms by (auto simp: buddy_def)

text \<open>Two buddies become one block, whose control byte is being changed.\<close>

lemma merge_law:
  assumes inv: "mem5_inv s S A F {i}" and S: "S i = Some l" "i \<in> A" and l: "l < LOGMAX"
    and j: "S (buddy i l) = Some l" "buddy i l \<notin> A"
  defines "lo \<equiv> min i (buddy i l)" and "hi \<equiv> max i (buddy i l)"
  shows "\<exists>s1 s2 s3 F'. memsys5Unlink s (buddy i l) l = Some s1 \<and> set_ctrl s1 lo (CTRL_FREE OR word_of_nat (Suc l)) = Some s2
    \<and> set_ctrl s2 hi 0 = Some s3 \<and> mem5_inv s3 (S(lo \<mapsto> Suc l, hi := None)) (insert lo (A - {i})) F' {lo}
    \<and> aCtrl s3 ! lo = CTRL_FREE OR word_of_nat (Suc l) \<and> kept (atoms S (A - {i})) s s3"
proof -
  note d = mem5_invD [OF inv]
  let ?j = "buddy i l"
  have p: "(0 :: nat) < 2 ^ l" by simp
  have al: "2 ^ l dvd i" using blocks_okD(2) [OF d(5) S(1)] .
  have ll: "l \<le> LOGMAX" using l by simp
  have pair: "hi = lo + 2 ^ l" "2 ^ Suc l dvd lo" "S lo = Some l" "S hi = Some l" "{lo, hi} = {i, ?j}" "lo \<noteq> hi"
  proof -
    show h: "hi = lo + 2 ^ l" using buddy_back(1,2) [OF al] by (cases "bit i l") (auto simp: lo_def hi_def)
    show "2 ^ Suc l dvd lo" using buddy_back(1,2) [OF al] buddy_pair(1,2) [OF al] by (cases "bit i l") (auto simp: lo_def buddy_def)
    show "S lo = Some l" "S hi = Some l" using S j by (auto simp: lo_def hi_def min_def max_def)
    show "{lo, hi} = {i, ?j}" by (auto simp: lo_def hi_def min_def max_def)
    show "lo \<noteq> hi" using h p by simp
  qed
  let ?S = "S(lo \<mapsto> Suc l, hi := None)" and ?A = "insert lo (A - {i})"
  have jF: "?j \<in> set (F l)" using d(9) [OF ll] j by simp
  then obtain xs ys where F: "F l = xs @ ?j # ys" by (meson split_list)
  obtain z where z: "memsys5Unlink s ?j l = Some (s\<lparr>zPool := z, aiFreelist := (aiFreelist s)[l := hdi (xs @ ys) (- 1)]\<rparr>)"
    "length z = length (zPool s)" "\<forall>k. k \<notin> listed F \<longrightarrow> z ! k = zPool s ! k"
    "lists_ok (s\<lparr>zPool := z, aiFreelist := (aiFreelist s)[l := hdi (xs @ ys) (- 1)]\<rparr>) (F(l := xs @ ys))"
    using unlink_law [OF d(1) ll F] by blast
  define s1 where "s1 = s\<lparr>zPool := z, aiFreelist := (aiFreelist s)[l := hdi (xs @ ys) (- 1)]\<rparr>"
  define s3 where "s3 = s1\<lparr>aCtrl := (aCtrl s)[lo := CTRL_FREE OR word_of_nat (Suc l), hi := 0]\<rparr>"
  have lt: "lo < length (aCtrl s)" "hi < length (aCtrl s)"
    using blocks_okD(3) [OF d(5) pair(3)] blocks_okD(3) [OF d(5) pair(4)] d(3) p by linarith+
  have set: "set_ctrl s1 lo (CTRL_FREE OR word_of_nat (Suc l)) = Some (s1\<lparr>aCtrl := (aCtrl s)[lo := CTRL_FREE OR word_of_nat (Suc l)]\<rparr>)"
    "set_ctrl (s1\<lparr>aCtrl := (aCtrl s)[lo := CTRL_FREE OR word_of_nat (Suc l)]\<rparr>) hi 0 = Some s3"
    using lt by (simp_all add: set_ctrl_def s1_def s3_def)
  have dist: "distinct (F l)" using lists_okD(4) [OF d(1) ll] .
  have other: "?S k = Some m \<and> k \<notin> ?A \<longleftrightarrow> S k = Some m \<and> k \<notin> A \<and> k \<noteq> ?j" for k m
    using pair(3-6) S by (cases "k = lo"; cases "k = hi") auto
  have "mem5_inv s3 ?S ?A (F(l := xs @ ys)) {lo}"
  proof (rule mem5_invI)
    show "lists_ok s3 (F(l := xs @ ys))" using z(4) by (simp add: s3_def s1_def lists_ok_def)
    show "length (zPool s3) = nBlock s3" "length (aCtrl s3) = nBlock s3" "0 < nAtom s3" using z(2) d(2-4) by (simp_all add: s3_def s1_def)
    show "blocks_ok (nBlock s3) ?S" using blocks_merge [OF d(5) pair(3) _ pair(2) l] pair(1,4) by (simp add: s3_def s1_def)
    show "?A \<subseteq> dom ?S" using d(6) pair(5,6) j(2) by auto
    show "coalesced ?S ?A" unfolding coalesced_def
    proof (intro allI impI)
      fix k m assume k: "?S k = Some m" "k \<notin> ?A" "m < LOGMAX" "\<not> bit k m" "?S (k + 2 ^ m) = Some m"
      with other [of k m] have 1: "S k = Some m" "k \<notin> A" by auto
      show "k + 2 ^ m \<in> ?A"
      proof (cases "k + 2 ^ m = lo")
        case False
        then have 2: "S (k + 2 ^ m) = Some m" "k + 2 ^ m \<noteq> hi" using k(5) by (auto split: if_splits)
        then have "k + 2 ^ m \<in> A" using d(7) 1 k(3,4) by (auto simp: coalesced_def)
        then show ?thesis using False 2(2) pair(5) by blast
      qed simp
    qed
  next
    fix k m assume k: "?S k = Some m" "k \<notin> {lo}"
    then have 1: "S k = Some m" "k \<noteq> hi" "k \<noteq> lo" by (auto split: if_splits)
    then have "k \<noteq> i" using pair(5) by blast
    then show "aCtrl s3 ! k = (if k \<in> ?A then word_of_nat m else CTRL_FREE OR word_of_nat m)"
      using d(8) [OF 1(1)] 1 by (simp add: s3_def)
  next
    fix m assume m: "m \<le> LOGMAX"
    have "{k. ?S k = Some m \<and> k \<notin> ?A} = {k. S k = Some m \<and> k \<notin> A} - {?j}" using other by blast
    then show "set ((F(l := xs @ ys)) m) = {k. ?S k = Some m \<and> k \<notin> ?A}"
      using d(9) [OF m] d(9) [OF ll] F dist j(1) by (cases "m = l") auto
  qed
  moreover have "kept (atoms S (A - {i})) s s3"
  proof -
    have "z ! k = zPool s ! k" if "k \<in> atoms S (A - {i})" for k
      using that z(3) atoms_not_listed [OF inv, of k] atoms_mono [of "A - {i}" A S] by blast
    then show ?thesis by (simp add: kept_def s3_def s1_def)
  qed
  moreover have "aCtrl s3 ! lo = CTRL_FREE OR word_of_nat (Suc l)" using lt pair(6) by (simp add: s3_def)
  ultimately show ?thesis using z(1) set unfolding s1_def [symmetric] by blast
qed

text \<open>Block \<open>i\<close> has become the block \<open>i'\<close> of size \<open>l'\<close>, whose buddy is not free.\<close>

definition merged :: "blocks \<Rightarrow> nat set \<Rightarrow> nat \<Rightarrow> Mem5Global \<Rightarrow> Mem5Global \<Rightarrow> nat \<Rightarrow> nat \<Rightarrow> blocks \<Rightarrow> nat set \<Rightarrow> (nat \<Rightarrow> nat list) \<Rightarrow> bool" where
  "merged S A i s s' i' l' S' A' F' \<longleftrightarrow> mem5_inv s' S' A' F' {i'} \<and> S' i' = Some l' \<and> i' \<in> A'
     \<and> A' - {i'} = A - {i} \<and> (\<forall>k \<in> A - {i}. S' k = S k) \<and> aCtrl s' ! i' = CTRL_FREE OR word_of_nat l'
     \<and> (l' < LOGMAX \<longrightarrow> S' (buddy i' l') = Some l' \<longrightarrow> buddy i' l' \<in> A') \<and> kept (atoms S (A - {i})) s s'"

lemma mergedD:
  assumes "merged S A i s s' i' l' S' A' F'"
  shows "mem5_inv s' S' A' F' {i'}" "S' i' = Some l'" "i' \<in> A'" "A' - {i'} = A - {i}" "\<forall>k \<in> A - {i}. S' k = S k"
    "aCtrl s' ! i' = CTRL_FREE OR word_of_nat l'" "l' < LOGMAX \<Longrightarrow> S' (buddy i' l') = Some l' \<Longrightarrow> buddy i' l' \<in> A'"
    "kept (atoms S (A - {i})) s s'"
  using assms by (simp_all add: merged_def)

lemma merged_here:
  assumes "mem5_inv s S A F {i}" "S i = Some l" "i \<in> A" "aCtrl s ! i = CTRL_FREE OR word_of_nat l"
    "l < LOGMAX \<Longrightarrow> S (buddy i l) = Some l \<Longrightarrow> buddy i l \<in> A"
  shows "merged S A i s s i l S A F"
  using assms kept_refl by (simp add: merged_def)

lemma merged_step:
  assumes "merged S2 A2 lo s3 s' i' l' S' A' F'" "A2 - {lo} = A - {i}" "\<And>k. k \<in> A - {i} \<Longrightarrow> S2 k = S k"
    "kept (atoms S (A - {i})) s s3"
  shows "merged S A i s s' i' l' S' A' F'"
proof -
  have "atoms S2 (A - {i}) = atoms S (A - {i})" using atoms_cong assms(3) by blast
  then have "kept (atoms S (A - {i})) s s'" using kept_trans [OF assms(4)] mergedD(8) [OF assms(1)] assms(2) by simp
  then show ?thesis using mergedD [OF assms(1)] assms(2,3) by (simp add: merged_def)
qed

lemma free_loop_law:
  "mem5_inv s S A F {i} \<Longrightarrow> S i = Some l \<Longrightarrow> i \<in> A \<Longrightarrow> aCtrl s ! i = CTRL_FREE OR word_of_nat l \<Longrightarrow>
   \<exists>s' i' l' S' A' F'. free_loop s i l (2 ^ l) = Some (s', i', l') \<and> merged S A i s s' i' l' S' A' F'"
proof (induction "LOGMAX - l" arbitrary: s S A F i l)
  case 0
  then have "\<not> l < LOGMAX" by simp
  then have "free_loop s i l (2 ^ l) = Some (s, i, l)" by (simp add: free_loop.simps)
  moreover have "merged S A i s s i l S A F" using 0 \<open>\<not> l < LOGMAX\<close> by (intro merged_here) simp_all
  ultimately show ?case by blast
next
  case (Suc n)
  note inv = Suc.prems(1) and S = Suc.prems(2) and iA = Suc.prems(3) and c = Suc.prems(4)
  note d = mem5_invD [OF inv]
  have l: "l < LOGMAX" using Suc.hyps(2) by simp
  let ?j = "buddy i l"
  have p: "(0 :: nat) < 2 ^ l" by simp
  have al: "2 ^ l dvd i" using blocks_okD(2) [OF d(5) S] .
  note bb = buddy_back [OF al]
  have nU: "\<not> (bit i l \<and> i < 2 ^ l)" using buddy_pair(1) [OF al] by auto
  have bj: "(if bit i l then i - 2 ^ l else i + 2 ^ l) = ?j" by (simp add: buddy_def)
  have stop: ?case if "free_loop s i l (2 ^ l) = Some (s, i, l)" "S ?j = Some l \<Longrightarrow> ?j \<in> A"
    using that(1) merged_here [OF inv S iA c that(2)] by blast
  show ?case
  proof (cases "?j + 2 ^ l > nBlock s")
    case True
    have "free_loop s i l (2 ^ l) = Some (s, i, l)"
      by (subst free_loop.simps) (simp only: Let_def if_P [OF l] if_not_P [OF nU] bj if_P [OF True])
    moreover have "S ?j \<noteq> Some l" using blocks_okD(3) [OF d(5)] True by (metis not_less)
    ultimately show ?thesis using stop by blast
  next
    case inside: False
    then have jn: "?j < length (aCtrl s)" using d(3) p by linarith
    obtain m where m: "S ?j = Some m" "m \<le> l" using buddy_head [OF d(5) S] inside by auto
    have cj: "aCtrl s ! ?j = (if ?j \<in> A then word_of_nat m else CTRL_FREE OR word_of_nat m)"
      using d(8) [OF m(1)] bb(4) by simp
    have mm: "m \<le> LOGMAX" "l \<le> LOGMAX" using m(2) l by simp_all
    have eq: "aCtrl s ! ?j = CTRL_FREE OR word_of_nat l \<longleftrightarrow> ?j \<notin> A \<and> m = l"
      using cj ctrl_values(3) [OF mm] ctrl_values(4) [OF mm(2,1)] by auto
    have unfold1: "free_loop s i l (2 ^ l) = do {
           c \<leftarrow> peek (aCtrl s) ?j;
           if c \<noteq> CTRL_FREE OR word_of_nat l then Some (s, i, l)
           else do {
             s \<leftarrow> memsys5Unlink s ?j l;
             if ?j < i then do {
               s \<leftarrow> set_ctrl s ?j (CTRL_FREE OR word_of_nat (Suc l));
               s \<leftarrow> set_ctrl s i 0;
               free_loop s ?j (Suc l) (2 ^ l * 2)
             } else do {
               s \<leftarrow> set_ctrl s i (CTRL_FREE OR word_of_nat (Suc l));
               s \<leftarrow> set_ctrl s ?j 0;
               free_loop s i (Suc l) (2 ^ l * 2)
             } } }"
      by (subst free_loop.simps) (simp only: Let_def if_P [OF l] if_not_P [OF nU] bj if_not_P [OF inside])
    show ?thesis
    proof (cases "?j \<notin> A \<and> m = l")
      case False
      then have "free_loop s i l (2 ^ l) = Some (s, i, l)" using unfold1 eq jn by simp
      then show ?thesis by (rule stop) (use False m(1) in auto)
    next
      case True
      define lo hi where "lo = min i ?j" and "hi = max i ?j"
      define S2 A2 where "S2 = S(lo \<mapsto> Suc l, hi := None)" and "A2 = insert lo (A - {i})"
      obtain s1 s2 s3 F1 where 1: "memsys5Unlink s ?j l = Some s1" "set_ctrl s1 lo (CTRL_FREE OR word_of_nat (Suc l)) = Some s2"
        "set_ctrl s2 hi 0 = Some s3" "mem5_inv s3 S2 A2 F1 {lo}" "aCtrl s3 ! lo = CTRL_FREE OR word_of_nat (Suc l)"
        "kept (atoms S (A - {i})) s s3"
        using merge_law [OF inv S iA l] m(1) True unfolding S2_def A2_def lo_def hi_def by blast
      have step: "free_loop s i l (2 ^ l) = free_loop s3 lo (Suc l) (2 ^ Suc l)"
        using unfold1 eq True jn 1(1-3) bb(4) by (cases "?j < i") (simp_all add: mult.commute lo_def hi_def)
      have lo_hi: "lo \<noteq> hi" using bb(4) by (auto simp: lo_def hi_def)
      have Slo: "S2 lo = Some (Suc l)" using lo_hi by (simp add: S2_def)
      have rest: "A2 - {lo} = A - {i}" using True by (auto simp: min_def A2_def lo_def)
      have same: "S2 k = S k" if "k \<in> A - {i}" for k using that True by (auto simp: min_def max_def S2_def lo_def hi_def)
      have loA: "lo \<in> A2" by (simp add: A2_def)
      have "n = LOGMAX - Suc l" using Suc.hyps(2) by simp
      from Suc.hyps(1) [OF this 1(4) Slo loA 1(5)] obtain s' i' l' S' A' F' where
        2: "free_loop s3 lo (Suc l) (2 ^ Suc l) = Some (s', i', l')" "merged S2 A2 lo s3 s' i' l' S' A' F'" by blast
      from merged_step [OF 2(2) rest same 1(6)] 2(1) step show ?thesis by metis
    qed
  qed
qed

text \<open>The freed block goes on its list.\<close>

lemma mem5_release_law:
  assumes inv: "mem5_inv s S A F {i}" and S: "S i = Some l" and iA: "i \<in> A"
    and c: "aCtrl s ! i = CTRL_FREE OR word_of_nat l"
    and stop: "l < LOGMAX \<Longrightarrow> S (buddy i l) = Some l \<Longrightarrow> buddy i l \<in> A"
  shows "\<exists>s' F'. memsys5Link s i l = Some s' \<and> mem5_inv s' S (A - {i}) F' {} \<and> kept (atoms S (A - {i})) s s'"
proof -
  note d = mem5_invD [OF inv]
  have l: "l \<le> LOGMAX" using blocks_okD(1) [OF d(5) S] .
  have al: "2 ^ l dvd i" using blocks_okD(2) [OF d(5) S] .
  have lt: "i < length (zPool s)" using blocks_okD(3) [OF d(5) S] d(2) zero_less_power [of "2 :: nat" l] by linarith
  have nl: "i \<notin> listed F" using listed_iff [OF inv] iA by simp
  obtain z where z: "memsys5Link s i l = Some (s\<lparr>zPool := z, aiFreelist := (aiFreelist s)[l := int i]\<rparr>)"
    "length z = length (zPool s)" "\<forall>k. k \<notin> listed F \<and> k \<noteq> i \<longrightarrow> z ! k = zPool s ! k"
    "lists_ok (s\<lparr>zPool := z, aiFreelist := (aiFreelist s)[l := int i]\<rparr>) (F(l := i # F l))"
    using link_law [OF d(1) l nl lt] by blast
  define s' where "s' = s\<lparr>zPool := z, aiFreelist := (aiFreelist s)[l := int i]\<rparr>"
  have "mem5_inv s' S (A - {i}) (F(l := i # F l)) {}"
  proof (rule mem5_invI)
    show "lists_ok s' (F(l := i # F l))" using z(4) by (simp add: s'_def)
    show "length (zPool s') = nBlock s'" "length (aCtrl s') = nBlock s'" "0 < nAtom s'" "blocks_ok (nBlock s') S" "A - {i} \<subseteq> dom S"
      using z(2) d(2-6) by (auto simp: s'_def)
    show "coalesced S (A - {i})" unfolding coalesced_def
    proof (intro allI impI)
      fix k m assume k: "S k = Some m" "k \<notin> A - {i}" "m < LOGMAX" "\<not> bit k m" "S (k + 2 ^ m) = Some m"
      have p: "(0 :: nat) < 2 ^ m" by simp
      show "k + 2 ^ m \<in> A - {i}"
      proof (cases "k = i")
        case True
        then have "m = l" using k(1) S by simp
        then show ?thesis using stop k(3-5) True buddy_back(2) [OF al] p by auto
      next
        case False
        then have "k + 2 ^ m \<in> A" using d(7) k by (auto simp: coalesced_def)
        moreover have "k + 2 ^ m \<noteq> i"
        proof
          assume e: "k + 2 ^ m = i"
          then have m: "m = l" using k(5) S by simp
          have "bit i l" using buddy_pair(4) [OF blocks_okD(2) [OF d(5) k(1)]] k(4) e m by simp
          then have "buddy i l = k" using e m by (auto simp: buddy_def)
          then show False using stop k(1-3) m False by simp
        qed
        ultimately show ?thesis by simp
      qed
    qed
  next
    fix k m assume k: "S k = Some m" "k \<notin> {}"
    show "aCtrl s' ! k = (if k \<in> A - {i} then word_of_nat m else CTRL_FREE OR word_of_nat m)"
      using k(1) S c d(8) [of k m] by (cases "k = i") (simp_all add: s'_def)
  next
    fix m assume m: "m \<le> LOGMAX"
    have "{k. S k = Some m \<and> k \<notin> A - {i}} = (if m = l then insert i {k. S k = Some m \<and> k \<notin> A} else {k. S k = Some m \<and> k \<notin> A})"
      using S by auto
    then show "set ((F(l := i # F l)) m) = {k. S k = Some m \<and> k \<notin> A - {i}}" using d(9) [OF m] d(9) [OF l] by simp
  qed
  moreover have "kept (atoms S (A - {i})) s s'"
  proof -
    have "z ! k = zPool s ! k" if k: "k \<in> atoms S (A - {i})" for k
    proof -
      have "k \<notin> listed F" using k atoms_not_listed [OF inv, of k] atoms_mono [of "A - {i}" A S] by blast
      moreover have "k \<noteq> i"
      proof
        assume "k = i"
        then have "k \<in> atoms S {i}" using S by (auto simp: atoms_def)
        then show False using k atoms_disjoint [OF d(5), of "A - {i}" "{i}"] by blast
      qed
      ultimately show ?thesis using z(3) by blast
    qed
    then show ?thesis by (simp add: kept_def s'_def)
  qed
  ultimately show ?thesis using z(1) s'_def by blast
qed

lemma sum_remove_word:
  fixes f :: "nat \<times> nat \<Rightarrow> u32"
  assumes "finite X" "x \<in> X" shows "sum f X - f x = sum f (X - {x})"
  using assms by (simp add: sum.remove)

lemma free_law:
  assumes ok: "mem5_ok s X" and x: "(i, l) \<in> X"
  shows "\<exists>s'. memsys5FreeUnsafe s i = Some s' \<and> mem5_ok s' (X - {(i, l)}) \<and> kept_data (X - {(i, l)}) s s'"
proof -
  obtain S A F where inv: "mem5_inv s S A F {}" and X: "X = checked_out S A"
    and cnt: "finite X" "currentCount s = word_of_nat (card X)" "currentOut s = (\<Sum>(i, l) \<in> X. word_of_nat (nAtom s * 2 ^ l))"
    using ok unfolding mem5_ok_def by blast
  note d = mem5_invD [OF inv]
  have iA: "i \<in> A" and S: "S i = Some l" using x X by (auto simp: checked_out_def)
  have l: "l \<le> LOGMAX" using blocks_okD(1) [OF d(5) S] .
  have p: "(0 :: nat) < 2 ^ l" by simp
  have lt: "i < length (aCtrl s)" "i + 2 ^ l - 1 < length (aCtrl s)" using blocks_okD(3) [OF d(5) S] d(3) p by linarith+
  have c: "aCtrl s ! i = word_of_nat l" using d(8) [OF S] iA by simp
  let ?e = "i + 2 ^ l - 1"
  let ?c1 = "(aCtrl s)[i := word_of_nat l OR CTRL_FREE]"
  let ?c3 = "(?c1[?e := ?c1 ! ?e OR CTRL_FREE])[i := CTRL_FREE OR word_of_nat l]"
  define s3 where "s3 = s\<lparr>currentCount := currentCount s - 1, currentOut := currentOut s - word_of_nat (2 ^ l * nAtom s), aCtrl := ?c3\<rparr>"
  have "mem5_inv s3 S A F {i}"
  proof (rule mem5_invI)
    fix k m assume k: "S k = Some m" "k \<notin> {i}"
    have "k \<noteq> ?e"
    proof
      assume "k = ?e"
      then have "i \<le> k" "k < i + 2 ^ l" using p by linarith+
      then have "k = i" using head_of_block [OF d(5) S] k(1) by blast
      then show False using k(2) by simp
    qed
    then show "aCtrl s3 ! k = (if k \<in> A then word_of_nat m else CTRL_FREE OR word_of_nat m)"
      using k d(8) [OF k(1)] by (simp add: s3_def)
  qed (use d in \<open>simp_all add: s3_def lists_ok_def\<close>)
  moreover have c3: "aCtrl s3 ! i = CTRL_FREE OR word_of_nat l" using lt by (simp add: s3_def)
  ultimately obtain s4 i' l' S' A' F' where
    fl: "free_loop s3 i l (2 ^ l) = Some (s4, i', l')" and mg: "merged S A i s3 s4 i' l' S' A' F'"
    using free_loop_law [of s3 S A F i l] S iA by blast
  note 4 = mergedD [OF mg]
  obtain s5 F5 where 5: "memsys5Link s4 i' l' = Some s5" "mem5_inv s5 S' (A - {i}) F5 {}" "kept (atoms S' (A - {i})) s4 s5"
    using mem5_release_law [OF 4(1-3,6,7)] unfolding 4(4) by blast
  have "atoms S' (A - {i}) = atoms S (A - {i})" using atoms_cong 4(5) by blast
  then have k5: "kept (atoms S (A - {i})) s3 s5" using kept_trans [OF 4(8)] 5(3) by simp
  note f5 = kept_fields [OF k5]
  have fields3: "nAtom s3 = nAtom s" "nBlock s3 = nBlock s" "zPool s3 = zPool s" "currentCount s3 = currentCount s - 1"
    "currentOut s3 = currentOut s - word_of_nat (2 ^ l * nAtom s)" by (simp_all add: s3_def)
  have "(a, b) \<in> X - {(i, l)} \<longleftrightarrow> a \<in> A - {i} \<and> S a = Some b" for a b using X S by (auto simp: checked_out_def)
  moreover have "(a, b) \<in> checked_out S' (A - {i}) \<longleftrightarrow> a \<in> A - {i} \<and> S a = Some b" for a b
    using 4(5) by (auto simp: checked_out_def)
  ultimately have X': "checked_out S' (A - {i}) = X - {(i, l)}" by auto
  have r: "memsys5FreeUnsafe s i = Some s5"
    using lt c fl [unfolded s3_def] 5(1) ctrl_values(1) [OF l l]
    by (simp add: memsys5FreeUnsafe_def set_ctrl_def Let_def)
  have "mem5_ok s5 (X - {(i, l)})"
    unfolding mem5_ok_def
  proof (intro conjI)
    show "\<exists>S A F. mem5_inv s5 S A F {} \<and> X - {(i, l)} = checked_out S A" using 5(2) X' by metis
    show "finite (X - {(i, l)})" using cnt(1) by simp
    have "card X = Suc (card (X - {(i, l)}))" using cnt(1) x by (metis card_Suc_Diff1)
    then show "currentCount s5 = word_of_nat (card (X - {(i, l)}))" using f5(3) fields3(4) cnt(2) by simp
    show "currentOut s5 = (\<Sum>(i, l) \<in> X - {(i, l)}. word_of_nat (nAtom s5 * 2 ^ l))"
      using sum_remove_word [OF cnt(1) x, of "\<lambda>(i, l). word_of_nat (nAtom s * 2 ^ l)"] f5(1,4) fields3(1,5) cnt(3)
      by (simp add: mult.commute)
  qed
  moreover have "kept_data (X - {(i, l)}) s s5"
  proof -
    have "block_atoms (X - {(i, l)}) = atoms S (A - {i})" using X' 4(5) atoms_cong [of "A - {i}" S' S] block_atoms_checked_out by metis
    then show ?thesis using kept_dataI [of "X - {(i, l)}" s3 s5] k5 fields3 by (simp add: kept_data_def)
  qed
  ultimately show ?thesis using r by blast
qed

subsection \<open>The whole allocator\<close>

text \<open>The initial free list: at most one block of each size, from the left.\<close>

definition init_ok :: "Mem5Global \<Rightarrow> (nat \<Rightarrow> nat list) \<Rightarrow> blocks \<Rightarrow> nat \<Rightarrow> nat \<Rightarrow> bool" where
  "init_ok s F S off k \<longleftrightarrow> lists_ok s F \<and> length (zPool s) = nBlock s \<and> length (aCtrl s) = nBlock s \<and> 0 < nAtom s
     \<and> blocks_ok off S \<and> off \<le> nBlock s \<and> nBlock s < off + 2 ^ k \<and> 2 ^ k dvd off \<and> (\<forall>i l. S i = Some l \<longrightarrow> k \<le> l)
     \<and> (\<forall>i j l. S i = Some l \<longrightarrow> S j = Some l \<longrightarrow> i = j) \<and> (\<forall>i l. S i = Some l \<longrightarrow> aCtrl s ! i = CTRL_FREE OR word_of_nat l)
     \<and> (\<forall>l \<le> LOGMAX. set (F l) = {i. S i = Some l})"

lemma init_okD:
  assumes "init_ok s F S off k"
  shows "lists_ok s F" "length (zPool s) = nBlock s" "length (aCtrl s) = nBlock s" "0 < nAtom s" "blocks_ok off S"
    "off \<le> nBlock s" "nBlock s < off + 2 ^ k" "2 ^ k dvd off" "\<forall>i l. S i = Some l \<longrightarrow> k \<le> l"
    "\<forall>i j l. S i = Some l \<longrightarrow> S j = Some l \<longrightarrow> i = j" "\<forall>i l. S i = Some l \<longrightarrow> aCtrl s ! i = CTRL_FREE OR word_of_nat l"
    "\<forall>l \<le> LOGMAX. set (F l) = {i. S i = Some l}"
  using assms unfolding init_ok_def by blast+

lemma init_loop_law:
  "init_ok s F S off k \<Longrightarrow> k \<le> LOGMAX + 1 \<Longrightarrow>
   \<exists>s' o' S' F'. init_loop s off k = Some (s', o') \<and> mem5_inv s' S' {} F' {} \<and> kept {} s s'"
proof (induction k arbitrary: s off S F)
  case 0
  note i = init_okD [OF 0(1)]
  have off: "off = nBlock s" using i(6,7) by simp
  have "coalesced S {}" unfolding coalesced_def
  proof (intro allI impI)
    fix j l assume "S j = Some l" "S (j + 2 ^ l) = Some l"
    then have "j = j + 2 ^ l" using i(10) by blast
    then show "j + 2 ^ l \<in> {}" by simp
  qed
  then have "mem5_inv s S {} F {}" using i(1-5,11,12) off by (intro mem5_invI) auto
  then show ?case using kept_refl by (intro exI [of _ s] exI [of _ off] exI [of _ S] exI [of _ F]) simp
next
  case (Suc k)
  note pr = init_okD [OF Suc.prems(1)]
  have p: "(0 :: nat) < 2 ^ k" by simp
  have kl: "k \<le> LOGMAX" using Suc.prems(2) by simp
  have al: "2 ^ k dvd off" by (rule pow_dvd [OF _ pr(8)]) simp
  have ge: "\<forall>i l. S i = Some l \<longrightarrow> k \<le> l" using pr(9) by (meson Suc_leD)
  show ?case
  proof (cases "off + 2 ^ k \<le> nBlock s")
    case False
    then have "init_ok s F S off k" using pr al ge by (simp add: init_ok_def)
    from Suc.IH [OF this] False kl show ?thesis by (simp add: Let_def)
  next
    case True
    let ?c = "(aCtrl s)[off := word_of_nat k OR CTRL_FREE]"
    let ?s1 = "s\<lparr>aCtrl := ?c\<rparr>" and ?S = "S(off \<mapsto> k)"
    have lt: "off < nBlock s" using True p by linarith
    have out: "i + 2 ^ l \<le> off" if "S i = Some l" for i l using blocks_okD(3) [OF pr(5) that] .
    have none: "S off = None"
    proof (rule ccontr)
      assume "S off \<noteq> None"
      then obtain l where "S off = Some l" by auto
      from out [OF this] show False by simp
    qed
    have nl: "off \<notin> listed F" using pr(12) none by (auto simp: listed_def)
    have ok1: "lists_ok ?s1 F" using pr(1) by (simp add: lists_ok_def)
    obtain z where z: "memsys5Link ?s1 off k = Some (?s1\<lparr>zPool := z, aiFreelist := (aiFreelist s)[k := int off]\<rparr>)"
      "length z = length (zPool s)" "lists_ok (?s1\<lparr>zPool := z, aiFreelist := (aiFreelist s)[k := int off]\<rparr>) (F(k := off # F k))"
      using link_law [OF ok1 kl nl] lt pr(2) by auto
    define s2 where "s2 = ?s1\<lparr>zPool := z, aiFreelist := (aiFreelist s)[k := int off]\<rparr>"
    have step: "init_loop s off (Suc k) = init_loop s2 (off + 2 ^ k) k"
      using True lt pr(3) z(1) by (simp add: set_ctrl_def Let_def s2_def)
    have lk: "l \<noteq> k" if "S i = Some l" for i l using pr(9) that by fastforce
    have "blocks_ok (off + 2 ^ k) ?S"
      unfolding blocks_ok_def
    proof (intro conjI allI impI)
      fix q l assume q: "?S q = Some l"
      show "l \<le> LOGMAX" "2 ^ l dvd q" "q + 2 ^ l \<le> off + 2 ^ k"
        using q kl al blocks_okD(1,2) [OF pr(5), of q l] out [of q l] by (auto split: if_splits intro: trans_le_add1)
      fix j m assume j: "?S j = Some m" "q < j"
      show "q + 2 ^ l \<le> j"
      proof (cases "j = off")
        case True
        then show ?thesis using q j out [of q l] by auto
      next
        case False
        then have "S j = Some m" using j by simp
        moreover from this have "q \<noteq> off" using out [of j m] j(2) by auto
        ultimately show ?thesis using blocks_okD(4) [OF pr(5)] q j(2) by (metis fun_upd_other)
      qed
    next
      fix j assume j: "j < off + 2 ^ k"
      show "\<exists>i l. ?S i = Some l \<and> i \<le> j \<and> j < i + 2 ^ l"
      proof (cases "j < off")
        case True
        then obtain i l where "S i = Some l" "i \<le> j" "j < i + 2 ^ l" using blocks_okD(5) [OF pr(5)] by blast
        then show ?thesis using none by (intro exI [of _ i] exI [of _ l]) auto
      next
        case False
        then show ?thesis using j by (intro exI [of _ off] exI [of _ k]) simp
      qed
    qed
    moreover have "2 ^ k dvd off + 2 ^ k" using al by simp
    moreover have "nBlock s2 < off + 2 ^ k + 2 ^ k" using pr(7) by (simp add: s2_def)
    moreover have "\<forall>i l. ?S i = Some l \<longrightarrow> k \<le> l" using ge by auto
    moreover have "\<forall>i j l. ?S i = Some l \<longrightarrow> ?S j = Some l \<longrightarrow> i = j"
      using pr(10) lk by (metis fun_upd_apply option.inject)
    moreover have "\<forall>i l. ?S i = Some l \<longrightarrow> aCtrl s2 ! i = CTRL_FREE OR word_of_nat l"
      using pr(3,11) lt none by (auto simp: s2_def or.commute nth_list_update)
    moreover have "\<forall>l \<le> LOGMAX. set ((F(k := off # F k)) l) = {i. ?S i = Some l}"
      using pr(12) none lk kl by auto
    moreover have "lists_ok s2 (F(k := off # F k))" "length (zPool s2) = nBlock s2" "length (aCtrl s2) = nBlock s2" "0 < nAtom s2"
      "off + 2 ^ k \<le> nBlock s2" using z(2,3) pr(2-4) True by (simp_all add: s2_def)
    ultimately have "init_ok s2 (F(k := off # F k)) ?S (off + 2 ^ k) k" unfolding init_ok_def by blast
    from Suc.IH [OF this] kl obtain s' o' S' F' where
      s': "init_loop s2 (off + 2 ^ k) k = Some (s', o')" "mem5_inv s' S' {} F' {}" "kept {} s2 s'" by auto
    have "kept {} s s2" by (simp add: kept_def s2_def)
    from kept_trans [OF this s'(3)] s'(1,2) step show ?thesis by metis
  qed
qed

lemma pow2_loop: "m \<le> 2 ^ 30 \<Longrightarrow> \<exists>k. memsys5Log m = Some k \<and> k \<le> 30"
proof -
  assume m: "m \<le> 2 ^ 30"
  obtain k where k: "round_loop 1 0 m = Some (2 ^ k, k)" "0 < k \<longrightarrow> 2 ^ (k - 1) < m" using round_loop_law [of 1 m 0] m by auto
  have "k \<le> 30"
  proof (rule ccontr)
    assume "\<not> k \<le> 30"
    then have "(2 :: int) ^ 30 \<le> 2 ^ (k - 1)" by (intro power_increasing) auto
    then show False using k(2) m \<open>\<not> k \<le> 30\<close> by auto
  qed
  then show ?thesis using k(1) by (simp add: memsys5Log_def)
qed

lemma atom_size_bounds: "0 < n \<Longrightarrow> 0 < atom_size j n \<and> (atom_size j n \<le> n \<or> atom_size j n < 16)"
proof (induction j arbitrary: n)
  case (Suc j)
  show ?case
  proof (cases "8 > n")
    case True
    then show ?thesis using Suc.IH [of "2 * n"] Suc.prems by simp linarith
  qed (use Suc.prems in simp)
qed simp

lemma init_law:
  assumes heap: "length zByte < 2 ^ 31" and m: "mnReq \<le> 2 ^ 30" and s: "currentCount s = 0" "currentOut s = 0"
  shows "\<exists>s'. memsys5Init s (Some zByte) mnReq = Some (SQLITE_OK, s') \<and> mem5_ok s' {} \<and> nAtom s' < 2 ^ 31
    \<and> (\<exists>k. memsys5Log mnReq = Some k \<and> nAtom s' = atom_size 3 (2 ^ k) \<and> nBlock s' = length zByte div (nAtom s' + 1))"
proof -
  obtain k where k: "memsys5Log mnReq = Some k" "k \<le> 30" using pow2_loop [OF m] by blast
  let ?a = "atom_size 3 (2 ^ k)"
  have a: "0 < ?a" "?a < 2 ^ 31"
  proof -
    have le: "(2 :: nat) ^ k \<le> 2 ^ 30" using k(2) by (intro power_increasing) auto
    have b: "0 < ?a \<and> (?a \<le> 2 ^ k \<or> ?a < 16)" by (rule atom_size_bounds) simp
    then show "0 < ?a" by simp
    have "(2 :: nat) ^ 30 < 2 ^ 31" "(16 :: nat) < 2 ^ 31" by simp_all
    with b le show "?a < 2 ^ 31" by linarith
  qed
  define nb where "nb = length zByte div (?a + 1)"
  define s0 where "s0 = s\<lparr>nAtom := ?a, nBlock := nb, zPool := map (\<lambda>i. Bytes (take ?a (drop (i * ?a) zByte))) [0..<nb],
      aCtrl := take nb (drop (nb * ?a) zByte), aiFreelist := replicate (LOGMAX + 1) (- 1)\<rparr>"
  have "nb * (?a + 1) \<le> length zByte" unfolding nb_def by (rule div_times_less_eq_dividend)
  then have nb: "nb + nb * ?a \<le> length zByte" "nb < 2 ^ 31" using heap by (simp_all add: algebra_simps)
  have "init_ok s0 (\<lambda>_. []) (\<lambda>_. None) 0 (LOGMAX + 1)"
    unfolding init_ok_def
  proof (intro conjI)
    show "lists_ok s0 (\<lambda>_. [])" by (simp add: lists_ok_def s0_def nth_replicate del: replicate_Suc)
    show "length (aCtrl s0) = nBlock s0" using nb(1) by (simp add: s0_def)
    show "nBlock s0 < 0 + 2 ^ (LOGMAX + 1)" using nb(2) by (simp add: s0_def LOGMAX_def)
  qed (use a in \<open>simp_all add: s0_def blocks_ok_def\<close>)
  then obtain s' o' S' F' where i: "init_loop s0 0 (LOGMAX + 1) = Some (s', o')" "mem5_inv s' S' {} F' {}" "kept {} s0 s'"
    using init_loop_law [of s0 "\<lambda>_. []" "\<lambda>_. None" 0 "LOGMAX + 1"] by auto
  note f = kept_fields [OF i(3)]
  have "memsys5Init s (Some zByte) mnReq = Some (SQLITE_OK, s')"
    using k(1) i(1) by (simp add: memsys5Init_def Let_def s0_def nb_def del: init_loop.simps replicate_Suc)
  moreover have "checked_out S' {} = {}" by (simp add: checked_out_def)
  then have "mem5_ok s' {}" unfolding mem5_ok_def using i(2) f(3,4) s by (auto simp: s0_def)
  moreover have "nAtom s' = ?a" "nBlock s' = length zByte div (nAtom s' + 1)" using f(1,2) by (simp_all add: s0_def nb_def)
  then have "\<exists>k. memsys5Log mnReq = Some k \<and> nAtom s' = atom_size 3 (2 ^ k) \<and> nBlock s' = length zByte div (nAtom s' + 1)"
    using k(1) by blast
  moreover have "nAtom s' < 2 ^ 31" using \<open>nAtom s' = ?a\<close> a(2) by simp
  ultimately show ?thesis by blast
qed

text \<open>What is checked out lies in the pool and does not overlap.\<close>

lemma mem5_ok_disjoint:
  assumes "mem5_ok s X" "(i, l) \<in> X" "(j, m) \<in> X" "(i, l) \<noteq> (j, m)"
  shows "i + 2 ^ l \<le> nBlock s" "{i..<i + 2 ^ l} \<inter> {j..<j + 2 ^ m} = {}" "i \<noteq> j"
proof -
  obtain S A F where inv: "mem5_inv s S A F {}" and X: "X = checked_out S A" using assms(1) unfolding mem5_ok_def by blast
  have S: "S i = Some l" "S j = Some m" "i \<in> A" "j \<in> A" using assms(2,3) X by (auto simp: checked_out_def)
  then show ij: "i \<noteq> j" using assms(4) by auto
  show "i + 2 ^ l \<le> nBlock s" using blocks_okD(3) [OF mem5_invD(5) [OF inv] S(1)] .
  have "atoms S {i} \<inter> atoms S {j} = {}" by (rule atoms_disjoint [OF mem5_invD(5) [OF inv]]) (use ij in simp)
  moreover have "atoms S {i} = {i..<i + 2 ^ l}" "atoms S {j} = {j..<j + 2 ^ m}" using S by (auto simp: atoms_def)
  ultimately show "{i..<i + 2 ^ l} \<inter> {j..<j + 2 ^ m} = {}" by simp
qed

lemma block_atoms_bound: "mem5_ok s X \<Longrightarrow> k \<in> block_atoms X \<Longrightarrow> k < nBlock s"
  unfolding mem5_ok_def block_atoms_def using blocks_okD(3) mem5_invD(5) by (fastforce simp: checked_out_def)

lemma mem5_ok_size:
  assumes "mem5_ok s X" "(i, l) \<in> X" shows "memsys5Size s (Some i) = Some (int (nAtom s) * 2 ^ l)" "0 < nAtom s" "length (zPool s) = nBlock s"
proof -
  obtain S A F where inv: "mem5_inv s S A F {}" and X: "X = checked_out S A" using assms(1) unfolding mem5_ok_def by blast
  have S: "S i = Some l" "i \<in> A" using assms(2) X by (auto simp: checked_out_def)
  note d = mem5_invD [OF inv]
  have "i < length (aCtrl s)" using blocks_okD(3) [OF d(5) S(1)] d(3) zero_less_power [of "2 :: nat" l] by linarith
  moreover have "aCtrl s ! i = word_of_nat l" using d(8) [OF S(1)] S(2) by simp
  ultimately show "memsys5Size s (Some i) = Some (int (nAtom s) * 2 ^ l)"
    using ctrl_values(1) [of l l] blocks_okD(1) [OF d(5) S(1)] by (simp add: memsys5Size_def)
  show "0 < nAtom s" "length (zPool s) = nBlock s" using d(2,4) by simp_all
qed

text \<open>Copying into a block that is checked out does not disturb the free lists.\<close>

lemma copy_atoms_ok:
  assumes ok: "mem5_ok s X" and x: "(p, l) \<in> X" and q: "q + k \<le> nBlock s" and k: "k \<le> 2 ^ l"
  shows "\<exists>s'. copy_atoms s p q k = Some s' \<and> mem5_ok s' X \<and> nAtom s' = nAtom s \<and> nBlock s' = nBlock s
    \<and> (\<forall>j < nBlock s. j \<notin> {p..<p + 2 ^ l} \<longrightarrow> zPool s' ! j = zPool s ! j) \<and> (\<forall>j < k. zPool s' ! (p + j) = zPool s ! (q + j))"
proof -
  obtain S A F where inv: "mem5_inv s S A F {}" and X: "X = checked_out S A"
    and cnt: "finite X" "currentCount s = word_of_nat (card X)" "currentOut s = (\<Sum>(i, l) \<in> X. word_of_nat (nAtom s * 2 ^ l))"
    using ok unfolding mem5_ok_def by blast
  note d = mem5_invD [OF inv]
  have S: "S p = Some l" "p \<in> A" using x X by (auto simp: checked_out_def)
  have pk: "p + k \<le> nBlock s" using blocks_okD(3) [OF d(5) S(1)] k by simp
  let ?z = "take p (zPool s) @ take k (drop q (zPool s)) @ drop (p + k) (zPool s)"
  have len: "length ?z = length (zPool s)" using pk q d(2) by simp
  have nth: "?z ! j = (if p \<le> j \<and> j < p + k then zPool s ! (q + (j - p)) else zPool s ! j)" if "j < nBlock s" for j
  proof -
    have "min k (length (zPool s) - q) = k" "min (length (zPool s)) p = p" using q pk d(2) by simp_all
    then show ?thesis using that pk q d(2) by (auto simp: nth_append)
  qed
  have same: "?z ! j = zPool s ! j" if "j \<in> listed F" for j
  proof -
    have "j \<notin> {p..<p + 2 ^ l}"
    proof
      assume "j \<in> {p..<p + 2 ^ l}"
      then have "j \<in> atoms S A" using S by (auto simp: atoms_def)
      then show False using atoms_not_listed [OF inv] that by blast
    qed
    moreover have "j < nBlock s" using that lists_okD(3) [OF d(1)] linked_length d(2) unfolding listed_def by fastforce
    ultimately show ?thesis using k nth [of j] by auto
  qed
  let ?s = "s\<lparr>zPool := ?z\<rparr>"
  have "linked ?z (- 1) (F m) (- 1)" if "m \<le> LOGMAX" for m
    using linked_cong [OF len, of "F m" "- 1" "- 1"] same lists_okD(3) [OF d(1) that] that by (auto simp: listed_def)
  then have "lists_ok ?s F" using d(1) by (simp add: lists_ok_def)
  then have "mem5_inv ?s S A F {}" using d len by (intro mem5_invI) simp_all
  then have "mem5_ok ?s X" unfolding mem5_ok_def using X cnt by auto
  moreover have "copy_atoms s p q k = Some ?s" using pk q d(2) by (simp add: copy_atoms_def)
  moreover have "?z ! (p + j) = zPool s ! (q + j)" if "j < k" for j using nth [of "p + j"] that pk by simp
  moreover have "?z ! j = zPool s ! j" if "j < nBlock s" "j \<notin> {p..<p + 2 ^ l}" for j using nth [OF that(1)] that(2) k by auto
  ultimately show ?thesis by (intro exI [of _ ?s]) simp
qed

lemma realloc_law:
  assumes ok: "mem5_ok s X" and x: "(i, l) \<in> X" and n: "int (nAtom s) * 2 ^ l < nBytes" "nBytes < 2 ^ 31" and atom: "nAtom s < 2 ^ 31"
  shows "if nBytes > POW2_MAX then \<exists>s'. memsys5Realloc s (Some i) nBytes = Some (None, s') \<and> mem5_ok s' X \<and> zPool s' = zPool s
    else \<exists>m. fits_log s nBytes m \<and> (if run_free s X m
      then \<exists>j s'. memsys5Realloc s (Some i) nBytes = Some (Some j, s') \<and> mem5_ok s' (insert (j, m) (X - {(i, l)}))
        \<and> kept_data (X - {(i, l)}) s s' \<and> (\<forall>k < 2 ^ l. zPool s' ! (j + k) = zPool s ! (i + k))
      else memsys5Realloc s (Some i) nBytes = None)"
proof -
  note sz = mem5_ok_size [OF ok x]
  have "0 \<le> int (nAtom s) * 2 ^ l" by simp
  then have n0: "0 < nBytes" using n(1) by linarith
  note mal = malloc_law [OF ok n0 n(2) atom]
  have r: "memsys5Realloc s (Some i) nBytes = do {
      (p, s1) \<leftarrow> memsys5MallocUnsafe s nBytes;
      case p of None \<Rightarrow> Some (None, s1)
      | Some j \<Rightarrow> do {
          s2 \<leftarrow> copy_atoms s1 j i (nat (int (nAtom s) * 2 ^ l) div nAtom s1);
          s3 \<leftarrow> memsys5FreeUnsafe s2 i;
          Some (Some j, s3) } }"
    using n n0 sz(1) by (simp add: memsys5Realloc_def)
  show ?thesis
  proof (cases "nBytes > POW2_MAX")
    case True
    then show ?thesis using r mal by (auto simp: only_stats_def)
  next
    case small: False
    then obtain m where fit: "fits_log s nBytes m" and
      c: "if run_free s X m then \<exists>j s1. memsys5MallocUnsafe s nBytes = Some (Some j, s1) \<and> given s X m j s1
        else memsys5MallocUnsafe s nBytes = None" using mal by auto
    show ?thesis
    proof (cases "run_free s X m")
      case False
      then have "memsys5Realloc s (Some i) nBytes = None" using r c by simp
      then show ?thesis using fit small False by auto
    next
      case free: True
      then obtain j s1 where 1: "memsys5MallocUnsafe s nBytes = Some (Some j, s1)" "given s X m j s1" using c by auto
      then have m: "fits_log s nBytes m" "mem5_ok s1 (insert (j, m) X)" "kept_data X s s1" "{j..<j + 2 ^ m} \<inter> block_atoms X = {}"
        using fit by (simp_all add: given_def)
    have a1: "nAtom s1 = nAtom s" "nBlock s1 = nBlock s" using m(3) by (simp_all add: kept_data_def)
    have xi: "(i, l) \<in> insert (j, m) X" using x by simp
    have k: "nat (int (nAtom s) * 2 ^ l) div nAtom s1 = 2 ^ l"
    proof -
      have "nat (int (nAtom s) * 2 ^ l) = nAtom s * 2 ^ l" by (simp add: nat_mult_distrib nat_power_eq)
      then show ?thesis using a1 sz(2) by simp
    qed
    have lm: "(2 :: nat) ^ l \<le> 2 ^ m"
    proof (rule ccontr)
      assume "\<not> (2 :: nat) ^ l \<le> 2 ^ m"
      then have "(2 :: nat) ^ m \<le> 2 ^ l" by simp
      then have "(2 :: int) ^ m \<le> 2 ^ l" by (metis of_nat_le_iff of_nat_numeral of_nat_power)
      then have "int (nAtom s) * 2 ^ m \<le> int (nAtom s) * 2 ^ l" by (rule mult_left_mono) simp
      then show False using m(1) n(1) by (simp add: fits_log_def)
    qed
    have iX: "{i..<i + 2 ^ l} \<subseteq> block_atoms X" using x by (auto simp: block_atoms_def)
    have "i \<in> {i..<i + 2 ^ l}" by simp
    then have "i \<notin> {j..<j + 2 ^ m}" using m(4) iX by blast
    then have ij: "(i, l) \<noteq> (j, m)" by auto
    have iB: "i + 2 ^ l \<le> nBlock s1" using mem5_ok_disjoint(1) [OF m(2) xi insertI1 ij(1)] .
    obtain s2 where s2: "copy_atoms s1 j i (2 ^ l) = Some s2" "mem5_ok s2 (insert (j, m) X)" "nAtom s2 = nAtom s1" "nBlock s2 = nBlock s1"
      "\<forall>k < nBlock s1. k \<notin> {j..<j + 2 ^ m} \<longrightarrow> zPool s2 ! k = zPool s1 ! k" "\<forall>k < 2 ^ l. zPool s2 ! (j + k) = zPool s1 ! (i + k)"
      using copy_atoms_ok [OF m(2) insertI1 iB lm] by blast
    obtain s3 where s3: "memsys5FreeUnsafe s2 i = Some s3" "mem5_ok s3 (insert (j, m) X - {(i, l)})" "kept_data (insert (j, m) X - {(i, l)}) s2 s3"
      using free_law [OF s2(2) xi] by blast
    have set: "insert (j, m) X - {(i, l)} = insert (j, m) (X - {(i, l)})" using ij(1) by auto
    have "kept_data (X - {(i, l)}) s s3"
      unfolding kept_data_def
    proof (intro conjI ballI)
      fix k assume k: "k \<in> block_atoms (X - {(i, l)})"
      then have kX: "k \<in> block_atoms X" "k \<in> block_atoms (insert (j, m) X - {(i, l)})" using set by (auto simp: block_atoms_def)
      then have "k \<notin> {j..<j + 2 ^ m}" using m(4) by auto
      moreover have "k < nBlock s1" using block_atoms_bound [OF m(2)] kX(1) by (auto simp: block_atoms_def)
      ultimately show "zPool s3 ! k = zPool s ! k" using s3(3) s2(5) m(3) kX by (simp add: kept_data_def)
    qed (use s3(3) s2(3,4) a1 in \<open>simp_all add: kept_data_def\<close>)
    moreover have "zPool s3 ! (j + k) = zPool s ! (i + k)" if kl: "k < 2 ^ l" for k
    proof -
      have "j + k \<in> block_atoms (insert (j, m) X - {(i, l)})" unfolding set block_atoms_def using less_le_trans [OF kl lm] by auto
      moreover have "i + k \<in> block_atoms X" using iX kl by auto
      ultimately show ?thesis using s3(3) s2(6) m(3) kl by (simp add: kept_data_def)
    qed
    ultimately show ?thesis using r 1(1) k s2(1) s3(1,2) set fit free small by auto
    qed
  qed
qed

subsection \<open>Programs over an allocator\<close>

text \<open>A client allocates, and releases the \<open>k\<close>-th of the blocks it holds (with the sizes asked for).\<close>

datatype alloc_cmd = Alloc int | Release nat

fun alloc_run :: "('s \<Rightarrow> int \<Rightarrow> ('p option \<times> 's) option) \<Rightarrow> ('s \<Rightarrow> 'p \<Rightarrow> 's option) \<Rightarrow> 's \<Rightarrow> ('p \<times> int) list \<Rightarrow> alloc_cmd list
    \<Rightarrow> ('s \<times> ('p \<times> int) list) option" where
  "alloc_run m f s L [] = Some (s, L)"
| "alloc_run m f s L (Alloc n # cs) = do {
     (p, s) \<leftarrow> m s n;
     alloc_run m f s (case p of None \<Rightarrow> L | Some i \<Rightarrow> L @ [(i, n)]) cs }"
| "alloc_run m f s L (Release k # cs) =
     (if k < length L then do { s \<leftarrow> f s (fst (L ! k)); alloc_run m f s (take k L @ drop (Suc k) L) cs }
      else alloc_run m f s L cs)"

lemma alloc_run_append:
  "alloc_run m f s L (cs @ ds) = do { (s, L) \<leftarrow> alloc_run m f s L cs; alloc_run m f s L ds }"
  by (induction m f s L cs rule: alloc_run.induct) (auto split: Option.bind_splits)

definition sizes_ok :: "alloc_cmd list \<Rightarrow> bool" where
  "sizes_ok cs \<longleftrightarrow> (\<forall>c \<in> set cs. case c of Alloc n \<Rightarrow> - (2 ^ 31) \<le> n \<and> n < 2 ^ 31 | Release _ \<Rightarrow> True)"

text \<open>The first \<open>q\<close> blocks that are held are not released.\<close>

definition spares :: "nat \<Rightarrow> alloc_cmd list \<Rightarrow> bool" where
  "spares q cs \<longleftrightarrow> (\<forall>c \<in> set cs. case c of Alloc _ \<Rightarrow> True | Release k \<Rightarrow> q \<le> k)"

lemma program_simps [simp]: "sizes_ok []" "sizes_ok (Alloc n # cs) \<longleftrightarrow> - (2 ^ 31) \<le> n \<and> n < 2 ^ 31 \<and> sizes_ok cs" "sizes_ok (Release k # cs) = sizes_ok cs"
  "spares q []" "spares q (Alloc n # cs) = spares q cs" "spares q (Release k # cs) \<longleftrightarrow> q \<le> k \<and> spares q cs"
  by (auto simp: sizes_ok_def spares_def)

lemma sizes_ok_append [simp]: "sizes_ok (cs @ ds) \<longleftrightarrow> sizes_ok cs \<and> sizes_ok ds"
  by (auto simp: sizes_ok_def)

text \<open>
  A contract: a request is refused with a null pointer, or it is served when there is \<open>room\<close> for it
  beside the blocks that are held; without room the call is undefined.
\<close>

locale allocator =
  fixes holds :: "'s \<Rightarrow> ('p \<times> int) list \<Rightarrow> bool"
    and malloc :: "'s \<Rightarrow> int \<Rightarrow> ('p option \<times> 's) option"
    and free :: "'s \<Rightarrow> 'p \<Rightarrow> 's option"
    and cells :: "'s \<Rightarrow> 'p \<Rightarrow> nat set"
    and contents :: "'s \<Rightarrow> 'p \<Rightarrow> 'd"
    and refuses :: "int \<Rightarrow> bool"
    and room :: "'s \<Rightarrow> ('p \<times> int) list \<Rightarrow> int \<Rightarrow> bool"
  assumes malloc_refuses: "holds s L \<Longrightarrow> n < 2 ^ 31 \<Longrightarrow> refuses n \<Longrightarrow> \<exists>s'. malloc s n = Some (None, s')
      \<and> holds s' L \<and> (\<forall>(j, m) \<in> set L. contents s' j = contents s j)"
    and malloc_gives: "holds s L \<Longrightarrow> n < 2 ^ 31 \<Longrightarrow> \<not> refuses n \<Longrightarrow> room s L n \<Longrightarrow> \<exists>i s'. malloc s n = Some (Some i, s')
      \<and> holds s' (L @ [(i, n)]) \<and> (\<forall>(j, m) \<in> set L. contents s' j = contents s j)"
    and malloc_fails: "holds s L \<Longrightarrow> n < 2 ^ 31 \<Longrightarrow> \<not> refuses n \<Longrightarrow> \<not> room s L n \<Longrightarrow> malloc s n = None"
    and free_holds: "holds s L \<Longrightarrow> k < length L \<Longrightarrow> \<exists>s'. free s (fst (L ! k)) = Some s'
      \<and> holds s' (take k L @ drop (Suc k) L) \<and> (\<forall>(j, m) \<in> set (take k L @ drop (Suc k) L). contents s' j = contents s j)"
    and apart: "holds s L \<Longrightarrow> j < k \<Longrightarrow> k < length L \<Longrightarrow> cells s (fst (L ! j)) \<inter> cells s (fst (L ! k)) = {}"
begin

lemma malloc_holds:
  assumes "holds s L" "n < 2 ^ 31" "malloc s n = Some (p, s')"
  shows "holds s' (case p of None \<Rightarrow> L | Some i \<Rightarrow> L @ [(i, n)]) \<and> (\<forall>(j, m) \<in> set L. contents s' j = contents s j)"
  using malloc_refuses [OF assms(1,2)] malloc_gives [OF assms(1,2)] malloc_fails [OF assms(1,2)] assms(3)
  by (cases "refuses n"; cases "room s L n") auto

lemma run_holds: "holds s L \<Longrightarrow> sizes_ok cs \<Longrightarrow> alloc_run malloc free s L cs = Some (s', L') \<Longrightarrow> holds s' L'"
proof (induction cs arbitrary: s L)
  case (Cons c cs)
  show ?case
  proof (cases c)
    case (Alloc n)
    then obtain p s1 where 1: "malloc s n = Some (p, s1)" "alloc_run malloc free s1 (case p of None \<Rightarrow> L | Some i \<Rightarrow> L @ [(i, n)]) cs = Some (s', L')"
      using Cons.prems(3) by (auto simp: bind_eq_Some_conv)
    then show ?thesis using malloc_holds [OF Cons.prems(1) _ 1(1)] Cons.IH [OF _ _ 1(2)] Cons.prems(2) Alloc by simp
  next
    case (Release k)
    then show ?thesis using free_holds [OF Cons.prems(1), of k] Cons.IH Cons.prems by (cases "k < length L") fastforce+
  qed
qed simp

lemma run_None:
  assumes "holds s L" "sizes_ok cs"
  shows "alloc_run malloc free s L cs = None \<longleftrightarrow>
    (\<exists>cs1 n cs2 s1 L1. cs = cs1 @ Alloc n # cs2 \<and> alloc_run malloc free s L cs1 = Some (s1, L1) \<and> \<not> refuses n \<and> \<not> room s1 L1 n)"
    (is "_ \<longleftrightarrow> ?X s L cs")
proof
  assume "?X s L cs"
  then obtain cs1 n cs2 s1 L1 where x: "cs = cs1 @ Alloc n # cs2" "alloc_run malloc free s L cs1 = Some (s1, L1)" "\<not> refuses n" "\<not> room s1 L1 n"
    by blast
  have "malloc s1 n = None"
    by (rule malloc_fails [OF run_holds [OF assms(1) _ x(2)]]) (use assms(2) x in auto)
  then show "alloc_run malloc free s L cs = None" using x(1,2) by (simp add: alloc_run_append)
next
  assume "alloc_run malloc free s L cs = None"
  then show "?X s L cs" using assms
  proof (induction cs arbitrary: s L)
    case (Cons c cs)
    have step: "?X s L (c # cs)" if "alloc_run malloc free s L [c] = Some (s1, L1)" "holds s1 L1" for s1 L1
    proof -
      have "alloc_run malloc free s1 L1 cs = None" using Cons.prems(1) that(1) alloc_run_append [of malloc free s L "[c]" cs] by simp
      from Cons.IH [OF this that(2)] Cons.prems(3) obtain cs1 n cs2 s2 L2 where
        x: "cs = cs1 @ Alloc n # cs2" "alloc_run malloc free s1 L1 cs1 = Some (s2, L2)" "\<not> refuses n" "\<not> room s2 L2 n"
        by (cases c) auto
      then have "c # cs = (c # cs1) @ Alloc n # cs2" "alloc_run malloc free s L (c # cs1) = Some (s2, L2)"
        using that(1) alloc_run_append [of malloc free s L "[c]" cs1] by simp_all
      then show ?thesis using x(3,4) by blast
    qed
    show ?case
    proof (cases "alloc_run malloc free s L [c]")
      case (Some q)
      then obtain s1 L1 where q: "alloc_run malloc free s L [c] = Some (s1, L1)" by (cases q) simp
      moreover have "holds s1 L1" by (rule run_holds [OF Cons.prems(2) _ q]) (use Cons.prems(3) in \<open>cases c; simp\<close>)
      ultimately show ?thesis by (rule step)
    next
      case None
      show ?thesis
      proof (cases c)
        case (Alloc n)
        then have "malloc s n = None" "n < 2 ^ 31" using None Cons.prems(3) by (auto split: Option.bind_splits prod.splits)
        then have "\<not> refuses n" "\<not> room s L n"
          using malloc_refuses [OF Cons.prems(2)] malloc_gives [OF Cons.prems(2)] by fastforce+
        then show ?thesis using Alloc by (intro exI [of _ "[]"] exI [of _ n] exI [of _ cs] exI [of _ s] exI [of _ L]) simp
      next
        case (Release k)
        then show ?thesis using None free_holds [OF Cons.prems(2), of k] by (cases "k < length L") fastforce+
      qed
    qed
  qed simp
qed

lemma run_safe: "holds s L \<Longrightarrow> sizes_ok cs \<Longrightarrow> alloc_run malloc free s L cs = Some (s', L') \<Longrightarrow>
    holds s' L' \<and> (\<forall>k < length L'. \<forall>j < k. cells s' (fst (L' ! j)) \<inter> cells s' (fst (L' ! k)) = {})"
  using run_holds [of s L cs s' L'] apart by blast

lemma run_spares:
  "holds s L \<Longrightarrow> sizes_ok cs \<Longrightarrow> spares q cs \<Longrightarrow> q \<le> length L \<Longrightarrow> alloc_run malloc free s L cs = Some (s', L') \<Longrightarrow>
   q \<le> length L' \<and> take q L' = take q L \<and> (\<forall>(j, m) \<in> set (take q L). contents s' j = contents s j)"
proof (induction cs arbitrary: s L)
  case Nil
  then show ?case by simp
next
  case (Cons c cs)
  have sub: "set (take q L) \<subseteq> set L" by (rule set_take_subset)
  show ?case
  proof (cases c)
    case (Alloc n)
    then obtain p s1 where r: "malloc s n = Some (p, s1)"
      "alloc_run malloc free s1 (case p of None \<Rightarrow> L | Some i \<Rightarrow> L @ [(i, n)]) cs = Some (s', L')"
      using Cons.prems(5) by (auto simp: bind_eq_Some_conv)
    have 1: "holds s1 (case p of None \<Rightarrow> L | Some i \<Rightarrow> L @ [(i, n)])" "\<forall>(j, m) \<in> set L. contents s1 j = contents s j"
      using malloc_holds [OF Cons.prems(1) _ r(1)] Cons.prems(2) Alloc by simp_all
    let ?L = "case p of None \<Rightarrow> L | Some i \<Rightarrow> L @ [(i, n)]"
    have "take q ?L = take q L" "q \<le> length ?L" using Cons.prems(4) by (auto split: option.split)
    then show ?thesis using Cons.IH [OF 1(1) _ _ _ r(2)] Cons.prems(2,3) Alloc 1(2) sub by fastforce
  next
    case (Release k)
    show ?thesis
    proof (cases "k < length L")
      case True
      let ?L = "take k L @ drop (Suc k) L"
      obtain s1 where 1: "free s (fst (L ! k)) = Some s1" "holds s1 ?L" "\<forall>(j, m) \<in> set ?L. contents s1 j = contents s j"
        using free_holds [OF Cons.prems(1) True] by blast
      have q: "q \<le> k" using Release Cons.prems(3) by simp
      then have t: "take q ?L = take q L" "q \<le> length ?L" using True by (simp_all add: min_def)
      then have "set (take q L) \<subseteq> set ?L" by (metis set_take_subset)
      then show ?thesis using Cons.IH [OF 1(2)] Cons.prems(2,3,5) Release True 1(1,3) t by fastforce
    next
      case False
      then show ?thesis using Cons Release by simp
    qed
  qed
qed

end

subsection \<open>The buddy allocator as an allocator\<close>

lemma fits_log_unique: "fits_log s n l \<Longrightarrow> 0 < nAtom s \<Longrightarrow> fits_log s n l' \<Longrightarrow> l' = l"
proof -
  have "False" if "fits_log s n a" "fits_log s n b" "a < b" for a b
  proof -
    have "(2 :: int) ^ a \<le> 2 ^ (b - 1)" using that(3) by (intro power_increasing) auto
    then have "int (nAtom s) * 2 ^ a \<le> int (nAtom s) * 2 ^ (b - 1)" by (rule mult_left_mono) simp
    then show False using that by (simp add: fits_log_def)
  qed
  then show "fits_log s n l \<Longrightarrow> fits_log s n l' \<Longrightarrow> l' = l" by (meson linorder_neqE_nat)
qed

lemma mem5_ok_size0: "mem5_ok s X \<Longrightarrow> 0 < nAtom s"
  unfolding mem5_ok_def using mem5_invD(4) by blast

definition mem5_holds :: "Mem5Global \<Rightarrow> (nat \<times> int) list \<Rightarrow> bool" where
  "mem5_holds s L \<longleftrightarrow> nAtom s < 2 ^ 31 \<and> (\<exists>B. distinct B \<and> mem5_ok s (set B)
     \<and> list_all2 (\<lambda>(i, n) (j, l). i = j \<and> fits_log s n l) L B)"

definition mem5_cells :: "Mem5Global \<Rightarrow> nat \<Rightarrow> nat set" where
  "mem5_cells s i = {i..<i + 2 ^ block_log (aCtrl s ! i)}"

text \<open>Malloc refuses what is not positive or over POW2_MAX; it needs a free aligned run of the smallest size that fits.\<close>

definition mem5_refuses :: "int \<Rightarrow> bool" where "mem5_refuses n \<longleftrightarrow> n \<le> 0 \<or> POW2_MAX < n"

definition mem5_room :: "Mem5Global \<Rightarrow> (nat \<times> int) list \<Rightarrow> int \<Rightarrow> bool" where
  "mem5_room s L n \<longleftrightarrow> (\<exists>l i. fits_log s n l \<and> 2 ^ l dvd i \<and> i + 2 ^ l \<le> nBlock s
     \<and> (\<forall>(j, m) \<in> set L. {i..<i + 2 ^ l} \<inter> mem5_cells s j = {}))"

definition mem5_contents :: "Mem5Global \<Rightarrow> nat \<Rightarrow> atom list" where
  "mem5_contents s i = map ((!) (zPool s)) [i..<i + 2 ^ block_log (aCtrl s ! i)]"

lemma mem5_ok_ctrl:
  assumes "mem5_ok s X" "(i, l) \<in> X" shows "block_log (aCtrl s ! i) = l" "i < length (aCtrl s)"
proof -
  obtain S A F where inv: "mem5_inv s S A F {}" and X: "X = checked_out S A" using assms(1) unfolding mem5_ok_def by blast
  have S: "S i = Some l" "i \<in> A" using assms(2) X by (auto simp: checked_out_def)
  note d = mem5_invD [OF inv]
  show "i < length (aCtrl s)" using blocks_okD(3) [OF d(5) S(1)] d(3) zero_less_power [of "2 :: nat" l] by linarith
  have "aCtrl s ! i = word_of_nat l" using d(8) [OF S(1)] S(2) by simp
  then show "block_log (aCtrl s ! i) = l" using ctrl_values(1) [of l l] blocks_okD(1) [OF d(5) S(1)] by simp
qed

lemma mem5_contents_kept:
  assumes "mem5_ok s X" "mem5_ok s' X'" "kept_data Y s s'" "(i, l) \<in> X" "(i, l) \<in> X'" "(i, l) \<in> Y"
  shows "mem5_contents s' i = mem5_contents s i"
proof -
  have "{i..<i + 2 ^ l} \<subseteq> block_atoms Y" using assms(6) by (auto simp: block_atoms_def)
  then show ?thesis
    using mem5_ok_ctrl(1) [OF assms(1,4)] mem5_ok_ctrl(1) [OF assms(2,5)] assms(3)
    by (auto simp: mem5_contents_def kept_data_def)
qed

lemma only_stats_kept: "only_stats s s' \<Longrightarrow> kept_data X s s'"
  by (simp add: only_stats_def kept_data_def)

lemma remove_nth:
  assumes "distinct B" "k < length B"
  shows "set (take k B @ drop (Suc k) B) = set B - {B ! k}" "distinct (take k B @ drop (Suc k) B)"
proof -
  have e: "B = take k B @ B ! k # drop (Suc k) B" using assms(2) by (rule id_take_nth_drop)
  have d: "distinct (take k B @ B ! k # drop (Suc k) B)" using e assms(1) by metis
  have "set B = set (take k B @ B ! k # drop (Suc k) B)" using e by metis
  then show "set (take k B @ drop (Suc k) B) = set B - {B ! k}" using d by auto
  show "distinct (take k B @ drop (Suc k) B)" using d by simp
qed

lemma holds_elem: "list_all2 (\<lambda>(i, n) (j, l). i = j \<and> P n l) L B \<Longrightarrow> (i, n) \<in> set L \<Longrightarrow> \<exists>l. (i, l) \<in> set B"
  by (fastforce simp: list_all2_conv_all_nth in_set_conv_nth)

lemma held_elem: "list_all2 (\<lambda>(i, n) (j, l). i = j \<and> P n l) L B \<Longrightarrow> (i, l) \<in> set B \<Longrightarrow> \<exists>n. (i, n) \<in> set L"
  by (fastforce simp: list_all2_conv_all_nth in_set_conv_nth)

lemma fits_log_cong: "nAtom s' = nAtom s \<Longrightarrow> fits_log s' = fits_log s"
  by (simp add: fits_log_def fun_eq_iff)

lemma room_run_free:
  assumes ok: "mem5_ok s (set B)" and B: "list_all2 (\<lambda>(i, n) (j, l). i = j \<and> fits_log s n l) L B"
  shows "mem5_room s L n \<longleftrightarrow> (\<exists>l. fits_log s n l \<and> run_free s (set B) l)"
proof -
  have cells: "mem5_cells s i = {i..<i + 2 ^ l}" if "(i, l) \<in> set B" for i l
    using mem5_ok_ctrl(1) [OF ok that] by (simp add: mem5_cells_def)
  have "(\<forall>(j, m) \<in> set L. J \<inter> mem5_cells s j = {}) \<longleftrightarrow> J \<inter> block_atoms (set B) = {}" for J
  proof
    assume a: "\<forall>(j, m) \<in> set L. J \<inter> mem5_cells s j = {}"
    have "J \<inter> {i..<i + 2 ^ l} = {}" if il: "(i, l) \<in> set B" for i l
    proof -
      obtain m where "(i, m) \<in> set L" using held_elem [OF B il] by blast
      then show ?thesis using a unfolding cells [OF il, symmetric] by auto
    qed
    then show "J \<inter> block_atoms (set B) = {}" by (auto simp: block_atoms_def)
  next
    assume a: "J \<inter> block_atoms (set B) = {}"
    show "\<forall>(j, m) \<in> set L. J \<inter> mem5_cells s j = {}"
    proof (clarify)
      fix j m assume "(j, m) \<in> set L"
      then obtain l where l: "(j, l) \<in> set B" using holds_elem [OF B] by blast
      then have "mem5_cells s j \<subseteq> block_atoms (set B)" unfolding cells [OF l] block_atoms_def by blast
      then show "J \<inter> mem5_cells s j = {}" using a by blast
    qed
  qed
  then show ?thesis by (auto simp: mem5_room_def run_free_def)
qed

lemma mem5_holdsD:
  assumes "mem5_holds s L"
  obtains B where "distinct B" "mem5_ok s (set B)" "nAtom s < 2 ^ 31" "list_all2 (\<lambda>(i, n) (j, l). i = j \<and> fits_log s n l) L B"
  using assms unfolding mem5_holds_def by blast

interpretation mem5: allocator mem5_holds memsys5Malloc "\<lambda>s p. memsys5Free s (Some p)" mem5_cells mem5_contents mem5_refuses mem5_room
proof unfold_locales
  fix s L and n :: int
  assume h: "mem5_holds s L" and n: "n < 2 ^ 31" "mem5_refuses n"
  obtain B where B: "distinct B" "mem5_ok s (set B)" "nAtom s < 2 ^ 31"
    "list_all2 (\<lambda>(i, n) (j, l). i = j \<and> fits_log s n l) L B" using mem5_holdsD [OF h] .
  show "\<exists>s'. memsys5Malloc s n = Some (None, s') \<and> mem5_holds s' L \<and> (\<forall>(j, m) \<in> set L. mem5_contents s' j = mem5_contents s j)"
  proof (cases "n \<le> 0")
    case True
    then show ?thesis using h by (simp add: memsys5Malloc_def)
  next
    case False
    then obtain s' where 1: "memsys5MallocUnsafe s n = Some (None, s')" "mem5_ok s' (set B)" "only_stats s s'"
      using malloc_law [OF B(2) _ n(1) B(3)] n(2) by (auto simp: mem5_refuses_def)
    then have k: "kept_data (set B) s s'" "nAtom s' = nAtom s" using only_stats_kept by (auto simp: only_stats_def)
    have "mem5_holds s' L" unfolding mem5_holds_def fits_log_cong [OF k(2)] using B k 1(2) by auto
    moreover have "\<forall>(j, m) \<in> set L. mem5_contents s' j = mem5_contents s j"
      using mem5_contents_kept [OF B(2) 1(2) k(1)] holds_elem [OF B(4)] by blast
    ultimately show ?thesis using 1(1) False by (simp add: memsys5Malloc_def)
  qed
next
  fix s L and n :: int
  assume h: "mem5_holds s L" and n: "n < 2 ^ 31" "\<not> mem5_refuses n" and room: "mem5_room s L n"
  obtain B where B: "distinct B" "mem5_ok s (set B)" "nAtom s < 2 ^ 31"
    "list_all2 (\<lambda>(i, n) (j, l). i = j \<and> fits_log s n l) L B" using mem5_holdsD [OF h] .
  have n': "0 < n" "\<not> n > POW2_MAX" using n(2) by (auto simp: mem5_refuses_def)
  obtain l i s' where 1: "fits_log s n l" "memsys5MallocUnsafe s n = Some (Some i, s')" "given s (set B) l i s'"
    using malloc_law [OF B(2) n'(1) n(1) B(3)] n'(2) room fits_log_unique [OF _ mem5_ok_size0 [OF B(2)]]
    unfolding room_run_free [OF B(2,4)] by (metis (no_types))
  then have k: "{i..<i + 2 ^ l} \<inter> block_atoms (set B) = {}" "mem5_ok s' (insert (i, l) (set B))" "kept_data (set B) s s'"
    by (simp_all add: given_def)
  have a: "nAtom s' = nAtom s" using k(3) by (simp add: kept_data_def)
  have "(i, l) \<notin> set B"
  proof
    assume "(i, l) \<in> set B"
    then have "i \<in> block_atoms (set B)" by (force simp: block_atoms_def)
    moreover have "i \<in> {i..<i + 2 ^ l}" by simp
    ultimately show False using k(1) by blast
  qed
  moreover have "list_all2 (\<lambda>(i, n) (j, l). i = j \<and> fits_log s' n l) (L @ [(i, n)]) (B @ [(i, l)])"
    using B(4) 1(1) unfolding fits_log_cong [OF a] by (simp add: list_all2_appendI)
  ultimately have "mem5_holds s' (L @ [(i, n)])" unfolding mem5_holds_def using B(1,3) k(2) a
    by (intro conjI exI [of _ "B @ [(i, l)]"]) auto
  moreover have "\<forall>(j, m) \<in> set L. mem5_contents s' j = mem5_contents s j"
    using mem5_contents_kept [OF B(2) k(2,3)] holds_elem [OF B(4)] by blast
  ultimately show "\<exists>i s'. memsys5Malloc s n = Some (Some i, s') \<and> mem5_holds s' (L @ [(i, n)])
      \<and> (\<forall>(j, m) \<in> set L. mem5_contents s' j = mem5_contents s j)" using 1(2) n' by (simp add: memsys5Malloc_def)
next
  fix s L and n :: int
  assume h: "mem5_holds s L" and n: "n < 2 ^ 31" "\<not> mem5_refuses n" and room: "\<not> mem5_room s L n"
  obtain B where B: "distinct B" "mem5_ok s (set B)" "nAtom s < 2 ^ 31"
    "list_all2 (\<lambda>(i, n) (j, l). i = j \<and> fits_log s n l) L B" using mem5_holdsD [OF h] .
  have n': "0 < n" "\<not> n > POW2_MAX" using n(2) by (auto simp: mem5_refuses_def)
  have "memsys5MallocUnsafe s n = None"
    using malloc_law [OF B(2) n'(1) n(1) B(3)] n'(2) room unfolding room_run_free [OF B(2,4)] by (metis (no_types))
  then show "memsys5Malloc s n = None" using n' by (simp add: memsys5Malloc_def)
next
  fix s L k
  assume h: "mem5_holds s L" and k: "k < length L"
  obtain B where B: "distinct B" "mem5_ok s (set B)" "nAtom s < 2 ^ 31"
    "list_all2 (\<lambda>(i, n) (j, l). i = j \<and> fits_log s n l) L B" using mem5_holdsD [OF h] .
  have lB: "k < length B" using B(4) k by (simp add: list_all2_lengthD)
  obtain i l where Bk: "B ! k = (i, l)" by (cases "B ! k")
  have Lk: "fst (L ! k) = i" using list_all2_nthD [OF B(4) k] Bk by (auto split: prod.splits)
  have mem: "(i, l) \<in> set B" using lB Bk by (metis nth_mem)
  from free_law [OF B(2) mem] obtain s' where
    1: "memsys5FreeUnsafe s i = Some s'" "mem5_ok s' (set B - {(i, l)})" "kept_data (set B - {(i, l)}) s s'" by blast
  let ?L = "take k L @ drop (Suc k) L" and ?B = "take k B @ drop (Suc k) B"
  have set: "set ?B = set B - {(i, l)}" using remove_nth(1) [OF B(1) lB] Bk by simp
  have a: "nAtom s' = nAtom s" using 1(3) by (simp add: kept_data_def)
  have all: "list_all2 (\<lambda>(i, n) (j, l). i = j \<and> fits_log s' n l) ?L ?B"
    unfolding fits_log_cong [OF a] using B(4) by (intro list_all2_appendI) simp_all
  have "distinct ?B" using remove_nth(2) [OF B(1) lB] .
  then have "mem5_holds s' ?L" unfolding mem5_holds_def using 1(2) all set B(3) a by metis
  moreover have "\<forall>(j, m) \<in> set ?L. mem5_contents s' j = mem5_contents s j"
  proof (clarify)
    fix j m assume "(j, m) \<in> set ?L"
    then obtain l' where "(j, l') \<in> set ?B" using holds_elem [OF all] by blast
    then have "(j, l') \<in> set B - {(i, l)}" using set by blast
    then show "mem5_contents s' j = mem5_contents s j" using mem5_contents_kept [OF B(2) 1(2,3)] by blast
  qed
  ultimately show "\<exists>s'. memsys5Free s (Some (fst (L ! k))) = Some s' \<and> mem5_holds s' ?L
      \<and> (\<forall>(j, m) \<in> set ?L. mem5_contents s' j = mem5_contents s j)"
    using 1(1) Lk by (simp add: memsys5Free_def)
next
  fix s L j k
  assume h: "mem5_holds s L" and jk: "j < k" "k < length L"
  then obtain B where B: "distinct B" "mem5_ok s (set B)"
    "list_all2 (\<lambda>(i, n) (j, l). i = j \<and> fits_log s n l) L B" unfolding mem5_holds_def by blast
  have len: "length B = length L" using list_all2_lengthD [OF B(3)] by simp
  obtain i l i' l' where b: "B ! j = (i, l)" "B ! k = (i', l')" by (metis surj_pair)
  have f: "fst (L ! j) = i" "fst (L ! k) = i'"
    using list_all2_nthD [OF B(3), of j] list_all2_nthD [OF B(3), of k] jk b by (auto split: prod.splits)
  have m: "(i, l) \<in> set B" "(i', l') \<in> set B" "(i, l) \<noteq> (i', l')" using B(1) jk len b nth_mem nth_eq_iff_index_eq
    by (metis less_trans, metis, metis less_trans less_irrefl)
  show "mem5_cells s (fst (L ! j)) \<inter> mem5_cells s (fst (L ! k)) = {}"
    using mem5_ok_disjoint(2) [OF B(2) m] mem5_ok_ctrl(1) [OF B(2) m(1)] mem5_ok_ctrl(1) [OF B(2) m(2)] f
    by (simp add: mem5_cells_def)
qed

subsection \<open>The correctness of the allocator\<close>

lemma mem5_init_holds:
  assumes "length heap < 2 ^ 31" "mnReq \<le> 2 ^ 30" "currentCount s0 = 0" "currentOut s0 = 0"
    "memsys5Init s0 (Some heap) mnReq = Some (SQLITE_OK, s)"
  shows "mem5_holds s []"
  using init_law [OF assms(1-4)] assms(5) unfolding mem5_holds_def by (auto intro!: exI [of _ "[]"])

text \<open>The state before initialization: the static variable, with its memory all zero.\<close>

definition mem5_zero :: Mem5Global where
  "mem5_zero = \<lparr>nAtom = 0, nBlock = 0, zPool = [], nAlloc = 0, totalAlloc = 0, totalExcess = 0, currentOut = 0, currentCount = 0,
     maxOut = 0, maxCount = 0, maxRequest = 0, aiFreelist = replicate (LOGMAX + 1) 0, aCtrl = []\<rparr>"

lemma mem5_zero_simps [simp]: "currentCount mem5_zero = 0" "currentOut mem5_zero = 0"
  by (simp_all add: mem5_zero_def)

text \<open>A pool of 58 atoms of 16 bytes, from which a block of one atom and one of 8 atoms are taken.\<close>

lemma small_pool:
  obtains s where "memsys5Init mem5_zero (Some (replicate 1000 0)) 16 = Some (SQLITE_OK, s)" "mem5_holds s []" "mem5_ok s {}"
    "nAtom s = 16" "nBlock s = 58"
proof -
  from init_law [of "replicate 1000 0" 16 mem5_zero] obtain s k where
    s: "memsys5Init mem5_zero (Some (replicate 1000 0)) 16 = Some (SQLITE_OK, s)" "mem5_ok s {}" "nAtom s < 2 ^ 31"
      "memsys5Log 16 = Some k" "nAtom s = atom_size 3 (2 ^ k)" "nBlock s = 1000 div (nAtom s + 1)" by auto
  have "memsys5Log 16 = Some 4" by (simp add: memsys5Log_def round_loop.simps)
  then have a: "nAtom s = 16" "nBlock s = 58" using s(4-6) by (auto simp: numeral_3_eq_3)
  have "mem5_holds s []" by (rule mem5_init_holds [OF _ _ _ _ s(1)]) simp_all
  then show thesis using that s(1,2) a by blast
qed

lemma malloc_given:
  assumes "mem5_ok s X" "nAtom s = 16" "nBlock s = 58" "0 < n" "n \<le> POW2_MAX" "fits_log s n l" "run_free s X l"
  obtains i s' where "memsys5Malloc s n = Some (Some i, s')" "given s X l i s'" "nAtom s' = 16" "nBlock s' = 58"
proof -
  have "n < 2 ^ 31" "nAtom s < 2 ^ 31" using assms(2,5) by (simp_all add: POW2_MAX_def)
  from malloc_law [OF assms(1,4) this] assms(5) obtain m where m: "fits_log s n m"
    "if run_free s X m then \<exists>i s'. memsys5MallocUnsafe s n = Some (Some i, s') \<and> given s X m i s' else memsys5MallocUnsafe s n = None" by auto
  then obtain i s' where "memsys5MallocUnsafe s n = Some (Some i, s')" "given s X l i s'"
    using fits_log_unique [OF assms(6) mem5_ok_size0 [OF assms(1)] m(1)] assms(7) by auto
  then show thesis using that assms(2-4) by (simp add: memsys5Malloc_def given_def kept_data_def)
qed

lemma two_blocks:
  obtains s i s1 j s2 where "memsys5Init mem5_zero (Some (replicate 1000 0)) 16 = Some (SQLITE_OK, s)" "mem5_holds s []"
    "memsys5Malloc s 10 = Some (Some i, s1)" "mem5_ok s1 {(i, 0)}" "memsys5Malloc s1 100 = Some (Some j, s2)" "mem5_ok s2 {(j, 3), (i, 0)}"
    "nAtom s = 16" "nBlock s = 58" "nAtom s1 = 16" "nBlock s1 = 58" "nAtom s2 = 16" "nBlock s2 = 58" "run_free s1 {(i, 0)} 3"
proof -
  obtain s where s: "memsys5Init mem5_zero (Some (replicate 1000 0)) 16 = Some (SQLITE_OK, s)" "mem5_holds s []" "mem5_ok s {}"
    "nAtom s = 16" "nBlock s = 58" by (rule small_pool)
  have f: "fits_log s 10 0" "run_free s {} 0" using s(4,5) by (auto simp: fits_log_def run_free_def block_atoms_def intro!: exI [of _ 0])
  obtain i s1 where 1: "memsys5Malloc s 10 = Some (Some i, s1)" "given s {} 0 i s1" "nAtom s1 = 16" "nBlock s1 = 58"
    by (rule malloc_given [OF s(3,4,5) _ _ f]) (simp_all add: POW2_MAX_def)
  then have ok: "mem5_ok s1 {(i, 0)}" by (simp add: given_def)
  have g: "fits_log s1 100 3" using 1(3) by (simp add: fits_log_def)
  have r: "run_free s1 {(i, 0)} 3"
    unfolding run_free_def block_atoms_def using 1(4) by (intro exI [of _ "if i < 8 then 8 else 0"]) auto
  obtain j s2 where 2: "memsys5Malloc s1 100 = Some (Some j, s2)" "given s1 {(i, 0)} 3 j s2" "nAtom s2 = 16" "nBlock s2 = 58"
    by (rule malloc_given [OF ok 1(3,4) _ _ g r]) (simp_all add: POW2_MAX_def)
  then have "mem5_ok s2 {(j, 3), (i, 0)}" by (simp add: given_def)
  then show thesis using that s(1,2,4,5) 1(1,3,4) 2(1,3,4) ok r by blast
qed

text \<open>
  C6: From the initialized pool a sequence of Malloc and Free runs without undefined behaviour, and the
  blocks that are held at its end do not overlap, unless it comes to a request of at most POW2_MAX
  bytes for which no aligned run of free atoms is left: exactly then it is undefined (the search for a
  free list leaves the array of their heads).
\<close>

theorem mem5_programs_are_safe:
  assumes "memsys5Init s0 (Some heap) mnReq = Some (SQLITE_OK, s)" "length heap < 2 ^ 31" "mnReq \<le> 2 ^ 30"
    "currentCount s0 = 0" "currentOut s0 = 0" "sizes_ok cs"
  defines "run \<equiv> alloc_run memsys5Malloc (\<lambda>s p. memsys5Free s (Some p)) s []"
  shows "case run cs of
      Some (s', L') \<Rightarrow> mem5_holds s' L' \<and> (\<forall>k < length L'. \<forall>j < k. mem5_cells s' (fst (L' ! j)) \<inter> mem5_cells s' (fst (L' ! k)) = {})
        \<and> \<not> (\<exists>cs1 n cs2 s1 L1. cs = cs1 @ Alloc n # cs2 \<and> run cs1 = Some (s1, L1) \<and> 0 < n \<and> n \<le> POW2_MAX \<and> \<not> mem5_room s1 L1 n)
    | None \<Rightarrow> \<exists>cs1 n cs2 s1 L1. cs = cs1 @ Alloc n # cs2 \<and> run cs1 = Some (s1, L1) \<and> 0 < n \<and> n \<le> POW2_MAX \<and> \<not> mem5_room s1 L1 n"
proof -
  have h: "mem5_holds s []" by (rule mem5_init_holds [OF assms(2-5,1)])
  have n: "run cs = None \<longleftrightarrow> (\<exists>cs1 n cs2 s1 L1. cs = cs1 @ Alloc n # cs2 \<and> run cs1 = Some (s1, L1) \<and> 0 < n \<and> n \<le> POW2_MAX \<and> \<not> mem5_room s1 L1 n)"
    using mem5.run_None [OF h assms(6)] by (simp add: run_def mem5_refuses_def not_le not_less)
  show ?thesis
  proof (cases "run cs")
    case (Some q)
    then obtain s' L' where q: "run cs = Some (s', L')" by (cases q) simp
    show ?thesis using mem5.run_safe [OF h assms(6), of s' L'] q n by (simp add: run_def)
  next
    case None
    then show ?thesis using n by simp
  qed
qed

theorem mem5_programs_are_safe_witness:
  "\<exists>s i j s2. memsys5Init mem5_zero (Some (replicate 1000 0)) 16 = Some (SQLITE_OK, s)
    \<and> alloc_run memsys5Malloc (\<lambda>s p. memsys5Free s (Some p)) s [] [Alloc 10, Alloc 100, Alloc (- 1), Alloc (2 ^ 21)] = Some (s2, [(i, 10), (j, 100)])
    \<and> mem5_cells s2 i \<inter> mem5_cells s2 j = {}"
proof -
  obtain s i s1 j s2 where s: "memsys5Init mem5_zero (Some (replicate 1000 0)) 16 = Some (SQLITE_OK, s)"
    "memsys5Malloc s 10 = Some (Some i, s1)" "memsys5Malloc s1 100 = Some (Some j, s2)" "mem5_ok s2 {(j, 3), (i, 0)}" "nAtom s2 = 16"
    by (rule two_blocks) blast
  obtain s3 where 3: "memsys5Malloc s2 (2 ^ 21) = Some (None, s3)"
    using malloc_law [OF s(4), of "2 ^ 21"] s(5) by (auto simp: memsys5Malloc_def POW2_MAX_def)
  have r: "alloc_run memsys5Malloc (\<lambda>s p. memsys5Free s (Some p)) s [] [Alloc 10, Alloc 100, Alloc (- 1), Alloc (2 ^ 21)] = Some (s3, [(i, 10), (j, 100)])"
    using s(2,3) 3 by (simp add: memsys5Malloc_def)
  have d: "\<forall>k < length [(i, 10 :: int), (j, 100)]. \<forall>m < k. mem5_cells s3 (fst ([(i, 10 :: int), (j, 100)] ! m)) \<inter> mem5_cells s3 (fst ([(i, 10 :: int), (j, 100)] ! k)) = {}"
    using mem5_programs_are_safe [OF s(1), of "[Alloc 10, Alloc 100, Alloc (- 1), Alloc (2 ^ 21)]"] unfolding r by simp
  have "mem5_cells s3 i \<inter> mem5_cells s3 j = {}" using d [rule_format, of 1 0] by simp
  then show ?thesis using s(1) r by blast
qed

text \<open>The contents of the blocks that a sequence of Malloc and Free does not release stay as they are.\<close>

lemma mem5_contents_survive:
  assumes "mem5_holds s L" "sizes_ok cs" "spares q cs" "q \<le> length L" "alloc_run memsys5Malloc (\<lambda>s p. memsys5Free s (Some p)) s L cs = Some (s', L')"
  shows "q \<le> length L' \<and> take q L' = take q L \<and> (\<forall>(j, m) \<in> set (take q L). mem5_contents s' j = mem5_contents s j)"
  using mem5.run_spares [OF assms] .

text \<open>
  C10: Malloc refuses, with a null pointer, requests that are not positive or are over POW2_MAX. Any
  other request gets a block of the smallest size that fits, aligned, made of atoms that are not checked
  out, with what is checked out left as it is, as soon as an aligned run of free atoms of that size
  exists, so free neighbours are never left apart; without such a run the call is undefined.
\<close>

theorem mem5_malloc_is_complete:
  assumes "mem5_ok s X" "nByte < 2 ^ 31" "nAtom s < 2 ^ 31"
  shows "if nByte \<le> 0 \<or> POW2_MAX < nByte
    then \<exists>s'. memsys5Malloc s nByte = Some (None, s') \<and> mem5_ok s' X \<and> zPool s' = zPool s
    else \<exists>l. fits_log s nByte l \<and> (if run_free s X l
      then \<exists>i s'. memsys5Malloc s nByte = Some (Some i, s') \<and> 2 ^ l dvd i \<and> i + 2 ^ l \<le> nBlock s
        \<and> {i..<i + 2 ^ l} \<inter> block_atoms X = {} \<and> mem5_ok s' (insert (i, l) X) \<and> kept_data X s s'
      else memsys5Malloc s nByte = None)"
  using malloc_law [OF assms(1) _ assms(2,3)] assms(1) unfolding given_def memsys5Malloc_def
  by (cases "nByte \<le> 0"; cases "POW2_MAX < nByte") (auto simp: only_stats_def)

theorem mem5_malloc_is_complete_witness:
  "\<exists>s i s'. memsys5Init mem5_zero (Some (replicate 1000 0)) 16 = Some (SQLITE_OK, s) \<and> memsys5Malloc s 100 = Some (Some i, s')
    \<and> mem5_ok s' {(i, 3)} \<and> memsys5Malloc s' 1000 = None"
proof -
  obtain s where s: "memsys5Init mem5_zero (Some (replicate 1000 0)) 16 = Some (SQLITE_OK, s)" "mem5_holds s []" "mem5_ok s {}"
    "nAtom s = 16" "nBlock s = 58" by (rule small_pool)
  have f: "fits_log s 100 3" using s(4) by (simp add: fits_log_def)
  have r: "run_free s {} 3" using s(5) by (auto simp: run_free_def block_atoms_def intro!: exI [of _ 0])
  have le: "\<not> (100 \<le> (0 :: int) \<or> POW2_MAX < 100)" "\<not> (1000 \<le> (0 :: int) \<or> POW2_MAX < 1000)" "\<not> POW2_MAX < 1000" by (simp_all add: POW2_MAX_def)
  obtain l where l: "fits_log s 100 l" "if run_free s {} l
      then \<exists>i s'. memsys5Malloc s 100 = Some (Some i, s') \<and> 2 ^ l dvd i \<and> i + 2 ^ l \<le> nBlock s
        \<and> {i..<i + 2 ^ l} \<inter> block_atoms {} = {} \<and> mem5_ok s' (insert (i, l) {}) \<and> kept_data {} s s'
      else memsys5Malloc s 100 = None"
    using mem5_malloc_is_complete [OF s(3), of 100] s(4) le(1) by auto
  then have "l = 3" using fits_log_unique [OF f mem5_ok_size0 [OF s(3)]] by simp
  then obtain i s' where 1: "memsys5Malloc s 100 = Some (Some i, s')" "mem5_ok s' {(i, 3)}" "kept_data {} s s'" using l(2) r by auto
  have a: "nAtom s' = 16" "nBlock s' = 58" using 1(3) s(4,5) by (simp_all add: kept_data_def)
  have g: "fits_log s' 1000 6" using a by (simp add: fits_log_def)
  have "\<not> run_free s' {(i, 3)} 6" using a by (simp add: run_free_def)
  moreover obtain m where m: "fits_log s' 1000 m" "run_free s' {(i, 3)} m \<or> memsys5Malloc s' 1000 = None"
    using mem5_malloc_is_complete [OF 1(2), of 1000] a(1) le(2,3) by (cases "memsys5Malloc s' 1000") (auto split: if_splits)
  ultimately have "memsys5Malloc s' 1000 = None" using fits_log_unique [OF g mem5_ok_size0 [OF 1(2)] m(1)] by auto
  then show ?thesis using s(1) 1 by blast
qed

text \<open>
  C15: Once everything has been released the pool is as good as new: after any sequence of Malloc and
  Free that ends with no block held, a request of at most POW2_MAX bytes succeeds when its block, of the
  smallest size that fits, is not larger than the pool.
\<close>

theorem mem5_recovers_from_fragmentation:
  assumes "mem5_holds s L" "sizes_ok cs" "alloc_run memsys5Malloc (\<lambda>s p. memsys5Free s (Some p)) s L cs = Some (s1, [])"
    "0 < n" "n \<le> POW2_MAX" "fits_log s1 n l" "2 ^ l \<le> nBlock s1"
  shows "\<exists>i s2. memsys5Malloc s1 n = Some (Some i, s2)"
proof -
  have h: "mem5_holds s1 []" by (rule mem5.run_holds [OF assms(1-3)])
  have n: "n < 2 ^ 31" using assms(5) by (simp add: POW2_MAX_def)
  have "mem5_room s1 [] n" unfolding mem5_room_def using assms(6,7) by (intro exI [of _ l] exI [of _ 0]) simp
  then show ?thesis using mem5.malloc_gives [OF h n] assms(4,5) by (auto simp: mem5_refuses_def)
qed

theorem mem5_recovers_from_fragmentation_witness:
  "\<exists>s s1. memsys5Init mem5_zero (Some (replicate 1000 0)) 16 = Some (SQLITE_OK, s)
    \<and> alloc_run memsys5Malloc (\<lambda>s p. memsys5Free s (Some p)) s [] [Alloc 10, Alloc 100, Release 0, Release 0] = Some (s1, [])
    \<and> (\<exists>i s2. memsys5Malloc s1 512 = Some (Some i, s2))"
proof -
  obtain s i s1 j s2 where s: "memsys5Init mem5_zero (Some (replicate 1000 0)) 16 = Some (SQLITE_OK, s)" "mem5_holds s []"
    "memsys5Malloc s 10 = Some (Some i, s1)" "memsys5Malloc s1 100 = Some (Some j, s2)" "mem5_ok s2 {(j, 3), (i, 0)}" "nAtom s2 = 16" "nBlock s2 = 58"
    by (rule two_blocks) blast
  obtain s3 where 3: "memsys5FreeUnsafe s2 i = Some s3" "mem5_ok s3 ({(j, 3), (i, 0)} - {(i, 0)})" "nAtom s3 = 16" "nBlock s3 = 58"
    using free_law [OF s(5), of i 0] s(6,7) by (auto simp: kept_data_def)
  then obtain s4 where 4: "memsys5FreeUnsafe s3 j = Some s4" "nAtom s4 = 16" "nBlock s4 = 58"
    using free_law [OF 3(2), of j 3] by (auto simp: kept_data_def)
  have r: "alloc_run memsys5Malloc (\<lambda>s p. memsys5Free s (Some p)) s [] [Alloc 10, Alloc 100, Release 0, Release 0] = Some (s4, [])"
    using s(3,4) 3(1) 4(1) by (simp add: memsys5Free_def)
  have f: "fits_log s4 512 5" "(2 :: nat) ^ 5 \<le> nBlock s4" unfolding fits_log_def using 4 by simp_all
  have "\<exists>i s2. memsys5Malloc s4 512 = Some (Some i, s2)"
    by (rule mem5_recovers_from_fragmentation [OF s(2) _ r _ _ f]) (simp_all add: POW2_MAX_def)
  then show ?thesis using s(1) r by blast
qed

text \<open>
  C34: Growing a block keeps what it held: Realloc returns a null pointer and changes nothing of the
  client's when the new size is over POW2_MAX; otherwise, when there is an aligned run of free atoms for it
  beside the old block, a new, large enough block that starts with the atoms of the old one, which is
  released; without such a run it is undefined, as Malloc is.
\<close>

theorem mem5_realloc_keeps_contents:
  assumes "mem5_ok s X" "(i, l) \<in> X" "int (nAtom s) * 2 ^ l < nBytes" "nBytes < 2 ^ 31" "nAtom s < 2 ^ 31"
  shows "if nBytes > POW2_MAX then \<exists>s'. memsys5Realloc s (Some i) nBytes = Some (None, s') \<and> mem5_ok s' X \<and> zPool s' = zPool s
    else \<exists>m. fits_log s nBytes m \<and> (if run_free s X m
      then \<exists>j s'. memsys5Realloc s (Some i) nBytes = Some (Some j, s') \<and> mem5_ok s' (insert (j, m) (X - {(i, l)}))
        \<and> kept_data (X - {(i, l)}) s s' \<and> (\<forall>k < 2 ^ l. zPool s' ! (j + k) = zPool s ! (i + k))
      else memsys5Realloc s (Some i) nBytes = None)"
  using realloc_law [OF assms] .

theorem mem5_realloc_keeps_contents_witness:
  "\<exists>s i s1 j s2. memsys5Init mem5_zero (Some (replicate 1000 0)) 16 = Some (SQLITE_OK, s) \<and> memsys5Malloc s 10 = Some (Some i, s1)
    \<and> memsys5Realloc s1 (Some i) 100 = Some (Some j, s2) \<and> zPool s2 ! j = zPool s1 ! i"
proof -
  obtain s i s1 j s2 where s: "memsys5Init mem5_zero (Some (replicate 1000 0)) 16 = Some (SQLITE_OK, s)"
    "memsys5Malloc s 10 = Some (Some i, s1)" "mem5_ok s1 {(i, 0)}" "nAtom s1 = 16" "run_free s1 {(i, 0)} 3"
    by (rule two_blocks) blast
  have f: "fits_log s1 100 3" using s(4) by (simp add: fits_log_def)
  have le: "\<not> POW2_MAX < 100" by (simp add: POW2_MAX_def)
  obtain m where m: "fits_log s1 100 m" "if run_free s1 {(i, 0)} m
      then \<exists>j s'. memsys5Realloc s1 (Some i) 100 = Some (Some j, s') \<and> mem5_ok s' (insert (j, m) ({(i, 0)} - {(i, 0)}))
        \<and> kept_data ({(i, 0)} - {(i, 0)}) s1 s' \<and> (\<forall>k < 2 ^ 0. zPool s' ! (j + k) = zPool s1 ! (i + k))
      else memsys5Realloc s1 (Some i) 100 = None"
    using mem5_realloc_keeps_contents [OF s(3), of i 0 100] s(4) le by auto
  then have "m = 3" using fits_log_unique [OF f mem5_ok_size0 [OF s(3)]] by simp
  then show ?thesis using m(2) s(1,2,5) by auto
qed

subsection \<open>Where the code is fragile\<close>

text \<open>When every list is empty the search reads past the end of their heads.\<close>

lemma find_bin_past_end:
  assumes "length (aiFreelist s) = LOGMAX + 1" "\<forall>b \<le> LOGMAX. aiFreelist s ! b < 0" shows "l \<le> LOGMAX + 1 \<Longrightarrow> find_bin s l = None"
proof (induction "LOGMAX + 1 - l" arbitrary: l)
  case 0
  then show ?case using assms(1) by (subst find_bin.simps) (simp add: peek_def)
next
  case (Suc n)
  then have "find_bin s (Suc l) = None" by simp
  moreover have "peek (aiFreelist s) l = Some (aiFreelist s ! l)" "aiFreelist s ! l < 0" using Suc.hyps(2) assms by simp_all
  ultimately show ?case using Suc.hyps(2) by (subst find_bin.simps) simp
qed

text \<open>Rounding up a size over \<open>2 ^ 30\<close> overflows the int: no power of two above it can be represented.\<close>

lemma round_overflow: "0 < f \<Longrightarrow> 2 ^ 30 < n \<Longrightarrow> \<exists>k \<le> 30. f = 2 ^ k \<Longrightarrow> round_loop f l n = None"
proof (induction f l n rule: round_loop.induct)
  case (1 f l n)
  obtain k where k: "k \<le> 30" "f = 2 ^ k" using 1 by blast
  have "f \<le> 2 ^ 30" unfolding k(2) using k(1) by (intro power_increasing) auto
  then have lt: "f < n" using 1 by linarith
  show ?case
  proof (cases "k = 30")
    case True
    then show ?thesis using k lt by (subst round_loop.simps) simp
  next
    case False
    then have "f * 2 = 2 ^ Suc k" "Suc k \<le> 30" using k by simp_all
    have "round_loop (f * 2) (Suc l) n = None" if "f * 2 < 2 ^ 31" 
      by (rule "1.IH") (use 1(2,3) lt that \<open>f * 2 = 2 ^ Suc k\<close> \<open>Suc k \<le> 30\<close> in \<open>auto intro!: exI [of _ "Suc k"]\<close>)
    with lt show ?thesis by (subst round_loop.simps) auto
  qed
qed

lemma roundup_overflow: "k \<le> 30 \<Longrightarrow> nAtom s = 2 ^ k \<Longrightarrow> 2 ^ 30 < n \<Longrightarrow> memsys5Roundup s n = None"
  using round_overflow [of "2 ^ k" n 0] by (auto simp: memsys5Roundup_def)

text \<open>The search for the first block of a list stops at the block 0.\<close>

lemma unlink_first_overlooks_0:
  assumes "aiFreelist s = [5]" "zPool s ! 5 = Link 0 (- 1)" "zPool s ! 0 = Link (- 1) 5" "length (zPool s) = 6"
  shows "\<exists>s'. memsys5UnlinkFirst s 0 = Some (5, s')"
proof -
  have l: "MEM5LINK s 5 = Some (0, - 1)" "MEM5LINK s 0 = Some (- 1, 5)" using assms by (simp_all add: MEM5LINK_def)
  have "unlink_scan s 5 5 = Some 5" using l by (subst unlink_scan.simps, simp, subst unlink_scan.simps) simp
  then show ?thesis using assms l by (simp add: memsys5UnlinkFirst_def memsys5Unlink_def set_freelist_def set_link_def MEM5LINK_def)
qed

end
