(* ===== verification/Pattern.thy ===== *)
theory Pattern
  imports Utf TextUtil
begin

text \<open>
  The LIKE and GLOB operators of func.c: the matcher patternCompare on terminated UTF-8 texts and
  the SQL function likeFunc around it. The reference is the language of a pattern: the texts that
  split into one part per item of the pattern.
\<close>

subsection \<open>Characters\<close>

record compareInfo =
  matchAll :: u8
  matchOne :: u8
  matchSet :: u8
  noCase :: bool

definition globInfo :: compareInfo where
  "globInfo = \<lparr>matchAll = 42, matchOne = 63, matchSet = 91, noCase = False\<rparr>"

definition likeInfoNorm :: compareInfo where
  "likeInfoNorm = \<lparr>matchAll = 37, matchOne = 95, matchSet = 0, noCase = True\<rparr>"

definition likeInfoAlt :: compareInfo where
  "likeInfoAlt = \<lparr>matchAll = 37, matchOne = 95, matchSet = 0, noCase = False\<rparr>"

text \<open>\<open>c = sqlite3Utf8Read(z, 0, &z)\<close>: without \<open>zTerm\<close> only the bytes end the character.\<close>

definition Utf8Next :: "u8 list \<Rightarrow> (int \<times> u8 list) option" where
  "Utf8Next z = do { (c, n) \<leftarrow> sqlite3Utf8Read z (Suc (length z)); Some (sint c, drop n z) }"

definition GlogUpperToLower :: "int \<Rightarrow> int" where
  "GlogUpperToLower A = (if A < 0x80 then int (sqlite3UpperToLower ! nat A) else A)"

definition fold_char :: "bool \<Rightarrow> int \<Rightarrow> int" where
  "fold_char nocase c = (if nocase then GlogUpperToLower c else c)"

lemma Utf8Next_shorter: "Utf8Next z = Some (c, z') \<Longrightarrow> length z' < length z"
proof -
  assume a: "Utf8Next z = Some (c, z')"
  then obtain d n where r: "sqlite3Utf8Read z (Suc (length z)) = Some (d, n)" "z' = drop n z"
    by (auto simp: Utf8Next_def elim!: bind_SomeE)
  then have "0 < n" "z \<noteq> []" using READ_UTF8_pos by (auto simp: sqlite3Utf8Read_def READ_UTF8_def elim!: bind_SomeE) (simp add: peek_def)
  then show "length z' < length z" using r(2) by simp
qed

subsection \<open>The matcher\<close>

text \<open>
  The loop after \<open>matchAll\<close>: further \<open>matchAll\<close> and \<open>matchOne\<close> are consumed. Some None is \<open>return 0\<close>;
  the result has the pointer before the last character too.
\<close>

function star_skip :: "compareInfo \<Rightarrow> u8 list \<Rightarrow> u8 list \<Rightarrow> (int \<times> u8 list \<times> u8 list \<times> u8 list) option option" where
  "star_skip info zP zS = do {
     (c, zP') \<leftarrow> Utf8Next zP;
     if c = uint (matchAll info) \<or> c = uint (matchOne info) then
       (if c = uint (matchOne info) then do {
          (d, zS') \<leftarrow> Utf8Next zS;
          if d = 0 then Some None else star_skip info zP' zS' }
        else star_skip info zP' zS)
     else Some (Some (c, zP, zP', zS))
   }"
  by pat_completeness auto
termination by (relation "measure (\<lambda>(_, zP, _). length zP)") (auto dest: Utf8Next_shorter)

declare star_skip.simps [simp del]

text \<open>\<open>while( c2 != 0 && c2 != c )\<close>\<close>

function find_char :: "bool \<Rightarrow> int \<Rightarrow> int \<Rightarrow> u8 list \<Rightarrow> (int \<times> u8 list) option" where
  "find_char nocase c c2 zS =
     (if c2 \<noteq> 0 \<and> c2 \<noteq> c then do {
        (c2, zS') \<leftarrow> Utf8Next zS;
        find_char nocase c (fold_char nocase c2) zS' }
      else Some (c2, zS))"
  by pat_completeness auto
termination by (relation "measure (\<lambda>(_, _, _, zS). length zS)") (auto dest: Utf8Next_shorter)

declare find_char.simps [simp del]

lemma find_char_shorter: "find_char nocase c c2 zS = Some (d, zS') \<Longrightarrow> length zS' \<le> length zS"
proof (induction nocase c c2 zS rule: find_char.induct)
  case (1 nocase c c2 zS)
  show ?case
  proof (cases "c2 \<noteq> 0 \<and> c2 \<noteq> c")
    case True
    with "1.prems" obtain x where x: "Utf8Next zS = Some x" "find_char nocase c (fold_char nocase (fst x)) (snd x) = Some (d, zS')"
      by (subst (asm) find_char.simps) (auto elim!: bind_SomeE)
    with "1.IH" [OF True, of x "fst x" "snd x"] Utf8Next_shorter [of zS "fst x" "snd x"] show ?thesis by simp
  qed (use "1.prems" find_char.simps [of nocase c c2 zS] in auto)
qed

text \<open>The search for the literal \<open>c\<close> after \<open>matchAll\<close>; \<open>f\<close> is the recursive call on the rest of the pattern.\<close>

function scan_lit :: "bool \<Rightarrow> int \<Rightarrow> (u8 list \<Rightarrow> bool option) \<Rightarrow> u8 list \<Rightarrow> bool option" where
  "scan_lit nocase c f zS = do {
     (c2, zS') \<leftarrow> Utf8Next zS;
     if c2 = 0 then Some False
     else do {
       (c2, zS'') \<leftarrow> find_char nocase (fold_char nocase c) (fold_char nocase c2) zS';
       if c2 = 0 then Some False
       else do {
         r \<leftarrow> f zS'';
         if r then Some True else scan_lit nocase c f zS''
       }
     }
   }"
  by pat_completeness auto
termination
  by (relation "measure (\<lambda>(_, _, _, zS). length zS)") (auto dest!: Utf8Next_shorter find_char_shorter)

declare scan_lit.simps [simp del]

text \<open>The search for a position where the rest of the pattern, from \<open>matchSet\<close> on, matches.\<close>

function scan_set :: "(u8 list \<Rightarrow> bool option) \<Rightarrow> u8 list \<Rightarrow> bool option" where
  "scan_set f zS = do {
     b \<leftarrow> peek zS 0;
     if b = 0 then Some False
     else do {
       r \<leftarrow> f zS;
       if r then Some True else do { n \<leftarrow> SQLITE_SKIP_UTF8 zS; scan_set f (drop n zS) }
     }
   }"
  by pat_completeness auto
termination
  by (relation "measure (\<lambda>(_, zS). length zS)") (auto dest!: SKIP_pos simp: buf_simps)

declare scan_set.simps [simp del]

text \<open>The loop over the members of a set: the last \<open>c2\<close>, the rest of the pattern and \<open>seen\<close>.\<close>

function set_loop :: "int \<Rightarrow> int \<Rightarrow> int \<Rightarrow> bool \<Rightarrow> u8 list \<Rightarrow> (int \<times> u8 list \<times> bool) option" where
  "set_loop c c2 prior_c seen zP =
     (if c2 \<noteq> 0 \<and> c2 \<noteq> 93 then do {
        dash \<leftarrow> (if c2 = 45 then do { b \<leftarrow> peek zP 0; Some (b \<noteq> 93 \<and> b \<noteq> 0 \<and> prior_c > 0) } else Some False);
        if dash then do {
          (c2, zP') \<leftarrow> Utf8Next zP;
          (c3, zP'') \<leftarrow> Utf8Next zP';
          set_loop c c3 0 (seen \<or> prior_c \<le> c \<and> c \<le> c2) zP''
        }
        else do {
          (c3, zP') \<leftarrow> Utf8Next zP;
          set_loop c c3 c2 (seen \<or> c = c2) zP'
        }
      } else Some (c2, zP, seen))"
  by pat_completeness auto
termination
  by (relation "measure (\<lambda>(_, _, _, _, zP). length zP)") (auto dest!: Utf8Next_shorter)

declare set_loop.simps [simp del]

lemma set_loop_shorter: "set_loop c c2 pr seen zP = Some (d, zP', s) \<Longrightarrow> length zP' \<le> length zP"
proof (induction "length zP" arbitrary: c2 pr seen zP rule: less_induct)
  case less
  show ?case
  proof (cases "c2 \<noteq> 0 \<and> c2 \<noteq> 93")
    case True
    then obtain b where d: "(if c2 = 45 then do { b \<leftarrow> peek zP 0; Some (b \<noteq> 93 \<and> b \<noteq> 0 \<and> pr > 0) } else Some False) = Some b"
      using less.prems by (subst (asm) set_loop.simps) (auto elim!: bind_SomeE simp: bind_eq_Some_conv)
    obtain e z1 where 1: "Utf8Next zP = Some (e, z1)"
      using less.prems True d by (subst (asm) set_loop.simps) (auto elim!: bind_SomeE split: if_splits)
    note s1 = Utf8Next_shorter [OF 1]
    show ?thesis
    proof (cases b)
      case True
      then obtain g z2 where 2: "Utf8Next z1 = Some (g, z2)" "set_loop c g 0 (seen \<or> pr \<le> c \<and> c \<le> e) z2 = Some (d, zP', s)"
        using less.prems d 1 \<open>c2 \<noteq> 0 \<and> c2 \<noteq> 93\<close> by (subst (asm) set_loop.simps) (auto elim!: bind_SomeE simp del: peek_def)
      then show ?thesis using less.hyps [OF _ 2(2)] Utf8Next_shorter [OF 2(1)] s1 by simp
    next
      case False
      then have "set_loop c e c2 (seen \<or> c = c2) z1 = Some (d, zP', s)"
        using less.prems d 1 \<open>c2 \<noteq> 0 \<and> c2 \<noteq> 93\<close> by (subst (asm) set_loop.simps) simp
      then show ?thesis using less.hyps [OF s1] s1 by fastforce
    qed
  qed (use less.prems set_loop.simps [of c c2 pr seen zP] in auto)
qed

text \<open>The case \<open>c==matchSet\<close>: None inside is \<open>return 0\<close>, else the pointers behind the character and the set.\<close>

definition match_set :: "u8 list \<Rightarrow> u8 list \<Rightarrow> (u8 list \<times> u8 list) option option" where
  "match_set zP zS = do {
     (c, zS') \<leftarrow> Utf8Next zS;
     if c = 0 then Some None
     else do {
       (c2, zP) \<leftarrow> Utf8Next zP;
       let invert = (c2 = 94);
       (c2, zP) \<leftarrow> (if c2 = 94 then Utf8Next zP else Some (c2, zP));
       let seen = (c2 = 93 \<and> c = 93);
       (c2, zP) \<leftarrow> (if c2 = 93 then Utf8Next zP else Some (c2, zP));
       (c2, zP, seen) \<leftarrow> set_loop c c2 0 seen zP;
       if c2 = 0 \<or> seen = invert then Some None else Some (Some (zP, zS'))
     }
   }"

lemma match_set_shorter: "match_set zP zS = Some (Some (zP', zS')) \<Longrightarrow> length zP' < length zP"
  by (auto simp: match_set_def Let_def elim!: bind_SomeE split: if_splits dest!: Utf8Next_shorter set_loop_shorter)

text \<open>\<open>&zPattern[-1]\<close>, where \<open>z\<close> is the pointer before the character read last.\<close>

definition one_back :: "u8 list \<Rightarrow> u8 list \<Rightarrow> u8 list" where
  "one_back z z' = drop (length z - length z' - 1) z"

lemma star_skip_shorter: "star_skip info zP zS = Some (Some (c, zQ, zP', zS')) \<Longrightarrow> length zQ \<le> length zP \<and> length zP' < length zQ"
proof (induction "length zP" arbitrary: zP zS rule: less_induct)
  case less
  obtain d z1 where 1: "Utf8Next zP = Some (d, z1)"
    using less.prems by (subst (asm) star_skip.simps) (auto elim!: bind_SomeE)
  note s1 = Utf8Next_shorter [OF 1]
  consider "d = uint (matchOne info)" | "d = uint (matchAll info)" "d \<noteq> uint (matchOne info)"
    | "d \<noteq> uint (matchAll info)" "d \<noteq> uint (matchOne info)" by blast
  then show ?case
  proof cases
    case 1
    then obtain z2 where "star_skip info z1 z2 = Some (Some (c, zQ, zP', zS'))"
      using less.prems \<open>Utf8Next zP = Some (d, z1)\<close> by (subst (asm) star_skip.simps) (auto elim!: bind_SomeE split: if_splits)
    then show ?thesis using less.hyps [OF s1] s1 by fastforce
  next
    case 2
    then have "star_skip info z1 zS = Some (Some (c, zQ, zP', zS'))" using less.prems 1 by (subst (asm) star_skip.simps) simp
    then show ?thesis using less.hyps [OF s1] s1 by fastforce
  next
    case 3
    then show ?thesis using less.prems 1 s1 by (subst (asm) star_skip.simps) auto
  qed
qed

text \<open>The function itself; \<open>pE\<close> is \<open>prevEscape\<close>, which no recursive call sets.\<close>

function pattern_loop :: "compareInfo \<Rightarrow> int \<Rightarrow> bool \<Rightarrow> u8 list \<Rightarrow> u8 list \<Rightarrow> bool option" where
  "pattern_loop info esc pE zP zS = do {
     (c, zP1) \<leftarrow> Utf8Next zP;
     if c = 0 then do { b \<leftarrow> peek zS 0; Some (b = 0) }
     else if \<not> pE \<and> c = uint (matchAll info) then do {
       r \<leftarrow> star_skip info zP1 zS;
       (case r of None \<Rightarrow> Some False
        | Some (c, zQ, zP2, zS2) \<Rightarrow>
            if c = 0 then Some True
            else if c = esc then do {
              (c, zP3) \<leftarrow> Utf8Next zP2;
              if c = 0 then Some False
              else scan_lit (noCase info) c (\<lambda>z. pattern_loop info esc False zP3 z) zS2 }
            else if c = uint (matchSet info) then
              scan_set (\<lambda>z. pattern_loop info esc False (one_back zQ zP2) z) zS2
            else scan_lit (noCase info) c (\<lambda>z. pattern_loop info esc False zP2 z) zS2)
     }
     else if \<not> pE \<and> c = uint (matchOne info) then do {
       (d, zS1) \<leftarrow> Utf8Next zS;
       if d = 0 then Some False else pattern_loop info esc pE zP1 zS1 }
     else if c = uint (matchSet info) then do {
       r \<leftarrow> match_set zP1 zS;
       (case r of None \<Rightarrow> Some False | Some (zP2, zS1) \<Rightarrow> pattern_loop info esc pE zP2 zS1) }
     else if esc = c \<and> \<not> pE then pattern_loop info esc True zP1 zS
     else do {
       (c2, zS1) \<leftarrow> Utf8Next zS;
       if fold_char (noCase info) c \<noteq> fold_char (noCase info) c2 then Some False
       else pattern_loop info esc False zP1 zS1 }
   }"
  by pat_completeness auto
termination
  by (relation "measure (\<lambda>(_, _, _, zP, _). length zP)")
    (auto simp: one_back_def dest!: Utf8Next_shorter match_set_shorter star_skip_shorter)

declare pattern_loop.simps [simp del]

subsection \<open>The language of a pattern\<close>

datatype set_item = Single int | Range int int

datatype pattern_item = Many | One | Lit int | Member bool "set_item list" | Never

fun in_item :: "int \<Rightarrow> set_item \<Rightarrow> bool" where
  "in_item c (Single a) \<longleftrightarrow> c = a"
| "in_item c (Range a b) \<longleftrightarrow> a \<le> c \<and> c \<le> b"

text \<open>The texts that one item stands for; \<open>f\<close> folds the case of a character.\<close>

fun item_lang :: "(int \<Rightarrow> int) \<Rightarrow> pattern_item \<Rightarrow> int list \<Rightarrow> bool" where
  "item_lang f Many w \<longleftrightarrow> True"
| "item_lang f One w \<longleftrightarrow> length w = 1"
| "item_lang f (Lit c) w \<longleftrightarrow> length w = 1 \<and> f (hd w) = f c"
| "item_lang f (Member neg its) w \<longleftrightarrow> length w = 1 \<and> list_ex (in_item (hd w)) its \<noteq> neg"
| "item_lang f Never w \<longleftrightarrow> False"

definition matches :: "(int \<Rightarrow> int) \<Rightarrow> pattern_item list \<Rightarrow> int list \<Rightarrow> bool" where
  "matches f p s \<longleftrightarrow> (\<exists>ws. list_all2 (item_lang f) p ws \<and> s = concat ws)"

lemma matches_Nil [simp]: "matches f [] s \<longleftrightarrow> s = []"
  by (auto simp: matches_def)

lemma matches_Cons: "matches f (i # p) s \<longleftrightarrow> (\<exists>u v. s = u @ v \<and> item_lang f i u \<and> matches f p v)"
proof
  show "matches f (i # p) s \<Longrightarrow> \<exists>u v. s = u @ v \<and> item_lang f i u \<and> matches f p v"
    by (auto simp: matches_def list_all2_Cons1) blast
next
  assume "\<exists>u v. s = u @ v \<and> item_lang f i u \<and> matches f p v"
  then obtain u ws where "s = concat (u # ws)" "list_all2 (item_lang f) (i # p) (u # ws)" by (auto simp: matches_def)
  then show "matches f (i # p) s" unfolding matches_def by blast
qed

lemma matches_Many: "matches f (Many # p) s \<longleftrightarrow> (\<exists>u v. s = u @ v \<and> matches f p v)"
  by (simp add: matches_Cons)

lemma matches_one:
  assumes "\<And>w. item_lang f i w \<Longrightarrow> length w = 1"
  shows "matches f (i # p) [] \<longleftrightarrow> False" "matches f (i # p) (x # s) \<longleftrightarrow> item_lang f i [x] \<and> matches f p s"
proof -
  have one: "\<exists>x. u = [x]" if "item_lang f i u" for u using assms [OF that] by (cases u) auto
  show "matches f (i # p) [] \<longleftrightarrow> False" unfolding matches_Cons using one by fastforce
  show "matches f (i # p) (x # s) \<longleftrightarrow> item_lang f i [x] \<and> matches f p s"
  proof
    assume "matches f (i # p) (x # s)"
    then obtain u v where "x # s = u @ v" "item_lang f i u" "matches f p v" unfolding matches_Cons by blast
    with one [OF this(2)] show "item_lang f i [x] \<and> matches f p s" by auto
  next
    assume "item_lang f i [x] \<and> matches f p s"
    then show "matches f (i # p) (x # s)" unfolding matches_Cons by (intro exI [of _ "[x]"] exI [of _ s]) simp
  qed
qed

lemma matches_simps [simp]:
  "matches f (One # p) [] \<longleftrightarrow> False" "matches f (One # p) (x # s) \<longleftrightarrow> matches f p s"
  "matches f (Lit c # p) [] \<longleftrightarrow> False" "matches f (Lit c # p) (x # s) \<longleftrightarrow> f x = f c \<and> matches f p s"
  "matches f (Member neg its # p) [] \<longleftrightarrow> False"
  "matches f (Member neg its # p) (x # s) \<longleftrightarrow> list_ex (in_item x) its \<noteq> neg \<and> matches f p s"
  "matches f (Never # p) s \<longleftrightarrow> False"
  using matches_one [of f One] matches_one [of f "Lit c"] matches_one [of f "Member neg its"] by (simp_all add: matches_Cons [of f Never])

lemma matches_Many_simps:
  "matches f (Many # p) [] \<longleftrightarrow> matches f p []"
  "matches f (Many # p) (x # s) \<longleftrightarrow> matches f p (x # s) \<or> matches f (Many # p) s"
  by (auto simp: matches_Many Cons_eq_append_conv)

lemma matches_Many_Many: "matches f (Many # Many # p) s = matches f (Many # p) s"
  by (induction s) (auto simp: matches_Many_simps)

lemma matches_Many_One: "matches f (Many # One # p) [] \<longleftrightarrow> False" "matches f (Many # One # p) (x # s) = matches f (Many # p) s"
proof -
  show "matches f (Many # One # p) [] \<longleftrightarrow> False" by (simp add: matches_Many_simps)
  show "matches f (Many # One # p) (x # s) = matches f (Many # p) s"
  proof (induction s arbitrary: x)
    case (Cons y s)
    then show ?case using matches_Many_simps(2) [of f "One # p" x] by (simp add: matches_Many_simps(2) [of f p])
  qed (simp add: matches_Many_simps)
qed

subsection \<open>The items of a pattern\<close>

text \<open>The members of a set up to its closing bracket; None when there is none.\<close>

fun set_items :: "int \<Rightarrow> int list \<Rightarrow> (set_item list \<times> int list) option" where
  "set_items pr [] = None"
| "set_items pr (c # cs) =
     (if c = 93 then Some ([], cs)
      else if c = 45 \<and> 0 < pr then
        (case cs of
           [] \<Rightarrow> None
         | e # cs' \<Rightarrow> if e = 93 then Some ([Single 45], cs')
                    else map_option (\<lambda>(its, r). (Range pr e # its, r)) (set_items 0 cs'))
      else map_option (\<lambda>(its, r). (Single c # its, r)) (set_items c cs))"

definition parse_set :: "int list \<Rightarrow> (bool \<times> set_item list \<times> int list) option" where
  "parse_set cs =
     (let neg = (cs \<noteq> [] \<and> hd cs = 94);
          cs = (if neg then tl cs else cs);
          lead = (cs \<noteq> [] \<and> hd cs = 93);
          cs = (if lead then tl cs else cs) in
      map_option (\<lambda>(its, r). (neg, (if lead then Single 93 # its else its), r)) (set_items 0 cs))"

lemma set_items_shorter: "set_items pr cs = Some (its, r) \<Longrightarrow> length r < length cs"
  by (induction pr cs arbitrary: its rule: set_items.induct) (auto split: if_splits list.splits intro: less_SucI)

lemma parse_set_shorter: "parse_set cs = Some (neg, its, r) \<Longrightarrow> length r < length cs"
  by (auto simp: parse_set_def Let_def split: if_splits dest!: set_items_shorter)

text \<open>
  \<open>st\<close> says that only \<open>matchAll\<close> and \<open>matchOne\<close> came after the last \<open>matchAll\<close>: an escape
  character at the end of the pattern then matches nothing, and is ignored otherwise.
\<close>

function parse :: "compareInfo \<Rightarrow> int \<Rightarrow> bool \<Rightarrow> int list \<Rightarrow> pattern_item list" where
  "parse info esc st [] = []"
| "parse info esc st (c # cs) =
     (if c = uint (matchAll info) then Many # parse info esc True cs
      else if c = uint (matchOne info) then One # parse info esc st cs
      else if c = uint (matchSet info) then
        (case parse_set cs of None \<Rightarrow> [Never] | Some (neg, its, r) \<Rightarrow> Member neg its # parse info esc False r)
      else if c = esc then
        (case cs of [] \<Rightarrow> if st then [Never] else [] | d # ds \<Rightarrow> Lit d # parse info esc False ds)
      else Lit c # parse info esc False cs)"
  by pat_completeness auto
termination
  by (relation "measure (\<lambda>(_, _, _, cs). length cs)") (auto dest!: parse_set_shorter)

subsection \<open>Terminated texts\<close>

text \<open>The characters of a text up to its terminator.\<close>

function chars :: "u8 list \<Rightarrow> int list" where
  "chars z = (case Utf8Next z of None \<Rightarrow> [] | Some (c, z') \<Rightarrow> if c = 0 then [] else c # chars z')"
  by pat_completeness auto
termination by (relation "measure length") (auto dest!: Utf8Next_shorter)

declare chars.simps [simp del]

definition text_at :: "u8 list \<Rightarrow> int list \<Rightarrow> bool" where
  "text_at z cs \<longleftrightarrow> 0 \<in> set z \<and> chars z = cs"

text \<open>Reading one character of a terminated text.\<close>

lemma utf8_cont_text:
  assumes "0 \<in> set p" "length p < k"
  shows "\<exists>c' m. utf8_cont p k c n = Some (c', n + m) \<and> skip_cont p = Some m \<and> m < length p \<and> 0 \<in> set (drop m p)
    \<and> (m = 0 \<longrightarrow> c' = c)"
  using assms
proof (induction p k c n rule: utf8_cont.induct)
  case (3 b p k c n)
  show ?case
  proof (cases "b AND 0xC0 = 0x80")
    case True
    then have "b \<noteq> 0" by auto
    then have "0 \<in> set p" "length p < k" using "3.prems" by auto
    from "3.IH" [OF True this] obtain c' m where
      "utf8_cont p k (push_bit 6 c + (0x3F AND ucast b)) (n + 1) = Some (c', n + 1 + m)" "skip_cont p = Some m" "m < length p" "0 \<in> set (drop m p)"
      by blast
    then show ?thesis using True by (intro exI [of _ c'] exI [of _ "Suc m"]) simp
  next
    case False
    then show ?thesis using "3.prems" by (intro exI [of _ c] exI [of _ 0]) simp
  qed
qed auto

lemma sint_ucast_u8: "sint (ucast (b :: u8) :: u32) = uint b"
proof -
  have "uint b < 2 ^ 8" using uint_bounded [of b] by simp
  then have "uint (ucast b :: u32) = uint b" by (simp add: unsigned_ucast_eq take_bit_int_eq_self)
  with \<open>uint b < 2 ^ 8\<close> show ?thesis by (simp add: sint_uint signed_take_bit_eq_if_positive bit_uint_iff bit_ucast_iff take_bit_int_eq_self)
qed

lemma Utf8Next_text:
  assumes "0 \<in> set z"
  shows "\<exists>c z'. Utf8Next z = Some (c, z') \<and> 0 \<le> c \<and> (z ! 0 < 0x80 \<longrightarrow> c = uint (z ! 0) \<and> length z' = length z - 1) \<and> (z ! 0 \<ge> 0x80 \<longrightarrow> 0x80 \<le> c)
    \<and> (z ! 0 \<noteq> 0 \<longrightarrow> 0 \<in> set z') \<and> (\<exists>n. SQLITE_SKIP_UTF8 z = Some n \<and> z' = drop n z)"
proof -
  obtain b p where z: "z = b # p" using assms by (cases z) auto
  show ?thesis
  proof (cases "b \<ge> 0xC0")
    case False
    have "sint (ucast b :: u32) = uint b" by (rule sint_ucast_u8)
    then show ?thesis using False z assms
      by (auto simp: Utf8Next_def sqlite3Utf8Read_def READ_UTF8_def SQLITE_SKIP_UTF8_def word_less_def word_le_def)
  next
    case True
    then have b0: "b \<noteq> 0" by auto
    then have p0: "0 \<in> set p" using assms z by simp
    have "unat (b - 0xC0) < length sqlite3UtfTrans1"
      using True unat_less [of b] by (simp add: sqlite3UtfTrans1_def unat_sub word_le_nat_alt)
    then obtain y where y: "peek sqlite3UtfTrans1 (unat (b - 0xC0)) = Some y" by simp
    obtain c m where c: "utf8_cont p (Suc (length p)) (ucast y) 1 = Some (c, 1 + m)" "skip_cont p = Some m" "m < length p" "0 \<in> set (drop m p)"
      using utf8_cont_text [OF p0 lessI, of "ucast y" 1] by blast
    define d where "d = (if sint c < 0x80 \<or> c AND 0xFFFFF800 = 0xD800 \<or> c AND 0xFFFFFFFE = 0xFFFE then 0xFFFD else c)"
    have d: "0x80 \<le> sint d" unfolding d_def by simp
    have "Utf8Next z = Some (sint d, drop (Suc m) z)" "SQLITE_SKIP_UTF8 z = Some (Suc m)"
      using True z y c by (simp_all add: Utf8Next_def sqlite3Utf8Read_def READ_UTF8_def SQLITE_SKIP_UTF8_def d_def)
    moreover have "\<not> b < 0x80" using True by (simp add: word_less_def word_le_def)
    ultimately show ?thesis using z d c(4) by auto
  qed
qed

lemma text_at_Nil: "text_at z [] \<Longrightarrow> \<exists>z'. Utf8Next z = Some (0, z') \<and> peek z 0 = Some 0"
  using Utf8Next_text [of z] chars.simps [of z]
  by (cases "z = []"; cases "z ! 0 \<ge> 0x80") (auto simp: text_at_def word_less_def word_le_def peek_def word_uint_eq_iff [of "z ! 0"] split: if_splits option.splits)

lemma text_at_Cons:
  assumes "text_at z (c # cs)"
  shows "\<exists>z'. Utf8Next z = Some (c, z') \<and> text_at z' cs \<and> 0 < c \<and> peek z 0 = Some (z ! 0) \<and> z ! 0 \<noteq> 0
    \<and> (c < 0x80 \<longleftrightarrow> z ! 0 < 0x80) \<and> (c < 0x80 \<longrightarrow> c = uint (z ! 0) \<and> length z' = length z - 1)
    \<and> (\<exists>n. SQLITE_SKIP_UTF8 z = Some n \<and> z' = drop n z)"
proof -
  have z0: "0 \<in> set z" "chars z = c # cs" using assms by (auto simp: text_at_def)
  from Utf8Next_text [OF z0(1)] obtain d z' where
    1: "Utf8Next z = Some (d, z')" "0 \<le> d" "z ! 0 < 0x80 \<longrightarrow> d = uint (z ! 0) \<and> length z' = length z - 1" "z ! 0 \<ge> 0x80 \<longrightarrow> 0x80 \<le> d"
      "z ! 0 \<noteq> 0 \<longrightarrow> 0 \<in> set z'" "\<exists>n. SQLITE_SKIP_UTF8 z = Some n \<and> z' = drop n z" by blast
  have "d = c" "d \<noteq> 0" "chars z' = cs" using z0(2) 1(1) by (subst (asm) chars.simps, simp split: if_splits)+
  moreover have "z ! 0 \<noteq> 0" using 1(3) \<open>d \<noteq> 0\<close> by (auto simp: word_less_def)
  moreover have "\<not> z ! 0 < 0x80 \<longrightarrow> 0x80 \<le> d" using 1(4) by (simp add: word_less_def word_le_def)
  moreover have "d < 0x80" if "z ! 0 < 0x80" using 1(3) that by (simp add: word_less_def)
  moreover have "z \<noteq> []" using z0(1) by auto
  ultimately show ?thesis using 1 by (auto simp: text_at_def peek_def)
qed

lemma text_at_next: "text_at z cs \<Longrightarrow> \<exists>z'. Utf8Next z = Some (hd (cs @ [0]), z') \<and> (cs \<noteq> [] \<longrightarrow> text_at z' (tl cs))"
  using text_at_Nil text_at_Cons by (cases cs) fastforce+

lemma fold_char_0: "fold_char nc 0 = 0"
  by (simp add: fold_char_def GlogUpperToLower_def sqlite3UpperToLower_def)

lemma fold_char_eq: "0 \<le> c \<Longrightarrow> fold_char nc c = (if nc \<and> 65 \<le> c \<and> c \<le> 90 then c + 32 else c)"
  by (auto simp: fold_char_def GlogUpperToLower_def UpperToLower_table)

lemma fold_char_facts: "0 < c \<Longrightarrow> 0 < fold_char nc c" "0 < c \<Longrightarrow> fold_char nc (fold_char nc c) = fold_char nc c"
  by (simp_all add: fold_char_eq)

subsection \<open>The loops on terminated texts\<close>

text \<open>Behind some character that folds to \<open>c\<close>.\<close>

fun after_char :: "(int \<Rightarrow> int) \<Rightarrow> int \<Rightarrow> (int list \<Rightarrow> bool) \<Rightarrow> int list \<Rightarrow> bool" where
  "after_char g c P [] \<longleftrightarrow> False"
| "after_char g c P (x # xs) \<longleftrightarrow> g x = g c \<and> P xs \<or> after_char g c P xs"

text \<open>The search for a literal computes it, when \<open>f\<close> computes \<open>P\<close>; the second part is the search from \<open>c2\<close> on.\<close>

lemma scan_lit_law:
  assumes c: "0 < c" and f: "\<And>z s. text_at z s \<Longrightarrow> f z = Some (P s)"
  shows "text_at zS ss \<Longrightarrow> scan_lit nc c f zS = Some (after_char (fold_char nc) c P ss)"
    and "text_at zS ss \<Longrightarrow> 0 < x \<Longrightarrow> do { (c2, zS'') \<leftarrow> find_char nc (fold_char nc c) (fold_char nc x) zS;
        if c2 = 0 then Some False else do { r \<leftarrow> f zS''; if r then Some True else scan_lit nc c f zS'' } }
      = Some (fold_char nc x = fold_char nc c \<and> P ss \<or> after_char (fold_char nc) c P ss)"
proof (induction ss arbitrary: zS x)
  case Nil
  {
    case 1
    from text_at_Nil [OF 1] obtain z' where "Utf8Next zS = Some (0, z')" by blast
    then show ?case by (subst scan_lit.simps) simp
  }
  note S = this
  {
    case 2
    from text_at_Nil [OF 2(1)] obtain z' where z: "Utf8Next zS = Some (0, z')" by blast
    have "0 < fold_char nc c" "0 < fold_char nc x" using fold_char_facts c 2(2) by blast+
    then show ?case using z f [OF 2(1)] S [OF 2(1)]
      by (auto simp: find_char.simps [of nc _ _ zS] find_char.simps [of nc _ 0] fold_char_0)
  }
next
  case (Cons y ss)
  {
    case 1
    from text_at_Cons [OF 1] obtain z' where z: "Utf8Next zS = Some (y, z')" "text_at z' ss" "0 < y" by blast
    then show ?case using Cons.IH(2) [OF z(2,3)] by (subst scan_lit.simps) simp
  }
  note S = this
  {
    case 2
    from text_at_Cons [OF 2(1)] obtain z' where z: "Utf8Next zS = Some (y, z')" "text_at z' ss" "0 < y" by blast
    have p: "0 < fold_char nc c" "0 < fold_char nc x" using fold_char_facts c 2(2) by blast+
    show ?case
    proof (cases "fold_char nc x = fold_char nc c")
      case True
      then show ?thesis using p f [OF 2(1)] S [OF 2(1)] by (subst find_char.simps) (simp del: after_char.simps)
    next
      case False
      then have "find_char nc (fold_char nc c) (fold_char nc x) zS = find_char nc (fold_char nc c) (fold_char nc y) z'"
        using p z(1) by (subst find_char.simps) simp
      then show ?thesis using Cons.IH(2) [OF z(2,3)] False by simp
    qed
  }
qed

lemma after_char_matches: "after_char g c (matches g p) ss \<longleftrightarrow> matches g (Many # Lit c # p) ss"
  by (induction ss) (auto simp: matches_Many_simps)

text \<open>The search for a set: \<open>P\<close> does not hold of the empty text.\<close>

lemma scan_set_law:
  assumes f: "\<And>z s. text_at z s \<Longrightarrow> f z = Some (matches g (Member neg its # p) s)"
  shows "text_at zS ss \<Longrightarrow> scan_set f zS = Some (matches g (Many # Member neg its # p) ss)"
proof (induction ss arbitrary: zS)
  case Nil
  then show ?case using text_at_Nil [OF Nil] by (subst scan_set.simps) (auto simp: matches_Many_simps)
next
  case (Cons x ss)
  from text_at_Cons [OF Cons.prems] obtain z' n where
    "text_at z' ss" "peek zS 0 = Some (zS ! 0)" "zS ! 0 \<noteq> 0" "SQLITE_SKIP_UTF8 zS = Some n" "z' = drop n zS" by blast
  then show ?case using f [OF Cons.prems] Cons.IH by (subst scan_set.simps) (simp add: matches_Many_simps(2))
qed

lemma scan_never: "(\<And>z s. text_at z s \<Longrightarrow> f z = Some False) \<Longrightarrow> text_at zS ss \<Longrightarrow> scan_set f zS = Some False"
proof (induction ss arbitrary: zS)
  case Nil
  then show ?case using text_at_Nil [OF Nil(2)] by (subst scan_set.simps) auto
next
  case (Cons x ss)
  from text_at_Cons [OF Cons.prems(2)] obtain z' n where
    "text_at z' ss" "peek zS 0 = Some (zS ! 0)" "zS ! 0 \<noteq> 0" "SQLITE_SKIP_UTF8 zS = Some n" "z' = drop n zS" by blast
  then show ?case using Cons.prems Cons.IH [OF Cons.prems(1)] by (subst scan_set.simps) simp
qed

text \<open>The loop over the members of a set, with the read before it.\<close>

definition read_set :: "int \<Rightarrow> int \<Rightarrow> bool \<Rightarrow> u8 list \<Rightarrow> (int \<times> u8 list \<times> bool) option" where
  "read_set c pr seen z = do { (c3, z') \<leftarrow> Utf8Next z; set_loop c c3 pr seen z' }"

lemma text_at_peek: "text_at z cs \<Longrightarrow> \<exists>b. peek z 0 = Some b \<and> (b = 93 \<longleftrightarrow> cs \<noteq> [] \<and> hd cs = 93) \<and> (b = 0 \<longleftrightarrow> cs = [])"
proof (cases cs)
  case (Cons c cs')
  assume "text_at z cs"
  with Cons text_at_Cons [of z c cs'] have f: "peek z 0 = Some (z ! 0)" "z ! 0 \<noteq> 0" "c < 0x80 \<longleftrightarrow> z ! 0 < 0x80" "c < 0x80 \<longrightarrow> c = uint (z ! 0)" by auto
  have "z ! 0 = 93 \<longleftrightarrow> c = 93"
  proof
    assume "z ! 0 = 93" then show "c = 93" using f(3,4) by simp
  next
    assume "c = 93" then show "z ! 0 = 93" using f(4) by (simp add: word_uint_eq_iff)
  qed
  then show ?thesis using f(1,2) Cons by simp
qed (use text_at_Nil in fastforce)

lemma read_set_law:
  "text_at z cs \<Longrightarrow>
   (case set_items pr cs of None \<Rightarrow> \<exists>z' s. read_set x pr seen z = Some (0, z', s)
    | Some (its, r) \<Rightarrow> \<exists>z'. read_set x pr seen z = Some (93, z', seen \<or> list_ex (in_item x) its) \<and> text_at z' r)"
proof (induction pr cs arbitrary: z seen rule: set_items.induct)
  case (1 pr)
  from text_at_Nil [OF 1] show ?case by (auto simp: read_set_def set_loop.simps [of _ 0])
next
  case (2 pr c cs)
  from text_at_Cons [OF "2.prems"] obtain z1 where z: "Utf8Next z = Some (c, z1)" "text_at z1 cs" "0 < c" by blast
  from text_at_peek [OF z(2)] obtain b where b: "peek z1 0 = Some b" "b = 93 \<longleftrightarrow> cs \<noteq> [] \<and> hd cs = 93" "b = 0 \<longleftrightarrow> cs = []" by blast
  have unfold: "read_set x pr seen z = (if c \<noteq> 93 then
      (if c = 45 \<and> b \<noteq> 93 \<and> b \<noteq> 0 \<and> 0 < pr then do { (e, z2) \<leftarrow> Utf8Next z1; read_set x 0 (seen \<or> pr \<le> x \<and> x \<le> e) z2 }
       else read_set x c (seen \<or> x = c) z1) else Some (93, z1, seen))"
    unfolding read_set_def using z(1,3) b(1) by (simp add: set_loop.simps [of x c])
  consider "c = 93" | "c \<noteq> 93" "c = 45" "0 < pr" "cs = []" | e cs' where "c \<noteq> 93" "c = 45" "0 < pr" "cs = e # cs'" "e = 93"
    | e cs' where "c \<noteq> 93" "c = 45" "0 < pr" "cs = e # cs'" "e \<noteq> 93" | "c \<noteq> 93" "\<not> (c = 45 \<and> 0 < pr)" by (cases cs) blast+
  then show ?case
  proof cases
    case 1
    then show ?thesis using unfold z(2) by simp
  next
    case 2
    then show ?thesis using unfold b text_at_Nil [of z1] z(2) by (auto simp: read_set_def set_loop.simps [of _ 0])
  next
    case (3 e cs')
    then obtain z2 where "Utf8Next z1 = Some (93, z2)" "text_at z2 cs'" using text_at_Cons [of z1 e cs'] z(2) by blast
    then show ?thesis using unfold b 3 by (auto simp: read_set_def set_loop.simps [of _ 93])
  next
    case (4 e cs')
    then obtain z2 where z2: "Utf8Next z1 = Some (e, z2)" "text_at z2 cs'" using text_at_Cons [of z1 e cs'] z(2) by blast
    have "read_set x pr seen z = read_set x 0 (seen \<or> pr \<le> x \<and> x \<le> e) z2" using unfold b 4 z2(1) by simp
    then show ?thesis using "2.IH"(1) [of e cs' z2 "seen \<or> pr \<le> x \<and> x \<le> e"] 4 z2(2) by (auto split: option.splits)
  next
    case 5
    have "read_set x pr seen z = read_set x c (seen \<or> x = c) z1" using unfold 5 by auto
    then show ?thesis using "2.IH"(2) [of z1 "seen \<or> x = c"] 5 z(2) by (auto split: option.splits)
  qed
qed

text \<open>The first character of \<open>cs\<close> (0 at the end) has been read.\<close>

definition read_at :: "int \<Rightarrow> u8 list \<Rightarrow> int list \<Rightarrow> bool" where
  "read_at c z cs \<longleftrightarrow> (\<exists>z0. text_at z0 cs \<and> Utf8Next z0 = Some (c, z))"

lemma read_at_next: "text_at z cs \<Longrightarrow> \<exists>z'. Utf8Next z = Some (hd (cs @ [0]), z') \<and> read_at (hd (cs @ [0])) z' cs"
  using text_at_next [of z cs] by (auto simp: read_at_def)

lemma read_at_skip:
  assumes "read_at c z cs" "a \<noteq> 0"
  shows "\<exists>c' z'. (if c = a then Utf8Next z else Some (c, z)) = Some (c', z') \<and> read_at c' z' (if cs \<noteq> [] \<and> hd cs = a then tl cs else cs)"
    and "c = a \<longleftrightarrow> cs \<noteq> [] \<and> hd cs = a"
proof -
  obtain z0 where z0: "text_at z0 cs" "Utf8Next z0 = Some (c, z)" using assms(1) by (auto simp: read_at_def)
  from text_at_next [OF z0(1)] z0(2) have n: "c = hd (cs @ [0])" "cs \<noteq> [] \<longrightarrow> text_at z (tl cs)" by auto
  then show c: "c = a \<longleftrightarrow> cs \<noteq> [] \<and> hd cs = a" using assms(2) by (cases cs) auto
  show "\<exists>c' z'. (if c = a then Utf8Next z else Some (c, z)) = Some (c', z') \<and> read_at c' z' (if cs \<noteq> [] \<and> hd cs = a then tl cs else cs)"
  proof (cases "c = a")
    case True
    then have "text_at z (tl cs)" using c n(2) by blast
    then show ?thesis using read_at_next [of z "tl cs"] True c by auto
  qed (use assms(1) c in auto)
qed

lemma read_at_set:
  assumes "read_at c z cs"
  shows "case set_items pr cs of None \<Rightarrow> \<exists>z' s. set_loop x c pr seen z = Some (0, z', s)
    | Some (its, r) \<Rightarrow> \<exists>z'. set_loop x c pr seen z = Some (93, z', seen \<or> list_ex (in_item x) its) \<and> text_at z' r"
proof -
  obtain z0 where z0: "text_at z0 cs" "Utf8Next z0 = Some (c, z)" using assms by (auto simp: read_at_def)
  then have "read_set x pr seen z0 = set_loop x c pr seen z" by (simp add: read_set_def)
  with read_set_law [OF z0(1), where pr = pr and x = x and seen = seen] show ?thesis by (auto split: option.splits)
qed

lemma match_set_law:
  assumes "text_at zP ps" "text_at zS ss"
  shows "case parse_set ps of None \<Rightarrow> match_set zP zS = Some None
    | Some (neg, its, r) \<Rightarrow>
        (case ss of [] \<Rightarrow> match_set zP zS = Some None
         | x # ss' \<Rightarrow> if list_ex (in_item x) its \<noteq> neg
             then \<exists>zP' zS'. match_set zP zS = Some (Some (zP', zS')) \<and> text_at zP' r \<and> text_at zS' ss'
             else match_set zP zS = Some None)"
proof (cases ss)
  case Nil
  then show ?thesis using text_at_Nil [of zS] assms(2) by (auto simp: match_set_def split: option.splits)
next
  case (Cons x ss')
  then obtain zS' where s: "Utf8Next zS = Some (x, zS')" "text_at zS' ss'" "0 < x" using text_at_Cons assms(2) by blast
  define cs1 where "cs1 = (if ps \<noteq> [] \<and> hd ps = 94 then tl ps else ps)"
  define cs2 where "cs2 = (if cs1 \<noteq> [] \<and> hd cs1 = 93 then tl cs1 else cs1)"
  obtain c0 z0 where 0: "Utf8Next zP = Some (c0, z0)" "read_at c0 z0 ps" using read_at_next [OF assms(1)] by blast
  obtain c1 z1 where 1: "(if c0 = 94 then Utf8Next z0 else Some (c0, z0)) = Some (c1, z1)" "read_at c1 z1 cs1"
    using read_at_skip(1) [OF 0(2), of 94] unfolding cs1_def by auto
  obtain c2 z2 where 2: "(if c1 = 93 then Utf8Next z1 else Some (c1, z1)) = Some (c2, z2)" "read_at c2 z2 cs2"
    using read_at_skip(1) [OF 1(2), of 93] unfolding cs2_def by auto
  have f: "c0 = 94 \<longleftrightarrow> ps \<noteq> [] \<and> hd ps = 94" "c1 = 93 \<longleftrightarrow> cs1 \<noteq> [] \<and> hd cs1 = 93"
    using read_at_skip(2) [OF 0(2), of 94] read_at_skip(2) [OF 1(2), of 93] by simp_all
  have step: "match_set zP zS = do { (c2, zP, seen) \<leftarrow> set_loop x c2 0 (c1 = 93 \<and> x = 93) z2;
      if c2 = 0 \<or> seen = (c0 = 94) then Some None else Some (Some (zP, zS')) }"
    using s(1,3) 0(1) 1(1) 2(1) by (simp add: match_set_def Let_def)
  have ps: "parse_set ps = map_option (\<lambda>(its, r). (c0 = 94, (if c1 = 93 then Single 93 # its else its), r)) (set_items 0 cs2)"
    by (simp add: parse_set_def Let_def f cs2_def cs1_def)
  show ?thesis
  proof (cases "set_items 0 cs2")
    case None
    then show ?thesis using read_at_set [OF 2(2), where pr = 0 and x = x and seen = "c1 = 93 \<and> x = 93"] ps step by auto
  next
    case (Some ir)
    obtain its r where ir: "ir = (its, r)" by (cases ir)
    then obtain z' where "set_loop x c2 0 (c1 = 93 \<and> x = 93) z2 = Some (93, z', c1 = 93 \<and> x = 93 \<or> list_ex (in_item x) its)" "text_at z' r"
      using read_at_set [OF 2(2), where pr = 0 and x = x and seen = "c1 = 93 \<and> x = 93"] Some by auto
    then show ?thesis using step ps Some ir Cons s(2) by auto
  qed
qed

text \<open>The loop behind \<open>matchAll\<close>.\<close>

text \<open>What is asked of a \<open>compareInfo\<close> and an escape character: GLOB, or LIKE with any escape character.\<close>

definition info_ok :: "compareInfo \<Rightarrow> int \<Rightarrow> bool" where
  "info_ok info esc \<longleftrightarrow> matchAll info \<noteq> 0 \<and> matchOne info \<noteq> 0 \<and> matchAll info \<noteq> matchOne info
     \<and> matchSet info < 0x80 \<and> (matchSet info \<noteq> 0 \<longrightarrow> esc = 0 \<and> matchSet info \<noteq> matchAll info \<and> matchSet info \<noteq> matchOne info)"

lemma star_skip_law:
  assumes "info_ok info esc"
  shows "text_at zP ps \<Longrightarrow> text_at zS ss \<Longrightarrow>
   \<exists>r. star_skip info zP zS = Some r \<and>
    (case r of None \<Rightarrow> \<not> matches g (Many # parse info esc True ps) ss
     | Some (c, zQ, zP', zS') \<Rightarrow> \<exists>qs ts. text_at zQ qs \<and> length qs \<le> length ps \<and> Utf8Next zQ = Some (c, zP') \<and> c = hd (qs @ [0])
         \<and> c \<noteq> uint (matchAll info) \<and> c \<noteq> uint (matchOne info) \<and> (qs \<noteq> [] \<longrightarrow> text_at zP' (tl qs)) \<and> text_at zS' ts
         \<and> matches g (Many # parse info esc True ps) ss = matches g (Many # parse info esc True qs) ts)"
proof (induction ps arbitrary: zP zS ss)
  case Nil
  then show ?case using text_at_next [OF Nil(1)] assms
    by (subst star_skip.simps) (fastforce simp: info_ok_def word_uint_eq_iff)
next
  case (Cons c ps)
  from text_at_Cons [OF Cons.prems(1)] obtain z1 where z: "Utf8Next zP = Some (c, z1)" "text_at z1 ps" "0 < c" by blast
  consider "c = uint (matchAll info)" "c \<noteq> uint (matchOne info)" | "c = uint (matchOne info)" "c \<noteq> uint (matchAll info)" "ss = []"
    | x ss' where "c = uint (matchOne info)" "c \<noteq> uint (matchAll info)" "ss = x # ss'"
    | "c \<noteq> uint (matchAll info)" "c \<noteq> uint (matchOne info)"
    using assms by (cases ss) (auto simp: info_ok_def word_uint_eq_iff)
  then show ?case
  proof cases
    case 1
    then have "star_skip info zP zS = star_skip info z1 zS" using z(1) by (subst star_skip.simps) simp
    moreover have "matches g (Many # parse info esc True (c # ps)) ss = matches g (Many # parse info esc True ps) ss"
      using 1 by (simp add: matches_Many_Many)
    ultimately show ?thesis using Cons.IH [OF z(2) Cons.prems(2)] by (fastforce split: option.splits)
  next
    case 2
    then have "star_skip info zP zS = Some None" using z(1) text_at_Nil [of zS] Cons.prems(2) by (subst star_skip.simps) auto
    then show ?thesis using 2 by (simp add: matches_Many_One)
  next
    case (3 x ss')
    then obtain z2 where z2: "Utf8Next zS = Some (x, z2)" "text_at z2 ss'" "0 < x" using text_at_Cons [of zS x ss'] Cons.prems(2) by blast
    then have "star_skip info zP zS = star_skip info z1 z2" using z(1) 3 by (subst star_skip.simps) simp
    moreover have "matches g (Many # parse info esc True (c # ps)) ss = matches g (Many # parse info esc True ps) ss'"
      using 3 by (simp add: matches_Many_One)
    ultimately show ?thesis using Cons.IH [OF z(2) z2(2)] by (fastforce split: option.splits)
  next
    case 4
    then have "star_skip info zP zS = Some (Some (c, zP, z1, zS))" using z(1) by (subst star_skip.simps) simp
    moreover have "\<exists>qs ts. text_at zP qs \<and> length qs \<le> length (c # ps) \<and> Utf8Next zP = Some (c, z1) \<and> c = hd (qs @ [0])
         \<and> c \<noteq> uint (matchAll info) \<and> c \<noteq> uint (matchOne info) \<and> (qs \<noteq> [] \<longrightarrow> text_at z1 (tl qs)) \<and> text_at zS ts
         \<and> matches g (Many # parse info esc True (c # ps)) ss = matches g (Many # parse info esc True qs) ts"
      using 4 z(1,2) Cons.prems by (intro exI [of _ "c # ps"] exI [of _ ss]) (simp del: parse.simps)
    ultimately show ?thesis by (simp del: parse.simps)
  qed
qed


subsection \<open>The matcher decides the language\<close>

lemma one_back_text:
  assumes "text_at zQ (c # qs)" "Utf8Next zQ = Some (c, zP')" "c < 0x80" shows "one_back zQ zP' = zQ"
  using text_at_Cons [OF assms(1)] assms(2,3) Utf8Next_shorter [OF assms(2)] by (auto simp: one_back_def)

lemma matches_never: "matches g (Many # [Never]) s \<longleftrightarrow> False"
  by (induction s) (simp_all add: matches_Many_simps)

lemma star_case:
  assumes ok: "info_ok info esc" and zP: "text_at z1 cs" and zS: "text_at zS ss"
    and f: "\<And>z s qs r. text_at z qs \<Longrightarrow> text_at s r \<Longrightarrow> length qs \<le> length cs \<Longrightarrow>
      f z s = Some (matches (fold_char (noCase info)) (parse info esc False qs) r)"
  shows "do {
       r \<leftarrow> star_skip info z1 zS;
       (case r of None \<Rightarrow> Some False
        | Some (c, zQ, zP2, zS2) \<Rightarrow>
            if c = 0 then Some True
            else if c = esc then do {
              (c, zP3) \<leftarrow> Utf8Next zP2;
              if c = 0 then Some False else scan_lit (noCase info) c (\<lambda>z. f zP3 z) zS2 }
            else if c = uint (matchSet info) then scan_set (\<lambda>z. f (one_back zQ zP2) z) zS2
            else scan_lit (noCase info) c (\<lambda>z. f zP2 z) zS2) }
     = Some (matches (fold_char (noCase info)) (Many # parse info esc True cs) ss)"
proof -
  let ?g = "fold_char (noCase info)"
  from star_skip_law [OF ok zP zS, of ?g] obtain r where r: "star_skip info z1 zS = Some r"
    "case r of None \<Rightarrow> \<not> matches ?g (Many # parse info esc True cs) ss
     | Some (c, zQ, zP', zS') \<Rightarrow> \<exists>qs ts. text_at zQ qs \<and> length qs \<le> length cs \<and> Utf8Next zQ = Some (c, zP') \<and> c = hd (qs @ [0])
         \<and> c \<noteq> uint (matchAll info) \<and> c \<noteq> uint (matchOne info) \<and> (qs \<noteq> [] \<longrightarrow> text_at zP' (tl qs)) \<and> text_at zS' ts
         \<and> matches ?g (Many # parse info esc True cs) ss = matches ?g (Many # parse info esc True qs) ts" by blast
  show ?thesis
  proof (cases r)
    case None
    then show ?thesis using r by simp
  next
    case (Some q)
    obtain c zQ zP' zS' where q: "q = (c, zQ, zP', zS')" by (metis surj_pair)
    with Some r(2) obtain qs ts where s: "text_at zQ qs" "length qs \<le> length cs" "Utf8Next zQ = Some (c, zP')" "c = hd (qs @ [0])"
      "c \<noteq> uint (matchAll info)" "c \<noteq> uint (matchOne info)" "qs \<noteq> [] \<longrightarrow> text_at zP' (tl qs)" "text_at zS' ts"
      "matches ?g (Many # parse info esc True cs) ss = matches ?g (Many # parse info esc True qs) ts" by auto
    show ?thesis
    proof (cases qs)
      case Nil
      then show ?thesis using r(1) Some q s(4,9) by (simp add: matches_Many)
    next
      case (Cons d qs')
      have c: "c = d" "0 < c" "text_at zP' qs'" using s(4,7) Cons text_at_Cons [of zQ d qs'] s(1) by auto
      have lq: "length qs' \<le> length cs" using s(2) Cons by simp
      consider "c = esc" "qs' = []" | e es where "c = esc" "qs' = e # es" | "c \<noteq> esc" "c = uint (matchSet info)"
        | "c \<noteq> esc" "c \<noteq> uint (matchSet info)" by (cases qs') blast+
      then show ?thesis
      proof cases
        case 1
        have "c \<noteq> uint (matchSet info)" using ok 1(1) c(2) by (auto simp: info_ok_def word_uint_eq_iff)
        then have "parse info esc True qs = [Never]" using 1 Cons c(1) s(5,6) by simp
        then show ?thesis using 1 r(1) Some q c s(9) text_at_Nil [of zP'] by (auto simp: matches_never)
      next
        case 2
        have ns: "c \<noteq> uint (matchSet info)" using ok 2(1) c(2) by (auto simp: info_ok_def word_uint_eq_iff)
        obtain zP3 where e: "Utf8Next zP' = Some (e, zP3)" "text_at zP3 es" "0 < e" using text_at_Cons c(3) 2(2) by blast
        have "scan_lit (noCase info) e (\<lambda>z. f zP3 z) zS' = Some (after_char ?g e (matches ?g (parse info esc False es)) ts)"
          by (rule scan_lit_law(1) [OF e(3) _ s(8)]) (use f [OF e(2)] lq 2 in simp)
        then show ?thesis using 2 ns r(1) Some q c(1,2) s(5,6,9) e Cons by (simp add: after_char_matches)
      next
        case 3
        have "c < 0x80" using ok 3(2) by (simp add: info_ok_def word_less_def)
        then have b: "one_back zQ zP' = zQ" using one_back_text [of zQ c qs' zP'] s(1,3) Cons c(1) by simp
        have fz: "f zQ z = Some (matches ?g (parse info esc False qs) r)" if "text_at z r" for z r using f [OF s(1) that s(2)] .
        show ?thesis
        proof (cases "parse_set qs'")
          case None
          then have p: "parse info esc st qs = [Never]" for st using 3 Cons c(1) s(5,6) by simp
          then have "scan_set (\<lambda>z. f zQ z) zS' = Some False" using scan_never [OF _ s(8), of "f zQ"] fz by simp
          then show ?thesis using 3 b p r(1) Some q c(2) s(9) by (simp add: matches_never)
        next
          case (Some pr)
          obtain neg its rest where pr: "pr = (neg, its, rest)" by (metis surj_pair)
          then have p: "parse info esc st qs = Member neg its # parse info esc False rest" for st using Some 3 Cons c(1) s(5,6) by simp
          then have "scan_set (\<lambda>z. f zQ z) zS' = Some (matches ?g (Many # Member neg its # parse info esc False rest) ts)"
            using scan_set_law [OF _ s(8), of "f zQ" ?g neg its "parse info esc False rest"] fz by simp
          then show ?thesis using 3 b p r(1) \<open>r = Some q\<close> q c(2) s(9) by simp
        qed
      next
        case 4
        have "scan_lit (noCase info) c (\<lambda>z. f zP' z) zS' = Some (after_char ?g c (matches ?g (parse info esc False qs')) ts)"
          by (rule scan_lit_law(1) [OF c(2) _ s(8)]) (use f [OF c(3)] lq in simp)
        then show ?thesis using 4 r(1) Some q c(1,2) s(5,6,9) Cons by (simp add: after_char_matches)
      qed
    qed
  qed
qed

lemma pattern_loop_law:
  assumes ok: "info_ok info esc"
  shows "text_at zP ps \<Longrightarrow> text_at zS ss \<Longrightarrow> (pE \<Longrightarrow> matchSet info = 0) \<Longrightarrow>
    pattern_loop info esc pE zP zS = Some (matches (fold_char (noCase info))
      (if pE then (case ps of [] \<Rightarrow> [] | d # ds \<Rightarrow> Lit d # parse info esc False ds) else parse info esc False ps) ss)"
proof (induction "length ps" arbitrary: ps zP zS ss pE rule: less_induct)
  case less
  let ?g = "fold_char (noCase info)"
  show ?case
  proof (cases ps)
    case Nil
    then obtain z' where z: "Utf8Next zP = Some (0, z')" using text_at_Nil less.prems(1) by blast
    from text_at_peek [OF less.prems(2)] obtain b where "peek zS 0 = Some b" "b = 0 \<longleftrightarrow> ss = []" by blast
    then show ?thesis using z Nil by (subst pattern_loop.simps) simp
  next
    case (Cons c cs)
    obtain z1 where z: "Utf8Next zP = Some (c, z1)" "text_at z1 cs" "0 < c" using text_at_Cons less.prems(1) Cons by blast
    have IH: "pattern_loop info esc False z s = Some (matches ?g (parse info esc False qs) r)"
      if "text_at z qs" "text_at s r" "length qs \<le> length cs" for z qs s r using less.hyps [OF _ that(1,2), of False] that(3) Cons by simp
    have literal: "do { (c2, zS1) \<leftarrow> Utf8Next zS; if ?g c \<noteq> ?g c2 then Some False else pattern_loop info esc False z1 zS1 }
      = Some (matches ?g (Lit c # parse info esc False cs) ss)"
    proof (cases ss)
      case Nil
      have "?g c \<noteq> ?g 0" using fold_char_facts(1) [OF z(3), of "noCase info"] fold_char_0 [of "noCase info"] by simp
      then show ?thesis using text_at_Nil [of zS] less.prems(2) Nil by auto
    next
      case (Cons x ss')
      then obtain z2 where "Utf8Next zS = Some (x, z2)" "text_at z2 ss'" "0 < x" using text_at_Cons less.prems(2) by blast
      then show ?thesis using IH [OF z(2), of z2 ss'] Cons by auto
    qed
    consider (all) "\<not> pE" "c = uint (matchAll info)" | (one) "\<not> pE" "c \<noteq> uint (matchAll info)" "c = uint (matchOne info)"
      | (set) "\<not> pE" "c \<noteq> uint (matchAll info)" "c \<noteq> uint (matchOne info)" "c = uint (matchSet info)"
      | (esc) "\<not> pE" "c \<noteq> uint (matchAll info)" "c \<noteq> uint (matchOne info)" "c \<noteq> uint (matchSet info)" "c = esc"
      | (lit) "\<not> pE" "c \<noteq> uint (matchAll info)" "c \<noteq> uint (matchOne info)" "c \<noteq> uint (matchSet info)" "c \<noteq> esc"
      | (escaped) "pE" by blast
    then show ?thesis
    proof cases
      case all
      then show ?thesis using star_case [OF ok z(2) less.prems(2), of "pattern_loop info esc False"] IH z(1,3) Cons
        by (subst pattern_loop.simps) simp
    next
      case one
      show ?thesis
      proof (cases ss)
        case Nil
        then show ?thesis using one z text_at_Nil [of zS] less.prems(2) Cons by (subst pattern_loop.simps) auto
      next
        case (Cons x ss')
        then obtain z2 where "Utf8Next zS = Some (x, z2)" "text_at z2 ss'" "0 < x" using text_at_Cons less.prems(2) by blast
        then show ?thesis using one z IH [of z1 cs z2 ss'] \<open>ps = c # cs\<close> Cons by (subst pattern_loop.simps) simp
      qed
    next
      case set
      have step: "pattern_loop info esc pE zP zS = do { r \<leftarrow> match_set z1 zS;
          (case r of None \<Rightarrow> Some False | Some (zP2, zS1) \<Rightarrow> pattern_loop info esc False zP2 zS1) }"
        using set z by (subst pattern_loop.simps) simp
      show ?thesis
      proof (cases "parse_set cs")
        case None
        then show ?thesis using step match_set_law [OF z(2) less.prems(2)] set Cons by simp
      next
        case (Some pr)
        obtain neg its rest where pr: "parse_set cs = Some (neg, its, rest)" using Some by (metis surj_pair)
        then have "length rest \<le> length cs" using parse_set_shorter [OF pr] by simp
        then show ?thesis using step match_set_law [OF z(2) less.prems(2)] set Cons pr IH
          by (cases ss) (auto split: if_splits)
      qed
    next
      case esc
      have "matchSet info = 0" using ok esc(5) z(3) by (auto simp: info_ok_def)
      moreover have "pattern_loop info esc pE zP zS = pattern_loop info esc True z1 zS" using esc z by (subst pattern_loop.simps) simp
      ultimately have "pattern_loop info esc pE zP zS = Some (matches ?g (case cs of [] \<Rightarrow> [] | d # ds \<Rightarrow> Lit d # parse info esc False ds) ss)"
        using less.hyps [OF _ z(2) less.prems(2), of True] Cons by simp
      then show ?thesis using esc Cons by simp
    next
      case lit
      then show ?thesis using literal z Cons by (subst pattern_loop.simps) simp
    next
      case escaped
      then have "c \<noteq> uint (matchSet info)" using less.prems(3) z(3) by simp
      then show ?thesis using literal z Cons escaped by (subst pattern_loop.simps) simp
    qed
  qed
qed

subsection \<open>The SQL functions like and glob\<close>

definition patternCompare :: "u8 list \<Rightarrow> u8 list \<Rightarrow> compareInfo \<Rightarrow> int \<Rightarrow> bool option" where
  "patternCompare zPattern zString info esc = pattern_loop info esc False zPattern zString"

datatype func_result = ResNull | ResError string | ResInt int

text \<open>
  \<open>zB\<close> and \<open>zA\<close> are what sqlite3_value_text returns for the pattern and the text, \<open>nB\<close> the number of
  bytes of the pattern; \<open>zEsc\<close> is the third argument, if there is one.
\<close>

definition likeFunc :: "compareInfo \<Rightarrow> nat \<Rightarrow> u8 list option \<Rightarrow> nat \<Rightarrow> u8 list option \<Rightarrow> u8 list option option \<Rightarrow> func_result option" where
  "likeFunc info limit zB nB zA zEsc =
     (if nB > limit then Some (ResError ''LIKE or GLOB pattern too complex'')
      else
        let compare = (\<lambda>escape. (case (zA, zB) of
              (Some a, Some b) \<Rightarrow> do { r \<leftarrow> patternCompare b a info escape; Some (ResInt (if r then 1 else 0)) }
            | _ \<Rightarrow> Some ResNull)) in
        (case zEsc of
           None \<Rightarrow> compare 0
         | Some None \<Rightarrow> Some ResNull
         | Some (Some e) \<Rightarrow> do {
             n \<leftarrow> sqlite3Utf8CharLen e (- 1);
             if n \<noteq> 1 then Some (ResError ''ESCAPE expression must be a single character'')
             else do { (escape, _) \<leftarrow> Utf8Next e; compare escape } }))"

text \<open>A text in memory: the characters and the terminator.\<close>

definition utf8z :: "u32 list \<Rightarrow> u8 list" where
  "utf8z cs = utf_text WRITE_UTF8 cs @ [0]"

definition sql_text :: "u32 list \<Rightarrow> bool" where
  "sql_text cs \<longleftrightarrow> (\<forall>c \<in> set cs. utf_char c \<and> c \<noteq> 0)"

lemma sql_text_simps [simp]: "sql_text []" "sql_text (c # cs) \<longleftrightarrow> utf_char c \<and> c \<noteq> 0 \<and> sql_text cs"
  by (simp_all add: sql_text_def)

lemma utf8_next_written: "sql_text (c # cs) \<Longrightarrow> Utf8Next (utf8z (c # cs)) = Some (uint c, utf8z cs)"
proof -
  assume a: "sql_text (c # cs)"
  then have c: "c < 0x110000" "utf8_value c = c" by (simp_all add: utf_char_def utf8_value_def)
  have "\<forall>c \<in> set cs. c < 0x110000" using a by (simp add: sql_text_def utf_char_def)
  then have "\<exists>b r. utf8z cs = b # r \<and> b AND 0xC0 \<noteq> 0x80" using text_start [of cs "[]"] by (simp add: utf8z_def)
  then have "sqlite3Utf8Read (WRITE_UTF8 c @ utf8z cs) (length (WRITE_UTF8 c) + Suc (length (utf8z cs))) = Some (utf8_value c, length (WRITE_UTF8 c))"
    unfolding sqlite3Utf8Read_def using sint_code_point [OF c(1)] by (intro read_utf8_written [OF c(1)]) (simp_all add: word_less_def)
  then show ?thesis using c sint_code_point [OF c(1)] by (simp add: Utf8Next_def utf8z_def)
qed

lemma utf8z_text: "sql_text cs \<Longrightarrow> text_at (utf8z cs) (map uint cs)"
proof (induction cs)
  case Nil
  show ?case by (simp add: text_at_def utf8z_def chars.simps [of "[0]"] Utf8Next_def sqlite3Utf8Read_def READ_UTF8_def)
next
  case (Cons c cs)
  then have "text_at (utf8z cs) (map uint cs)" by simp
  then show ?case using utf8_next_written [OF Cons.prems] Cons.prems chars.simps [of "utf8z (c # cs)"]
    by (auto simp: text_at_def utf8z_def word_uint_eq_iff)
qed

lemma infos_ok: "info_ok globInfo 0" "info_ok likeInfoNorm esc" "info_ok likeInfoAlt esc"
  by (simp_all add: info_ok_def globInfo_def likeInfoNorm_def likeInfoAlt_def)

text \<open>
  C7: On terminated texts patternCompare returns, without reading past a terminator, and decides
  whether the text is in the language of the pattern: whether it splits into one part for each item,
  any part for a matchAll, one character for a matchOne, for a set or for a literal. The texts may
  be any bytes.
\<close>

theorem pattern_compare_decides_language:
  assumes "0 \<in> set zPattern" "0 \<in> set zString" "info = globInfo \<and> esc = 0 \<or> info = likeInfoNorm \<or> info = likeInfoAlt"
  shows "patternCompare zPattern zString info esc
    = Some (matches (fold_char (noCase info)) (parse info esc False (chars zPattern)) (chars zString))"
  using pattern_loop_law [of info esc zPattern "chars zPattern" zString "chars zString" False] assms infos_ok
  by (auto simp: patternCompare_def text_at_def)

text \<open>\<open>"a*[^b-d]?" GLOB "axyz"\<close>.\<close>

theorem pattern_compare_decides_language_witness:
  "patternCompare [97, 42, 91, 94, 98, 45, 100, 93, 63, 0] [97, 120, 121, 122, 0] globInfo 0
    = Some (matches id [Lit 97, Many, Member True [Single 98, Range 98 100], One] [97, 120, 121, 122])"
proof -
  have "sql_text [97, 42, 91, 94, 98, 45, 100, 93, 63]" "sql_text [97, 120, 121, 122]"
    by (simp_all add: utf_char_def is_surrogate_def is_nonchar_def)
  from this [THEN utf8z_text] have c: "chars [97, 42, 91, 94, 98, 45, 100, 93, 63, 0] = [97, 42, 91, 94, 98, 45, 100, 93, 63]"
    "chars [97, 120, 121, 122, 0] = [97, 120, 121, 122]" by (simp_all add: text_at_def utf8z_def WRITE_UTF8_def)
  have f: "fold_char (noCase globInfo) = id" by (auto simp: fold_char_def globInfo_def)
  show ?thesis using pattern_compare_decides_language [of "[97, 42, 91, 94, 98, 45, 100, 93, 63, 0]" "[97, 120, 121, 122, 0]" globInfo 0]
    by (simp add: c f) (simp add: globInfo_def parse_set_def)
qed

text \<open>The result for two texts: NULL when one is NULL, else whether the first is in the language of the second.\<close>

definition like_result :: "compareInfo \<Rightarrow> int \<Rightarrow> u32 list option \<Rightarrow> u32 list option \<Rightarrow> func_result" where
  "like_result info esc A B = (case (A, B) of
     (Some a, Some b) \<Rightarrow> ResInt (if matches (fold_char (noCase info)) (parse info esc False (map uint b)) (map uint a) then 1 else 0)
   | _ \<Rightarrow> ResNull)"

text \<open>
  C36: The SQL function like on UTF-8 texts: the error for a pattern over the limit, NULL for an escape
  argument that is NULL, the error for an escape text that is not one character, NULL when the text or
  the pattern is NULL, and else 1 or 0 as the text is in the language of the pattern.
\<close>

theorem like_func:
  assumes "\<forall>t. A = Some t \<or> B = Some t \<or> E = Some (Some t) \<longrightarrow> sql_text t" "info = likeInfoNorm \<or> info = likeInfoAlt"
  shows "likeFunc info limit (map_option utf8z B) nB (map_option utf8z A) (map_option (map_option utf8z) E) =
    Some (if nB > limit then ResError ''LIKE or GLOB pattern too complex''
      else case E of
        None \<Rightarrow> like_result info 0 A B
      | Some None \<Rightarrow> ResNull
      | Some (Some e) \<Rightarrow> if length e \<noteq> 1 then ResError ''ESCAPE expression must be a single character''
          else like_result info (uint (hd e)) A B)"
proof -
  have pc: "patternCompare (utf8z b) (utf8z a) info esc
      = Some (matches (fold_char (noCase info)) (parse info esc False (map uint b)) (map uint a))" if "A = Some a" "B = Some b" for a b esc
    using pattern_loop_law [of info esc "utf8z b" "map uint b" "utf8z a" "map uint a" False] utf8z_text assms infos_ok that
    by (auto simp: patternCompare_def)
  then have compare: "(case (map_option utf8z A, map_option utf8z B) of
      (Some a, Some b) \<Rightarrow> do { r \<leftarrow> patternCompare b a info esc; Some (ResInt (if r then 1 else 0)) } | _ \<Rightarrow> Some ResNull)
    = Some (like_result info esc A B)" for esc
    by (cases A; cases B) (simp_all add: like_result_def)
  show ?thesis
  proof (cases E)
    case None
    then show ?thesis using compare by (simp add: likeFunc_def)
  next
    case (Some e')
    show ?thesis
    proof (cases e')
      case None
      then show ?thesis using Some by (simp add: likeFunc_def)
    next
      case e': (Some e)
      then have e: "sql_text e" using assms(1) Some by simp
      then have "sqlite3Utf8CharLen (utf8z e) (- 1) = Some (length e)"
        using charlen_text [of e "[]" None "[]" 0] by (auto simp: sqlite3Utf8CharLen_def utf8z_def sql_text_def utf_char_def)
      then show ?thesis using Some e' compare utf8_next_written [of "hd e" "tl e"] e
        by (cases e) (auto simp: likeFunc_def)
    qed
  qed
qed

text \<open>\<open>"A%" LIKE "ab" ESCAPE "!"\<close>, and the same with the escape character NULL.\<close>

theorem like_func_witness:
  "likeFunc likeInfoNorm 50000 (Some (utf8z [65, 37])) 2 (Some (utf8z [97, 98])) (Some (Some (utf8z [33]))) = Some (ResInt 1)
   \<and> likeFunc likeInfoNorm 50000 (Some (utf8z [65, 37])) 2 (Some (utf8z [97, 98])) (Some None) = Some ResNull"
proof -
  have m: "matches (fold_char True) [Lit 65, Many] [97, 98]"
    by (simp add: matches_Many_simps fold_char_eq)
  have t: "\<forall>t. Some [97, 98] = Some t \<or> Some [65, 37] = Some t \<or> E = Some (Some t) \<longrightarrow> sql_text t"
    if "E = Some (Some [33]) \<or> E = Some None" for E :: "u32 list option option"
    using that by (auto simp: utf_char_def is_surrogate_def is_nonchar_def)
  show ?thesis
    using like_func [OF t [of "Some (Some [33])"], of likeInfoNorm 50000 2] like_func [OF t [of "Some None"], of likeInfoNorm 50000 2] m
    by (simp add: like_result_def) (simp add: likeInfoNorm_def)
qed

text \<open>An escape character at the end of a pattern is ignored, but after \<open>%\<close> it matches nothing.\<close>

lemma dangling_escape:
  "parse likeInfoNorm 33 False [97, 33] = [Lit 97]" "parse likeInfoNorm 33 False [37, 33] = [Many, Never]"
  by (simp_all add: likeInfoNorm_def)

end
