(* ===== verification/BtreePage.thy ===== *)
theory BtreePage
  imports Varint
begin

text \<open>
  The pages of the B-trees of btree.c: the header, the cell pointer array, the cells and the list
  of free blocks inside the bytes of one page, and the operations that insert and remove cells.
\<close>

subsection \<open>Pages\<close>

definition PTF_INTKEY :: u8 where "PTF_INTKEY = 0x01"
definition PTF_ZERODATA :: u8 where "PTF_ZERODATA = 0x02"
definition PTF_LEAFDATA :: u8 where "PTF_LEAFDATA = 0x04"
definition PTF_LEAF :: u8 where "PTF_LEAF = 0x08"

lemmas ptf_defs [codes] = PTF_INTKEY_def PTF_ZERODATA_def PTF_LEAFDATA_def PTF_LEAF_def

text \<open>The part of BtShared that the page operations use.\<close>

record BtShared =
  pageSize :: nat
  usableSize :: nat
  bt_maxLocal :: nat
  bt_minLocal :: nat
  bt_maxLeaf :: nat
  bt_minLeaf :: nat
  autoVacuum :: bool

text \<open>\<open>aOvfl\<close> holds the contents and the indices of the \<open>nOverflow\<close> cells that do not fit.\<close>

record MemPage =
  isInit :: bool
  intKey :: bool
  leaf :: u8
  hasData :: bool
  hdrOffset :: nat
  childPtrSize :: u8
  maxLocal :: nat
  minLocal :: nat
  cellOffset :: nat
  nFree :: u16
  nCell :: nat
  maskPage :: nat
  aOvfl :: "(u8 list \<times> nat) list"
  aData :: "u8 list"

record CellInfo =
  ci_nKey :: u64
  ci_nData :: u32
  ci_nPayload :: u32
  ci_nHeader :: nat
  ci_nLocal :: nat
  ci_iOverflow :: nat
  ci_nSize :: nat

definition get2byte :: "u8 list \<Rightarrow> nat \<Rightarrow> nat option" where
  "get2byte d a = do { x \<leftarrow> peek d a; y \<leftarrow> peek d (a + 1); Some (unat x * 256 + unat y) }"

definition put2byte :: "u8 list \<Rightarrow> nat \<Rightarrow> nat \<Rightarrow> u8 list option" where
  "put2byte d a v = do { d \<leftarrow> poke d a (word_of_nat (v div 256)); poke d (a + 1) (word_of_nat v) }"

text \<open>\<open>memcpy(&d[a], bs, ...)\<close>\<close>

definition put_bytes :: "u8 list \<Rightarrow> nat \<Rightarrow> u8 list \<Rightarrow> u8 list option" where
  "put_bytes d a bs = (if a + length bs \<le> length d then Some (take a d @ bs @ drop (a + length bs) d) else None)"

definition get_bytes :: "u8 list \<Rightarrow> nat \<Rightarrow> nat \<Rightarrow> u8 list option" where
  "get_bytes d a n = (if a + n \<le> length d then Some (take n (drop a d)) else None)"

subsection \<open>Cells\<close>

text \<open>The u16 fields of CellInfo are assigned from an int.\<close>

abbreviation trunc16 :: "nat \<Rightarrow> nat" where "trunc16 n \<equiv> n mod 2 ^ 16"

text \<open>The header: its length, nKey, nData and nPayload.\<close>

definition cell_header :: "MemPage \<Rightarrow> u8 list \<Rightarrow> (nat \<times> u64 \<times> u32 \<times> u32) option" where
  "cell_header p pCell =
     (let n = unat (childPtrSize p) in
      if intKey p then do {
        (n, nPayload) \<leftarrow> (if hasData p then do { (k, v) \<leftarrow> getVarint32 (drop n pCell); Some (n + k, v) } else Some (n, 0));
        (k, nKey) \<leftarrow> sqlite3GetVarint (drop n pCell);
        Some (n + k, nKey, nPayload, nPayload) }
      else do {
        (k, nPayload) \<leftarrow> getVarint32 (drop n pCell);
        Some (n + k, ucast nPayload, 0, nPayload) })"

definition sqlite3BtreeParseCellPtr :: "BtShared \<Rightarrow> MemPage \<Rightarrow> u8 list \<Rightarrow> CellInfo option" where
  "sqlite3BtreeParseCellPtr bt p pCell = do {
     (n, nKey, nData, nPayload) \<leftarrow> cell_header p pCell;
     let nPay = unat nPayload;
     if nPay \<le> maxLocal p then
       Some \<lparr>ci_nKey = nKey, ci_nData = nData, ci_nPayload = nPayload, ci_nHeader = trunc16 n, ci_nLocal = trunc16 nPay,
             ci_iOverflow = 0, ci_nSize = trunc16 (if nPay + n < 4 then 4 else nPay + n)\<rparr>
     else if usableSize bt = 4 \<or> nPay < minLocal p then None
     else
       (let surplus = minLocal p + (nPay - minLocal p) mod (usableSize bt - 4);
            nLocal = trunc16 (if surplus \<le> maxLocal p then surplus else minLocal p);
            iOverflow = trunc16 (nLocal + n) in
        Some \<lparr>ci_nKey = nKey, ci_nData = nData, ci_nPayload = nPayload, ci_nHeader = trunc16 n, ci_nLocal = nLocal,
              ci_iOverflow = iOverflow, ci_nSize = trunc16 (iOverflow + 4)\<rparr>)
   }"

definition cellSizePtr :: "BtShared \<Rightarrow> MemPage \<Rightarrow> u8 list \<Rightarrow> nat option" where
  "cellSizePtr bt p pCell = map_option ci_nSize (sqlite3BtreeParseCellPtr bt p pCell)"

definition findCell :: "MemPage \<Rightarrow> nat \<Rightarrow> nat option" where
  "findCell p i = do { a \<leftarrow> get2byte (aData p) (cellOffset p + 2 * i); Some (maskPage p AND a) }"

definition sqlite3BtreeParseCell :: "BtShared \<Rightarrow> MemPage \<Rightarrow> nat \<Rightarrow> CellInfo option" where
  "sqlite3BtreeParseCell bt p iCell = do { a \<leftarrow> findCell p iCell; sqlite3BtreeParseCellPtr bt p (drop a (aData p)) }"

text \<open>The content of a cell on a page with overflow cells, searched from the last overflow cell on.\<close>

fun find_ovfl :: "(u8 list \<times> nat) list \<Rightarrow> nat \<Rightarrow> u8 list + nat" where
  "find_ovfl [] iCell = Inr iCell"
| "find_ovfl ((c, k) # os) iCell = (if k \<le> iCell then if k = iCell then Inl c else find_ovfl os (iCell - 1) else find_ovfl os iCell)"

definition findOverflowCell :: "MemPage \<Rightarrow> nat \<Rightarrow> u8 list option" where
  "findOverflowCell p iCell = (case find_ovfl (rev (aOvfl p)) iCell of
     Inl c \<Rightarrow> Some c
   | Inr i \<Rightarrow> do { a \<leftarrow> findCell p i; Some (drop a (aData p)) })"

subsection \<open>Defragmentation\<close>

text \<open>The cells are copied from \<open>temp\<close> to the end of the page, downwards from \<open>cbrk\<close>.\<close>

fun defrag_loop :: "BtShared \<Rightarrow> MemPage \<Rightarrow> u8 list \<Rightarrow> nat list \<Rightarrow> u8 list \<Rightarrow> nat \<Rightarrow> (rc \<times> u8 list \<times> nat) option" where
  "defrag_loop bt p temp [] d cbrk = Some (SQLITE_OK, d, cbrk)"
| "defrag_loop bt p temp (i # is) d cbrk = do {
     let pAddr = cellOffset p + i * 2;
     pc \<leftarrow> get2byte d pAddr;
     if pc \<ge> usableSize bt then Some (SQLITE_CORRUPT, d, cbrk)
     else do {
       sz \<leftarrow> cellSizePtr bt p (drop pc temp);
       if int cbrk - int sz < int (cellOffset p + 2 * nCell p) \<or> pc + sz > usableSize bt then Some (SQLITE_CORRUPT, d, cbrk)
       else do {
         let cbrk = cbrk - sz;
         c \<leftarrow> get_bytes temp pc sz;
         d \<leftarrow> put_bytes d cbrk c;
         d \<leftarrow> put2byte d pAddr cbrk;
         defrag_loop bt p temp is d cbrk
       }
     }
   }"

text \<open>\<open>tmp\<close> is what the temporary space of the pager holds before.\<close>

definition defragmentPage :: "BtShared \<Rightarrow> u8 list \<Rightarrow> MemPage \<Rightarrow> (rc \<times> MemPage) option" where
  "defragmentPage bt tmp p = do {
     let d = aData p; let hdr = hdrOffset p;
     cbrk \<leftarrow> get2byte d (hdr + 5);
     if cbrk > usableSize bt then None
     else do {
       c \<leftarrow> get_bytes d cbrk (usableSize bt - cbrk);
       temp \<leftarrow> put_bytes tmp cbrk c;
       (rc, d, cbrk) \<leftarrow> defrag_loop bt p temp [0..<nCell p] d (usableSize bt);
       if rc \<noteq> SQLITE_OK then Some (rc, p\<lparr>aData := d\<rparr>)
       else do {
         d \<leftarrow> put2byte d (hdr + 5) cbrk;
         d \<leftarrow> poke d (hdr + 1) 0;
         d \<leftarrow> poke d (hdr + 2) 0;
         d \<leftarrow> poke d (hdr + 7) 0;
         let addr = cellOffset p + 2 * nCell p;
         if cbrk < addr then None
         else do {
           d \<leftarrow> put_bytes d addr (replicate (cbrk - addr) 0);
           Some (if cbrk - addr \<noteq> unat (nFree p) then SQLITE_CORRUPT else SQLITE_OK, p\<lparr>aData := d\<rparr>)
         }
       }
     }
   }"

subsection \<open>Allocating and freeing space\<close>

text \<open>The search in the list of free blocks; a cyclic list is searched for ever.\<close>

partial_function (option) alloc_search :: "u8 list \<Rightarrow> nat \<Rightarrow> nat \<Rightarrow> (nat \<times> nat \<times> nat) option option" where
  "alloc_search d addr nByte =
     Option.bind (get2byte d addr) (\<lambda>pc.
       if pc > 0 then
         Option.bind (get2byte d (pc + 2)) (\<lambda>sz.
           if sz \<ge> nByte then Some (Some (addr, pc, sz)) else alloc_search d pc nByte)
       else Some None)"

definition allocateSpace :: "BtShared \<Rightarrow> u8 list \<Rightarrow> MemPage \<Rightarrow> nat \<Rightarrow> (nat \<times> MemPage) option" where
  "allocateSpace bt tmp p nByte = do {
     let p = p\<lparr>nFree := nFree p - word_of_nat nByte\<rparr>; let d = aData p; let hdr = hdrOffset p;
     nFrag \<leftarrow> peek d (hdr + 7);
     found \<leftarrow> (if nFrag < 60 then alloc_search d (hdr + 1) nByte else Some None);
     (case found of
        Some (addr, pc, sz) \<Rightarrow>
          if sz < nByte + 4 then do {
            c \<leftarrow> get_bytes d pc 2;
            d \<leftarrow> put_bytes d addr c;
            d \<leftarrow> poke d (hdr + 7) (nFrag + word_of_nat (sz - nByte));
            Some (pc, p\<lparr>aData := d\<rparr>)
          }
          else do {
            d \<leftarrow> put2byte d (pc + 2) (sz - nByte);
            Some (pc + sz - nByte, p\<lparr>aData := d\<rparr>)
          }
      | None \<Rightarrow> do {
          top \<leftarrow> get2byte d (hdr + 5);
          n \<leftarrow> get2byte d (hdr + 3);
          (top, p) \<leftarrow>
            (if nFrag \<ge> 60 \<or> int (cellOffset p + 2 * n) > int top - int nByte then do {
               (_, p) \<leftarrow> defragmentPage bt tmp p;
               top \<leftarrow> get2byte (aData p) (hdr + 5);
               Some (top, p) }
             else Some (top, p));
          if top < nByte then None
          else do {
            d \<leftarrow> put2byte (aData p) (hdr + 5) (top - nByte);
            Some (top - nByte, p\<lparr>aData := d\<rparr>)
          }
        })
   }"

text \<open>The place of a new free block: the address of the pointer to it and the block behind it, None in a corrupt list.\<close>

function free_search :: "u8 list \<Rightarrow> nat \<Rightarrow> nat \<Rightarrow> (nat \<times> nat) option option" where
  "free_search d addr start = do {
     pbegin \<leftarrow> get2byte d addr;
     if pbegin < start \<and> pbegin > 0 then
       (if pbegin \<le> addr then Some None else free_search d pbegin start)
     else Some (Some (addr, pbegin))
   }"
  by pat_completeness auto
termination by (relation "measure (\<lambda>(_, addr, start). start - addr)") auto

declare free_search.simps [simp del]

text \<open>Merging free blocks that at most three bytes separate.\<close>

partial_function (option) coalesce :: "nat \<Rightarrow> u8 list \<Rightarrow> nat \<Rightarrow> (rc \<times> u8 list) option" where
  "coalesce hdr d addr =
     Option.bind (get2byte d addr) (\<lambda>pbegin.
       if pbegin > 0 then
         Option.bind (get2byte d pbegin) (\<lambda>pnext.
         Option.bind (get2byte d (pbegin + 2)) (\<lambda>psize.
           if pbegin + psize + 3 \<ge> pnext \<and> pnext > 0 then
             Option.bind (peek d (hdr + 7)) (\<lambda>nFrag.
               if int pnext - int (pbegin + psize) < 0 \<or> pnext - (pbegin + psize) > unat nFrag then Some (SQLITE_CORRUPT, d)
               else
                 Option.bind (poke d (hdr + 7) (nFrag - word_of_nat (pnext - (pbegin + psize)))) (\<lambda>d.
                 Option.bind (get2byte d pnext) (\<lambda>nn.
                 Option.bind (put2byte d pbegin nn) (\<lambda>d.
                 Option.bind (get2byte d (pnext + 2)) (\<lambda>ns.
                 Option.bind (put2byte d (pbegin + 2) (pnext + ns - pbegin)) (\<lambda>d.
                   coalesce hdr d addr))))))
           else coalesce hdr d pbegin))
       else Some (SQLITE_OK, d))"

definition freeSpace :: "BtShared \<Rightarrow> MemPage \<Rightarrow> nat \<Rightarrow> nat \<Rightarrow> (rc \<times> MemPage) option" where
  "freeSpace bt p start size1 = do {
     let d = aData p; let hdr = hdrOffset p;
     r \<leftarrow> free_search d (hdr + 1) start;
     (case r of
        None \<Rightarrow> Some (SQLITE_CORRUPT, p)
      | Some (addr, pbegin) \<Rightarrow>
          if int pbegin > int (usableSize bt) - 4 then Some (SQLITE_CORRUPT, p)
          else do {
            d \<leftarrow> put2byte d addr start;
            d \<leftarrow> put2byte d start pbegin;
            d \<leftarrow> put2byte d (start + 2) size1;
            let p = p\<lparr>nFree := nFree p + word_of_nat size1\<rparr>;
            (rc, d) \<leftarrow> coalesce hdr d (hdr + 1);
            if rc \<noteq> SQLITE_OK then Some (rc, p\<lparr>aData := d\<rparr>)
            else do {
              b1 \<leftarrow> peek d (hdr + 1); b5 \<leftarrow> peek d (hdr + 5); b2 \<leftarrow> peek d (hdr + 2); b6 \<leftarrow> peek d (hdr + 6);
              if b1 = b5 \<and> b2 = b6 then do {
                pbegin \<leftarrow> get2byte d (hdr + 1);
                c \<leftarrow> get_bytes d pbegin 2;
                d \<leftarrow> put_bytes d (hdr + 1) c;
                top \<leftarrow> get2byte d (hdr + 5);
                n \<leftarrow> get2byte d (pbegin + 2);
                d \<leftarrow> put2byte d (hdr + 5) (top + n);
                Some (SQLITE_OK, p\<lparr>aData := d\<rparr>)
              }
              else Some (SQLITE_OK, p\<lparr>aData := d\<rparr>)
            }
          })
   }"

subsection \<open>Setting up a page\<close>

definition decodeFlags :: "BtShared \<Rightarrow> MemPage \<Rightarrow> u8 \<Rightarrow> rc \<times> MemPage" where
  "decodeFlags bt p flagByte =
     (let p = p\<lparr>leaf := drop_bit 3 flagByte\<rparr>;
          flagByte = flagByte AND NOT PTF_LEAF;
          p = p\<lparr>childPtrSize := 4 - 4 * leaf p\<rparr> in
      if flagByte = PTF_LEAFDATA OR PTF_INTKEY then
        (SQLITE_OK, p\<lparr>intKey := True, hasData := leaf p \<noteq> 0, maxLocal := bt_maxLeaf bt, minLocal := bt_minLeaf bt\<rparr>)
      else if flagByte = PTF_ZERODATA then
        (SQLITE_OK, p\<lparr>intKey := False, hasData := False, maxLocal := bt_maxLocal bt, minLocal := bt_minLocal bt\<rparr>)
      else (SQLITE_CORRUPT, p))"

definition MX_CELL :: "BtShared \<Rightarrow> nat" where "MX_CELL bt = (pageSize bt - 8) div 6"

text \<open>The loop over the free blocks: the sum of their sizes, or None inside when the list is corrupt.\<close>

function init_free :: "BtShared \<Rightarrow> u8 list \<Rightarrow> nat \<Rightarrow> nat \<Rightarrow> nat option option" where
  "init_free bt d pc tot =
     (if pc > 0 then
        (if int pc > int (usableSize bt) - 4 then Some None
         else do {
           next \<leftarrow> get2byte d pc;
           size1 \<leftarrow> get2byte d (pc + 2);
           if next > 0 \<and> next \<le> pc + size1 + 3 then Some None
           else init_free bt d next (tot + size1)
         })
      else Some (Some tot))"
  by pat_completeness auto
termination by (relation "measure (\<lambda>(bt, _, pc, _). if pc = 0 then 0 else usableSize bt + 1 - pc)") (auto split: if_splits)

declare init_free.simps [simp del]

definition sqlite3BtreeInitPage :: "BtShared \<Rightarrow> MemPage \<Rightarrow> (rc \<times> MemPage) option" where
  "sqlite3BtreeInitPage bt p =
     (if isInit p then Some (SQLITE_OK, p)
      else do {
        let hdr = hdrOffset p; let d = aData p;
        flags \<leftarrow> peek d hdr;
        (case decodeFlags bt p flags of (rc, p) \<Rightarrow>
           if rc \<noteq> SQLITE_OK then Some (SQLITE_CORRUPT, p)
           else do {
             top \<leftarrow> get2byte d (hdr + 5);
             n \<leftarrow> get2byte d (hdr + 3);
             let p = p\<lparr>cellOffset := hdr + 12 - 4 * unat (leaf p), nCell := n, maskPage := pageSize bt - 1, aOvfl := []\<rparr>;
             if n > MX_CELL bt then Some (SQLITE_CORRUPT, p)
             else do {
               pc \<leftarrow> get2byte d (hdr + 1);
               nFrag \<leftarrow> peek d (hdr + 7);
               r \<leftarrow> init_free bt d pc 0;
               (case r of
                  None \<Rightarrow> Some (SQLITE_CORRUPT, p)
                | Some tot \<Rightarrow>
                    let free = int (unat nFrag) + int top - int (cellOffset p + 2 * n) + int tot;
                        p = p\<lparr>nFree := word_of_int free\<rparr> in
                    if free \<ge> int (usableSize bt) then Some (SQLITE_CORRUPT, p)
                    else Some (SQLITE_OK, p\<lparr>isInit := True\<rparr>))
             }
           })
      })"

definition zeroPage :: "BtShared \<Rightarrow> MemPage \<Rightarrow> u8 \<Rightarrow> MemPage option" where
  "zeroPage bt p flags = do {
     let hdr = hdrOffset p; let d = aData p;
     d \<leftarrow> poke d hdr flags;
     let first1 = hdr + 8 + 4 * (if flags AND PTF_LEAF = 0 then 1 else 0);
     d \<leftarrow> put_bytes d (hdr + 1) [0, 0, 0, 0];
     d \<leftarrow> poke d (hdr + 7) 0;
     d \<leftarrow> put2byte d (hdr + 5) (usableSize bt);
     let p = p\<lparr>aData := d, nFree := word_of_int (int (usableSize bt) - int first1)\<rparr>;
     Some ((snd (decodeFlags bt p flags))\<lparr>cellOffset := first1, maskPage := pageSize bt - 1, nCell := 0, aOvfl := [], isInit := True\<rparr>)
   }"

subsection \<open>Inserting and removing cells\<close>

definition dropCell :: "BtShared \<Rightarrow> MemPage \<Rightarrow> nat \<Rightarrow> nat \<Rightarrow> (rc \<times> MemPage) option" where
  "dropCell bt p idx sz = do {
     let ptr = cellOffset p + 2 * idx;
     pc \<leftarrow> get2byte (aData p) ptr;
     if pc < hdrOffset p + 6 + (if leaf p \<noteq> 0 then 0 else 4) \<or> pc + sz > usableSize bt then Some (SQLITE_CORRUPT, p)
     else do {
       (rc, p) \<leftarrow> freeSpace bt p pc sz;
       if rc \<noteq> SQLITE_OK then Some (rc, p)
       else do {
         c \<leftarrow> get_bytes (aData p) (ptr + 2) (2 * (nCell p - (idx + 1)));
         d \<leftarrow> put_bytes (aData p) ptr c;
         let n = nCell p - 1;
         d \<leftarrow> put2byte d (hdrOffset p + 3) n;
         Some (SQLITE_OK, p\<lparr>aData := d, nCell := n, nFree := nFree p + 2\<rparr>)
       }
     }
   }"

text \<open>
  \<open>wrc\<close> is the result of sqlite3PagerWrite, \<open>ptrmap\<close> the result of ptrmapPut for the first overflow
  page of the cell. The first \<open>nSkip\<close> bytes of the cell are not copied.
\<close>

definition insertCell ::
  "BtShared \<Rightarrow> u8 list \<Rightarrow> rc \<Rightarrow> (u32 \<Rightarrow> rc) \<Rightarrow> MemPage \<Rightarrow> nat \<Rightarrow> u8 list \<Rightarrow> nat \<Rightarrow> u8 list option \<Rightarrow> nat \<Rightarrow> (rc \<times> MemPage) option" where
  "insertCell bt tmp wrc ptrmap p i pCell sz pTemp nSkip =
     (if aOvfl p \<noteq> [] \<or> sz + 2 > unat (nFree p) then do {
        body \<leftarrow> (case pTemp of
            None \<Rightarrow> Some pCell
          | Some t \<Rightarrow> do { c \<leftarrow> get_bytes pCell nSkip (sz - nSkip); put_bytes t nSkip c });
        if length (aOvfl p) \<ge> 5 then None
        else Some (SQLITE_OK, p\<lparr>aOvfl := aOvfl p @ [(body, i)], nFree := 0\<rparr>)
      }
      else if wrc \<noteq> SQLITE_OK then Some (wrc, p)
      else do {
        let hdr = hdrOffset p;
        top \<leftarrow> get2byte (aData p) (hdr + 5);
        let end1 = cellOffset p + 2 * nCell p + 2; let ins = cellOffset p + 2 * i;
        (rc, p) \<leftarrow> (if int end1 > int top - int sz then defragmentPage bt tmp p else Some (SQLITE_OK, p));
        if rc \<noteq> SQLITE_OK then Some (rc, p)
        else do {
          (idx, p) \<leftarrow> allocateSpace bt tmp p sz;
          if idx + sz > usableSize bt then Some (SQLITE_CORRUPT, p)
          else do {
            let p = p\<lparr>nCell := nCell p + 1, nFree := nFree p - 2\<rparr>;
            c \<leftarrow> get_bytes pCell nSkip (sz - nSkip);
            d \<leftarrow> put_bytes (aData p) (idx + nSkip) c;
            c \<leftarrow> get_bytes d ins (end1 - 2 - ins);
            d \<leftarrow> put_bytes d (ins + 2) c;
            d \<leftarrow> put2byte d ins idx;
            d \<leftarrow> put2byte d (hdr + 3) (nCell p);
            let p = p\<lparr>aData := d\<rparr>;
            if autoVacuum bt then do {
              info \<leftarrow> sqlite3BtreeParseCellPtr bt p pCell;
              if uint (ci_nData info) + (if intKey p then 0 else uint (ci_nKey info)) > int (ci_nLocal info) then do {
                pgno \<leftarrow> sqlite3Get4byte (drop (ci_iOverflow info) pCell);
                Some (ptrmap pgno, p) }
              else Some (SQLITE_OK, p) }
            else Some (SQLITE_OK, p)
          }
        }
      })"

text \<open>\<open>cs\<close> are the bodies of the cells, each as long as its size.\<close>

fun assemble_loop :: "u8 list \<Rightarrow> nat \<Rightarrow> nat \<Rightarrow> u8 list list \<Rightarrow> u8 list option" where
  "assemble_loop d cellptr cellbody [] = Some d"
| "assemble_loop d cellptr cellbody (c # cs) = do {
     d \<leftarrow> put2byte d cellptr cellbody;
     d \<leftarrow> put_bytes d cellbody c;
     assemble_loop d (cellptr + 2) (cellbody + length c) cs
   }"

definition assemblePage :: "BtShared \<Rightarrow> u8 list \<Rightarrow> MemPage \<Rightarrow> u8 list list \<Rightarrow> MemPage option" where
  "assemblePage bt tmp p cs = do {
     let totalSize = (\<Sum>c \<leftarrow> cs. length c); let n = length cs;
     d \<leftarrow> put2byte (aData p) (hdrOffset p + 3) n;
     let p = p\<lparr>aData := d\<rparr>;
     p \<leftarrow> (if n > 0 then do {
         (cellbody, p) \<leftarrow> allocateSpace bt tmp p totalSize;
         d \<leftarrow> assemble_loop (aData p) (cellOffset p) cellbody cs;
         Some (p\<lparr>nFree := nFree p - word_of_nat (2 * n), aData := d\<rparr>) }
       else Some p);
     Some (p\<lparr>nCell := n\<rparr>)
   }"

end
