(* ===== verification/BtreeSpace.thy ===== *)
theory BtreeSpace
  imports BtreePage
begin

text \<open>
  The bytes of a page as blocks: the list of free blocks, the blocks in use and the fragments
  between them, and what freeSpace and the three ways of allocateSpace of btree.c do to them.
\<close>

subsection \<open>Bytes\<close>

text \<open>The 16-bit number at an address, and a page with such a number, or with some bytes, replaced.\<close>

definition g2 :: "u8 list \<Rightarrow> nat \<Rightarrow> nat" where
  "g2 d a = unat (d ! a) * 256 + unat (d ! (a + 1))"

definition p2 :: "u8 list \<Rightarrow> nat \<Rightarrow> nat \<Rightarrow> u8 list" where
  "p2 d a v = d[a := word_of_nat (v div 256), a + 1 := word_of_nat v]"

definition pb :: "u8 list \<Rightarrow> nat \<Rightarrow> u8 list \<Rightarrow> u8 list" where
  "pb d a bs = take a d @ bs @ drop (a + length bs) d"

lemma get2byte_g2 [buf_simps]: "a + 1 < length d \<Longrightarrow> get2byte d a = Some (g2 d a)"
  by (simp add: get2byte_def g2_def)

lemma put2byte_p2 [buf_simps]: "a + 1 < length d \<Longrightarrow> put2byte d a v = Some (p2 d a v)"
  by (simp add: put2byte_def p2_def)

lemma put_bytes_pb [buf_simps]: "a + length bs \<le> length d \<Longrightarrow> put_bytes d a bs = Some (pb d a bs)"
  by (simp add: put_bytes_def pb_def)

lemma get_bytes_take [buf_simps]: "a + n \<le> length d \<Longrightarrow> get_bytes d a n = Some (take n (drop a d))"
  by (simp add: get_bytes_def)

lemma length_p2 [simp]: "length (p2 d a v) = length d"
  by (simp add: p2_def)

lemma length_pb [simp]: "a + length bs \<le> length d \<Longrightarrow> length (pb d a bs) = length d"
  by (simp add: pb_def)

lemma nth_p2: "j \<noteq> a \<Longrightarrow> j \<noteq> a + 1 \<Longrightarrow> p2 d a v ! j = d ! j"
  by (simp add: p2_def)

lemma nth_pb: "a + length bs \<le> length d \<Longrightarrow> j < length d \<Longrightarrow> pb d a bs ! j = (if a \<le> j \<and> j < a + length bs then bs ! (j - a) else d ! j)"
  by (auto simp: pb_def nth_append min_def)

lemma unat_byte_div: "v < 65536 \<Longrightarrow> unat (word_of_nat (v div 256) :: u8) = v div 256"
  by (simp add: unsigned_of_nat take_bit_nat_eq_self less_mult_imp_div_less)

lemma unat_byte_mod: "unat (word_of_nat v :: u8) = v mod 256"
  by (simp add: unsigned_of_nat take_bit_eq_mod)

lemma g2_p2: "a + 1 < length d \<Longrightarrow> v < 65536 \<Longrightarrow> g2 (p2 d a v) a = v"
  by (simp add: g2_def p2_def unat_byte_div unat_byte_mod)

lemma g2_less: "g2 d a < 65536"
  using unat_less [of "d ! a"] unat_less [of "d ! (a + 1)"] by (simp add: g2_def)

lemma g2_cong: "d' ! a = d ! a \<Longrightarrow> d' ! (a + 1) = d ! (a + 1) \<Longrightarrow> g2 d' a = g2 d a"
  by (simp add: g2_def)

lemma take_drop_cong:
  assumes "a + n \<le> length d" "a + n \<le> length d'" "\<And>j. a \<le> j \<Longrightarrow> j < a + n \<Longrightarrow> d' ! j = d ! j"
  shows "take n (drop a d') = take n (drop a d)"
  using assms by (intro nth_equalityI) auto

lemma take_drop_pb: "a + length bs \<le> length d \<Longrightarrow> take (length bs) (drop a (pb d a bs)) = bs"
  by (simp add: pb_def)

subsection \<open>Blocks of bytes\<close>

text \<open>A block is a pair of a first byte and a length.\<close>

type_synonym block = "nat \<times> nat"

definition cover :: "block list \<Rightarrow> nat set" where
  "cover B = (\<Union>(a, n) \<in> set B. {a..<a + n})"

abbreviation total_size :: "block list \<Rightarrow> nat" where
  "total_size B \<equiv> (\<Sum>(a, n) \<leftarrow> B. n)"

fun apart :: "block list \<Rightarrow> bool" where
  "apart [] \<longleftrightarrow> True"
| "apart ((a, n) # B) \<longleftrightarrow> {a..<a + n} \<inter> cover B = {} \<and> apart B"

lemma cover_simps [simp]: "cover [] = {}" "cover ((a, n) # B) = {a..<a + n} \<union> cover B" "cover (B @ C) = cover B \<union> cover C"
  by (auto simp: cover_def)

lemma cover_elem: "(a, n) \<in> set B \<Longrightarrow> {a..<a + n} \<subseteq> cover B"
  by (force simp: cover_def)

lemma finite_cover [simp]: "finite (cover B)"
  by (induction B) auto

lemma apart_append: "apart (B @ C) \<longleftrightarrow> apart B \<and> apart C \<and> cover B \<inter> cover C = {}"
proof (induction B)
  case (Cons x B)
  obtain a n where x: "x = (a, n)" by (cases x)
  have "({a..<a + n} \<union> cover B) \<inter> cover C = {} \<longleftrightarrow> {a..<a + n} \<inter> cover C = {} \<and> cover B \<inter> cover C = {}"
    "{a..<a + n} \<inter> (cover B \<union> cover C) = {} \<longleftrightarrow> {a..<a + n} \<inter> cover B = {} \<and> {a..<a + n} \<inter> cover C = {}" by blast+
  with Cons.IH x show ?case by simp blast
qed simp

lemma card_cover: "apart B \<Longrightarrow> card (cover B) = total_size B"
  by (induction B) (auto simp: card_Un_disjoint)

lemma apart_pair: "apart B \<Longrightarrow> (a, n) \<in> set B \<Longrightarrow> (b, m) \<in> set B \<Longrightarrow> (a, n) \<noteq> (b, m) \<Longrightarrow> {a..<a + n} \<inter> {b..<b + m} = {}"
proof (induction B)
  case (Cons x B)
  obtain c k where x: "x = (c, k)" by (cases x)
  have d: "{c..<c + k} \<inter> cover B = {}" "apart B" using Cons.prems(1) x by simp_all
  consider "(a, n) = x" "(b, m) \<in> set B" | "(b, m) = x" "(a, n) \<in> set B" | "(a, n) \<in> set B" "(b, m) \<in> set B"
    using Cons.prems by auto
  then show ?case
  proof cases
    case 1
    then show ?thesis using d(1) x cover_elem [of b m B] by blast
  next
    case 2
    then show ?thesis using d(1) x cover_elem [of a n B] by blast
  next
    case 3
    then show ?thesis using Cons.IH d(2) Cons.prems(4) by blast
  qed
qed simp

text \<open>Blocks inside a region leave at most what their sizes leave.\<close>

lemma total_in_region:
  assumes "apart B" "cover B \<subseteq> {lo..<hi}" shows "total_size B \<le> hi - lo"
  using card_mono [OF _ assms(2)] card_cover [OF assms(1)] by simp

subsection \<open>The list of free blocks\<close>

fun chain :: "u8 list \<Rightarrow> nat \<Rightarrow> block list \<Rightarrow> bool" where
  "chain d p [] \<longleftrightarrow> g2 d p = 0"
| "chain d p ((a, n) # fl) \<longleftrightarrow> g2 d p = a \<and> 0 < a \<and> g2 d (a + 2) = n \<and> chain d a fl"

definition heads :: "block list \<Rightarrow> nat set" where
  "heads fl = (\<Union>(a, n) \<in> set fl. {a..<a + 4})"

lemma heads_simps [simp]: "heads [] = {}" "heads ((a, n) # fl) = {a..<a + 4} \<union> heads fl" "heads (fl @ gl) = heads fl \<union> heads gl"
  by (auto simp: heads_def)

lemma chain_frame:
  assumes "chain d p fl" "d' ! p = d ! p" "d' ! (p + 1) = d ! (p + 1)" "\<And>j. j \<in> heads fl \<Longrightarrow> d' ! j = d ! j"
  shows "chain d' p fl"
  using assms
proof (induction d p fl rule: chain.induct)
  case (1 d p)
  then show ?case using g2_cong [of d' p d] by simp
next
  case (2 d p a n fl)
  have "chain d' a fl" by (rule "2.IH") (use "2.prems" in auto)
  moreover have "g2 d' p = g2 d p" "g2 d' (a + 2) = g2 d (a + 2)" using "2.prems" by (auto intro!: g2_cong)
  ultimately show ?case using "2.prems"(1) by simp
qed

text \<open>Ascending blocks with more than three bytes between them, as the list of a page has them.\<close>

fun spaced :: "block list \<Rightarrow> bool" where
  "spaced ((a, n) # (b, m) # fl) \<longleftrightarrow> a + n + 3 < b \<and> spaced ((b, m) # fl)"
| "spaced _ \<longleftrightarrow> True"

subsection \<open>Cells are recognised by their own bytes\<close>

lemma varint_ref_more: "varint_ref p i acc = Some (n, v) \<Longrightarrow> varint_ref (p @ q) i acc = Some (n, v)"
proof (induction p i acc rule: varint_ref.induct)
  case (1 p i acc)
  then obtain b where b: "peek p i = Some b" by (subst (asm) varint_ref.simps) (auto elim!: bind_SomeE)
  then have b': "peek (p @ q) i = Some b" by (auto simp: peek_def nth_append split: if_splits)
  show ?case
  proof (cases "8 \<le> i \<or> \<not> bit b 7")
    case True
    then show ?thesis using 1(2) b b' varint_ref.simps [of p i acc] varint_ref.simps [of "p @ q" i acc] by auto
  next
    case False
    then have "varint_ref p (i + 1) (push_bit 7 acc OR ucast (b AND 0x7f)) = Some (n, v)"
      using 1(2) b varint_ref.simps [of p i acc] by simp
    with 1(1) [OF b] False show ?thesis using b' by (subst varint_ref.simps) simp
  qed
qed

lemma GetVarint_more: "sqlite3GetVarint p = Some (n, v) \<Longrightarrow> sqlite3GetVarint (p @ q) = Some (n, v)"
  by (simp add: GetVarint_ref varint_ref_more)

lemma getVarint32_more: "getVarint32 p = Some (n, v) \<Longrightarrow> getVarint32 (p @ q) = Some (n, v)"
  using GetVarint_more [of p _ _ q] by (auto simp: getVarint32_trunc)

lemma GetVarint_Nil: "sqlite3GetVarint [] = None" "getVarint32 [] = None"
  by (simp_all add: getVarint32_trunc sqlite3GetVarint_def peek_def)

lemma drop_more: "drop k p \<noteq> [] \<Longrightarrow> drop k (p @ q) = drop k p @ q"
  by simp

lemma cell_header_more: "cell_header p c = Some x \<Longrightarrow> cell_header p (c @ r) = Some x"
proof -
  assume a: "cell_header p c = Some x"
  have g: "sqlite3GetVarint (drop k (c @ r)) = Some y" if "sqlite3GetVarint (drop k c) = Some y" for k y
    using GetVarint_more [of "drop k c"] that drop_more [of k c r] GetVarint_Nil by (cases y) (metis option.distinct(1))
  have g32: "getVarint32 (drop k (c @ r)) = Some y" if "getVarint32 (drop k c) = Some y" for k y
    using getVarint32_more [of "drop k c"] that drop_more [of k c r] GetVarint_Nil by (cases y) (metis option.distinct(1))
  show ?thesis
    using a unfolding cell_header_def by (auto simp del: drop_append simp: Let_def elim!: bind_SomeE dest!: g g32 split: if_splits)
qed

lemma ParseCell_more: "sqlite3BtreeParseCellPtr bt p c = Some info \<Longrightarrow> sqlite3BtreeParseCellPtr bt p (c @ r) = Some info"
  unfolding sqlite3BtreeParseCellPtr_def by (elim bind_SomeE) (simp add: cell_header_more)

definition cell_ok :: "BtShared \<Rightarrow> MemPage \<Rightarrow> u8 list \<Rightarrow> bool" where
  "cell_ok bt p c \<longleftrightarrow> cellSizePtr bt p c = Some (length c) \<and> 4 \<le> length c"

lemma cell_ok_size: "cell_ok bt p c \<Longrightarrow> cellSizePtr bt p (c @ r) = Some (length c)"
  by (auto simp: cell_ok_def cellSizePtr_def ParseCell_more)

subsection \<open>Ascending lists of blocks\<close>

fun asc :: "nat \<Rightarrow> block list \<Rightarrow> bool" where
  "asc lo [] \<longleftrightarrow> True"
| "asc lo ((a, n) # fl) \<longleftrightarrow> lo \<le> a \<and> 4 \<le> n \<and> asc (a + n) fl"

lemma asc_mono: "asc lo fl \<Longrightarrow> lo' \<le> lo \<Longrightarrow> asc lo' fl"
  by (cases fl) auto

lemma asc_cover: "asc lo fl \<Longrightarrow> cover fl \<subseteq> {lo..}"
proof (induction lo fl rule: asc.induct)
  case (2 lo a n fl)
  then have "cover fl \<subseteq> {a + n..}" by simp
  then show ?case using 2(2) by auto
qed simp

lemma heads_cover: "asc lo fl \<Longrightarrow> heads fl \<subseteq> cover fl"
  by (induction lo fl rule: asc.induct) auto

lemma asc_apart: "asc lo fl \<Longrightarrow> apart fl"
proof (induction lo fl rule: asc.induct)
  case (2 lo a n fl)
  then have "cover fl \<subseteq> {a + n..}" using asc_cover by simp
  then show ?case using 2 by auto
qed simp

lemma asc_append: "asc lo (fl @ gl) \<longleftrightarrow> asc lo fl \<and> asc (if fl = [] then lo else fst (last fl) + snd (last fl)) gl"
  by (induction lo fl rule: asc.induct) auto

lemma asc_sizes: "asc lo fl \<Longrightarrow> (a, n) \<in> set fl \<Longrightarrow> lo \<le> a \<and> 4 \<le> n"
  by (induction lo fl rule: asc.induct) fastforce+

text \<open>The address of the pointer behind a part of the list.\<close>

definition ptr :: "nat \<Rightarrow> block list \<Rightarrow> nat" where
  "ptr p fl = (if fl = [] then p else fst (last fl))"

lemma ptr_simps [simp]: "ptr p [] = p" "ptr p (fl @ [(a, n)]) = a" "ptr p ((a, n) # fl) = ptr a fl"
  by (simp_all add: ptr_def)

lemma ptr_in: "asc lo fl \<Longrightarrow> p + 2 \<le> lo \<Longrightarrow> {ptr p fl, ptr p fl + 1} \<subseteq> {p, p + 1} \<union> heads fl"
proof (induction lo fl arbitrary: p rule: asc.induct)
  case (2 lo a n fl)
  then have "{ptr a fl, ptr a fl + 1} \<subseteq> {a, a + 1} \<union> heads fl" by simp
  moreover have "{a, a + 1} \<subseteq> {a..<a + 4}" by auto
  ultimately show ?case by (simp only: ptr_simps heads_simps) blast
qed simp

lemma chain_split: "chain d p (fl @ gl) \<Longrightarrow> chain d (ptr p fl) gl"
  by (induction d p fl rule: chain.induct) auto

text \<open>The list behind \<open>ptr p fl\<close> is replaced.\<close>

lemma chain_replace:
  assumes "chain d p (fl @ gl)" "asc lo fl" "p + 2 \<le> lo" "chain d' (ptr p fl) gl'"
    "\<And>j. j \<in> {p, p + 1} \<union> heads fl \<Longrightarrow> j \<notin> {ptr p fl, ptr p fl + 1} \<Longrightarrow> d' ! j = d ! j"
  shows "chain d' p (fl @ gl')"
  using assms
proof (induction fl arbitrary: p lo)
  case (Cons x fl)
  obtain a n where x: "x = (a, n)" by (cases x)
  have f: "lo \<le> a" "4 \<le> n" "asc (a + n) fl" using Cons.prems(2) x by auto
  have p: "ptr p (x # fl) = ptr a fl" using x by simp
  have sub: "{ptr a fl, ptr a fl + 1} \<subseteq> {a, a + 1} \<union> heads fl" using ptr_in [OF f(3), of a] f(2) by simp
  have hd: "heads fl \<subseteq> {a + n..}" using heads_cover [OF f(3)] asc_cover [OF f(3)] by blast
  have "chain d' a (fl @ gl')"
  proof (rule Cons.IH [of a "a + n"])
    fix j assume j: "j \<in> {a, a + 1} \<union> heads fl" "j \<notin> {ptr a fl, ptr a fl + 1}"
    have "{a, a + 1} \<subseteq> {a..<a + 4}" by auto
    with j(1) have "j \<in> {p, p + 1} \<union> heads (x # fl)" using x by auto
    with j(2) show "d' ! j = d ! j" using Cons.prems(5) [of j] p by simp
  qed (use Cons.prems x f in auto)
  moreover have "g2 d' p = a"
  proof -
    have "p \<notin> {ptr a fl, ptr a fl + 1}" "p + 1 \<notin> {ptr a fl, ptr a fl + 1}"
      using sub hd f Cons.prems(3) by fastforce+
    then have "g2 d' p = g2 d p" using Cons.prems(5) p by (intro g2_cong) auto
    then show ?thesis using Cons.prems(1) x by simp
  qed
  moreover have "g2 d' (a + 2) = n"
  proof -
    have "a + 2 \<notin> {ptr a fl, ptr a fl + 1}" "a + 3 \<notin> {ptr a fl, ptr a fl + 1}"
      using sub hd f by fastforce+
    then have "g2 d' (a + 2) = g2 d (a + 2)" using Cons.prems(5) p x by (intro g2_cong) auto
    then show ?thesis using Cons.prems(1) x by simp
  qed
  ultimately show ?case using Cons.prems(1) x by simp
qed simp

subsection \<open>Merging free blocks\<close>

function merge :: "block list \<Rightarrow> block list" where
  "merge [] = []"
| "merge [(a, n)] = [(a, n)]"
| "merge ((a, n) # (b, m) # fl) = (if b \<le> a + n + 3 then merge ((a, b + m - a) # fl) else (a, n) # merge ((b, m) # fl))"
  by pat_completeness auto
termination by (relation "measure length") auto

text \<open>The bytes between the blocks that are merged.\<close>

lemma merge_fst: "merge ((a, n) # fl) = (b, m) # gl \<Longrightarrow> b = a"
proof (induction "(a, n) # fl" arbitrary: n fl rule: merge.induct)
  case (3 n b m fl)
  then show ?case by (auto split: if_splits)
qed auto

lemma merge_facts:
  "asc lo fl \<Longrightarrow> asc lo (merge fl) \<and> spaced (merge fl) \<and> cover fl \<subseteq> cover (merge fl) \<and> total_size fl \<le> total_size (merge fl)"
proof (induction fl arbitrary: lo rule: merge.induct)
  case (3 a n b m fl)
  show ?case
  proof (cases "b \<le> a + n + 3")
    case True
    have "asc lo ((a, b + m - a) # fl)" using 3(3) by auto
    from "3.IH"(1) [OF True this] True 3(3) show ?thesis by fastforce
  next
    case False
    have a: "asc (a + n) ((b, m) # fl)" using 3(3) by simp
    note IH = "3.IH"(2) [OF False a]
    have "spaced ((a, n) # merge ((b, m) # fl))"
    proof (cases "merge ((b, m) # fl)")
      case (Cons x gl)
      then obtain k where "x = (b, k)" using merge_fst [of b m fl] by (cases x) auto
      then show ?thesis using IH False Cons by simp
    qed simp
    with IH False 3(3) show ?thesis by auto
  qed
qed auto

text \<open>Blocks of at least four bytes that are apart from the list are apart from the merged list.\<close>

lemma merge_apart:
  assumes "\<And>c k. (c, k) \<in> set B \<Longrightarrow> 4 \<le> k"
  shows "asc lo fl \<Longrightarrow> cover B \<inter> cover fl = {} \<Longrightarrow> cover B \<inter> cover (merge fl) = {}"
proof (induction fl arbitrary: lo rule: merge.induct)
  case (3 a n b m fl)
  show ?case
  proof (cases "b \<le> a + n + 3")
    case True
    have asc: "asc lo ((a, b + m - a) # fl)" using 3(3) by auto
    have "cover B \<inter> {a + n..<b} = {}"
    proof (rule ccontr)
      assume "cover B \<inter> {a + n..<b} \<noteq> {}"
      then obtain j where "j \<in> {a + n..<b}" "j \<in> cover B" by blast
      then obtain c k where j: "j \<in> {a + n..<b}" "(c, k) \<in> set B" "j \<in> {c..<c + k}" unfolding cover_def by blast
      have sub: "{c..<c + k} \<subseteq> cover B" using cover_elem [OF j(2)] .
      have d: "a + n - 1 \<notin> cover B" "b \<notin> cover B" using 3(3,4) by auto
      then have "a + n - 1 \<notin> {c..<c + k}" "b \<notin> {c..<c + k}" using sub by blast+
      then show False using j(1,3) assms [OF j(2)] True 3(3) by auto
    qed
    moreover have "{a..<a + (b + m - a)} = {a..<a + n} \<union> {a + n..<b} \<union> {b..<b + m}" using 3(3) by auto
    ultimately have "cover B \<inter> cover ((a, b + m - a) # fl) = {}" using 3(4) by (auto simp: Int_Un_distrib)
    then show ?thesis using "3.IH"(1) [OF True asc] True by simp
  next
    case False
    have "cover B \<inter> cover ((b, m) # fl) = {}" using 3(4) by auto
    with "3.IH"(2) [OF False _ this, of "a + n"] False 3(3,4) show ?thesis by (auto simp: Int_Un_distrib)
  qed
qed auto

lemma merge_region: "asc lo fl \<Longrightarrow> cover fl \<subseteq> {..<hi} \<Longrightarrow> cover (merge fl) \<subseteq> {..<hi}"
proof (induction fl arbitrary: lo rule: merge.induct)
  case (3 a n b m fl)
  show ?case
  proof (cases "b \<le> a + n + 3")
    case True
    have "asc lo ((a, b + m - a) # fl)" "cover ((a, b + m - a) # fl) \<subseteq> {..<hi}"
    proof -
      show "asc lo ((a, b + m - a) # fl)" using 3(3) by auto
      have "b + m - 1 \<in> cover ((a, n) # (b, m) # fl)" using 3(3) by auto
      then have "b + m - 1 < hi" using 3(4) by blast
      then show "cover ((a, b + m - a) # fl) \<subseteq> {..<hi}" using 3(3,4) by auto
    qed
    from "3.IH"(1) [OF True this] show ?thesis using True by simp
  next
    case False
    then show ?thesis using "3.IH"(2) [OF False, of "a + n"] 3(3,4) by auto
  qed
qed auto

lemma interval_bound: "{a..<a + n} \<subseteq> {..<u} \<Longrightarrow> 0 < n \<Longrightarrow> a + n \<le> (u :: nat)"
proof -
  assume "{a..<a + n} \<subseteq> {..<u}" "0 < n"
  moreover from this have "a + n - 1 \<in> {a..<a + n}" by auto
  ultimately have "a + n - 1 < u" by blast
  with \<open>0 < n\<close> show ?thesis by simp
qed

lemma chain_move: "chain d p fl \<Longrightarrow> g2 d' p' = g2 d p \<Longrightarrow> (\<And>j. j \<in> heads fl \<Longrightarrow> d' ! j = d ! j) \<Longrightarrow> chain d' p' fl"
proof (cases fl)
  case (Cons x r)
  obtain a n where x: "x = (a, n)" by (cases x)
  assume c: "chain d p fl" "g2 d' p' = g2 d p" "\<And>j. j \<in> heads fl \<Longrightarrow> d' ! j = d ! j"
  have "chain d' a r" by (rule chain_frame [of d a r d']) (use c Cons x in auto)
  moreover have "g2 d' (a + 2) = g2 d (a + 2)" using c(3) Cons x by (intro g2_cong) auto
  ultimately show ?thesis using c Cons x by simp
qed simp

lemma coalesce_law:
  assumes "chain d addr gl" "asc l gl" "addr + 2 \<le> l" "hdr + 7 < l" "hdr + 7 \<notin> {addr, addr + 1}"
    "cover gl \<subseteq> {..<u}" "u \<le> length d" "u < 65536" "addr + 1 < length d"
    "total_size (merge gl) \<le> total_size gl + unat (d ! (hdr + 7))"
  shows "\<exists>d'. coalesce hdr d addr = Some (SQLITE_OK, d') \<and> length d' = length d \<and> chain d' addr (merge gl)
    \<and> unat (d' ! (hdr + 7)) + total_size (merge gl) = unat (d ! (hdr + 7)) + total_size gl
    \<and> (\<forall>j. j \<noteq> hdr + 7 \<longrightarrow> j \<notin> heads gl \<longrightarrow> d' ! j = d ! j)"
  using assms
proof (induction gl arbitrary: d addr l rule: merge.induct)
  case 1
  then show ?case by (subst coalesce.simps) (simp add: buf_simps)
next
  case (2 a n)
  have "a + n \<le> u" using interval_bound [of a n u] 2(2,6) by simp
  then show ?case using 2 by (subst coalesce.simps, subst coalesce.simps) (simp add: buf_simps)
next
  case (3 a n b m fl)
  have c: "g2 d addr = a" "0 < a" "g2 d (a + 2) = n" "g2 d a = b" "0 < b" "g2 d (b + 2) = m" "chain d b fl" using "3.prems"(1) by simp_all
  have s: "l \<le> a" "4 \<le> n" "a + n \<le> b" "4 \<le> m" "asc (b + m) fl" using "3.prems"(2) by auto
  have bu: "b + m \<le> u" using interval_bound [of b m u] "3.prems"(6) s(4) by simp
  have len: "a + 3 < length d" "b + 3 < length d" "hdr + 7 < length d" using bu s "3.prems"(4,7) by linarith+
  have rd: "get2byte d addr = Some a" "get2byte d a = Some b" "get2byte d (a + 2) = Some n"
    using c len "3.prems"(9) by (simp_all add: buf_simps)
  show ?case
  proof (cases "b \<le> a + n + 3")
    case True
    let ?f = "b - (a + n)"
    have tot: "total_size (merge ((a, n) # (b, m) # fl)) = total_size (merge ((a, b + m - a) # fl))" using True by simp
    have asc': "asc l ((a, b + m - a) # fl)" using s by auto
    have "total_size ((a, b + m - a) # fl) \<le> total_size (merge ((a, b + m - a) # fl))" using merge_facts [OF asc'] by blast
    moreover have "total_size ((a, b + m - a) # fl) = total_size ((a, n) # (b, m) # fl) + ?f" using s by simp
    ultimately have f: "?f \<le> unat (d ! (hdr + 7))" using "3.prems"(10) tot by simp
    define d1 where "d1 = d[hdr + 7 := d ! (hdr + 7) - word_of_nat ?f]"
    define d2 where "d2 = p2 d1 a (g2 d b)"
    define d3 where "d3 = p2 d2 (a + 2) (b + m - a)"
    have len3: "length d1 = length d" "length d2 = length d" "length d3 = length d" by (simp_all add: d1_def d2_def d3_def)
    have n1: "d1 ! j = d ! j" if "j \<noteq> hdr + 7" for j using that by (simp add: d1_def)
    have n3: "d3 ! j = d ! j" if "j \<noteq> hdr + 7" "j \<notin> {a..<a + 4}" for j
    proof -
      have "j \<noteq> a" "j \<noteq> a + 1" "j \<noteq> a + 2" "j \<noteq> a + 2 + 1" using that(2) by auto
      then show ?thesis using that(1) by (simp add: d3_def d2_def nth_p2 n1)
    qed
    have gb: "g2 d1 b = g2 d b" "g2 d2 (b + 2) = m"
    proof -
      show "g2 d1 b = g2 d b" using s "3.prems"(4) by (intro g2_cong n1) auto
      have "g2 d2 (b + 2) = g2 d (b + 2)" using s "3.prems"(4) by (intro g2_cong) (simp_all add: d2_def nth_p2 n1)
      then show "g2 d2 (b + 2) = m" using c(6) by simp
    qed
    have step: "coalesce hdr d addr = coalesce hdr d3 addr"
    proof -
      have w: "peek d (hdr + 7) = Some (d ! (hdr + 7))" "poke d (hdr + 7) (d ! (hdr + 7) - word_of_nat ?f) = Some d1"
        "get2byte d1 b = Some (g2 d b)" "put2byte d1 a (g2 d b) = Some d2" "get2byte d2 (b + 2) = Some m"
        "put2byte d2 (a + 2) (b + m - a) = Some d3"
        using len len3 gb by (simp_all add: buf_simps d1_def d2_def d3_def)
      have "\<not> (int b - int (a + n) < 0 \<or> unat (d ! (hdr + 7)) < ?f)" "a + n + 3 \<ge> b \<and> 0 < b" using f s True c(5) by simp_all
      then show ?thesis using rd w c(2) by (subst coalesce.simps) (simp only: Option.bind.simps if_True if_False simp_thms)
    qed
    have g3: "g2 d3 addr = a" "g2 d3 (a + 2) = b + m - a" "g2 d3 a = g2 d b"
    proof -
      have "g2 d3 addr = g2 d addr" using s "3.prems"(3,5) by (intro g2_cong n3) auto
      then show "g2 d3 addr = a" using c(1) by simp
      show "g2 d3 (a + 2) = b + m - a" unfolding d3_def using len len3 bu "3.prems"(8) by (intro g2_p2) auto
      have "g2 d3 a = g2 d2 a" unfolding d3_def by (intro g2_cong) (simp_all add: nth_p2)
      also have "\<dots> = g2 d b" unfolding d2_def using len len3 g2_less by (intro g2_p2) auto
      finally show "g2 d3 a = g2 d b" .
    qed
    have hf: "heads fl \<subseteq> {b + m..}" using heads_cover [OF s(5)] asc_cover [OF s(5)] by blast
    have "chain d3 a fl" by (rule chain_move [OF c(7) g3(3)]) (use hf s "3.prems"(4) n3 in fastforce)
    then have ch: "chain d3 addr ((a, b + m - a) # fl)" using g3 c(2) by simp
    have frag: "unat (d3 ! (hdr + 7)) = unat (d ! (hdr + 7)) - ?f"
    proof -
      have "hdr + 7 \<noteq> a" "hdr + 7 \<noteq> a + 1" "hdr + 7 \<noteq> a + 2" "hdr + 7 \<noteq> a + 2 + 1" using s "3.prems"(4) by linarith+
      then have "d3 ! (hdr + 7) = d ! (hdr + 7) - word_of_nat ?f" using len by (simp add: d3_def d2_def d1_def nth_p2)
      moreover have "?f < 256" using f unat_less [of "d ! (hdr + 7)"] by simp
      ultimately show ?thesis using f by (simp add: unat_sub unsigned_of_nat take_bit_nat_eq_self word_le_nat_alt)
    qed
    have cov: "cover ((a, b + m - a) # fl) \<subseteq> {..<u}" using "3.prems"(6) bu s by auto
    have "\<exists>d'. coalesce hdr d3 addr = Some (SQLITE_OK, d') \<and> length d' = length d3 \<and> chain d' addr (merge ((a, b + m - a) # fl))
      \<and> unat (d' ! (hdr + 7)) + total_size (merge ((a, b + m - a) # fl)) = unat (d3 ! (hdr + 7)) + total_size ((a, b + m - a) # fl)
      \<and> (\<forall>j. j \<noteq> hdr + 7 \<longrightarrow> j \<notin> heads ((a, b + m - a) # fl) \<longrightarrow> d' ! j = d3 ! j)"
      by (rule "3.IH"(1) [OF True ch asc' _ _ _ cov])
        (use "3.prems"(3-5,7-10) len3 frag f tot s in \<open>simp_all\<close>)
    then obtain d' where d': "coalesce hdr d3 addr = Some (SQLITE_OK, d')" "length d' = length d3" "chain d' addr (merge ((a, b + m - a) # fl))"
      "unat (d' ! (hdr + 7)) + total_size (merge ((a, b + m - a) # fl)) = unat (d3 ! (hdr + 7)) + total_size ((a, b + m - a) # fl)"
      "\<forall>j. j \<noteq> hdr + 7 \<longrightarrow> j \<notin> heads ((a, b + m - a) # fl) \<longrightarrow> d' ! j = d3 ! j" by blast
    have "unat (d' ! (hdr + 7)) + total_size (merge ((a, n) # (b, m) # fl)) = unat (d ! (hdr + 7)) + total_size ((a, n) # (b, m) # fl)"
      using d'(4) tot frag f s by simp
    moreover have "\<forall>j. j \<noteq> hdr + 7 \<longrightarrow> j \<notin> heads ((a, n) # (b, m) # fl) \<longrightarrow> d' ! j = d ! j" using d'(5) n3 by simp
    ultimately show ?thesis using step d'(1-3) len3 True by (intro exI [of _ d']) simp
  next
    case False
    have ch: "chain d a ((b, m) # fl)" using c by simp
    have as: "asc (a + n) ((b, m) # fl)" using s by simp
    have tot: "total_size (merge ((b, m) # fl)) \<le> total_size ((b, m) # fl) + unat (d ! (hdr + 7))" using "3.prems"(10) False by simp
    have cov: "cover ((b, m) # fl) \<subseteq> {..<u}" using "3.prems"(6) by simp
    have "\<exists>d'. coalesce hdr d a = Some (SQLITE_OK, d') \<and> length d' = length d \<and> chain d' a (merge ((b, m) # fl))
      \<and> unat (d' ! (hdr + 7)) + total_size (merge ((b, m) # fl)) = unat (d ! (hdr + 7)) + total_size ((b, m) # fl)
      \<and> (\<forall>j. j \<noteq> hdr + 7 \<longrightarrow> j \<notin> heads ((b, m) # fl) \<longrightarrow> d' ! j = d ! j)"
      by (rule "3.IH"(2) [OF False ch as _ _ _ cov _ _ _ tot]) (use "3.prems" s len in auto)
    then obtain d' where d': "coalesce hdr d a = Some (SQLITE_OK, d')" "length d' = length d" "chain d' a (merge ((b, m) # fl))"
      "unat (d' ! (hdr + 7)) + total_size (merge ((b, m) # fl)) = unat (d ! (hdr + 7)) + total_size ((b, m) # fl)"
      "\<forall>j. j \<noteq> hdr + 7 \<longrightarrow> j \<notin> heads ((b, m) # fl) \<longrightarrow> d' ! j = d ! j" by blast
    have step: "coalesce hdr d addr = coalesce hdr d a" using rd c(2) False by (subst coalesce.simps) simp
    have hd: "heads ((b, m) # fl) \<subseteq> {b..}" using heads_cover [of b "(b, m) # fl"] asc_cover [of b "(b, m) # fl"] s by auto
    have fr: "d' ! j = d ! j" if "j < b" "j \<noteq> hdr + 7" for j
    proof -
      have "j \<notin> heads ((b, m) # fl)" using hd that(1) by auto
      then show ?thesis using d'(5) that(2) by blast
    qed
    have "g2 d' addr = g2 d addr" by (rule g2_cong) (use s "3.prems"(3,5) in \<open>auto intro!: fr\<close>)
    moreover have "g2 d' (a + 2) = g2 d (a + 2)" by (rule g2_cong) (use s "3.prems"(4) in \<open>auto intro!: fr\<close>)
    ultimately have "chain d' addr ((a, n) # merge ((b, m) # fl))" using d'(3) c(1-3) by simp
    then show ?thesis using step d' False by (intro exI [of _ d']) auto
  qed
qed

subsection \<open>The space of a page\<close>

text \<open>
  \<open>d\<close> is the page with its header at \<open>hdr\<close>, whose pointer array ends at \<open>lo\<close>; \<open>B\<close> are the blocks
  in use and \<open>fl\<close> the free blocks of the content area, and every other byte of it is counted in
  the header.
\<close>

definition space :: "nat \<Rightarrow> nat \<Rightarrow> nat \<Rightarrow> u8 list \<Rightarrow> block list \<Rightarrow> block list \<Rightarrow> bool" where
  "space u hdr lo d B fl \<longleftrightarrow> u \<le> length d \<and> u < 65536 \<and> hdr + 8 \<le> lo \<and> lo \<le> g2 d (hdr + 5) \<and> g2 d (hdr + 5) \<le> u
     \<and> chain d (hdr + 1) fl \<and> asc (g2 d (hdr + 5)) fl \<and> spaced fl \<and> cover fl \<subseteq> {..<u}
     \<and> apart B \<and> cover B \<inter> cover fl = {} \<and> (\<forall>(a, n) \<in> set B. 4 \<le> n \<and> g2 d (hdr + 5) \<le> a \<and> a + n \<le> u)
     \<and> total_size B + total_size fl + unat (d ! (hdr + 7)) = u - g2 d (hdr + 5)"

lemma spaceD:
  assumes "space u hdr lo d B fl"
  shows "u \<le> length d" "u < 65536" "hdr + 8 \<le> lo" "lo \<le> g2 d (hdr + 5)" "g2 d (hdr + 5) \<le> u"
    "chain d (hdr + 1) fl" "asc (g2 d (hdr + 5)) fl" "spaced fl" "cover fl \<subseteq> {..<u}"
    "apart B" "cover B \<inter> cover fl = {}" "\<And>a n. (a, n) \<in> set B \<Longrightarrow> 4 \<le> n \<and> g2 d (hdr + 5) \<le> a \<and> a + n \<le> u"
    "total_size B + total_size fl + unat (d ! (hdr + 7)) = u - g2 d (hdr + 5)"
  using assms unfolding space_def by auto

lemma spaceI:
  assumes "u \<le> length d" "u < 65536" "hdr + 8 \<le> lo" "lo \<le> g2 d (hdr + 5)" "g2 d (hdr + 5) \<le> u"
    "chain d (hdr + 1) fl" "asc (g2 d (hdr + 5)) fl" "spaced fl" "cover fl \<subseteq> {..<u}"
    "apart B" "cover B \<inter> cover fl = {}" "\<And>a n. (a, n) \<in> set B \<Longrightarrow> 4 \<le> n \<and> g2 d (hdr + 5) \<le> a \<and> a + n \<le> u"
    "total_size B + total_size fl + unat (d ! (hdr + 7)) = u - g2 d (hdr + 5)"
  shows "space u hdr lo d B fl"
  unfolding space_def using assms by blast

lemma space_lo: "space u hdr lo d B fl \<Longrightarrow> hdr + 8 \<le> lo' \<Longrightarrow> lo' \<le> g2 d (hdr + 5) \<Longrightarrow> space u hdr lo' d B fl"
  by (simp add: space_def)

lemma space_cover: "space u hdr lo d B fl \<Longrightarrow> cover B \<union> cover fl \<subseteq> {g2 d (hdr + 5)..<u}"
proof -
  assume s: "space u hdr lo d B fl"
  have "cover B \<subseteq> {g2 d (hdr + 5)..<u}"
  proof
    fix j assume "j \<in> cover B"
    then obtain a n where "(a, n) \<in> set B" "j \<in> {a..<a + n}" unfolding cover_def by blast
    then show "j \<in> {g2 d (hdr + 5)..<u}" using spaceD(12) [OF s] by fastforce
  qed
  then show ?thesis using asc_cover [OF spaceD(7) [OF s]] spaceD(9) [OF s] by auto
qed

text \<open>The search for the place of a new block in the list.\<close>

lemma free_search_law:
  assumes "chain d p fl" "asc lo fl" "p + 2 \<le> lo" "cover fl \<subseteq> {..<length d}" "p + 1 < length d" "p < start"
  shows "\<exists>fl1 fl2. fl = fl1 @ fl2 \<and> free_search d p start = Some (Some (ptr p fl1, if fl2 = [] then 0 else fst (hd fl2)))
    \<and> (\<forall>(a, n) \<in> set fl1. a < start) \<and> (fl2 = [] \<or> start \<le> fst (hd fl2))"
  using assms
proof (induction fl arbitrary: p lo)
  case Nil
  then show ?case by (subst free_search.simps) (simp add: buf_simps)
next
  case (Cons x fl)
  obtain a n where x: "x = (a, n)" by (cases x)
  have c: "g2 d p = a" "0 < a" "chain d a fl" "lo \<le> a" "4 \<le> n" "asc (a + n) fl" using Cons.prems(1,2) x by auto
  have "{a..<a + n} \<subseteq> {..<length d}" "cover fl \<subseteq> {..<length d}" using Cons.prems(4) x by auto
  then have al: "a + 1 < length d" using c(5) by (auto simp: subset_eq)
  show ?case
  proof (cases "a < start")
    case True
    have step: "free_search d p start = free_search d a start"
      using True c Cons.prems(3,5) by (subst free_search.simps) (simp add: buf_simps)
    obtain fl1 fl2 where r: "fl = fl1 @ fl2" "free_search d a start = Some (Some (ptr a fl1, if fl2 = [] then 0 else fst (hd fl2)))"
      "\<forall>(a, n) \<in> set fl1. a < start" "fl2 = [] \<or> start \<le> fst (hd fl2)"
      using Cons.IH [OF c(3,6) _ \<open>cover fl \<subseteq> _\<close> al True] c(5) by auto
    then show ?thesis using step x True by (intro exI [of _ "x # fl1"] exI [of _ fl2]) auto
  next
    case False
    then show ?thesis using c(1) Cons.prems(5) x
      by (intro exI [of _ "[]"] exI [of _ "x # fl"], subst free_search.simps) (simp add: buf_simps)
  qed
qed

lemma g2_eq_iff: "g2 d a = g2 d' b \<longleftrightarrow> d ! a = d' ! b \<and> d ! (a + 1) = d' ! (b + 1)"
proof
  assume "g2 d a = g2 d' b"
  moreover have "unat (d ! (a + 1)) < 256" "unat (d' ! (b + 1)) < 256" using unat_less [of "d ! (a + 1)"] unat_less [of "d' ! (b + 1)"] by simp_all
  moreover have "x = x' \<and> y = y'" if "x * 256 + y = x' * 256 + y'" "y < 256" "y' < 256" for x y x' y' :: nat
    using arg_cong [OF that(1), of "\<lambda>v. v mod 256"] arg_cong [OF that(1), of "\<lambda>v. v div 256"] that(2,3) by simp
  ultimately have "unat (d ! a) = unat (d' ! b) \<and> unat (d ! (a + 1)) = unat (d' ! (b + 1))" unfolding g2_def by blast
  then show "d ! a = d' ! b \<and> d ! (a + 1) = d' ! (b + 1)" by (simp add: word_unat_eq_iff)
qed (simp add: g2_def)

lemma total_size_append: "total_size (B @ C) = total_size B + total_size C"
  by simp

text \<open>Freeing a block in use.\<close>

lemma freeSpace_law:
  assumes s: "space (usableSize bt) (hdrOffset p) lo (aData p) (B1 @ (start, n) # B2) fl"
  shows "\<exists>d' fl'. freeSpace bt p start n = Some (SQLITE_OK, p\<lparr>nFree := nFree p + word_of_nat n, aData := d'\<rparr>)
    \<and> space (usableSize bt) (hdrOffset p) lo d' (B1 @ B2) fl' \<and> length d' = length (aData p)
    \<and> (\<forall>j \<in> cover (B1 @ B2) \<union> {hdrOffset p, hdrOffset p + 3, hdrOffset p + 4} \<union> {hdrOffset p + 8..<g2 (aData p) (hdrOffset p + 5)}.
        d' ! j = aData p ! j)"
proof -
  define d u hdr top where "d = aData p" and "u = usableSize bt" and "hdr = hdrOffset p" and "top = g2 d (hdr + 5)"
  note D = spaceD [OF s, folded d_def u_def hdr_def, folded top_def]
  have st: "4 \<le> n" "top \<le> start" "start + n \<le> u" using D(12) [of start n] by auto
  have su: "start < 65536" "n < 65536" "0 < start" using st D(2,3,4) by linarith+
  have ap: "apart B1" "apart B2" "cover B1 \<inter> cover B2 = {}" "{start..<start + n} \<inter> cover B2 = {}" "cover B1 \<inter> {start..<start + n} = {}"
    using D(10) by (auto simp: apart_append Int_Un_distrib)
  have sfl: "{start..<start + n} \<inter> cover fl = {}" using D(11) by auto
  have cl: "cover fl \<subseteq> {..<length d}" using D(1,9) by auto
  obtain fl1 fl2 where f: "fl = fl1 @ fl2" "free_search d (hdr + 1) start = Some (Some (ptr (hdr + 1) fl1, if fl2 = [] then 0 else fst (hd fl2)))"
    "\<forall>(a, n) \<in> set fl1. a < start" "fl2 = [] \<or> start \<le> fst (hd fl2)"
    using free_search_law [OF D(6,7) _ cl, of start] D(1,3,4,5) st by auto
  define pb0 where "pb0 = (if fl2 = [] then 0 else fst (hd fl2))"
  define gl where "gl = fl1 @ (start, n) # fl2"
  have a1: "asc top fl1" "asc (if fl1 = [] then top else fst (last fl1) + snd (last fl1)) fl2" using D(7) f(1) by (simp_all add: asc_append)
  have l1: "(if fl1 = [] then top else fst (last fl1) + snd (last fl1)) \<le> start"
  proof (cases "fl1 = []")
    case False
    then have m: "last fl1 \<in> set fl1" by simp
    obtain x k where xk: "last fl1 = (x, k)" by (cases "last fl1")
    have "x < start" using f(3) m xk by auto
    have "{x..<x + k} \<subseteq> cover fl" using cover_elem [of x k fl] m xk f(1) by simp
    moreover have "start \<in> {start..<start + n}" using st(1) by simp
    ultimately have "start \<notin> {x..<x + k}" using sfl by blast
    with \<open>x < start\<close> show ?thesis using False xk by auto
  qed (use st in simp)
  have l2: "asc (start + n) fl2"
  proof (cases fl2)
    case (Cons y r)
    obtain x k where y: "y = (x, k)" by (cases y)
    have "{x..<x + k} \<subseteq> cover fl" using f(1) Cons y by auto
    moreover have "4 \<le> k" "start \<le> x" using a1(2) f(4) Cons y by auto
    ultimately have "x \<notin> {start..<start + n}" using sfl by fastforce
    then show ?thesis using a1(2) Cons y \<open>start \<le> x\<close> by auto
  qed simp
  have asc_gl: "asc top gl" using a1(1) l1 l2 st(1) by (simp add: gl_def asc_append)
  have pp: "{ptr (hdr + 1) fl1, ptr (hdr + 1) fl1 + 1} \<subseteq> {hdr + 1, hdr + 2} \<union> heads fl1"
    using ptr_in [OF a1(1), of "hdr + 1"] D(3,4) by simp
  have h1: "heads fl1 \<subseteq> cover fl" using heads_cover [OF a1(1)] f(1) by auto
  have c_top: "cover fl \<subseteq> {top..<u}" using asc_cover [OF D(7)] D(9) by auto
  have hl: "hdr + 8 \<le> top" using D(3,4) by linarith
  have p1: "ptr (hdr + 1) fl1 + 1 < length d" using pp h1 c_top D(1,5) hl by (auto simp: subset_eq; fastforce)
  define d1 d2 d3 where "d1 = p2 d (ptr (hdr + 1) fl1) start" and "d2 = p2 d1 start pb0" and "d3 = p2 d2 (start + 2) n"
  have len: "length d1 = length d" "length d2 = length d" "length d3 = length d" by (simp_all add: d1_def d2_def d3_def)
  have n3: "d3 ! j = d ! j" if "j \<notin> {start..<start + 4}" "j \<notin> {ptr (hdr + 1) fl1, ptr (hdr + 1) fl1 + 1}" for j
  proof -
    have "j \<noteq> start" "j \<noteq> start + 1" "j \<noteq> start + 2" "j \<noteq> start + 2 + 1" using that(1) by auto
    then show ?thesis using that(2) by (simp add: d3_def d2_def d1_def nth_p2)
  qed
  have pst: "{ptr (hdr + 1) fl1, ptr (hdr + 1) fl1 + 1} \<inter> {start..<start + n} = {}"
    using pp h1 sfl hl st by (auto simp: subset_eq; fastforce)
  have pb0u: "pb0 + 4 \<le> u \<or> pb0 = 0"
  proof (cases fl2)
    case (Cons y r)
    obtain x k where y: "y = (x, k)" by (cases y)
    have "{x..<x + k} \<subseteq> {..<u}" using D(9) f(1) Cons y by simp
    moreover have "4 \<le> k" using a1(2) Cons y by auto
    ultimately have "x + 3 < u" by (auto simp: subset_eq)
    then show ?thesis by (simp add: pb0_def Cons y)
  qed (simp add: pb0_def)
  have ch3: "chain d3 (hdr + 1) gl"
    unfolding gl_def
  proof (rule chain_replace [OF D(6) [unfolded f(1)] a1(1)])
    show "hdr + 1 + 2 \<le> top" using hl by simp
    have "g2 d3 (ptr (hdr + 1) fl1) = g2 d1 (ptr (hdr + 1) fl1)"
      using pst st(1) by (intro g2_cong) (auto simp: d3_def d2_def nth_p2)
    then have g: "g2 d3 (ptr (hdr + 1) fl1) = start" using g2_p2 [OF p1 su(1)] by (simp add: d1_def)
    have g': "g2 d3 (start + 2) = n" unfolding d3_def using st D(1) len su by (intro g2_p2) auto
    have "g2 d3 start = g2 d2 start" unfolding d3_def by (intro g2_cong) (simp_all add: nth_p2)
    also have "\<dots> = pb0" unfolding d2_def using st D(1,2) len pb0u by (intro g2_p2) auto
    finally have g0: "g2 d3 start = pb0" .
    have "chain d (ptr (hdr + 1) fl1) fl2" by (rule chain_split) (use D(6) f(1) in simp)
    moreover have "g2 d (ptr (hdr + 1) fl1) = pb0" using calculation by (cases fl2) (auto simp: pb0_def)
    ultimately have "chain d3 start fl2"
    proof (rule_tac chain_move)
      fix j assume "j \<in> heads fl2"
      then have "j \<in> cover fl2" using heads_cover [OF a1(2)] by blast
      moreover have "cover fl2 \<inter> cover fl1 = {}" using asc_apart [OF D(7)] f(1) by (auto simp: apart_append)
      moreover have "heads fl1 \<subseteq> cover fl1" using heads_cover [OF a1(1)] .
      ultimately have "j \<notin> heads fl1" "j \<in> cover fl" using f(1) by auto
      moreover from this(2) have "j \<notin> {hdr + 1, hdr + 2}" "j \<notin> {start..<start + n}" using c_top hl sfl by auto
      ultimately have "j \<notin> {ptr (hdr + 1) fl1, ptr (hdr + 1) fl1 + 1}" "j \<notin> {start..<start + n}" using pp by blast+
      then show "d3 ! j = d ! j" using n3 st(1) by auto
    qed (use g0 in auto)
    then show "chain d3 (ptr (hdr + 1) fl1) ((start, n) # fl2)" using g g' su(3) by simp
  next
    fix j assume j: "j \<in> {hdr + 1, hdr + 1 + 1} \<union> heads fl1" "j \<notin> {ptr (hdr + 1) fl1, ptr (hdr + 1) fl1 + 1}"
    then have "j \<notin> {start..<start + n}" using h1 sfl hl st(2) by auto
    then show "d3 ! j = d ! j" using n3 j(2) st(1) by auto
  qed
  have cB: "cover (B1 @ B2) \<inter> cover gl = {}" using D(11) ap f(1) by (auto simp: gl_def)
  have B4: "4 \<le> k \<and> top \<le> c \<and> c + k \<le> u" if "(c, k) \<in> set (B1 @ B2)" for c k using D(12) [of c k] that by auto
  have apB: "apart (B1 @ B2)" using ap by (simp add: apart_append)
  have cg: "cover gl \<subseteq> {..<u}" using D(9) f(1) st(3) by (auto simp: gl_def)
  note mf = merge_facts [OF asc_gl]
  have cBm: "cover (B1 @ B2) \<inter> cover (merge gl) = {}" using merge_apart [OF _ asc_gl cB] B4 by blast
  have cm: "cover (merge gl) \<subseteq> {top..<u}" using merge_region [OF asc_gl cg] asc_cover [of top "merge gl"] mf by auto
  have "cover (B1 @ B2) \<subseteq> {top..<u}" using space_cover [OF s, folded d_def u_def hdr_def, folded top_def] by auto
  with cm have "cover ((B1 @ B2) @ merge gl) \<subseteq> {top..<u}" by (simp del: append_assoc)
  moreover have "apart ((B1 @ B2) @ merge gl)" using apB asc_apart [of top "merge gl"] mf cBm unfolding apart_append [of "B1 @ B2"] by blast
  ultimately have "total_size ((B1 @ B2) @ merge gl) \<le> u - top" by (intro total_in_region)
  moreover have tot: "total_size (B1 @ B2) + total_size gl + unat (d ! (hdr + 7)) = u - top" using D(13) f(1) by (simp add: gl_def)
  ultimately have lost: "total_size (merge gl) \<le> total_size gl + unat (d ! (hdr + 7))" by simp
  have h7: "d3 ! (hdr + 7) = d ! (hdr + 7)"
  proof (rule n3)
    have "hdr + 7 \<notin> heads fl1" "hdr + 7 \<notin> {hdr + 1, hdr + 2}" using h1 c_top hl by auto
    then show "hdr + 7 \<notin> {ptr (hdr + 1) fl1, ptr (hdr + 1) fl1 + 1}" using pp by blast
  qed (use hl st(2) in simp)
  obtain d4 where d4: "coalesce hdr d3 (hdr + 1) = Some (SQLITE_OK, d4)" "length d4 = length d" "chain d4 (hdr + 1) (merge gl)"
    "unat (d4 ! (hdr + 7)) + total_size (merge gl) = unat (d ! (hdr + 7)) + total_size gl"
    "\<And>j. j \<noteq> hdr + 7 \<Longrightarrow> j \<notin> heads gl \<Longrightarrow> d4 ! j = d3 ! j"
    using coalesce_law [OF ch3 asc_gl _ _ _ cg, of hdr] len D(1,2,5) hl lost h7 by auto
  have hg: "heads gl \<subseteq> cover gl" using heads_cover [OF asc_gl] .
  have cgt: "cover gl \<subseteq> {top..}" using asc_cover [OF asc_gl] .
  have n4: "d4 ! j = d ! j" if "j \<in> cover (B1 @ B2) \<or> j < top \<and> j \<notin> {hdr + 1, hdr + 2, hdr + 7}" for j
  proof -
    have "j \<notin> cover gl" using that cB cgt by auto
    then have g: "j \<notin> heads gl" "j \<notin> {start..<start + 4}" "j \<notin> heads fl1" using hg st(1) by (auto simp: gl_def)
    have j7: "j \<noteq> hdr + 7" "j \<notin> {hdr + 1, hdr + 2}" using that \<open>cover (B1 @ B2) \<subseteq> {top..<u}\<close> hl by auto
    then have "j \<notin> {ptr (hdr + 1) fl1, ptr (hdr + 1) fl1 + 1}" using pp g(3) by blast
    then show ?thesis using d4(5) [OF j7(1) g(1)] n3 [OF g(2)] by simp
  qed
  have top4: "g2 d4 (hdr + 5) = top" using n4 hl unfolding top_def by (intro g2_cong) auto
  have "start \<in> cover gl" using st(1) by (simp add: gl_def)
  then have "merge gl \<noteq> []" using mf by auto
  then obtain x k r where m: "merge gl = (x, k) # r" by (metis list.exhaust surj_pair)
  have xk: "top \<le> x" "4 \<le> k" "asc (x + k) r" "g2 d4 (hdr + 1) = x" "g2 d4 (x + 2) = k" "chain d4 x r" using mf d4(3) m by auto
  have xu: "x + k \<le> u" using interval_bound [of x k u] cm m xk(2) by auto
  have rd: "get2byte d (hdr + 5) = Some top" "free_search d (hdr + 1) start = Some (Some (ptr (hdr + 1) fl1, pb0))"
    using D(1,4,5) hl f(2) by (simp_all add: buf_simps top_def pb0_def)
  have peeks: "peek d4 (hdr + i) = Some (d4 ! (hdr + i))" if "i < 8" for i using that hl D(1,5) d4(2) by simp
  have step: "freeSpace bt p start n = (if x = top then do {
        c \<leftarrow> get_bytes d4 x 2; d5 \<leftarrow> put_bytes d4 (hdr + 1) c;
        top \<leftarrow> get2byte d5 (hdr + 5); n' \<leftarrow> get2byte d5 (x + 2); d6 \<leftarrow> put2byte d5 (hdr + 5) (top + n');
        Some (SQLITE_OK, p\<lparr>nFree := nFree p + word_of_nat n, aData := d6\<rparr>) }
      else Some (SQLITE_OK, p\<lparr>nFree := nFree p + word_of_nat n, aData := d4\<rparr>))"
  proof -
    have e: "d4 ! (hdr + 1) = d4 ! (hdr + 5) \<and> d4 ! (hdr + 2) = d4 ! (hdr + 6) \<longleftrightarrow> x = top"
      using g2_eq_iff [of d4 "hdr + 1" d4 "hdr + 5"] xk(4) top4 by (simp add: add.commute)
    have w: "put2byte d (ptr (hdr + 1) fl1) start = Some d1" "put2byte d1 start pb0 = Some d2" "put2byte d2 (start + 2) n = Some d3"
      using p1 st D(1) len by (simp_all add: buf_simps d1_def d2_def d3_def)
    have g: "get2byte d4 (hdr + 1) = Some x" using xk(4) hl D(1,5) d4(2) by (simp add: buf_simps)
    have nu: "\<not> int pb0 > int u - 4" using pb0u D(3,4,5) by auto
    show ?thesis
      using e nu unfolding freeSpace_def d_def [symmetric] hdr_def [symmetric] u_def [symmetric] Let_def
      by (simp add: rd w g d4(1) peeks del: One_nat_def add_2_eq_Suc')
  qed
  show ?thesis
  proof (cases "x = top")
    case False
    have "space u hdr lo d4 (B1 @ B2) (merge gl)"
      using D d4 mf cm cBm apB B4 tot top4 by (intro spaceI) auto
    then show ?thesis using step False d4(2) n4 hl
      by (intro exI [of _ d4] exI [of _ "merge gl"]) (auto simp flip: d_def hdr_def u_def top_def)
  next
    case True
    define d5 d6 where "d5 = pb d4 (hdr + 1) (take 2 (drop x d4))" and "d6 = p2 d5 (hdr + 5) (top + k)"
    have xl: "x + 4 \<le> length d4" "hdr + 8 \<le> length d4" using xu xk(2) D(1,5) hl d4(2) by linarith+
    have l2: "length (take 2 (drop x d4)) = 2" using xl by simp
    have len6: "length d5 = length d" "length d6 = length d" using xl l2 d4(2) by (simp_all add: d6_def d5_def)
    have n5: "d5 ! j = d4 ! j" if "j \<notin> {hdr + 1, hdr + 2}" "j < length d" for j
      using that xl l2 d4(2) by (auto simp: d5_def nth_pb)
    have n6: "d6 ! j = d4 ! j" if "j \<notin> {hdr + 1, hdr + 2, hdr + 5, hdr + 6}" "j < length d" for j
    proof -
      have "j \<noteq> hdr + 5" "j \<noteq> hdr + 5 + 1" using that(1) by auto
      then show ?thesis using n5 [of j] that by (simp add: d6_def nth_p2)
    qed
    have g5: "g2 d5 (hdr + 5) = top" "g2 d5 (x + 2) = k"
      using top4 xk(5) xl d4(2) True hl by (simp_all add: g2_def n5)
    have "top + k < 65536" using xu True D(2) by simp
    then have top6: "g2 d6 (hdr + 5) = top + k" unfolding d6_def using xl len6 d4(2) by (intro g2_p2) auto
    have g61: "g2 d6 (hdr + 1) = g2 d4 x"
    proof -
      have "g2 d6 (hdr + 1) = g2 d5 (hdr + 1)" unfolding d6_def by (intro g2_cong) (simp_all add: nth_p2)
      also have "\<dots> = g2 d4 x" using xl l2 by (simp add: g2_def d5_def nth_pb add.commute)
      finally show ?thesis .
    qed
    have hr: "heads r \<subseteq> {x + k..}" using heads_cover [OF xk(3)] asc_cover [OF xk(3)] by blast
    have hru: "heads r \<subseteq> {..<length d}" using heads_cover [OF xk(3)] cm m D(1) by auto
    have ch6: "chain d6 (hdr + 1) r"
    proof (rule chain_move [OF xk(6) g61])
      fix j assume "j \<in> heads r"
      then have "x + k \<le> j" "j < length d" using hr hru by auto
      then show "d6 ! j = d4 ! j" using hl xk(1) by (intro n6) auto
    qed
    have d6: "freeSpace bt p start n = Some (SQLITE_OK, p\<lparr>nFree := nFree p + word_of_nat n, aData := d6\<rparr>)"
    proof -
      have "get_bytes d4 x 2 = Some (take 2 (drop x d4))" using xl by (simp add: buf_simps)
      moreover have "put_bytes d4 (hdr + 1) (take 2 (drop x d4)) = Some d5" using xl l2 by (simp add: put_bytes_pb d5_def)
      moreover have "get2byte d5 (hdr + 5) = Some top" "get2byte d5 (x + 2) = Some k" using g5 xl len6 d4(2) by (simp_all add: buf_simps)
      moreover have "put2byte d5 (hdr + 5) (top + k) = Some d6" using xl len6 d4(2) by (simp add: buf_simps d6_def)
      ultimately show ?thesis using step True by simp
    qed
    have cr: "cover r \<subseteq> cover (merge gl)" "total_size (merge gl) = k + total_size r" using m by auto
    have B6: "4 \<le> j \<and> top + k \<le> c \<and> c + j \<le> u" if "(c, j) \<in> set (B1 @ B2)" for c j
    proof -
      have "c \<in> {c..<c + j}" using B4 [OF that] by simp
      then have "c \<in> cover (B1 @ B2)" using cover_elem [OF that] by blast
      moreover have "{x..<x + k} \<subseteq> cover (merge gl)" using m by simp
      ultimately have "c \<notin> {x..<x + k}" using cBm by blast
      then show ?thesis using B4 [OF that] True by auto
    qed
    have fr: "d6 ! (hdr + 7) = d4 ! (hdr + 7)" using xl d4(2) by (intro n6) auto
    have sr: "spaced r" using mf m by (cases r) auto
    have "space u hdr lo d6 (B1 @ B2) r"
    proof (rule spaceI)
      show "total_size (B1 @ B2) + total_size r + unat (d6 ! (hdr + 7)) = u - g2 d6 (hdr + 5)"
        using tot d4(4) cr(2) fr top6 xu True by simp
      show "cover (B1 @ B2) \<inter> cover r = {}" using cBm cr(1) by blast
      show "cover r \<subseteq> {..<u}" using cm cr(1) by auto
      show "asc (g2 d6 (hdr + 5)) r" using xk(3) True top6 by simp
    qed (use D B6 apB top6 ch6 sr len6 xu True in auto)
    moreover have "\<forall>j \<in> cover (B1 @ B2) \<union> {hdr, hdr + 3, hdr + 4} \<union> {hdr + 8..<top}. d6 ! j = d ! j"
    proof
      fix j assume j: "j \<in> cover (B1 @ B2) \<union> {hdr, hdr + 3, hdr + 4} \<union> {hdr + 8..<top}"
      then have a: "j \<in> cover (B1 @ B2) \<or> j < top \<and> j \<notin> {hdr + 1, hdr + 2, hdr + 7}" using hl by auto
      have b: "j \<notin> {hdr + 1, hdr + 2, hdr + 5, hdr + 6}" "j < length d"
        using j hl \<open>cover (B1 @ B2) \<subseteq> {top..<u}\<close> D(1,5) by auto
      show "d6 ! j = d ! j" using n6 [OF b] n4 [OF a] by simp
    qed
    ultimately show ?thesis using d6 len6 by (intro exI [of _ d6] exI [of _ r]) (simp flip: d_def hdr_def u_def top_def)
  qed
qed

subsection \<open>Allocation from the list and from the gap\<close>

lemma alloc_search_law:
  assumes "chain d p fl" "asc lo fl" "p + 2 \<le> lo" "cover fl \<subseteq> {..<length d}" "p + 1 < length d"
  shows "alloc_search d p n = Some None \<or>
    (\<exists>fl1 a k fl2. fl = fl1 @ (a, k) # fl2 \<and> n \<le> k \<and> alloc_search d p n = Some (Some (ptr p fl1, a, k)))"
  using assms
proof (induction fl arbitrary: p lo)
  case Nil
  then show ?case by (subst (1 2) alloc_search.simps) (simp add: buf_simps)
next
  case (Cons x fl)
  obtain a k where x: "x = (a, k)" by (cases x)
  have c: "g2 d p = a" "0 < a" "g2 d (a + 2) = k" "chain d a fl" "lo \<le> a" "4 \<le> k" "asc (a + k) fl" using Cons.prems(1,2) x by auto
  have cov: "{a..<a + k} \<subseteq> {..<length d}" "cover fl \<subseteq> {..<length d}" using Cons.prems(4) x by auto
  have al: "a + k \<le> length d" using interval_bound [OF cov(1)] c(6) by simp
  have rd: "get2byte d p = Some a" "get2byte d (a + 2) = Some k" using c al Cons.prems(5) by (simp_all add: buf_simps)
  show ?case
  proof (cases "n \<le> k")
    case True
    have "alloc_search d p n = Some (Some (p, a, k))" using rd c(2) True by (subst alloc_search.simps) simp
    then show ?thesis using True x by (intro disjI2 exI [of _ "[]"]) auto
  next
    case False
    have step: "alloc_search d p n = alloc_search d a n" using rd c(2) False by (subst alloc_search.simps) simp
    from Cons.IH [OF c(4,7) _ cov(2)] c(6) al consider "alloc_search d a n = Some None"
      | fl1 b j fl2 where "fl = fl1 @ (b, j) # fl2" "n \<le> j" "alloc_search d a n = Some (Some (ptr a fl1, b, j))" by fastforce
    then show ?thesis
    proof cases
      case 2
      then show ?thesis using step x by (intro disjI2 exI [of _ "x # fl1"]) auto
    qed (use step in simp)
  qed
qed

lemma spaced_append: "spaced (fl @ (a, n) # gl) \<longleftrightarrow> spaced (fl @ [(a, n)]) \<and> spaced ((a, n) # gl)"
  by (induction fl rule: spaced.induct) auto

lemma spaced_snoc: "asc lo (fl @ [(a, n)]) \<Longrightarrow> spaced (fl @ [(a, n)]) \<Longrightarrow> a \<le> b \<Longrightarrow> spaced (fl @ [(b, m)])"
  by (induction fl arbitrary: lo rule: spaced.induct) auto

lemma spaced_last: "spaced (fl @ [(a, n)]) \<Longrightarrow> spaced fl"
  by (induction fl rule: spaced.induct) auto

lemma spaced_remove: "asc lo (fl @ (a, n) # gl) \<Longrightarrow> spaced (fl @ (a, n) # gl) \<Longrightarrow> spaced (fl @ gl)"
proof (cases gl)
  case Nil
  assume "spaced (fl @ (a, n) # gl)"
  then show ?thesis using Nil spaced_last by auto
next
  case (Cons y r)
  obtain b m where y: "y = (b, m)" by (cases y)
  assume h: "asc lo (fl @ (a, n) # gl)" "spaced (fl @ (a, n) # gl)"
  then have s: "spaced (fl @ [(a, n)])" "spaced ((a, n) # (b, m) # r)" using spaced_append Cons y by metis+
  moreover have "asc lo (fl @ [(a, n)])" using h(1) by (simp add: asc_append)
  ultimately show ?thesis using spaced_snoc [of lo fl a n b m] spaced_append [of fl b m r] Cons y by auto
qed

text \<open>The bytes that no operation on the free space changes: the flags and the number of cells, the cell pointers, the blocks in use.\<close>

definition kept_bytes :: "nat \<Rightarrow> nat \<Rightarrow> block list \<Rightarrow> nat set" where
  "kept_bytes hdr tp B = cover B \<union> {hdr, hdr + 3, hdr + 4} \<union> {hdr + 8..<tp}"

lemma alloc_unlink_law:
  assumes s: "space u hdr lo d B (fl1 @ (a, k) # fl2)" and n: "4 \<le> n" "n \<le> k" "k < n + 4" and fr: "unat (d ! (hdr + 7)) < 60"
  defines "d' \<equiv> (pb d (ptr (hdr + 1) fl1) (take 2 (drop a d)))[hdr + 7 := d ! (hdr + 7) + word_of_nat (k - n)]"
  shows "ptr (hdr + 1) fl1 + 2 \<le> length d" "a + 2 \<le> length d" "space u hdr lo d' (B @ [(a, n)]) (fl1 @ fl2)" "length d' = length d"
    "g2 d' (hdr + 5) = g2 d (hdr + 5)" "\<And>j. j \<in> kept_bytes hdr (g2 d (hdr + 5)) B \<Longrightarrow> d' ! j = d ! j"
proof -
  define top where "top = g2 d (hdr + 5)"
  note D = spaceD [OF s, folded top_def]
  have a1: "asc top fl1" "asc (a + k) fl2" "4 \<le> k" "(if fl1 = [] then top else fst (last fl1) + snd (last fl1)) \<le> a"
    using D(7) by (simp_all add: asc_append)
  have hl: "hdr + 8 \<le> top" using D(3,4) by simp
  have ct: "cover (fl1 @ (a, k) # fl2) \<subseteq> {top..<u}" using space_cover [OF s] by (simp add: top_def)
  have m: "(a, k) \<in> set (fl1 @ (a, k) # fl2)" by simp
  then have "{a..<a + k} \<subseteq> {..<u}" using cover_elem [OF m] D(9) by blast
  then have ak: "a + k \<le> u" "top \<le> a" using asc_sizes [OF D(7) m] interval_bound [of a k u] by simp_all
  have pp: "{ptr (hdr + 1) fl1, ptr (hdr + 1) fl1 + 1} \<subseteq> {hdr + 1, hdr + 2} \<union> heads fl1" using ptr_in [OF a1(1), of "hdr + 1"] hl by simp
  have h1: "heads fl1 \<subseteq> cover fl1" using heads_cover [OF a1(1)] .
  have ap: "cover fl1 \<inter> ({a..<a + k} \<union> cover fl2) = {}" "{a..<a + k} \<inter> cover fl2 = {}" "apart fl1"
    using asc_apart [OF D(7)] by (auto simp: apart_append)
  have "ptr (hdr + 1) fl1 + 1 \<in> {hdr + 1, hdr + 2} \<union> cover fl1" using pp h1 by blast
  then have "ptr (hdr + 1) fl1 + 1 < length d" using ct D(1,5) hl by auto
  then show p1: "ptr (hdr + 1) fl1 + 2 \<le> length d" by simp
  show al: "a + 2 \<le> length d" using ak(1) a1(3) D(1) by simp
  have l2: "length (take 2 (drop a d)) = 2" using al by simp
  show len: "length d' = length d" using p1 l2 by (simp add: d'_def)
  have n': "d' ! j = d ! j" if "j \<notin> {ptr (hdr + 1) fl1, ptr (hdr + 1) fl1 + 1}" "j \<noteq> hdr + 7" "j < length d" for j
    using that p1 l2 by (auto simp: d'_def nth_pb)
  have inp: "j \<notin> {ptr (hdr + 1) fl1, ptr (hdr + 1) fl1 + 1}" if "j \<notin> {hdr + 1, hdr + 2}" "j \<notin> cover fl1" for j
    using that pp h1 by blast
  show top': "g2 d' (hdr + 5) = g2 d (hdr + 5)"
    by (intro g2_cong n' inp) (use ct hl D(1,5) in auto)
  show kept: "d' ! j = d ! j" if "j \<in> kept_bytes hdr (g2 d (hdr + 5)) B" for j
  proof (intro n' inp)
    have B: "cover B \<subseteq> {top..<u}" using space_cover [OF s] by (simp add: top_def)
    have j: "j \<in> cover B \<or> j \<in> {hdr, hdr + 3, hdr + 4} \<union> {hdr + 8..<top}" using that unfolding kept_bytes_def top_def by blast
    show "j \<notin> cover fl1"
    proof (cases "j \<in> cover B")
      case True
      then show ?thesis using D(11) by auto
    next
      case False
      then show ?thesis using j ct hl by auto
    qed
    show "j \<notin> {hdr + 1, hdr + 2}" "j \<noteq> hdr + 7" "j < length d" using j B hl D(1,5) by auto
  qed
  have h7: "d' ! (hdr + 7) = d ! (hdr + 7) + word_of_nat (k - n)" using hl D(1,5) p1 l2 by (simp add: d'_def)
  then have f7: "unat (d' ! (hdr + 7)) = unat (d ! (hdr + 7)) + (k - n)"
  proof -
    have "k - n < 2 ^ 8" using n by simp
    then have "unat (word_of_nat (k - n) :: u8) = k - n" using take_bit_nat_eq_self [of "k - n" 8] by (simp add: unsigned_of_nat del: of_nat_diff)
    moreover have "unat (d ! (hdr + 7)) + (k - n) < 256" using fr n by simp
    ultimately show ?thesis using h7 by (simp only: unat_word_ariths) simp
  qed
  have gp: "g2 d' (ptr (hdr + 1) fl1) = g2 d a"
  proof -
    have "ptr (hdr + 1) fl1 \<noteq> hdr + 7" "ptr (hdr + 1) fl1 + 1 \<noteq> hdr + 7" using pp h1 ct hl by auto
    then have "g2 d' (ptr (hdr + 1) fl1) = g2 (pb d (ptr (hdr + 1) fl1) (take 2 (drop a d))) (ptr (hdr + 1) fl1)"
      by (intro g2_cong) (simp_all add: d'_def)
    also have "\<dots> = g2 d a" using p1 l2 al by (simp add: g2_def nth_pb add.commute)
    finally show ?thesis .
  qed
  have ch: "chain d' (hdr + 1) (fl1 @ fl2)"
  proof (rule chain_replace [OF D(6) a1(1)])
    show "hdr + 1 + 2 \<le> top" using hl by simp
    have "chain d a fl2" using chain_split [OF D(6)] by simp
    then show "chain d' (ptr (hdr + 1) fl1) fl2"
    proof (rule chain_move [OF _ gp])
      fix j assume "j \<in> heads fl2"
      then have j: "j \<in> cover fl2" using heads_cover [OF a1(2)] by blast
      then show "d' ! j = d ! j" using ap ct hl D(1) by (intro n' inp) auto
    qed
  next
    fix j assume j: "j \<in> {hdr + 1, hdr + 1 + 1} \<union> heads fl1" "j \<notin> {ptr (hdr + 1) fl1, ptr (hdr + 1) fl1 + 1}"
    then have "j \<noteq> hdr + 7" "j < length d" using h1 ct hl D(1,5) by auto
    then show "d' ! j = d ! j" using n' j(2) by blast
  qed
  show "space u hdr lo d' (B @ [(a, n)]) (fl1 @ fl2)"
  proof (rule spaceI)
    have nk: "{a..<a + n} \<subseteq> {a..<a + k}" using n by auto
    show "apart (B @ [(a, n)])" "cover (B @ [(a, n)]) \<inter> cover (fl1 @ fl2) = {}"
      using D(10,11) nk ap unfolding apart_append cover_simps apart.simps by blast+
    show "asc (g2 d' (hdr + 5)) (fl1 @ fl2)"
      unfolding top' using a1 by (auto simp: asc_append simp flip: top_def intro: asc_mono)
    show "spaced (fl1 @ fl2)" by (rule spaced_remove [OF D(7,8)])
    show "total_size (B @ [(a, n)]) + total_size (fl1 @ fl2) + unat (d' ! (hdr + 7)) = u - g2 d' (hdr + 5)"
      using D(13) f7 top' n by (simp add: top_def)
    show "cover (fl1 @ fl2) \<subseteq> {..<u}" using D(9) by auto
    show "4 \<le> j \<and> g2 d' (hdr + 5) \<le> c \<and> c + j \<le> u" if "(c, j) \<in> set (B @ [(a, n)])" for c j
      using that D(12) ak n top' by (auto simp: top_def)
  qed (use D len top' ch in \<open>simp_all add: top_def\<close>)
qed

lemma alloc_shrink_law:
  assumes s: "space u hdr lo d B (fl1 @ (a, k) # fl2)" and n: "4 \<le> n" "n + 4 \<le> k"
  defines "d' \<equiv> p2 d (a + 2) (k - n)"
  shows "a + 4 \<le> length d" "space u hdr lo d' (B @ [(a + k - n, n)]) (fl1 @ (a, k - n) # fl2)"
    "g2 d' (hdr + 5) = g2 d (hdr + 5)" "\<And>j. j \<in> kept_bytes hdr (g2 d (hdr + 5)) B \<Longrightarrow> d' ! j = d ! j"
proof -
  define top where "top = g2 d (hdr + 5)"
  note D = spaceD [OF s, folded top_def]
  have a1: "asc top fl1" "asc (a + k) fl2" "4 \<le> k" "(if fl1 = [] then top else fst (last fl1) + snd (last fl1)) \<le> a"
    using D(7) by (simp_all add: asc_append)
  have hl: "hdr + 8 \<le> top" using D(3,4) by simp
  have m: "(a, k) \<in> set (fl1 @ (a, k) # fl2)" by simp
  then have "{a..<a + k} \<subseteq> {..<u}" using cover_elem [OF m] D(9) by blast
  then have ak: "a + k \<le> u" "top \<le> a" using asc_sizes [OF D(7) m] interval_bound [of a k u] by simp_all
  show al: "a + 4 \<le> length d" using ak(1) a1(3) D(1) by simp
  have ap: "cover fl1 \<inter> ({a..<a + k} \<union> cover fl2) = {}" "{a..<a + k} \<inter> cover fl2 = {}"
    using asc_apart [OF D(7)] by (auto simp: apart_append)
  have n': "d' ! j = d ! j" if "j \<notin> {a + 2, a + 3}" for j using that by (simp add: d'_def p2_def)
  show top': "g2 d' (hdr + 5) = g2 d (hdr + 5)" by (intro g2_cong n') (use hl ak in auto)
  have inblock: "a + 2 \<in> {a..<a + k}" "a + 3 \<in> {a..<a + k}" using a1(3) by auto
  have blk: "{a..<a + k} \<inter> cover B = {}" using D(11) by auto
  have B: "cover B \<subseteq> {top..<u}" using space_cover [OF s] by (simp add: top_def)
  show "d' ! j = d ! j" if "j \<in> kept_bytes hdr (g2 d (hdr + 5)) B" for j
  proof (rule n')
    have j: "j \<in> cover B \<or> j \<in> {hdr, hdr + 3, hdr + 4} \<union> {hdr + 8..<top}" using that unfolding kept_bytes_def top_def by blast
    then have "j \<in> cover B \<or> j < top" using hl by auto
    then show "j \<notin> {a + 2, a + 3}"
    proof
      assume "j \<in> cover B"
      then show ?thesis using blk inblock by blast
    qed (use ak(2) in auto)
  qed
  have h1: "heads fl1 \<subseteq> cover fl1" "heads fl2 \<subseteq> cover fl2" using heads_cover [OF a1(1)] heads_cover [OF a1(2)] .
  have c1: "cover fl1 \<subseteq> {top..}" using asc_cover [OF a1(1)] .
  have low: "j \<notin> {a + 2, a + 3}" if "j \<in> {hdr + 1, hdr + 1 + 1} \<union> heads fl1" for j
  proof
    assume j: "j \<in> {a + 2, a + 3}"
    then have "j \<notin> heads fl1" using h1(1) ap(1) inblock by blast
    then show False using j that hl ak by auto
  qed
  have ch: "chain d' (hdr + 1) (fl1 @ (a, k - n) # fl2)"
  proof (rule chain_replace [OF D(6) a1(1)])
    show "hdr + 1 + 2 \<le> top" using hl by simp
    have c: "chain d (ptr (hdr + 1) fl1) ((a, k) # fl2)" using chain_split [OF D(6)] .
    have "ptr (hdr + 1) fl1 \<in> {hdr + 1, hdr + 1 + 1} \<union> heads fl1" "ptr (hdr + 1) fl1 + 1 \<in> {hdr + 1, hdr + 1 + 1} \<union> heads fl1"
      using ptr_in [OF a1(1), of "hdr + 1"] hl by simp_all
    then have "ptr (hdr + 1) fl1 \<notin> {a + 2, a + 3}" "ptr (hdr + 1) fl1 + 1 \<notin> {a + 2, a + 3}"
      using low by blast+
    then have "g2 d' (ptr (hdr + 1) fl1) = a" using c by (subst g2_cong [of d' _ d]) (simp_all add: n')
    moreover have "g2 d' (a + 2) = k - n" unfolding d'_def using al ak D(2) by (intro g2_p2) auto
    moreover have "g2 d' a = g2 d a" by (intro g2_cong n') auto
    then have "chain d' a fl2"
    proof (rule_tac chain_move [of d a])
      fix j assume "j \<in> heads fl2"
      then have "j \<in> cover fl2" using h1 by blast
      then have "j \<notin> {a + 2, a + 3}" using ap(2) inblock by blast
      then show "d' ! j = d ! j" by (rule n')
    qed (use c in auto)
    ultimately show "chain d' (ptr (hdr + 1) fl1) ((a, k - n) # fl2)" using c by simp
  next
    fix j assume "j \<in> {hdr + 1, hdr + 1 + 1} \<union> heads fl1"
    then have "j \<notin> {a + 2, a + 3}" using low by blast
    then show "d' ! j = d ! j" by (rule n')
  qed
  show "space u hdr lo d' (B @ [(a + k - n, n)]) (fl1 @ (a, k - n) # fl2)"
  proof (rule spaceI)
    have e: "{a..<a + k} = {a..<a + (k - n)} \<union> {a + k - n..<a + k - n + n}" using n by auto
    show "apart (B @ [(a + k - n, n)])" using D(10,11) e by (auto simp: apart_append)
    have "{a + k - n..<a + k - n + n} \<inter> {a..<a + (k - n)} = {}" using n by auto
    then show "cover (B @ [(a + k - n, n)]) \<inter> cover (fl1 @ (a, k - n) # fl2) = {}"
      using D(11) ap e by (simp add: Int_Un_distrib Int_Un_distrib2) blast
    have "asc (a + (k - n)) fl2" by (rule asc_mono [OF a1(2)]) simp
    then show "asc (g2 d' (hdr + 5)) (fl1 @ (a, k - n) # fl2)"
      unfolding top' top_def [symmetric] using a1 n by (simp add: asc_append)
    have s12: "spaced (fl1 @ [(a, k)])" "spaced ((a, k) # fl2)" using D(8) spaced_append by metis+
    have "spaced (fl1 @ [(a, k - n)])" using spaced_snoc [of top fl1 a k a "k - n"] s12(1) a1(1,3,4) by (simp add: asc_append)
    moreover have "spaced ((a, k - n) # fl2)" using s12(2) by (cases fl2) auto
    ultimately show "spaced (fl1 @ (a, k - n) # fl2)" using spaced_append by metis
    have "d' ! (hdr + 7) = d ! (hdr + 7)" using hl ak by (intro n') auto
    then show "total_size (B @ [(a + k - n, n)]) + total_size (fl1 @ (a, k - n) # fl2) + unat (d' ! (hdr + 7)) = u - g2 d' (hdr + 5)"
      using D(13) top' n by (simp add: top_def)
    show "cover (fl1 @ (a, k - n) # fl2) \<subseteq> {..<u}" using D(9) e by auto
    show "4 \<le> j \<and> g2 d' (hdr + 5) \<le> c \<and> c + j \<le> u" if "(c, j) \<in> set (B @ [(a + k - n, n)])" for c j
      using that D(12) ak n top' by (auto simp: top_def)
  qed (use D top' ch in \<open>simp_all add: top_def d'_def\<close>)
qed

lemma alloc_gap_law:
  assumes s: "space u hdr lo d B fl" and n: "4 \<le> n" "lo + n \<le> g2 d (hdr + 5)"
  defines "d' \<equiv> p2 d (hdr + 5) (g2 d (hdr + 5) - n)"
  shows "space u hdr lo d' (B @ [(g2 d (hdr + 5) - n, n)]) fl" "g2 d' (hdr + 5) = g2 d (hdr + 5) - n"
    "\<And>j. j \<in> kept_bytes hdr (g2 d (hdr + 5)) B \<Longrightarrow> d' ! j = d ! j"
proof -
  define top where "top = g2 d (hdr + 5)"
  note D = spaceD [OF s, folded top_def]
  have n2: "lo + n \<le> top" using n(2) by (simp add: top_def)
  have hl: "hdr + 8 \<le> top" using D(3,4) by simp
  have n': "d' ! j = d ! j" if "j \<notin> {hdr + 5, hdr + 6}" for j using that by (simp add: d'_def p2_def)
  show top': "g2 d' (hdr + 5) = g2 d (hdr + 5) - n" unfolding d'_def using hl D(1,2,5) g2_less [of d "hdr + 5"] by (intro g2_p2) auto
  have B: "cover B \<union> cover fl \<subseteq> {top..<u}" using space_cover [OF s] by (simp add: top_def)
  show "d' ! j = d ! j" if "j \<in> kept_bytes hdr (g2 d (hdr + 5)) B" for j
    using that B hl unfolding kept_bytes_def by (intro n') auto
  show "space u hdr lo d' (B @ [(g2 d (hdr + 5) - n, n)]) fl"
  proof (rule spaceI)
    show "apart (B @ [(g2 d (hdr + 5) - n, n)])" "cover (B @ [(g2 d (hdr + 5) - n, n)]) \<inter> cover fl = {}"
      using D(10,11) B n n2 by (auto simp: apart_append simp flip: top_def)
    show "chain d' (hdr + 1) fl"
    proof (rule chain_frame [OF D(6)])
      fix j assume "j \<in> heads fl"
      then have "top \<le> j" using heads_cover [OF D(7)] B by auto
      then show "d' ! j = d ! j" using hl by (intro n') auto
    qed (simp_all add: n')
    show "asc (g2 d' (hdr + 5)) fl" using D(7) top' by (auto intro: asc_mono simp: top_def)
    have "d' ! (hdr + 7) = d ! (hdr + 7)" by (intro n') auto
    then show "total_size (B @ [(g2 d (hdr + 5) - n, n)]) + total_size fl + unat (d' ! (hdr + 7)) = u - g2 d' (hdr + 5)"
      using D(13,5) top' n n2 by (simp add: top_def)
    show "4 \<le> j \<and> g2 d' (hdr + 5) \<le> c \<and> c + j \<le> u" if "(c, j) \<in> set (B @ [(g2 d (hdr + 5) - n, n)])" for c j
      using that D(5,12) n n2 top' by (auto simp: top_def) fastforce+
    show "lo \<le> g2 d' (hdr + 5)" "g2 d' (hdr + 5) \<le> u" using n2 D(5) top' by (auto simp: top_def)
  qed (use D in \<open>simp_all add: d'_def\<close>)
qed

end
