(* ===== verification/BtreeCells.thy ===== *)
theory BtreeCells
  imports BtreeSpace
begin

text \<open>
  Pages that hold cells: the invariant of a page, what defragmentPage, allocateSpace, insertCell,
  dropCell, zeroPage and sqlite3BtreeInitPage of btree.c do to it and to the cells.
\<close>

subsection \<open>Defragmentation\<close>

fun place :: "nat \<Rightarrow> block list \<Rightarrow> block list" where
  "place c [] = []"
| "place c ((a, n) # cs) = (c - n, n) # place (c - n) cs"

definition contents :: "u8 list \<Rightarrow> block list \<Rightarrow> u8 list list" where
  "contents d cs = map (\<lambda>(a, n). take n (drop a d)) cs"

lemma contents_simps [simp]: "contents d [] = []" "contents d ((a, n) # cs) = take n (drop a d) # contents d cs"
  "length (contents d cs) = length cs"
  by (simp_all add: contents_def)

lemma place_facts [simp]: "length (place c cs) = length cs" "total_size (place c cs) = total_size cs"
  by (induction c cs rule: place.induct) auto

lemma place_cover: "total_size cs \<le> c \<Longrightarrow> cover (place c cs) = {c - total_size cs..<c} \<and> apart (place c cs)"
proof (induction c cs rule: place.induct)
  case (2 c a n cs)
  then have "cover (place (c - n) cs) = {c - n - total_size cs..<c - n} \<and> apart (place (c - n) cs)" by simp
  moreover have "{c - n..<c - n + n} \<union> {c - n - total_size cs..<c - n} = {c - (n + total_size cs)..<c}" using 2(2) by auto
  ultimately show ?case using 2(2) by auto
qed simp

lemma place_sizes: "map snd (place c cs) = map snd cs"
  by (induction c cs rule: place.induct) auto

lemma defrag_loop_law:
  assumes "lo = cellOffset p + 2 * nCell p" "usableSize bt \<le> length temp" "usableSize bt < 65536"
  shows "\<forall>k < length cs. g2 d (cellOffset p + 2 * (i + k)) = fst (cs ! k) \<Longrightarrow> i + length cs = nCell p \<Longrightarrow> lo + total_size cs \<le> cbrk \<Longrightarrow>
    cbrk \<le> usableSize bt \<Longrightarrow> usableSize bt \<le> length d \<Longrightarrow>
    \<forall>(a, n) \<in> set cs. 0 < n \<and> a + n \<le> usableSize bt \<and> cellSizePtr bt p (drop a temp) = Some n \<Longrightarrow>
    \<exists>d'. defrag_loop bt p temp [i..<nCell p] d cbrk = Some (SQLITE_OK, d', cbrk - total_size cs) \<and> length d' = length d
      \<and> (\<forall>k < length cs. g2 d' (cellOffset p + 2 * (i + k)) = fst (place cbrk cs ! k)) \<and> contents d' (place cbrk cs) = contents temp cs
      \<and> (\<forall>j < length d. \<not> (cellOffset p + 2 * i \<le> j \<and> j < lo) \<longrightarrow> \<not> (cbrk - total_size cs \<le> j \<and> j < cbrk) \<longrightarrow> d' ! j = d ! j)"
proof (induction cs arbitrary: i d cbrk)
  case Nil
  then show ?case by simp
next
  case (Cons x cs)
  obtain a n where x: "x = (a, n)" by (cases x)
  have i: "i < nCell p" "[i..<nCell p] = i # [Suc i..<nCell p]" using Cons.prems(2) by (auto simp: upt_conv_Cons)
  let ?pa = "cellOffset p + i * 2"
  have pa: "?pa + 2 \<le> lo" using i(1) assms(1) by simp
  have n: "0 < n" "a + n \<le> usableSize bt" "cellSizePtr bt p (drop a temp) = Some n" "lo + n + total_size cs \<le> cbrk"
    using Cons.prems(3,6) x by auto
  have rd: "get2byte d ?pa = Some a" using Cons.prems(1,4,5) pa n x by (auto simp: buf_simps mult.commute)
  define c where "c = take n (drop a temp)"
  have lc: "length c = n" using n(2) assms(2) by (simp add: c_def)
  define d1 d2 where "d1 = pb d (cbrk - n) c" and "d2 = p2 d1 ?pa (cbrk - n)"
  have cb: "cbrk - n + n \<le> length d" using n(4) Cons.prems(4,5) by simp
  have len: "length d1 = length d" "length d2 = length d" using cb lc by (simp_all add: d2_def d1_def)
  have w: "get_bytes temp a n = Some c" "put_bytes d (cbrk - n) c = Some d1" "put2byte d1 ?pa (cbrk - n) = Some d2"
    using n assms(2) cb lc len pa Cons.prems(4,5) by (auto simp: buf_simps c_def d1_def d2_def)
  have n2: "d2 ! j = d ! j" if "j \<notin> {?pa, ?pa + 1}" "j \<notin> {cbrk - n..<cbrk}" "j < length d" for j
    using that cb lc n(4) by (auto simp: d2_def nth_p2 d1_def nth_pb)
  have step: "defrag_loop bt p temp [i..<nCell p] d cbrk = defrag_loop bt p temp [Suc i..<nCell p] d2 (cbrk - n)"
    using rd n w i(2) assms(1) by (simp add: Let_def)
  have ptrs: "\<forall>k < length cs. g2 d2 (cellOffset p + 2 * (Suc i + k)) = fst (cs ! k)"
  proof (intro allI impI)
    fix k assume k: "k < length cs"
    have "cellOffset p + 2 * (Suc i + k) + 2 \<le> lo" using k Cons.prems(2) assms(1) by simp
    then have "g2 d2 (cellOffset p + 2 * (Suc i + k)) = g2 d (cellOffset p + 2 * (i + Suc k))"
      using n(4) Cons.prems(4,5) by (intro trans [OF g2_cong [of d2 _ d]] n2) auto
    then show "g2 d2 (cellOffset p + 2 * (Suc i + k)) = fst (cs ! k)" using Cons.prems(1) k by (auto dest!: spec [of _ "Suc k"])
  qed
  have "\<exists>d'. defrag_loop bt p temp [Suc i..<nCell p] d2 (cbrk - n) = Some (SQLITE_OK, d', cbrk - n - total_size cs) \<and> length d' = length d2
      \<and> (\<forall>k < length cs. g2 d' (cellOffset p + 2 * (Suc i + k)) = fst (place (cbrk - n) cs ! k)) \<and> contents d' (place (cbrk - n) cs) = contents temp cs
      \<and> (\<forall>j < length d2. \<not> (cellOffset p + 2 * Suc i \<le> j \<and> j < lo) \<longrightarrow> \<not> (cbrk - n - total_size cs \<le> j \<and> j < cbrk - n) \<longrightarrow> d' ! j = d2 ! j)"
    by (rule Cons.IH [OF ptrs]) (use Cons.prems n len in auto)
  then obtain d' where d': "defrag_loop bt p temp [Suc i..<nCell p] d2 (cbrk - n) = Some (SQLITE_OK, d', cbrk - n - total_size cs)" "length d' = length d2"
    "\<forall>k < length cs. g2 d' (cellOffset p + 2 * (Suc i + k)) = fst (place (cbrk - n) cs ! k)" "contents d' (place (cbrk - n) cs) = contents temp cs"
    "\<And>j. j < length d2 \<Longrightarrow> \<not> (cellOffset p + 2 * Suc i \<le> j \<and> j < lo) \<Longrightarrow> \<not> (cbrk - n - total_size cs \<le> j \<and> j < cbrk - n) \<Longrightarrow> d' ! j = d2 ! j" by blast
  have "g2 d' ?pa = g2 d2 ?pa" using pa n(4) len Cons.prems(4,5) by (intro g2_cong d'(5)) auto
  also have "\<dots> = cbrk - n" unfolding d2_def using pa n(4) len Cons.prems(4,5) assms(3) by (intro g2_p2) auto
  finally have p0: "g2 d' ?pa = cbrk - n" .
  have "take n (drop (cbrk - n) d') = take n (drop (cbrk - n) d1)"
  proof (rule take_drop_cong)
    fix j assume j: "cbrk - n \<le> j" "j < cbrk - n + n"
    then have "d' ! j = d2 ! j" using n(4) cb len by (intro d'(5)) auto
    also have "\<dots> = d1 ! j" using j pa n(4) unfolding d2_def by (intro nth_p2) auto
    finally show "d' ! j = d1 ! j" .
  qed (use cb len d'(2) in auto)
  also have "\<dots> = c" using take_drop_pb [of "cbrk - n" c d] cb lc by (simp add: d1_def)
  finally have c0: "take n (drop (cbrk - n) d') = c" .
  have fr: "d' ! j = d ! j" if "j < length d" "\<not> (cellOffset p + 2 * i \<le> j \<and> j < lo)" "\<not> (cbrk - total_size (x # cs) \<le> j \<and> j < cbrk)" for j
  proof -
    have "d' ! j = d2 ! j" using that x len by (intro d'(5)) auto
    also have "\<dots> = d ! j" using that pa x by (intro n2) auto
    finally show ?thesis .
  qed
  show ?case using step d'(1-4) p0 c0 fr x len
    by (intro exI [of _ d']) (auto simp: less_Suc_eq_0_disj c_def mult.commute)
qed

subsection \<open>Pages with cells\<close>

text \<open>
  The page holds the cells \<open>cs\<close>, in the order of its pointers, and the blocks \<open>X\<close> that are
  allocated without a pointer.
\<close>

definition cells_at :: "BtShared \<Rightarrow> MemPage \<Rightarrow> block list \<Rightarrow> block list \<Rightarrow> block list \<Rightarrow> bool" where
  "cells_at bt p cs X fl \<longleftrightarrow> space (usableSize bt) (hdrOffset p) (cellOffset p + 2 * length cs) (aData p) (cs @ X) fl
     \<and> hdrOffset p + 8 \<le> cellOffset p \<and> nCell p = length cs \<and> g2 (aData p) (hdrOffset p + 3) = length cs
     \<and> (\<forall>i < length cs. g2 (aData p) (cellOffset p + 2 * i) = fst (cs ! i))
     \<and> (\<forall>c \<in> set (contents (aData p) cs). cell_ok bt p c)"

lemma cells_atD:
  assumes "cells_at bt p cs X fl"
  shows "space (usableSize bt) (hdrOffset p) (cellOffset p + 2 * length cs) (aData p) (cs @ X) fl"
    "hdrOffset p + 8 \<le> cellOffset p" "nCell p = length cs" "g2 (aData p) (hdrOffset p + 3) = length cs"
    "\<And>i. i < length cs \<Longrightarrow> g2 (aData p) (cellOffset p + 2 * i) = fst (cs ! i)"
    "\<And>c. c \<in> set (contents (aData p) cs) \<Longrightarrow> cell_ok bt p c"
  using assms by (auto simp: cells_at_def)

text \<open>What the size of a cell depends on.\<close>

lemma ParseCell_cong:
  assumes h: "childPtrSize p' = childPtrSize p" "intKey p' = intKey p" "hasData p' = hasData p" "maxLocal p' = maxLocal p" "minLocal p' = minLocal p"
  shows "sqlite3BtreeParseCellPtr bt p' c = sqlite3BtreeParseCellPtr bt p c"
proof -
  have "cell_header p' c = cell_header p c" unfolding cell_header_def h ..
  then show ?thesis unfolding sqlite3BtreeParseCellPtr_def h by (rule arg_cong)
qed

lemma cell_ok_cong:
  "childPtrSize p' = childPtrSize p \<Longrightarrow> intKey p' = intKey p \<Longrightarrow> hasData p' = hasData p \<Longrightarrow> maxLocal p' = maxLocal p \<Longrightarrow> minLocal p' = minLocal p
   \<Longrightarrow> cell_ok bt p' c = cell_ok bt p c"
  by (simp add: cell_ok_def cellSizePtr_def ParseCell_cong [of p' p])

lemma cell_ok_update [simp]:
  "cell_ok bt (p\<lparr>aData := d\<rparr>) c = cell_ok bt p c" "cell_ok bt (p\<lparr>nFree := f\<rparr>) c = cell_ok bt p c" "cell_ok bt (p\<lparr>nCell := k\<rparr>) c = cell_ok bt p c"
  by (rule cell_ok_cong; simp)+

lemma contents_keep:
  assumes "\<And>j. j \<in> cover cs \<Longrightarrow> d' ! j = d ! j" "length d' = length d" "cover cs \<subseteq> {..<length d}"
  shows "contents d' cs = contents d cs"
  unfolding contents_def
proof (rule map_cong [OF refl], clarify)
  fix a n assume m: "(a, n) \<in> set cs"
  then have "{a..<a + n} \<subseteq> cover cs" by (rule cover_elem)
  moreover from this have "a + n \<le> length d \<or> n = 0" using assms(3) interval_bound [of a n "length d"] by (cases n) auto
  ultimately show "take n (drop a d') = take n (drop a d)" using assms(1,2) by (cases "n = 0") (auto intro!: take_drop_cong)
qed

lemma defrag_law:
  assumes s: "cells_at bt p cs [] fl" and tmp: "usableSize bt \<le> length tmp"
  defines "tp \<equiv> usableSize bt - total_size cs"
  shows "\<exists>d'. defragmentPage bt tmp p = Some (if tp - (cellOffset p + 2 * length cs) \<noteq> unat (nFree p) then SQLITE_CORRUPT else SQLITE_OK, p\<lparr>aData := d'\<rparr>)
    \<and> cells_at bt (p\<lparr>aData := d'\<rparr>) (place (usableSize bt) cs) [] [] \<and> contents d' (place (usableSize bt) cs) = contents (aData p) cs
    \<and> g2 d' (hdrOffset p + 5) = tp \<and> length d' = length (aData p) \<and> d' ! hdrOffset p = aData p ! hdrOffset p"
proof -
  define d u hdr lo where "d = aData p" and "u = usableSize bt" and "hdr = hdrOffset p" and "lo = cellOffset p + 2 * length cs"
  define top0 where "top0 = g2 d (hdr + 5)"
  note C = cells_atD [OF s, folded d_def u_def hdr_def, folded lo_def]
  have C1: "space u hdr lo d cs fl" using C(1) by simp
  note D = spaceD [OF C1, folded top0_def]
  have B: "cover cs \<subseteq> {top0..<u}" using space_cover [OF C1] by (simp add: top0_def)
  have tot: "total_size cs \<le> u - top0" using D(13) by simp
  have lt: "lo \<le> tp" using tot D(4,5) by (simp add: tp_def u_def)
  define temp where "temp = pb tmp top0 (take (u - top0) (drop top0 d))"
  have l0: "length (take (u - top0) (drop top0 d)) = u - top0" using D(1,5) by simp
  have lt': "length temp = length tmp" using l0 tmp D(5) by (simp add: temp_def u_def)
  have tn: "temp ! j = d ! j" if "top0 \<le> j" "j < u" for j
    using that l0 tmp D(1,5) by (simp add: temp_def nth_pb u_def)
  have same: "contents temp cs = contents d cs"
    unfolding contents_def
  proof (rule map_cong [OF refl], clarify)
    fix a n assume m: "(a, n) \<in> set cs"
    then show "take n (drop a temp) = take n (drop a d)" using D(12) [OF m] D(1) lt' tmp tn by (intro take_drop_cong) (auto simp: u_def)
  qed
  have cells: "\<forall>(a, n) \<in> set cs. 0 < n \<and> a + n \<le> u \<and> cellSizePtr bt p (drop a temp) = Some n"
  proof (clarify)
    fix a n assume m: "(a, n) \<in> set cs"
    note b = D(12) [OF m]
    have "take n (drop a temp) \<in> set (contents temp cs)" unfolding contents_def using m by force
    then have "take n (drop a temp) \<in> set (contents d cs)" by (simp only: same)
    then have "cell_ok bt p (take n (drop a temp))" by (rule C(6))
    from cell_ok_size [OF this, of "drop n (drop a temp)"] have "cellSizePtr bt p (drop a temp) = Some (length (take n (drop a temp)))"
      by (simp only: append_take_drop_id)
    moreover have "length (take n (drop a temp)) = n" using b lt' tmp by (auto simp: u_def min_def)
    ultimately show "0 < n \<and> a + n \<le> u \<and> cellSizePtr bt p (drop a temp) = Some n" using b by simp
  qed
  have loop: "\<exists>d'. defrag_loop bt p temp [0..<nCell p] d u = Some (SQLITE_OK, d', u - total_size cs) \<and> length d' = length d
      \<and> (\<forall>k < length cs. g2 d' (cellOffset p + 2 * (0 + k)) = fst (place u cs ! k)) \<and> contents d' (place u cs) = contents temp cs
      \<and> (\<forall>j < length d. \<not> (cellOffset p + 2 * 0 \<le> j \<and> j < lo) \<longrightarrow> \<not> (u - total_size cs \<le> j \<and> j < u) \<longrightarrow> d' ! j = d ! j)"
    unfolding u_def
    by (rule defrag_loop_law) (use C(3,5) D(1,2,4,5) tot lt' tmp cells in \<open>auto simp: lo_def u_def\<close>)
  then obtain d1 where d1: "defrag_loop bt p temp [0..<nCell p] d u = Some (SQLITE_OK, d1, tp)" "length d1 = length d"
      "\<And>k. k < length cs \<Longrightarrow> g2 d1 (cellOffset p + 2 * k) = fst (place u cs ! k)" "contents d1 (place u cs) = contents d cs"
      "\<forall>j < length d. \<not> (cellOffset p \<le> j \<and> j < lo) \<longrightarrow> \<not> (tp \<le> j \<and> j < u) \<longrightarrow> d1 ! j = d ! j"
    unfolding tp_def u_def [symmetric] same by (simp only: mult_0_right add_0 add_0_right) blast
  have d1f: "d1 ! j = d ! j" if "j < length d" "j < cellOffset p \<or> lo \<le> j \<and> j < tp" for j
    using d1(5) [rule_format, of j] that C(2) lt by (auto simp: lo_def)
  define d5 where "d5 = (p2 d1 (hdr + 5) tp)[hdr + 1 := 0, hdr + 2 := 0, hdr + 7 := 0]"
  define d6 where "d6 = pb d5 lo (replicate (tp - lo) 0)"
  have hl: "hdr + 8 \<le> cellOffset p" "cellOffset p \<le> lo" using C(2) by (simp_all add: lo_def)
  have tu: "tp \<le> u" by (simp add: tp_def u_def)
  have l5: "length d5 = length d" "lo + length (replicate (tp - lo) (0 :: u8)) \<le> length d5" using d1(2) lt tu D(1) by (simp_all add: d5_def)
  have l6: "length d6 = length d" unfolding d6_def using l5 by simp
  have n5: "d5 ! j = d1 ! j" if "j \<notin> {hdr + 1, hdr + 2, hdr + 5, hdr + 6, hdr + 7}" for j using that by (auto simp: d5_def p2_def)
  have n6: "d6 ! j = d5 ! j" if "j < length d" "j < lo \<or> tp \<le> j" for j
    using that l5 lt by (auto simp: d6_def nth_pb)
  have run: "defragmentPage bt tmp p = Some (if tp - lo \<noteq> unat (nFree p) then SQLITE_CORRUPT else SQLITE_OK, p\<lparr>aData := d6\<rparr>)"
  proof -
    have r: "get2byte d (hdr + 5) = Some top0" "get_bytes d top0 (u - top0) = Some (take (u - top0) (drop top0 d))"
      "put_bytes tmp top0 (take (u - top0) (drop top0 d)) = Some temp"
      using D(1,4,5) hl l0 tmp by (auto simp: buf_simps top0_def temp_def u_def)
    have w: "put2byte d1 (hdr + 5) tp = Some (p2 d1 (hdr + 5) tp)"
      "poke (p2 d1 (hdr + 5) tp) (hdr + 1) 0 = Some ((p2 d1 (hdr + 5) tp)[hdr + 1 := 0])"
      "poke ((p2 d1 (hdr + 5) tp)[hdr + 1 := 0]) (hdr + 2) 0 = Some ((p2 d1 (hdr + 5) tp)[hdr + 1 := 0, hdr + 2 := 0])"
      "poke ((p2 d1 (hdr + 5) tp)[hdr + 1 := 0, hdr + 2 := 0]) (hdr + 7) 0 = Some d5"
      "put_bytes d5 lo (replicate (tp - lo) 0) = Some d6"
      using hl lt tu D(1) d1(2) l5(2) by (simp_all add: buf_simps d5_def d6_def)
    have nl: "\<not> top0 > u" "\<not> tp < lo" "nCell p = length cs" using D(5) lt C(3) by simp_all
    show ?thesis
      unfolding defragmentPage_def d_def [symmetric] hdr_def [symmetric] u_def [symmetric] Let_def
      using r w nl d1(1) by (simp add: lo_def [symmetric] del: One_nat_def add_2_eq_Suc')
  qed
  have pl: "cover (place u cs) = {tp..<u}" "apart (place u cs)" using place_cover [of cs u] tot by (simp_all add: tp_def u_def)
  have low: "d6 ! j = d5 ! j" if "j < lo" for j using that D(1,4,5) by (intro n6) auto
  have g5: "g2 d6 (hdr + 5) = tp"
  proof -
    have "g2 d6 (hdr + 5) = g2 d5 (hdr + 5)" using hl by (intro g2_cong low) auto
    also have "\<dots> = g2 (p2 d1 (hdr + 5) tp) (hdr + 5)" by (intro g2_cong) (simp_all add: d5_def)
    also have "\<dots> = tp" using hl D(1,2,4,5) d1(2) tu by (intro g2_p2) auto
    finally show ?thesis .
  qed
  have z: "g2 d6 (hdr + 1) = 0" "d6 ! (hdr + 7) = 0"
    using low [of "hdr + 1"] low [of "hdr + 2"] low [of "hdr + 7"] hl D(1,4,5) d1(2) by (simp_all add: g2_def d5_def)
  have hd: "d6 ! j = d ! j" if "j \<in> {hdr, hdr + 3, hdr + 4}" for j
  proof -
    have "d6 ! j = d5 ! j" using that hl by (intro low) auto
    also have "\<dots> = d1 ! j" using that by (intro n5) auto
    also have "\<dots> = d ! j" using that hl D(1,4,5) by (intro d1f) auto
    finally show ?thesis .
  qed
  have g3: "g2 d6 (hdr + 3) = length cs" using C(4) hd by (simp add: g2_def add.commute)
  have ptrs: "g2 d6 (cellOffset p + 2 * k) = fst (place u cs ! k)" if "k < length cs" for k
  proof -
    have "g2 d6 (cellOffset p + 2 * k) = g2 d1 (cellOffset p + 2 * k)"
      using that hl by (intro g2_cong trans [OF low n5]) (auto simp: lo_def)
    then show ?thesis using d1(3) [OF that] by simp
  qed
  have cont: "contents d6 (place u cs) = contents d cs"
  proof -
    have "contents d6 (place u cs) = contents d1 (place u cs)"
    proof (rule contents_keep)
      fix j assume "j \<in> cover (place u cs)"
      then have "tp \<le> j" "j < u" using pl by auto
      then show "d6 ! j = d1 ! j" using lt hl D(1) by (intro trans [OF n6 n5]) auto
    qed (use l6 d1(2) pl D(1) in auto)
    then show ?thesis using d1(4) by simp
  qed
  have szs: "4 \<le> n \<and> tp \<le> a \<and> a + n \<le> u" if m: "(a, n) \<in> set (place u cs)" for a n
  proof -
    have "n \<in> set (map snd (place u cs))" using m by force
    then have n: "4 \<le> n" using D(12) unfolding place_sizes by force
    have "{a..<a + n} \<subseteq> {tp..<u}" using cover_elem [OF m] pl by simp
    moreover have "a \<in> {a..<a + n}" using n by simp
    ultimately show ?thesis using n interval_bound [of a n u] by auto
  qed
  have sp: "space u hdr lo d6 (place u cs @ []) []"
    by (rule spaceI) (use D(1-3) l6 lt tu g5 z pl szs tot hl in \<open>auto simp: tp_def u_def\<close>)
  have "cells_at bt (p\<lparr>aData := d6\<rparr>) (place u cs) [] []"
    using sp C(2,3,6) g3 ptrs cont unfolding cells_at_def by (simp add: u_def hdr_def lo_def)
  then show ?thesis using run cont g5 l6 hd
    by (intro exI [of _ d6]) (simp flip: d_def u_def hdr_def lo_def)
qed


subsection \<open>Allocation on a page with cells\<close>

lemma cells_at_nFree [simp]: "cells_at bt (p\<lparr>nFree := f\<rparr>) cs X fl = cells_at bt p cs X fl"
  by (simp add: cells_at_def)

lemma cells_at_nFree_aData: "cells_at bt (p\<lparr>nFree := f, aData := d\<rparr>) cs X fl = cells_at bt (p\<lparr>aData := d\<rparr>) cs X fl"
  by (simp add: cells_at_def)

lemma cells_at_step:
  assumes C: "cells_at bt p cs X fl" and S: "space (usableSize bt) (hdrOffset p) (cellOffset p + 2 * length cs) d' (cs @ X') fl'"
    and l: "length d' = length (aData p)"
    and k: "\<And>j. j \<in> kept_bytes (hdrOffset p) (g2 (aData p) (hdrOffset p + 5)) cs \<Longrightarrow> d' ! j = aData p ! j"
  shows "cells_at bt (p\<lparr>aData := d'\<rparr>) cs X' fl'" "contents d' cs = contents (aData p) cs"
proof -
  note D = cells_atD [OF C]
  note Sp = spaceD [OF D(1)]
  have cov: "cover cs \<subseteq> {..<length (aData p)}" using space_cover [OF D(1)] Sp(1) by auto
  show c: "contents d' cs = contents (aData p) cs"
    by (rule contents_keep [OF k l cov]) (simp add: kept_bytes_def)
  have "g2 d' (cellOffset p + 2 * i) = g2 (aData p) (cellOffset p + 2 * i)" if "i < length cs" for i
    using that D(2) Sp(4) by (intro g2_cong k) (auto simp: kept_bytes_def)
  moreover have "g2 d' (hdrOffset p + 3) = g2 (aData p) (hdrOffset p + 3)"
    by (intro g2_cong k) (auto simp: kept_bytes_def)
  ultimately show "cells_at bt (p\<lparr>aData := d'\<rparr>) cs X' fl'" using S D(2-6) c by (simp add: cells_at_def)
qed

lemma allocateSpace_law:
  assumes C: "cells_at bt p cs [] fl" and tmp: "usableSize bt \<le> length tmp"
    and fr: "unat (nFree p) + cellOffset p + 2 * length cs + total_size cs = usableSize bt" and n: "4 \<le> n" "n \<le> unat (nFree p)"
  shows "\<exists>idx d' cs' fl'. allocateSpace bt tmp p n = Some (idx, p\<lparr>nFree := nFree p - word_of_nat n, aData := d'\<rparr>)
    \<and> cells_at bt (p\<lparr>aData := d'\<rparr>) cs' [(idx, n)] fl' \<and> contents d' cs' = contents (aData p) cs \<and> total_size cs' = total_size cs
    \<and> length d' = length (aData p) \<and> d' ! hdrOffset p = aData p ! hdrOffset p
    \<and> (\<forall>e. e + n \<le> g2 (aData p) (hdrOffset p + 5) \<and> e + n \<le> cellOffset p + 2 * length cs + unat (nFree p) \<longrightarrow> e \<le> g2 d' (hdrOffset p + 5))"
proof -
  define d u hdr lo q where "d = aData p" and "u = usableSize bt" and "hdr = hdrOffset p" and "lo = cellOffset p + 2 * length cs"
    and "q = p\<lparr>nFree := nFree p - word_of_nat n\<rparr>"
  define tp where "tp = g2 d (hdr + 5)"
  note D = cells_atD [OF C, folded d_def u_def hdr_def, folded lo_def]
  have S: "space u hdr lo d cs fl" using D(1) by simp
  note Sp = spaceD [OF S, folded tp_def]
  have hk: "hdr \<in> kept_bytes hdr tp cs" by (simp add: kept_bytes_def)
  have pk: "peek d (hdr + 7) = Some (d ! (hdr + 7))" using Sp(1,3,4,5) by simp
  define goal where "goal idx d' cs' fl' \<longleftrightarrow> cells_at bt (p\<lparr>aData := d'\<rparr>) cs' [(idx, n)] fl' \<and> contents d' cs' = contents d cs \<and> total_size cs' = total_size cs
    \<and> length d' = length d \<and> d' ! hdr = d ! hdr \<and> (\<forall>e. e + n \<le> tp \<and> e + n \<le> lo + unat (nFree p) \<longrightarrow> e \<le> g2 d' (hdr + 5))" for idx d' cs' fl'
  have step: "goal idx d' cs fl'" if "space u hdr lo d' (cs @ [(idx, n)]) fl'" "length d' = length d" "tp - n \<le> g2 d' (hdr + 5)"
    "\<And>j. j \<in> kept_bytes hdr tp cs \<Longrightarrow> d' ! j = d ! j" for idx d' fl'
    using cells_at_step [OF C, of d' "[(idx, n)]" fl'] that hk unfolding goal_def by (auto simp: d_def u_def hdr_def lo_def tp_def)
  have q: "aData q = d" "hdrOffset q = hdr" "cellOffset q = cellOffset p" by (simp_all add: q_def d_def hdr_def)
  let ?f = "d ! (hdr + 7)"
  have run: "allocateSpace bt tmp p n = Option.bind (if ?f < 60 then alloc_search d (hdr + 1) n else Some None) (\<lambda>found. case found of
        Some (addr, pc, sz) \<Rightarrow>
          if sz < n + 4 then do {
            c \<leftarrow> get_bytes d pc 2; d' \<leftarrow> put_bytes d addr c; d' \<leftarrow> poke d' (hdr + 7) (?f + word_of_nat (sz - n)); Some (pc, q\<lparr>aData := d'\<rparr>) }
          else do { d' \<leftarrow> put2byte d (pc + 2) (sz - n); Some (pc + sz - n, q\<lparr>aData := d'\<rparr>) }
      | None \<Rightarrow> do {
          (tp', q') \<leftarrow> (if ?f \<ge> 60 \<or> int lo > int tp - int n then do {
               (_, q') \<leftarrow> defragmentPage bt tmp q; tp' \<leftarrow> get2byte (aData q') (hdr + 5); Some (tp', q') }
             else Some (tp, q));
          if tp' < n then None
          else do { d' \<leftarrow> put2byte (aData q') (hdr + 5) (tp' - n); Some (tp' - n, q'\<lparr>aData := d'\<rparr>) } })"
  proof -
    have "get2byte d (hdr + 5) = Some tp" "get2byte d (hdr + 3) = Some (length cs)"
      using Sp(1,3,4,5) D(4) by (simp_all add: buf_simps tp_def)
    then show ?thesis unfolding allocateSpace_def Let_def q_def [symmetric] q using pk
      by (simp add: lo_def del: One_nat_def cong: option.case_cong)
  qed
  have gap: "\<exists>d2. put2byte d1 (hdr + 5) (g2 d1 (hdr + 5) - n) = Some d2 \<and> space u hdr lo d2 (cs1 @ [(g2 d1 (hdr + 5) - n, n)]) fl1
      \<and> g2 d2 (hdr + 5) = g2 d1 (hdr + 5) - n \<and> length d2 = length d1 \<and> (\<forall>j \<in> kept_bytes hdr (g2 d1 (hdr + 5)) cs1. d2 ! j = d1 ! j)"
    if "space u hdr lo d1 cs1 fl1" "lo + n \<le> g2 d1 (hdr + 5)" for d1 cs1 fl1
    using alloc_gap_law [OF that(1) n(1) that(2)] spaceD(1,3-5) [OF that(1)] by (intro exI [of _ "p2 d1 (hdr + 5) (g2 d1 (hdr + 5) - n)"]) (auto simp: buf_simps)
  have nogap: "\<exists>idx d' cs' fl'. allocateSpace bt tmp p n = Some (idx, q\<lparr>aData := d'\<rparr>) \<and> goal idx d' cs' fl'"
    if no: "(if ?f < 60 then alloc_search d (hdr + 1) n else Some None) = Some None"
  proof (cases "?f \<ge> 60 \<or> int lo > int tp - int n")
    case False
    then have "lo + n \<le> g2 d (hdr + 5)" by (simp add: tp_def)
    from gap [OF S this] obtain d2 where d2: "put2byte d (hdr + 5) (tp - n) = Some d2" "space u hdr lo d2 (cs @ [(tp - n, n)]) fl"
      "g2 d2 (hdr + 5) = tp - n" "length d2 = length d" "\<And>j. j \<in> kept_bytes hdr tp cs \<Longrightarrow> d2 ! j = d ! j" unfolding tp_def by blast
    have "\<not> tp < n" using False by auto
    then have "allocateSpace bt tmp p n = Some (tp - n, q\<lparr>aData := d2\<rparr>)" unfolding run no using False d2(1) q by simp
    moreover have "goal (tp - n) d2 cs fl" using d2 by (intro step) auto
    ultimately show ?thesis by blast
  next
    case True
    have Cq: "cells_at bt q cs [] fl" using C by (simp add: q_def)
    define tq where "tq = u - total_size cs"
    define cs1 where "cs1 = place u cs"
    obtain rc d1 where df: "defragmentPage bt tmp q = Some (rc, q\<lparr>aData := d1\<rparr>)" "cells_at bt (p\<lparr>aData := d1\<rparr>) cs1 [] []"
      "contents d1 cs1 = contents d cs" "g2 d1 (hdr + 5) = tq" "length d1 = length d" "d1 ! hdr = d ! hdr"
      using defrag_law [OF Cq tmp] unfolding q u_def [symmetric] tq_def [symmetric] cs1_def [symmetric]
      by (auto simp: q_def cells_at_nFree_aData)
    have l1: "length cs1 = length cs" "total_size cs1 = total_size cs" by (simp_all add: cs1_def)
    have S1: "space u hdr lo d1 cs1 []" using cells_atD(1) [OF df(2)] by (simp add: u_def hdr_def lo_def l1)
    have tq: "lo + unat (nFree p) = tq" using fr by (simp add: lo_def tq_def u_def)
    then have "lo + n \<le> g2 d1 (hdr + 5)" using n(2) df(4) by simp
    from gap [OF S1 this] obtain d2 where d2: "put2byte d1 (hdr + 5) (tq - n) = Some d2" "space u hdr lo d2 (cs1 @ [(tq - n, n)]) []"
      "g2 d2 (hdr + 5) = tq - n" "length d2 = length d1" "\<And>j. j \<in> kept_bytes hdr tq cs1 \<Longrightarrow> d2 ! j = d1 ! j" unfolding df(4) by blast
    have "get2byte d1 (hdr + 5) = Some tq" using df(4,5) Sp(1,3-5) by (simp add: buf_simps)
    moreover have "\<not> tq < n" using tq n(2) by linarith
    ultimately have "allocateSpace bt tmp p n = Some (tq - n, q\<lparr>aData := d2\<rparr>)" unfolding run no using True df(1) d2(1) q by simp
    moreover have "goal (tq - n) d2 cs1 []"
    proof -
      have "hdr \<in> kept_bytes hdr tq cs1" by (simp add: kept_bytes_def)
      then show ?thesis using cells_at_step [OF df(2), of d2 "[(tq - n, n)]" "[]"] d2 df l1 tq unfolding goal_def
        by (auto simp: u_def hdr_def lo_def)
    qed
    ultimately show ?thesis by blast
  qed
  have "\<exists>idx d' cs' fl'. allocateSpace bt tmp p n = Some (idx, q\<lparr>aData := d'\<rparr>) \<and> goal idx d' cs' fl'"
  proof -
    have al: "alloc_search d (hdr + 1) n = Some None \<or>
      (\<exists>fl1 a k fl2. fl = fl1 @ (a, k) # fl2 \<and> n \<le> k \<and> alloc_search d (hdr + 1) n = Some (Some (ptr (hdr + 1) fl1, a, k)))"
      by (rule alloc_search_law [OF Sp(6,7)]) (use Sp in auto)
    consider "(if ?f < 60 then alloc_search d (hdr + 1) n else Some None) = Some None"
      | fl1 a k fl2 where "fl = fl1 @ (a, k) # fl2" "n \<le> k" "alloc_search d (hdr + 1) n = Some (Some (ptr (hdr + 1) fl1, a, k))" "?f < 60"
      using al by (cases "?f < 60") auto
    then show ?thesis
    proof cases
      case 1
      then show ?thesis by (rule nogap)
    next
      case 2
      have S': "space u hdr lo d cs (fl1 @ (a, k) # fl2)" using S 2(1) by simp
      have f60: "unat ?f < 60" using 2(4) by (simp add: word_less_nat_alt)
      show ?thesis
      proof (cases "k < n + 4")
        case True
        note U = alloc_unlink_law [OF S' n(1) 2(2) True f60]
        let ?d1 = "pb d (ptr (hdr + 1) fl1) (take 2 (drop a d))"
        let ?d' = "?d1[hdr + 7 := ?f + word_of_nat (k - n)]"
        have "get_bytes d a 2 = Some (take 2 (drop a d))" using U(2) by (simp add: buf_simps)
        moreover have "put_bytes d (ptr (hdr + 1) fl1) (take 2 (drop a d)) = Some ?d1" using U(1,2) by (simp add: buf_simps)
        moreover have "poke ?d1 (hdr + 7) (?f + word_of_nat (k - n)) = Some ?d'" using U(1,2) Sp(1,3-5) by simp
        ultimately have "allocateSpace bt tmp p n = Some (a, q\<lparr>aData := ?d'\<rparr>)" unfolding run using 2(3,4) True by (simp del: of_nat_diff)
        moreover have "goal a ?d' cs (fl1 @ fl2)" using U by (intro step) (auto simp: tp_def)
        ultimately show ?thesis by blast
      next
        case False
        then have k: "n + 4 \<le> k" by simp
        note U = alloc_shrink_law [OF S' n(1) k]
        have "put2byte d (a + 2) (k - n) = Some (p2 d (a + 2) (k - n))" using U(1) by (simp add: buf_simps)
        then have "allocateSpace bt tmp p n = Some (a + k - n, q\<lparr>aData := p2 d (a + 2) (k - n)\<rparr>)" unfolding run using 2(3,4) False by simp
        moreover have "goal (a + k - n) (p2 d (a + 2) (k - n)) cs (fl1 @ (a, k - n) # fl2)" using U by (intro step) (auto simp: tp_def)
        ultimately show ?thesis by blast
      qed
    qed
  qed
  then show ?thesis unfolding goal_def q_def by (simp add: d_def u_def hdr_def lo_def tp_def)
qed


subsection \<open>Writing a cell\<close>

lemma apart_swap: "apart (B1 @ B2 @ [x]) \<longleftrightarrow> apart (B1 @ x # B2)"
proof -
  have "apart (B2 @ [x]) \<longleftrightarrow> apart (x # B2)" by (cases x) (auto simp: apart_append)
  moreover have "cover (B2 @ [x]) = cover (x # B2)" by (cases x) auto
  ultimately show ?thesis by (simp only: apart_append)
qed

lemma cover_insert: "cover (take i cs @ (a, n) # drop i cs) = cover cs \<union> {a..<a + n}"
proof -
  have "cover (take i cs @ drop i cs) = cover cs" by simp
  then show ?thesis by (simp only: cover_simps) blast
qed

lemma space_insert:
  assumes "space u hdr lo d (cs @ [x]) fl" shows "space u hdr lo d (take i cs @ x # drop i cs) fl"
proof -
  obtain a n where x: "x = (a, n)" by (cases x)
  have "total_size (take i cs @ drop i cs) = total_size cs" by simp
  then have "total_size (take i cs @ x # drop i cs) = total_size (cs @ [x])" by (simp only: map_append sum_list_append list.map sum_list.Cons sum_list.Nil)
  moreover have "apart (take i cs @ x # drop i cs) = apart (cs @ [x])" by (metis append_assoc append_take_drop_id apart_swap)
  moreover have "cover (take i cs @ x # drop i cs) = cover (cs @ [x])" unfolding x cover_insert by simp
  moreover have "set (take i cs @ x # drop i cs) = set (cs @ [x])" using set_append [of "take i cs" "drop i cs"] by auto
  ultimately show ?thesis using assms unfolding space_def by presburger
qed

text \<open>What the space of a page depends on.\<close>

lemma space_frame:
  assumes S: "space u hdr lo d B fl" and l: "length d' = length d"
    and k: "\<And>j. j \<in> {hdr + 1, hdr + 2, hdr + 5, hdr + 6, hdr + 7} \<union> heads fl \<Longrightarrow> d' ! j = d ! j"
  shows "space u hdr lo d' B fl"
proof -
  note D = spaceD [OF S]
  have g: "g2 d' (hdr + 5) = g2 d (hdr + 5)" by (intro g2_cong k) auto
  have g': "d' ! (hdr + 7) = d ! (hdr + 7)" by (intro k) simp
  have "chain d' (hdr + 1) fl" by (rule chain_frame [OF D(6)]) (use k in auto)
  then show ?thesis using S l g g' unfolding space_def by simp
qed

text \<open>The pointer array after an insertion.\<close>

lemma ptr_insert:
  assumes l: "co + 2 * n + 2 \<le> length d" and i: "i \<le> n" and v: "v < 65536"
  defines "d' \<equiv> p2 (pb d (co + 2 * i + 2) (take (2 * (n - i)) (drop (co + 2 * i) d))) (co + 2 * i) v"
  shows "k < i \<Longrightarrow> g2 d' (co + 2 * k) = g2 d (co + 2 * k)" "g2 d' (co + 2 * i) = v"
    "i < k \<Longrightarrow> k \<le> n \<Longrightarrow> g2 d' (co + 2 * k) = g2 d (co + 2 * (k - 1))" "length d' = length d"
    "\<not> (co + 2 * i \<le> j \<and> j < co + 2 * n + 2) \<Longrightarrow> j < length d \<Longrightarrow> d' ! j = d ! j"
proof -
  define c where "c = take (2 * (n - i)) (drop (co + 2 * i) d)"
  have lc: "length c = 2 * (n - i)" using l i by (simp add: c_def)
  have b: "co + 2 * i + 2 + length c \<le> length d" using lc l i by simp
  show l': "length d' = length d" using b by (simp add: d'_def c_def)
  have d': "d' = p2 (pb d (co + 2 * i + 2) c) (co + 2 * i) v" by (simp add: d'_def c_def)
  have nn: "d' ! j = (if co + 2 * i + 2 \<le> j \<and> j < co + 2 * n + 2 then d ! (j - 2) else d ! j)"
    if "j < length d" "\<not> (co + 2 * i \<le> j \<and> j < co + 2 * i + 2)" for j
  proof -
    have "j \<noteq> co + 2 * i" "j \<noteq> co + 2 * i + 1" using that(2) by auto
    then have "d' ! j = pb d (co + 2 * i + 2) c ! j" unfolding d' by (rule nth_p2)
    also have "\<dots> = (if co + 2 * i + 2 \<le> j \<and> j < co + 2 * i + 2 + length c then c ! (j - (co + 2 * i + 2)) else d ! j)"
      by (rule nth_pb [OF b that(1)])
    also have "\<dots> = (if co + 2 * i + 2 \<le> j \<and> j < co + 2 * n + 2 then d ! (j - 2) else d ! j)"
      using lc i l by (auto simp: c_def)
    finally show ?thesis .
  qed
  show "k < i \<Longrightarrow> g2 d' (co + 2 * k) = g2 d (co + 2 * k)" using l i by (simp add: g2_def nn)
  show "g2 d' (co + 2 * i) = v" unfolding d' using b v by (intro g2_p2) auto
  show "g2 d' (co + 2 * k) = g2 d (co + 2 * (k - 1))" if "i < k" "k \<le> n"
  proof -
    have "co + 2 * (k - 1) = co + 2 * k - 2" "co + 2 * (k - 1) + 1 = co + 2 * k + 1 - 2" using that by auto
    then show ?thesis using that l i unfolding g2_def by (simp add: nn)
  qed
  show "\<not> (co + 2 * i \<le> j \<and> j < co + 2 * n + 2) \<Longrightarrow> j < length d \<Longrightarrow> d' ! j = d ! j" using nn [of j] i by auto
qed

lemma contents_append [simp]: "contents d (B @ C) = contents d B @ contents d C"
  by (simp add: contents_def)

lemma contents_take: "contents d (take i cs) = take i (contents d cs)" "contents d (drop i cs) = drop i (contents d cs)"
  by (simp_all add: contents_def take_map drop_map)


lemma insert_write_law:
  assumes C: "cells_at bt p cs [(idx, n)] fl" and c: "length c = n" "cell_ok bt p c" and i: "i \<le> length cs"
    and e: "cellOffset p + 2 * (length cs + 1) \<le> g2 (aData p) (hdrOffset p + 5)"
  defines "d1 \<equiv> pb (aData p) idx c"
  defines "d2 \<equiv> pb d1 (cellOffset p + 2 * i + 2) (take (2 * (length cs - i)) (drop (cellOffset p + 2 * i) d1))"
  defines "d3 \<equiv> p2 d2 (cellOffset p + 2 * i) idx"
  defines "d4 \<equiv> p2 d3 (hdrOffset p + 3) (length cs + 1)"
  shows "idx + n \<le> usableSize bt" "length d4 = length (aData p)" "length d1 = length (aData p)" "length d2 = length (aData p)"
    "cells_at bt (p\<lparr>nCell := length cs + 1, aData := d4\<rparr>) (take i cs @ (idx, n) # drop i cs) [] fl"
    "contents d4 (take i cs @ (idx, n) # drop i cs) = take i (contents (aData p) cs) @ c # drop i (contents (aData p) cs)"
    "d4 ! hdrOffset p = aData p ! hdrOffset p"
proof -
  define d u hdr co lo where "d = aData p" and "u = usableSize bt" and "hdr = hdrOffset p" and "co = cellOffset p" and "lo = co + 2 * length cs"
  define tp where "tp = g2 d (hdr + 5)"
  note D = cells_atD [OF C, folded d_def u_def hdr_def co_def, folded lo_def]
  note S = D(1)
  note Sp = spaceD [OF S, folded tp_def]
  have x: "4 \<le> n" "tp \<le> idx" "idx + n \<le> u" using Sp(12) [of idx n] by auto
  then show "idx + n \<le> usableSize bt" by (simp add: u_def)
  have lo2: "lo + 2 \<le> tp" using e by (simp add: lo_def co_def tp_def d_def hdr_def)
  have hl: "hdr + 8 \<le> co" "co \<le> lo" "lo + 2 < length d" using D(2) lo2 Sp(1,5) x by (simp_all add: lo_def)
  have b1: "idx + length c \<le> length d" using x c Sp(1) by simp
  have n1: "d1 ! j = d ! j" if "j \<notin> {idx..<idx + n}" "j < length d" for j
    using that b1 c(1) by (auto simp: d1_def nth_pb d_def)
  show l1: "length d1 = length (aData p)" using b1 by (simp add: d1_def d_def)
  have d3: "d3 = p2 (pb d1 (co + 2 * i + 2) (take (2 * (length cs - i)) (drop (co + 2 * i) d1))) (co + 2 * i) idx"
    by (simp add: d3_def d2_def co_def)
  have v: "idx < 65536" using x Sp(2) by simp
  have pi: "co + 2 * length cs + 2 \<le> length d1" using hl l1 by (simp add: d_def lo_def)
  note P = ptr_insert [OF pi i v, folded d3]
  have l3: "length d3 = length d" using P(4) l1 by (simp add: d_def)
  show "length d2 = length (aData p)" using l3 by (simp add: d3_def d_def)
  show l4: "length d4 = length (aData p)" using l3 by (simp add: d4_def d_def)
  have n4: "d4 ! j = d ! j" if "j < length d" "j \<notin> {idx..<idx + n}" "\<not> (co \<le> j \<and> j < lo + 2)" "j \<notin> {hdr + 3, hdr + 4}" for j
  proof -
    have "j \<noteq> hdr + 3" "j \<noteq> hdr + 3 + 1" using that(4) by auto
    then have "d4 ! j = d3 ! j" unfolding d4_def by (intro nth_p2) (simp_all add: hdr_def)
    also have "\<dots> = d1 ! j" using that l1 i by (intro P(5)) (auto simp: d_def lo_def)
    also have "\<dots> = d ! j" using that by (intro n1) auto
    finally show ?thesis .
  qed
  have n43: "g2 d4 a = g2 d3 a" if "hdr + 5 \<le> a" for a
    using that unfolding d4_def by (intro g2_cong nth_p2) (auto simp: hdr_def)
  have above: "tp \<le> j \<Longrightarrow> j < length d \<Longrightarrow> j \<notin> {idx..<idx + n} \<Longrightarrow> d4 ! j = d ! j" for j
    using lo2 hl by (intro n4) auto
  have disj: "{idx..<idx + n} \<inter> (cover cs \<union> cover fl) = {}" using Sp(10,11) by (auto simp: apart_append)
  have cvs: "cover cs \<union> cover fl \<subseteq> {tp..<u}" using space_cover [OF S] by (auto simp: tp_def)
  have keep: "d4 ! j = d ! j" if "j \<in> cover cs \<union> cover fl" for j
    using that cvs disj Sp(1) by (intro above) auto
  have hf: "heads fl \<subseteq> cover fl" using heads_cover [OF Sp(7)] .
  have S0: "space u hdr lo d4 (cs @ [(idx, n)]) fl"
  proof (rule space_frame [OF S])
    fix j assume j: "j \<in> {hdr + 1, hdr + 2, hdr + 5, hdr + 6, hdr + 7} \<union> heads fl"
    show "d4 ! j = d ! j"
    proof (cases "j \<in> heads fl")
      case True
      then show ?thesis using hf by (intro keep) auto
    next
      case False
      then show ?thesis using j hl lo2 x by (intro n4) auto
    qed
  qed (use l4 in \<open>simp add: d_def\<close>)
  have tp4: "g2 d4 (hdr + 5) = tp" unfolding tp_def using hl lo2 x by (intro g2_cong n4) auto
  have "space u hdr (lo + 2) d4 (cs @ [(idx, n)]) fl"
    by (rule space_lo [OF S0]) (use tp4 lo2 Sp(3) in simp_all)
  then have S4: "space u hdr (lo + 2) d4 (take i cs @ (idx, n) # drop i cs) fl" by (rule space_insert)
  have c4: "contents d4 cs = contents d cs"
    by (rule contents_keep) (use keep l4 cvs Sp(1) in \<open>auto simp: d_def\<close>)
  have ci: "take n (drop idx d4) = c"
  proof -
    have "take n (drop idx d4) = take n (drop idx d1)"
    proof (rule take_drop_cong)
      fix j assume j: "idx \<le> j" "j < idx + n"
      have "d4 ! j = d3 ! j" using j x lo2 hl unfolding d4_def by (intro nth_p2) (auto simp: hdr_def)
      also have "\<dots> = d1 ! j" using j x lo2 l1 Sp(1) by (intro P(5)) (auto simp: d_def lo_def)
      finally show "d4 ! j = d1 ! j" .
    qed (use x l1 l4 Sp(1) in \<open>auto simp: d_def\<close>)
    also have "\<dots> = c" using take_drop_pb [of idx c d] b1 c(1) by (simp add: d1_def d_def)
    finally show ?thesis .
  qed
  show con: "contents d4 (take i cs @ (idx, n) # drop i cs) = take i (contents (aData p) cs) @ c # drop i (contents (aData p) cs)"
    using c4 ci by (simp add: contents_take d_def)
  show "d4 ! hdrOffset p = aData p ! hdrOffset p" using n4 [of hdr] hl x lo2 by (auto simp: hdr_def d_def)
  have g1: "g2 d1 (co + 2 * k) = g2 d (co + 2 * k)" if "k < length cs" for k
    using that x lo2 hl by (intro g2_cong n1) (auto simp: lo_def)
  have ptrs: "g2 d4 (co + 2 * k) = fst ((take i cs @ (idx, n) # drop i cs) ! k)" if k: "k < length cs + 1" for k
  proof -
    have "g2 d4 (co + 2 * k) = g2 d3 (co + 2 * k)" using hl by (intro n43) auto
    also have "\<dots> = fst ((take i cs @ (idx, n) # drop i cs) ! k)"
    proof (cases k i rule: linorder_cases)
      case less
      then show ?thesis using P(1) g1 D(5) i by (simp add: nth_append)
    next
      case equal
      then show ?thesis using P(2) i by (simp add: nth_append)
    next
      case greater
      then have "(take i cs @ (idx, n) # drop i cs) ! k = cs ! (k - 1)" using i k by (simp add: nth_append nth_Cons')
      moreover have "g2 d3 (co + 2 * k) = g2 d1 (co + 2 * (k - 1))" using greater k by (intro P(3)) auto
      moreover have "k - 1 < length cs" using greater k by simp
      ultimately show ?thesis using g1 [of "k - 1"] D(5) [of "k - 1"] by simp
    qed
    finally show ?thesis .
  qed
  have g3: "g2 d4 (hdr + 3) = length cs + 1"
    unfolding d4_def hdr_def [symmetric] using l3 hl lo2 Sp(2,5) by (intro g2_p2) (auto simp: lo_def)
  have ok: "cell_ok bt p c'" if "c' \<in> set (contents d4 (take i cs @ (idx, n) # drop i cs))" for c'
    using that D(6) c(2) set_take_subset [of i "contents d cs"] set_drop_subset [of i "contents d cs"] unfolding con d_def [symmetric] by auto
  show "cells_at bt (p\<lparr>nCell := length cs + 1, aData := d4\<rparr>) (take i cs @ (idx, n) # drop i cs) [] fl"
    using S4 D(2) g3 ptrs ok i unfolding cells_at_def by (auto simp: u_def hdr_def lo_def co_def)
qed


subsection \<open>The invariant of a page\<close>

definition page_inv :: "BtShared \<Rightarrow> MemPage \<Rightarrow> block list \<Rightarrow> block list \<Rightarrow> bool" where
  "page_inv bt p cs fl \<longleftrightarrow> cells_at bt p cs [] fl \<and> unat (nFree p) + cellOffset p + 2 * length cs + total_size cs = usableSize bt
     \<and> decodeFlags bt p (aData p ! hdrOffset p) = (SQLITE_OK, p) \<and> cellOffset p = hdrOffset p + 12 - 4 * unat (leaf p)
     \<and> maskPage p = pageSize bt - 1 \<and> isInit p \<and> aOvfl p = []"

lemma page_invD:
  assumes "page_inv bt p cs fl"
  shows "cells_at bt p cs [] fl" "unat (nFree p) + cellOffset p + 2 * length cs + total_size cs = usableSize bt"
    "decodeFlags bt p (aData p ! hdrOffset p) = (SQLITE_OK, p)" "cellOffset p = hdrOffset p + 12 - 4 * unat (leaf p)"
    "maskPage p = pageSize bt - 1" "isInit p" "aOvfl p = []"
  using assms by (auto simp: page_inv_def)

text \<open>The page after an operation: only its bytes, the number of its cells and of its free bytes change.\<close>

definition same_page :: "MemPage \<Rightarrow> MemPage \<Rightarrow> bool" where
  "same_page p p' \<longleftrightarrow> p' = p\<lparr>nFree := nFree p', nCell := nCell p', aData := aData p'\<rparr>"

lemma same_page_refl [simp]: "same_page p p"
  by (simp add: same_page_def)

lemma same_page_fields:
  assumes "same_page p p'"
  shows "isInit p' = isInit p" "leaf p' = leaf p" "hdrOffset p' = hdrOffset p" "cellOffset p' = cellOffset p" "maskPage p' = maskPage p" "aOvfl p' = aOvfl p"
    "cell_ok bt p' c = cell_ok bt p c"
proof -
  have e: "p' = p\<lparr>nFree := nFree p', nCell := nCell p', aData := aData p'\<rparr>" using assms by (simp add: same_page_def)
  show "isInit p' = isInit p" "leaf p' = leaf p" "hdrOffset p' = hdrOffset p" "cellOffset p' = cellOffset p" "maskPage p' = maskPage p" "aOvfl p' = aOvfl p"
    by (subst e, simp)+
  show "cell_ok bt p' c = cell_ok bt p c" by (subst e, simp)
qed

lemma decodeFlags_same:
  assumes "same_page p p'" "decodeFlags bt p x = (SQLITE_OK, p)"
  shows "decodeFlags bt p' x = (SQLITE_OK, p')"
proof -
  obtain f k d where e: "p' = p\<lparr>nFree := f, nCell := k, aData := d\<rparr>" using assms(1) by (auto simp: same_page_def)
  have "decodeFlags bt (p\<lparr>nFree := f, nCell := k, aData := d\<rparr>) x
    = (fst (decodeFlags bt p x), (snd (decodeFlags bt p x))\<lparr>nFree := f, nCell := k, aData := d\<rparr>)"
    by (simp add: decodeFlags_def Let_def)
  then show ?thesis using assms(2) e by simp
qed

lemma page_inv_step:
  assumes I: "page_inv bt p cs fl" and s: "same_page p p'" and C: "cells_at bt p' cs' [] fl'"
    and f: "unat (nFree p') + cellOffset p + 2 * length cs' + total_size cs' = usableSize bt" and h: "aData p' ! hdrOffset p = aData p ! hdrOffset p"
  shows "page_inv bt p' cs' fl'"
  using page_invD [OF I] C f h decodeFlags_same [OF s] unfolding page_inv_def by (simp add: same_page_fields [OF s])

lemma total_insert: "total_size (take i cs @ (a, n) # drop i cs) = n + total_size cs"
proof -
  have "total_size (take i cs @ drop i cs) = total_size cs" by simp
  then show ?thesis by (simp only: map_append sum_list_append list.map sum_list.Cons prod.case)
qed

text \<open>Where the page number of the first overflow page stands in a cell.\<close>

lemma cell_overflow:
  assumes "cell_ok bt p c"
  shows "\<exists>info. sqlite3BtreeParseCellPtr bt p (c @ r) = Some info \<and> ci_iOverflow info + 4 \<le> length c"
proof -
  obtain info where i: "sqlite3BtreeParseCellPtr bt p c = Some info" "ci_nSize info = length c" "4 \<le> length c"
    using assms by (auto simp: cell_ok_def cellSizePtr_def)
  have "ci_iOverflow info = 0 \<or> ci_iOverflow info < 2 ^ 16 \<and> ci_nSize info = (ci_iOverflow info + 4) mod 2 ^ 16"
  proof -
    obtain n nKey nData nPayload where h: "cell_header p c = Some (n, nKey, nData, nPayload)"
      using i(1) unfolding sqlite3BtreeParseCellPtr_def by (elim bind_SomeE) auto
    show ?thesis
    proof (cases "unat nPayload \<le> maxLocal p")
      case True
      then show ?thesis using i(1) h by (auto simp: sqlite3BtreeParseCellPtr_def Let_def)
    next
      case False
      then have "\<not> (usableSize bt = 4 \<or> unat nPayload < minLocal p)" using i(1) h by (auto simp: sqlite3BtreeParseCellPtr_def Let_def)
      with False i(1) h obtain l where "ci_iOverflow info = trunc16 l" "ci_nSize info = trunc16 (ci_iOverflow info + 4)"
        unfolding sqlite3BtreeParseCellPtr_def Let_def by (simp only: Option.bind.simps prod.case if_False option.inject) (metis CellInfo.select_convs(6,7))
      moreover have "trunc16 l < 2 ^ 16" by simp
      ultimately show ?thesis by metis
    qed
  qed
  then have "ci_iOverflow info + 4 \<le> length c"
  proof
    assume a: "ci_iOverflow info < 2 ^ 16 \<and> ci_nSize info = (ci_iOverflow info + 4) mod 2 ^ 16"
    show ?thesis
    proof (cases "ci_iOverflow info + 4 < 2 ^ 16")
      case True
      then show ?thesis using a i by simp
    next
      case False
      then have "(ci_iOverflow info + 4) mod 2 ^ 16 = (ci_iOverflow info + 4 - 2 ^ 16) mod 2 ^ 16" by (intro le_mod_geq) simp
      moreover have "ci_iOverflow info + 4 - 2 ^ 16 < 4" using conjunct1 [OF a] by simp
      ultimately have "ci_nSize info < 4" using a by simp
      then show ?thesis using i by simp
    qed
  qed (use i in simp)
  then show ?thesis using ParseCell_more [OF i(1)] by blast
qed


lemma insertCell_room:
  assumes C: "cells_at bt p cs [] fl" and tmp: "usableSize bt \<le> length tmp"
    and fr: "unat (nFree p) + cellOffset p + 2 * length cs + total_size cs = usableSize bt" and n: "n + 2 \<le> unat (nFree p)"
    and t: "tp = g2 (aData p) (hdrOffset p + 5)" and e: "e = cellOffset p + 2 * length cs + 2"
  shows "\<exists>d1 cs1 fl1. (if int e > int tp - int n then defragmentPage bt tmp p else Some (SQLITE_OK, p)) = Some (SQLITE_OK, p\<lparr>aData := d1\<rparr>)
    \<and> cells_at bt (p\<lparr>aData := d1\<rparr>) cs1 [] fl1 \<and> contents d1 cs1 = contents (aData p) cs \<and> total_size cs1 = total_size cs
    \<and> length d1 = length (aData p) \<and> d1 ! hdrOffset p = aData p ! hdrOffset p \<and> e + n \<le> g2 d1 (hdrOffset p + 5)"
proof (cases "int e > int tp - int n")
  case False
  then show ?thesis using C t by (intro exI [of _ "aData p"] exI [of _ cs] exI [of _ fl]) simp
next
  case True
  have ok: "usableSize bt - total_size cs - (cellOffset p + 2 * length cs) = unat (nFree p)" using fr by simp
  from defrag_law [OF C tmp, unfolded ok] obtain d' where "defragmentPage bt tmp p = Some (SQLITE_OK, p\<lparr>aData := d'\<rparr>)"
    "cells_at bt (p\<lparr>aData := d'\<rparr>) (place (usableSize bt) cs) [] []" "contents d' (place (usableSize bt) cs) = contents (aData p) cs"
    "g2 d' (hdrOffset p + 5) = usableSize bt - total_size cs" "length d' = length (aData p)" "d' ! hdrOffset p = aData p ! hdrOffset p" by auto
  then show ?thesis using True fr n e by (intro exI [of _ d'] exI [of _ "place (usableSize bt) cs"] exI [of _ "[]"]) simp
qed

lemma insertCell_law:
  assumes I: "page_inv bt p cs fl" and tmp: "usableSize bt \<le> length tmp" and av: "autoVacuum bt \<Longrightarrow> \<forall>g. ptrmap g = SQLITE_OK"
    and c: "cell_ok bt p c" "length c + 2 \<le> unat (nFree p)" and i: "i \<le> length cs"
  shows "\<exists>p' cs' fl'. insertCell bt tmp SQLITE_OK ptrmap p i (c @ r) (length c) pTemp 0 = Some (SQLITE_OK, p') \<and> same_page p p' \<and> page_inv bt p' cs' fl'
    \<and> contents (aData p') cs' = take i (contents (aData p) cs) @ c # drop i (contents (aData p) cs)
    \<and> total_size cs' = length c + total_size cs \<and> length (aData p') = length (aData p)"
proof -
  note J = page_invD [OF I]
  define n where "n = length c"
  define hdr where "hdr = hdrOffset p"
  define tp where "tp = g2 (aData p) (hdr + 5)"
  define e where "e = cellOffset p + 2 * length cs + 2"
  note C = cells_atD [OF J(1)]
  note Sp = spaceD [OF C(1)]
  have n4: "4 \<le> n" using c(1) by (simp add: cell_ok_def n_def)
  have nf: "n + 2 \<le> unat (nFree p)" using c(2) by (simp add: n_def)
  obtain d1 cs1 fl1 where d1: "(if int e > int tp - int n then defragmentPage bt tmp p else Some (SQLITE_OK, p)) = Some (SQLITE_OK, p\<lparr>aData := d1\<rparr>)"
    "cells_at bt (p\<lparr>aData := d1\<rparr>) cs1 [] fl1" "contents d1 cs1 = contents (aData p) cs" "total_size cs1 = total_size cs"
    "length d1 = length (aData p)" "d1 ! hdr = aData p ! hdr" "e + n \<le> g2 d1 (hdr + 5)"
    using insertCell_room [OF J(1) tmp J(2) nf, of tp e] unfolding tp_def e_def hdr_def by blast
  have l1: "length cs1 = length cs" using arg_cong [OF d1(3), of length] by simp
  define p1 where "p1 = p\<lparr>aData := d1\<rparr>"
  have al: "\<exists>idx d' cs' fl'. allocateSpace bt tmp p1 n = Some (idx, p1\<lparr>nFree := nFree p1 - word_of_nat n, aData := d'\<rparr>)
    \<and> cells_at bt (p1\<lparr>aData := d'\<rparr>) cs' [(idx, n)] fl' \<and> contents d' cs' = contents (aData p1) cs1 \<and> total_size cs' = total_size cs1
    \<and> length d' = length (aData p1) \<and> d' ! hdrOffset p1 = aData p1 ! hdrOffset p1
    \<and> (\<forall>e. e + n \<le> g2 (aData p1) (hdrOffset p1 + 5) \<and> e + n \<le> cellOffset p1 + 2 * length cs1 + unat (nFree p1) \<longrightarrow> e \<le> g2 d' (hdrOffset p1 + 5))"
    by (rule allocateSpace_law [where fl = fl1]) (use d1(2,4) l1 tmp J(2) n4 nf in \<open>simp_all add: p1_def\<close>)
  then obtain idx d2 cs2 fl2 where d2: "allocateSpace bt tmp p1 n = Some (idx, p\<lparr>nFree := nFree p - word_of_nat n, aData := d2\<rparr>)"
    "cells_at bt (p\<lparr>aData := d2\<rparr>) cs2 [(idx, n)] fl2" "contents d2 cs2 = contents (aData p) cs" "total_size cs2 = total_size cs"
    "length d2 = length (aData p)" "d2 ! hdr = aData p ! hdr"
    "\<And>e. e + n \<le> g2 d1 (hdr + 5) \<Longrightarrow> e + n \<le> cellOffset p + 2 * length cs1 + unat (nFree p) \<Longrightarrow> e \<le> g2 d2 (hdr + 5)"
    using d1 unfolding p1_def hdr_def by (auto 0 0)
  have l2: "length cs2 = length cs" using arg_cong [OF d2(3), of length] by simp
  have e2: "e \<le> g2 d2 (hdr + 5)" by (rule d2(7)) (use d1(7) nf l1 in \<open>auto simp: e_def\<close>)
  let ?q = "p\<lparr>aData := d2\<rparr>"
  let ?ins = "cellOffset p + 2 * i"
  define b1 where "b1 = pb d2 idx c"
  define b2 where "b2 = pb b1 (?ins + 2) (take (2 * (length cs2 - i)) (drop ?ins b1))"
  define b3 where "b3 = p2 b2 ?ins idx"
  define b4 where "b4 = p2 b3 (hdr + 3) (length cs2 + 1)"
  have W: "idx + n \<le> usableSize bt" "length b4 = length d2" "length b1 = length d2" "length b2 = length d2"
    "cells_at bt (?q\<lparr>nCell := length cs2 + 1, aData := b4\<rparr>) (take i cs2 @ (idx, n) # drop i cs2) [] fl2"
    "contents b4 (take i cs2 @ (idx, n) # drop i cs2) = take i (contents d2 cs2) @ c # drop i (contents d2 cs2)" "b4 ! hdr = d2 ! hdr"
    using insert_write_law [OF d2(2), of c i] c(1) i l2 e2 n_def
    unfolding b1_def b2_def b3_def b4_def hdr_def e_def by simp_all
  define p' where "p' = p\<lparr>nFree := nFree p - word_of_nat n - 2, nCell := nCell p + 1, aData := b4\<rparr>"
  have run: "insertCell bt tmp SQLITE_OK ptrmap p i (c @ r) n pTemp 0 = Some (SQLITE_OK, p')"
  proof -
    define q0 where "q0 = p\<lparr>nFree := nFree p - word_of_nat n, aData := d2\<rparr>"
    have q0: "aData q0 = d2" "nCell q0 = nCell p" "q0\<lparr>nCell := nCell p + 1, nFree := nFree q0 - 2, aData := b4\<rparr> = p'"
      by (simp_all add: q0_def p'_def)
    have hl: "hdr + 8 \<le> cellOffset p" using C(2) by (simp add: hdr_def)
    have el: "e \<le> length d2" using e2 spaceD(1,5) [OF cells_atD(1) [OF d2(2)]] by (simp add: hdr_def)
    have r: "get2byte (aData p) (hdr + 5) = Some tp" using Sp(1,3-5) by (simp add: buf_simps tp_def hdr_def)
    have w: "get_bytes (c @ r) 0 n = Some c" "put_bytes d2 idx c = Some b1"
      "get_bytes b1 ?ins (2 * (nCell p - i)) = Some (take (2 * (length cs2 - i)) (drop ?ins b1))"
      "put_bytes b1 (?ins + 2) (take (2 * (length cs2 - i)) (drop ?ins b1)) = Some b2"
      "put2byte b2 ?ins idx = Some b3" "put2byte b3 (hdr + 3) (nCell p + 1) = Some b4"
      using W(1-4) n_def el hl i l2 C(3) spaceD(1) [OF cells_atD(1) [OF d2(2)]]
      by (simp_all add: buf_simps b1_def b2_def b3_def b4_def e_def)
    have en: "e - 2 - ?ins = 2 * (nCell p - i)" using C(3) by (simp add: e_def)
    have no: "\<not> (aOvfl p \<noteq> [] \<or> n + 2 > unat (nFree p))" "\<not> idx + n > usableSize bt" using J(7) nf W(1) by simp_all
    obtain info where info: "sqlite3BtreeParseCellPtr bt p' (c @ r) = Some info" "ci_iOverflow info + 4 \<le> length c"
      using cell_overflow [of bt p' c r] c(1) same_page_fields(7) [of p p' bt c] by (auto simp: same_page_def p'_def)
    have "\<exists>v. sqlite3Get4byte (drop (ci_iOverflow info) (c @ r)) = Some v"
      using info(2) by (simp add: sqlite3Get4byte_def)
    then obtain v where v: "sqlite3Get4byte (drop (ci_iOverflow info) (c @ r)) = Some v" by blast
    have e': "cellOffset p + 2 * nCell p + 2 = e" using C(3) by (simp add: e_def)
    have av': "autoVacuum bt \<Longrightarrow> ptrmap v = SQLITE_OK" using av by simp
    show ?thesis
      unfolding insertCell_def Let_def hdr_def [symmetric] e'
      using no r d1(1) d2(1) w en info(1) v av' q0
      by (simp add: p1_def [symmetric] q0_def [symmetric] del: drop_append)
  qed
  have nfree: "unat (nFree p') = unat (nFree p) - n - 2"
  proof -
    have "n < 2 ^ 16" using nf unat_less [of "nFree p"] by simp
    then have "unat (nFree p - word_of_nat n) = unat (nFree p) - n"
      using nf by (simp add: unat_sub word_le_nat_alt unsigned_of_nat take_bit_nat_eq_self)
    then show ?thesis using nf by (simp add: p'_def unat_sub word_le_nat_alt)
  qed
  have sp: "same_page p p'" by (simp add: same_page_def p'_def)
  have "page_inv bt p' (take i cs2 @ (idx, n) # drop i cs2) fl2"
  proof (rule page_inv_step [OF I sp])
    have "p' = (?q\<lparr>nCell := length cs2 + 1, aData := b4\<rparr>)\<lparr>nFree := nFree p - word_of_nat n - 2\<rparr>" using C(3) l2 by (simp add: p'_def)
    then show "cells_at bt p' (take i cs2 @ (idx, n) # drop i cs2) [] fl2" using W(5) by (simp only: cells_at_nFree)
    show "unat (nFree p') + cellOffset p + 2 * length (take i cs2 @ (idx, n) # drop i cs2) + total_size (take i cs2 @ (idx, n) # drop i cs2) = usableSize bt"
      unfolding total_insert using nfree J(2) nf l2 d2(4) i by simp
    show "aData p' ! hdrOffset p = aData p ! hdrOffset p" using W(7) d2(6) by (simp add: p'_def hdr_def)
  qed
  moreover have "contents (aData p') (take i cs2 @ (idx, n) # drop i cs2) = take i (contents (aData p) cs) @ c # drop i (contents (aData p) cs)"
    using W(6) d2(3) by (simp add: p'_def)
  moreover have "length (aData p') = length (aData p)" using W(2) d2(5) by (simp add: p'_def)
  moreover have "total_size (take i cs2 @ (idx, n) # drop i cs2) = n + total_size cs" unfolding total_insert d2(4) ..
  ultimately show ?thesis using run sp unfolding n_def by blast
qed


subsection \<open>Removing a cell\<close>

lemma ptr_remove:
  assumes l: "co + 2 * n \<le> length d" and i: "i < n"
  defines "d' \<equiv> pb d (co + 2 * i) (take (2 * (n - (i + 1))) (drop (co + 2 * i + 2) d))"
  shows "k < i \<Longrightarrow> g2 d' (co + 2 * k) = g2 d (co + 2 * k)"
    "i \<le> k \<Longrightarrow> k + 1 < n \<Longrightarrow> g2 d' (co + 2 * k) = g2 d (co + 2 * (k + 1))" "length d' = length d"
    "\<not> (co + 2 * i \<le> j \<and> j < co + 2 * n) \<Longrightarrow> j < length d \<Longrightarrow> d' ! j = d ! j"
proof -
  define c where "c = take (2 * (n - (i + 1))) (drop (co + 2 * i + 2) d)"
  have lc: "length c = 2 * (n - (i + 1))" using l i by (simp add: c_def)
  have b: "co + 2 * i + length c \<le> length d" using lc l i by simp
  show l': "length d' = length d" using b by (simp add: d'_def c_def)
  have nn: "d' ! j = (if co + 2 * i \<le> j \<and> j + 2 < co + 2 * n then d ! (j + 2) else d ! j)" if "j < length d" for j
  proof -
    have "d' ! j = (if co + 2 * i \<le> j \<and> j < co + 2 * i + length c then c ! (j - (co + 2 * i)) else d ! j)"
      unfolding d'_def c_def [symmetric] by (rule nth_pb [OF b that])
    also have "\<dots> = (if co + 2 * i \<le> j \<and> j + 2 < co + 2 * n then d ! (j + 2) else d ! j)"
      using lc i l by (auto simp: c_def)
    finally show ?thesis .
  qed
  show "k < i \<Longrightarrow> g2 d' (co + 2 * k) = g2 d (co + 2 * k)" using l i by (simp add: g2_def nn)
  show "i \<le> k \<Longrightarrow> k + 1 < n \<Longrightarrow> g2 d' (co + 2 * k) = g2 d (co + 2 * (k + 1))" using l by (simp add: g2_def nn)
  show "\<not> (co + 2 * i \<le> j \<and> j < co + 2 * n) \<Longrightarrow> j < length d \<Longrightarrow> d' ! j = d ! j" using nn [of j] i by auto
qed

lemma list_split_nth: "i < length xs \<Longrightarrow> xs = take i xs @ xs ! i # drop (i + 1) xs"
  by (simp add: id_take_nth_drop)

lemma dropCell_law:
  assumes I: "page_inv bt p cs fl" and i: "i < length cs"
  shows "\<exists>p' fl'. dropCell bt p i (snd (cs ! i)) = Some (SQLITE_OK, p') \<and> same_page p p' \<and> page_inv bt p' (take i cs @ drop (i + 1) cs) fl'
    \<and> contents (aData p') (take i cs @ drop (i + 1) cs) = take i (contents (aData p) cs) @ drop (i + 1) (contents (aData p) cs)
    \<and> length (aData p') = length (aData p)"
proof -
  note J = page_invD [OF I]
  define d u hdr co where "d = aData p" and "u = usableSize bt" and "hdr = hdrOffset p" and "co = cellOffset p"
  define lo where "lo = co + 2 * length cs"
  define tp where "tp = g2 d (hdr + 5)"
  define cs' where "cs' = take i cs @ drop (i + 1) cs"
  obtain a n where an: "cs ! i = (a, n)" by (cases "cs ! i")
  note C = cells_atD [OF J(1), folded d_def u_def hdr_def co_def, folded lo_def]
  have S: "space u hdr lo d cs fl" using C(1) by simp
  note Sp = spaceD [OF S, folded tp_def]
  have m: "(a, n) \<in> set cs" using i an nth_mem by metis
  note x = Sp(12) [OF m]
  have split: "cs = take i cs @ (a, n) # drop (i + 1) cs" using list_split_nth [OF i] an by simp
  have sz: "total_size cs = n + total_size cs'" unfolding cs'_def by (subst (1) split) (simp only: map_append sum_list_append list.map sum_list.Cons prod.case)
  have S': "space u hdr lo d (take i cs @ (a, n) # drop (i + 1) cs) fl" using S split by simp
  obtain d1 fl' where d1: "freeSpace bt p a n = Some (SQLITE_OK, p\<lparr>nFree := nFree p + word_of_nat n, aData := d1\<rparr>)"
    "space u hdr lo d1 cs' fl'" "length d1 = length d" "\<And>j. j \<in> kept_bytes hdr tp cs' \<Longrightarrow> d1 ! j = d ! j"
    using freeSpace_law [OF S' [unfolded u_def hdr_def d_def]] unfolding cs'_def kept_bytes_def u_def hdr_def d_def tp_def by blast
  note S1 = spaceD [OF d1(2)]
  have l': "length cs' = length cs - 1" using i by (simp add: cs'_def)
  define c where "c = take (2 * (length cs - (i + 1))) (drop (co + 2 * i + 2) d1)"
  define d2 where "d2 = pb d1 (co + 2 * i) c"
  define d3 where "d3 = p2 d2 (hdr + 3) (length cs - 1)"
  have pl: "co + 2 * length cs \<le> length d1" using S1(1,4,5) by (simp add: lo_def)
  note P = ptr_remove [OF pl i, folded c_def, folded d2_def]
  have hl: "hdr + 8 \<le> co" "co \<le> lo" "lo < length d" using C(2) Sp(1,4,5) x by (auto simp: lo_def)
  have lc: "length c = 2 * (length cs - (i + 1))" using pl i by (simp add: c_def)
  have l3: "length d3 = length d" using P(3) d1(3) by (simp add: d3_def)
  have n3: "d3 ! j = d1 ! j" if "j < length d" "\<not> (co \<le> j \<and> j < lo)" "j \<notin> {hdr + 3, hdr + 4}" for j
  proof -
    have "j \<noteq> hdr + 3" "j \<noteq> hdr + 3 + 1" using that(3) by auto
    then have "d3 ! j = d2 ! j" unfolding d3_def by (rule nth_p2)
    also have "\<dots> = d1 ! j" using that d1(3) by (intro P(4)) (auto simp: lo_def)
    finally show ?thesis .
  qed
  define p' where "p' = p\<lparr>nFree := nFree p + word_of_nat n + 2, nCell := length cs - 1, aData := d3\<rparr>"
  have run: "dropCell bt p i n = Some (SQLITE_OK, p')"
  proof -
    have ptr: "get2byte d (co + 2 * i) = Some a" using C(5) [OF i] an i hl by (simp add: buf_simps lo_def)
    have ok: "\<not> (a < hdr + 6 + (if leaf p \<noteq> 0 then 0 else 4) \<or> a + n > u)"
      using x Sp(4) hl J(4) by (auto simp: co_def hdr_def)
    have w: "get_bytes d1 (co + 2 * i + 2) (2 * (length cs - (i + 1))) = Some c" "put_bytes d1 (co + 2 * i) c = Some d2"
      "put2byte d2 (hdr + 3) (length cs - 1) = Some d3"
      using pl i lc hl P(3) d1(3) by (simp_all add: buf_simps c_def d2_def d3_def)
    show ?thesis
      unfolding dropCell_def Let_def d_def [symmetric] u_def [symmetric] hdr_def [symmetric] co_def [symmetric]
      using ptr ok d1(1) w C(3) by (simp add: p'_def hdr_def del: One_nat_def)
  qed
  have sp: "same_page p p'" by (simp add: same_page_def p'_def)
  have hf: "heads fl' \<subseteq> {g2 d1 (hdr + 5)..<u}" using heads_cover [OF S1(7)] space_cover [OF d1(2)] by blast
  have up: "d3 ! j = d1 ! j" if "g2 d1 (hdr + 5) \<le> j" "j < length d" for j
    using that S1(4) hl by (intro n3) auto
  have S3: "space u hdr lo d3 cs' fl'"
  proof (rule space_frame [OF d1(2)])
    fix j assume j: "j \<in> {hdr + 1, hdr + 2, hdr + 5, hdr + 6, hdr + 7} \<union> heads fl'"
    show "d3 ! j = d1 ! j"
    proof (cases "j \<in> heads fl'")
      case True
      then show ?thesis using hf Sp(1) by (intro up) auto
    next
      case False
      then show ?thesis using j hl by (intro n3) auto
    qed
  qed (use l3 d1(3) in simp)
  have t3: "g2 d3 (hdr + 5) = g2 d1 (hdr + 5)" using hl by (intro g2_cong n3) auto
  have S4: "space u hdr (co + 2 * length cs') d3 cs' fl'"
    by (rule space_lo [OF S3]) (use t3 S1(4) hl l' in \<open>simp_all add: lo_def\<close>)
  have cov': "cover cs' \<subseteq> {g2 d1 (hdr + 5)..<u}" using space_cover [OF d1(2)] by blast
  have cont: "contents d3 cs' = take i (contents d cs) @ drop (i + 1) (contents d cs)"
  proof -
    have "contents d3 cs' = contents d cs'"
    proof (rule contents_keep)
      fix j assume j: "j \<in> cover cs'"
      then have "d3 ! j = d1 ! j" using cov' Sp(1) by (intro up) auto
      also have "\<dots> = d ! j" using j by (intro d1(4)) (simp add: kept_bytes_def)
      finally show "d3 ! j = d ! j" .
    qed (use l3 cov' Sp(1) in auto)
    then show ?thesis by (simp add: cs'_def contents_take)
  qed
  have g1: "g2 d1 (co + 2 * k) = g2 d (co + 2 * k)" if "k < length cs" for k
    using that hl Sp(4) by (intro g2_cong d1(4)) (auto simp: kept_bytes_def lo_def)
  have ptrs: "g2 d3 (co + 2 * k) = fst (cs' ! k)" if k: "k < length cs'" for k
  proof -
    have "g2 d3 (co + 2 * k) = g2 d2 (co + 2 * k)" using hl unfolding d3_def by (intro g2_cong nth_p2) auto
    also have "\<dots> = fst (cs' ! k)"
    proof (cases "k < i")
      case True
      then show ?thesis using P(1) g1 C(5) i by (simp add: cs'_def nth_append)
    next
      case False
      then show ?thesis using P(2) [of k] g1 [of "k + 1"] C(5) [of "k + 1"] k l' by (simp add: cs'_def nth_append)
    qed
    finally show ?thesis .
  qed
  have g3: "g2 d3 (hdr + 3) = length cs - 1"
    unfolding d3_def using P(3) d1(3) hl Sp(2,4,5) by (intro g2_p2) (auto simp: lo_def)
  have "page_inv bt p' cs' fl'"
  proof (rule page_inv_step [OF I sp])
    have ok: "cell_ok bt p c'" if "c' \<in> set (contents d3 cs')" for c'
    proof (rule C(6))
      show "c' \<in> set (contents d cs)" using that in_set_takeD in_set_dropD unfolding cont set_append Un_iff by metis
    qed
    show "cells_at bt p' cs' [] fl'"
      using S4 C(2) g3 ptrs ok l' same_page_fields(7) [OF sp, of bt]
      unfolding cells_at_def by (simp add: p'_def u_def hdr_def co_def)
    have n16: "n < 2 ^ 16" "unat (nFree p) + n + 2 < 2 ^ 16"
      using J(2) sz x Sp(2) i by (auto simp: u_def)
    have "unat (nFree p') = unat (nFree p) + n + 2"
    proof -
      have "unat (nFree p + word_of_nat n) = unat (nFree p) + n" using n16 by (simp add: unat_word_ariths unsigned_of_nat take_bit_nat_eq_self)
      then show ?thesis using n16 unat_word_ariths(1) [of "nFree p + word_of_nat n" 2] by (simp add: p'_def)
    qed
    then show "unat (nFree p') + cellOffset p + 2 * length cs' + total_size cs' = usableSize bt" using J(2) sz l' i by simp
    have "d3 ! hdr = d1 ! hdr" using hl by (intro n3) auto
    also have "\<dots> = d ! hdr" by (intro d1(4)) (simp add: kept_bytes_def)
    finally show "aData p' ! hdrOffset p = aData p ! hdrOffset p" by (simp add: p'_def d_def hdr_def)
  qed
  moreover have "contents (aData p') cs' = take i (contents (aData p) cs) @ drop (i + 1) (contents (aData p) cs)" "length (aData p') = length (aData p)"
    using cont l3 by (simp_all add: p'_def d_def)
  ultimately show ?thesis using run sp unfolding an snd_conv cs'_def [symmetric] by blast
qed

subsection \<open>New pages and pages from bytes\<close>

definition geometry :: "BtShared \<Rightarrow> bool" where
  "geometry bt \<longleftrightarrow> pageSize bt \<in> {512, 1024, 2048, 4096, 8192, 16384, 32768} \<and> usableSize bt \<le> pageSize bt"

lemma geometryD:
  assumes "geometry bt" shows "usableSize bt \<le> pageSize bt" "pageSize bt < 65536" "\<exists>k. pageSize bt = 2 ^ k"
proof -
  show "usableSize bt \<le> pageSize bt" "pageSize bt < 65536" using assms by (auto simp: geometry_def)
  have "pageSize bt \<in> (\<lambda>k. 2 ^ k) ` {9, 10, 11, 12, 13, 14, 15}" using assms by (simp add: geometry_def)
  then show "\<exists>k. pageSize bt = 2 ^ k" by blast
qed

lemma decodeFlags_flags:
  assumes "decodeFlags bt p f = (SQLITE_OK, q)"
  shows "f = 2 \<or> f = 10 \<or> f = 5 \<or> f = 13"
proof -
  have split: "f = (f AND NOT 8) OR (f AND 8)" by (rule bit_eqI) (auto simp: bit_simps)
  have "f AND 8 = (if bit f 3 then 8 else 0)" by (rule bit_eqI8) (auto simp: bit_eval)
  then have "f AND 8 = 0 \<or> f AND 8 = 8" by simp
  moreover have "f AND NOT 8 = 5 \<or> f AND NOT 8 = 2"
    using assms by (auto simp: decodeFlags_def Let_def ptf_defs codes split: if_splits)
  ultimately show ?thesis using split by auto
qed

lemma decodeFlags_keep:
  assumes "decodeFlags bt p f = (rc, q)"
  shows "hdrOffset q = hdrOffset p" "aData q = aData p" "nFree q = nFree p" "nCell q = nCell p" "leaf q = drop_bit 3 f"
    "cellOffset q = cellOffset p" "maskPage q = maskPage p" "aOvfl q = aOvfl p" "isInit q = isInit p"
  using assms by (auto simp: decodeFlags_def Let_def split: if_splits)

lemma decodeFlags_det:
  assumes "decodeFlags bt p f = (SQLITE_OK, p')"
  shows "\<exists>q'. decodeFlags bt q f = (SQLITE_OK, q')
    \<and> q' = q\<lparr>intKey := intKey p', leaf := leaf p', hasData := hasData p', childPtrSize := childPtrSize p', maxLocal := maxLocal p', minLocal := minLocal p'\<rparr>"
  using assms by (auto simp: decodeFlags_def Let_def codes split: if_splits)

text \<open>The bytes of a new page for cells and their pointers.\<close>

definition page_capacity :: "BtShared \<Rightarrow> MemPage \<Rightarrow> u8 \<Rightarrow> nat" where
  "page_capacity bt p flags = usableSize bt - (hdrOffset p + 8 + 4 * (if flags AND PTF_LEAF = 0 then 1 else 0))"

lemma zeroPage_law:
  assumes g: "geometry bt" and l: "usableSize bt \<le> length (aData p)" and u: "hdrOffset p + 12 \<le> usableSize bt"
    and f: "fst (decodeFlags bt p flags) = SQLITE_OK"
  shows "\<exists>p'. zeroPage bt p flags = Some p' \<and> page_inv bt p' [] [] \<and> hdrOffset p' = hdrOffset p \<and> length (aData p') = length (aData p)
    \<and> cell_ok bt p' = cell_ok bt (snd (decodeFlags bt p flags)) \<and> unat (nFree p') = page_capacity bt p flags
    \<and> g2 (aData p') (hdrOffset p' + 5) = usableSize bt"
proof -
  define d hdr where "d = aData p" and "hdr = hdrOffset p"
  define co where "co = hdr + 8 + 4 * (if flags AND PTF_LEAF = 0 then 1 else 0)"
  define d1 d2 d3 d4 where "d1 = d[hdr := flags]" and "d2 = pb d1 (hdr + 1) [0, 0, 0, 0]" and "d3 = d2[hdr + 7 := 0]"
    and "d4 = p2 d3 (hdr + 5) (usableSize bt)"
  note G = geometryD [OF g]
  have u': "hdr + 12 \<le> usableSize bt" "usableSize bt \<le> length d" using u l G by (simp_all add: hdr_def d_def)
  have len: "length d1 = length d" "length d2 = length d" "length d3 = length d" "length d4 = length d"
    using u' by (simp_all add: d1_def d2_def d3_def d4_def)
  have n4: "d4 ! hdr = flags" "g2 d4 (hdr + 1) = 0" "g2 d4 (hdr + 3) = 0" "d4 ! (hdr + 7) = 0" "g2 d4 (hdr + 5) = usableSize bt"
  proof -
    have n2: "d2 ! j = (if hdr + 1 \<le> j \<and> j < hdr + 5 then 0 else d1 ! j)" if "j < length d" for j
      using that u' len(1) unfolding d2_def by (subst nth_pb) (auto simp: nth_Cons' )
    show "d4 ! hdr = flags" "g2 d4 (hdr + 1) = 0" "g2 d4 (hdr + 3) = 0" "d4 ! (hdr + 7) = 0"
      using u' len by (simp_all add: d4_def d3_def g2_def p2_def n2 d1_def)
    show "g2 d4 (hdr + 5) = usableSize bt" unfolding d4_def using u' len G by (intro g2_p2) auto
  qed
  define q where "q = p\<lparr>aData := d4, nFree := word_of_int (int (usableSize bt) - int co)\<rparr>"
  obtain q' where q': "decodeFlags bt q flags = (SQLITE_OK, q')"
    using f by (auto simp: q_def decodeFlags_def Let_def split: if_splits)
  define p' where "p' = q'\<lparr>cellOffset := co, maskPage := pageSize bt - 1, nCell := 0, aOvfl := [], isInit := True\<rparr>"
  note K = decodeFlags_keep [OF q']
  have run: "zeroPage bt p flags = Some p'"
  proof -
    have "poke d hdr flags = Some d1" "put_bytes d1 (hdr + 1) [0, 0, 0, 0] = Some d2" "poke d2 (hdr + 7) 0 = Some d3"
      "put2byte d3 (hdr + 5) (usableSize bt) = Some d4"
      using u' len by (simp_all add: buf_simps d1_def d2_def d3_def d4_def)
    then show ?thesis unfolding zeroPage_def Let_def d_def [symmetric] hdr_def [symmetric] co_def [symmetric]
      using q' [unfolded q_def] by (simp add: p'_def del: One_nat_def)
  qed
  have fl: "flags = 2 \<or> flags = 10 \<or> flags = 5 \<or> flags = 13" using decodeFlags_flags [OF q'] .
  have lf: "unat (leaf q') = (if flags AND PTF_LEAF = 0 then 0 else 1)" unfolding K(5) using fl
    by (elim disjE) (simp_all add: PTF_LEAF_def)
  have dec: "decodeFlags bt p' flags = (SQLITE_OK, p')"
  proof -
    have "decodeFlags bt (q'\<lparr>cellOffset := c, maskPage := m, nCell := k, aOvfl := ov, isInit := b\<rparr>) flags
      = (fst (decodeFlags bt q' flags), (snd (decodeFlags bt q' flags))\<lparr>cellOffset := c, maskPage := m, nCell := k, aOvfl := ov, isInit := b\<rparr>)" for c m k ov b
      by (simp add: decodeFlags_def Let_def)
    moreover have "decodeFlags bt q' flags = (SQLITE_OK, q')"
      using q' by (auto simp: decodeFlags_def Let_def split: if_splits)
    ultimately show ?thesis by (simp add: p'_def)
  qed
  have co: "co = hdr + 12 - 4 * unat (leaf p')" "hdr + 8 \<le> co" "co \<le> hdr + 12" using lf by (simp_all add: co_def p'_def)
  have nf: "unat (nFree p') = usableSize bt - co"
  proof -
    have "word_of_int (int (usableSize bt) - int co) = (word_of_nat (usableSize bt - co) :: u16)"
      using co(3) u' by (simp add: of_nat_diff)
    moreover have "usableSize bt - co < 2 ^ 16" using G(1,2) by simp
    ultimately show ?thesis using K(3) take_bit_nat_eq_self [of "usableSize bt - co" 16]
      by (simp add: p'_def q_def unsigned_of_nat del: of_nat_diff)
  qed
  have h': "hdrOffset p' = hdr" "aData p' = d4" "cellOffset p' = co" using K by (simp_all add: p'_def q_def hdr_def)
  have "space (usableSize bt) hdr co d4 [] []"
    unfolding space_def using u' len(4) n4(2,4,5) co(2,3) G(1,2) by simp
  moreover have f': "nCell p' = 0" "isInit p'" "aOvfl p' = []" "maskPage p' = pageSize bt - 1" by (simp_all add: p'_def)
  ultimately have "cells_at bt p' [] [] []" using co(2) n4(3) h' by (simp add: cells_at_def)
  moreover have "unat (nFree p') + co = usableSize bt" using nf co(3) u'(1) by simp
  ultimately have "page_inv bt p' [] []" using dec co(1) n4(1) h' f' unfolding page_inv_def by simp
  moreover have "cell_ok bt p' = cell_ok bt (snd (decodeFlags bt p flags))"
  proof -
    obtain p1 where p1: "decodeFlags bt p flags = (SQLITE_OK, p1)"
      and e: "p1 = p\<lparr>intKey := intKey p', leaf := leaf p', hasData := hasData p', childPtrSize := childPtrSize p', maxLocal := maxLocal p', minLocal := minLocal p'\<rparr>"
      using decodeFlags_det [OF dec, of p] by blast
    have "cell_ok bt p' c = cell_ok bt p1 c" for c unfolding e by (rule cell_ok_cong) simp_all
    then show ?thesis using p1 by auto
  qed
  moreover have "unat (nFree p') = page_capacity bt p flags" using nf by (simp only: page_capacity_def co_def hdr_def)
  moreover have "g2 (aData p') (hdrOffset p' + 5) = usableSize bt" using h' n4(5) by simp
  ultimately show ?thesis using run h' len by (simp add: hdr_def d_def)
qed

lemma init_free_law:
  assumes "chain d p fl" "asc lo fl" "spaced fl" "cover fl \<subseteq> {..<u}" "u \<le> length d" "0 < u" "usableSize bt = u"
  shows "init_free bt d (g2 d p) tot = Some (Some (tot + total_size fl))"
  using assms
proof (induction fl arbitrary: p lo tot)
  case Nil
  then show ?case by (subst init_free.simps) simp
next
  case (Cons x fl)
  obtain a n where x: "x = (a, n)" by (cases x)
  have c: "g2 d p = a" "0 < a" "g2 d (a + 2) = n" "chain d a fl" "4 \<le> n" "asc (a + n) fl" using Cons.prems(1,2) x by auto
  have cv: "{a..<a + n} \<subseteq> {..<u}" "cover fl \<subseteq> {..<u}" using Cons.prems(4) x by auto
  have au: "a + n \<le> u" using interval_bound [OF cv(1)] c(5) by simp
  have rd: "get2byte d a = Some (g2 d a)" "get2byte d (a + 2) = Some n" using c au Cons.prems(5) by (simp_all add: buf_simps)
  have sp: "spaced fl" "\<not> (g2 d a > 0 \<and> g2 d a \<le> a + n + 3)" using Cons.prems(3) c(4) x by (cases fl; auto)+
  have "init_free bt d (g2 d p) tot = init_free bt d (g2 d a) (tot + n)"
    using c au rd sp(2) Cons.prems(7) by (subst init_free.simps) auto
  also have "\<dots> = Some (Some (tot + n + total_size fl))" by (rule Cons.IH [OF c(4,6) sp(1) cv(2)]) (use Cons.prems in auto)
  finally show ?case using x by simp
qed


lemma total_at_least: "\<forall>(a, n) \<in> set cs. 4 \<le> n \<Longrightarrow> 4 * length cs \<le> total_size cs"
  by (induction cs) auto

lemma InitPage_law:
  assumes I: "page_inv bt p cs fl" and g: "geometry bt" and q: "\<not> isInit q" "hdrOffset q = hdrOffset p" "aData q = aData p"
  shows "sqlite3BtreeInitPage bt q = Some (SQLITE_OK, p)"
proof -
  note J = page_invD [OF I]
  define d hdr u where "d = aData p" and "hdr = hdrOffset p" and "u = usableSize bt"
  note C = cells_atD [OF J(1), folded d_def hdr_def u_def]
  have S: "space u hdr (cellOffset p + 2 * length cs) d cs fl" using C(1) by simp
  note Sp = spaceD [OF S]
  define f where "f = d ! hdr"
  define tp where "tp = g2 d (hdr + 5)"
  have dp: "decodeFlags bt p f = (SQLITE_OK, p)" using J(3) by (simp add: f_def d_def hdr_def)
  obtain q' where q': "decodeFlags bt q f = (SQLITE_OK, q')"
    and qf: "q' = q\<lparr>intKey := intKey p, leaf := leaf p, hasData := hasData p, childPtrSize := childPtrSize p, maxLocal := maxLocal p, minLocal := minLocal p\<rparr>"
    using decodeFlags_det [OF dp, of q] by blast
  note K = decodeFlags_keep [OF q']
  define q2 where "q2 = q'\<lparr>cellOffset := cellOffset p, nCell := length cs, maskPage := pageSize bt - 1, aOvfl := []\<rparr>"
  have eq: "q2\<lparr>nFree := nFree p, isInit := True\<rparr> = p"
    using K q C(3) J(5-7) qf by (simp add: q2_def)
  have szs: "4 * length cs \<le> total_size cs" using Sp(12) by (intro total_at_least) fast
  have mx: "\<not> length cs > MX_CELL bt"
    using szs J(2) C(2) geometryD(1) [OF g] unfolding MX_CELL_def by (simp add: u_def)
  have rd: "peek d hdr = Some f" "get2byte d (hdr + 5) = Some tp" "get2byte d (hdr + 3) = Some (length cs)"
    "get2byte d (hdr + 1) = Some (g2 d (hdr + 1))" "peek d (hdr + 7) = Some (d ! (hdr + 7))"
    using Sp(1,3-5) C(4) by (simp_all add: buf_simps f_def tp_def)
  have fr: "init_free bt d (g2 d (hdr + 1)) 0 = Some (Some (total_size fl))"
  proof -
    have "0 < u" using Sp(3-5) by linarith
    from init_free_law [OF Sp(6-9,1) this u_def [symmetric], of 0] show ?thesis by simp
  qed
  have tot: "int (unat (d ! (hdr + 7))) + int tp - int (cellOffset p + 2 * length cs) + int (total_size fl) = int (unat (nFree p))"
  proof -
    have "unat (d ! (hdr + 7)) + tp + total_size fl = unat (nFree p) + (cellOffset p + 2 * length cs)"
      using Sp(4,5,13) J(2) unfolding tp_def u_def by linarith
    then show ?thesis by linarith
  qed
  have nu: "\<not> int (unat (nFree p)) \<ge> int u" using J(2) C(2) unfolding u_def by linarith
  have "word_of_int (int (unat (nFree p))) = nFree p" by simp
  then show ?thesis
    unfolding sqlite3BtreeInitPage_def Let_def q(2,3) d_def [symmetric] hdr_def [symmetric] u_def [symmetric]
    using q(1) rd q' mx fr tot nu eq K(5) J(4) dp decodeFlags_keep(5) [OF dp]
    by (simp add: q2_def hdr_def del: One_nat_def of_nat_add)
qed

end
