(* ===== verification/BtreeList.thy ===== *)
theory BtreeList
  imports BtreeCells
begin

text \<open>
  A page of btree.c as a list of cells: what any program of insertions and removals leaves on a new
  page, pages made by assemblePage, cells that do not fit, and the page read back from its bytes.
\<close>

subsection \<open>Reading the cells of a page\<close>

definition page_cells :: "BtShared \<Rightarrow> MemPage \<Rightarrow> u8 list list option" where
  "page_cells bt p = those (map (\<lambda>i. do {
     a \<leftarrow> findCell p i; n \<leftarrow> cellSizePtr bt p (drop a (aData p)); get_bytes (aData p) a n }) [0..<nCell p])"

lemma those_all: "(\<And>i. i < length xs \<Longrightarrow> f i = Some (xs ! i)) \<Longrightarrow> those (map f [0..<length xs]) = Some xs"
proof (induction xs arbitrary: f)
  case (Cons x xs)
  have "those (map (f \<circ> Suc) [0..<length xs]) = Some xs"
    by (rule Cons.IH) (use Cons.prems [of "Suc i" for i] in simp)
  moreover have "f 0 = Some x" using Cons.prems [of 0] by simp
  moreover have "map f [0..<length (x # xs)] = f 0 # map (f \<circ> Suc) [0..<length xs]"
    by (simp add: upt_conv_Cons map_Suc_upt [symmetric] del: upt_Suc map_Suc_upt)
  ultimately show ?case by simp
qed simp

lemma find_cell_law:
  assumes C: "cells_at bt p cs X fl" and g: "geometry bt" and m: "maskPage p = pageSize bt - 1" and i: "i < length cs"
  shows "findCell p i = Some (fst (cs ! i))"
    "cellSizePtr bt p (drop (fst (cs ! i)) (aData p)) = Some (snd (cs ! i))"
    "get_bytes (aData p) (fst (cs ! i)) (snd (cs ! i)) = Some (contents (aData p) cs ! i)"
proof -
  note D = cells_atD [OF C]
  note Sp = spaceD [OF D(1)]
  obtain a n where an: "cs ! i = (a, n)" by (cases "cs ! i")
  have mem: "(a, n) \<in> set (cs @ X)" using i an nth_mem [OF i] by simp
  note x = Sp(12) [OF mem]
  obtain k where k: "pageSize bt = 2 ^ k" using geometryD(3) [OF g] by blast
  have "a < pageSize bt" using x geometryD(1) [OF g] by linarith
  moreover have "a AND (2 ^ k - 1) = take_bit k a" by (simp only: take_bit_eq_mask mask_eq_exp_minus_1)
  ultimately have "maskPage p AND a = a" using m k by (simp add: and.commute take_bit_nat_eq_self)
  moreover have "get2byte (aData p) (cellOffset p + 2 * i) = Some a"
    using D(5) [OF i] i Sp(1,4,5) an by (simp add: buf_simps)
  ultimately show "findCell p i = Some (fst (cs ! i))" by (simp add: findCell_def an)
  have c: "contents (aData p) cs ! i = take n (drop a (aData p))" using i an by (simp add: contents_def)
  have "contents (aData p) cs ! i \<in> set (contents (aData p) cs)" using i by simp
  then have "cell_ok bt p (take n (drop a (aData p)))" using D(6) c by simp
  from cell_ok_size [OF this, of "drop n (drop a (aData p))"]
  have "cellSizePtr bt p (drop a (aData p)) = Some (length (take n (drop a (aData p))))" by (simp only: append_take_drop_id)
  then show "cellSizePtr bt p (drop (fst (cs ! i)) (aData p)) = Some (snd (cs ! i))" using x Sp(1) by (auto simp: an min_def)
  show "get_bytes (aData p) (fst (cs ! i)) (snd (cs ! i)) = Some (contents (aData p) cs ! i)"
    using x Sp(1) c by (simp add: an buf_simps)
qed

lemma page_cells_law:
  assumes I: "page_inv bt p cs fl" and g: "geometry bt"
  shows "page_cells bt p = Some (contents (aData p) cs)"
proof -
  note J = page_invD [OF I]
  have n: "nCell p = length (contents (aData p) cs)" using cells_atD(3) [OF J(1)] by simp
  show ?thesis unfolding page_cells_def n
    by (rule those_all) (use find_cell_law [OF J(1) g J(5)] in simp)
qed


subsection \<open>A page is a list of cells\<close>

datatype page_op = PInsert nat "u8 list" | PDrop nat

text \<open>What the operations do to the list of the cells, as long as the cells and their pointers fit.\<close>

definition cells_bytes :: "u8 list list \<Rightarrow> nat" where
  "cells_bytes cs = (\<Sum>c \<leftarrow> cs. length c + 2)"

fun list_run :: "(u8 list \<Rightarrow> bool) \<Rightarrow> nat \<Rightarrow> page_op list \<Rightarrow> u8 list list \<Rightarrow> u8 list list option" where
  "list_run ok cap [] cs = Some cs"
| "list_run ok cap (PInsert i c # ops) cs =
     (if i \<le> length cs \<and> ok c \<and> cells_bytes cs + length c + 2 \<le> cap then list_run ok cap ops (take i cs @ c # drop i cs) else None)"
| "list_run ok cap (PDrop i # ops) cs =
     (if i < length cs then list_run ok cap ops (take i cs @ drop (i + 1) cs) else None)"

fun cell_run :: "('p \<Rightarrow> nat \<Rightarrow> u8 list \<Rightarrow> 'p option) \<Rightarrow> ('p \<Rightarrow> nat \<Rightarrow> 'p option) \<Rightarrow> page_op list \<Rightarrow> 'p \<Rightarrow> 'p option" where
  "cell_run ins del [] p = Some p"
| "cell_run ins del (PInsert i c # ops) p = do { p \<leftarrow> ins p i c; cell_run ins del ops p }"
| "cell_run ins del (PDrop i # ops) p = do { p \<leftarrow> del p i; cell_run ins del ops p }"

lemma cells_bytes_insert: "cells_bytes (take i cs @ c # drop i cs) = cells_bytes cs + length c + 2"
proof -
  have "cells_bytes (take i cs @ drop i cs) = cells_bytes cs" by simp
  then show ?thesis by (simp add: cells_bytes_def del: append_take_drop_id)
qed

lemma cells_bytes_remove: "i < length cs \<Longrightarrow> cells_bytes (take i cs @ drop (i + 1) cs) + length (cs ! i) + 2 = cells_bytes cs"
  using arg_cong [OF list_split_nth [of i cs], of cells_bytes] by (simp add: cells_bytes_def)

text \<open>The interface of a container of cells.\<close>

locale cell_store =
  fixes cells :: "'p \<Rightarrow> u8 list list" and free :: "'p \<Rightarrow> nat" and good :: "'p \<Rightarrow> bool" and fits :: "'p \<Rightarrow> u8 list \<Rightarrow> bool"
    and ins :: "'p \<Rightarrow> nat \<Rightarrow> u8 list \<Rightarrow> 'p option" and del :: "'p \<Rightarrow> nat \<Rightarrow> 'p option"
  assumes ins_law: "good p \<Longrightarrow> i \<le> length (cells p) \<Longrightarrow> fits p c \<Longrightarrow> length c + 2 \<le> free p \<Longrightarrow>
      \<exists>p'. ins p i c = Some p' \<and> good p' \<and> cells p' = take i (cells p) @ c # drop i (cells p) \<and> free p' = free p - (length c + 2) \<and> fits p' = fits p"
    and del_law: "good p \<Longrightarrow> i < length (cells p) \<Longrightarrow>
      \<exists>p'. del p i = Some p' \<and> good p' \<and> cells p' = take i (cells p) @ drop (i + 1) (cells p) \<and> free p' = free p + length (cells p ! i) + 2 \<and> fits p' = fits p"
begin

lemma run_law:
  "good p \<Longrightarrow> list_run (fits p) (free p + cells_bytes (cells p)) ops (cells p) = Some cs \<Longrightarrow>
    \<exists>p'. cell_run ins del ops p = Some p' \<and> good p' \<and> cells p' = cs \<and> free p' + cells_bytes cs = free p + cells_bytes (cells p)"
proof (induction ops arbitrary: p)
  case (Cons op ops)
  show ?case
  proof (cases op)
    case (PInsert i c)
    then have h: "i \<le> length (cells p)" "fits p c" "length c + 2 \<le> free p"
      and r: "list_run (fits p) (free p + cells_bytes (cells p)) ops (take i (cells p) @ c # drop i (cells p)) = Some cs"
      using Cons.prems(2) by (auto split: if_splits)
    obtain p' where p': "ins p i c = Some p'" "good p'" "cells p' = take i (cells p) @ c # drop i (cells p)" "free p' = free p - (length c + 2)" "fits p' = fits p"
      using ins_law [OF Cons.prems(1) h] by blast
    have f: "free p' + cells_bytes (cells p') = free p + cells_bytes (cells p)" using p'(3,4) h(3) by (simp add: cells_bytes_insert)
    show ?thesis using Cons.IH [OF p'(2), unfolded p'(5) f, unfolded p'(3)] r p'(1) PInsert by simp
  next
    case (PDrop i)
    then have h: "i < length (cells p)"
      and r: "list_run (fits p) (free p + cells_bytes (cells p)) ops (take i (cells p) @ drop (i + 1) (cells p)) = Some cs"
      using Cons.prems(2) by (auto split: if_splits)
    obtain p' where p': "del p i = Some p'" "good p'" "cells p' = take i (cells p) @ drop (i + 1) (cells p)" "free p' = free p + length (cells p ! i) + 2" "fits p' = fits p"
      using del_law [OF Cons.prems(1) h] by blast
    have f: "free p' + cells_bytes (cells p') = free p + cells_bytes (cells p)" using p'(3,4) cells_bytes_remove [OF h] by simp
    show ?thesis using Cons.IH [OF p'(2), unfolded p'(5) f, unfolded p'(3)] r p'(1) PDrop by simp
  qed
qed simp

end

text \<open>The operations as the callers of insertCell and dropCell use them.\<close>

definition page_insert :: "BtShared \<Rightarrow> u8 list \<Rightarrow> MemPage \<Rightarrow> nat \<Rightarrow> u8 list \<Rightarrow> MemPage option" where
  "page_insert bt tmp p i c = do {
     (rc, p) \<leftarrow> insertCell bt tmp SQLITE_OK (\<lambda>_. SQLITE_OK) p i c (length c) None 0;
     if rc = SQLITE_OK then Some p else None }"

definition page_remove :: "BtShared \<Rightarrow> MemPage \<Rightarrow> nat \<Rightarrow> MemPage option" where
  "page_remove bt p i = do {
     a \<leftarrow> findCell p i; sz \<leftarrow> cellSizePtr bt p (drop a (aData p));
     (rc, p) \<leftarrow> dropCell bt p i sz;
     if rc = SQLITE_OK then Some p else None }"

definition page_good :: "BtShared \<Rightarrow> u8 list \<Rightarrow> MemPage \<Rightarrow> bool" where
  "page_good bt tmp p \<longleftrightarrow> geometry bt \<and> usableSize bt \<le> length tmp \<and> (\<exists>cs fl. page_inv bt p cs fl)"

interpretation page: cell_store "\<lambda>p. the (page_cells bt p)" "\<lambda>p. unat (nFree p)" "page_good bt tmp" "cell_ok bt" "page_insert bt tmp" "page_remove bt" for bt tmp
proof
  fix p i c
  assume "page_good bt tmp p" and i: "i \<le> length (the (page_cells bt p))" and c: "cell_ok bt p c" "length c + 2 \<le> unat (nFree p)"
  then obtain cs fl where g: "geometry bt" "usableSize bt \<le> length tmp" and I: "page_inv bt p cs fl" by (auto simp: page_good_def)
  note pc = page_cells_law [OF I g(1)]
  have il: "i \<le> length cs" using i pc by simp
  obtain p' cs' fl' where p': "insertCell bt tmp SQLITE_OK (\<lambda>_. SQLITE_OK) p i c (length c) None 0 = Some (SQLITE_OK, p')" "same_page p p'" "page_inv bt p' cs' fl'"
    "contents (aData p') cs' = take i (contents (aData p) cs) @ c # drop i (contents (aData p) cs)" "total_size cs' = length c + total_size cs"
    using insertCell_law [OF I g(2) _ c il, of "\<lambda>_. SQLITE_OK" "[]" None] by auto
  have l: "length cs' = length cs + 1" using arg_cong [OF p'(4), of length] il by simp
  have "unat (nFree p') = unat (nFree p) - (length c + 2)"
    using page_invD(2) [OF I] page_invD(2) [OF p'(3)] same_page_fields(4) [OF p'(2)] l p'(5) by simp
  moreover have "cell_ok bt p' = cell_ok bt p" using same_page_fields(7) [OF p'(2)] by auto
  moreover have "page_insert bt tmp p i c = Some p'" using p'(1) by (simp add: page_insert_def)
  moreover have "page_good bt tmp p'" using g p'(3) by (auto simp: page_good_def)
  ultimately show "\<exists>p'. page_insert bt tmp p i c = Some p' \<and> page_good bt tmp p'
      \<and> the (page_cells bt p') = take i (the (page_cells bt p)) @ c # drop i (the (page_cells bt p))
      \<and> unat (nFree p') = unat (nFree p) - (length c + 2) \<and> cell_ok bt p' = cell_ok bt p"
    using page_cells_law [OF p'(3) g(1)] p'(4) pc by simp
next
  fix p i
  assume "page_good bt tmp p" and i: "i < length (the (page_cells bt p))"
  then obtain cs fl where g: "geometry bt" "usableSize bt \<le> length tmp" and I: "page_inv bt p cs fl" by (auto simp: page_good_def)
  note J = page_invD [OF I]
  note pc = page_cells_law [OF I g(1)]
  have il: "i < length cs" using i pc by simp
  obtain p' fl' where p': "dropCell bt p i (snd (cs ! i)) = Some (SQLITE_OK, p')" "same_page p p'" "page_inv bt p' (take i cs @ drop (i + 1) cs) fl'"
    "contents (aData p') (take i cs @ drop (i + 1) cs) = take i (contents (aData p) cs) @ drop (i + 1) (contents (aData p) cs)"
    using dropCell_law [OF I il] by blast
  note F = find_cell_law [OF J(1) g(1) J(5) il]
  have "page_remove bt p i = Some p'" using F(1,2) p'(1) by (simp add: page_remove_def)
  moreover have sz: "length (contents (aData p) cs ! i) = snd (cs ! i)"
  proof -
    have e: "take (snd (cs ! i)) (drop (fst (cs ! i)) (aData p)) = contents (aData p) cs ! i" "fst (cs ! i) + snd (cs ! i) \<le> length (aData p)"
      using F(3) by (auto simp: get_bytes_def split: if_splits)
    show ?thesis using e(2) unfolding e(1) [symmetric] by (auto simp: min_def)
  qed
  moreover have "total_size (take i cs @ drop (i + 1) cs) + snd (cs ! i) = total_size cs"
    using arg_cong [OF list_split_nth [OF il], of total_size] by (simp add: split_beta)
  then have "unat (nFree p') = unat (nFree p) + snd (cs ! i) + 2"
    using J(2) page_invD(2) [OF p'(3)] same_page_fields(4) [OF p'(2)] il by simp
  moreover have "cell_ok bt p' = cell_ok bt p" using same_page_fields(7) [OF p'(2)] by auto
  moreover have "page_good bt tmp p'" using g p'(3) by (auto simp: page_good_def)
  ultimately show "\<exists>p'. page_remove bt p i = Some p' \<and> page_good bt tmp p'
      \<and> the (page_cells bt p') = take i (the (page_cells bt p)) @ drop (i + 1) (the (page_cells bt p))
      \<and> unat (nFree p') = unat (nFree p) + length (the (page_cells bt p) ! i) + 2 \<and> cell_ok bt p' = cell_ok bt p"
    using page_cells_law [OF p'(3) g(1)] p'(4) pc by simp
qed


subsection \<open>Assembling a page\<close>

fun lay :: "nat \<Rightarrow> u8 list list \<Rightarrow> block list" where
  "lay a [] = []"
| "lay a (c # cs) = (a, length c) # lay (a + length c) cs"

lemma lay_facts: "length (lay a cs) = length cs" "total_size (lay a cs) = (\<Sum>c \<leftarrow> cs. length c)"
  by (induction a cs rule: lay.induct) auto

lemma lay_cover: "cover (lay a cs) = {a..<a + (\<Sum>c \<leftarrow> cs. length c)} \<and> apart (lay a cs)"
proof (induction a cs rule: lay.induct)
  case (2 a c cs)
  have "{a..<a + length c} \<union> {a + length c..<a + length c + (\<Sum>c \<leftarrow> cs. length c)} = {a..<a + (length c + (\<Sum>c \<leftarrow> cs. length c))}" by auto
  with 2 show ?case by auto
qed simp

lemma lay_sizes: "(b, n) \<in> set (lay a cs) \<Longrightarrow> a \<le> b \<and> (\<exists>c \<in> set cs. n = length c) \<and> b + n \<le> a + (\<Sum>c \<leftarrow> cs. length c)"
  by (induction a cs rule: lay.induct) fastforce+

lemma assemble_loop_law:
  "cp + 2 * length cs \<le> cb \<Longrightarrow> cb + (\<Sum>c \<leftarrow> cs. length c) \<le> length d \<Longrightarrow> cb + (\<Sum>c \<leftarrow> cs. length c) < 65536 \<Longrightarrow>
    \<forall>c \<in> set cs. 0 < length c \<Longrightarrow>
    \<exists>d'. assemble_loop d cp cb cs = Some d' \<and> length d' = length d
      \<and> (\<forall>k < length cs. g2 d' (cp + 2 * k) = fst (lay cb cs ! k)) \<and> contents d' (lay cb cs) = cs
      \<and> (\<forall>j < length d. \<not> (cp \<le> j \<and> j < cp + 2 * length cs) \<longrightarrow> \<not> (cb \<le> j \<and> j < cb + (\<Sum>c \<leftarrow> cs. length c)) \<longrightarrow> d' ! j = d ! j)"
proof (induction cs arbitrary: d cp cb)
  case (Cons c cs)
  define d1 d2 where "d1 = p2 d cp cb" and "d2 = pb d1 cb c"
  have b: "cb + length c \<le> length d" "cp + 2 \<le> cb" "0 < length c" using Cons.prems by auto
  have len: "length d1 = length d" "length d2 = length d" using b by (simp_all add: d1_def d2_def)
  have w: "put2byte d cp cb = Some d1" "put_bytes d1 cb c = Some d2" using b by (simp_all add: buf_simps d1_def d2_def)
  have n2: "d2 ! j = d ! j" if "j \<notin> {cp, cp + 1}" "j \<notin> {cb..<cb + length c}" "j < length d" for j
    using that b len by (auto simp: d2_def nth_pb d1_def nth_p2)
  have "\<exists>d'. assemble_loop d2 (cp + 2) (cb + length c) cs = Some d' \<and> length d' = length d2
      \<and> (\<forall>k < length cs. g2 d' (cp + 2 + 2 * k) = fst (lay (cb + length c) cs ! k)) \<and> contents d' (lay (cb + length c) cs) = cs
      \<and> (\<forall>j < length d2. \<not> (cp + 2 \<le> j \<and> j < cp + 2 + 2 * length cs) \<longrightarrow>
          \<not> (cb + length c \<le> j \<and> j < cb + length c + (\<Sum>c \<leftarrow> cs. length c)) \<longrightarrow> d' ! j = d2 ! j)"
    by (rule Cons.IH) (use Cons.prems len in auto)
  then obtain d' where d': "assemble_loop d2 (cp + 2) (cb + length c) cs = Some d'" "length d' = length d2"
    "\<And>k. k < length cs \<Longrightarrow> g2 d' (cp + 2 + 2 * k) = fst (lay (cb + length c) cs ! k)" "contents d' (lay (cb + length c) cs) = cs"
    "\<And>j. j < length d2 \<Longrightarrow> \<not> (cp + 2 \<le> j \<and> j < cp + 2 + 2 * length cs) \<Longrightarrow>
       \<not> (cb + length c \<le> j \<and> j < cb + length c + (\<Sum>c \<leftarrow> cs. length c)) \<Longrightarrow> d' ! j = d2 ! j" by blast
  have p: "g2 d' cp = cb"
  proof -
    have "g2 d' cp = g2 d2 cp" using b len by (intro g2_cong d'(5)) auto
    also have "\<dots> = g2 d1 cp" using b len unfolding d2_def by (intro g2_cong) (simp_all add: nth_pb)
    also have "\<dots> = cb" using b Cons.prems(3) unfolding d1_def by (intro g2_p2) auto
    finally show ?thesis .
  qed
  have c0: "take (length c) (drop cb d') = c"
  proof -
    have "take (length c) (drop cb d') = take (length c) (drop cb d2)"
      by (rule take_drop_cong) (use b len d'(2) Cons.prems(1) in \<open>auto intro!: d'(5)\<close>)
    also have "\<dots> = c" unfolding d2_def using b len by (intro take_drop_pb) simp
    finally show ?thesis .
  qed
  have pk: "g2 d' (cp + 2 * k) = fst (lay cb (c # cs) ! k)" if "k < length (c # cs)" for k
  proof (cases k)
    case 0
    then show ?thesis using p by simp
  next
    case (Suc m)
    then show ?thesis using d'(3) [of m] that by (simp add: add.assoc [symmetric])
  qed
  have "d' ! j = d ! j" if "j < length d" "\<not> (cp \<le> j \<and> j < cp + 2 * length (c # cs))" "\<not> (cb \<le> j \<and> j < cb + (\<Sum>c \<leftarrow> c # cs. length c))" for j
  proof -
    have "d' ! j = d2 ! j" using that len by (intro d'(5)) auto
    also have "\<dots> = d ! j" using that by (intro n2) auto
    finally show ?thesis .
  qed
  moreover have "assemble_loop d cp cb (c # cs) = Some d'" using w d'(1) by simp
  ultimately show ?case using pk c0 d'(2,4) len by (intro exI [of _ d']) simp
qed simp

lemma cells_bytes_alt: "cells_bytes cs = (\<Sum>c \<leftarrow> cs. length c) + 2 * length cs"
  unfolding cells_bytes_def by (induction cs) auto

lemma total_contents: "page_inv bt p cs fl \<Longrightarrow> total_size cs = (\<Sum>c \<leftarrow> contents (aData p) cs. length c)"
proof -
  assume I: "page_inv bt p cs fl"
  note Sp = spaceD [OF cells_atD(1) [OF page_invD(1) [OF I]]]
  have "n = length (take n (drop a (aData p)))" if "(a, n) \<in> set cs" for a n
    using Sp(12) [of a n] that Sp(1) by (auto simp: min_def)
  then show ?thesis unfolding contents_def map_map by (intro arg_cong [of _ _ sum_list] map_cong) auto
qed

lemma assemblePage_law:
  assumes I: "page_inv bt p [] []" and tp: "g2 (aData p) (hdrOffset p + 5) = usableSize bt"
    and ok: "\<forall>c \<in> set cs. cell_ok bt p c" and room: "cells_bytes cs \<le> unat (nFree p)"
  shows "\<exists>p' cs'. assemblePage bt tmp p cs = Some p' \<and> same_page p p' \<and> page_inv bt p' cs' [] \<and> contents (aData p') cs' = cs"
proof (cases "cs = []")
  case True
  note C = cells_atD [OF page_invD(1) [OF I]]
  have "hdrOffset p + 4 < length (aData p)" using spaceD(1,3-5) [OF C(1)] by simp
  moreover have z: "aData p ! (hdrOffset p + 3) = 0" "aData p ! (hdrOffset p + 3 + 1) = 0"
    using C(4) by (simp_all add: g2_def unat_eq_0)
  have "p2 (aData p) (hdrOffset p + 3) 0 = aData p"
    using list_update_id [of "aData p" "hdrOffset p + 3", unfolded z] list_update_id [of "aData p" "hdrOffset p + 3 + 1", unfolded z]
    by (simp add: p2_def)
  ultimately have "assemblePage bt tmp p [] = Some p" using C(3) by (simp add: assemblePage_def buf_simps)
  then show ?thesis using True I by (intro exI [of _ p] exI [of _ "[]"]) simp
next
  case False
  note J = page_invD [OF I]
  define d u hdr co where "d = aData p" and "u = usableSize bt" and "hdr = hdrOffset p" and "co = cellOffset p"
  define tot where "tot = (\<Sum>c \<leftarrow> cs. length c)"
  define n where "n = length cs"
  note C = cells_atD [OF J(1), folded d_def u_def hdr_def co_def]
  have S: "space u hdr co d [] []" using C(1) by simp
  note Sp = spaceD [OF S]
  have tu: "g2 d (hdr + 5) = u" using tp by (simp add: d_def hdr_def u_def)
  have fits: "co + 2 * n + tot \<le> u"
    using room J(2) unfolding cells_bytes_alt tot_def n_def u_def co_def by simp
  have c4: "\<forall>c \<in> set cs. 4 \<le> length c" using ok by (simp add: cell_ok_def)
  have n: "0 < n" using False by (simp add: n_def)
  have t4: "0 < tot" using False c4 by (cases cs) (auto simp: tot_def)
  have hl: "hdr + 8 \<le> co" using C(2) .
  define d0 d1 where "d0 = p2 d (hdr + 3) n" and "d1 = p2 d0 (hdr + 5) (u - tot)"
  have len: "length d0 = length d" "length d1 = length d" by (simp_all add: d0_def d1_def)
  have n0: "d0 ! j = d ! j" if "j \<notin> {hdr + 3, hdr + 4}" for j using that by (simp add: d0_def p2_def)
  have n1: "d1 ! j = d0 ! j" if "j \<notin> {hdr + 5, hdr + 6}" for j using that by (simp add: d1_def p2_def)
  have z: "g2 d (hdr + 1) = 0" "d ! (hdr + 7) = 0" using Sp(6,13) tu by (simp_all add: unat_eq_0)
  have r: "peek d0 (hdr + 7) = Some 0" "get2byte d0 (hdr + 1) = Some 0" "get2byte d0 (hdr + 5) = Some u" "get2byte d0 (hdr + 3) = Some n"
  proof -
    have "g2 d0 (hdr + 1) = g2 d (hdr + 1)" "g2 d0 (hdr + 5) = g2 d (hdr + 5)" by (intro g2_cong n0; simp)+
    moreover have "g2 d0 (hdr + 3) = n" unfolding d0_def using hl fits Sp(1,2) by (intro g2_p2) auto
    ultimately show "peek d0 (hdr + 7) = Some 0" "get2byte d0 (hdr + 1) = Some 0" "get2byte d0 (hdr + 5) = Some u" "get2byte d0 (hdr + 3) = Some n"
      using z tu hl fits Sp(1) len by (simp_all add: buf_simps n0)
  qed
  define q where "q = p\<lparr>nFree := nFree p - word_of_nat tot, aData := d1\<rparr>"
  have alloc: "allocateSpace bt tmp (p\<lparr>aData := d0\<rparr>) tot = Some (u - tot, q)"
  proof -
    have "alloc_search d0 (hdr + 1) tot = Some None" using r(2) by (subst alloc_search.simps) simp
    moreover have "put2byte d0 (hdr + 5) (u - tot) = Some d1" using hl fits Sp(1) len by (simp add: buf_simps d1_def)
    moreover have "\<not> int (co + 2 * n) > int u - int tot" "\<not> u < tot" using fits by simp_all
    ultimately show ?thesis
      unfolding allocateSpace_def Let_def using r by (simp add: hdr_def [symmetric] co_def [symmetric] q_def del: One_nat_def of_nat_add of_nat_mult)
  qed
  obtain d2 where d2: "assemble_loop d1 co (u - tot) cs = Some d2" "length d2 = length d1"
    "\<And>k. k < length cs \<Longrightarrow> g2 d2 (co + 2 * k) = fst (lay (u - tot) cs ! k)" "contents d2 (lay (u - tot) cs) = cs"
    "\<And>j. j < length d1 \<Longrightarrow> \<not> (co \<le> j \<and> j < co + 2 * n) \<Longrightarrow> \<not> (u - tot \<le> j \<and> j < u) \<Longrightarrow> d2 ! j = d1 ! j"
  proof -
    have e: "u - tot + (\<Sum>c \<leftarrow> cs. length c) = u" using fits by (simp add: tot_def)
    have "\<forall>c \<in> set cs. 0 < length c" using c4 by fastforce
    then have "\<exists>d'. assemble_loop d1 co (u - tot) cs = Some d' \<and> length d' = length d1
      \<and> (\<forall>k < length cs. g2 d' (co + 2 * k) = fst (lay (u - tot) cs ! k)) \<and> contents d' (lay (u - tot) cs) = cs
      \<and> (\<forall>j < length d1. \<not> (co \<le> j \<and> j < co + 2 * length cs) \<longrightarrow> \<not> (u - tot \<le> j \<and> j < u) \<longrightarrow> d' ! j = d1 ! j)"
      using assemble_loop_law [of co cs "u - tot" d1, unfolded e] fits Sp(1,2) len unfolding n_def by simp
    then show thesis using that unfolding n_def by blast
  qed
  define p' where "p' = p\<lparr>nFree := nFree p - word_of_nat tot - word_of_nat (2 * n), nCell := n, aData := d2\<rparr>"
  have run: "assemblePage bt tmp p cs = Some p'"
  proof -
    have "put2byte d (hdr + 3) n = Some d0" using hl fits Sp(1) by (simp add: buf_simps d0_def)
    moreover have "aData q = d1" "cellOffset q = co" by (simp_all add: q_def co_def)
    ultimately show ?thesis using n alloc d2(1) unfolding assemblePage_def Let_def
      by (simp add: d_def [symmetric] hdr_def [symmetric] tot_def [symmetric] n_def [symmetric] p'_def q_def del: of_nat_mult)
  qed
  have sp: "same_page p p'" by (simp add: same_page_def p'_def)
  have low: "d2 ! j = d1 ! j" if "j < co" for j using that fits Sp(1) len t4 by (intro d2(5)) auto
  have h: "g2 d2 (hdr + 5) = u - tot" "g2 d2 (hdr + 1) = 0" "d2 ! (hdr + 7) = 0" "g2 d2 (hdr + 3) = n" "d2 ! hdr = d ! hdr"
  proof -
    have "g2 d2 (hdr + 5) = g2 d1 (hdr + 5)" using hl by (intro g2_cong low) auto
    also have "\<dots> = u - tot" unfolding d1_def using hl fits Sp(1,2) len by (intro g2_p2) auto
    finally show "g2 d2 (hdr + 5) = u - tot" .
    have "g2 d2 (hdr + 1) = g2 d (hdr + 1)" using hl by (intro g2_cong) (simp_all add: low n1 n0)
    then show "g2 d2 (hdr + 1) = 0" using z by simp
    show "d2 ! (hdr + 7) = 0" using z hl by (simp add: low n1 n0)
    have "g2 d2 (hdr + 3) = g2 d0 (hdr + 3)" using hl by (intro g2_cong) (simp_all add: low n1)
    also have "\<dots> = n" unfolding d0_def using hl fits Sp(1,2) by (intro g2_p2) auto
    finally show "g2 d2 (hdr + 3) = n" .
    show "d2 ! hdr = d ! hdr" using hl by (simp add: low n1 n0)
  qed
  have lc: "cover (lay (u - tot) cs) = {u - tot..<u}" "apart (lay (u - tot) cs)" using lay_cover [of "u - tot" cs] fits by (simp_all add: tot_def)
  have S2: "space u hdr (co + 2 * n) d2 (lay (u - tot) cs @ []) []"
  proof (rule spaceI)
    show "4 \<le> k \<and> g2 d2 (hdr + 5) \<le> a \<and> a + k \<le> u" if "(a, k) \<in> set (lay (u - tot) cs @ [])" for a k
      using lay_sizes [of a k "u - tot" cs] that c4 h fits by (auto simp: tot_def)
  qed (use h lc len d2(2) fits hl Sp(1,2) lay_facts(2) [of "u - tot" cs] in \<open>simp_all add: tot_def\<close>)
  have "page_inv bt p' (lay (u - tot) cs) []"
  proof (rule page_inv_step [OF I sp])
    have "cell_ok bt p' c" if "c \<in> set cs" for c using that ok same_page_fields(7) [OF sp] by simp
    moreover have "hdrOffset p' = hdr" "cellOffset p' = co" "nCell p' = n" "aData p' = d2" by (simp_all add: p'_def hdr_def co_def)
    ultimately show "cells_at bt p' (lay (u - tot) cs) [] []"
      using S2 hl h(4) d2(3,4) unfolding cells_at_def by (simp add: lay_facts(1) u_def [symmetric] n_def)
    have "unat (nFree p') = unat (nFree p) - tot - 2 * n"
    proof -
      have f: "unat (nFree p) = u - co" "u < 2 ^ 16" using J(2) Sp(2) by (simp_all add: u_def co_def)
      then have "unat (nFree p - word_of_nat tot) = unat (nFree p) - tot"
        using fits by (simp add: unat_sub word_le_nat_alt unsigned_of_nat take_bit_nat_eq_self)
      moreover have "unat (word_of_nat (2 * n) :: u16) = 2 * n"
        using fits f take_bit_nat_eq_self [of "2 * n" 16] by (simp add: unsigned_of_nat del: of_nat_mult)
      ultimately show ?thesis using fits f by (simp add: p'_def unat_sub word_le_nat_alt del: of_nat_mult)
    qed
    then show "unat (nFree p') + cellOffset p + 2 * length (lay (u - tot) cs) + total_size (lay (u - tot) cs) = usableSize bt"
      using J(2) fits unfolding lay_facts tot_def [symmetric] n_def [symmetric] by (simp add: u_def co_def)
    show "aData p' ! hdrOffset p = aData p ! hdrOffset p" using h(5) by (simp add: p'_def hdr_def d_def)
  qed
  then show ?thesis using run sp d2(4) by (intro exI [of _ p'] exI [of _ "lay (u - tot) cs"]) (simp add: p'_def)
qed


subsection \<open>Cells that do not fit\<close>

fun ovfl_cells :: "(u8 list \<times> nat) list \<Rightarrow> u8 list list \<Rightarrow> u8 list list" where
  "ovfl_cells [] cs = cs"
| "ovfl_cells ((c, i) # os) cs = ovfl_cells os (take i cs @ c # drop i cs)"

fun ovfl_valid :: "(u8 list \<times> nat) list \<Rightarrow> nat \<Rightarrow> bool" where
  "ovfl_valid [] n \<longleftrightarrow> True"
| "ovfl_valid ((c, i) # os) n \<longleftrightarrow> i \<le> n \<and> ovfl_valid os (n + 1)"

lemma ovfl_cells_snoc: "ovfl_cells (os @ [(c, i)]) cs = take i (ovfl_cells os cs) @ c # drop i (ovfl_cells os cs)"
  by (induction os cs rule: ovfl_cells.induct) simp_all

lemma ovfl_valid_snoc: "ovfl_valid (os @ [(c, i)]) n \<longleftrightarrow> ovfl_valid os n \<and> i \<le> n + length os"
  by (induction os n rule: ovfl_valid.induct) auto

lemmas ovfl_snoc = ovfl_cells_snoc ovfl_valid_snoc

lemma ovfl_length: "length (ovfl_cells os cs) = length cs + length os"
  by (induction os cs rule: ovfl_cells.induct) auto

lemma find_ovfl_law:
  "ovfl_valid os (length cs) \<Longrightarrow> k < length cs + length os \<Longrightarrow>
    (case find_ovfl (rev os) k of Inl c \<Rightarrow> ovfl_cells os cs ! k = c | Inr j \<Rightarrow> j < length cs \<and> ovfl_cells os cs ! k = cs ! j)"
proof (induction os arbitrary: k rule: rev_induct)
  case (snoc x os)
  obtain c i where x: "x = (c, i)" by (cases x)
  let ?L = "ovfl_cells os cs"
  have v: "ovfl_valid os (length cs)" "i \<le> length ?L" using snoc.prems(1) x by (simp_all add: ovfl_snoc ovfl_length)
  have n: "ovfl_cells (os @ [x]) cs ! k = (if k < i then ?L ! k else if k = i then c else ?L ! (k - 1))"
    using v(2) by (simp add: x ovfl_snoc nth_append nth_Cons')
  consider "k < i" | "k = i" | "i < k" by linarith
  then show ?case
  proof cases
    case 1
    then show ?thesis using snoc.IH [OF v(1), of k] v(2) n x by (simp add: ovfl_length split: sum.splits)
  next
    case 2
    then show ?thesis using n x by simp
  next
    case 3
    then have "k - 1 < length cs + length os" using snoc.prems(2) by simp
    from snoc.IH [OF v(1) this] 3 show ?thesis using n x by (auto split: sum.splits)
  qed
qed simp

lemma cell_run_append: "cell_run ins del (ops @ ops') p = Option.bind (cell_run ins del ops p) (cell_run ins del ops')"
proof (induction ops arbitrary: p)
  case (Cons op ops)
  then have "cell_run ins del (ops @ ops') = (\<lambda>p. Option.bind (cell_run ins del ops p) (cell_run ins del ops'))" by auto
  then show ?case by (cases op) simp_all
qed simp

lemma overflow_run:
  "length (aOvfl p) + length os \<le> 5 \<Longrightarrow> aOvfl p \<noteq> [] \<or> os = [] \<or> unat (nFree p) < length (fst (hd os)) + 2 \<Longrightarrow>
    cell_run (page_insert bt tmp) (page_remove bt) (map (\<lambda>(c, i). PInsert i c) os) p
      = Some (p\<lparr>aOvfl := aOvfl p @ os, nFree := if os = [] then nFree p else 0\<rparr>)"
proof (induction os arbitrary: p)
  case (Cons x os)
  obtain c i where x: "x = (c, i)" by (cases x)
  let ?p = "p\<lparr>aOvfl := aOvfl p @ [(c, i)], nFree := 0\<rparr>"
  have "page_insert bt tmp p i c = Some ?p"
    using Cons.prems x by (auto simp: page_insert_def insertCell_def)
  moreover have "cell_run (page_insert bt tmp) (page_remove bt) (map (\<lambda>(c, i). PInsert i c) os) ?p
    = Some (?p\<lparr>aOvfl := aOvfl ?p @ os, nFree := if os = [] then nFree ?p else 0\<rparr>)"
    by (rule Cons.IH) (use Cons.prems x in auto)
  ultimately show ?case using x by simp
qed simp

subsection \<open>Programs on a new page\<close>

definition page_setup :: "BtShared \<Rightarrow> u8 list \<Rightarrow> MemPage \<Rightarrow> u8 \<Rightarrow> bool" where
  "page_setup bt tmp p flags \<longleftrightarrow> geometry bt \<and> usableSize bt \<le> length tmp \<and> usableSize bt \<le> length (aData p)
     \<and> hdrOffset p + 12 \<le> usableSize bt \<and> fst (decodeFlags bt p flags) = SQLITE_OK"

definition page_program :: "BtShared \<Rightarrow> u8 list \<Rightarrow> u8 \<Rightarrow> page_op list \<Rightarrow> MemPage \<Rightarrow> MemPage option" where
  "page_program bt tmp flags ops p = do { p \<leftarrow> zeroPage bt p flags; cell_run (page_insert bt tmp) (page_remove bt) ops p }"

text \<open>The cells that a page with these flags can hold.\<close>

definition new_cell :: "BtShared \<Rightarrow> MemPage \<Rightarrow> u8 \<Rightarrow> u8 list \<Rightarrow> bool" where
  "new_cell bt p flags c \<longleftrightarrow> cell_ok bt (snd (decodeFlags bt p flags)) c"

lemma new_page:
  assumes "page_setup bt tmp p0 flags"
  obtains p where "zeroPage bt p0 flags = Some p" "page_inv bt p [] []" "page_good bt tmp p" "page_cells bt p = Some []"
    "cell_ok bt p = new_cell bt p0 flags" "unat (nFree p) = page_capacity bt p0 flags" "g2 (aData p) (hdrOffset p + 5) = usableSize bt"
proof -
  have s: "geometry bt" "usableSize bt \<le> length tmp" "usableSize bt \<le> length (aData p0)" "hdrOffset p0 + 12 \<le> usableSize bt"
    "fst (decodeFlags bt p0 flags) = SQLITE_OK" using assms by (simp_all add: page_setup_def)
  obtain p where p: "zeroPage bt p0 flags = Some p" "page_inv bt p [] []" "cell_ok bt p = cell_ok bt (snd (decodeFlags bt p0 flags))"
    "unat (nFree p) = page_capacity bt p0 flags" "g2 (aData p) (hdrOffset p + 5) = usableSize bt"
    using zeroPage_law [OF s(1,3,4,5)] by blast
  moreover have "page_good bt tmp p" using s p(2) by (auto simp: page_good_def)
  moreover have "page_cells bt p = Some []" using page_cells_law [OF p(2) s(1)] by simp
  ultimately show thesis using that by (auto simp: new_cell_def fun_eq_iff)
qed

lemma page_program_law:
  assumes S: "page_setup bt tmp p0 flags" and L: "list_run (new_cell bt p0 flags) (page_capacity bt p0 flags) ops [] = Some cs"
  obtains p where "page_program bt tmp flags ops p0 = Some p" "page_good bt tmp p" "page_cells bt p = Some cs"
    "unat (nFree p) + cells_bytes cs = page_capacity bt p0 flags"
proof -
  obtain p where p: "zeroPage bt p0 flags = Some p" "page_good bt tmp p" "page_cells bt p = Some []"
    "cell_ok bt p = new_cell bt p0 flags" "unat (nFree p) = page_capacity bt p0 flags" using new_page [OF S] .
  have z: "cells_bytes [] = 0" by (simp add: cells_bytes_def)
  have "list_run (cell_ok bt p) (unat (nFree p) + cells_bytes (the (page_cells bt p))) ops (the (page_cells bt p)) = Some cs"
    using L p z by simp
  from page.run_law [OF p(2) this] obtain p' where p': "cell_run (page_insert bt tmp) (page_remove bt) ops p = Some p'" "page_good bt tmp p'"
    "the (page_cells bt p') = cs" "unat (nFree p') + cells_bytes cs = unat (nFree p)" using p z by auto
  moreover have "page_cells bt p' = Some cs"
  proof -
    have "\<exists>cs. page_cells bt p' = Some cs" using p'(2) page_cells_law by (auto simp: page_good_def)
    then show ?thesis using p'(3) by auto
  qed
  moreover have "page_program bt tmp flags ops p0 = Some p'" using p(1) p'(1) by (simp add: page_program_def)
  ultimately show thesis using that p(5) by simp
qed


text \<open>A page structure before it is initialised.\<close>

definition raw_page :: "u8 list \<Rightarrow> MemPage" where
  "raw_page d = \<lparr>isInit = False, intKey = False, leaf = 0, hasData = False, hdrOffset = 0, childPtrSize = 0, maxLocal = 0, minLocal = 0,
     cellOffset = 0, nFree = 0, nCell = 0, maskPage = 0, aOvfl = [], aData = d\<rparr>"

subsection \<open>Checks of the code that say less than they seem\<close>

text \<open>
  sqlite3BtreeInitPage only refuses free space that is too large: a content area that begins inside
  the pointer array makes the sum negative, and the 16-bit field then holds nearly 64K of free space.
\<close>

lemma init_accepts_negative_space:
  "\<exists>p. sqlite3BtreeInitPage \<lparr>pageSize = 512, usableSize = 512, bt_maxLocal = 100, bt_minLocal = 30, bt_maxLeaf = 400, bt_minLeaf = 30, autoVacuum = False\<rparr>
     (raw_page ([13, 0, 0, 0, 3, 0, 5, 0] @ replicate 504 0)) = Some (SQLITE_OK, p) \<and> unat (nFree p) = 65527"
  by (simp add: sqlite3BtreeInitPage_def raw_page_def decodeFlags_def Let_def ptf_defs codes get2byte_def peek_def MX_CELL_def nth_append init_free.simps)

text \<open>
  allocateSpace takes the bytes off nFree before it calls defragmentPage, whose last check compares
  the space it has collected with nFree: the check fails for every well-formed page, and
  allocateSpace ignores the SQLITE_CORRUPT that it gets.
\<close>

lemma defrag_after_reservation:
  assumes I: "page_inv bt p cs fl" and tmp: "usableSize bt \<le> length tmp" and n: "0 < n" "n \<le> unat (nFree p)"
  shows "\<exists>d. defragmentPage bt tmp (p\<lparr>nFree := nFree p - word_of_nat n\<rparr>) = Some (SQLITE_CORRUPT, p\<lparr>nFree := nFree p - word_of_nat n, aData := d\<rparr>)"
proof -
  have "n < 2 ^ 16" using n unat_less [of "nFree p"] by simp
  then have f: "unat (nFree p - word_of_nat n) = unat (nFree p) - n"
    using n by (simp add: unat_sub word_le_nat_alt unsigned_of_nat take_bit_nat_eq_self)
  have C: "cells_at bt (p\<lparr>nFree := nFree p - word_of_nat n\<rparr>) cs [] fl" using page_invD(1) [OF I] by simp
  have "usableSize bt - total_size cs - (cellOffset p + 2 * length cs) \<noteq> unat (nFree p - word_of_nat n)"
    using f n page_invD(2) [OF I] by simp
  then show ?thesis using defrag_law [OF C tmp] by auto
qed

subsection \<open>Properties\<close>

text \<open>C2: Every program of insertions and removals of cells that the capacity of a page allows runs
  on a new page without an error, and the page then holds exactly the cells of the list that the
  program describes; the free bytes are the capacity less the cells and two bytes for each pointer,
  whatever the fragmentation on the way.\<close>

theorem page_is_list_of_cells:
  assumes "page_setup bt tmp p0 flags" "list_run (new_cell bt p0 flags) (page_capacity bt p0 flags) ops [] = Some cs"
  shows "\<exists>p. page_program bt tmp flags ops p0 = Some p \<and> page_cells bt p = Some cs \<and> unat (nFree p) = page_capacity bt p0 flags - cells_bytes cs"
proof -
  from page_program_law [OF assms] obtain p where "page_program bt tmp flags ops p0 = Some p" "page_cells bt p = Some cs"
    "unat (nFree p) + cells_bytes cs = page_capacity bt p0 flags" .
  then show ?thesis by (intro exI [of _ p]) simp
qed

definition small_bt :: BtShared where
  "small_bt = \<lparr>pageSize = 512, usableSize = 48, bt_maxLocal = 20, bt_minLocal = 8, bt_maxLeaf = 20, bt_minLeaf = 8, autoVacuum = False\<rparr>"

definition small_program :: "page_op list" where
  "small_program = [PInsert 0 [6, 1, 1, 2, 3, 4, 5, 6], PInsert 1 [2, 2, 9, 9], PInsert 0 [3, 3, 7, 7, 7], PDrop 1, PInsert 2 [10, 4, 1, 2, 3, 4, 5, 6, 7, 8, 9, 10]]"

lemma GetVarint_byte: "\<not> bit b 7 \<Longrightarrow> sqlite3GetVarint (b # r) = Some (1, ucast b)"
proof -
  assume b: "\<not> bit b 7"
  then have "b AND 0x7f = b" by (intro bit_eqI8) (simp add: bit_eval)
  with b show ?thesis by (simp add: GetVarint_ref varint_ref.simps peek_def)
qed

lemmas small_defs = small_bt_def raw_page_def page_setup_def geometry_def decodeFlags_def ptf_defs codes page_capacity_def

lemma small_setup: "page_setup small_bt (replicate 48 0) (raw_page (replicate 48 255)) 13"
  by (simp add: small_defs)

lemma small_capacity: "page_capacity small_bt (raw_page d) 13 = 40"
  by (simp add: small_defs)

lemma small_list: "list_run (new_cell small_bt (raw_page (replicate 48 255)) 13) (page_capacity small_bt (raw_page (replicate 48 255)) 13) small_program []
    = Some [[3, 3, 7, 7, 7], [2, 2, 9, 9], [10, 4, 1, 2, 3, 4, 5, 6, 7, 8, 9, 10]]"
  by (simp add: small_defs small_program_def cells_bytes_def new_cell_def cell_ok_def cellSizePtr_def sqlite3BtreeParseCellPtr_def cell_header_def
    getVarint32_trunc GetVarint_byte)


theorem page_is_list_of_cells_witness:
  "\<exists>p. page_program small_bt (replicate 48 0) 13 small_program (raw_page (replicate 48 255)) = Some p
     \<and> page_cells small_bt p = Some [[3, 3, 7, 7, 7], [2, 2, 9, 9], [10, 4, 1, 2, 3, 4, 5, 6, 7, 8, 9, 10]] \<and> unat (nFree p) = 13"
  using page_is_list_of_cells [OF small_setup small_list] by (simp add: small_defs cells_bytes_def)

text \<open>C4: The bytes of a page are all its state: initialising another page structure from the bytes
  that such a program leaves gives the very structure the program ended with, with the same flags,
  cell count and free byte count, recomputed from the list of free blocks and the fragments.\<close>

theorem page_image_roundtrip:
  assumes "page_setup bt tmp p0 flags" "list_run (new_cell bt p0 flags) (page_capacity bt p0 flags) ops [] = Some cs" "\<not> isInit q"
  shows "\<exists>p. page_program bt tmp flags ops p0 = Some p
    \<and> sqlite3BtreeInitPage bt (q\<lparr>hdrOffset := hdrOffset p, aData := aData p\<rparr>) = Some (SQLITE_OK, p)"
proof -
  from page_program_law [OF assms(1,2)] obtain p where p: "page_program bt tmp flags ops p0 = Some p" "page_good bt tmp p" .
  then obtain cs' fl where "page_inv bt p cs' fl" "geometry bt" by (auto simp: page_good_def)
  then have "sqlite3BtreeInitPage bt (q\<lparr>hdrOffset := hdrOffset p, aData := aData p\<rparr>) = Some (SQLITE_OK, p)"
    by (rule InitPage_law) (use assms(3) in simp_all)
  with p show ?thesis by blast
qed

theorem page_image_roundtrip_witness:
  "\<exists>p. page_program small_bt (replicate 48 0) 13 small_program (raw_page (replicate 48 255)) = Some p
     \<and> sqlite3BtreeInitPage small_bt (raw_page [] \<lparr>hdrOffset := hdrOffset p, aData := aData p\<rparr>) = Some (SQLITE_OK, p)"
  by (rule page_image_roundtrip [OF small_setup small_list]) (simp add: raw_page_def)

text \<open>C18: Assembling a new page from cells that fit gives exactly these cells in their order, and
  leaves as many free bytes as inserting them one after the other.\<close>

theorem assemblePage_cells:
  assumes "page_setup bt tmp p0 flags" "\<forall>c \<in> set cs. new_cell bt p0 flags c" "cells_bytes cs \<le> page_capacity bt p0 flags"
  shows "\<exists>p p'. zeroPage bt p0 flags = Some p \<and> assemblePage bt tmp p cs = Some p' \<and> page_cells bt p' = Some cs
    \<and> unat (nFree p') = page_capacity bt p0 flags - cells_bytes cs"
proof -
  obtain p where p: "zeroPage bt p0 flags = Some p" "page_inv bt p [] []" "cell_ok bt p = new_cell bt p0 flags"
    "unat (nFree p) = page_capacity bt p0 flags" "g2 (aData p) (hdrOffset p + 5) = usableSize bt" using new_page [OF assms(1)] .
  have g: "geometry bt" using assms(1) by (simp add: page_setup_def)
  have "\<forall>c \<in> set cs. cell_ok bt p c" "cells_bytes cs \<le> unat (nFree p)" using assms p by simp_all
  from assemblePage_law [OF p(2,5) this] obtain p' cs' where p': "assemblePage bt tmp p cs = Some p'" "same_page p p'" "page_inv bt p' cs' []"
    "contents (aData p') cs' = cs" by blast
  have "length cs' = length cs" using arg_cong [OF p'(4), of length] by simp
  then have "unat (nFree p') + cells_bytes cs = unat (nFree p)"
    using page_invD(2) [OF p(2)] page_invD(2) [OF p'(3)] same_page_fields(4) [OF p'(2)] total_contents [OF p'(3)] p'(4)
    unfolding cells_bytes_alt by simp
  then show ?thesis using p p'(1,4) page_cells_law [OF p'(3) g] by (intro exI [of _ p] exI [of _ p']) simp
qed

theorem assemblePage_cells_witness:
  "\<exists>p p'. zeroPage small_bt (raw_page (replicate 48 255)) 13 = Some p \<and> assemblePage small_bt (replicate 48 0) p [[3, 3, 7, 7, 7], [2, 2, 9, 9]] = Some p'
     \<and> page_cells small_bt p' = Some [[3, 3, 7, 7, 7], [2, 2, 9, 9]] \<and> unat (nFree p') = 27"
  using assemblePage_cells [OF small_setup, of "[[3, 3, 7, 7, 7], [2, 2, 9, 9]]"]
  by (simp add: small_defs cells_bytes_def new_cell_def cell_ok_def cellSizePtr_def sqlite3BtreeParseCellPtr_def cell_header_def
    getVarint32_trunc GetVarint_byte)

text \<open>
  C19: Cells that do not fit are kept beside the page. A page accepts up to five of them, in any order of
  their indices: nothing else of the page changes, its bytes included, but that nFree becomes 0.
  findOverflowCell then finds, for every index, the cell that the list has there into which these cells
  were inserted one after the other; so the index of an overflow cell counts the overflow cells that
  were added before it.
\<close>

theorem overflow_cells_are_found:
  assumes "page_setup bt tmp p0 flags" "list_run (new_cell bt p0 flags) (page_capacity bt p0 flags) ops [] = Some cs"
    "page_capacity bt p0 flags < cells_bytes cs + length c + 2" "ovfl_valid ((c, i) # os) (length cs)" "length os \<le> 4"
  shows "\<exists>p q. page_program bt tmp flags ops p0 = Some p \<and> page_cells bt p = Some cs
    \<and> page_program bt tmp flags (ops @ map (\<lambda>(c, i). PInsert i c) ((c, i) # os)) p0 = Some q
    \<and> q = p\<lparr>aOvfl := (c, i) # os, nFree := 0\<rparr> \<and> page_cells bt q = Some cs
    \<and> (\<forall>k < length cs + length os + 1. \<exists>x. findOverflowCell q k = Some (ovfl_cells ((c, i) # os) cs ! k @ x))"
proof -
  from page_program_law [OF assms(1,2)] obtain p where p: "page_program bt tmp flags ops p0 = Some p" "page_good bt tmp p" "page_cells bt p = Some cs"
    "unat (nFree p) + cells_bytes cs = page_capacity bt p0 flags" .
  then obtain B fl where I: "page_inv bt p B fl" "geometry bt" by (auto simp: page_good_def)
  define q where "q = p\<lparr>aOvfl := (c, i) # os, nFree := 0\<rparr>"
  have ov: "aOvfl p = []" by (rule page_invD(7) [OF I(1)])
  have "cell_run (page_insert bt tmp) (page_remove bt) (map (\<lambda>(c, i). PInsert i c) ((c, i) # os)) p = Some q"
    using overflow_run [of p "(c, i) # os" bt tmp] assms(3,5) p(4) ov by (simp add: q_def)
  then have run: "page_program bt tmp flags (ops @ map (\<lambda>(c, i). PInsert i c) ((c, i) # os)) p0 = Some q"
    using p(1) unfolding page_program_def cell_run_append by (auto elim!: bind_SomeE)
  have fc: "findCell q = findCell p" "cellSizePtr bt q = cellSizePtr bt p" "nCell q = nCell p" "aData q = aData p"
    using ParseCell_cong [of q p bt] by (simp_all add: q_def fun_eq_iff findCell_def cellSizePtr_def)
  have pc: "page_cells bt q = Some cs" using p(3) by (simp add: page_cells_def fc)
  have cs: "contents (aData p) B = cs" using page_cells_law [OF I] p(3) by simp
  have "\<exists>x. findOverflowCell q k = Some (ovfl_cells ((c, i) # os) cs ! k @ x)" if k: "k < length cs + length os + 1" for k
  proof -
    have F: "case find_ovfl (rev ((c, i) # os)) k of Inl c' \<Rightarrow> ovfl_cells ((c, i) # os) cs ! k = c'
      | Inr j \<Rightarrow> j < length cs \<and> ovfl_cells ((c, i) # os) cs ! k = cs ! j"
      by (rule find_ovfl_law) (use assms(4) k in simp_all)
    show ?thesis
    proof (cases "find_ovfl (rev ((c, i) # os)) k")
      case (Inl c')
      then show ?thesis using F by (simp add: findOverflowCell_def q_def)
    next
      case (Inr j)
      then have j: "j < length cs" "ovfl_cells ((c, i) # os) cs ! k = cs ! j" using F by simp_all
      then have jB: "j < length B" using cs by auto
      note L = find_cell_law [OF page_invD(1) [OF I(1)] I(2) page_invD(5) [OF I(1)] jB]
      have "cs ! j = take (snd (B ! j)) (drop (fst (B ! j)) (aData p))"
        using L(3) cs by (auto simp: get_bytes_def split: if_splits)
      moreover have "findOverflowCell q k = Some (drop (fst (B ! j)) (aData p))" using Inr L(1) by (simp add: findOverflowCell_def q_def findCell_def)
      ultimately show ?thesis using j(2) append_take_drop_id by metis
    qed
  qed
  then show ?thesis using run pc p(1,3) q_def by blast
qed

theorem overflow_cells_are_found_witness:
  "\<exists>p q. page_program small_bt (replicate 48 0) 13 small_program (raw_page (replicate 48 255)) = Some p
     \<and> page_program small_bt (replicate 48 0) 13 (small_program @ [PInsert 1 (replicate 12 5), PInsert 0 [2, 2, 9, 9]]) (raw_page (replicate 48 255)) = Some q
     \<and> aData q = aData p \<and> page_cells small_bt q = Some [[3, 3, 7, 7, 7], [2, 2, 9, 9], [10, 4, 1, 2, 3, 4, 5, 6, 7, 8, 9, 10]]
     \<and> (\<exists>x. findOverflowCell q 2 = Some (replicate 12 5 @ x))"
proof -
  let ?cs = "[[3, 3, 7, 7, 7], [2, 2, 9, 9], [10, 4, 1, 2, 3, 4, 5, 6, 7, 8, 9, 10]] :: u8 list list" and ?o = "[([2, 2, 9, 9], 0)] :: (u8 list \<times> nat) list"
  have "\<exists>p q. page_program small_bt (replicate 48 0) 13 small_program (raw_page (replicate 48 255)) = Some p \<and> page_cells small_bt p = Some ?cs
    \<and> page_program small_bt (replicate 48 0) 13 (small_program @ map (\<lambda>(c, i). PInsert i c) ((replicate 12 5, 1) # ?o)) (raw_page (replicate 48 255)) = Some q
    \<and> q = p\<lparr>aOvfl := (replicate 12 5, 1) # ?o, nFree := 0\<rparr> \<and> page_cells small_bt q = Some ?cs
    \<and> (\<forall>k < length ?cs + length ?o + 1. \<exists>x. findOverflowCell q k = Some (ovfl_cells ((replicate 12 5, 1) # ?o) ?cs ! k @ x))"
    by (rule overflow_cells_are_found [OF small_setup small_list]) (simp_all add: small_capacity cells_bytes_def)
  then obtain p q where p: "page_program small_bt (replicate 48 0) 13 small_program (raw_page (replicate 48 255)) = Some p"
    "page_program small_bt (replicate 48 0) 13 (small_program @ map (\<lambda>(c, i). PInsert i c) ((replicate 12 5, 1) # ?o)) (raw_page (replicate 48 255)) = Some q"
    "q = p\<lparr>aOvfl := (replicate 12 5, 1) # ?o, nFree := 0\<rparr>" "page_cells small_bt q = Some ?cs"
    "\<exists>x. findOverflowCell q 2 = Some (ovfl_cells ((replicate 12 5, 1) # ?o) ?cs ! 2 @ x)" by (auto simp only: list.size)
  have "aData q = aData p" unfolding p(3) by simp
  then show ?thesis using p(1,2,4,5) by (intro exI [of _ p] exI [of _ q]) simp
qed

text \<open>
  An overflow cell that was added with the index 2 after one with the index 0 comes before the second
  cell of the page, not before the third: the index is not that of a non-overflow cell.
\<close>

lemma overflow_index_is_combined:
  "ovfl_cells [(c, 0), (d, 2)] [a, b, e] = [c, a, d, b, e] \<and> find_ovfl (rev [(c, 0), (d, 2)]) 2 = Inl d"
  by (simp add: numeral_2_eq_2)

end
