(* ===== verification/Rounding.thy ===== *)
theory Rounding
  imports Double TextUtil Complex_Main
begin

text \<open>
  Arithmetic of doubles as rational numbers rounded to 53 significant bits, for the code that
  computes with fractions. The exponents are not bounded, so a result that could leave the range of
  a double is \<open>None\<close> where the code can produce one. The second part is division and conversion of C,
  the third sqlite3AtoF of util.c.
\<close>

subsection \<open>Rounding to doubles\<close>

definition round_even :: "rat \<Rightarrow> int" where
  "round_even q = (let f = \<lfloor>q\<rfloor>; r = q - of_int f in
     if r < 1 / 2 then f else if r > 1 / 2 then f + 1 else if even f then f else f + 1)"

text \<open>The exponent of the leading bit of a positive number.\<close>

definition lead :: "rat \<Rightarrow> int" where
  "lead x = (case quotient_of x of (n, d) \<Rightarrow>
     let k = int (bitlen (nat n)) - int (bitlen (nat d)) in if x < 2 powi k then k - 1 else k)"

definition fl :: "rat \<Rightarrow> rat" where
  "fl x = (if x = 0 then 0 else let u = 2 powi (lead \<bar>x\<bar> - 52) in of_int (round_even (x / u)) * u)"

lemma round_even_error: "\<bar>of_int (round_even q) - q\<bar> \<le> 1 / 2"
proof -
  have "0 \<le> q - of_int \<lfloor>q\<rfloor>" "q - of_int \<lfloor>q\<rfloor> < 1" by linarith+
  then show ?thesis unfolding round_even_def Let_def by (simp add: abs_le_iff; linarith)
qed

lemma round_even_int: "round_even (of_int k) = k"
  by (simp add: round_even_def)

lemma powi_diff: "(2 :: rat) powi (int a - int b) = 2 ^ a / 2 ^ b"
  by (simp add: power_int_diff)

lemma lead_le: "0 < x \<Longrightarrow> 2 powi (lead x) \<le> x"
proof -
  assume x: "0 < x"
  obtain n d where q: "quotient_of x = (n, d)" by fastforce
  have d: "0 < d" using quotient_of_denom_pos [OF q] .
  have xd: "x = of_int n / of_int d" using quotient_of_div [OF q] .
  then have n: "0 < n" using x d by (simp add: zero_less_divide_iff)
  let ?a = "bitlen (nat n)" and ?b = "bitlen (nat d)"
  have bn: "2 ^ (?a - 1) \<le> nat n" "0 < ?a" and bd: "nat d < 2 ^ ?b" "0 < ?b" using bitlen_bounds [of "nat n"] bitlen_bounds [of "nat d"] n d by auto
  have rn: "(2 :: rat) ^ (?a - 1) \<le> of_int n"
  proof -
    have "int (2 ^ (?a - 1)) \<le> int (nat n)" using bn(1) by (simp only: of_nat_le_iff)
    then have "(2 :: int) ^ (?a - 1) \<le> n" using n by simp
    then have "(of_int (2 ^ (?a - 1)) :: rat) \<le> of_int n" by (simp only: of_int_le_iff)
    then show ?thesis by simp
  qed
  have rd: "of_int d \<le> (2 :: rat) ^ ?b"
  proof -
    have "int (nat d) < int (2 ^ ?b)" using bd(1) by (simp only: of_nat_less_iff)
    then have "d \<le> (2 :: int) ^ ?b" using d by simp
    then have "(of_int d :: rat) \<le> of_int (2 ^ ?b)" by (simp only: of_int_le_iff)
    then show ?thesis by simp
  qed
  have "(2 :: rat) powi (int ?a - int ?b - 1) = 2 ^ (?a - 1) / 2 ^ ?b"
  proof -
    have "int ?a - int ?b - 1 = int (?a - 1) - int ?b" using bn(2) by simp
    then show ?thesis by (simp only: powi_diff)
  qed
  also have "\<dots> \<le> of_int n / of_int d" using rn rd d n by (intro frac_le) auto
  finally have "2 powi (int ?a - int ?b - 1) \<le> x" using xd by simp
  then show ?thesis unfolding lead_def q by (auto simp: Let_def)
qed

lemma fl_error: "\<bar>fl x - x\<bar> \<le> \<bar>x\<bar> / 2 ^ 53"
proof (cases "x = 0")
  case False
  define u where "u = (2 :: rat) powi (lead \<bar>x\<bar> - 52)"
  have u0: "0 < u" by (simp add: u_def)
  have "u * 2 ^ 52 = 2 powi (lead \<bar>x\<bar>)" unfolding u_def by (simp add: power_int_diff)
  then have ux: "u \<le> \<bar>x\<bar> / 2 ^ 52" using lead_le [of "\<bar>x\<bar>"] False by (simp add: field_simps)
  have "fl x - x = (of_int (round_even (x / u)) - x / u) * u" using False u0 by (simp add: fl_def Let_def u_def [symmetric] algebra_simps)
  then have "\<bar>fl x - x\<bar> = \<bar>of_int (round_even (x / u)) - x / u\<bar> * u" using u0 by (simp add: abs_mult)
  also have "\<dots> \<le> 1 / 2 * u" using round_even_error [of "x / u"] u0 by (intro mult_right_mono) auto
  also have "\<dots> \<le> \<bar>x\<bar> / 2 ^ 53" using ux by simp
  finally show ?thesis .
qed (simp add: fl_def)

text \<open>Numbers with at most 53 bits are exact.\<close>

lemma fl_exact: "\<bar>k\<bar> < 2 ^ 53 \<Longrightarrow> fl (of_int k / 2 ^ j) = of_int k / 2 ^ j"
proof (cases "k = 0")
  case False
  assume k: "\<bar>k\<bar> < 2 ^ 53"
  let ?x = "of_int k / 2 ^ j :: rat"
  define e where "e = lead \<bar>?x\<bar>"
  have "2 powi e \<le> \<bar>?x\<bar>" unfolding e_def using False by (intro lead_le) simp
  also have "\<dots> < 2 ^ 53 / 2 ^ j"
  proof -
    have "(of_int \<bar>k\<bar> :: rat) < of_int (2 ^ 53)" using k by (simp only: of_int_less_iff)
    then show ?thesis by (simp add: divide_strict_right_mono)
  qed
  also have "\<dots> = 2 powi (53 - int j)" by (simp add: power_int_diff)
  finally have lt: "(2 :: rat) powi e < 2 powi (53 - int j)" .
  have "e < 53 - int j"
  proof (rule ccontr)
    assume "\<not> e < 53 - int j"
    then have "(2 :: rat) powi (53 - int j) \<le> 2 powi e" by (intro power_int_increasing) auto
    with lt show False by simp
  qed
  then obtain i where "52 - e - int j = int i" using zero_le_imp_eq_int [of "52 - e - int j"] by auto
  then have i: "52 - e = int j + int i" by simp
  define u where "u = (2 :: rat) powi (e - 52)"
  have u0: "u \<noteq> 0" by (simp add: u_def)
  have "?x / u = of_int (k * 2 ^ i)"
  proof -
    have "1 / u = 2 powi (52 - e)" unfolding u_def by (simp add: power_int_diff)
    also have "\<dots> = 2 ^ j * 2 ^ i" unfolding i by (simp add: power_int_add)
    finally have "?x * (1 / u) = of_int k * 2 ^ i" by simp
    then show ?thesis by simp
  qed
  then have "round_even (?x / u) = k * 2 ^ i" by (simp only: round_even_int)
  moreover have "of_int (k * 2 ^ i) * u = ?x" using \<open>?x / u = of_int (k * 2 ^ i)\<close> u0 by (simp add: field_simps)
  moreover have "fl ?x = of_int (round_even (?x / u)) * u" using False by (simp add: fl_def Let_def u_def e_def)
  ultimately show ?thesis by simp
qed (simp add: fl_def)

lemma fl_int: "\<bar>k\<bar> < 2 ^ 53 \<Longrightarrow> fl (of_int k) = of_int k"
  using fl_exact [of k 0] by simp

text \<open>Where a rounded number lies between two integers.\<close>

lemma fl_floor:
  assumes "0 \<le> k" "of_int k + x / 2 ^ 53 \<le> x" "x + x / 2 ^ 53 < of_int k + 1"
  shows "\<lfloor>fl x\<rfloor> = k"
proof -
  have "0 \<le> (of_int k :: rat)" using assms(1) by simp
  then have "0 \<le> x" using assms(2) by (simp add: field_simps)
  then have "\<bar>fl x - x\<bar> \<le> x / 2 ^ 53" using fl_error [of x] by simp
  then show ?thesis using assms by (intro floor_unique) linarith+
qed


subsection \<open>Integers\<close>

text \<open>Division and remainder of C, which round towards zero, and the conversions from double.\<close>

definition cdiv :: "int \<Rightarrow> int \<Rightarrow> int" where
  "cdiv a b = sgn a * sgn b * (\<bar>a\<bar> div \<bar>b\<bar>)"

definition crem :: "int \<Rightarrow> int \<Rightarrow> int" where
  "crem a b = a - b * cdiv a b"

definition ctrunc :: "rat \<Rightarrow> int" where
  "ctrunc x = (if 0 \<le> x then \<lfloor>x\<rfloor> else \<lceil>x\<rceil>)"

definition in_int :: "int \<Rightarrow> int option" where
  "in_int k = (if - (2 ^ 31) \<le> k \<and> k < 2 ^ 31 then Some k else None)"

definition in_i64 :: "int \<Rightarrow> int option" where
  "in_i64 k = (if - (2 ^ 63) \<le> k \<and> k < 2 ^ 63 then Some k else None)"

lemma in_int_Some [simp]: "- (2 ^ 31) \<le> k \<Longrightarrow> k < 2 ^ 31 \<Longrightarrow> in_int k = Some k"
  by (simp add: in_int_def)

lemma in_i64_Some [simp]: "- (2 ^ 63) \<le> k \<Longrightarrow> k < 2 ^ 63 \<Longrightarrow> in_i64 k = Some k"
  by (simp add: in_i64_def)

lemma cdiv_pos: "0 \<le> a \<Longrightarrow> 0 < b \<Longrightarrow> cdiv a b = a div b"
  by (cases "a = 0") (simp_all add: cdiv_def)

lemma cdiv_neg: "a < 0 \<Longrightarrow> 0 < b \<Longrightarrow> cdiv a b = - ((- a) div b)"
  by (simp add: cdiv_def)

lemma crem_pos: "0 \<le> a \<Longrightarrow> 0 < b \<Longrightarrow> crem a b = a mod b"
  by (simp add: crem_def cdiv_pos minus_mult_div_eq_mod)

lemma ctrunc_int [simp]: "ctrunc (of_int k) = k"
  by (simp add: ctrunc_def)

subsection \<open>Rounded quotients\<close>

lemma ctrunc_nonneg: "0 \<le> k \<Longrightarrow> \<lfloor>y\<rfloor> = k \<Longrightarrow> ctrunc y = k"
  by (auto simp: ctrunc_def)

lemma cdiv_bounds: "0 < b \<Longrightarrow> 0 \<le> a \<Longrightarrow> b * cdiv a b \<le> a \<and> a < b * cdiv a b + b"
  using pos_mod_bound [of b a] pos_mod_sign [of b a] by (simp add: cdiv_pos minus_mod_eq_mult_div [symmetric])

text \<open>A rounded quotient of integers is truncated to the same integer as the exact one.\<close>

lemma quot_bounds:
  fixes b c k s :: int
  assumes "b * k + s = c" "1 \<le> s" "s + 1 \<le> b"
  shows "b * k + 1 \<le> c" "c + 1 \<le> b * k + b"
  using assms by linarith+

lemma quot_interval:
  fixes b c k :: int
  assumes "0 < b" "b * k + 1 \<le> c" "c + 1 \<le> b * k + b"
  shows "of_int k + 1 / of_int b \<le> (of_int c / of_int b :: rat)" "of_int c / of_int b + 1 / of_int b \<le> (of_int k + 1 :: rat)"
proof -
  have b0: "(0 :: rat) < of_int b" using assms(1) by simp
  have "(of_int (b * k + 1) :: rat) \<le> of_int c" "(of_int (c + 1) :: rat) \<le> of_int (b * k + b)"
    using assms(2,3) by (simp_all only: of_int_le_iff)
  then have q: "of_int b * of_int k + 1 \<le> (of_int c :: rat)" "of_int c + 1 \<le> (of_int b * of_int k + of_int b :: rat)" by simp_all
  have "of_int k + 1 / of_int b = (of_int b * of_int k + 1) / (of_int b :: rat)" using b0 by (simp add: add_divide_distrib)
  also have "\<dots> \<le> of_int c / of_int b" using q(1) b0 by (intro divide_right_mono) auto
  finally show "of_int k + 1 / of_int b \<le> (of_int c / of_int b :: rat)" .
  have "of_int c / of_int b + 1 / of_int b = (of_int c + 1) / (of_int b :: rat)" by (simp add: add_divide_distrib)
  also have "\<dots> \<le> (of_int b * of_int k + of_int b) / of_int b" using q(2) b0 by (intro divide_right_mono) auto
  also have "\<dots> = of_int k + 1" using b0 by (simp add: add_divide_distrib)
  finally show "of_int c / of_int b + 1 / of_int b \<le> (of_int k + 1 :: rat)" .
qed

lemma fl_between:
  fixes x e :: rat
  assumes "of_int k + e \<le> x" "x + e \<le> of_int k + 1" "\<bar>fl y - y\<bar> < e" "0 \<le> k"
  shows "y = x \<Longrightarrow> ctrunc (fl y) = k" "y = - x \<Longrightarrow> ctrunc (fl y) = - k"
proof -
  assume "y = x"
  then have "of_int k \<le> fl y" "fl y < of_int k + 1" using assms by linarith+
  then have "\<lfloor>fl y\<rfloor> = k" by (intro floor_unique)
  then show "ctrunc (fl y) = k" using assms(4) ctrunc_nonneg by simp
next
  assume "y = - x"
  then have s: "fl y \<le> - of_int k" "- of_int k - 1 < fl y" using assms by linarith+
  have "fl y < 0 \<or> k = 0"
  proof (cases "k = 0")
    case False
    then have "(0 :: rat) < of_int k" using assms(4) by simp
    then show ?thesis using s by linarith
  qed simp
  moreover have "\<lceil>fl y\<rceil> = - k" by (rule ceiling_unique) (use s in simp_all)
  moreover have "k = 0 \<Longrightarrow> 0 \<le> fl y \<Longrightarrow> fl y = 0" using s by simp
  ultimately show "ctrunc (fl y) = - k" by (auto simp: ctrunc_def)
qed

lemma fl_quotient:
  assumes b: "0 < b" "b < 2 ^ 20" and a: "\<bar>a\<bar> < 2 ^ 32"
  shows "ctrunc (fl (of_int a / of_int b)) = cdiv a b"
proof (cases "b dvd a")
  case True
  then obtain k where k: "a = b * k" by blast
  have "1 * \<bar>k\<bar> \<le> b * \<bar>k\<bar>" using b(1) by (intro mult_right_mono) auto
  then have "\<bar>k\<bar> \<le> \<bar>a\<bar>" using b(1) by (simp add: k abs_mult)
  then have "\<bar>k\<bar> < 2 ^ 53" using a by simp
  moreover have "cdiv a b = k"
    using b(1) cdiv_pos [of "b * k" b] cdiv_neg [of "b * k" b] nonzero_mult_div_cancel_left [of b "- k"]
    by (cases "0 \<le> k") (simp_all add: k mult_less_0_iff)
  ultimately show ?thesis using b(1) by (simp add: k fl_int)
next
  case False
  obtain c where c: "c = \<bar>a\<bar>" by simp
  obtain k where k: "k = c div b" by simp
  have "\<not> b dvd c" using False by (simp add: c)
  then have "c mod b \<noteq> 0" by (simp add: dvd_eq_mod_eq_0)
  then have r: "1 \<le> c mod b" "c mod b + 1 \<le> b" using b(1) pos_mod_sign [of b c] pos_mod_bound [of b c] by linarith+
  have "b * k + c mod b = c" unfolding k by (rule mult_div_mod_eq)
  from quot_interval [OF b(1) quot_bounds [OF this r]]
  have lo: "of_int k + 1 / of_int b \<le> (of_int c / of_int b :: rat)" "of_int c / of_int b + 1 / of_int b \<le> (of_int k + 1 :: rat)" .
  have k0: "0 \<le> k" using b(1) unfolding k c by (intro pos_imp_zdiv_nonneg_iff [THEN iffD2]) auto
  have e: "\<bar>fl (of_int a / of_int b) - of_int a / of_int b\<bar> < 1 / of_int b"
  proof -
    have b0: "(0 :: rat) < of_int b" using b(1) by simp
    have "(of_int \<bar>a\<bar> :: rat) < of_int (2 ^ 32)" using a by (simp only: of_int_less_iff)
    then have "\<bar>of_int a\<bar> / 2 ^ 53 < (1 :: rat)" by simp
    then have "\<bar>of_int a\<bar> / 2 ^ 53 / of_int b < 1 / (of_int b :: rat)" using b0 by (intro divide_strict_right_mono)
    then show ?thesis using fl_error [of "of_int a / of_int b"] b0 by (simp add: abs_divide field_simps)
  qed
  show ?thesis
  proof (cases "0 \<le> a")
    case True
    have "ctrunc (fl (of_int a / of_int b)) = k" by (rule fl_between(1) [OF lo e k0]) (use True c in simp)
    then show ?thesis using True b(1) c k by (simp add: cdiv_pos)
  next
    case neg: False
    have "ctrunc (fl (of_int a / of_int b)) = - k" by (rule fl_between(2) [OF lo e k0]) (use neg c in simp)
    then show ?thesis using neg b(1) c k by (simp add: cdiv_neg)
  qed
qed

text \<open>The same for a quotient of which only an approximation is rounded.\<close>

lemma fl_near:
  assumes "\<bar>x - r\<bar> \<le> e" "0 \<le> k" "of_int k + 2 * e \<le> r" "r + 2 * e < of_int k + 1" "\<bar>x\<bar> \<le> e * 2 ^ 53"
  shows "ctrunc (fl x) = k"
proof (rule ctrunc_nonneg)
  have "\<bar>x\<bar> / 2 ^ 53 \<le> e" using assms(5) by (simp add: field_simps)
  then have "\<bar>fl x - x\<bar> \<le> e" using fl_error [of x] by linarith
  then show "\<lfloor>fl x\<rfloor> = k" using assms(1,3,4) by (intro floor_unique) linarith+
qed (fact assms(2))

subsection \<open>Reading numbers\<close>

text \<open>
  sqlite3AtoF computes with \<open>long double\<close>, whose precision is that of the compiler: its rounding is the
  parameter \<open>ld\<close>. Numbers outside the range of a double are outside the model.
\<close>

definition in_dbl :: "rat \<Rightarrow> rat option" where
  "in_dbl x = (if x = 0 \<or> 2 powi (- 1022) \<le> \<bar>x\<bar> \<and> \<bar>x\<bar> < 2 powi 1023 then Some x else None)"

lemma in_dbl_int: "\<bar>k\<bar> < 2 ^ 53 \<Longrightarrow> in_dbl (of_int k) = Some (of_int k)"
proof (cases "k = 0")
  case False
  assume k: "\<bar>k\<bar> < 2 ^ 53"
  have "(2 :: rat) powi (- 1022) \<le> 2 powi 0" "(2 :: rat) powi 53 \<le> 2 powi 1023" by (intro power_int_increasing; simp)+
  moreover have "(of_int \<bar>k\<bar> :: rat) < of_int (2 ^ 53)" using k by (simp only: of_int_less_iff)
  moreover have "1 \<le> \<bar>k\<bar>" using False by simp
  then have "(of_int 1 :: rat) \<le> of_int \<bar>k\<bar>" by (simp only: of_int_le_iff)
  ultimately show ?thesis by (simp add: in_dbl_def power_int_def)
qed (simp add: in_dbl_def)

definition digit_of :: "char \<Rightarrow> int" where
  "digit_of c = int (of_char c) - 48"

fun atof_digits :: "(rat \<Rightarrow> rat) \<Rightarrow> char list \<Rightarrow> rat \<Rightarrow> nat \<Rightarrow> (rat \<times> nat \<times> char list) option" where
  "atof_digits ld [] v1 nSignificant = None"
| "atof_digits ld (c # z) v1 nSignificant =
     (if isdigit c then atof_digits ld z (ld (ld (v1 * 10) + of_int (digit_of c))) (nSignificant + 1)
      else Some (v1, nSignificant, c # z))"

fun atof_zeros :: "(rat \<Rightarrow> rat) \<Rightarrow> char list \<Rightarrow> rat \<Rightarrow> (rat \<times> char list) option" where
  "atof_zeros ld [] divisor = None"
| "atof_zeros ld (c # z) divisor = (if c = CHR ''0'' then atof_zeros ld z (ld (divisor * 10)) else Some (divisor, c # z))"

fun atof_fraction :: "(rat \<Rightarrow> rat) \<Rightarrow> char list \<Rightarrow> rat \<Rightarrow> rat \<Rightarrow> nat \<Rightarrow> (rat \<times> rat \<times> char list) option" where
  "atof_fraction ld [] v1 divisor nSignificant = None"
| "atof_fraction ld (c # z) v1 divisor nSignificant =
     (if isdigit c then
        (if nSignificant < 18
         then atof_fraction ld z (ld (ld (v1 * 10) + of_int (digit_of c))) (ld (divisor * 10)) (nSignificant + 1)
         else atof_fraction ld z v1 divisor nSignificant)
      else Some (v1, divisor, c # z))"

fun atof_eval :: "char list \<Rightarrow> int \<Rightarrow> (int \<times> char list) option" where
  "atof_eval [] eval = None"
| "atof_eval (c # z) eval =
     (if isdigit c then do { e \<leftarrow> in_int (eval * 10 + int (of_char c)); atof_eval z (e - 48) }
      else Some (eval, c # z))"

text \<open>\<open>while( eval>=step ){ scale *= 10^step; eval -= step; }\<close>\<close>

function atof_scale :: "(rat \<Rightarrow> rat) \<Rightarrow> nat \<Rightarrow> rat \<times> nat \<Rightarrow> rat \<times> nat" where
  "atof_scale ld step (scale, eval) =
     (if step = 0 \<or> eval < step then (scale, eval)
      else atof_scale ld step (ld (scale * fl (10 ^ step)), eval - step))"
  by pat_completeness auto

termination by (relation "measure (\<lambda>(ld, step, scale, eval). eval)") auto

text \<open>The result is the number and the count of characters read.\<close>

definition sqlite3AtoF :: "(rat \<Rightarrow> rat) \<Rightarrow> char list \<Rightarrow> (rat \<times> nat) option" where
  "sqlite3AtoF ld zBegin = do {
     z \<leftarrow> skip_while isspace zBegin;
     c \<leftarrow> peek z 0;
     let sign = (if c = CHR ''-'' then - 1 else 1);
     let z = (if c = CHR ''-'' \<or> c = CHR ''+'' then tl z else z);
     z \<leftarrow> skip_while (\<lambda>c. c = CHR ''0'') z;
     (v1, nSignificant, z) \<leftarrow> atof_digits ld z 0 0;
     c \<leftarrow> peek z 0;
     (v1, z) \<leftarrow>
       (if c = CHR ''.'' then do {
          (divisor, z) \<leftarrow> (if nSignificant = 0 then atof_zeros ld (tl z) 1 else Some (1, tl z));
          (v1, divisor, z) \<leftarrow> atof_fraction ld z v1 divisor nSignificant;
          v1 \<leftarrow> in_dbl v1;
          divisor \<leftarrow> in_dbl divisor;
          Some (ld (v1 / divisor), z) }
        else Some (v1, z));
     v1 \<leftarrow> in_dbl v1;
     c \<leftarrow> peek z 0;
     (v1, z) \<leftarrow>
       (if c = CHR ''e'' \<or> c = CHR ''E'' then do {
          c \<leftarrow> peek (tl z) 0;
          (eval, z) \<leftarrow> atof_eval (if c = CHR ''-'' \<or> c = CHR ''+'' then tl (tl z) else tl z) 0;
          scale \<leftarrow> in_dbl (fst (fold (atof_scale ld) [64, 16, 4, 1] (1, nat eval)));
          Some (if c = CHR ''-'' then ld (v1 / scale) else ld (v1 * scale), z) }
        else Some (v1, z));
     v1 \<leftarrow> in_dbl v1;
     Some (fl (sign * v1), length zBegin - length z)
   }"

text \<open>The digits of an integer below \<open>2 ^ 53\<close> are read exactly when \<open>ld\<close> keeps such integers.\<close>

fun digits_val :: "char list \<Rightarrow> int \<Rightarrow> int" where
  "digits_val [] v = v"
| "digits_val (c # cs) v = digits_val cs (v * 10 + digit_of c)"

lemma digit_of_range: "isdigit c \<Longrightarrow> 0 \<le> digit_of c \<and> digit_of c \<le> 9"
  by (auto simp: digit_of_def isdigit_def)

lemma digits_val_mono: "\<forall>c \<in> set cs. isdigit c \<Longrightarrow> 0 \<le> v \<Longrightarrow> v \<le> digits_val cs v"
proof (induction cs arbitrary: v)
  case (Cons c cs)
  then have "0 \<le> digit_of c" using digit_of_range by simp
  then have "v \<le> v * 10 + digit_of c" using Cons.prems(2) by simp
  also have "\<dots> \<le> digits_val cs (v * 10 + digit_of c)" using Cons \<open>0 \<le> digit_of c\<close> by simp
  finally show ?case by simp
qed simp

lemma atof_digits_exact:
  assumes ld: "\<And>k. \<bar>k\<bar> < 2 ^ 53 \<Longrightarrow> ld (of_int k) = of_int k"
  shows "\<forall>c \<in> set cs. isdigit c \<Longrightarrow> \<not> isdigit e \<Longrightarrow> 0 \<le> v \<Longrightarrow> digits_val cs v < 2 ^ 53 \<Longrightarrow>
    atof_digits ld (cs @ e # z) (of_int v) n = Some (of_int (digits_val cs v), n + length cs, e # z)"
proof (induction cs arbitrary: v n)
  case (Cons c cs)
  have d: "0 \<le> digit_of c" using digit_of_range Cons.prems(1) by simp
  have "v * 10 + digit_of c \<le> digits_val cs (v * 10 + digit_of c)" using digits_val_mono [of cs "v * 10 + digit_of c"] Cons.prems(1,3) d by simp
  then have b: "v * 10 + digit_of c < 2 ^ 53" using Cons.prems(4) by simp
  have "ld (of_int (v * 10)) = of_int (v * 10)" "ld (of_int (v * 10 + digit_of c)) = of_int (v * 10 + digit_of c)"
    by (rule ld; use b d Cons.prems(3) in simp)+
  then have "ld (ld (of_int v * 10) + of_int (digit_of c)) = of_int (v * 10 + digit_of c)" by simp
  then show ?case using Cons.IH [of "v * 10 + digit_of c" "Suc n"] Cons.prems d by simp
qed simp

lemma skip_zeros:
  "e \<noteq> CHR ''0'' \<Longrightarrow> skip_while (\<lambda>c. c = CHR ''0'') (cs @ e # z) = Some (dropWhile (\<lambda>c. c = CHR ''0'') cs @ e # z)"
  by (induction cs) auto

lemma digits_val_zeros: "digits_val (dropWhile (\<lambda>c. c = CHR ''0'') cs) 0 = digits_val cs 0"
  by (induction cs) (auto simp: digit_of_def)

lemma peek_Cons [simp]: "peek (c # z) 0 = Some c" "peek (c # z) (Suc i) = peek z i"
  by (simp_all add: peek_def)

lemma isdigit_not:
  assumes "isdigit c"
  shows "\<not> isspace c" "c \<noteq> CHR ''-''" "c \<noteq> CHR ''+''" "c \<noteq> CHR '':''" "c \<noteq> NUL"
  using assms by (auto simp: isdigit_def isspace_def)

lemma AtoF_integer:
  assumes ld: "\<And>k. \<bar>k\<bar> < 2 ^ 53 \<Longrightarrow> ld (of_int k) = of_int k"
    and cs: "\<forall>c \<in> set cs. isdigit c" "cs \<noteq> []" "digits_val cs 0 < 2 ^ 53"
    and e: "\<not> isdigit e" "e \<noteq> CHR ''.''" "e \<noteq> CHR ''e''" "e \<noteq> CHR ''E''"
  shows "sqlite3AtoF ld (cs @ e # z) = Some (of_int (digits_val cs 0), length cs)"
    and "sqlite3AtoF ld (CHR ''+'' # cs @ e # z) = Some (of_int (digits_val cs 0), Suc (length cs))"
    and "sqlite3AtoF ld (CHR ''-'' # cs @ e # z) = Some (- of_int (digits_val cs 0), Suc (length cs))"
proof -
  let ?v = "digits_val cs 0" and ?cs = "dropWhile (\<lambda>c. c = CHR ''0'') cs"
  obtain c cs' where c: "cs = c # cs'" using cs(2) by (cases cs) auto
  note d = isdigit_not [of c]
  have e0: "e \<noteq> CHR ''0''" using e(1) by (auto simp: isdigit_def)
  have v: "0 \<le> ?v" using digits_val_mono [OF cs(1), of 0] by simp
  have "\<forall>c \<in> set ?cs. isdigit c" using cs(1) by (auto dest: set_dropWhileD)
  then have ad: "atof_digits ld (?cs @ e # z) 0 0 = Some (of_int ?v, length ?cs, e # z)"
    using atof_digits_exact [OF ld, of ?cs e 0 z 0] e(1) cs(3) by (simp add: digits_val_zeros)
  have i: "in_dbl (of_int ?v) = Some (of_int ?v)" by (rule in_dbl_int) (use v cs(3) in simp)
  have f: "fl (of_int ?v) = of_int ?v" "fl (- of_int ?v) = - of_int ?v" using fl_int [of ?v] fl_int [of "- ?v"] v cs(3) by simp_all
  have s: "skip_while isspace (CHR ''+'' # x) = Some (CHR ''+'' # x)" "skip_while isspace (CHR ''-'' # x) = Some (CHR ''-'' # x)"
    for x by (simp_all add: isspace_def)
  have s': "skip_while isspace (cs @ x) = Some (cs @ x)" for x using d(1) cs(1) by (simp add: c)
  have p: "peek (cs @ x) 0 = Some c" for x by (simp add: c)
  have c': "c \<noteq> CHR ''-''" "c \<noteq> CHR ''+''" using d cs(1) by (simp_all add: c)
  note r = sqlite3AtoF_def s s' skip_zeros [OF e0] ad i e f
  show "sqlite3AtoF ld (cs @ e # z) = Some (of_int ?v, length cs)" by (simp add: r p c' del: skip_while.simps)
  show "sqlite3AtoF ld (CHR ''+'' # cs @ e # z) = Some (of_int ?v, Suc (length cs))" by (simp add: r del: skip_while.simps)
  show "sqlite3AtoF ld (CHR ''-'' # cs @ e # z) = Some (- of_int ?v, Suc (length cs))" by (simp add: r del: skip_while.simps)
qed

end
