(* ===== verification/DateTime.thy ===== *)
theory DateTime
  imports Rounding VdbeMem
begin

text \<open>
  Dates and times of date.c. A conversion or a sum that leaves the range of its integer type is
  undefined behaviour and makes the result \<open>None\<close>. The clock and \<open>localtime\<close> of the C library are
  parameters.
\<close>

subsection \<open>Dates and times\<close>

record DateTime =
  iJD :: int
  dt_Y :: int
  dt_M :: int
  dt_D :: int
  dt_h :: int
  dt_m :: int
  dt_tz :: int
  dt_s :: rat
  validYMD :: bool
  validHMS :: bool
  validJD :: bool
  validTZ :: bool

text \<open>The literals 30.6001 and 122.1 are not doubles; 365.25 and the others are.\<close>

definition c30 :: rat where "c30 = fl (306001 / 10000)"
definition c122 :: rat where "c122 = fl (1221 / 10)"

text \<open>The day part of computeJD.\<close>

definition jd_days :: "int \<Rightarrow> int \<Rightarrow> int \<Rightarrow> int option" where
  "jd_days Y M D = do {
     (Y, M) \<leftarrow> (if M \<le> 2 then do { Y \<leftarrow> in_int (Y - 1); Some (Y, M + 12) } else Some (Y, M));
     let A = cdiv Y 100; let B = 2 - A + cdiv A 4;
     y \<leftarrow> in_int (Y + 4716);
     X1 \<leftarrow> in_int (ctrunc (fl (1461 / 4 * of_int y)));
     m \<leftarrow> in_int (M + 1);
     X2 \<leftarrow> in_int (ctrunc (fl (c30 * of_int m)));
     n \<leftarrow> in_int (X1 + X2);
     n \<leftarrow> in_int (n + D);
     n \<leftarrow> in_int (n + B);
     in_i64 (ctrunc (fl (fl (of_int n - 3049 / 2) * 86400000)))
   }"

definition computeJD :: "DateTime \<Rightarrow> DateTime option" where
  "computeJD p =
     (if validJD p then Some p
      else do {
        jd \<leftarrow> (if validYMD p then jd_days (dt_Y p) (dt_M p) (dt_D p) else jd_days 2000 1 1);
        let p = p\<lparr>iJD := jd, validJD := True\<rparr>;
        if validHMS p then do {
          a \<leftarrow> in_int (dt_h p * 3600000);
          b \<leftarrow> in_int (dt_m p * 60000);
          c \<leftarrow> in_int (a + b);
          jd \<leftarrow> in_i64 (ctrunc (fl (fl (of_int (iJD p)) + fl (of_int c + fl (dt_s p * 1000)))));
          let p = p\<lparr>iJD := jd\<rparr>;
          if validTZ p then do {
            z \<leftarrow> in_int (dt_tz p * 60000);
            jd \<leftarrow> in_i64 (iJD p - z);
            Some (p\<lparr>iJD := jd, validYMD := False, validHMS := False, validTZ := False\<rparr>) }
          else Some p }
        else Some p
      })"

text \<open>The conversion of the day number to int is defined by the implementation when it does not fit.\<close>

definition computeYMD :: "DateTime \<Rightarrow> DateTime option" where
  "computeYMD p =
     (if validYMD p then Some p
      else if \<not> validJD p then Some (p\<lparr>dt_Y := 2000, dt_M := 1, dt_D := 1, validYMD := True\<rparr>)
      else do {
        t \<leftarrow> in_i64 (iJD p + 43200000);
        Z \<leftarrow> in_int (cdiv t 86400000);
        A \<leftarrow> in_int (ctrunc (fl (fl (of_int Z - 7468865 / 4) / (146097 / 4))));
        z \<leftarrow> in_int (Z + 1);
        z \<leftarrow> in_int (z + A);
        A \<leftarrow> in_int (z - cdiv A 4);
        B \<leftarrow> in_int (A + 1524);
        C \<leftarrow> in_int (ctrunc (fl (fl (of_int B - c122) / (1461 / 4))));
        D \<leftarrow> in_int (ctrunc (fl (1461 / 4 * of_int C)));
        n \<leftarrow> in_int (B - D);
        E \<leftarrow> in_int (ctrunc (fl (of_int n / c30)));
        X1 \<leftarrow> in_int (ctrunc (fl (c30 * of_int E)));
        d \<leftarrow> in_int (n - X1);
        let m = (if E < 14 then E - 1 else E - 13);
        Some (p\<lparr>dt_D := d, dt_M := m, dt_Y := (if m > 2 then C - 4716 else C - 4715), validYMD := True\<rparr>)
      })"

definition computeHMS :: "DateTime \<Rightarrow> DateTime option" where
  "computeHMS p =
     (if validHMS p then Some p
      else do {
        p \<leftarrow> computeJD p;
        t \<leftarrow> in_i64 (iJD p + 43200000);
        let s = crem t 86400000;
        let r = fl (of_int s / 1000);
        let s = ctrunc r;
        let r = fl (r - of_int s);
        let h = cdiv s 3600;
        let s = s - h * 3600;
        let m = cdiv s 60;
        let r = fl (r + of_int (s - m * 60));
        Some (p\<lparr>dt_s := r, dt_h := h, dt_m := m, validHMS := True\<rparr>)
      })"

definition computeYMD_HMS :: "DateTime \<Rightarrow> DateTime option" where
  "computeYMD_HMS p = do { p \<leftarrow> computeYMD p; computeHMS p }"

definition clearYMD_HMS_TZ :: "DateTime \<Rightarrow> DateTime" where
  "clearYMD_HMS_TZ p = p\<lparr>validYMD := False, validHMS := False, validTZ := False\<rparr>"

subsection \<open>Reading dates and times\<close>

text \<open>One number of getDigits with its digits; None inside when a character is no digit.\<close>

fun get_num :: "nat \<Rightarrow> char list \<Rightarrow> int \<Rightarrow> (int \<times> char list) option option" where
  "get_num 0 z val = Some (Some (val, z))"
| "get_num (Suc N) z val = do {
     c \<leftarrow> peek z 0;
     if \<not> isdigit c then Some None else get_num N (tl z) (val * 10 + int (of_char c) - 48)
   }"

text \<open>The groups of arguments are N, min, max and nextC; the result is the values that are converted.\<close>

fun getDigits :: "char list \<Rightarrow> (nat \<times> int \<times> int \<times> char) list \<Rightarrow> int list option" where
  "getDigits z [] = Some []"
| "getDigits z ((N, lo, hi, nextC) # gs) = do {
     r \<leftarrow> get_num N z 0;
     (case r of
        None \<Rightarrow> Some []
      | Some (val, z) \<Rightarrow>
          if val < lo \<or> val > hi then Some []
          else if nextC = NUL then Some [val]
          else do {
            c \<leftarrow> peek z 0;
            if nextC \<noteq> c then Some []
            else do { vs \<leftarrow> getDigits (tl z) gs; Some (val # vs) }
          })
   }"

text \<open>The first component is the result: True for an error.\<close>

definition zulu_time :: "char list \<Rightarrow> DateTime \<Rightarrow> (bool \<times> DateTime) option" where
  "zulu_time z p = do { z \<leftarrow> skip_while isspace z; c \<leftarrow> peek z 0; Some (c \<noteq> NUL, p) }"

definition parseTimezone :: "char list \<Rightarrow> DateTime \<Rightarrow> (bool \<times> DateTime) option" where
  "parseTimezone z p = do {
     z \<leftarrow> skip_while isspace z;
     let p = p\<lparr>dt_tz := 0\<rparr>;
     c \<leftarrow> peek z 0;
     if c = CHR ''-'' \<or> c = CHR ''+'' then do {
       let sgn = (if c = CHR ''-'' then - 1 else 1);
       vs \<leftarrow> getDigits (tl z) [(2, 0, 14, CHR '':''), (2, 0, 59, NUL)];
       (case vs of
          [nHr, nMn] \<Rightarrow> zulu_time (drop 5 (tl z)) (p\<lparr>dt_tz := sgn * (nMn + nHr * 60)\<rparr>)
        | _ \<Rightarrow> Some (True, p)) }
     else if c = CHR ''Z'' \<or> c = CHR ''z'' then zulu_time (tl z) p
     else Some (c \<noteq> NUL, p)
   }"

text \<open>The digits of the fraction, with the number and its scale.\<close>

fun fraction :: "char list \<Rightarrow> rat \<Rightarrow> rat \<Rightarrow> (rat \<times> rat \<times> char list) option" where
  "fraction [] ms rScale = None"
| "fraction (c # z) ms rScale =
     (if isdigit c then do {
        ms \<leftarrow> in_dbl (fl (fl (fl (ms * 10) + of_nat (of_char c)) - 48));
        rScale \<leftarrow> in_dbl (fl (rScale * 10));
        fraction z ms rScale }
      else Some (ms, rScale, c # z))"

definition parseHhMmSs :: "char list \<Rightarrow> DateTime \<Rightarrow> (bool \<times> DateTime) option" where
  "parseHhMmSs z p = do {
     vs \<leftarrow> getDigits z [(2, 0, 24, CHR '':''), (2, 0, 59, NUL)];
     (case vs of
        [h, m] \<Rightarrow> do {
          let z = drop 5 z;
          c \<leftarrow> peek z 0;
          r \<leftarrow> (if c = CHR '':'' then do {
                 let z = tl z;
                 ss \<leftarrow> getDigits z [(2, 0, 59, NUL)];
                 (case ss of
                    [s] \<Rightarrow> do {
                      let z = drop 2 z;
                      c \<leftarrow> peek z 0;
                      dot \<leftarrow> (if c = CHR ''.'' then do { d \<leftarrow> peek z 1; Some (isdigit d) } else Some False);
                      if dot then do {
                        (ms, rScale, z) \<leftarrow> fraction (tl z) 0 1;
                        Some (Some (s, fl (ms / rScale), z)) }
                      else Some (Some (s, 0, z)) }
                  | _ \<Rightarrow> Some None) }
               else Some (Some (0, 0, z)));
          (case r of
             None \<Rightarrow> Some (True, p)
           | Some (s, ms, z) \<Rightarrow> do {
               let p = p\<lparr>validJD := False, validHMS := True, dt_h := h, dt_m := m, dt_s := fl (of_int s + ms)\<rparr>;
               (err, p) \<leftarrow> parseTimezone z p;
               if err then Some (True, p) else Some (False, p\<lparr>validTZ := dt_tz p \<noteq> 0\<rparr>) }) }
      | _ \<Rightarrow> Some (True, p))
   }"

definition parseYyyyMmDd :: "char list \<Rightarrow> DateTime \<Rightarrow> (bool \<times> DateTime) option" where
  "parseYyyyMmDd z p = do {
     c \<leftarrow> peek z 0;
     let neg = (c = CHR ''-'');
     let z = (if neg then tl z else z);
     vs \<leftarrow> getDigits z [(4, 0, 9999, CHR ''-''), (2, 1, 12, CHR ''-''), (2, 1, 31, NUL)];
     (case vs of
        [Y, M, D] \<Rightarrow> do {
          z \<leftarrow> skip_while (\<lambda>c. isspace c \<or> c = CHR ''T'') (drop 10 z);
          (err, p) \<leftarrow> parseHhMmSs z p;
          c \<leftarrow> peek z 0;
          if err \<and> c \<noteq> NUL then Some (True, p)
          else do {
            let p = (if err then p\<lparr>validHMS := False\<rparr> else p);
            let p = p\<lparr>validJD := False, validYMD := True, dt_Y := (if neg then - Y else Y), dt_M := M, dt_D := D\<rparr>;
            p \<leftarrow> (if validTZ p then computeJD p else Some p);
            Some (False, p) } }
      | _ \<Rightarrow> Some (True, p))
   }"


text \<open>
  parseDateOrTime. \<open>now\<close> is the time of the VFS, a day number with fraction, and \<open>ld\<close> the rounding of
  sqlite3AtoF.
\<close>

definition setDateTimeToCurrent :: "rat \<Rightarrow> DateTime \<Rightarrow> DateTime option" where
  "setDateTimeToCurrent now p = do {
     jd \<leftarrow> in_i64 (ctrunc (fl (fl (now * 86400000) + 1 / 2)));
     Some (p\<lparr>iJD := jd, validJD := True\<rparr>)
   }"

definition parseDateOrTime :: "(rat \<Rightarrow> rat) \<Rightarrow> rat \<Rightarrow> char list \<Rightarrow> DateTime \<Rightarrow> (bool \<times> DateTime) option" where
  "parseDateOrTime ld now zDate p = do {
     (err, p) \<leftarrow> parseYyyyMmDd zDate p;
     if \<not> err then Some (False, p)
     else do {
       (err, p) \<leftarrow> parseHhMmSs zDate p;
       if \<not> err then Some (False, p)
       else do {
         c \<leftarrow> sqlite3StrICmp zDate (''now'' @ [NUL]);
         if c = 0 then do { p \<leftarrow> setDateTimeToCurrent now p; Some (False, p) }
         else do {
           (number, _) \<leftarrow> sqlite3IsNumber zDate False SQLITE_UTF8;
           if number then do {
             (r, _) \<leftarrow> sqlite3AtoF ld zDate;
             jd \<leftarrow> in_i64 (ctrunc (fl (fl (r * 86400000) + 1 / 2)));
             Some (False, p\<lparr>iJD := jd, validJD := True\<rparr>) }
           else Some (True, p) } } }
   }"

subsection \<open>Modifiers\<close>

record tm =
  tm_year :: int
  tm_mon :: int
  tm_mday :: int
  tm_hour :: int
  tm_min :: int
  tm_sec :: int

definition zero_DateTime :: DateTime where
  "zero_DateTime = \<lparr>iJD = 0, dt_Y = 0, dt_M = 0, dt_D = 0, dt_h = 0, dt_m = 0, dt_tz = 0, dt_s = 0,
     validYMD = False, validHMS = False, validJD = False, validTZ = False\<rparr>"

text \<open>\<open>lt\<close> is \<open>localtime\<close> of the C library. The fields of \<open>y\<close> that are not set are not read.\<close>

definition localtimeOffset :: "(int \<Rightarrow> tm) \<Rightarrow> DateTime \<Rightarrow> int option" where
  "localtimeOffset lt p = do {
     x \<leftarrow> computeYMD_HMS p;
     x \<leftarrow> (if dt_Y x < 1971 \<or> dt_Y x \<ge> 2038
           then Some (x\<lparr>dt_Y := 2000, dt_M := 1, dt_D := 1, dt_h := 0, dt_m := 0, dt_s := 0\<rparr>)
           else do { s \<leftarrow> in_int (ctrunc (fl (dt_s x + 1 / 2))); Some (x\<lparr>dt_s := of_int s\<rparr>) });
     x \<leftarrow> computeJD (x\<lparr>dt_tz := 0, validJD := False\<rparr>);
     t \<leftarrow> in_int (ctrunc (fl (fl (of_int (cdiv (iJD x) 1000)) - 210866760000)));
     let l = lt t;
     y \<leftarrow> computeJD (zero_DateTime\<lparr>dt_Y := tm_year l + 1900, dt_M := tm_mon l + 1, dt_D := tm_mday l,
            dt_h := tm_hour l, dt_m := tm_min l, dt_s := of_int (tm_sec l), validYMD := True, validHMS := True\<rparr>);
     in_int (iJD y - iJD x)
   }"

text \<open>The buffer of 30 characters that holds the modifier in lower case.\<close>

definition tolower :: "char \<Rightarrow> char" where
  "tolower c = (if 65 \<le> (of_char c :: nat) \<and> (of_char c :: nat) \<le> 90 then char_of ((of_char c :: nat) + 32) else c)"

fun lower_copy :: "nat \<Rightarrow> char list \<Rightarrow> char list option" where
  "lower_copy 0 zMod = Some [NUL]"
| "lower_copy (Suc n) [] = None"
| "lower_copy (Suc n) (c # zMod) = (if c = NUL then Some [NUL] else map_option (Cons (tolower c)) (lower_copy n zMod))"

definition mod_localtime :: "(int \<Rightarrow> tm) \<Rightarrow> DateTime \<Rightarrow> DateTime option" where
  "mod_localtime lt p = do {
     p \<leftarrow> computeJD p;
     c \<leftarrow> localtimeOffset lt p;
     jd \<leftarrow> in_i64 (iJD p + c);
     Some (clearYMD_HMS_TZ (p\<lparr>iJD := jd\<rparr>))
   }"

definition mod_unixepoch :: "DateTime \<Rightarrow> DateTime option" where
  "mod_unixepoch p = do {
     jd \<leftarrow> in_i64 (ctrunc (fl (fl (fl (of_int (iJD p)) / 86400) + 210866760000000)));
     Some (clearYMD_HMS_TZ (p\<lparr>iJD := jd\<rparr>))
   }"

definition mod_utc :: "(int \<Rightarrow> tm) \<Rightarrow> DateTime \<Rightarrow> DateTime option" where
  "mod_utc lt p = do {
     p \<leftarrow> computeJD p;
     c1 \<leftarrow> localtimeOffset lt p;
     jd \<leftarrow> in_i64 (iJD p - c1);
     let p = clearYMD_HMS_TZ (p\<lparr>iJD := jd\<rparr>);
     c2 \<leftarrow> localtimeOffset lt p;
     c \<leftarrow> in_int (c1 - c2);
     jd \<leftarrow> in_i64 (iJD p + c);
     Some (p\<lparr>iJD := jd\<rparr>)
   }"

text \<open>weekday N, for the number after the word.\<close>

definition mod_weekday :: "int \<Rightarrow> DateTime \<Rightarrow> DateTime option" where
  "mod_weekday n p = do {
     p \<leftarrow> computeYMD_HMS p;
     p \<leftarrow> computeJD (p\<lparr>validTZ := False, validJD := False\<rparr>);
     t \<leftarrow> in_i64 (iJD p + 129600000);
     let Z = crem (cdiv t 86400000) 7;
     let Z = (if Z > n then Z - 7 else Z);
     jd \<leftarrow> in_i64 (iJD p + (n - Z) * 86400000);
     Some (clearYMD_HMS_TZ (p\<lparr>iJD := jd\<rparr>))
   }"

definition mod_start :: "char list \<Rightarrow> DateTime \<Rightarrow> (bool \<times> DateTime) option" where
  "mod_start z p = do {
     p \<leftarrow> computeYMD p;
     let p = p\<lparr>validHMS := True, dt_h := 0, dt_m := 0, dt_s := 0, validTZ := False, validJD := False\<rparr>;
     if cstr z = ''month'' then Some (False, p\<lparr>dt_D := 1\<rparr>)
     else if cstr z = ''year'' then do { p \<leftarrow> computeYMD p; Some (False, p\<lparr>dt_M := 1, dt_D := 1\<rparr>) }
     else Some (cstr z \<noteq> ''day'', p)
   }"

text \<open>(+|-)HH:MM:SS.FFF; \<open>neg\<close> tells a leading minus sign.\<close>

definition mod_time :: "bool \<Rightarrow> char list \<Rightarrow> DateTime \<Rightarrow> (bool \<times> DateTime) option" where
  "mod_time neg z2 p = do {
     (err, tx) \<leftarrow> parseHhMmSs z2 zero_DateTime;
     if err then Some (True, p)
     else do {
       tx \<leftarrow> computeJD tx;
       t \<leftarrow> in_i64 (iJD tx - 43200000);
       let day = cdiv t 86400000;
       let t = t - day * 86400000;
       let t = (if neg then - t else t);
       p \<leftarrow> computeJD p;
       let p = clearYMD_HMS_TZ p;
       jd \<leftarrow> in_i64 (iJD p + t);
       Some (False, p\<lparr>iJD := jd\<rparr>) }
   }"

text \<open>\<open>p->iJD += x + 0.5\<close>\<close>

definition add_ms :: "rat \<Rightarrow> DateTime \<Rightarrow> DateTime option" where
  "add_ms x p = do {
     jd \<leftarrow> in_i64 (ctrunc (fl (fl (of_int (iJD p)) + fl (x + 1 / 2))));
     Some (p\<lparr>iJD := jd\<rparr>)
   }"

definition add_months :: "rat \<Rightarrow> DateTime \<Rightarrow> DateTime option" where
  "add_months r p = do {
     p \<leftarrow> computeYMD_HMS p;
     M \<leftarrow> in_int (ctrunc (fl (of_int (dt_M p) + r)));
     x \<leftarrow> (if M > 0 then Some (cdiv (M - 1) 12) else do { k \<leftarrow> in_int (M - 12); Some (cdiv k 12) });
     Y \<leftarrow> in_int (dt_Y p + x);
     k \<leftarrow> in_int (x * 12);
     p \<leftarrow> computeJD (p\<lparr>dt_M := M - k, dt_Y := Y, validJD := False\<rparr>);
     y \<leftarrow> in_int (ctrunc r);
     if of_int y \<noteq> r then add_ms (fl (fl (fl (r - of_int y) * 30) * 86400000)) p else Some p
   }"

definition add_years :: "rat \<Rightarrow> DateTime \<Rightarrow> DateTime option" where
  "add_years r p = do {
     p \<leftarrow> computeYMD_HMS p;
     Y \<leftarrow> in_int (ctrunc (fl (of_int (dt_Y p) + r)));
     computeJD (p\<lparr>dt_Y := Y, validJD := False\<rparr>)
   }"

text \<open>A number and the unit that follows it.\<close>

definition mod_units :: "rat \<Rightarrow> char list \<Rightarrow> DateTime \<Rightarrow> (bool \<times> DateTime) option" where
  "mod_units r z p = do {
     z \<leftarrow> skip_while isspace z;
     let u = cstr z;
     if length u > 10 \<or> length u < 3 then Some (True, p)
     else do {
       let u = (if last u = CHR ''s'' then butlast u else u);
       p \<leftarrow> computeJD p;
       (rc, p) \<leftarrow>
         (if u = ''day'' then do { p \<leftarrow> add_ms (fl (r * 86400000)) p; Some (False, p) }
          else if u = ''hour'' then do { p \<leftarrow> add_ms (fl (r * 3600000)) p; Some (False, p) }
          else if u = ''minute'' then do { p \<leftarrow> add_ms (fl (r * 60000)) p; Some (False, p) }
          else if u = ''second'' then do { p \<leftarrow> add_ms (fl (r * 1000)) p; Some (False, p) }
          else if u = ''month'' then do { p \<leftarrow> add_months r p; Some (False, p) }
          else if u = ''year'' then do { p \<leftarrow> add_years r p; Some (False, p) }
          else Some (True, p));
       Some (rc, clearYMD_HMS_TZ p) }
   }"

definition parseModifier :: "(rat \<Rightarrow> rat) \<Rightarrow> (int \<Rightarrow> tm) \<Rightarrow> char list \<Rightarrow> DateTime \<Rightarrow> (bool \<times> DateTime) option" where
  "parseModifier ld lt zMod p = do {
     z \<leftarrow> lower_copy 29 zMod;
     c \<leftarrow> peek z 0;
     if c = CHR ''l'' then
       (if cstr z = ''localtime'' then do { p \<leftarrow> mod_localtime lt p; Some (False, p) } else Some (True, p))
     else if c = CHR ''u'' then
       (if cstr z = ''unixepoch'' \<and> validJD p then do { p \<leftarrow> mod_unixepoch p; Some (False, p) }
        else if cstr z = ''utc'' then do { p \<leftarrow> mod_utc lt p; Some (False, p) }
        else Some (True, p))
     else if c = CHR ''w'' then
       (if take 8 (cstr z) = ''weekday '' then do {
          (r, k) \<leftarrow> sqlite3AtoF ld (drop 8 z);
          if k > 0 then do {
            n \<leftarrow> in_int (ctrunc r);
            if of_int n = r \<and> n \<ge> 0 \<and> r < 7 then do { p \<leftarrow> mod_weekday n p; Some (False, p) }
            else Some (True, p) }
          else Some (True, p) }
        else Some (True, p))
     else if c = CHR ''s'' then
       (if take 9 (cstr z) = ''start of '' then mod_start (drop 9 z) p else Some (True, p))
     else if c = CHR ''+'' \<or> c = CHR ''-'' \<or> isdigit c then do {
       (r, n) \<leftarrow> sqlite3AtoF ld z;
       d \<leftarrow> peek z n;
       if d = CHR '':'' then mod_time (c = CHR ''-'') (if isdigit c then z else tl z) p
       else mod_units r (drop n z) p }
     else Some (True, p)
   }"

subsection \<open>The arguments of the SQL functions\<close>

text \<open>
  What the code asks of an argument: its type, its value as a double and as a text.
\<close>

record date_arg =
  arg_type :: int
  arg_double :: rat
  arg_text :: "char list option"

fun apply_modifiers :: "(rat \<Rightarrow> rat) \<Rightarrow> (int \<Rightarrow> tm) \<Rightarrow> date_arg list \<Rightarrow> DateTime \<Rightarrow> (bool \<times> DateTime) option" where
  "apply_modifiers ld lt [] p = Some (False, p)"
| "apply_modifiers ld lt (a # argv) p =
     (case arg_text a of
        None \<Rightarrow> Some (True, p)
      | Some z \<Rightarrow> do {
          (err, p) \<leftarrow> parseModifier ld lt z p;
          if err then Some (True, p) else apply_modifiers ld lt argv p })"

definition isDate :: "(rat \<Rightarrow> rat) \<Rightarrow> (int \<Rightarrow> tm) \<Rightarrow> rat \<Rightarrow> date_arg list \<Rightarrow> (bool \<times> DateTime) option" where
  "isDate ld lt now argv =
     (case argv of
        [] \<Rightarrow> do { p \<leftarrow> setDateTimeToCurrent now zero_DateTime; Some (False, p) }
      | a # argv \<Rightarrow> do {
          (err, p) \<leftarrow>
            (if arg_type a = SQLITE_FLOAT \<or> arg_type a = SQLITE_INTEGER then do {
               jd \<leftarrow> in_i64 (ctrunc (fl (fl (arg_double a * 86400000) + 1 / 2)));
               Some (False, zero_DateTime\<lparr>iJD := jd, validJD := True\<rparr>) }
             else (case arg_text a of None \<Rightarrow> Some (True, zero_DateTime) | Some z \<Rightarrow> parseDateOrTime ld now z zero_DateTime));
          if err then Some (True, p) else apply_modifiers ld lt argv p })"

text \<open>The result of julianday; without one the SQL function gives NULL.\<close>

definition juliandayFunc :: "(rat \<Rightarrow> rat) \<Rightarrow> (int \<Rightarrow> tm) \<Rightarrow> rat \<Rightarrow> date_arg list \<Rightarrow> rat option option" where
  "juliandayFunc ld lt now argv = do {
     (err, x) \<leftarrow> isDate ld lt now argv;
     if err then Some None
     else do { x \<leftarrow> computeJD x; Some (Some (fl (fl (of_int (iJD x)) / 86400000))) }
   }"

end
