(* ===== verification/Calendar.thy ===== *)
theory Calendar
  imports DateTime
begin

text \<open>
  The day and time arithmetic of date.c against the Gregorian calendar: the day number, its inverse
  and the texts that are read.
\<close>

subsection \<open>The constants of the day formulas\<close>

lemma c30_bound: "\<bar>c30 - 306001 / 10000\<bar> \<le> 1 / 2 ^ 47"
  using fl_error [of "306001 / 10000"] unfolding c30_def by simp

lemma c122_bound: "\<bar>c122 - 1221 / 10\<bar> \<le> 1 / 2 ^ 46"
  using fl_error [of "1221 / 10"] unfolding c122_def by simp

lemma c122_range: "122 \<le> c122" "c122 \<le> 1222 / 10"
proof -
  have "(1 :: rat) / 2 ^ 46 \<le> 1 / 10" by simp
  then show "122 \<le> c122" "c122 \<le> 1222 / 10" using c122_bound by linarith+
qed

lemma c30_times:
  assumes "m \<in> {4..15}" shows "ctrunc (fl (c30 * of_int m)) = 306001 * m div 10000"
proof -
  have m: "4 \<le> m" "m \<le> 15" using assms by auto
  have "\<bar>c30 * of_int m - 306001 / 10000 * of_int m\<bar> = \<bar>c30 - 306001 / 10000\<bar> * of_int m"
    using m by (simp only: left_diff_distrib [symmetric] abs_mult)
  also have "\<dots> \<le> 1 / 2 ^ 47 * 15" using c30_bound m by (intro mult_mono) auto
  finally have d: "\<bar>c30 * of_int m - 306001 / 10000 * of_int m\<bar> \<le> 1 / 2 ^ 43" by simp
  have "\<bar>c30 * of_int m\<bar> \<le> 31 * 15"
  proof -
    have "(1 :: rat) / 2 ^ 47 \<le> 1 / 10" by simp
    then have "\<bar>c30\<bar> \<le> 31" using c30_bound by linarith
    then have "\<bar>c30\<bar> * of_int m \<le> 31 * 15" using m by (intro mult_mono) auto
    then show ?thesis using m by (simp add: abs_mult)
  qed
  then have b: "\<bar>c30 * of_int m\<bar> \<le> 1 / 2 ^ 43 * 2 ^ 53" by simp
  have "m = 4 \<or> m = 5 \<or> m = 6 \<or> m = 7 \<or> m = 8 \<or> m = 9 \<or> m = 10 \<or> m = 11 \<or> m = 12 \<or> m = 13 \<or> m = 14 \<or> m = 15" using m by presburger
  then show ?thesis by (intro fl_near [OF d _ _ _ b]) auto
qed

lemma c30_quotient:
  assumes E: "E \<in> {4..15}" and n: "306001 * E + 4 \<le> 10000 * n" "10000 * n + 4 \<le> 306001 * (E + 1)"
  shows "ctrunc (fl (of_int n / c30)) = E"
proof -
  let ?x = "of_int n / c30"
  have c: "306001 / 10000 - 1 / 2 ^ 47 \<le> c30" "c30 \<le> 306001 / 10000 + 1 / 2 ^ 47" using c30_bound by linarith+
  then have c0: "30 < c30" by simp
  have "(of_int (306001 * E + 4) :: rat) \<le> of_int (10000 * n)" "(of_int (10000 * n + 4) :: rat) \<le> of_int (306001 * (E + 1))"
    using n by (simp_all only: of_int_le_iff)
  then have nr: "306001 / 10000 * of_int E + 4 / 10000 \<le> (of_int n :: rat)" "of_int n + 4 / 10000 \<le> (306001 / 10000 * (of_int E + 1) :: rat)" by simp_all
  have e15: "(0 :: rat) \<le> of_int E" "of_int E \<le> (15 :: rat)" using E by simp_all
  have "(of_int E + 1 / 2 ^ 20) * c30 \<le> (of_int E + 1 / 2 ^ 20) * (306001 / 10000 + 1 / 2 ^ 47)" using c(2) e15 by (intro mult_left_mono) auto
  also have "\<dots> \<le> of_int n" using nr(1) e15 by (simp add: algebra_simps)
  finally have lo: "of_int E + 1 / 2 ^ 20 \<le> ?x" using c0 by (simp add: pos_le_divide_eq)
  have "of_int n \<le> (of_int E + 1 - 1 / 2 ^ 20 :: rat) * (306001 / 10000 - 1 / 2 ^ 47)" using nr(2) e15 by (simp add: algebra_simps)
  also have "\<dots> \<le> (of_int E + 1 - 1 / 2 ^ 20) * c30" using c(1) e15 by (intro mult_left_mono) auto
  finally have hi: "?x \<le> of_int E + 1 - 1 / 2 ^ 20" using c0 by (simp add: pos_divide_le_eq)
  show ?thesis
    by (rule fl_near [where r = ?x and e = "1 / 2 ^ 22"]) (use lo hi e15 E in auto)
qed

lemma fl_1461: "0 \<le> c \<Longrightarrow> c < 2 ^ 32 \<Longrightarrow> ctrunc (fl (1461 / 4 * of_int c)) = 1461 * c div 4"
proof -
  assume c: "0 \<le> c" "c < 2 ^ 32"
  have e: "(1461 / 4 * of_int c :: rat) = of_int (1461 * c) / 2 ^ 2" by simp
  have "fl (of_int (1461 * c) / 2 ^ 2) = of_int (1461 * c) / 2 ^ 2" by (rule fl_exact) (use c in simp)
  then have f: "fl (1461 / 4 * of_int c) = of_int (1461 * c) / of_int 4" unfolding e by simp
  show ?thesis unfolding f by (rule ctrunc_nonneg) (use c in simp, rule floor_divide_of_int_eq)
qed


subsection \<open>The Gregorian calendar\<close>

definition leap_year :: "int \<Rightarrow> bool" where
  "leap_year y \<longleftrightarrow> 4 dvd y \<and> (\<not> 100 dvd y \<or> 400 dvd y)"

definition month_days :: "int \<Rightarrow> int \<Rightarrow> int" where
  "month_days y m = (if m = 2 then (if leap_year y then 29 else 28) else if m \<in> {4, 6, 9, 11} then 30 else 31)"

definition valid_date :: "int \<Rightarrow> int \<Rightarrow> int \<Rightarrow> bool" where
  "valid_date y m d \<longleftrightarrow> 0 \<le> y \<and> y \<le> 9999 \<and> 1 \<le> m \<and> m \<le> 12 \<and> 1 \<le> d \<and> d \<le> month_days y m"

definition next_date :: "int \<Rightarrow> int \<Rightarrow> int \<Rightarrow> int \<times> int \<times> int" where
  "next_date y m d = (if d < month_days y m then (y, m, d + 1) else if m < 12 then (y, m + 1, 1) else (y + 1, 1, 1))"

text \<open>The year and the month counted from March, and the number of the day.\<close>

definition mar_year :: "int \<Rightarrow> int \<Rightarrow> int" where "mar_year y m = (if m \<le> 2 then y - 1 else y)"
definition mar_month :: "int \<Rightarrow> int" where "mar_month m = (if m \<le> 2 then m + 12 else m)"

definition year_day :: "int \<Rightarrow> int \<Rightarrow> int" where
  "year_day m d = 306001 * (mar_month m + 1) div 10000 + d"

definition year_start :: "int \<Rightarrow> int" where
  "year_start y = 365 * y + y div 4 - y div 100 + y div 400"

definition day_number :: "int \<Rightarrow> int \<Rightarrow> int \<Rightarrow> int" where
  "day_number y m d = year_start (mar_year y m) + year_day m d + 1720997"

lemma div_pred:
  fixes k y :: int
  assumes k: "0 < k" shows "y div k = (y - 1) div k + (if k dvd y then 1 else 0)"
proof (cases "k dvd y")
  case True
  then obtain q where q: "y = k * q" by blast
  have "(y - 1) div k = q - 1" by (rule int_div_pos_eq [of _ _ _ "k - 1"]) (use k q in \<open>simp_all add: algebra_simps\<close>)
  then show ?thesis using True k q by simp
next
  case False
  then have "y mod k \<noteq> 0" by (simp add: dvd_eq_mod_eq_0)
  then have r: "0 < y mod k" "y mod k < k" using k pos_mod_sign [of k y] pos_mod_bound [of k y] by linarith+
  have "(y - 1) div k = y div k" by (rule int_div_pos_eq [of _ _ _ "y mod k - 1"]) (use r mult_div_mod_eq [of k y] in simp_all)
  then show ?thesis using False by simp
qed

lemma leap_count:
  "(h \<Longrightarrow> c) \<Longrightarrow> (c \<Longrightarrow> f) \<Longrightarrow> (if f then 1 else 0) - (if c then 1 else 0) + (if h then 1 else 0) = (if f \<and> (\<not> c \<or> h) then 1 else (0 :: int))"
  by (cases h; cases c; cases f) simp_all

lemma dvd_chain:
  fixes y :: int
  shows "400 dvd y \<Longrightarrow> 100 dvd y" and "100 dvd y \<Longrightarrow> 4 dvd y"
proof -
  have d: "(100 :: int) dvd 400" "(4 :: int) dvd 100" by simp_all
  show "400 dvd y \<Longrightarrow> 100 dvd y" by (rule dvd_trans [OF d(1)])
  show "100 dvd y \<Longrightarrow> 4 dvd y" by (rule dvd_trans [OF d(2)])
qed

lemma leap_sum:
  fixes y :: int
  assumes "a = a' + i" "b = b' + j" "c = c' + k" "i - j + k = l"
  shows "365 * y + a - b + c = 365 * (y - 1) + a' - b' + c' + 365 + l"
  using assms(4) [symmetric] assms(1-3) by (simp add: algebra_simps)

lemma leap_year_start: "year_start y = year_start (y - 1) + 365 + (if leap_year y then 1 else 0)"
  unfolding year_start_def leap_year_def
  by (rule leap_sum) (rule div_pred, simp, rule div_pred, simp, rule div_pred, simp, rule leap_count [OF dvd_chain])

text \<open>The number grows by one from a date to the next.\<close>

lemma month_cases: "1 \<le> m \<Longrightarrow> m \<le> 12 \<Longrightarrow> m = 1 \<or> m = 2 \<or> m = 3 \<or> m = 4 \<or> m = 5 \<or> m = 6 \<or> m = 7 \<or> m = 8 \<or> m = 9 \<or> m = 10 \<or> m = 11 \<or> m = (12 :: int)"
  by presburger

lemma day_number_next:
  assumes "valid_date y m d" "next_date y m d = (y', m', d')"
  shows "day_number y' m' d' = day_number y m d + 1"
proof (cases "d < month_days y m")
  case True
  then show ?thesis using assms(2) by (auto simp: next_date_def day_number_def year_day_def)
next
  case False
  then have d: "d = month_days y m" "1 \<le> m" "m \<le> 12" using assms(1) by (simp_all add: valid_date_def)
  from month_cases [OF d(2,3)] show ?thesis
    using assms(2) False leap_year_start [of y] d(1)
    by (elim disjE) (auto simp: next_date_def day_number_def year_day_def mar_year_def mar_month_def month_days_def split: if_splits)
qed


subsection \<open>The day formula\<close>

lemma valid_date_bounds:
  assumes "valid_date y m d"
  shows "0 \<le> y" "y \<le> 9999" "1 \<le> m" "m \<le> 12" "1 \<le> d" "d \<le> 31"
  using assms by (auto simp: valid_date_def month_days_def split: if_splits)

lemma century_days:
  assumes "- 1 \<le> Y"
  shows "cdiv (cdiv Y 100) 4 - cdiv Y 100 = Y div 400 - Y div 100"
proof (cases "0 \<le> Y")
  case True
  then have "0 \<le> Y div 100" by simp
  then show ?thesis using True by (simp add: cdiv_pos zdiv_zmult2_eq [symmetric])
next
  case False
  then have "Y = - 1" using assms by simp
  then show ?thesis by (simp add: cdiv_def)
qed

lemma quarter_days: "1461 * c div 4 = 365 * c + c div (4 :: int)"
proof -
  have "1461 * c = c + 4 * (365 * c)" by simp
  then show ?thesis by (simp only: div_mult_self2 zero_neq_numeral [symmetric] not_False_eq_True)
qed

lemma div_range:
  fixes Y k :: int
  assumes "- 1 \<le> Y" "Y \<le> 9999" "0 < k"
  shows "- 1 \<le> Y div k" "Y div k \<le> 9999"
proof -
  have "- 1 div k \<le> Y div k" "Y div k \<le> 9999 div k" using assms by (auto intro: zdiv_mono1)
  moreover have "- 1 div k = - 1" by (rule int_div_pos_eq [of _ _ _ "k - 1"]) (use assms in simp_all)
  moreover have "9999 div k \<le> 9999" using zdiv_mono2 [of 9999 1 k] assms by simp
  ultimately show "- 1 \<le> Y div k" "Y div k \<le> 9999" by linarith+
qed

lemma mar_month_range: "1 \<le> m \<Longrightarrow> m \<le> 12 \<Longrightarrow> mar_month m + 1 \<in> {4..15}"
  by (auto simp: mar_month_def)

lemma mar_days:
  fixes E :: int
  assumes "E \<in> {4..15}"
  shows "122 \<le> 306001 * E div 10000" "306001 * E div 10000 \<le> 459"
proof -
  have "E = 4 \<or> E = 5 \<or> E = 6 \<or> E = 7 \<or> E = 8 \<or> E = 9 \<or> E = 10 \<or> E = 11 \<or> E = 12 \<or> E = 13 \<or> E = 14 \<or> E = 15" using assms unfolding atLeastAtMost_iff by presburger
  then show "122 \<le> 306001 * E div 10000" "306001 * E div 10000 \<le> 459" by (elim disjE; simp)+
qed

lemma exact_days:
  fixes n :: int
  assumes "\<bar>n\<bar> < 10000000"
  shows "ctrunc (fl (fl (of_int n - 3049 / 2) * 86400000)) = 86400000 * (n - 1524) - 43200000"
proof -
  have e: "(of_int n - 3049 / 2 :: rat) = of_int (2 * n - 3049) / 2 ^ 1" by simp
  have "fl (of_int (2 * n - 3049) / 2 ^ 1) = of_int (2 * n - 3049) / 2 ^ 1" by (rule fl_exact) (use assms in simp)
  then have f: "fl (of_int n - 3049 / 2) * 86400000 = of_int (86400000 * (n - 1524) - 43200000)" unfolding e by simp
  have "fl (of_int (86400000 * (n - 1524) - 43200000)) = of_int (86400000 * (n - 1524) - 43200000)" by (rule fl_int) (use assms in simp)
  then show ?thesis unfolding f by (simp only: ctrunc_int)
qed

lemma jd_days_valid:
  assumes v: "valid_date y m d"
  shows "jd_days y m d = Some (86400000 * day_number y m d - 43200000)"
proof -
  note b = valid_date_bounds [OF v]
  define Y M where "Y = mar_year y m" and "M = mar_month m"
  have YM: "(if m \<le> 2 then do { Y \<leftarrow> in_int (y - 1); Some (Y, m + 12) } else Some (y, m)) = Some (Y, M)"
    using b by (simp add: Y_def M_def mar_year_def mar_month_def)
  have Y: "- 1 \<le> Y" "Y \<le> 9999" using b by (auto simp: Y_def mar_year_def)
  have M: "M + 1 \<in> {4..15}" using mar_month_range b by (simp add: M_def)
  have X1: "ctrunc (fl (1461 / 4 * of_int (Y + 4716))) = 365 * Y + Y div 4 + 1722519"
    using fl_1461 [of "Y + 4716"] Y by (simp add: quarter_days)
  have X2: "ctrunc (fl (c30 * of_int (M + 1))) = 306001 * (M + 1) div 10000" using c30_times [OF M] .
  define X where "X = 306001 * (M + 1) div 10000"
  define S where "S = 365 * Y + Y div 4"
  define B where "B = Y div 400 - Y div 100"
  have n: "day_number y m d = S + B + X + d + 1720997" by (simp add: day_number_def year_day_def year_start_def Y_def M_def X_def S_def B_def)
  have Xb: "122 \<le> X" "X \<le> 459" using mar_days [OF M] by (simp_all add: X_def)
  have "Y div 4 \<le> 9999" "- 1 \<le> Y div 4" using div_range [OF Y] by simp_all
  then have Sb: "- 400 \<le> S" "S \<le> 3700000" using Y by (simp_all add: S_def)
  have Bb: "- 10000 \<le> B" "B \<le> 10000" using div_range [OF Y, of 400] div_range [OF Y, of 100] unfolding B_def by simp_all
  have Bc: "2 - cdiv Y 100 + cdiv (cdiv Y 100) 4 = B + 2" using century_days [OF Y(1)] by (simp add: B_def)
  have fin: "ctrunc (fl (fl (of_int (S + 1722519 + X + d + (B + 2)) - 3049 / 2) * 86400000)) = 86400000 * (S + B + X + d + 1720997) - 43200000"
    using exact_days [of "S + 1722519 + X + d + (B + 2)"] Sb Bb Xb b by (simp add: algebra_simps)
  have "in_int (Y + 4716) = Some (Y + 4716)" "in_int (M + 1) = Some (M + 1)" using Y M by simp_all
  moreover have "in_int (S + 1722519) = Some (S + 1722519)" "in_int X = Some X" "in_int (S + 1722519 + X) = Some (S + 1722519 + X)"
    "in_int (S + 1722519 + X + d) = Some (S + 1722519 + X + d)" "in_int (S + 1722519 + X + d + (B + 2)) = Some (S + 1722519 + X + d + (B + 2))"
    using Sb Bb Xb b by simp_all
  moreover have "in_i64 (86400000 * (S + B + X + d + 1720997) - 43200000) = Some (86400000 * (S + B + X + d + 1720997) - 43200000)"
    using Sb Bb Xb b by simp
  ultimately show ?thesis
    by (simp only: jd_days_def YM Let_def bind.bind_lunit prod.case X1 X2 X_def [symmetric] S_def [symmetric] Bc fin n)
qed

subsection \<open>From the day number to the date\<close>

lemma cdiv_unique:
  fixes a b n R :: int
  assumes "n = b * a + R" "0 \<le> R" "R < b"
  shows "0 \<le> a \<Longrightarrow> cdiv n b = a" "a < 0 \<Longrightarrow> R \<noteq> 0 \<Longrightarrow> cdiv n b = a + 1"
proof -
  have b: "0 < b" using assms by simp
  assume "0 \<le> a"
  then have "0 \<le> n" using assms b by simp
  moreover have "n div b = a" by (rule int_div_pos_eq [of _ _ _ R]) (use assms in simp_all)
  ultimately show "cdiv n b = a" using b by (simp add: cdiv_pos)
next
  have b: "0 < b" using assms by simp
  assume a: "a < 0" "R \<noteq> 0"
  have "b * a \<le> b * (- 1)" using a b by (intro mult_left_mono) auto
  then have "n < 0" using assms by simp
  moreover have "(- n) div b = - a - 1" by (rule int_div_pos_eq [of _ _ _ "b - R"]) (use assms a in \<open>simp_all add: algebra_simps\<close>)
  ultimately show "cdiv n b = a + 1" using b by (simp add: cdiv_neg)
qed

lemma century_correction:
  fixes a n R :: int
  assumes "n = 146097 * (a - 4) + R" "0 \<le> R" "R < 146097" "- 1 \<le> a" "a < 4 \<Longrightarrow> R \<noteq> 0"
  shows "cdiv n 146097 - cdiv (cdiv n 146097) 4 = a - a div 4 - 3"
proof (cases "4 \<le> a")
  case True
  then have "cdiv n 146097 = a - 4" using cdiv_unique(1) [OF assms(1-3)] by simp
  moreover have "(a - 4) div 4 = a div 4 - 1" by presburger
  ultimately show ?thesis using True by (simp add: cdiv_pos)
next
  case False
  then have q: "cdiv n 146097 = a - 3" using cdiv_unique(2) [OF assms(1-3)] assms(5) by simp
  moreover have "a = - 1 \<or> a = 0 \<or> a = 1 \<or> a = 2 \<or> a = 3" using False assms(4) by presburger
  ultimately show ?thesis unfolding q by (elim disjE) (simp_all add: cdiv_def)
qed

lemma year_quotient:
  fixes c n :: int
  assumes c: "0 \<le> c" "c \<le> 20000" and n: "123 \<le> n" "n \<le> 487 \<or> n = 488 \<and> c mod 4 = 3"
  shows "ctrunc (fl (fl (of_int (1461 * c div 4 + n) - c122) / (1461 / 4))) = c"
proof -
  define B where "B = 1461 * c div 4 + n"
  define s where "s = c mod 4"
  have s: "0 \<le> s" "s \<le> 3" unfolding s_def by presburger+
  have "c = 4 * (c div 4) + s" by (simp add: s_def)
  then have "4 * (1461 * c div 4) = 1461 * c - s" unfolding quarter_days by simp
  then have B: "4 * B = 1461 * c - s + 4 * n" by (simp add: B_def)
  have "(of_int (4 * B) :: rat) = of_int (1461 * c - s + 4 * n)" using B by (simp only:)
  then have Br: "(of_int B :: rat) = 1461 / 4 * of_int c - of_int s / 4 + of_int n" by simp
  define r where "r = (of_int B - 1221 / 10) / (1461 / 4 :: rat)"
  have sr: "(0 :: rat) \<le> of_int s" "of_int s \<le> (3 :: rat)" using s by simp_all
  have nr: "(123 :: rat) \<le> of_int n" "of_int n \<le> (487 :: rat) \<or> of_int n = (488 :: rat) \<and> of_int s = (3 :: rat)" using n by (auto simp: s_def)
  have cr: "(0 :: rat) \<le> of_int c" "of_int c \<le> (20000 :: rat)" using c by simp_all
  have rc: "r = of_int c + (of_int n - of_int s / 4 - 1221 / 10) / (1461 / 4)" unfolding r_def Br by (simp add: field_simps)
  have lo: "of_int c + 2 * (1 / 2 ^ 20) \<le> r" using nr(1) sr unfolding rc by simp
  have "of_int n - of_int s / 4 - 1221 / 10 \<le> (36515 / 100 :: rat)" using nr(2) sr by (elim disjE; linarith)
  then have "(of_int n - of_int s / 4 - 1221 / 10) / (1461 / 4) \<le> (36515 / 100 / (1461 / 4) :: rat)" by (intro divide_right_mono) simp_all
  also have "\<dots> < 1 - 2 * (1 / 2 ^ 20)" by simp
  finally have hi: "r + 2 * (1 / 2 ^ 20) < of_int c + 1" unfolding rc by (simp only: less_diff_eq add.assoc add_less_cancel_left)
  have "of_int n \<le> (488 :: rat)" using nr(2) by (elim disjE; linarith)
  then have "(0 :: rat) \<le> of_int B - c122" "of_int B - c122 \<le> (8000000 :: rat)" using c122_range nr(1) sr cr unfolding Br by linarith+
  then have bb: "\<bar>of_int B - c122\<bar> \<le> (8000000 :: rat)" by simp
  then have "\<bar>fl (of_int B - c122) - (of_int B - c122)\<bar> \<le> 1 / 2 ^ 30" using fl_error [of "of_int B - c122"] by simp
  then have d: "\<bar>fl (of_int B - c122) - (of_int B - c122)\<bar> \<le> 1 / 2 ^ 30" .
  have "(1 :: rat) / 2 ^ 30 + 1 / 2 ^ 46 \<le> 1 / 2 ^ 20" by simp
  then have e: "\<bar>fl (of_int B - c122) - (of_int B - 1221 / 10)\<bar> \<le> 1 / 2 ^ 20" using c122_bound d by linarith
  have "fl (of_int B - c122) / (1461 / 4) - r = (fl (of_int B - c122) - (of_int B - 1221 / 10)) / (1461 / 4)" unfolding r_def by (simp only: diff_divide_distrib)
  moreover have "\<bar>D / (1461 / 4)\<bar> = \<bar>D\<bar> / (1461 / 4)" for D :: rat by (simp add: abs_mult)
  ultimately have "\<bar>fl (of_int B - c122) / (1461 / 4) - r\<bar> = \<bar>fl (of_int B - c122) - (of_int B - 1221 / 10)\<bar> / (1461 / 4)" by (simp only:)
  also have "\<dots> \<le> 1 / 2 ^ 20" using e by simp
  finally have "\<bar>fl (of_int B - c122) / (1461 / 4) - r\<bar> \<le> 1 / 2 ^ 20" .
  moreover have "\<bar>fl (of_int B - c122) / (1461 / 4)\<bar> \<le> 1 / 2 ^ 20 * 2 ^ 53"
  proof -
    have "(1 :: rat) / 2 ^ 30 \<le> 1" by simp
    then have "\<bar>fl (of_int B - c122)\<bar> \<le> 8000001" using d bb by linarith
    then show ?thesis by (simp add: abs_divide)
  qed
  ultimately show ?thesis unfolding B_def [symmetric] by (intro fl_near [OF _ c(1) lo hi])
qed

lemma year_day_margins:
  assumes "valid_date y m d"
  shows "306001 * (mar_month m + 1) + 4 \<le> 10000 * year_day m d" "10000 * year_day m d + 4 \<le> 306001 * (mar_month m + 1 + 1)"
proof -
  note b = valid_date_bounds [OF assms]
  have "month_days y 2 \<le> 29" by (simp add: month_days_def)
  moreover have "month_days y 4 = 30" "month_days y 6 = 30" "month_days y 9 = 30" "month_days y 11 = 30" by (simp_all add: month_days_def)
  moreover have "d \<le> month_days y m" using assms by (simp add: valid_date_def)
  ultimately have d: "m = 2 \<Longrightarrow> d \<le> 29" "m = 4 \<Longrightarrow> d \<le> 30" "m = 6 \<Longrightarrow> d \<le> 30" "m = 9 \<Longrightarrow> d \<le> 30" "m = 11 \<Longrightarrow> d \<le> 30" by auto
  show "306001 * (mar_month m + 1) + 4 \<le> 10000 * year_day m d"
    using month_cases [OF b(3,4)] b(5) by (elim disjE) (simp_all add: year_day_def mar_month_def)
  show "10000 * year_day m d + 4 \<le> 306001 * (mar_month m + 1 + 1)"
    using month_cases [OF b(3,4)] b(6) d by (elim disjE) (simp_all add: year_day_def mar_month_def)
qed

lemma month_quotient:
  assumes v: "valid_date y m d"
  shows "ctrunc (fl (of_int (year_day m d) / c30)) = mar_month m + 1"
  using c30_quotient [OF mar_month_range year_day_margins] assms valid_date_bounds by blast

text \<open>Centuries, years and days of the number of a date.\<close>

lemma day_number_centuries:
  fixes a k yd :: int
  assumes k: "0 \<le> k" "k < 100" and Y: "Y = k + 100 * a"
  shows "4 * (year_start Y + yd + 1720997) - 7468865 = 146097 * (a - 4) + (1460 * k + 4 * (k div 4) + 4 * yd - a mod 4 - 489)"
    and "year_start Y + a - a div 4 = 365 * Y + Y div 4"
proof -
  have "k + 100 * a = k + 4 * (25 * a)" by simp
  then have Y4: "Y div 4 = k div 4 + 25 * a" unfolding Y by (simp only: div_mult_self2 zero_neq_numeral [symmetric] not_False_eq_True)
  have Y100: "Y div 100 = a" using k by (simp add: Y)
  then have "Y div 400 = a div 4" using zdiv_zmult2_eq [of 4 Y 100] by simp
  then have s: "year_start Y = 36524 * a + 365 * k + k div 4 + a div 4" unfolding year_start_def Y4 Y100 by (simp add: Y)
  then show "year_start Y + a - a div 4 = 365 * Y + Y div 4" unfolding Y4 by (simp add: Y)
  have "4 * (a div 4) = a - a mod 4" by (simp add: minus_mod_eq_mult_div)
  then show "4 * (year_start Y + yd + 1720997) - 7468865 = 146097 * (a - 4) + (1460 * k + 4 * (k div 4) + 4 * yd - a mod 4 - 489)"
    unfolding s by simp
qed

lemma year_day_bounds:
  assumes v: "valid_date y m d"
  shows "123 \<le> year_day m d" "year_day m d \<le> 487 \<or> year_day m d = 488 \<and> leap_year (mar_year y m + 1)"
    and "year_day m d = 123 \<Longrightarrow> m = 3 \<and> d = 1"
proof -
  note b = valid_date_bounds [OF v]
  have "d \<le> month_days y m" using v by (simp add: valid_date_def)
  then have f: "m = 2 \<Longrightarrow> d \<le> 28 \<or> d = 29 \<and> leap_year y" by (auto simp: month_days_def split: if_splits)
  show "123 \<le> year_day m d" "year_day m d = 123 \<Longrightarrow> m = 3 \<and> d = 1"
    using month_cases [OF b(3,4)] b(5) by (elim disjE; simp add: year_day_def mar_month_def)+
  show "year_day m d \<le> 487 \<or> year_day m d = 488 \<and> leap_year (mar_year y m + 1)"
    using month_cases [OF b(3,4)] b(6) f by (elim disjE) (auto simp: year_day_def mar_month_def mar_year_def)
qed

lemma leap_mod:
  assumes "leap_year (Y + 1)"
  shows "Y mod 4 = 3" and "Y mod 100 = 99 \<Longrightarrow> Y div 100 mod 4 = 3"
proof -
  have "4 dvd Y + 1" using assms by (simp add: leap_year_def)
  then show "Y mod 4 = 3" by presburger
  assume k: "Y mod 100 = 99"
  define a where "a = Y div 100"
  have Y: "Y + 1 = 100 * (a + 1)" using k mult_div_mod_eq [of 100 Y] by (simp add: a_def)
  then have "400 dvd Y + 1" using assms by (simp add: leap_year_def)
  then have "100 * 4 dvd 100 * (a + 1)" unfolding Y by simp
  then have "4 dvd a + 1" by (simp only: dvd_mult_cancel_left) simp
  then show "Y div 100 mod 4 = 3" unfolding a_def [symmetric] by presburger
qed

lemma century_remainder:
  assumes v: "valid_date y m d"
  defines "Y \<equiv> mar_year y m"
  defines "R \<equiv> 1460 * (Y mod 100) + 4 * (Y mod 100 div 4) + 4 * year_day m d - Y div 100 mod 4 - 489"
  shows "0 \<le> R" "R < 146097" "R = 0 \<Longrightarrow> Y mod 100 = 0 \<and> Y div 100 mod 4 = 3 \<and> m = 3 \<and> d = 1"
proof -
  note yd = year_day_bounds [OF v, folded Y_def]
  define k r where "k = Y mod 100" and "r = Y div 100 mod 4"
  have k: "0 \<le> k" "k \<le> 99" using pos_mod_sign [of 100 Y] pos_mod_bound [of 100 Y] unfolding k_def by linarith+
  have r: "0 \<le> r" "r \<le> 3" using pos_mod_sign [of 4 "Y div 100"] pos_mod_bound [of 4 "Y div 100"] unfolding r_def by linarith+
  have k4: "0 \<le> k div 4" "k div 4 \<le> 24" using k by linarith+
  have R: "R = 1460 * k + 4 * (k div 4) + 4 * year_day m d - r - 489" by (simp add: R_def k_def r_def)
  show "0 \<le> R" using k r k4 yd(1) unfolding R by linarith
  have "k = 99 \<Longrightarrow> year_day m d = 488 \<Longrightarrow> r = 3" using yd(2) leap_mod(2) [of Y] by (auto simp: k_def r_def)
  then show "R < 146097" using k r k4 yd(2) unfolding R by linarith
  show "R = 0 \<Longrightarrow> Y mod 100 = 0 \<and> Y div 100 mod 4 = 3 \<and> m = 3 \<and> d = 1"
  proof -
    assume "R = 0"
    then have "k = 0" "r = 3" "year_day m d = 123" using k r k4 yd(1) unfolding R by linarith+
    then show ?thesis using yd(3) by (simp add: k_def r_def)
  qed
qed

text \<open>The steps of computeYMD for the number of a date.\<close>

lemma century_step:
  assumes v: "valid_date y m d" and ne: "(y, m, d) \<noteq> (300, 3, 1)"
  defines "Z \<equiv> day_number y m d" and "Y \<equiv> mar_year y m"
  defines "A \<equiv> ctrunc (fl (fl (of_int Z - 7468865 / 4) / (146097 / 4)))"
  shows "- 5 \<le> A" "A \<le> 100" "Z + 1 + A - cdiv A 4 + 1524 = 1461 * (Y + 4716) div 4 + year_day m d"
proof -
  note b = valid_date_bounds [OF v]
  have Y: "- 1 \<le> Y" "Y \<le> 9999" using b by (auto simp: Y_def mar_year_def)
  define a where "a = Y div 100"
  have a: "- 1 \<le> a" "a \<le> 99" using Y unfolding a_def by presburger+
  note dn = day_number_centuries(1) [of "Y mod 100" Y a "year_day m d"] day_number_centuries(2) [of "Y mod 100" Y a]
  have Zd: "Z = year_start Y + year_day m d + 1720997" by (simp add: Z_def Y_def day_number_def)
  define R where "R = 1460 * (Y mod 100) + 4 * (Y mod 100 div 4) + 4 * year_day m d - a mod 4 - 489"
  have R: "0 \<le> R" "R < 146097" "R = 0 \<Longrightarrow> Y mod 100 = 0 \<and> a mod 4 = 3 \<and> m = 3 \<and> d = 1"
    using century_remainder [OF v, folded Y_def, folded a_def, folded R_def] by blast+
  have n: "4 * Z - 7468865 = 146097 * (a - 4) + R" and ys: "year_start Y + a - a div 4 = 365 * Y + Y div 4"
    using dn by (simp_all add: a_def Zd R_def)
  have R0: "R \<noteq> 0" if "a < 4"
  proof
    assume "R = 0"
    then have *: "Y mod 100 = 0" "a mod 4 = 3" "m = 3" "d = 1" using R(3) by auto
    then have "0 \<le> a" using Y a b mult_div_mod_eq [of 100 Y] by (simp add: a_def Y_def mar_year_def)
    then have "a = 3" using *(2) that by simp
    then have "Y = 300" using *(1) mult_div_mod_eq [of 100 Y] by (simp add: a_def)
    then show False using *(3,4) ne by (simp add: Y_def mar_year_def)
  qed
  have nb: "\<bar>4 * Z - 7468865\<bar> < 2 ^ 32" unfolding n using a R(1,2) by (simp add: abs_less_iff)
  have e: "(of_int Z - 7468865 / 4 :: rat) = of_int (4 * Z - 7468865) / 2 ^ 2" by simp
  have "fl (of_int Z - 7468865 / 4) = (of_int (4 * Z - 7468865) / 2 ^ 2 :: rat)" unfolding e by (rule fl_exact) (use nb in simp)
  moreover have "(of_int (4 * Z - 7468865) / 2 ^ 2) / (146097 / 4) = (of_int (4 * Z - 7468865) / of_int 146097 :: rat)" by simp
  ultimately have q: "fl (of_int Z - 7468865 / 4) / (146097 / 4) = (of_int (4 * Z - 7468865) / of_int 146097 :: rat)" by (simp only:)
  have A: "A = cdiv (4 * Z - 7468865) 146097" unfolding A_def q by (rule fl_quotient [OF _ _ nb]) simp_all
  have "A - cdiv A 4 = a - a div 4 - 3" unfolding A by (rule century_correction [OF n R(1,2) a(1) R0])
  then show "Z + 1 + A - cdiv A 4 + 1524 = 1461 * (Y + 4716) div 4 + year_day m d" using ys Zd by (simp add: quarter_days)
  have "A = a - 4 \<or> A = a - 3" unfolding A using cdiv_unique [OF n R(1,2)] R0 by (cases "a < 4") auto
  then show "- 5 \<le> A" "A \<le> 100" using a by auto
qed

lemma day_number_range:
  assumes "valid_date y m d"
  shows "1700000 \<le> day_number y m d" "day_number y m d \<le> 6000000"
proof -
  note b = valid_date_bounds [OF assms]
  define Y where "Y = mar_year y m"
  have Y: "- 1 \<le> Y" "Y \<le> 9999" using b by (auto simp: Y_def mar_year_def)
  have yd: "123 \<le> year_day m d" "year_day m d \<le> 488" using year_day_bounds [OF assms] by auto
  show "1700000 \<le> day_number y m d" "day_number y m d \<le> 6000000"
    using yd Y div_range [OF Y, of 4] div_range [OF Y, of 100] div_range [OF Y, of 400]
    unfolding day_number_def Y_def [symmetric] year_start_def by simp_all
qed

lemma computeYMD_day:
  assumes v: "valid_date y m d" and ne: "(y, m, d) \<noteq> (300, 3, 1)"
    and p: "validJD p" "\<not> validYMD p" "iJD p = 86400000 * day_number y m d - 43200000 + t" and t: "0 \<le> t" "t < 86400000"
  shows "computeYMD p = Some (p\<lparr>dt_D := d, dt_M := m, dt_Y := y, validYMD := True\<rparr>)"
proof -
  note b = valid_date_bounds [OF v]
  define Y Z A c yd where "Y = mar_year y m" and "Z = day_number y m d"
    and "A = ctrunc (fl (fl (of_int (day_number y m d) - 7468865 / 4) / (146097 / 4)))"
    and "c = Y + 4716" and "yd = year_day m d"
  have Y: "- 1 \<le> Y" "Y \<le> 9999" using b by (auto simp: Y_def mar_year_def)
  have A: "- 5 \<le> A" "A \<le> 100" and B: "Z + 1 + A - cdiv A 4 + 1524 = 1461 * c div 4 + yd"
    using century_step [OF v ne] unfolding A_def Z_def c_def yd_def Y_def by auto
  note Z = day_number_range [OF v, folded Z_def]
  have "0 \<le> A \<Longrightarrow> 0 \<le> A div 4 \<and> A div 4 \<le> 100" "A < 0 \<Longrightarrow> 0 \<le> (- A) div 4 \<and> (- A) div 4 \<le> 100" using A by presburger+
  then have cA: "\<bar>cdiv A 4\<bar> \<le> 100" by (cases "0 \<le> A") (auto simp: cdiv_pos cdiv_neg)
  have cZ: "cdiv (iJD p + 43200000) 86400000 = Z"
    using cdiv_unique(1) [of "iJD p + 43200000" 86400000 Z t] p(3) t Z by (simp add: Z_def)
  have ydb: "123 \<le> yd" "yd \<le> 487 \<or> yd = 488 \<and> c mod 4 = 3"
  proof -
    have "Y mod 4 = 3 \<Longrightarrow> c mod 4 = 3" unfolding c_def by presburger
    then show "123 \<le> yd" "yd \<le> 487 \<or> yd = 488 \<and> c mod 4 = 3"
      using year_day_bounds [OF v] leap_mod(1) [of Y] by (auto simp: yd_def Y_def)
  qed
  then have yd488: "yd \<le> 488" by auto
  have cb: "0 \<le> c" "c \<le> 20000" using Y by (simp_all add: c_def)
  have C: "ctrunc (fl (fl (of_int (1461 * c div 4 + yd) - c122) / (1461 / 4))) = c" by (rule year_quotient [OF cb ydb])
  have D: "ctrunc (fl (1461 / 4 * of_int c)) = 1461 * c div 4" by (rule fl_1461) (use cb in simp_all)
  have E: "ctrunc (fl (of_int yd / c30)) = mar_month m + 1" unfolding yd_def by (rule month_quotient [OF v])
  have Er: "mar_month m + 1 \<in> {4..15}" by (rule mar_month_range [OF b(3,4)])
  note X1 = c30_times [OF Er]
  define X where "X = 306001 * (mar_month m + 1) div 10000"
  have X: "yd - X = d" "122 \<le> X" "X \<le> 459" using mar_days [OF Er] by (simp_all add: yd_def X_def year_day_def)
  define w where "w = 1461 * c div 4"
  have w: "0 \<le> w" "w \<le> 8000000" using cb unfolding w_def quarter_days by simp_all
  define E1 where "E1 = mar_month m + 1"
  have E1: "4 \<le> E1" "E1 \<le> 15" using Er by (simp_all add: E1_def)
  have i64: "in_i64 (iJD p + 43200000) = Some (iJD p + 43200000)" using p(3) t Z by (simp add: Z_def)
  have ints: "in_int Z = Some Z" "in_int A = Some A" "in_int (Z + 1) = Some (Z + 1)" "in_int (Z + 1 + A) = Some (Z + 1 + A)"
    "in_int (Z + 1 + A - cdiv A 4) = Some (Z + 1 + A - cdiv A 4)" "in_int (w + yd) = Some (w + yd)"
    "in_int c = Some c" "in_int w = Some w" "in_int yd = Some yd" "in_int E1 = Some E1" "in_int X = Some X" "in_int d = Some d"
    using Z A cA w ydb(1) yd488 cb X(2,3) E1 b by simp_all
  have wy: "w + yd - w = yd" by simp
  have fin: "(if E1 < 14 then E1 - 1 else E1 - 13) = m" "(if m > 2 then c - 4716 else c - 4715) = y"
    using b by (auto simp: E1_def mar_month_def c_def Y_def mar_year_def)
  show ?thesis
    using p(1,2)
    by (simp only: computeYMD_def if_False if_True not_True_eq_False i64 bind.bind_lunit cZ Z_def [symmetric] ints
        A_def [symmetric, folded Z_def] B w_def [symmetric] C [folded w_def] D [folded w_def] wy E E1_def [symmetric] X1 [folded E1_def X_def] X(1) Let_def fin)
qed

lemma computeJD_date:
  assumes "valid_date (dt_Y p) (dt_M p) (dt_D p)" "\<not> validJD p" "validYMD p" "\<not> validHMS p"
  shows "computeJD p = Some (p\<lparr>iJD := 86400000 * day_number (dt_Y p) (dt_M p) (dt_D p) - 43200000, validJD := True\<rparr>)"
  using assms jd_days_valid [OF assms(1)] by (simp add: computeJD_def)

text \<open>A time of day with whole seconds.\<close>

definition day_ms :: "int \<Rightarrow> int \<Rightarrow> int \<Rightarrow> int" where
  "day_ms h m s = 3600000 * h + 60000 * m + 1000 * s"

definition valid_time :: "int \<Rightarrow> int \<Rightarrow> int \<Rightarrow> bool" where
  "valid_time h m s \<longleftrightarrow> 0 \<le> h \<and> h < 24 \<and> 0 \<le> m \<and> m < 60 \<and> 0 \<le> s \<and> s < 60"

lemma computeJD_day:
  assumes v: "valid_date (dt_Y p) (dt_M p) (dt_D p)" and t: "valid_time (dt_h p) (dt_m p) s" "dt_s p = of_int s"
    and p: "\<not> validJD p" "validYMD p" "validHMS p" "\<not> validTZ p"
  shows "computeJD p = Some (p\<lparr>iJD := 86400000 * day_number (dt_Y p) (dt_M p) (dt_D p) - 43200000 + day_ms (dt_h p) (dt_m p) s, validJD := True\<rparr>)"
proof -
  define J where "J = 86400000 * day_number (dt_Y p) (dt_M p) (dt_D p) - 43200000"
  have J: "0 \<le> J" "J < 2 ^ 50" using day_number_range [OF v] by (simp_all add: J_def)
  define c where "c = dt_h p * 3600000 + dt_m p * 60000"
  have c: "0 \<le> c" "c < 86400000" and s: "0 \<le> s" "s < 60" using t(1) by (simp_all add: c_def valid_time_def)
  have "fl (of_int (s * 1000)) = of_int (s * 1000)" "fl (of_int (c + s * 1000)) = of_int (c + s * 1000)"
    "fl (of_int J) = of_int J" "fl (of_int (J + (c + s * 1000))) = of_int (J + (c + s * 1000))"
    by (rule fl_int; use s c J in simp)+
  then have e: "fl (of_int s * 1000) = of_int s * 1000" "fl (of_int c + of_int s * 1000) = of_int c + of_int s * 1000"
    "fl (of_int J) = of_int J" "fl (of_int J + (of_int c + of_int s * 1000)) = of_int J + (of_int c + of_int s * 1000)" by simp_all
  have "in_int (dt_h p * 3600000) = Some (dt_h p * 3600000)" "in_int (dt_m p * 60000) = Some (dt_m p * 60000)" "in_int c = Some c"
    "in_i64 (J + (c + s * 1000)) = Some (J + (c + s * 1000))" using t(1) c s J by (simp_all add: valid_time_def)
  moreover have "ctrunc (of_int J + (of_int c + of_int s * 1000)) = J + (c + s * 1000)" using ctrunc_int [of "J + (c + s * 1000)"] by simp
  ultimately have "computeJD p = Some (p\<lparr>iJD := J, validJD := True, iJD := J + (c + s * 1000)\<rparr>)"
    using p jd_days_valid [OF v] by (simp add: computeJD_def J_def [symmetric] c_def [symmetric] t(2) e)
  moreover have "c + s * 1000 = day_ms (dt_h p) (dt_m p) s" by (simp add: c_def day_ms_def)
  ultimately show ?thesis by (simp add: J_def)
qed

lemma computeHMS_day:
  assumes t: "valid_time h m s" and N: "0 \<le> N" "N < 10000000"
    and p: "validJD p" "\<not> validHMS p" "iJD p = 86400000 * N - 43200000 + day_ms h m s"
  shows "computeHMS p = Some (p\<lparr>dt_s := of_int s, dt_h := h, dt_m := m, validHMS := True\<rparr>)"
proof -
  have b: "0 \<le> day_ms h m s" "day_ms h m s < 86400000" using t by (simp_all add: day_ms_def valid_time_def)
  have t0: "iJD p + 43200000 = 86400000 * N + day_ms h m s" using p(3) by simp
  have c: "crem (iJD p + 43200000) 86400000 = day_ms h m s"
    using cdiv_unique(1) [OF t0 b N(1)] t0 by (simp add: crem_def)
  define k where "k = 3600 * h + 60 * m + s"
  have k: "0 \<le> k" "k < 86400" using t by (simp_all add: k_def valid_time_def)
  have "(of_int (day_ms h m s) / 1000 :: rat) = of_int k" by (simp add: day_ms_def k_def)
  then have r: "fl (of_int (day_ms h m s) / 1000) = of_int k" using fl_int [of k] k by simp
  have h: "cdiv k 3600 = h" by (rule cdiv_unique(1) [of _ _ _ "60 * m + s"]) (use t in \<open>simp_all add: k_def valid_time_def\<close>)
  have m: "cdiv (k - h * 3600) 60 = m" by (rule cdiv_unique(1) [of _ _ _ s]) (use t in \<open>simp_all add: k_def valid_time_def\<close>)
  have s: "k - h * 3600 - m * 60 = s" by (simp add: k_def)
  have "fl (of_int s) = of_int s" by (rule fl_int) (use t in \<open>simp add: valid_time_def\<close>)
  moreover have "in_i64 (iJD p + 43200000) = Some (iJD p + 43200000)" unfolding t0 using b N by simp
  moreover have "fl 0 = 0" by (simp add: fl_def)
  ultimately show ?thesis
    using p(1,2) by (simp add: computeHMS_def computeJD_def c r Let_def h m s del: of_int_diff)
qed

definition moment :: "int \<Rightarrow> int \<Rightarrow> int \<Rightarrow> int \<Rightarrow> int \<Rightarrow> int \<Rightarrow> int" where
  "moment y m d h mt s = 86400000 * day_number y m d - 43200000 + day_ms h mt s"

lemma day_ms_range: "valid_time h m s \<Longrightarrow> 0 \<le> day_ms h m s \<and> day_ms h m s < 86400000"
  by (simp add: day_ms_def valid_time_def)

lemma computeYMD_HMS_day:
  assumes v: "valid_date y m d" "(y, m, d) \<noteq> (300, 3, 1)" and t: "valid_time h mt s"
    and p: "validJD p" "\<not> validYMD p" "\<not> validHMS p" "iJD p = moment y m d h mt s"
  shows "computeYMD_HMS p = Some (p\<lparr>dt_D := d, dt_M := m, dt_Y := y, validYMD := True, dt_s := of_int s, dt_h := h, dt_m := mt, validHMS := True\<rparr>)"
proof -
  define q where "q = p\<lparr>dt_D := d, dt_M := m, dt_Y := y, validYMD := True\<rparr>"
  have "computeYMD p = Some q"
    unfolding q_def by (rule computeYMD_day [OF v p(1,2), of "day_ms h mt s"]) (use p(4) day_ms_range [OF t] in \<open>simp_all add: moment_def\<close>)
  moreover have "computeHMS q = Some (q\<lparr>dt_s := of_int s, dt_h := h, dt_m := mt, validHMS := True\<rparr>)"
    by (rule computeHMS_day [OF t, of "day_number y m d"]) (use p day_number_range [OF v(1)] in \<open>simp_all add: q_def moment_def\<close>)
  ultimately show ?thesis by (simp add: computeYMD_HMS_def q_def)
qed

text \<open>
  C11: A date of the years 0 to 9999 with a time of whole seconds that computeJD makes a day number is
  the same date and time after computeYMD_HMS, with the single exception of the first of March 300.
\<close>

theorem datetime_roundtrip:
  assumes "valid_date (dt_Y p) (dt_M p) (dt_D p)" "(dt_Y p, dt_M p, dt_D p) \<noteq> (300, 3, 1)"
    and "valid_time (dt_h p) (dt_m p) s" "dt_s p = of_int s"
    and "\<not> validJD p" "validYMD p" "validHMS p" "\<not> validTZ p"
  shows "do { p \<leftarrow> computeJD p; computeYMD_HMS (clearYMD_HMS_TZ p) } =
    Some (p\<lparr>iJD := moment (dt_Y p) (dt_M p) (dt_D p) (dt_h p) (dt_m p) s, validJD := True\<rparr>)"
proof -
  have "computeJD p = Some (p\<lparr>iJD := moment (dt_Y p) (dt_M p) (dt_D p) (dt_h p) (dt_m p) s, validJD := True\<rparr>)"
    unfolding moment_def by (rule computeJD_day [OF assms(1,3-8)])
  then show ?thesis
    using computeYMD_HMS_day [OF assms(1-3), of "clearYMD_HMS_TZ (p\<lparr>iJD := moment (dt_Y p) (dt_M p) (dt_D p) (dt_h p) (dt_m p) s, validJD := True\<rparr>)"] assms(4-8)
    by (simp add: clearYMD_HMS_TZ_def)
qed

theorem datetime_roundtrip_witness:
  "(let p = zero_DateTime\<lparr>dt_Y := 2000, dt_M := 2, dt_D := 29, dt_h := 23, dt_m := 59, dt_s := 58, validYMD := True, validHMS := True\<rparr> in
     do { p \<leftarrow> computeJD p; computeYMD_HMS (clearYMD_HMS_TZ p) } = Some (p\<lparr>iJD := 211818628798000, validJD := True\<rparr>))"
  unfolding Let_def
  using datetime_roundtrip [of "zero_DateTime\<lparr>dt_Y := 2000, dt_M := 2, dt_D := 29, dt_h := 23, dt_m := 59, dt_s := 58, validYMD := True, validHMS := True\<rparr>" 58]
  by (simp add: zero_DateTime_def valid_date_def month_days_def leap_year_def valid_time_def moment_def day_ms_def day_number_def
      year_start_def year_day_def mar_year_def mar_month_def)

text \<open>The days counted from the first of January of the year 0, one date after the other.\<close>

primrec calendar :: "nat \<Rightarrow> int \<times> int \<times> int" where
  "calendar 0 = (0, 1, 1)"
| "calendar (Suc n) = (case calendar n of (y, m, d) \<Rightarrow> next_date y m d)"

lemma next_date_valid:
  assumes "valid_date y m d" "next_date y m d = (y', m', d')" "y' \<le> 9999"
  shows "valid_date y' m' d'"
proof -
  have "1 \<le> month_days y' m'" by (simp add: month_days_def)
  then show ?thesis using assms by (auto simp: valid_date_def next_date_def split: if_splits)
qed

lemma calendar_number:
  "calendar n = (y, m, d) \<Longrightarrow> y \<le> 9999 \<Longrightarrow> valid_date y m d \<and> day_number y m d = 1721060 + int n"
proof (induction n arbitrary: y m d)
  case 0
  then show ?case by (auto simp: valid_date_def month_days_def leap_year_def day_number_def year_start_def year_day_def mar_year_def mar_month_def)
next
  case (Suc n)
  obtain y0 m0 d0 where c: "calendar n = (y0, m0, d0)" by (cases "calendar n") auto
  then have n: "next_date y0 m0 d0 = (y, m, d)" using Suc.prems(1) by simp
  then have "y0 \<le> 9999" using Suc.prems(2) by (auto simp: next_date_def split: if_splits)
  then have "valid_date y0 m0 d0 \<and> day_number y0 m0 d0 = 1721060 + int n" using Suc.IH c by blast
  then show ?case using next_date_valid [OF _ n Suc.prems(2)] day_number_next [OF _ n] by simp
qed

text \<open>
  C20: computeJD counts the days of the Gregorian calendar: of the n-th date after the first of January
  of the year 0 it makes that day's number plus n days.
\<close>

theorem julian_day_counts_dates:
  assumes "calendar n = (dt_Y p, dt_M p, dt_D p)" "dt_Y p \<le> 9999" "\<not> validJD p" "validYMD p" "\<not> validHMS p"
  shows "computeJD p = Some (p\<lparr>iJD := 148699540800000 + 86400000 * int n, validJD := True\<rparr>)"
  using calendar_number [OF assms(1,2)] computeJD_date [of p] assms(3-5) by simp

theorem julian_day_counts_dates_witness:
  "computeJD (zero_DateTime\<lparr>dt_Y := 0, dt_M := 2, dt_D := 2, validYMD := True\<rparr>) =
     Some (zero_DateTime\<lparr>dt_Y := 0, dt_M := 2, dt_D := 2, validYMD := True, iJD := 148702305600000, validJD := True\<rparr>)"
  using julian_day_counts_dates [of 32 "zero_DateTime\<lparr>dt_Y := 0, dt_M := 2, dt_D := 2, validYMD := True\<rparr>"]
  by (simp add: zero_DateTime_def next_date_def month_days_def eval_nat_numeral)

text \<open>
  The first of March 300. The quotient \<open>(Z - 1867216.25)/36524.25\<close> is -1 on that day and a little more on
  every other day of the century before, where the conversion to int makes it 0.
\<close>

lemma first_of_march_300:
  assumes "validJD p" "\<not> validYMD p" "iJD p = 86400000 * day_number 300 3 1 - 43200000"
  shows "computeYMD p = Some (p\<lparr>dt_D := 29, dt_M := 2, dt_Y := 300, validYMD := True\<rparr>) \<and> \<not> valid_date 300 2 29"
proof -
  have n: "day_number 300 3 1 = 1830692" by (simp add: day_number_def year_start_def year_day_def mar_year_def mar_month_def)
  have "fl (of_int (- 146097) / 2 ^ 2) = of_int (- 146097) / 2 ^ 2" by (rule fl_exact) simp
  then have A: "ctrunc (fl (fl (of_int 1830692 - 7468865 / 4) / (146097 / 4))) = - 1"
    using fl_int [of "- 1"] ctrunc_int [of "- 1"] by simp
  have C: "ctrunc (fl (fl (of_int 1832216 - c122) / (1461 / 4))) = 5015" using year_quotient [of 5015 488] by simp
  have D: "ctrunc (fl (1461 / 4 * of_int 5015)) = 1831728" using fl_1461 [of 5015] by simp
  have E: "ctrunc (fl (of_int 488 / c30)) = 15" using c30_quotient [of 15 488] by simp
  have X: "ctrunc (fl (c30 * of_int 15)) = 459" using c30_times [of 15] by simp
  have J: "iJD p = 158171745600000" using assms(3) by (simp add: n)
  show ?thesis
    using assms(1,2) J by (simp add: computeYMD_def A [simplified] C [simplified] D [simplified] E [simplified] X [simplified] cdiv_def valid_date_def month_days_def leap_year_def)
qed

subsection \<open>Reading a formatted date\<close>

definition digit :: "int \<Rightarrow> char" where
  "digit k = char_of (nat (48 + k))"

definition two_digits :: "int \<Rightarrow> char list" where
  "two_digits k = [digit (k div 10), digit (k mod 10)]"

definition date_text :: "int \<Rightarrow> int \<Rightarrow> int \<Rightarrow> char list" where
  "date_text y m d = two_digits (y div 100) @ two_digits (y mod 100) @ [CHR ''-''] @ two_digits m @ [CHR ''-''] @ two_digits d"

definition time_text :: "int \<Rightarrow> int \<Rightarrow> int \<Rightarrow> char list" where
  "time_text h m s = two_digits h @ [CHR '':''] @ two_digits m @ [CHR '':''] @ two_digits s"

lemma digit_code:
  assumes "0 \<le> k" "k < 10"
  shows "(of_char (digit k) :: nat) = nat (48 + k)" "isdigit (digit k)" "\<not> isspace (digit k)" "digit k \<noteq> CHR ''-''" "digit k \<noteq> CHR ''T''" "digit k \<noteq> NUL"
proof -
  show c: "(of_char (digit k) :: nat) = nat (48 + k)" using assms by (simp add: digit_def)
  have "48 \<le> nat (48 + k)" "nat (48 + k) \<le> 57" using assms by linarith+
  then show "isdigit (digit k)" "\<not> isspace (digit k)" unfolding isdigit_def isspace_def c by simp_all
  have "(of_char (CHR ''-'') :: nat) = 45" "(of_char (CHR ''T'') :: nat) = 84" "(of_char NUL :: nat) = 0" by simp_all
  then show "digit k \<noteq> CHR ''-''" "digit k \<noteq> CHR ''T''" "digit k \<noteq> NUL" using c assms by auto
qed

lemma digit_val: "0 \<le> k \<Longrightarrow> k < 10 \<Longrightarrow> int (of_char (digit k)) = 48 + k"
  using digit_code(1) [of k] by simp

lemma get_num_digit:
  "0 \<le> k \<Longrightarrow> k < 10 \<Longrightarrow> get_num (Suc N) (digit k # z) v = get_num N z (v * 10 + k)"
  using digit_val [of k] by (simp add: digit_code)

lemma get_num_two:
  assumes "0 \<le> k" "k < 100"
  shows "get_num (Suc (Suc N)) (two_digits k @ z) v = get_num N z (v * 100 + k)"
proof -
  have d: "0 \<le> k div 10" "k div 10 < 10" "0 \<le> k mod 10" "k mod 10 < 10" using assms by auto
  have "(v * 10 + k div 10) * 10 + k mod 10 = v * 100 + k" by (simp add: algebra_simps)
  then show ?thesis unfolding two_digits_def by (simp only: append_Cons append_Nil get_num_digit [OF d(1,2)] get_num_digit [OF d(3,4)])
qed

lemma getDigits_two:
  assumes "0 \<le> k" "k < 100" "lo \<le> k" "k \<le> hi"
  shows "getDigits (two_digits k @ c # z) [(2, lo, hi, NUL)] = Some [k]"
    and "c \<noteq> NUL \<Longrightarrow> getDigits (two_digits k @ c # z) ((2, lo, hi, c) # gs) = map_option (Cons k) (getDigits z gs)"
  using get_num_two [OF assms(1,2), of 0 "c # z" 0] assms(3,4)
  by (simp_all add: numeral_2_eq_2 map_option_bind comp_def) (cases "getDigits z gs"; simp)+

lemma getDigits_date:
  assumes "0 \<le> y" "y \<le> 9999" "1 \<le> m" "m \<le> 12" "1 \<le> d" "d \<le> 31"
  shows "getDigits (date_text y m d @ c # z) [(4, 0, 9999, CHR ''-''), (2, 1, 12, CHR ''-''), (2, 1, 31, NUL)] = Some [y, m, d]"
proof -
  have y: "0 \<le> y div 100" "y div 100 < 100" "0 \<le> y mod 100" "y mod 100 < 100" using assms by auto
  have "get_num (Suc (Suc (Suc (Suc 0)))) (two_digits (y div 100) @ two_digits (y mod 100) @ CHR ''-'' # x) 0 = Some (Some (y, CHR ''-'' # x))" for x
    unfolding get_num_two [OF y(1,2)] get_num_two [OF y(3,4)] by simp
  then have "getDigits (two_digits (y div 100) @ two_digits (y mod 100) @ CHR ''-'' # x) ((4, 0, 9999, CHR ''-'') # gs) = map_option (Cons y) (getDigits x gs)" for x gs
    using assms by (simp add: eval_nat_numeral map_option_bind comp_def) (cases "getDigits x gs"; simp)
  then show ?thesis
    using getDigits_two [of m 1 12 "CHR ''-''"] getDigits_two(1) [of d 1 31 c z] assms by (simp add: date_text_def)
qed

lemma parseTimezone_end: "parseTimezone (NUL # z) p = Some (False, p\<lparr>dt_tz := 0\<rparr>)"
  by (simp add: parseTimezone_def isspace_def)

lemma parseHhMmSs_text:
  assumes "valid_time h m s"
  shows "parseHhMmSs (time_text h m s @ NUL # z) p =
    Some (False, p\<lparr>validJD := False, validHMS := True, dt_h := h, dt_m := m, dt_s := of_int s, dt_tz := 0, validTZ := False\<rparr>)"
proof -
  have b: "0 \<le> h" "h \<le> 24" "h < 100" "0 \<le> m" "m \<le> 59" "m < 100" "0 \<le> s" "s \<le> 59" "s < 100" using assms by (simp_all add: valid_time_def)
  have d1: "getDigits (two_digits h @ CHR '':'' # two_digits m @ CHR '':'' # x) [(2, 0, 24, CHR '':''), (2, 0, 59, NUL)] = Some [h, m]" for x
    using getDigits_two(2) [of h 0 24 "CHR '':''" _ "[(2, 0, 59, NUL)]"] getDigits_two(1) [of m 0 59] b by simp
  have d2: "getDigits (two_digits s @ NUL # z) [(2, 0, 59, NUL)] = Some [s]" using getDigits_two(1) b by simp
  have "fl (of_int s) = of_int s" by (rule fl_int) (use b in simp)
  moreover have "drop 5 (two_digits h @ CHR '':'' # two_digits m @ x) = x" "drop 2 (two_digits s @ x) = x" for x by (simp_all add: two_digits_def)
  ultimately show ?thesis
    unfolding parseHhMmSs_def time_text_def by (simp add: d1 d2 parseTimezone_end del: getDigits.simps)
qed

lemma formatted_datetime_is_read:
  assumes "valid_date y m d" "valid_time h mt s"
  shows "parseYyyyMmDd (date_text y m d @ CHR '' '' # time_text h mt s @ NUL # z) p =
    Some (False, p\<lparr>validJD := False, validYMD := True, dt_Y := y, dt_M := m, dt_D := d,
      validHMS := True, dt_h := h, dt_m := mt, dt_s := of_int s, dt_tz := 0, validTZ := False\<rparr>)"
proof -
  note b = valid_date_bounds [OF assms(1)]
  have y: "0 \<le> y div 100 div 10" "y div 100 div 10 < 10" using b by auto
  have h: "0 \<le> h div 10" "h div 10 < 10" using assms(2) by (auto simp: valid_time_def)
  have c0: "peek (date_text y m d @ x) 0 = Some (digit (y div 100 div 10))" for x by (simp add: date_text_def two_digits_def)
  have dr: "drop 10 (date_text y m d @ x) = x" for x by (simp add: date_text_def two_digits_def eval_nat_numeral)
  have t: "skip_while (\<lambda>c. isspace c \<or> c = CHR ''T'') (CHR '' '' # time_text h mt s @ NUL # z) = Some (time_text h mt s @ NUL # z)"
    using digit_code [OF h] by (simp add: time_text_def two_digits_def isspace_def [of "CHR '' ''"])
  have p0: "peek (time_text h mt s @ x) 0 = Some (digit (h div 10))" for x by (simp add: time_text_def two_digits_def)
  show ?thesis
    unfolding parseYyyyMmDd_def
    by (simp add: c0 digit_code(4) [OF y] getDigits_date [OF b] dr t parseHhMmSs_text [OF assms(2)] p0 del: getDigits.simps skip_while.simps drop_append)
qed

end
