(* ===== verification/DateModifiers.thy ===== *)
theory DateModifiers
  imports Calendar
begin

text \<open>What the modifiers of date.c do to a time.\<close>

subsection \<open>The text of a modifier\<close>

lemma lower_copy_text:
  "NUL \<notin> set s \<Longrightarrow> length s \<le> n \<Longrightarrow> lower_copy n (s @ NUL # z) = Some (map tolower s @ [NUL])"
proof (induction s arbitrary: n)
  case Nil
  then show ?case by (cases n) auto
next
  case (Cons c s)
  then show ?case by (cases n) auto
qed

lemma tolower_digit: "isdigit c \<Longrightarrow> tolower c = c"
  by (auto simp: tolower_def isdigit_def)

lemma tolower_digits: "\<forall>c \<in> set cs. isdigit c \<Longrightarrow> map tolower cs = cs"
  by (induction cs) (auto simp: tolower_digit)

subsection \<open>Days, hours, minutes and seconds\<close>

lemma fl_half:
  assumes "\<bar>k\<bar> < 2 ^ 51"
  shows "fl (of_int k + 1 / 2) = of_int k + 1 / 2"
proof -
  have e: "(of_int k + 1 / 2 :: rat) = of_int (2 * k + 1) / 2 ^ 1" by simp
  show ?thesis unfolding e by (rule fl_exact) (use assms in simp)
qed

lemma ctrunc_half: "0 \<le> k \<Longrightarrow> ctrunc (of_int k + 1 / 2) = k"
  by (rule ctrunc_nonneg) (auto intro: floor_unique)

lemma add_ms_int:
  assumes x: "\<bar>x\<bar> < 2 ^ 50" and p: "0 \<le> iJD p" "iJD p < 2 ^ 50" "0 \<le> iJD p + x"
  shows "add_ms (of_int x) p = Some (p\<lparr>iJD := iJD p + x\<rparr>)"
proof -
  have "fl (of_int x + 1 / 2) = of_int x + 1 / 2" "fl (of_int (iJD p + x) + 1 / 2) = of_int (iJD p + x) + 1 / 2"
    by (rule fl_half; use x p in simp)+
  moreover have "fl (of_int (iJD p)) = of_int (iJD p)" by (rule fl_int) (use p in simp)
  ultimately have "fl (fl (of_int (iJD p)) + fl (of_int x + 1 / 2)) = of_int (iJD p + x) + 1 / 2" by (simp add: add.assoc)
  then show ?thesis using p x ctrunc_half [OF p(3)] by (simp only: add_ms_def) simp
qed

definition date_units :: "(string \<times> int) list" where
  "date_units = [(''day'', 86400000), (''hour'', 3600000), (''minute'', 60000), (''second'', 1000)]"

lemma cstr_text: "NUL \<notin> set s \<Longrightarrow> cstr (s @ [NUL]) = s"
  using cstr_NUL [of s "[]"] by simp

lemma mod_units_unit:
  assumes u: "(u, ms) \<in> set date_units" "w = u \<or> w = u @ ''s''"
    and k: "\<bar>k\<bar> \<le> 10000000" and p: "computeJD p = Some q" "0 \<le> iJD q" "iJD q < 2 ^ 50" "0 \<le> iJD q + k * ms"
  shows "mod_units (of_int k) (CHR '' '' # w @ [NUL]) p = Some (False, clearYMD_HMS_TZ (q\<lparr>iJD := iJD q + k * ms\<rparr>))"
proof -
  have ms: "0 < ms" "ms \<le> 86400000" using u(1) by (auto simp: date_units_def)
  have "\<bar>k * ms\<bar> \<le> 10000000 * 86400000" unfolding abs_mult using k ms by (intro mult_mono) auto
  then have x: "\<bar>k * ms\<bar> < 2 ^ 50" by simp
  have a: "add_ms (of_int k * of_int ms) q = Some (q\<lparr>iJD := iJD q + k * ms\<rparr>)" using add_ms_int [OF x p(2-4)] by simp
  have f: "fl (of_int k * of_int ms) = of_int k * of_int ms" using fl_int [of "k * ms"] x by simp
  have w: "NUL \<notin> set w" using u by (auto simp: date_units_def)
  have sk: "skip_while isspace (CHR '' '' # w @ [NUL]) = Some (w @ [NUL])" using u by (auto simp: date_units_def isspace_def)
  have l: "(length w > 10 \<or> length w < 3) = False" "(if last w = CHR ''s'' then butlast w else w) = u" using u by (auto simp: date_units_def)
  have un: "u = ''day'' \<and> ms = 86400000 \<or> u = ''hour'' \<and> ms = 3600000 \<or> u = ''minute'' \<and> ms = 60000 \<or> u = ''second'' \<and> ms = 1000"
    using u(1) by (simp add: date_units_def)
  show ?thesis
    unfolding mod_units_def sk bind.bind_lunit cstr_text [OF w] Let_def l p(1) if_False
    using un a f by (elim disjE conjE) simp_all
qed

lemma date_unit_text:
  "(u, ms) \<in> set date_units \<Longrightarrow> w = u \<or> w = u @ ''s'' \<Longrightarrow> NUL \<notin> set w \<and> length w \<le> 7 \<and> map tolower w = w"
  by (auto simp: date_units_def tolower_def)

text \<open>
  C25: The modifiers that add or take away a whole number of days, hours, minutes or seconds, at most
  \<open>10 ^ 7\<close> of them with or without a sign, change a time by exactly that many milliseconds: the time that
  computeJD makes of the date and time at hand, as long as the result is not negative.
\<close>

theorem unit_modifier_adds:
  assumes ld: "\<forall>k. \<bar>k\<bar> < 2 ^ 53 \<longrightarrow> ld (of_int k) = of_int k"
    and cs: "\<forall>c \<in> set cs. isdigit c" "cs \<noteq> []" "length cs \<le> 20" "digits_val cs 0 \<le> 10000000"
    and sg: "(sg, k) \<in> {('''', digits_val cs 0), (''+'', digits_val cs 0), (''-'', - digits_val cs 0)}"
    and u: "(u, ms) \<in> set date_units" "w = u \<or> w = u @ ''s''"
    and p: "computeJD p = Some q" "0 \<le> iJD q" "iJD q < 2 ^ 50" "0 \<le> iJD q + k * ms"
  shows "parseModifier ld lt (sg @ cs @ CHR '' '' # w @ NUL # z) p = Some (False, clearYMD_HMS_TZ (q\<lparr>iJD := iJD q + k * ms\<rparr>))"
proof -
  note w = date_unit_text [OF u]
  have v: "0 \<le> digits_val cs 0" using digits_val_mono [OF cs(1), of 0] by simp
  then have k: "\<bar>k\<bar> \<le> 10000000" using sg cs(4) by auto
  have s: "NUL \<notin> set sg" "map tolower sg = sg" "tolower (CHR '' '') = CHR '' ''" "length sg \<le> 1" using sg by (auto simp: tolower_def)
  have n: "NUL \<notin> set cs" using cs(1) isdigit_not(5) by blast
  let ?t = "sg @ cs @ CHR '' '' # w"
  have "lower_copy 29 (?t @ NUL # z) = Some (map tolower ?t @ [NUL])"
    by (rule lower_copy_text) (use s n w cs(3) in auto)
  then have lc: "lower_copy 29 (sg @ cs @ CHR '' '' # w @ NUL # z) = Some (sg @ cs @ CHR '' '' # w @ [NUL])"
    using s w tolower_digits [OF cs(1)] by simp
  have e: "\<not> isdigit (CHR '' '')" "CHR '' '' \<noteq> CHR ''.''" "CHR '' '' \<noteq> CHR ''e''" "CHR '' '' \<noteq> CHR ''E''" by (simp_all add: isdigit_def)
  have b: "digits_val cs 0 < 2 ^ 53" using cs(4) by simp
  have ld': "\<And>k. \<bar>k\<bar> < 2 ^ 53 \<Longrightarrow> ld (of_int k) = of_int k" using ld by blast
  have at: "sqlite3AtoF ld (sg @ cs @ CHR '' '' # w @ [NUL]) = Some (of_int k, length (sg @ cs))"
    using sg AtoF_integer [OF ld' cs(1,2) b e, of "w @ [NUL]"] by auto
  have d: "peek (sg @ cs @ CHR '' '' # w @ [NUL]) (length (sg @ cs)) = Some (CHR '' '')"
    "drop (length (sg @ cs)) (sg @ cs @ CHR '' '' # w @ [NUL]) = CHR '' '' # w @ [NUL]"
    by (simp_all add: peek_def nth_append)
  obtain c y where c: "sg @ cs @ CHR '' '' # w @ [NUL] = c # y" "c = CHR ''+'' \<or> c = CHR ''-'' \<or> isdigit c"
    using sg cs(1,2) by (cases cs) auto
  then have c': "c \<noteq> CHR ''l''" "c \<noteq> CHR ''u''" "c \<noteq> CHR ''w''" "c \<noteq> CHR ''s''" by (auto simp: isdigit_def)
  have p0: "peek (sg @ cs @ CHR '' '' # w @ [NUL]) 0 = Some c" unfolding c(1) by simp
  have cc: "(CHR '' '' = CHR '':'') = False" by simp
  show ?thesis
    unfolding parseModifier_def lc bind.bind_lunit p0 if_not_P [OF c'(1)] if_not_P [OF c'(2)] if_not_P [OF c'(3)] if_not_P [OF c'(4)] if_P [OF c(2)] at prod.case d cc if_False
    by (rule mod_units_unit [OF u k p])
qed

theorem unit_modifier_adds_witness:
  "\<exists>q. parseModifier fl (\<lambda>_. undefined) (''+12 hours'' @ [NUL])
      (zero_DateTime\<lparr>dt_Y := 2000, dt_M := 1, dt_D := 1, dt_h := 12, validYMD := True, validHMS := True\<rparr>) = Some (False, q)
    \<and> iJD q = 211813488000000 + 43200000"
proof -
  let ?p = "zero_DateTime\<lparr>dt_Y := 2000, dt_M := 1, dt_D := 1, dt_h := 12, validYMD := True, validHMS := True\<rparr>"
  have "moment 2000 1 1 12 0 0 = 211813488000000"
    by (simp add: moment_def day_ms_def day_number_def year_start_def year_day_def mar_year_def mar_month_def)
  moreover have "valid_date 2000 1 1" "valid_time 12 0 0" by (simp_all add: valid_date_def month_days_def valid_time_def)
  ultimately obtain q where q: "computeJD ?p = Some q" "iJD q = 211813488000000"
    using computeJD_day [of ?p 0] by (simp add: zero_DateTime_def moment_def)
  have cs: "\<forall>c \<in> set ''12''. isdigit c" "''12'' \<noteq> []" "length ''12'' \<le> 20" "digits_val ''12'' 0 \<le> 10000000"
    by (simp_all add: isdigit_def digit_of_def)
  have "parseModifier fl (\<lambda>_. undefined) (''+'' @ ''12'' @ CHR '' '' # ''hours'' @ NUL # []) ?p
      = Some (False, clearYMD_HMS_TZ (q\<lparr>iJD := iJD q + 12 * 3600000\<rparr>))"
    by (rule unit_modifier_adds [OF _ cs _ _ _ q(1), where u = "''hour''"]) (simp_all add: fl_int digit_of_def date_units_def q(2))
  then show ?thesis using q(2) by (simp add: clearYMD_HMS_TZ_def)
qed

subsection \<open>The day of the week\<close>

text \<open>Sunday is 0; the day after a Saturday is a Sunday.\<close>

definition weekday :: "int \<Rightarrow> int \<Rightarrow> int \<Rightarrow> int" where
  "weekday y m d = (day_number y m d + 1) mod 7"

lemma crem_days:
  assumes "0 \<le> N" "0 \<le> t" "t < 86400000"
  shows "crem (cdiv (86400000 * N + t) 86400000) 7 = N mod 7"
  using cdiv_unique(1) [of "86400000 * N + t" 86400000 N t] assms by (simp add: crem_pos)

lemma mod_weekday_moves:
  assumes v: "valid_date y m d" "(y, m, d) \<noteq> (300, 3, 1)" and t: "valid_time h mt s" and n: "0 \<le> n" "n < 7"
    and p: "validJD p" "\<not> validYMD p" "\<not> validHMS p" "iJD p = moment y m d h mt s"
  shows "map_option iJD (mod_weekday n p) = Some (iJD p + (n - weekday y m d) mod 7 * 86400000)"
proof -
  define q where "q = p\<lparr>dt_D := d, dt_M := m, dt_Y := y, validYMD := True, dt_s := of_int s, dt_h := h, dt_m := mt, validHMS := True\<rparr>"
  have 1: "computeYMD_HMS p = Some q" unfolding q_def by (rule computeYMD_HMS_day [OF v t p])
  obtain q' where 2: "computeJD (q\<lparr>validTZ := False, validJD := False\<rparr>) = Some q'" and q2: "iJD q' = moment y m d h mt s"
    using computeJD_day [of "q\<lparr>validTZ := False, validJD := False\<rparr>" s] v t by (simp add: q_def moment_def)
  note N = day_number_range [OF v(1)] and D = day_ms_range [OF t]
  define Z where "Z = weekday y m d"
  have Z: "0 \<le> Z" "Z < 7" by (simp_all add: Z_def weekday_def)
  have e: "moment y m d h mt s + 129600000 = 86400000 * (day_number y m d + 1) + day_ms h mt s" by (simp add: moment_def)
  have 3: "crem (cdiv (moment y m d h mt s + 129600000) 86400000) 7 = Z"
    unfolding e Z_def weekday_def by (rule crem_days) (use N D in simp_all)
  obtain Zc where Zc: "(if Z > n then Z - 7 else Z) = Zc" by simp
  have w: "(n - Z) mod 7 = n - (if Z > n then Z - 7 else Z)"
  proof (cases "Z > n")
    case True
    have "(n - Z) mod 7 = (n - Z + 7) mod 7" by simp
    also have "\<dots> = n - Z + 7" by (rule mod_pos_pos_trivial) (use True Z n in simp_all)
    finally show ?thesis using True by simp
  next
    case False
    then have "(n - Z) mod 7 = n - Z" by (intro mod_pos_pos_trivial) (use Z n in simp_all)
    then show ?thesis using False by simp
  qed
  have w': "(n - Z) mod 7 = n - Zc" using w unfolding Zc .
  have 4: "in_i64 (moment y m d h mt s + 129600000) = Some (moment y m d h mt s + 129600000)" using N D by (simp add: moment_def)
  have "in_i64 (moment y m d h mt s + k * 86400000) = Some (moment y m d h mt s + k * 86400000)" if "0 \<le> k" "k < 7" for k
    using N D that by (simp add: moment_def)
  from this [of "(n - Z) mod 7"] have 5: "in_i64 (moment y m d h mt s + (n - Zc) * 86400000) = Some (moment y m d h mt s + (n - Zc) * 86400000)"
    unfolding w' using w' pos_mod_bound [of 7 "n - Z"] pos_mod_sign [of 7 "n - Z"] by simp
  show ?thesis
    unfolding Z_def [symmetric] w' p(4) mod_weekday_def 1 bind.bind_lunit 2 q2 4 Let_def 3 Zc 5
    by (simp add: clearYMD_HMS_TZ_def)
qed

text \<open>
  C21: The modifier \<open>weekday N\<close> moves a time of whole seconds with a valid Julian day to the next day
  with the number N, Sunday being 0, at most six days ahead and at the same time of the day. The first of January of the year 0 is a
  Saturday.
\<close>

theorem weekday_modifier_moves:
  assumes ld: "\<forall>k. \<bar>k\<bar> < 2 ^ 53 \<longrightarrow> ld (of_int k) = of_int k"
    and v: "calendar i = (y, m, d)" "y \<le> 9999" "(y, m, d) \<noteq> (300, 3, 1)" and t: "valid_time h mt s" and n: "0 \<le> n" "n < 7"
    and p: "validJD p" "\<not> validYMD p" "\<not> validHMS p" "iJD p = moment y m d h mt s"
  shows "\<exists>j q. parseModifier ld lt (''weekday '' @ digit n # NUL # z) p = Some (False, q) \<and> j < 7 \<and>
    iJD q = iJD p + 86400000 * int j \<and> (6 + int (i + j)) mod 7 = n"
proof -
  have vd: "valid_date y m d" "day_number y m d = 1721060 + int i" using calendar_number [OF v(1,2)] by auto
  obtain q where q: "mod_weekday n p = Some q" "iJD q = iJD p + (n - weekday y m d) mod 7 * 86400000"
    using mod_weekday_moves [OF vd(1) v(3) t n p] by auto
  define j where "j = (n - weekday y m d) mod 7"
  have j: "0 \<le> j" "j < 7" by (simp_all add: j_def)
  have "(6 + int i + j) mod 7 = (6 + int i + (n - weekday y m d)) mod 7" unfolding j_def by (rule mod_add_right_eq)
  also have "\<dots> = (n + (6 + int i - (1721061 + int i) mod 7)) mod 7" unfolding weekday_def vd(2) by (simp add: algebra_simps)
  also have "\<dots> = (n + (6 + int i - (1721061 + int i))) mod 7" by (metis mod_add_right_eq mod_diff_right_eq)
  also have "\<dots> = (n + 7 * (- 245865)) mod 7" by simp
  also have "\<dots> = n" unfolding mod_mult_self2 using n by simp
  finally have w: "(6 + int (i + nat j)) mod 7 = n" using j by (simp add: add.assoc)
  have dg: "isdigit (digit n)" using digit_code(2) n by simp
  have lc: "lower_copy 29 (''weekday '' @ digit n # NUL # z) = Some (''weekday '' @ [digit n, NUL])"
    using lower_copy_text [of "''weekday '' @ [digit n]" 29 z] tolower_digit [OF dg] isdigit_not(5) [OF dg] by (simp add: tolower_def)
  have ld': "\<And>k. \<bar>k\<bar> < 2 ^ 53 \<Longrightarrow> ld (of_int k) = of_int k" using ld by blast
  have dv: "digits_val [digit n] 0 = n" using digit_val [of n] n by (simp add: digit_of_def)
  have a: "sqlite3AtoF ld [digit n, NUL] = Some (of_int n, 1)"
    using AtoF_integer(1) [OF ld', of "[digit n]" NUL "[]"] dg dv n by (simp add: isdigit_def [of NUL])
  have cs: "cstr (''weekday '' @ [digit n, NUL]) = ''weekday '' @ [digit n]"
    using cstr_NUL [of "''weekday '' @ [digit n]" "[]"] isdigit_not(5) [OF dg] by simp
  have "in_int n = Some n" using n by simp
  then have "parseModifier ld lt (''weekday '' @ digit n # NUL # z) p = Some (False, q)"
    unfolding parseModifier_def lc using a cs q(1) n by simp
  then show ?thesis using q(2) j w by (intro exI [of _ "nat j"] exI [of _ q]) (simp add: j_def mult.commute)
qed

theorem weekday_modifier_moves_witness:
  "\<exists>j q. parseModifier fl (\<lambda>_. undefined) (''weekday 0'' @ [NUL]) (zero_DateTime\<lparr>iJD := 148699540801000, validJD := True\<rparr>) = Some (False, q) \<and> j < 7 \<and>
     iJD q = 148699540801000 + 86400000 * int j \<and> (6 + int j) mod 7 = 0"
proof -
  have "moment 0 1 1 0 0 1 = 148699540801000"
    by (simp add: moment_def day_ms_def day_number_def year_start_def year_day_def mar_year_def mar_month_def)
  moreover have "digit 0 = CHR ''0''" by (simp add: digit_def char_of_def bit_0)
  ultimately show ?thesis
    using weekday_modifier_moves [of fl 0 0 1 1 0 0 1 0 "zero_DateTime\<lparr>iJD := 148699540801000, validJD := True\<rparr>" "\<lambda>_. undefined" "[]"]
    by (simp add: fl_int valid_time_def zero_DateTime_def)
qed

subsection \<open>Months\<close>

text \<open>Whole months are added to the month and carried into the year.\<close>

lemma month_carry:
  fixes M :: int
  shows "(if M > 0 then cdiv (M - 1) 12 else cdiv (M - 12) 12) = (M - 1) div 12"
proof (cases "M > 0")
  case False
  define w r where "w = (M - 1) div 12" and "r = (M - 1) mod 12"
  have r: "0 \<le> r" "r \<le> 11" using pos_mod_sign [of 12 "M - 1"] pos_mod_bound [of 12 "M - 1"] unfolding r_def by linarith+
  have M: "M - 1 = 12 * w + r" unfolding w_def r_def by (rule mult_div_mod_eq [symmetric])
  have "(12 - M) div 12 = - w" by (rule int_div_pos_eq [of _ _ _ "11 - r"]) (use M r in simp_all)
  then have "- ((12 - M) div 12) = (M - 1) div 12" unfolding w_def by simp
  then show ?thesis using False by (simp add: cdiv_neg)
qed (simp add: cdiv_pos)

lemma add_months_date:
  assumes v: "valid_date y m d" "(y, m, d) \<noteq> (300, 3, 1)" and t: "valid_time h mt s"
    and p: "validJD p" "\<not> validYMD p" "\<not> validHMS p" "\<not> validTZ p" "iJD p = moment y m d h mt s"
    and k: "\<bar>k\<bar> < 1000000" and v': "valid_date y' m' d" "12 * y' + m' = 12 * y + m + k"
  shows "map_option iJD (add_months (of_int k) p) = Some (moment y' m' d h mt s)"
proof -
  define q where "q = p\<lparr>dt_D := d, dt_M := m, dt_Y := y, validYMD := True, dt_s := of_int s, dt_h := h, dt_m := mt, validHMS := True\<rparr>"
  have 1: "computeYMD_HMS p = Some q" unfolding q_def by (rule computeYMD_HMS_day [OF v t p(1-3,5)])
  note b = valid_date_bounds [OF v(1)] and b' = valid_date_bounds [OF v'(1)]
  have "(m + k - 1) div 12 = y' - y" by (rule int_div_pos_eq [of _ _ _ "m' - 1"]) (use b' v'(2) in simp_all)
  then have x: "(if m + k > 0 then cdiv (m + k - 1) 12 else cdiv (m + k - 12) 12) = y' - y" using month_carry [of "m + k"] by simp
  have m': "m + k - (y' - y) * 12 = m'" using v'(2) by simp
  have f: "fl (of_int m + of_int k) = of_int (m + k)" using fl_int [of "m + k"] b k by simp
  have i: "in_int (m + k) = Some (m + k)" "in_int (m + k - 12) = Some (m + k - 12)" "in_int y' = Some y'" "in_int ((y' - y) * 12) = Some ((y' - y) * 12)" "in_int k = Some k"
    using b b' k by simp_all
  have 2: "computeJD (q\<lparr>dt_M := m', dt_Y := y', validJD := False\<rparr>) = Some (q\<lparr>dt_M := m', dt_Y := y', validJD := False, iJD := moment y' m' d h mt s, validJD := True\<rparr>)"
    using computeJD_day [of "q\<lparr>dt_M := m', dt_Y := y', validJD := False\<rparr>" s] v' t p(4) by (simp add: q_def moment_def)
  have xs: "(if m + k > 0 then Some (cdiv (m + k - 1) 12) else Some (cdiv (m + k - 12) 12)) = Some (y' - y)" using x by (simp split: if_splits)
  have qf: "dt_M q = m" "dt_Y q = y" by (simp_all add: q_def)
  have yy: "y + (y' - y) = y'" by simp
  show ?thesis
    unfolding add_months_def 1 bind.bind_lunit qf f ctrunc_int i xs yy m' 2 by simp
qed

subsection \<open>Start of week\<close>

text \<open>The comment of parseModifier lists \<open>start of week\<close>; the code refuses it.\<close>

lemma start_of_week_is_refused:
  "validYMD p \<Longrightarrow> map_option fst (parseModifier ld lt (''start of week'' @ [NUL]) p) = Some True"
  by (simp add: parseModifier_def eval_nat_numeral tolower_def isdigit_def mod_start_def computeYMD_def cstr_def peek_def Let_def)

subsection \<open>The function julianday\<close>

lemma parseDateOrTime_text:
  assumes "valid_date y m d" "valid_time h mt s"
  shows "parseDateOrTime ld now (date_text y m d @ CHR '' '' # time_text h mt s @ NUL # z) p =
    Some (False, p\<lparr>validJD := False, validYMD := True, dt_Y := y, dt_M := m, dt_D := d,
      validHMS := True, dt_h := h, dt_m := mt, dt_s := of_int s, dt_tz := 0, validTZ := False\<rparr>)"
  unfolding parseDateOrTime_def formatted_datetime_is_read [OF assms] by simp

text \<open>
  C26: The SQL function julianday on a text with a date and a time gives the day number of
  that time, rounded once.
\<close>

theorem julianday_of_text:
  assumes "valid_date y m d" "valid_time h mt s" "arg_type a = SQLITE_TEXT"
    and "arg_text a = Some (date_text y m d @ CHR '' '' # time_text h mt s @ NUL # z)"
  shows "juliandayFunc ld lt now [a] = Some (Some (fl (of_int (moment y m d h mt s) / 86400000)))"
proof -
  define p where "p = zero_DateTime\<lparr>validJD := False, validYMD := True, dt_Y := y, dt_M := m, dt_D := d,
      validHMS := True, dt_h := h, dt_m := mt, dt_s := of_int s, dt_tz := 0, validTZ := False\<rparr>"
  have "isDate ld lt now [a] = Some (False, p)"
    using assms(3,4) parseDateOrTime_text [OF assms(1,2)] by (simp add: isDate_def p_def SQLITE_TEXT_def SQLITE_FLOAT_def SQLITE_INTEGER_def)
  moreover obtain q where "computeJD p = Some q" "iJD q = moment y m d h mt s"
    using computeJD_day [of p s] assms(1,2) by (simp add: p_def moment_def)
  moreover have "fl (of_int (moment y m d h mt s)) = of_int (moment y m d h mt s)"
    using fl_int [of "moment y m d h mt s"] day_number_range [OF assms(1)] day_ms_range [OF assms(2)] by (simp add: moment_def)
  ultimately show ?thesis by (simp add: juliandayFunc_def)
qed

theorem julianday_of_text_witness:
  "juliandayFunc fl (\<lambda>_. undefined) 0 [\<lparr>arg_type = SQLITE_TEXT, arg_double = 0, arg_text = Some (''2000-01-01 12:00:00'' @ [NUL])\<rparr>] = Some (Some 2451545)"
proof -
  have "valid_date 2000 1 1" "valid_time 12 0 0" by (simp_all add: valid_date_def month_days_def valid_time_def)
  moreover have "date_text 2000 1 1 @ CHR '' '' # time_text 12 0 0 @ NUL # [] = ''2000-01-01 12:00:00'' @ [NUL]"
    by (simp add: date_text_def time_text_def two_digits_def digit_def char_of_def bit_0)
  moreover have "moment 2000 1 1 12 0 0 = 211813488000000"
    by (simp add: moment_def day_ms_def day_number_def year_start_def year_day_def mar_year_def mar_month_def)
  ultimately show ?thesis
    using julianday_of_text [of 2000 1 1 12 0 0 "\<lparr>arg_type = SQLITE_TEXT, arg_double = 0, arg_text = Some (''2000-01-01 12:00:00'' @ [NUL])\<rparr>" "[]" fl "\<lambda>_. undefined" 0]
      fl_int [of 2451545] by simp
qed

end
