(* ===== verification/Spec2Isabelle.thy ===== *)
theory Spec2Isabelle
  imports Varint Bitvec Complete HashTable Prng Fifo VdbeMem RecordFormat Mem5 Pattern BtreeList DateModifiers
begin

text \<open>
  A verification development for the SQL engine of the Symbian persistent-data services: SQLite
  3.6.4, as the repository holds it in src/persistentstorage/sql/SQLite364. The engine turns SQL
  text into programs of a virtual machine, whose values are kept in cells, stored as records in
  the pages of B-trees, and read and written through a pager. What is modelled here are the
  layers of that engine that are self-contained: the encodings of the file format, the values and
  their order, the records, the pages of the B-trees, the text side of the compiler, and the data
  structures and allocators that the rest uses. The build is the one the Symbian sources set up: a
  single-threaded engine on a machine with 32-bit int and pointers and a 64-bit i64.

  \<^bold>\<open>Conventions.\<close> Integers of C are words of their width where the code relies on it
  (\<open>u8\<close>, \<open>u16\<close>, \<open>u32\<close>, \<open>u64\<close>, \<open>i64\<close>) and nat or int elsewhere, with the conversions of the code
  written out. A pointer into a buffer is the list of bytes from there on. A definition of type
  \<open>_ option\<close> gives \<open>None\<close> exactly where the C code would leave a buffer, overflow a signed integer,
  follow a dangling pointer or not return; a theorem that concludes with \<open>Some\<close> says that none of
  this happens. Two accumulators are the exception, where the code lets a signed integer overflow on
  input that it then rejects or replaces: the digits of sqlite3Atoi64 (\<open>atoi_digits\<close>) and the
  continuation bytes of sqlite3Utf8Read (\<open>utf8_cont\<close>) wrap around in the model. Result codes are the numbers of sqlite3.h. A list of booleans \<open>al\<close> tells which of the
  next allocations fail, so that the paths after a failed malloc are part of every model. Structures
  that are linked by pointers live in a store from addresses to records.

  \<^bold>\<open>Theories and code.\<close>

  \<^item> \<open>Prelude\<close>: result codes, buffers with checked access, allocation lists, lemmas on lists and
    words; the collections \<open>codes\<close> and \<open>buf_simps\<close>.
  \<^item> \<open>Varint\<close> (util.c: sqlite3PutVarint, sqlite3GetVarint and their 32-bit forms,
    sqlite3VarintLen, sqlite3Get4byte, sqlite3Put4byte): the unrolled decoder equals the format read
    byte by byte, and decoding inverts encoding.
  \<^item> \<open>TextUtil\<close> (util.c, global.c: case-insensitive comparison, sqlite3Dequote, sqlite3IsNumber,
    sqlite3Atoi64, sqlite3GetInt32, sqlite3FitsIn64Bits, sqlite3HexToBlob).
  \<^item> \<open>Tokenize\<close> (tokenize.c: sqlite3GetToken, the token loop of sqlite3RunParser; keywords and the
    parser itself are parameters) and \<open>Complete\<close> (complete.c: sqlite3_complete with its transition
    table).
  \<^item> \<open>HashTable\<close> (hash.c): the schema's hash table in a store of elements: list, chains, rehashing.
    The locale \<open>symbol_table\<close> is what its users rely on.
  \<^item> \<open>Bitvec\<close> (bitvec.c): bitmap, hash or tree of sub-maps; the locale \<open>page_set\<close> is the set of page
    numbers the pager sees. \<open>Prng\<close> (random.c). \<open>Fifo\<close> (vdbefifo.c) with the locale \<open>row_queue\<close>.
    \<open>Mem5\<close> (mem5.c): the buddy allocator, with the locale \<open>allocator\<close>; a request without room is
    undefined, since the search for a free list then reads behind their array.
  \<^item> \<open>Utf\<close> (utf.c: the READ and WRITE macros, the conversion loops), \<open>Double\<close> (the type double as
    bit patterns) and \<open>VdbeMem\<close> (vdbemem.c: the cells, with their flags, encodings, ownership and
    conversions).
  \<^item> \<open>Serial\<close> (vdbeaux.c: serial types), \<open>Compare\<close> (vdbemem.c, main.c: sqlite3MemCompare and the
    built-in collations, with the locale \<open>comparison\<close> for everything that orders keys; numbers are
    ordered by the rational number they stand for, which the code follows as long as a real number
    meets integers below 2^53 only) and
    \<open>RecordFormat\<close> (vdbeaux.c, vdbe.c: OP_MakeRecord, sqlite3VdbeRecordUnpack,
    sqlite3VdbeRecordCompare).
  \<^item> \<open>BtreePage\<close> (btree.c, btreeInt.h: the page header, cells, free blocks, insertCell, dropCell,
    allocateSpace, freeSpace, defragmentPage, sqlite3BtreeInitPage, zeroPage, assemblePage),
    \<open>BtreeSpace\<close> (the bytes of a page as free, used and fragment blocks), \<open>BtreeCells\<close> (the page
    invariant and what each operation does to it) and \<open>BtreeList\<close> (pages as lists of cells, with
    the locale \<open>cell_store\<close>).
  \<^item> \<open>Pattern\<close> (func.c: patternCompare, likeFunc).
  \<^item> \<open>Rounding\<close> (doubles as rounded rational numbers, sqlite3AtoF of util.c), \<open>DateTime\<close> (date.c: the
    DateTime record, the texts and the modifiers it is read from, julianday), \<open>Calendar\<close> (the day
    arithmetic against the Gregorian calendar) and \<open>DateModifiers\<close>.

  \<^bold>\<open>What the lemmas show.\<close> In each theory the first group of lemmas executes the operations on
  single steps and branches, the second one establishes the invariant of the component and that every
  operation keeps it, the last one states its contract. Contracts with a state are refinements of an
  abstract object, proved for programs, that is for every sequence of operations: the hash table of
  a map, the bitmap of a set, the queue of a list, the page of a list of cells, the allocator of a
  set of blocks that do not overlap. Formats are round trips: varints, serial values, records, page
  images, texts in three encodings, quoted names, dates. Orders are total preorders, which is what an
  index needs. Matchers and recognisers are equal to the language they decide.

  \<^bold>\<open>Bounds and fuel.\<close> The recursion of sqlite3BitvecSet is bounded by \<open>BITVEC_DEPTH = 7\<close>: each level
  divides the size by the number of sub-maps, and seven levels exceed 32 bits (a lemma, not an
  assumption). The loops of the C code are structural recursions on the remaining text, recursions
  with a termination proof, or \<open>partial_function (option)\<close> where a corrupt input can make the code
  loop; the theorems about them conclude that they return. The number of overflow cells of a page is
  at most five, as in the code. Dates are proved for the years 0 to 9999, the range that the parser
  accepts.

  \<^bold>\<open>Parameters.\<close> The keyword table and the LALR parser are generated (parse.c, keywordhash.h) and
  enter as functions; the seed of the random numbers, the clock and \<open>localtime\<close> come from the system;
  the precision of \<open>long double\<close> is that of the compiler, so sqlite3AtoF takes its rounding as an
  argument and the theorems ask only that integers below 2^53 are kept.

  \<^bold>\<open>Not modelled.\<close> The pager (pager.c, pcache.c) with its journal and locks, and with it the parts of
  btree.c that allocate, balance and free pages, since they are meaningful only over the pager's
  transactions. The compiler (select.c, where.c, expr.c, build.c and their companions) and the
  virtual machine (vdbe.c), whose correctness can be stated only for both together. printf.c, and the
  functions that only format with it. parse.c and opcodes.c are generated. The system layers
  (os_unix.c, os_win.c, os_os2.c) and the wrappers of malloc and of mutexes are calls to the system. The
  rest of the repository is C++ on Symbian's descriptors and active objects; the two other copies of
  SQLite in the repository are earlier versions of the same files.
\<close>

end
